(* ===== verification/Ltest_Prelude.thy ===== *)
theory Ltest_Prelude
  imports Main "HOL-Library.Word"
begin

text \<open>
  Prelude of the Ltest development: the result type of C++ code that can fail, the
  vector accesses with their range check written out, \<open>std::to_string\<close>, and the generic
  lemmas on lists that the component theories share.
  A failing \<open>assert\<close>, a thrown exception and an access that is undefined behaviour in the
  source are all values \<open>Inl e\<close> of the result type, never an unspecified HOL value.
  \<open>Out_Of_Fuel\<close> is no behaviour of the code: it is the result of a fuel-bounded recursion of
  the model whose fuel is used up, and the theorems show that the fuel given is enough.
\<close>

section \<open>Failures and results\<close>

named_theorems res_simps
named_theorems list_facts

datatype cxx_error =
    Assert_Failed string
  | Bad_Any_Cast
  | Bad_Function_Call
  | Out_Of_Range
  | Null_Deref
  | Div_By_Zero
  | Runtime_Error string
  | Invalid_Argument string
  | Undefined_Builtin
  | Out_Of_Fuel

type_synonym 'a res = "cxx_error + 'a"

definition res_bind :: "'a res \<Rightarrow> ('a \<Rightarrow> 'b res) \<Rightarrow> 'b res" where
  "res_bind m f = (case m of Inl e \<Rightarrow> Inl e | Inr x \<Rightarrow> f x)"

definition cxx_assert :: "string \<Rightarrow> bool \<Rightarrow> unit res" where
  "cxx_assert msg b = (if b then Inr () else Inl (Assert_Failed msg))"

lemma res_bind_Inr [simp, res_simps]: "res_bind (Inr x) f = f x"
  by (simp add: res_bind_def)

lemma res_bind_Inl [simp, res_simps]: "res_bind (Inl e) f = Inl e"
  by (simp add: res_bind_def)

lemma cxx_assert_True [simp, res_simps]: "cxx_assert msg True = Inr ()"
  by (simp add: cxx_assert_def)

lemma cxx_assert_False [simp, res_simps]: "cxx_assert msg False = Inl (Assert_Failed msg)"
  by (simp add: cxx_assert_def)

lemma cxx_assert_Inr_iff [res_simps]: "cxx_assert msg b = Inr u \<longleftrightarrow> b"
  by (cases b) simp_all

lemma res_bind_Inr_iff [res_simps]:
  "res_bind m f = Inr y \<longleftrightarrow> (\<exists>x. m = Inr x \<and> f x = Inr y)"
  by (cases m) auto

lemma res_case_E:
  assumes "case x of Inl _ \<Rightarrow> False | Inr (a, b) \<Rightarrow> P a b"
  obtains a b where "x = Inr (a, b)" "P a b"
  using assms by (cases x) auto

lemma res_bind_Inr_E:
  assumes "res_bind m f = Inr y"
  obtains x where "m = Inr x" and "f x = Inr y"
  using assms by (auto simp: res_bind_Inr_iff)

lemma res_bind_assoc: "res_bind (res_bind m f) g = res_bind m (\<lambda>x. res_bind (f x) g)"
  by (cases m) simp_all

lemma res_bind_cong [fundef_cong]:
  "m = m' \<Longrightarrow> (\<And>x. m' = Inr x \<Longrightarrow> f x = f' x) \<Longrightarrow> res_bind m f = res_bind m' f'"
  by (cases m') simp_all

lemma not_Inl_iff: "(\<forall>e. m \<noteq> Inl e) \<longleftrightarrow> (\<exists>x. m = Inr x)"
  by (cases m) auto

section \<open>Vector accesses\<close>

text \<open>
  \<open>std::vector::operator[]\<close> does not check its index; an index past the end is undefined
  behaviour, which the model reports as \<open>Out_Of_Range\<close> (the value \<open>at\<close> throws).
\<close>

definition vec_get :: "'a list \<Rightarrow> nat \<Rightarrow> 'a res" where
  "vec_get xs i = (if i < length xs then Inr (xs ! i) else Inl Out_Of_Range)"

definition vec_set :: "'a list \<Rightarrow> nat \<Rightarrow> 'a \<Rightarrow> 'a list res" where
  "vec_set xs i v = (if i < length xs then Inr (xs[i := v]) else Inl Out_Of_Range)"

lemma vec_get_in [simp]: "i < length xs \<Longrightarrow> vec_get xs i = Inr (xs ! i)"
  by (simp add: vec_get_def)

lemma vec_get_Inr_iff: "vec_get xs i = Inr v \<longleftrightarrow> i < length xs \<and> xs ! i = v"
  by (auto simp: vec_get_def)

lemma vec_set_in [simp]: "i < length xs \<Longrightarrow> vec_set xs i v = Inr (xs[i := v])"
  by (simp add: vec_set_def)

lemma vec_set_Inr_iff: "vec_set xs i v = Inr ys \<longleftrightarrow> i < length xs \<and> ys = xs[i := v]"
  by (auto simp: vec_set_def)

section \<open>Scanning a vector from an index\<close>

lemma takeWhile_drop_before:
  assumes "k \<le> i" "i < k + length (takeWhile P (drop k xs))"
  shows "P (xs ! i)"
proof -
  have j: "i - k < length (takeWhile P (drop k xs))" using assms by simp
  have "takeWhile P (drop k xs) ! (i - k) \<in> set (takeWhile P (drop k xs))" using j by (rule nth_mem)
  then have "P (takeWhile P (drop k xs) ! (i - k))" by (rule set_takeWhileD [THEN conjunct2])
  moreover have "k \<le> length xs" using j length_takeWhile_le [of P "drop k xs"] by simp
  ultimately show ?thesis using assms(1) takeWhile_nth [OF j] by simp
qed

lemma takeWhile_drop_at:
  assumes "k + length (takeWhile P (drop k xs)) < length xs"
  shows "\<not> P (xs ! (k + length (takeWhile P (drop k xs))))"
  using nth_length_takeWhile [of P "drop k xs"] assms by simp

section \<open>Counting flags in a bit vector\<close>

definition unset :: "bool list \<Rightarrow> nat set" where
  "unset l = {i. i < length l \<and> \<not> l ! i}"

lemma finite_unset [simp]: "finite (unset l)"
  by (simp add: unset_def)

lemma unset_update_True [list_facts]:
  "unset (l[i := True]) = unset l - {i}"
  by (cases "i < length l") (auto simp: unset_def nth_list_update list_update_beyond)

lemma unset_update_False [list_facts]:
  "i < length l \<Longrightarrow> unset (l[i := False]) = insert i (unset l)"
  by (auto simp: unset_def nth_list_update split: if_splits)

lemma unset_replicate [simp]: "unset (replicate n False) = {0..<n}"
  by (auto simp: unset_def)

lemma unset_empty_iff: "unset l = {} \<longleftrightarrow> list_all id l"
  by (auto simp: unset_def list_all_length)

lemma card_unset: "card (unset l) = count_list l False"
proof -
  have "unset l = {i. i < length l \<and> l ! i = False}" by (auto simp: unset_def)
  then show ?thesis
    by (simp add: count_list_eq_length_filter length_filter_conv_card eq_commute)
qed

lemma card_unset_le: "card (unset l) \<le> length l"
  by (simp add: card_unset count_le_length)

lemma count_list_True_False: "count_list l True + count_list l False = length l"
  by (induction l) auto

lemma count_list_True_card: "count_list l True = length l - card (unset l)"
  using count_list_True_False [of l] by (simp add: card_unset)

section \<open>Decimal rendering\<close>

text \<open>\<open>std::to_string\<close> on integers: the decimal digits, with a minus sign when negative.\<close>

definition digit_char :: "nat \<Rightarrow> char" where
  "digit_char d = char_of (48 + d)"

fun to_string_nat :: "nat \<Rightarrow> string" where
  "to_string_nat n =
     (if n < 10 then [digit_char n] else to_string_nat (n div 10) @ [digit_char (n mod 10)])"

declare to_string_nat.simps [simp del]

definition to_string_int :: "int \<Rightarrow> string" where
  "to_string_int i = (if i < 0 then CHR ''-'' # to_string_nat (nat (- i)) else to_string_nat (nat i))"

lemma to_string_nat_not_empty [simp]: "to_string_nat n \<noteq> []"
  by (subst to_string_nat.simps) simp

end
