(* ===== verification/Stable_Vector.thy ===== *)
theory Stable_Vector
  imports Ltest_Prelude
begin

text \<open>
  Model of \<open>runtime/include/stable_vector.h\<close>: the container that keeps the tasks of a thread,
  so that a reference to a task survives the creation of the next one. Bucket \<open>i\<close> of the 31
  buckets is a raw block of \<open>2 ^ i\<close> cells; element \<open>n\<close> lives in bucket \<open>log2 (n + 1)\<close>.

  A block carries the address that \<open>operator new\<close> returned (an argument of the operations
  that allocate), so that a reference to an element is a pair of a block address and an
  offset; a cell is \<open>None\<close> while it is raw memory and after its destructor has run. Every
  access the source does not check is checked here: a bucket index past the array is
  \<open>Out_Of_Range\<close>, a null bucket or a raw cell \<open>Null_Deref\<close>, \<open>__builtin_clzll(0)\<close>
  \<open>Undefined_Builtin\<close>. The sizes and the index arithmetic are on 64-bit words.
\<close>

unbundle bit_operations_syntax

section \<open>The container\<close>

record 'a block =
  blk_addr :: nat
  blk_cells :: "'a option list"

record 'a stable_vector =
  entities :: "'a block option list"
  total_size :: "64 word"

definition clzll :: "64 word \<Rightarrow> nat res" where
  "clzll x = (if x = 0 then Inl Undefined_Builtin
     else Inr (length (takeWhile (\<lambda>i. \<not> bit x i) (rev [0..<64]))))"

definition sv_empty :: "'a stable_vector" where
  "sv_empty = \<lparr>entities = replicate 31 None, total_size = 0\<rparr>"

text \<open>The bucket of a (one-based) position and the offset in it.\<close>

definition bucket_index :: "64 word \<Rightarrow> nat res" where
  "bucket_index x = res_bind (clzll x) (\<lambda>z. Inr (63 - z))"

definition internal_index :: "64 word \<Rightarrow> nat \<Rightarrow> nat" where
  "internal_index x index = unat (x XOR push_bit index 1)"

text \<open>Pointer accesses: the block a bucket points to, and a cell of a block.\<close>

definition get_block :: "'a stable_vector \<Rightarrow> nat \<Rightarrow> 'a block res" where
  "get_block v index = res_bind (vec_get (entities v) index) (\<lambda>b.
     case b of None \<Rightarrow> Inl Null_Deref | Some blk \<Rightarrow> Inr blk)"

definition get_cell :: "'a block \<Rightarrow> nat \<Rightarrow> 'a res" where
  "get_cell blk j = res_bind (vec_get (blk_cells blk) j) (\<lambda>c.
     case c of None \<Rightarrow> Inl Null_Deref | Some x \<Rightarrow> Inr x)"

definition put_cell :: "nat \<Rightarrow> nat \<Rightarrow> 'a option \<Rightarrow> 'a stable_vector \<Rightarrow> 'a stable_vector res" where
  "put_cell index j c v = res_bind (get_block v index) (\<lambda>blk.
     res_bind (vec_set (blk_cells blk) j c) (\<lambda>cs.
       Inr (v\<lparr>entities := (entities v)[index := Some (blk\<lparr>blk_cells := cs\<rparr>)]\<rparr>)))"

section \<open>Operations\<close>

definition emplace_back :: "nat \<Rightarrow> 'a \<Rightarrow> 'a stable_vector \<Rightarrow> 'a stable_vector res" where
  "emplace_back new_addr x v =
     res_bind (bucket_index (total_size v + 1)) (\<lambda>index.
     res_bind
       (if (total_size v + 1) AND total_size v = 0 then
          res_bind (vec_get (entities v) index) (\<lambda>b.
            if b = None then
              Inr (v\<lparr>entities := (entities v)[index :=
                Some \<lparr>blk_addr = new_addr, blk_cells = replicate (2 ^ index) None\<rparr>]\<rparr>)
            else Inr v)
        else Inr v) (\<lambda>v.
     res_bind (put_cell index (internal_index (total_size v + 1) index) (Some x) v) (\<lambda>v.
     Inr (v\<lparr>total_size := total_size v + 1\<rparr>))))"

definition pop_back :: "'a stable_vector \<Rightarrow> 'a stable_vector res" where
  "pop_back v =
     res_bind (bucket_index (total_size v)) (\<lambda>index.
     res_bind
       (if (total_size v - 1) AND total_size v = 0 then
          res_bind (vec_get (entities v) (index + 1)) (\<lambda>b.
            if b \<noteq> None then Inr (v\<lparr>entities := (entities v)[index + 1 := None]\<rparr>) else Inr v)
        else Inr v) (\<lambda>v.
     res_bind (get_block v index) (\<lambda>blk.
     res_bind (get_cell blk (internal_index (total_size v) index)) (\<lambda>destroyed.
     res_bind (put_cell index (internal_index (total_size v) index) None v) (\<lambda>v.
     Inr (v\<lparr>total_size := total_size v - 1\<rparr>))))))"

text \<open>\<open>operator[]\<close>: the reference it returns, and the element behind it.\<close>

definition sv_ref :: "'a stable_vector \<Rightarrow> 64 word \<Rightarrow> (nat \<times> nat) res" where
  "sv_ref v i =
     res_bind (bucket_index (i + 1)) (\<lambda>index.
     res_bind (get_block v index) (\<lambda>blk.
     Inr (blk_addr blk, internal_index (i + 1) index)))"

definition sv_at :: "'a stable_vector \<Rightarrow> 64 word \<Rightarrow> 'a res" where
  "sv_at v i =
     res_bind (bucket_index (i + 1)) (\<lambda>index.
     res_bind (get_block v index) (\<lambda>blk.
     get_cell blk (internal_index (i + 1) index)))"

definition sv_front :: "'a stable_vector \<Rightarrow> 'a res" where
  "sv_front v = sv_at v 0"

definition sv_back :: "'a stable_vector \<Rightarrow> 'a res" where
  "sv_back v = sv_at v (total_size v - 1)"

definition sv_size :: "'a stable_vector \<Rightarrow> 64 word" where
  "sv_size v = total_size v"

definition sv_is_empty :: "'a stable_vector \<Rightarrow> bool" where
  "sv_is_empty v = (sv_size v = 0)"

text \<open>
  \<open>resize\<close>: two loops, the first with the default value \<open>d\<close> of the element type. The address
  of a block allocated on the way comes from \<open>alloc\<close>, by the size at that moment.
\<close>

lemma put_cell_total_size: "put_cell index j c v = Inr v' \<Longrightarrow> total_size v' = total_size v"
  unfolding put_cell_def by (elim res_bind_Inr_E) auto

lemma emplace_back_total_size:
  "emplace_back a x v = Inr v' \<Longrightarrow> total_size v' = total_size v + 1"
  unfolding emplace_back_def
  by (elim res_bind_Inr_E) (auto dest!: put_cell_total_size elim!: res_bind_Inr_E split: if_splits)

lemma pop_back_total_size:
  "pop_back v = Inr v' \<Longrightarrow> total_size v' = total_size v - 1"
  unfolding pop_back_def
  by (elim res_bind_Inr_E) (auto dest!: put_cell_total_size elim!: res_bind_Inr_E split: if_splits)

function resize_grow ::
    "(64 word \<Rightarrow> nat) \<Rightarrow> 'a \<Rightarrow> 64 word \<Rightarrow> 'a stable_vector \<Rightarrow> 'a stable_vector res" where
  "resize_grow alloc d new_size v =
     (if new_size > total_size v
      then res_bind (emplace_back (alloc (total_size v)) d v) (resize_grow alloc d new_size)
      else Inr v)"
  by pat_completeness auto
termination
proof (relation "measure (\<lambda>(_, _, new_size, v). unat (new_size - total_size v))")
  fix alloc :: "64 word \<Rightarrow> nat" and d :: 'a and new_size :: "64 word" and v v' :: "'a stable_vector"
  assume lt: "total_size v < new_size" and step: "emplace_back (alloc (total_size v)) d v = Inr v'"
  have "new_size - total_size v \<noteq> 0" using lt by auto
  then have "unat (new_size - total_size v - 1) < unat (new_size - total_size v)"
    by (simp add: unat_minus_one unat_gt_0)
  then show "((alloc, d, new_size, v'), alloc, d, new_size, v)
      \<in> measure (\<lambda>(_, _, new_size, v). unat (new_size - total_size v))"
    using emplace_back_total_size [OF step] by (simp add: algebra_simps)
qed simp

function resize_shrink :: "64 word \<Rightarrow> 'a stable_vector \<Rightarrow> 'a stable_vector res" where
  "resize_shrink new_size v =
     (if new_size < total_size v then res_bind (pop_back v) (resize_shrink new_size) else Inr v)"
  by pat_completeness auto
termination
proof (relation "measure (\<lambda>(_, v). unat (total_size v))")
  fix new_size :: "64 word" and v v' :: "'a stable_vector"
  assume lt: "new_size < total_size v" and step: "pop_back v = Inr v'"
  have "total_size v \<noteq> 0" using lt by auto
  then show "((new_size, v'), new_size, v) \<in> measure (\<lambda>(_, v). unat (total_size v))"
    using pop_back_total_size [OF step] by (simp add: unat_minus_one unat_gt_0)
qed simp

declare resize_grow.simps [simp del] resize_shrink.simps [simp del]

definition sv_resize ::
    "(64 word \<Rightarrow> nat) \<Rightarrow> 'a \<Rightarrow> 64 word \<Rightarrow> 'a stable_vector \<Rightarrow> 'a stable_vector res" where
  "sv_resize alloc d new_size v =
     res_bind (resize_grow alloc d new_size v) (resize_shrink new_size)"

text \<open>
  The move constructor and the move assignment return the new value of \<open>*this\<close> and of the
  moved-from vector. The constructor starts from null buckets and leaves \<open>rhs.total_size\<close>.
\<close>

definition sv_move_construct :: "'a stable_vector \<Rightarrow> 'a stable_vector \<times> 'a stable_vector" where
  "sv_move_construct rhs =
     (\<lparr>entities = entities rhs, total_size = total_size rhs\<rparr>,
      rhs\<lparr>entities := replicate 31 None\<rparr>)"

definition sv_move_assign ::
    "'a stable_vector \<Rightarrow> 'a stable_vector \<Rightarrow> 'a stable_vector \<times> 'a stable_vector" where
  "sv_move_assign this rhs =
     (\<lparr>entities = entities rhs, total_size = total_size rhs\<rparr>,
      \<lparr>entities = entities this, total_size = 0\<rparr>)"

text \<open>
  The destructor: the elements in the order in which their destructors run, and the
  addresses of the blocks it frees. The outer loop stops at the first null bucket.
\<close>

fun destroy_cells :: "'a block \<Rightarrow> nat \<Rightarrow> 64 word \<Rightarrow> nat list \<Rightarrow> 'a list res" where
  "destroy_cells blk i sz [] = Inr []"
| "destroy_cells blk i sz (j # js) =
     (if of_nat j < push_bit i (1 :: 64 word) \<and> of_nat j + push_bit i 1 < sz + 1
      then res_bind (get_cell blk j) (\<lambda>x.
           res_bind (destroy_cells blk i sz js) (\<lambda>xs. Inr (x # xs)))
      else Inr [])"

fun destroy_blocks ::
    "'a block option list \<Rightarrow> nat \<Rightarrow> 64 word \<Rightarrow> ('a list \<times> nat list) res" where
  "destroy_blocks [] i sz = Inr ([], [])"
| "destroy_blocks (None # bs) i sz = Inr ([], [])"
| "destroy_blocks (Some blk # bs) i sz =
     res_bind (destroy_cells blk i sz [0..<2 ^ i + 1]) (\<lambda>xs.
     res_bind (destroy_blocks bs (Suc i) sz) (\<lambda>(ys, addrs).
     Inr (xs @ ys, blk_addr blk # addrs)))"

definition sv_destroy :: "'a stable_vector \<Rightarrow> ('a list \<times> nat list) res" where
  "sv_destroy v = destroy_blocks (entities v) 0 (sv_size v)"

section \<open>Index arithmetic\<close>

lemma takeWhile_rev_upt:
  assumes "k < n" "P k" "\<And>i. k < i \<Longrightarrow> i < n \<Longrightarrow> \<not> P i"
  shows "length (takeWhile (\<lambda>i. \<not> P i) (rev [0..<n])) = n - Suc k"
proof -
  have "[0..<n] = [0..<k] @ k # [Suc k..<n]"
    using assms(1) upt_add_eq_append [of 0 k "n - k"] by (simp add: upt_conv_Cons)
  then have "rev [0..<n] = rev [Suc k..<n] @ k # rev [0..<k]" by simp
  moreover have "takeWhile (\<lambda>i. \<not> P i) (rev [Suc k..<n] @ k # rev [0..<k]) = rev [Suc k..<n]"
    using assms(2,3) by (subst takeWhile_append2) auto
  ultimately show ?thesis by simp
qed

lemma top_bit:
  fixes n :: nat
  assumes "2 ^ k \<le> n" "n < 2 ^ Suc k"
  shows "bit n k" "k < i \<Longrightarrow> \<not> bit n i"
proof -
  have "n div 2 ^ k = 1" using assms by (simp add: div_nat_eqI)
  then show "bit n k" by (simp add: bit_iff_odd)
  assume "k < i"
  then have "(2::nat) ^ Suc k \<le> 2 ^ i" by (intro power_increasing) auto
  then have "n < 2 ^ i" using assms by simp
  then show "\<not> bit n i" by (simp add: bit_iff_odd)
qed

lemma xor_top:
  fixes r :: nat
  assumes "r < 2 ^ k"
  shows "(2 ^ k + r) XOR 2 ^ k = r"
proof -
  have "\<not> bit r k" using assms by (simp add: bit_iff_odd)
  then have "2 ^ k AND r = 0" by (intro bit_eqI) (auto simp: bit_simps)
  then have "2 ^ k + r = 2 ^ k XOR r" by (rule disjunctive_add_eq_xor)
  then show ?thesis by (simp add: ac_simps flip: xor.assoc)
qed

lemma and_pred_top:
  fixes r :: nat
  assumes "r < 2 ^ k"
  shows "(2 ^ k + r) AND (2 ^ k + r - 1) = 0 \<longleftrightarrow> r = 0"
proof (cases "r = 0")
  case True
  have "(2::nat) ^ k AND (2 ^ k - 1) = 0" using take_bit_eq_mask [of k "2 ^ k :: nat"]
    by (simp add: mask_eq_exp_minus_1 take_bit_eq_mod)
  with True show ?thesis by simp
next
  case False
  then have "bit (2 ^ k + r) k" "bit (2 ^ k + r - 1) k" using assms by (auto intro!: top_bit)
  then have "bit ((2 ^ k + r) AND (2 ^ k + r - 1)) k" unfolding bit_and_iff by blast
  with False show ?thesis by (metis bit_0_eq bot_apply bot_bool_def)
qed

lemma position_cases:
  fixes p :: nat
  assumes "0 < p"
  obtains k r where "p = 2 ^ k + r" "r < 2 ^ k"
proof -
  obtain k where "2 ^ k \<le> p" "p < 2 ^ (k + 1)" using ex_power_ivl1 [of 2 p] assms by auto
  then show ?thesis by (intro that [of k "p - 2 ^ k"]) auto
qed

lemma position_unique:
  fixes r r' :: nat
  assumes "2 ^ k + r = 2 ^ k' + r'" "r < 2 ^ k" "r' < 2 ^ k'"
  shows "k = k'" "r = r'"
proof -
  have "\<not> k < k'" if "2 ^ k + r = 2 ^ k' + r'" "r < 2 ^ k" for k k' r r' :: nat
  proof
    assume "k < k'"
    then have "(2::nat) ^ Suc k \<le> 2 ^ k'" by (intro power_increasing) auto
    with that show False by simp
  qed
  from this [OF assms(1,2)] this [OF assms(1) [symmetric] assms(3)] show "k = k'" by simp
  with assms(1) show "r = r'" by simp
qed

lemma bucket_index_eq:
  assumes "unat x = 2 ^ k + r" "r < 2 ^ k"
  shows "bucket_index x = Inr k" "k < 64" "internal_index x k = r"
proof -
  have b: "2 ^ k \<le> unat x" "unat x < 2 ^ Suc k" using assms by simp_all
  have "unat x < 2 ^ 64" using unsigned_less [of x] by simp
  with b(1) have "(2::nat) ^ k < 2 ^ 64" by simp
  then show k: "k < 64" by (rule power_less_imp_less_exp [rotated]) simp
  have bit: "bit x i \<longleftrightarrow> bit (unat x) i" for i
    by (auto simp: bit_unsigned_iff dest: bit_imp_le_length)
  have "x \<noteq> 0" using b(1) by auto
  then have "clzll x = Inr (63 - k)"
    using takeWhile_rev_upt [of k 64 "bit x"] top_bit [OF b] k by (simp add: clzll_def bit)
  then show "bucket_index x = Inr k" using k by (simp add: bucket_index_def)
  have "push_bit k (1 :: 64 word) = of_nat (2 ^ k)" by (simp add: push_bit_eq_mult)
  then have "unat (push_bit k (1 :: 64 word)) = 2 ^ k"
    using k by (simp only: unsigned_of_nat) (simp add: take_bit_nat_eq_self)
  then show "internal_index x k = r"
    using xor_top [OF assms(2)] by (simp add: internal_index_def unsigned_xor_eq assms(1))
qed

lemma and_pred_word:
  fixes x :: "64 word"
  assumes "unat x = 2 ^ k + r" "r < 2 ^ k"
  shows "x AND (x - 1) = 0 \<longleftrightarrow> r = 0"
proof -
  have "x \<noteq> 0" using assms(1) by auto
  then have "unat (x - 1) = 2 ^ k + r - 1" by (simp add: unat_minus_one assms(1))
  then have "unat (x AND (x - 1)) = (2 ^ k + r) AND (2 ^ k + r - 1)"
    by (simp only: unsigned_and_eq assms(1))
  with and_pred_top [OF assms(2)] show ?thesis by (metis unsigned_eq_0_iff)
qed

section \<open>The representation invariant\<close>

text \<open>
  With \<open>n\<close> elements: a bucket that an element lives in is allocated; a bucket that starts
  past \<open>2 * n + 1\<close> is not (at most one spare bucket stays); a block has its full length and
  its constructed cells are those of the positions up to \<open>n\<close>.
\<close>

definition block_ok :: "nat \<Rightarrow> nat \<Rightarrow> 'a block option \<Rightarrow> bool" where
  "block_ok n i b = (case b of
     None \<Rightarrow> n < 2 ^ i
   | Some blk \<Rightarrow> 2 ^ i \<le> 2 * n + 1 \<and> length (blk_cells blk) = 2 ^ i
       \<and> (\<forall>j < 2 ^ i. blk_cells blk ! j \<noteq> None \<longleftrightarrow> 2 ^ i + j \<le> n))"

definition sv_inv :: "'a stable_vector \<Rightarrow> bool" where
  "sv_inv v \<longleftrightarrow> length (entities v) = 31 \<and> unat (total_size v) < 2 ^ 31
     \<and> (\<forall>i < 31. block_ok (unat (total_size v)) i (entities v ! i))"

text \<open>The contents as a list, read through \<open>operator[]\<close>.\<close>

definition sv_list :: "'a stable_vector \<Rightarrow> 'a list" where
  "sv_list v = map (\<lambda>m. projr (sv_at v (of_nat m))) [0..<unat (total_size v)]"

text \<open>The cell with offset \<open>j\<close> of bucket \<open>k\<close>, and the address of the bucket's block.\<close>

definition cell_at :: "'a stable_vector \<Rightarrow> nat \<Rightarrow> nat \<Rightarrow> 'a option" where
  "cell_at v k j = (case entities v ! k of None \<Rightarrow> None | Some blk \<Rightarrow> blk_cells blk ! j)"

definition addr_at :: "'a stable_vector \<Rightarrow> nat \<Rightarrow> nat option" where
  "addr_at v k = map_option blk_addr (entities v ! k)"

lemma length_sv_list [simp]: "length (sv_list v) = unat (total_size v)"
  by (simp add: sv_list_def)

lemma sv_inv_block:
  "sv_inv v \<Longrightarrow> i < 31 \<Longrightarrow> block_ok (unat (total_size v)) i (entities v ! i)"
  by (simp add: sv_inv_def)

lemma position_bucket:
  assumes "(2::nat) ^ k + r < 2 ^ 31"
  shows "k < 31"
proof -
  have "(2::nat) ^ k < 2 ^ 31" using assms by simp
  then show ?thesis by (rule power_less_imp_less_exp [rotated]) simp
qed

lemma allocated:
  assumes "sv_inv v" "2 ^ k + r \<le> unat (total_size v)" "r < 2 ^ k"
  obtains blk where "k < 31" "entities v ! k = Some blk" "length (blk_cells blk) = 2 ^ k"
    "cell_at v k r = blk_cells blk ! r" "cell_at v k r \<noteq> None"
proof -
  have k: "k < 31" using assms(1,2) by (intro position_bucket [of k r]) (auto simp: sv_inv_def)
  from sv_inv_block [OF assms(1) this] assms(2,3) show ?thesis
    by (cases "entities v ! k") (auto intro: that [OF k] simp: block_ok_def cell_at_def)
qed

lemma unat_small: "n < 2 ^ 64 \<Longrightarrow> unat (of_nat n :: 64 word) = n"
  by (simp add: unsigned_of_nat take_bit_nat_eq_self)

lemma sv_at_cell:
  assumes "sv_inv v" "m < unat (total_size v)" "Suc m = 2 ^ k + r" "r < 2 ^ k"
  shows "sv_at v (of_nat m) = Inr (the (cell_at v k r))"
    and "\<exists>a. addr_at v k = Some a \<and> sv_ref v (of_nat m) = Inr (a, r)"
proof -
  from allocated [OF assms(1) _ assms(4)] assms(2,3) obtain blk where blk:
      "k < 31" "entities v ! k = Some blk" "length (blk_cells blk) = 2 ^ k"
      "cell_at v k r = blk_cells blk ! r" "cell_at v k r \<noteq> None"
    by (metis Suc_leI)
  have len: "length (entities v) = 31" and sz: "unat (total_size v) < 2 ^ 31"
    using assms(1) by (auto simp: sv_inv_def)
  have "unat (of_nat (Suc m) :: 64 word) = Suc m" using assms(2) sz by (intro unat_small) simp
  moreover have "of_nat m + 1 = (of_nat (Suc m) :: 64 word)" by simp
  ultimately have "unat (of_nat m + 1 :: 64 word) = 2 ^ k + r" by (metis assms(3))
  note idx = bucket_index_eq [OF this assms(4)]
  show "sv_at v (of_nat m) = Inr (the (cell_at v k r))"
    using blk len assms(4) idx by (auto simp: sv_at_def get_block_def get_cell_def)
  show "\<exists>a. addr_at v k = Some a \<and> sv_ref v (of_nat m) = Inr (a, r)"
    using blk len idx by (auto simp: sv_ref_def get_block_def addr_at_def)
qed

section \<open>The operations keep the invariant\<close>

lemma unat_Suc_word:
  "unat (x :: 64 word) + 1 < 2 ^ 64 \<Longrightarrow> unat (x + 1) = Suc (unat x)"
  using unat_small [of "Suc (unat x)"] by (simp add: add.commute)

lemma emplace_back_eq:
  assumes inv: "sv_inv v" and n: "Suc (unat (total_size v)) = 2 ^ k + r" "r < 2 ^ k" and k: "k < 31"
  shows "\<exists>blk. emplace_back a x v = Inr \<lparr>entities = (entities v)[k := Some (blk\<lparr>blk_cells :=
            (blk_cells blk)[r := Some x]\<rparr>)], total_size = total_size v + 1\<rparr>
          \<and> length (blk_cells blk) = 2 ^ k
          \<and> (\<forall>j < 2 ^ k. blk_cells blk ! j \<noteq> None \<longleftrightarrow> 2 ^ k + j \<le> unat (total_size v))
          \<and> (entities v ! k = Some blk \<or> entities v ! k = None \<and> unat (total_size v) < 2 ^ k
              \<and> blk = \<lparr>blk_addr = a, blk_cells = replicate (2 ^ k) None\<rparr>)"
proof -
  have len: "length (entities v) = 31" and sz: "unat (total_size v) < 2 ^ 31"
    using inv by (auto simp: sv_inv_def)
  have u: "unat (total_size v + 1) = 2 ^ k + r" using unat_Suc_word [of "total_size v"] sz n by simp
  note idx = bucket_index_eq [OF u n(2)]
  have pw: "(total_size v + 1) AND total_size v = 0 \<longleftrightarrow> r = 0"
    using and_pred_word [OF u n(2)] by simp
  show ?thesis
  proof (cases "entities v ! k")
    case None
    then have "unat (total_size v) < 2 ^ k" using sv_inv_block [OF inv k] by (simp add: block_ok_def)
    with n have r: "r = 0" by simp
    define blk :: "'a block" where "blk = \<lparr>blk_addr = a, blk_cells = replicate (2 ^ k) None\<rparr>"
    show ?thesis
      using None r k len idx pw \<open>unat (total_size v) < 2 ^ k\<close>
      by (intro exI [of _ blk])
        (simp add: emplace_back_def put_cell_def get_block_def blk_def)
  next
    case (Some blk)
    with sv_inv_block [OF inv k] have "length (blk_cells blk) = 2 ^ k"
        "\<forall>j < 2 ^ k. blk_cells blk ! j \<noteq> None \<longleftrightarrow> 2 ^ k + j \<le> unat (total_size v)"
      by (simp_all add: block_ok_def)
    then show ?thesis
      using Some k len idx n(2)
      by (intro exI [of _ blk]) (simp add: emplace_back_def put_cell_def get_block_def)
  qed
qed

lemma emplace_back_ok:
  assumes inv: "sv_inv v" and n: "Suc (unat (total_size v)) = 2 ^ k + r" "r < 2 ^ k"
    and room: "unat (total_size v) + 1 < 2 ^ 31"
  shows "\<exists>v'. emplace_back a x v = Inr v' \<and> sv_inv v' \<and> total_size v' = total_size v + 1
    \<and> (\<forall>k' < 31. \<forall>j < 2 ^ k'. cell_at v' k' j = (if k' = k \<and> j = r then Some x else cell_at v k' j))
    \<and> (\<forall>k' b. k' < 31 \<and> addr_at v k' = Some b \<longrightarrow> addr_at v' k' = Some b)"
proof -
  have k: "k < 31" using n(1) room by (intro position_bucket [of k r]) simp
  from emplace_back_eq [OF inv n k, of a x] obtain blk where
    e: "emplace_back a x v = Inr \<lparr>entities = (entities v)[k := Some (blk\<lparr>blk_cells :=
            (blk_cells blk)[r := Some x]\<rparr>)], total_size = total_size v + 1\<rparr>" (is "_ = Inr ?v'")
    and cells: "length (blk_cells blk) = 2 ^ k"
      "\<And>j. j < 2 ^ k \<Longrightarrow> blk_cells blk ! j \<noteq> None \<longleftrightarrow> 2 ^ k + j \<le> unat (total_size v)"
    and old: "entities v ! k = Some blk \<or> entities v ! k = None \<and> unat (total_size v) < 2 ^ k
              \<and> blk = \<lparr>blk_addr = a, blk_cells = replicate (2 ^ k) None\<rparr>"
    by blast
  have len: "length (entities v) = 31" using inv by (simp add: sv_inv_def)
  have u: "unat (total_size v + 1) = Suc (unat (total_size v))" using unat_Suc_word room by simp
  have "block_ok (Suc (unat (total_size v))) i (entities ?v' ! i)" if i: "i < 31" for i
  proof (cases "i = k")
    case True
    have "2 ^ k + j \<le> unat (total_size v) \<longleftrightarrow> 2 ^ k + j \<le> 2 ^ k + r \<and> j \<noteq> r" for j
      using n(1) by auto
    then show ?thesis using True k len cells n
      by (auto simp: block_ok_def nth_list_update)
  next
    case False
    have "2 ^ i + j \<noteq> Suc (unat (total_size v))" if "j < 2 ^ i" for j
      using position_unique(1) [of i j k r] n that False by auto
    then have "2 ^ i + j \<le> Suc (unat (total_size v)) \<longleftrightarrow> 2 ^ i + j \<le> unat (total_size v)"
      if "j < 2 ^ i" for j using that le_Suc_eq by metis
    moreover from this [of 0] have "unat (total_size v) < 2 ^ i \<longleftrightarrow> Suc (unat (total_size v)) < 2 ^ i"
      by auto
    ultimately show ?thesis using sv_inv_block [OF inv i] False
      by (auto simp: block_ok_def split: option.splits)
  qed
  then have "sv_inv ?v'" using len room u by (simp add: sv_inv_def)
  moreover have "cell_at ?v' k' j = (if k' = k \<and> j = r then Some x else cell_at v k' j)"
    if "k' < 31" "j < 2 ^ k'" for k' j
    using that old len cells(1) by (cases "k' = k") (auto simp: cell_at_def)
  moreover have "addr_at ?v' k' = Some b" if "k' < 31" "addr_at v k' = Some b" for k' b
    using that old len by (cases "k' = k") (auto simp: addr_at_def)
  ultimately show ?thesis using e by auto
qed

text \<open>
  \<open>pop_back\<close> also reads the bucket after the one it pops from, when it pops the first
  element of a bucket: at \<open>2 ^ 30\<close> elements that is bucket 31, past the end of the array.
\<close>

lemma pop_back_eq:
  assumes inv: "sv_inv v" and n: "unat (total_size v) = 2 ^ k + r" "r < 2 ^ k"
    and k: "r = 0 \<Longrightarrow> k < 30"
  shows "\<exists>blk. pop_back v = Inr \<lparr>entities = (if r = 0 then (entities v)[k + 1 := None] else entities v)
            [k := Some (blk\<lparr>blk_cells := (blk_cells blk)[r := None]\<rparr>)], total_size = total_size v - 1\<rparr>
          \<and> entities v ! k = Some blk \<and> length (blk_cells blk) = 2 ^ k"
proof -
  from allocated [OF inv _ n(2)] n(1) obtain blk where blk: "k < 31" "entities v ! k = Some blk"
      "length (blk_cells blk) = 2 ^ k" "cell_at v k r = blk_cells blk ! r" "cell_at v k r \<noteq> None"
    by (metis order_refl)
  have len: "length (entities v) = 31" using inv by (simp add: sv_inv_def)
  have pw: "(total_size v - 1) AND total_size v = 0 \<longleftrightarrow> r = 0"
    using and_pred_word [OF n] by (simp add: and.commute)
  from blk(4,5) obtain y where y: "blk_cells blk ! r = Some y" by auto
  have "entities v ! Suc k = None \<Longrightarrow> (entities v)[Suc k := None] = entities v"
    by (metis list_update_id)
  then show ?thesis using blk(1-3) y len k n(2) pw bucket_index_eq [OF n]
    by (cases "entities v ! Suc k") (auto simp: pop_back_def get_block_def get_cell_def put_cell_def)
qed

lemma pop_back_ok:
  assumes inv: "sv_inv v" and n: "unat (total_size v) = 2 ^ k + r" "r < 2 ^ k"
    and k: "unat (total_size v) \<noteq> 2 ^ 30"
  shows "\<exists>v'. pop_back v = Inr v' \<and> sv_inv v' \<and> total_size v' = total_size v - 1
    \<and> (\<forall>k' < 31. \<forall>j < 2 ^ k'. cell_at v' k' j = (if k' = k \<and> j = r then None else cell_at v k' j))
    \<and> (\<forall>k' < 31. 2 ^ k' \<le> unat (total_size v) \<longrightarrow> addr_at v' k' = addr_at v k')"
proof -
  have k31: "k < 31" using n inv by (intro position_bucket [of k r]) (simp add: sv_inv_def)
  have k30: "r = 0 \<Longrightarrow> k < 30" using n k k31 by (cases "k = 30") auto
  define es where "es = (if r = 0 then (entities v)[k + 1 := None] else entities v)"
  from pop_back_eq [OF inv n k30] obtain blk where
    e: "pop_back v = Inr \<lparr>entities = es[k := Some (blk\<lparr>blk_cells := (blk_cells blk)[r := None]\<rparr>)],
          total_size = total_size v - 1\<rparr>" (is "_ = Inr ?v'")
    and blk: "entities v ! k = Some blk" "length (blk_cells blk) = 2 ^ k"
    unfolding es_def by blast
  have len: "length (entities v) = 31" "length es = 31" using inv by (simp_all add: sv_inv_def es_def)
  have u: "unat (total_size v - 1) = unat (total_size v) - 1" using n by (intro unat_minus_one) auto
  have es: "es ! i = (if r = 0 \<and> i = k + 1 then None else entities v ! i)" if "i < 31" for i
    using that len k30 by (auto simp: es_def nth_list_update)
  have old: "block_ok (2 ^ k + r) i (entities v ! i)" if "i < 31" for i
    using sv_inv_block [OF inv that] n by simp
  have "block_ok (2 ^ k + r - 1) i (entities ?v' ! i)" if i: "i < 31" for i
  proof (cases "i = k")
    case True
    have "2 ^ k + j \<le> 2 ^ k + r - 1 \<longleftrightarrow> 2 ^ k + j \<le> 2 ^ k + r \<and> j \<noteq> r" for j
      using n(2) by auto
    then show ?thesis using True old [OF k31] blk len i n(2)
      by (auto simp: block_ok_def nth_list_update)
  next
    case False
    have ne: "2 ^ i + j \<noteq> 2 ^ k + r" if "j < 2 ^ i" for j
      using position_unique(1) [of i j k r] n that False by auto
    then have le: "2 ^ i + j \<le> 2 ^ k + r - 1 \<longleftrightarrow> 2 ^ i + j \<le> 2 ^ k + r" if "j < 2 ^ i" for j
      using that ne [OF that] by linarith
    have spare: "2 ^ i \<le> 2 * (2 ^ k + r - 1) + 1" if "2 ^ i \<le> 2 * (2 ^ k + r) + 1" "\<not> (r = 0 \<and> i = k + 1)"
    proof (cases "i \<le> k")
      case True
      then have "i < k" using False by simp
      then have "(2::nat) ^ Suc i \<le> 2 ^ k" by (intro power_increasing) auto
      then show ?thesis by simp
    next
      case i: False
      then have "(2::nat) ^ Suc k \<le> 2 ^ i" by (intro power_increasing) auto
      show ?thesis
      proof (cases "i = Suc k")
        case True
        with that(2) show ?thesis by simp
      next
        case False
        with i have "(2::nat) ^ Suc (Suc k) \<le> 2 ^ i" by (intro power_increasing) auto
        with that(1) n(2) show ?thesis by simp
      qed
    qed
    show ?thesis using old [OF i] le le [of 0] spare False es [OF i] len
      by (cases "r = 0 \<and> i = k + 1") (auto simp: block_ok_def split: option.splits)
  qed
  then have "sv_inv ?v'" using inv len n u by (auto simp: sv_inv_def)
  moreover have "cell_at ?v' k' j = (if k' = k \<and> j = r then None else cell_at v k' j)"
    if "k' < 31" "j < 2 ^ k'" for k' j
  proof -
    have "cell_at v (k + 1) j = None" if "r = 0" "k' = k + 1"
      using old [of "k + 1"] \<open>k' < 31\<close> \<open>j < 2 ^ k'\<close> that
      by (cases "entities v ! (k + 1)") (auto simp: block_ok_def cell_at_def)
    then show ?thesis using that blk len es [OF \<open>k' < 31\<close>] by (cases "k' = k") (auto simp: cell_at_def)
  qed
  moreover have "addr_at ?v' k' = addr_at v k'" if "k' < 31" "2 ^ k' \<le> unat (total_size v)" for k'
    using that blk len es [OF \<open>k' < 31\<close>] n by (cases "k' = k") (auto simp: addr_at_def)
  ultimately show ?thesis using e by auto
qed

section \<open>The contents as a list\<close>

lemma sv_list_nth:
  assumes "sv_inv v" "m < unat (total_size v)"
  shows "sv_at v (of_nat m) = Inr (sv_list v ! m)"
proof -
  obtain k r where "Suc m = 2 ^ k + r" "r < 2 ^ k" using position_cases [of "Suc m"] by blast
  from sv_at_cell(1) [OF assms this] show ?thesis using assms(2) by (simp add: sv_list_def)
qed

lemma same_position:
  assumes "sv_inv v" "sv_inv v'" "m < unat (total_size v)" "m < unat (total_size v')"
    and cells: "\<And>k r. Suc m = 2 ^ k + r \<Longrightarrow> r < 2 ^ k \<Longrightarrow> k < 31 \<Longrightarrow> 2 ^ k \<le> unat (total_size v)
      \<Longrightarrow> cell_at v' k r = cell_at v k r \<and> addr_at v' k = addr_at v k"
  shows "sv_at v' (of_nat m) = sv_at v (of_nat m)" "sv_ref v' (of_nat m) = sv_ref v (of_nat m)"
proof -
  obtain k r where p: "Suc m = 2 ^ k + r" "r < 2 ^ k" using position_cases [of "Suc m"] by blast
  have "k < 31" using p assms(1,3) by (intro position_bucket [of k r]) (auto simp: sv_inv_def)
  with cells [OF p] p assms(3) have c: "cell_at v' k r = cell_at v k r" "addr_at v' k = addr_at v k"
    by auto
  show "sv_at v' (of_nat m) = sv_at v (of_nat m)"
    using sv_at_cell(1) [OF assms(1,3) p] sv_at_cell(1) [OF assms(2,4) p] c by simp
  show "sv_ref v' (of_nat m) = sv_ref v (of_nat m)"
    using sv_at_cell(2) [OF assms(1,3) p] sv_at_cell(2) [OF assms(2,4) p] c by auto
qed

lemma sv_list_eqI:
  assumes "unat (total_size v') = length xs" "\<And>m. m < length xs \<Longrightarrow> sv_at v' (of_nat m) = Inr (xs ! m)"
  shows "sv_list v' = xs"
  using assms by (intro nth_equalityI) (simp_all add: sv_list_def)

lemma emplace_back_list:
  assumes inv: "sv_inv v" and room: "unat (total_size v) + 1 < 2 ^ 31"
  shows "\<exists>v'. emplace_back a x v = Inr v' \<and> sv_inv v' \<and> sv_list v' = sv_list v @ [x]
    \<and> (\<forall>m < length (sv_list v). sv_ref v' (of_nat m) = sv_ref v (of_nat m))"
proof -
  let ?n = "unat (total_size v)"
  obtain k r where n: "Suc ?n = 2 ^ k + r" "r < 2 ^ k" using position_cases [of "Suc ?n"] by blast
  from emplace_back_ok [OF inv n room] obtain v' where v': "emplace_back a x v = Inr v'" "sv_inv v'"
      "total_size v' = total_size v + 1"
      "\<forall>k' < 31. \<forall>j < 2 ^ k'. cell_at v' k' j = (if k' = k \<and> j = r then Some x else cell_at v k' j)"
      "\<forall>k' b. k' < 31 \<and> addr_at v k' = Some b \<longrightarrow> addr_at v' k' = Some b"
    by blast
  have u: "unat (total_size v') = Suc ?n" using v'(3) unat_Suc_word room by simp
  have same: "cell_at v' k' j = cell_at v k' j \<and> addr_at v' k' = addr_at v k'"
    if p: "Suc m = 2 ^ k' + j" "j < 2 ^ k'" "k' < 31" "m < ?n" for m k' j
  proof -
    have "\<not> (k' = k \<and> j = r)" using p n by auto
    moreover obtain b where "addr_at v k' = Some b"
      using allocated [OF inv _ p(2)] p(1,4) unfolding addr_at_def by (metis Suc_leI option.simps(9))
    ultimately show ?thesis using v'(4,5) p by metis
  qed
  have ref: "sv_at v' (of_nat m) = sv_at v (of_nat m) \<and> sv_ref v' (of_nat m) = sv_ref v (of_nat m)"
    if "m < ?n" for m
    using same_position [OF inv v'(2) that] same that u by simp
  have k: "k < 31" using n(1) room by (intro position_bucket [of k r]) simp
  have "sv_at v' (of_nat ?n) = Inr x"
    using sv_at_cell(1) [OF v'(2) _ n] u v'(4) k n(2) by simp
  then have "sv_list v' = sv_list v @ [x]"
    using ref u sv_list_nth [OF inv] by (intro sv_list_eqI) (auto simp: nth_append less_Suc_eq)
  then show ?thesis using v'(1,2) ref by simp
qed

lemma pop_back_list:
  assumes inv: "sv_inv v" and ne: "sv_list v \<noteq> []" and no: "length (sv_list v) \<noteq> 2 ^ 30"
  shows "\<exists>v'. pop_back v = Inr v' \<and> sv_inv v' \<and> sv_list v' = butlast (sv_list v)
    \<and> (\<forall>m < length (sv_list v'). sv_ref v' (of_nat m) = sv_ref v (of_nat m))"
proof -
  let ?n = "unat (total_size v)"
  have pos: "0 < ?n" using ne by (metis length_greater_0_conv length_sv_list)
  obtain k r where n: "?n = 2 ^ k + r" "r < 2 ^ k" using position_cases [OF pos] by blast
  from pop_back_ok [OF inv n] no obtain v' where v': "pop_back v = Inr v'" "sv_inv v'"
      "total_size v' = total_size v - 1"
      "\<forall>k' < 31. \<forall>j < 2 ^ k'. cell_at v' k' j = (if k' = k \<and> j = r then None else cell_at v k' j)"
      "\<forall>k' < 31. 2 ^ k' \<le> ?n \<longrightarrow> addr_at v' k' = addr_at v k'"
    by auto
  have u: "unat (total_size v') = ?n - 1" using v'(3) pos by (simp add: unat_minus_one unat_gt_0)
  have ref: "sv_at v' (of_nat m) = sv_at v (of_nat m) \<and> sv_ref v' (of_nat m) = sv_ref v (of_nat m)"
    if m: "m < ?n - 1" for m
  proof -
    have lt: "m < ?n" "m < unat (total_size v')" using m u by auto
    have "cell_at v' k' j = cell_at v k' j \<and> addr_at v' k' = addr_at v k'"
      if "Suc m = 2 ^ k' + j" "j < 2 ^ k'" "k' < 31" "2 ^ k' \<le> ?n" for k' j
    proof -
      have "\<not> (k' = k \<and> j = r)" using that n m by auto
      then show ?thesis using v'(4,5) that by auto
    qed
    from same_position [OF inv v'(2) lt this] show ?thesis by simp
  qed
  have "sv_list v' = butlast (sv_list v)"
    using ref u sv_list_nth [OF inv] by (intro sv_list_eqI) (auto simp: nth_butlast)
  then show ?thesis using v'(1,2) ref u by simp
qed

lemma sv_inv_empty [simp]: "sv_inv sv_empty"
  by (simp add: sv_inv_def sv_empty_def block_ok_def)

lemma sv_list_empty [simp]: "sv_list sv_empty = []"
  by (simp add: sv_list_def sv_empty_def)

section \<open>The interface of a sequence with stable references\<close>

text \<open>
  What the scheduling strategies rely on: elements are added and removed at the end, and the
  references to the elements that stay do not change.
\<close>

locale stable_sequence =
  fixes inv :: "'v \<Rightarrow> bool"
    and elems :: "'v \<Rightarrow> 'e list"
    and get :: "'v \<Rightarrow> nat \<Rightarrow> 'e res"
    and ref :: "'v \<Rightarrow> nat \<Rightarrow> 'ref res"
    and push :: "nat \<Rightarrow> 'e \<Rightarrow> 'v \<Rightarrow> 'v res"
    and capacity :: nat
  assumes get_elems: "inv v \<Longrightarrow> m < length (elems v) \<Longrightarrow> get v m = Inr (elems v ! m)"
    and push_elems: "inv v \<Longrightarrow> length (elems v) < capacity \<Longrightarrow>
      \<exists>v'. push a x v = Inr v' \<and> inv v' \<and> elems v' = elems v @ [x]
        \<and> (\<forall>m < length (elems v). ref v' m = ref v m)"
begin

primrec push_all :: "(nat \<times> 'e) list \<Rightarrow> 'v \<Rightarrow> 'v res" where
  "push_all [] v = Inr v"
| "push_all (ax # axs) v = res_bind (push (fst ax) (snd ax) v) (push_all axs)"

lemma push_all_elems:
  assumes "inv v" "length (elems v) + length axs \<le> capacity"
  shows "\<exists>v'. push_all axs v = Inr v' \<and> inv v' \<and> elems v' = elems v @ map snd axs
    \<and> (\<forall>m < length (elems v). ref v' m = ref v m)"
  using assms
proof (induction axs arbitrary: v)
  case (Cons ax axs)
  from push_elems [OF Cons.prems(1), of "fst ax" "snd ax"] Cons.prems(2)
  obtain w where w: "push (fst ax) (snd ax) v = Inr w" "inv w" "elems w = elems v @ [snd ax]"
      "\<forall>m < length (elems v). ref w m = ref v m" by auto
  with Cons.IH [of w] Cons.prems(2) obtain v' where "push_all axs w = Inr v'" "inv v'"
      "elems v' = elems w @ map snd axs" "\<forall>m < length (elems w). ref v' m = ref w m" by auto
  with w show ?case by auto
qed simp

lemma push_all_get:
  assumes "inv v" "length (elems v) + length axs \<le> capacity" "push_all axs v = Inr v'"
    "m < length axs"
  shows "get v' (length (elems v) + m) = Inr (snd (axs ! m))"
  using push_all_elems [OF assms(1,2)] assms(3,4) by (auto simp: get_elems nth_append)

end

interpretation sv: stable_sequence sv_inv sv_list "\<lambda>v m. sv_at v (of_nat m)"
    "\<lambda>v m. sv_ref v (of_nat m)" emplace_back "2 ^ 31 - 1"
proof unfold_locales
  fix v :: "'a stable_vector" and m
  assume "sv_inv v" "m < length (sv_list v)"
  then show "sv_at v (of_nat m) = Inr (sv_list v ! m)" by (simp add: sv_list_nth)
next
  fix v :: "'a stable_vector" and a x
  assume "sv_inv v" "length (sv_list v) < 2 ^ 31 - 1"
  then show "\<exists>v'. emplace_back a x v = Inr v' \<and> sv_inv v' \<and> sv_list v' = sv_list v @ [x]
      \<and> (\<forall>m < length (sv_list v). sv_ref v' (of_nat m) = sv_ref v (of_nat m))"
    by (intro emplace_back_list) simp_all
qed

section \<open>Resizing and destruction\<close>

lemma resize_grow_list:
  assumes "sv_inv v" "unat ns < 2 ^ 31"
  shows "\<exists>v'. resize_grow alloc d ns v = Inr v' \<and> sv_inv v'
    \<and> sv_list v' = sv_list v @ replicate (unat ns - length (sv_list v)) d"
  using assms
proof (induction alloc d ns v rule: resize_grow.induct)
  case (1 alloc d ns v)
  show ?case
  proof (cases "ns > total_size v")
    case True
    then have lt: "unat (total_size v) < unat ns" by (simp add: word_less_nat_alt)
    then have "unat (total_size v) + 1 < 2 ^ 31" using "1.prems"(2) by simp
    from emplace_back_list [OF "1.prems"(1) this, of "alloc (total_size v)" d] obtain w where
      w: "emplace_back (alloc (total_size v)) d v = Inr w" "sv_inv w" "sv_list w = sv_list v @ [d]"
      by blast
    from "1.IH" [OF True w(1,2) "1.prems"(2)] obtain v' where v':
      "resize_grow alloc d ns w = Inr v'" "sv_inv v'"
      "sv_list v' = sv_list w @ replicate (unat ns - length (sv_list w)) d" by blast
    have "length (sv_list w) = Suc (unat (total_size v))" using w(3) by simp
    then have "[d] @ replicate (unat ns - length (sv_list w)) d
        = replicate (unat ns - unat (total_size v)) d"
      using lt by (simp add: Suc_diff_Suc flip: replicate_Suc)
    then show ?thesis using v' w True by (simp add: resize_grow.simps [of alloc d ns v])
  next
    case False
    then show ?thesis using "1.prems" by (simp add: resize_grow.simps [of alloc d ns v] word_less_nat_alt)
  qed
qed

lemma resize_shrink_list:
  assumes "sv_inv v" "unat ns < 2 ^ 30 \<Longrightarrow> length (sv_list v) < 2 ^ 30"
  shows "\<exists>v'. resize_shrink ns v = Inr v' \<and> sv_inv v' \<and> sv_list v' = take (unat ns) (sv_list v)"
  using assms
proof (induction ns v rule: resize_shrink.induct)
  case (1 ns v)
  show ?case
  proof (cases "ns < total_size v")
    case True
    then have lt: "unat ns < length (sv_list v)" by (simp add: word_less_nat_alt)
    then have "sv_list v \<noteq> []" by (metis length_0_conv not_less_zero)
    moreover have "length (sv_list v) \<noteq> 2 ^ 30" using "1.prems"(2) lt by auto
    ultimately obtain w where
      w: "pop_back v = Inr w" "sv_inv w" "sv_list w = butlast (sv_list v)"
      using pop_back_list [OF "1.prems"(1)] by blast
    have "length (sv_list w) < 2 ^ 30" if "unat ns < 2 ^ 30"
      using "1.prems"(2) [OF that] w(3) by simp
    from "1.IH" [OF True w(1,2) this] obtain v' where "resize_shrink ns w = Inr v'" "sv_inv v'"
      "sv_list v' = take (unat ns) (sv_list w)" by blast
    then show ?thesis using w True lt
      by (simp add: resize_shrink.simps [of ns v] take_butlast)
  next
    case False
    then show ?thesis using "1.prems" by (simp add: resize_shrink.simps [of ns v] word_less_nat_alt)
  qed
qed

lemma sv_resize_list:
  assumes "sv_inv v" "unat ns < 2 ^ 31" "unat ns < 2 ^ 30 \<Longrightarrow> length (sv_list v) < 2 ^ 30"
  shows "\<exists>v'. sv_resize alloc d ns v = Inr v' \<and> sv_inv v'
    \<and> sv_list v' = take (unat ns) (sv_list v) @ replicate (unat ns - length (sv_list v)) d"
proof -
  from resize_grow_list [OF assms(1,2), of alloc d] obtain w where
    w: "resize_grow alloc d ns v = Inr w" "sv_inv w"
      "sv_list w = sv_list v @ replicate (unat ns - length (sv_list v)) d" by blast
  have "length (sv_list w) < 2 ^ 30" if "unat ns < 2 ^ 30" using assms(3) [OF that] that w(3) by auto
  from resize_shrink_list [OF w(2) this, of ns] w show ?thesis
    by (auto simp: sv_resize_def)
qed

lemma destroy_guard:
  fixes sz :: "64 word"
  assumes "i < 31" "j \<le> 2 ^ i" "unat sz < 2 ^ 31"
  shows "(of_nat j < push_bit i (1 :: 64 word) \<and> of_nat j + push_bit i 1 < sz + 1)
    \<longleftrightarrow> j < 2 ^ i \<and> 2 ^ i + j \<le> unat sz"
proof -
  have i: "(2::nat) ^ i < 2 ^ 31" using assms(1) by (intro power_strict_increasing) auto
  have p: "push_bit i (1 :: 64 word) = of_nat (2 ^ i)" by (simp add: push_bit_eq_mult)
  have "unat (of_nat (2 ^ i) :: 64 word) = 2 ^ i" using i by (intro unat_small) simp
  moreover have "unat (of_nat j :: 64 word) = j" using assms(2) i by (intro unat_small) simp
  ultimately have "of_nat j < push_bit i (1 :: 64 word) \<longleftrightarrow> j < 2 ^ i"
    by (simp only: word_less_nat_alt p)
  moreover have "unat (of_nat (j + 2 ^ i) :: 64 word) = j + 2 ^ i"
    using assms(2) i by (intro unat_small) simp
  moreover have "of_nat j + of_nat (2 ^ i) = (of_nat (j + 2 ^ i) :: 64 word)" by simp
  moreover have "unat (sz + 1) = Suc (unat sz)" using unat_Suc_word [of sz] assms(3) by simp
  ultimately show ?thesis by (auto simp only: word_less_nat_alt p)
qed

lemma destroy_cells_eq:
  assumes ok: "block_ok (unat sz) i (Some blk)" and i: "i < 31" "unat sz < 2 ^ 31" and j: "j \<le> 2 ^ i"
  shows "destroy_cells blk i sz [j..<2 ^ i + 1]
    = Inr (map (\<lambda>j. the (blk_cells blk ! j)) [j..<min (2 ^ i) (Suc (unat sz) - 2 ^ i)])"
  using j
proof (induction "2 ^ i - j" arbitrary: j)
  case 0
  then have "j = 2 ^ i" by simp
  then show ?case using destroy_guard [OF i(1) _ i(2), of j] by (simp add: upt_conv_Cons)
next
  case (Suc d)
  then have lt: "j < 2 ^ i" by simp
  have g: "(of_nat j < push_bit i (1 :: 64 word) \<and> of_nat j + push_bit i 1 < sz + 1)
      \<longleftrightarrow> 2 ^ i + j \<le> unat sz" using destroy_guard [OF i(1) Suc.prems i(2)] lt by simp
  have up: "[j..<2 ^ i + 1] = j # [Suc j..<2 ^ i + 1]" using lt by (simp add: upt_conv_Cons)
  show ?case
  proof (cases "2 ^ i + j \<le> unat sz")
    case True
    then have "get_cell blk j = Inr (the (blk_cells blk ! j))"
      using ok lt by (auto simp: block_ok_def get_cell_def)
    moreover have "destroy_cells blk i sz [Suc j..<2 ^ i + 1]
        = Inr (map (\<lambda>j. the (blk_cells blk ! j)) [Suc j..<min (2 ^ i) (Suc (unat sz) - 2 ^ i)])"
      using Suc.hyps(2) lt by (intro Suc.hyps(1)) auto
    moreover have "j < min (2 ^ i) (Suc (unat sz) - 2 ^ i)" using True lt by auto
    ultimately show ?thesis using True g unfolding up by (simp add: upt_conv_Cons)
  next
    case False
    then have "\<not> j < min (2 ^ i) (Suc (unat sz) - 2 ^ i)" by auto
    then show ?thesis using False g unfolding up by auto
  qed
qed

lemma bucket_elements:
  assumes inv: "sv_inv v" and i: "i < 31" and blk: "entities v ! i = Some blk"
  shows "map (\<lambda>j. the (blk_cells blk ! j)) [0..<min (2 ^ i) (Suc (unat (total_size v)) - 2 ^ i)]
    = map ((!) (sv_list v)) [2 ^ i - 1..<min (2 ^ Suc i - 1) (unat (total_size v))]"
    (is "map _ [0..<?l] = map _ [_..<?h]")
proof (rule nth_equalityI)
  have pos: "(1::nat) \<le> 2 ^ i" by simp
  show "length (map (\<lambda>j. the (blk_cells blk ! j)) [0..<?l]) = length (map ((!) (sv_list v)) [2 ^ i - 1..<?h])"
    using pos by (simp add: min_def) linarith
  fix j
  assume "j < length (map (\<lambda>j. the (blk_cells blk ! j)) [0..<?l])"
  then have j: "j < ?l" by simp
  have m: "2 ^ i - 1 + j < unat (total_size v)" using j pos by auto
  have "Suc (2 ^ i - 1 + j) = 2 ^ i + j" using pos by simp
  from sv_at_cell(1) [OF inv m this] j blk
  have "sv_list v ! (2 ^ i - 1 + j) = the (blk_cells blk ! j)"
    using sv_list_nth [OF inv m] by (simp add: cell_at_def)
  moreover have "2 ^ i - 1 + j < ?h" using j pos by (auto simp: min_def split: if_splits)
  moreover have "map ((!) (sv_list v)) [a..<h] ! j = sv_list v ! (a + j)" if "a + j < h" for a h
    using that by simp
  moreover have "map (\<lambda>j. the (blk_cells blk ! j)) [0..<l] ! j = the (blk_cells blk ! j)" if "j < l" for l
    using that by simp
  ultimately show "map (\<lambda>j. the (blk_cells blk ! j)) [0..<?l] ! j
      = map ((!) (sv_list v)) [2 ^ i - 1..<?h] ! j" using j by (simp only:)
qed

definition sv_blocks :: "'a stable_vector \<Rightarrow> nat list" where
  "sv_blocks v = map blk_addr (List.map_filter id (entities v))"

lemma no_later_blocks:
  assumes inv: "sv_inv v" and i: "unat (total_size v) < 2 ^ i"
  shows "List.map_filter id (drop (Suc i) (entities v)) = []"
proof -
  have "b = None" if b: "b \<in> set (drop (Suc i) (entities v))" for b
  proof (rule ccontr)
    assume "b \<noteq> None"
    from b obtain q where "q < length (entities v) - Suc i" "b = drop (Suc i) (entities v) ! q"
      by (auto simp: in_set_conv_nth)
    then obtain l where l: "l < length (entities v)" "Suc i \<le> l" "b = entities v ! l"
      by (intro that [of "Suc i + q"]) auto
    have "(2::nat) ^ Suc i \<le> 2 ^ l" using l(2) by (intro power_increasing) auto
    moreover have "block_ok (unat (total_size v)) l b"
      using l inv by (metis sv_inv_block sv_inv_def)
    ultimately show False using \<open>b \<noteq> None\<close> i by (auto simp: block_ok_def)
  qed
  then show ?thesis by (auto simp: List.map_filter_def filter_empty_conv)
qed

lemma destroy_blocks_eq:
  assumes inv: "sv_inv v" and i: "i \<le> 31"
  shows "destroy_blocks (drop i (entities v)) i (total_size v)
    = Inr (map ((!) (sv_list v)) [2 ^ i - 1..<unat (total_size v)],
           map blk_addr (List.map_filter id (drop i (entities v))))"
  using i
proof (induction "31 - i" arbitrary: i)
  case 0
  then show ?case using inv by (simp add: sv_inv_def List.map_filter_def)
next
  case (Suc d)
  then have i: "i < 31" by simp
  have len: "length (entities v) = 31" and sz: "unat (total_size v) < 2 ^ 31"
    using inv by (auto simp: sv_inv_def)
  have dr: "drop i (entities v) = entities v ! i # drop (Suc i) (entities v)"
    using i len by (simp add: Cons_nth_drop_Suc)
  show ?case
  proof (cases "entities v ! i")
    case None
    then have "unat (total_size v) < 2 ^ i" using sv_inv_block [OF inv i] by (simp add: block_ok_def)
    then show ?thesis using None no_later_blocks [OF inv] unfolding dr
      by (simp add: List.map_filter_simps)
  next
    case (Some blk)
    have "block_ok (unat (total_size v)) i (Some blk)" using sv_inv_block [OF inv i] Some by simp
    from destroy_cells_eq [OF this i sz, of 0] bucket_elements [OF inv i Some]
    have "destroy_cells blk i (total_size v) [0..<2 ^ i + 1]
        = Inr (map ((!) (sv_list v)) [2 ^ i - 1..<min (2 ^ Suc i - 1) (unat (total_size v))])" by simp
    moreover have "[2 ^ i - 1..<unat (total_size v)] = [2 ^ i - 1..<min (2 ^ Suc i - 1) (unat (total_size v))]
        @ [2 ^ Suc i - 1..<unat (total_size v)]"
    proof (cases "2 ^ Suc i - 1 \<le> unat (total_size v)")
      case True
      have "(2::nat) ^ i - 1 \<le> 2 ^ Suc i - 1" by simp
      from upt_add_eq_append [OF this, of "unat (total_size v) - (2 ^ Suc i - 1)"] True
      show ?thesis by (simp only: min_absorb1 le_add_diff_inverse)
    qed simp
    ultimately show ?thesis using Suc.hyps Some i unfolding dr
      by (simp add: List.map_filter_simps)
  qed
qed

lemma sv_destroy_eq: "sv_inv v \<Longrightarrow> sv_destroy v = Inr (sv_list v, sv_blocks v)"
  using destroy_blocks_eq [of v 0]
  by (simp add: sv_destroy_def sv_size_def sv_blocks_def map_nth flip: length_sv_list)

section \<open>Boundary cases\<close>

text \<open>A vector of \<open>n\<close> equal elements, for the concrete inputs below.\<close>

definition sv_of_size :: "nat \<Rightarrow> 'a \<Rightarrow> 'a stable_vector" where
  "sv_of_size n x =
     \<lparr>entities = map (\<lambda>i. if n < 2 ^ i then None
        else Some \<lparr>blk_addr = i, blk_cells = map (\<lambda>j. if 2 ^ i + j \<le> n then Some x else None) [0..<2 ^ i]\<rparr>)
        [0..<31],
      total_size = of_nat n\<rparr>"

lemma sv_of_size_inv: "n < 2 ^ 31 \<Longrightarrow> sv_inv (sv_of_size n x)"
  using unat_small [of n] by (auto simp: sv_inv_def sv_of_size_def block_ok_def)

lemma sv_of_size_length: "n < 2 ^ 31 \<Longrightarrow> length (sv_list (sv_of_size n x)) = n"
  using unat_small [of n] by (simp add: sv_of_size_def)

lemma sv_of_size_nonempty: "0 < n \<Longrightarrow> n < 2 ^ 31 \<Longrightarrow> sv_list (sv_of_size n x) \<noteq> []"
  using sv_of_size_length [of n x] by force

lemma total_size_sv_of_size [simp]: "total_size (sv_of_size n x) = of_nat n"
  by (simp add: sv_of_size_def)

lemma bucket_31: "\<lbrakk>sv_inv v; length (sv_list v) = 2 ^ 30\<rbrakk> \<Longrightarrow> pop_back v = Inl Out_Of_Range"
  using bucket_index_eq [of "total_size v" 30 0] and_pred_word [of "total_size v" 30 0]
  by (simp add: pop_back_def vec_get_def sv_inv_def and.commute)

lemma full_vector:
  assumes "sv_inv v" "length (sv_list v) = 2 ^ 31 - 1"
  shows "emplace_back a x v = Inl Out_Of_Range"
proof -
  have "unat (total_size v + 1) = 2 ^ 31 + 0" using unat_Suc_word [of "total_size v"] assms(2) by simp
  from bucket_index_eq [OF this] and_pred_word [OF this] assms(1) show ?thesis
    by (simp add: emplace_back_def vec_get_def sv_inv_def)
qed

lemma null_buckets:
  assumes "unat (total_size v) + 1 < 2 ^ 31" "(total_size v + 1) AND total_size v \<noteq> 0"
  shows "emplace_back a x (v\<lparr>entities := replicate 31 None\<rparr>) = Inl Null_Deref"
proof -
  obtain k r where n: "Suc (unat (total_size v)) = 2 ^ k + r" "r < 2 ^ k"
    using position_cases [of "Suc (unat (total_size v))"] by blast
  then have "unat (total_size v + 1) = 2 ^ k + r" using unat_Suc_word assms(1) by simp
  moreover have "k < 31" using n assms(1) by (intro position_bucket [of k r]) simp
  ultimately show ?thesis using bucket_index_eq n(2) assms(2)
    by (simp add: emplace_back_def put_cell_def get_block_def)
qed

lemma destroy_size_0:
  assumes "sv_inv v"
  shows "sv_destroy (v\<lparr>total_size := 0\<rparr>) = Inr ([], sv_blocks v)"
proof -
  have c: "destroy_cells blk i 0 (j # js) = Inr []" if "i < 31" "j \<le> 2 ^ i" for i j js and blk :: "'a block"
    using destroy_guard [OF that, of 0] by auto
  have "destroy_blocks (drop i (entities v)) i 0
      = Inr ([], map blk_addr (List.map_filter id (drop i (entities v))))" if "i \<le> 31" for i
    using that
  proof (induction "31 - i" arbitrary: i)
    case 0
    then show ?case using assms by (simp add: sv_inv_def List.map_filter_def)
  next
    case (Suc d)
    then have i: "i < 31" by simp
    have dr: "drop i (entities v) = entities v ! i # drop (Suc i) (entities v)"
      using i assms by (simp add: Cons_nth_drop_Suc sv_inv_def)
    have "unat (total_size v) < 2 ^ i" if "entities v ! i = None"
      using sv_inv_block [OF assms i] that by (simp add: block_ok_def)
    moreover have "[0..<2 ^ i + 1] = 0 # [1..<2 ^ i + 1]" by (simp add: upt_conv_Cons)
    ultimately show ?case using Suc.hyps i c [OF i, of 0] no_later_blocks [OF assms, of i] unfolding dr
      by (cases "entities v ! i") (simp_all add: List.map_filter_simps)
  qed
  from this [of 0] show ?thesis by (simp add: sv_destroy_def sv_size_def sv_blocks_def)
qed

section \<open>Properties\<close>

text \<open>
  C24. \<open>emplace_back\<close> on a vector that satisfies the invariant and is not full returns,
  appends the element, keeps the invariant, and every reference to an older element stays
  valid: it denotes the same block and offset as before.
\<close>

theorem emplace_back_appends:
  assumes "sv_inv v" "length (sv_list v) < 2 ^ 31 - 1"
  shows "\<exists>v'. emplace_back a x v = Inr v' \<and> sv_inv v' \<and> sv_list v' = sv_list v @ [x]
    \<and> (\<forall>m < length (sv_list v). sv_at v' (of_nat m) = sv_at v (of_nat m)
          \<and> sv_ref v' (of_nat m) = sv_ref v (of_nat m))"
proof -
  from sv.push_elems [OF assms, of a x] obtain v' where v': "emplace_back a x v = Inr v'" "sv_inv v'"
      "sv_list v' = sv_list v @ [x]" "\<forall>m < length (sv_list v). sv_ref v' (of_nat m) = sv_ref v (of_nat m)"
    by blast
  then have "sv_at v' (of_nat m) = sv_at v (of_nat m)" if "m < length (sv_list v)" for m
    using sv.get_elems [OF v'(2), of m] sv.get_elems [OF assms(1) that] that by (simp add: nth_append)
  with v' show ?thesis by blast
qed

theorem emplace_back_appends_witness:
  "sv_inv (sv_of_size 5 True) \<and> length (sv_list (sv_of_size 5 True)) < 2 ^ 31 - 1
    \<and> (\<exists>v'. emplace_back 7 False (sv_of_size 5 True) = Inr v' \<and> sv_list v' = sv_list (sv_of_size 5 True) @ [False])"
  using emplace_back_appends [of "sv_of_size 5 True" 7 False]
  by (auto simp: sv_of_size_inv sv_of_size_length simp del: length_sv_list)

text \<open>
  C25. \<open>pop_back\<close> on a non-empty vector returns, removes the last element, keeps the
  invariant and the references to the other elements, with the exception of a vector of
  \<open>2 ^ 30\<close> elements, for which C3 says what happens.
\<close>

theorem pop_back_removes:
  assumes "sv_inv v" "sv_list v \<noteq> []" "length (sv_list v) \<noteq> 2 ^ 30"
  shows "\<exists>v'. pop_back v = Inr v' \<and> sv_inv v' \<and> sv_list v' = butlast (sv_list v)
    \<and> (\<forall>m < length (sv_list v'). sv_ref v' (of_nat m) = sv_ref v (of_nat m))"
  by (rule pop_back_list [OF assms])

theorem pop_back_removes_witness:
  "\<exists>v'. pop_back (sv_of_size 4 True) = Inr v' \<and> sv_inv v'
    \<and> sv_list v' = butlast (sv_list (sv_of_size 4 True))"
  using pop_back_removes [of "sv_of_size 4 True"] sv_of_size_length [of 4 True]
    sv_of_size_nonempty [of 4 True] sv_of_size_inv [of 4 True]
  by (auto simp del: length_sv_list)

text \<open>
  C26. The two ends of the bucket array. A vector of \<open>2 ^ 31 - 1\<close> elements has no bucket for
  one more; a vector of \<open>2 ^ 30\<close> elements cannot be popped: \<open>pop_back\<close> looks at
  \<open>entities[31]\<close>, one past the array.
\<close>

theorem bucket_array_ends:
  assumes "sv_inv v"
  shows "(length (sv_list v) = 2 ^ 31 - 1 \<longrightarrow> emplace_back a x v = Inl Out_Of_Range)
    \<and> (length (sv_list v) = 2 ^ 30 \<longrightarrow> pop_back v = Inl Out_Of_Range)"
  using full_vector [OF assms] bucket_31 [OF assms] by blast

theorem bucket_array_ends_witness:
  "emplace_back 0 True (sv_of_size (2 ^ 31 - 1) True) = Inl Out_Of_Range
    \<and> pop_back (sv_of_size (2 ^ 30) True) = Inl Out_Of_Range"
  using bucket_array_ends [of "sv_of_size (2 ^ 31 - 1) True" 0 True]
    bucket_array_ends [of "sv_of_size (2 ^ 30) True" 0 True]
    sv_of_size_length [of "2 ^ 31 - 1" True] sv_of_size_length [of "2 ^ 30" True]
    sv_of_size_inv [of "2 ^ 31 - 1" True] sv_of_size_inv [of "2 ^ 30" True]
  by (simp del: length_sv_list)

text \<open>
  C32. \<open>resize\<close> terminates and truncates the vector or fills it up with default elements to
  the requested size, when it need not pop the element with number \<open>2 ^ 30\<close>.
\<close>

theorem sv_resize_correct:
  assumes "sv_inv v" "unat new_size < 2 ^ 31" "unat new_size < 2 ^ 30 \<Longrightarrow> length (sv_list v) < 2 ^ 30"
  shows "\<exists>v'. sv_resize alloc d new_size v = Inr v' \<and> sv_inv v' \<and> length (sv_list v') = unat new_size
    \<and> sv_list v' = take (unat new_size) (sv_list v) @ replicate (unat new_size - length (sv_list v)) d"
  using sv_resize_list [OF assms, of alloc d] by (auto simp del: length_sv_list)

theorem sv_resize_correct_witness:
  "(\<exists>v'. sv_resize (\<lambda>_. 0) False 3 (sv_empty :: bool stable_vector) = Inr v' \<and> sv_list v' = replicate 3 False)
    \<and> (\<exists>v'. sv_resize (\<lambda>_. 0) False 0 (sv_of_size 5 True) = Inr v' \<and> sv_list v' = [])"
  using sv_resize_correct [of "sv_empty :: bool stable_vector" 3 "\<lambda>_. 0" False]
    sv_resize_correct [of "sv_of_size 5 True" 0 "\<lambda>_. 0" False] sv_of_size_length [of 5 True]
    sv_of_size_inv [of 5 True]
  by (simp del: length_sv_list) blast

text \<open>
  The destructor runs the destructor of every element exactly once, in order, and
  frees every block, spare ones included.
\<close>

theorem sv_destroy_correct:
  "sv_inv v \<Longrightarrow> sv_destroy v = Inr (sv_list v, map blk_addr (List.map_filter id (entities v)))"
  by (simp add: sv_destroy_eq sv_blocks_def)

theorem sv_destroy_correct_witness:
  "sv_destroy (sv_of_size 5 True) = Inr (sv_list (sv_of_size 5 True),
     map blk_addr (List.map_filter id (entities (sv_of_size 5 True))))"
  by (rule sv_destroy_correct) (simp add: sv_of_size_inv)

text \<open>
  Moves. Both moves hand the elements over. After the move constructor the moved-from
  vector keeps its size with null buckets, and adding to it dereferences a null bucket
  unless the next element starts a bucket; after the move assignment the old elements of
  the target are never destroyed, only their blocks are freed.
\<close>

theorem sv_moves:
  assumes "sv_inv v" "sv_inv w" "length (sv_list v) < 2 ^ 31 - 1"
  shows "sv_list (fst (sv_move_construct v)) = sv_list v \<and> sv_list (fst (sv_move_assign w v)) = sv_list v
    \<and> ((total_size v + 1) AND total_size v \<noteq> 0
        \<longrightarrow> emplace_back a x (snd (sv_move_construct v)) = Inl Null_Deref)
    \<and> sv_destroy (snd (sv_move_assign w v)) = Inr ([], map blk_addr (List.map_filter id (entities w)))"
proof -
  have "fst (sv_move_construct v) = v" "fst (sv_move_assign w v) = v"
      "snd (sv_move_assign w v) = w\<lparr>total_size := 0\<rparr>"
      "snd (sv_move_construct v) = v\<lparr>entities := replicate 31 None\<rparr>"
    by (simp_all add: sv_move_construct_def sv_move_assign_def)
  then show ?thesis using destroy_size_0 [OF assms(2)] null_buckets [of v a x] assms(3)
    by (simp add: sv_blocks_def)
qed

theorem sv_moves_witness:
  "emplace_back 0 True (snd (sv_move_construct (sv_of_size 5 True))) = Inl Null_Deref
    \<and> (\<exists>addrs. sv_destroy (snd (sv_move_assign (sv_of_size 2 True) (sv_of_size 5 True))) = Inr ([], addrs))"
  using sv_moves [of "sv_of_size 5 True" "sv_of_size 2 True" 0 True] sv_of_size_length [of 5 True]
    sv_of_size_inv [of 5 True] sv_of_size_inv [of 2 True]
  by (simp del: length_sv_list)

end
