(* ===== verification/Value_Wrapper.thy ===== *)
theory Value_Wrapper
  imports Ltest_Prelude
begin

text \<open>
  Model of \<open>runtime/include/value_wrapper.h\<close>: the type-erased result of a method.
  A \<open>ValueWrapper\<close> holds a \<open>std::any\<close>, the comparator used by \<open>operator==\<close> and the
  printer used by \<open>to_string\<close>. The values that the program stores in the \<open>std::any\<close> are
  \<open>int\<close>, \<open>std::optional<int>\<close> and \<open>Void\<close>. A comparator only sees its arguments through
  \<open>HasValue\<close> and \<open>GetValue\<close>, so it is a function of the two stored values.
\<close>

section \<open>Stored values\<close>

datatype any_val = Any_Int int | Any_Opt_Int "int option" | Any_Void

datatype any_type = Type_Int | Type_Opt_Int | Type_Void

fun any_type_of :: "any_val \<Rightarrow> any_type" where
  "any_type_of (Any_Int _) = Type_Int"
| "any_type_of (Any_Opt_Int _) = Type_Opt_Int"
| "any_type_of Any_Void = Type_Void"

type_synonym std_any = "any_val option"

definition HasValue :: "std_any \<Rightarrow> bool" where
  "HasValue a = (a \<noteq> None)"

text \<open>\<open>GetValue\<close> is \<open>std::any_cast\<close>: it throws when the type is another one or nothing is stored.\<close>

definition GetValue :: "any_type \<Rightarrow> std_any \<Rightarrow> any_val res" where
  "GetValue t a = (case a of None \<Rightarrow> Inl Bad_Any_Cast
     | Some v \<Rightarrow> if any_type_of v = t then Inr v else Inl Bad_Any_Cast)"

section \<open>The wrapper\<close>

type_synonym comp_func = "std_any \<Rightarrow> std_any \<Rightarrow> bool res"
type_synonym to_string_func = "std_any \<Rightarrow> string res"

record value_wrapper =
  vw_value :: std_any
  vw_compare :: "comp_func option"
  vw_to_str :: "to_string_func option"

text \<open>The defaulted constructor leaves an empty \<open>std::any\<close> and two empty \<open>std::function\<close>s.\<close>

definition vw_default :: value_wrapper where
  "vw_default = \<lparr>vw_value = None, vw_compare = None, vw_to_str = None\<rparr>"

definition GetDefaultCompator :: "any_type \<Rightarrow> comp_func" where
  "GetDefaultCompator t a b =
     (if HasValue a \<noteq> HasValue b then Inr False
      else if \<not> HasValue a \<and> \<not> HasValue b then Inr True
      else res_bind (GetValue t a) (\<lambda>l. res_bind (GetValue t b) (\<lambda>r. Inr (l = r))))"

text \<open>
  \<open>GetDefaultToString\<close> calls \<open>std::to_string\<close>, which the program instantiates at
  \<open>int\<close> only.
\<close>

definition GetDefaultToString :: to_string_func where
  "GetDefaultToString a =
     res_bind (GetValue Type_Int a)
       (\<lambda>v. case v of Any_Int i \<Rightarrow> Inr (to_string_int i) | _ \<Rightarrow> Inl Bad_Any_Cast)"

definition vw_of :: "any_val \<Rightarrow> comp_func \<Rightarrow> to_string_func \<Rightarrow> value_wrapper" where
  "vw_of v cmp str = \<lparr>vw_value = Some v, vw_compare = Some cmp, vw_to_str = Some str\<rparr>"

definition vw_int :: "int \<Rightarrow> value_wrapper" where
  "vw_int i = vw_of (Any_Int i) (GetDefaultCompator Type_Int) GetDefaultToString"

text \<open>\<open>operator==\<close> calls the comparator of its left operand; calling an empty
  \<open>std::function\<close> throws.\<close>

definition vw_eq :: "value_wrapper \<Rightarrow> value_wrapper \<Rightarrow> bool res" where
  "vw_eq a b = (case vw_compare a of None \<Rightarrow> Inl Bad_Function_Call
     | Some cmp \<Rightarrow> cmp (vw_value a) (vw_value b))"

definition vw_to_string :: "value_wrapper \<Rightarrow> string res" where
  "vw_to_string a = (case vw_to_str a of None \<Rightarrow> Inl Bad_Function_Call
     | Some str \<Rightarrow> str (vw_value a))"

definition void_v :: value_wrapper where
  "void_v = vw_of Any_Void (\<lambda>a b. Inr True) (\<lambda>a. Inr ''void'')"

section \<open>Facts about the comparison\<close>

lemma GetDefaultCompator_same_type:
  assumes "any_type_of v = t"
  shows "GetDefaultCompator t (Some v) (Some w) =
           (if any_type_of w = t then Inr (v = w) else Inl Bad_Any_Cast)"
  using assms by (simp add: GetDefaultCompator_def HasValue_def GetValue_def)

lemma vw_eq_vw_of:
  "vw_eq (vw_of v cmp str) b = cmp (Some v) (vw_value b)"
  by (simp add: vw_eq_def vw_of_def)

lemma vw_value_of [simp]: "vw_value (vw_of v cmp str) = Some v"
  by (simp add: vw_of_def)

lemma vw_eq_int_int [simp]: "vw_eq (vw_int i) (vw_int j) = Inr (i = j)"
  by (simp add: vw_int_def vw_eq_vw_of GetDefaultCompator_same_type)

lemma vw_eq_void [simp]: "vw_eq void_v b = Inr True"
  by (simp add: void_v_def vw_eq_vw_of)

lemma vw_eq_int_void [simp]: "vw_eq (vw_int i) void_v = Inl Bad_Any_Cast"
  by (simp add: vw_int_def void_v_def vw_eq_vw_of GetDefaultCompator_same_type)

lemma vw_to_string_int [simp]: "vw_to_string (vw_int i) = Inr (to_string_int i)"
  by (simp add: vw_to_string_def vw_int_def vw_of_def GetDefaultToString_def GetValue_def)

lemma vw_to_string_void [simp]: "vw_to_string void_v = Inr ''void''"
  by (simp add: vw_to_string_def void_v_def vw_of_def)

section \<open>Properties\<close>

text \<open>
  \<open>operator==\<close> with the default comparator of a type decides equality of the stored
  values exactly when both wrappers hold a value of that type; a wrapper that holds a value
  of another type makes the comparison throw \<open>std::bad_any_cast\<close>, and an empty wrapper
  compares unequal without an exception.
\<close>

theorem vw_eq_default_comparator:
  assumes "any_type_of v = t"
  shows "vw_eq (vw_of v (GetDefaultCompator t) str) b =
    (case vw_value b of None \<Rightarrow> Inr False
     | Some w \<Rightarrow> if any_type_of w = t then Inr (v = w) else Inl Bad_Any_Cast)"
  using assms
  by (auto simp: vw_eq_vw_of GetDefaultCompator_def HasValue_def GetValue_def
      split: option.splits)

theorem vw_eq_default_comparator_witness:
  "vw_eq (vw_of (Any_Int 3) (GetDefaultCompator Type_Int) GetDefaultToString) (vw_int 3) = Inr True
   \<and> vw_eq (vw_of (Any_Int 3) (GetDefaultCompator Type_Int) GetDefaultToString) void_v
       = Inl Bad_Any_Cast"
proof -
  have t: "any_type_of (Any_Int 3) = Type_Int" by simp
  show ?thesis
    using vw_eq_default_comparator [OF t, of GetDefaultToString "vw_int 3"]
      vw_eq_default_comparator [OF t, of GetDefaultToString void_v]
    by (simp add: vw_int_def void_v_def)
qed

text \<open>
  The comparison is not symmetric: the wrapper \<open>void_v\<close> that a \<open>void\<close> method returns
  equals every wrapper when it is the left operand, while an integer result compared with it
  throws. A specification method for a \<open>void\<close> target method therefore has to return
  \<open>void_v\<close>, and one that returns the integer 0 makes the checkers throw.
\<close>

theorem vw_eq_void_asymmetric:
  "vw_eq void_v (vw_int i) = Inr True \<and> vw_eq (vw_int i) void_v = Inl Bad_Any_Cast"
  by simp

end
