(* ===== verification/Coroutine.thy ===== *)
theory Coroutine
  imports Value_Wrapper
begin

text \<open>
  Model of the coroutine runtime: \<open>runtime/include/lib.h\<close>, \<open>runtime/lib.cpp\<close>, the token
  generator of \<open>runtime/generators.cpp\<close>, the trap guard of \<open>runtime/syscall_trap.cpp\<close> and
  the hook of \<open>syscall_intercept/hook.cpp\<close>.

  The body of a task is user code compiled with the yield pass and run on a
  \<open>boost::context\<close> fiber. It enters the model as a parameter \<open>body\<close>: a function that takes
  the fiber's saved context and the shared world, runs one slice up to the next yield or
  the return, and says how the slice ended. Tokens are shared pointers and are modelled by
  their address in a store of parked flags; a futex word is read from the target object by
  a parameter \<open>mem\<close>.
\<close>

section \<open>The shared world\<close>

type_synonym token_ref = nat
type_synonym addr = nat

record coroutine_status =
  cs_name :: string
  cs_has_started :: bool

record 'o world =
  w_state :: 'o
  w_parked :: "token_ref \<Rightarrow> bool"
  w_next_token :: token_ref
  w_status :: "coroutine_status option"

text \<open>How a slice of a coroutine ends: at a \<open>CoroYield\<close>, at a futex wait (which sets the
  futex state of the running coroutine and then yields), or by returning.\<close>

datatype 'c slice_end = Yield 'c | Futex_Wait 'c addr int | Return value_wrapper

type_synonym ('o, 'c) body = "'c \<Rightarrow> 'o world \<Rightarrow> 'o world \<times> 'c slice_end"

record ('a, 'c) coro =
  co_id :: int
  co_ret :: value_wrapper
  co_is_returned :: bool
  co_fstate :: "(addr \<times> int) option"
  co_name :: string
  co_token :: "token_ref option"
  co_func :: "'a \<Rightarrow> 'c"
  co_args :: 'a
  co_ctx :: 'c

section \<open>Creation, restart and queries\<close>

definition Coro_New :: "('a \<Rightarrow> 'c) \<Rightarrow> 'a \<Rightarrow> string \<Rightarrow> int \<Rightarrow> ('a, 'c) coro" where
  "Coro_New func args name task_id =
     \<lparr>co_id = task_id, co_ret = vw_default, co_is_returned = False, co_fstate = None,
      co_name = name, co_token = None, co_func = func, co_args = args, co_ctx = func args\<rparr>"

text \<open>\<open>Restart\<close> insists on a returned coroutine and keeps the token.\<close>

definition Coro_Restart :: "('a, 'c) coro \<Rightarrow> ('a, 'c) coro res" where
  "Coro_Restart c =
     (if \<not> co_is_returned c then Inl (Assert_Failed ''IsReturned()'')
      else Inr ((Coro_New (co_func c) (co_args c) (co_name c) (co_id c))\<lparr>co_token := co_token c\<rparr>))"

definition GetRetVal :: "('a, 'c) coro \<Rightarrow> value_wrapper res" where
  "GetRetVal c = (if co_is_returned c then Inr (co_ret c) else Inl (Assert_Failed ''IsReturned()''))"

definition SetToken :: "token_ref \<Rightarrow> ('a, 'c) coro \<Rightarrow> ('a, 'c) coro" where
  "SetToken t c = c\<lparr>co_token := Some t\<rparr>"

definition IsParked :: "'o world \<Rightarrow> ('a, 'c) coro \<Rightarrow> bool" where
  "IsParked w c = (case co_token c of None \<Rightarrow> False | Some t \<Rightarrow> w_parked w t)"

definition SetBlocked :: "addr \<Rightarrow> int \<Rightarrow> ('a, 'c) coro \<Rightarrow> ('a, 'c) coro" where
  "SetBlocked uaddr v c = c\<lparr>co_fstate := Some (uaddr, v)\<rparr>"

text \<open>
  \<open>IsBlocked\<close> is not a pure query: when the futex word no longer holds the awaited value it
  clears the futex state of the coroutine, which is how a sleeper is woken.
\<close>

definition blocked_now :: "('o \<Rightarrow> addr \<Rightarrow> int) \<Rightarrow> 'o world \<Rightarrow> ('a, 'c) coro \<Rightarrow> bool" where
  "blocked_now mem w c = (case co_fstate c of None \<Rightarrow> False
     | Some (a, v) \<Rightarrow> mem (w_state w) a = v)"

definition IsBlocked ::
    "('o \<Rightarrow> addr \<Rightarrow> int) \<Rightarrow> 'o world \<Rightarrow> ('a, 'c) coro \<Rightarrow> bool \<times> ('a, 'c) coro" where
  "IsBlocked mem w c =
     (if blocked_now mem w c then (True, c) else (False, c\<lparr>co_fstate := None\<rparr>))"

section \<open>Running\<close>

definition Resume ::
    "('o, 'c) body \<Rightarrow> 'o world \<Rightarrow> ('a, 'c) coro \<Rightarrow> ('o world \<times> ('a, 'c) coro) res" where
  "Resume body w c =
     (if co_is_returned c then Inl (Assert_Failed ''!this_coro->IsReturned() && this_coro->ctx'')
      else case body (co_ctx c) w of
        (w', Yield k) \<Rightarrow> Inr (w', c\<lparr>co_ctx := k\<rparr>)
      | (w', Futex_Wait k a v) \<Rightarrow> Inr (w', SetBlocked a v (c\<lparr>co_ctx := k\<rparr>))
      | (w', Return r) \<Rightarrow> Inr (w', c\<lparr>co_ret := r, co_is_returned := True\<rparr>))"

text \<open>
  \<open>Terminate\<close> resumes until the coroutine has returned and gives up, by a failed assertion,
  when the counter of resumes reaches ten millions.
\<close>

definition max_tries :: nat where
  "max_tries = 10000000"

function terminate_loop ::
    "('o, 'c) body \<Rightarrow> nat \<Rightarrow> 'o world \<Rightarrow> ('a, 'c) coro \<Rightarrow> ('o world \<times> ('a, 'c) coro) res" where
  "terminate_loop body tries w c =
     (if co_is_returned c then Inr (w, c)
      else res_bind (Resume body w c) (\<lambda>(w', c').
        if Suc tries < max_tries then terminate_loop body (Suc tries) w' c'
        else Inl (Assert_Failed ''coroutine is spinning too long'')))"
  by pat_completeness auto
termination
  by (relation "measure (\<lambda>(body, tries, w, c). max_tries - tries)") auto

declare terminate_loop.simps [simp del]

text \<open>The same equation with a comparison of integers, for evaluation.\<close>

lemma terminate_loop_code [code]:
  "terminate_loop body tries w c =
     (if co_is_returned c then Inr (w, c)
      else res_bind (Resume body w c) (\<lambda>(w', c').
        if int (Suc tries) < 10000000 then terminate_loop body (Suc tries) w' c'
        else Inl (Assert_Failed ''coroutine is spinning too long'')))"
  by (simp add: terminate_loop.simps [of body tries w c] max_tries_def)

definition Terminate ::
    "('o, 'c) body \<Rightarrow> 'o world \<Rightarrow> ('a, 'c) coro \<Rightarrow> ('o world \<times> ('a, 'c) coro) res" where
  "Terminate body w c = terminate_loop body 0 w c"

section \<open>Runtime entry points called by the tested code\<close>

text \<open>
  Each entry point changes the world and ends the slice with a yield of the calling
  coroutine (\<open>Unpark\<close> does not yield). The caller's continuation is the argument \<open>k\<close>.
\<close>

definition Token_Park :: "token_ref \<Rightarrow> 'c \<Rightarrow> 'o world \<Rightarrow> 'o world \<times> 'c slice_end" where
  "Token_Park t k w = (w\<lparr>w_parked := (w_parked w)(t := True)\<rparr>, Yield k)"

definition Token_Unpark :: "token_ref \<Rightarrow> 'o world \<Rightarrow> 'o world" where
  "Token_Unpark t w = w\<lparr>w_parked := (w_parked w)(t := False)\<rparr>"

definition CoroutineStatusChange ::
    "string \<Rightarrow> bool \<Rightarrow> 'c \<Rightarrow> 'o world \<Rightarrow> 'o world \<times> 'c slice_end" where
  "CoroutineStatusChange nm start k w =
     (w\<lparr>w_status := Some \<lparr>cs_name = nm, cs_has_started = start\<rparr>\<rparr>, Yield k)"

text \<open>
  \<open>genToken\<close> makes a fresh, unparked token. The global \<open>generated_token\<close> that carries it to
  the task under construction is set here and reset by the builder of the task.
\<close>

definition genToken :: "'o world \<Rightarrow> 'o world \<times> token_ref" where
  "genToken w =
     (w\<lparr>w_parked := (w_parked w)(w_next_token w := False), w_next_token := Suc (w_next_token w)\<rparr>,
      w_next_token w)"

text \<open>
  The system call hook. The result says what the interception library does next: pass the
  call on to the kernel, or swallow it after the coroutine has ended its slice.
\<close>

datatype syscall = Sched_Yield | Futex_Wait_Private addr int | Futex_Wake_Private addr
  | Futex_Other addr | Other_Syscall

datatype 'c hook_result = Pass_To_Kernel | Swallowed "'c slice_end"

definition hook :: "bool \<Rightarrow> syscall \<Rightarrow> 'c \<Rightarrow> 'c hook_result res" where
  "hook trap_syscall sys k =
     (if \<not> trap_syscall then Inr Pass_To_Kernel
      else case sys of
        Sched_Yield \<Rightarrow> Inr (Swallowed (Yield k))
      | Futex_Wait_Private a v \<Rightarrow> Inr (Swallowed (Futex_Wait k a v))
      | Futex_Wake_Private a \<Rightarrow> Inr (Swallowed (Yield k))
      | Futex_Other a \<Rightarrow> Inl (Assert_Failed ''unsupported futex call'')
      | Other_Syscall \<Rightarrow> Inr Pass_To_Kernel)"

section \<open>Facts about the runtime\<close>

lemma Resume_Inr_iff:
  "Resume body w c = Inr (w', c') \<longleftrightarrow> \<not> co_is_returned c \<and>
     (case body (co_ctx c) w of
        (v, Yield k) \<Rightarrow> w' = v \<and> c' = c\<lparr>co_ctx := k\<rparr>
      | (v, Futex_Wait k a x) \<Rightarrow> w' = v \<and> c' = SetBlocked a x (c\<lparr>co_ctx := k\<rparr>)
      | (v, Return r) \<Rightarrow> w' = v \<and> c' = c\<lparr>co_ret := r, co_is_returned := True\<rparr>)"
  by (auto simp: Resume_def split: prod.splits slice_end.splits)

lemma Resume_not_returned: "\<not> co_is_returned c \<Longrightarrow> \<exists>w' c'. Resume body w c = Inr (w', c')"
  by (simp add: Resume_def split: prod.splits slice_end.splits)

lemma Resume_frame:
  assumes "Resume body w c = Inr (w', c')"
  shows "co_id c' = co_id c \<and> co_name c' = co_name c \<and> co_args c' = co_args c
    \<and> co_func c' = co_func c \<and> co_token c' = co_token c"
  using assms by (auto simp: Resume_Inr_iff SetBlocked_def split: prod.splits slice_end.splits)

lemma terminate_loop_returned:
  "terminate_loop body tries w c = Inr (w', c') \<Longrightarrow> co_is_returned c'"
proof (induction body tries w c rule: terminate_loop.induct)
  case (1 body tries w c)
  then show ?case
    by (auto simp: terminate_loop.simps [of body tries w c] res_bind_Inr_iff split: if_splits)
qed

lemma terminate_loop_frame:
  "terminate_loop body tries w c = Inr (w', c') \<Longrightarrow>
     co_id c' = co_id c \<and> co_name c' = co_name c \<and> co_args c' = co_args c
     \<and> co_func c' = co_func c \<and> co_token c' = co_token c"
proof (induction body tries w c rule: terminate_loop.induct)
  case (1 body tries w c)
  show ?case
  proof (cases "co_is_returned c")
    case True
    with "1.prems" show ?thesis by (simp add: terminate_loop.simps [of body tries w c])
  next
    case False
    with "1.prems" obtain v d where d: "Resume body w c = Inr (v, d)" "Suc tries < max_tries"
        "terminate_loop body (Suc tries) v d = Inr (w', c')"
      by (auto simp: terminate_loop.simps [of body tries w c] res_bind_Inr_iff split: if_splits)
    from "1.IH" [OF False d(1) refl d(2) d(3)] Resume_frame [OF d(1)] show ?thesis by simp
  qed
qed

lemma IsBlocked_fst [simp]: "fst (IsBlocked mem w c) = blocked_now mem w c"
  by (simp add: IsBlocked_def)

lemma IsBlocked_again: "blocked_now mem w (snd (IsBlocked mem w c)) = blocked_now mem w c"
  by (simp add: IsBlocked_def blocked_now_def)

end
