(* ===== verification/History.thy ===== *)
theory History
  imports Coroutine
begin

text \<open>
  Histories of invocations and responses (\<open>Invoke\<close>, \<open>Response\<close>, \<open>HistoryEvent\<close> of
  \<open>runtime/include/lincheck.h\<close>) and the map from invocations to responses
  (\<open>get_inv_res_mapping\<close> of \<open>runtime/lin_check.cpp\<close>). An event holds a reference to a task;
  the type variable \<open>'r\<close> is the type of such references, and the store of tasks that
  resolves them is an argument of the operations that read a task.
\<close>

section \<open>Events\<close>

datatype 'r history_event =
    is_invoke: Invoke (GetTask: 'r) (thread_id: int)
  | is_response: Response (GetTask: 'r) (result: value_wrapper) (thread_id: int)

section \<open>The map from invocations to responses\<close>

fun inv_res_loop ::
    "'r history_event list \<Rightarrow> nat \<Rightarrow> (nat \<rightharpoonup> nat) \<Rightarrow> ('r \<rightharpoonup> nat) \<Rightarrow> (nat \<rightharpoonup> nat) res" where
  "inv_res_loop [] i inv_res uids = Inr inv_res"
| "inv_res_loop (Invoke t _ # es) i inv_res uids =
     inv_res_loop es (Suc i) inv_res (uids(t \<mapsto> i))"
| "inv_res_loop (Response t _ _ # es) i inv_res uids =
     (case uids t of
        None \<Rightarrow> Inl (Assert_Failed ''uids.find(&res.GetTask()) != uids.end()'')
      | Some inv_id \<Rightarrow> inv_res_loop es (Suc i) (inv_res(inv_id \<mapsto> i)) uids)"

definition get_inv_res_mapping :: "'r history_event list \<Rightarrow> (nat \<rightharpoonup> nat) res" where
  "get_inv_res_mapping history = inv_res_loop history 0 Map.empty Map.empty"

section \<open>Well-formed histories\<close>

text \<open>
  The histories that the schedulers record: every task is invoked at most once and answers
  at most once, after its invocation.
\<close>

definition invoked :: "'r history_event list \<Rightarrow> 'r list" where
  "invoked h = map GetTask (filter is_invoke h)"

definition answered :: "'r history_event list \<Rightarrow> 'r list" where
  "answered h = map GetTask (filter (\<lambda>e. \<not> is_invoke e) h)"

fun wf_from :: "'r set \<Rightarrow> 'r set \<Rightarrow> 'r history_event list \<Rightarrow> bool" where
  "wf_from I R [] = True"
| "wf_from I R (Invoke t _ # es) = (t \<notin> I \<and> wf_from (insert t I) R es)"
| "wf_from I R (Response t _ _ # es) = (t \<in> I \<and> t \<notin> R \<and> wf_from I (insert t R) es)"

definition wf_history :: "'r history_event list \<Rightarrow> bool" where
  "wf_history h = wf_from {} {} h"

definition responds :: "'r history_event list \<Rightarrow> nat \<Rightarrow> nat \<Rightarrow> bool" where
  "responds h i r \<longleftrightarrow> i < r \<and> r < length h \<and> is_invoke (h ! i) \<and> \<not> is_invoke (h ! r)
     \<and> GetTask (h ! i) = GetTask (h ! r)"

definition invokes :: "'r history_event list \<Rightarrow> nat set" where
  "invokes h = {i. i < length h \<and> is_invoke (h ! i)}"

lemma invokes_filter: "invokes h = set (filter (\<lambda>i. is_invoke (h ! i)) [0..<length h])"
  by (auto simp: invokes_def)

lemma finite_invokes [simp]: "finite (invokes h)"
  by (simp add: invokes_def)

lemma respondsD:
  assumes "responds h i r"
  shows "i < r" and "r < length h" and "i \<in> invokes h" and "\<not> is_invoke (h ! r)"
  using assms by (auto simp: responds_def invokes_def)

lemma invoked_simps [simp]:
  "invoked [] = []" "invoked (Invoke t x # h) = t # invoked h"
  "invoked (Response t v x # h) = invoked h"
  by (simp_all add: invoked_def)

lemma answered_simps [simp]:
  "answered [] = []" "answered (Invoke t x # h) = answered h"
  "answered (Response t v x # h) = t # answered h"
  by (simp_all add: answered_def)

lemma invoked_append [simp]: "invoked (xs @ ys) = invoked xs @ invoked ys"
  by (simp add: invoked_def)

lemma answered_append [simp]: "answered (xs @ ys) = answered xs @ answered ys"
  by (simp add: answered_def)

lemma wf_from_append:
  "wf_from I R (xs @ ys) \<longleftrightarrow>
     wf_from I R xs \<and> wf_from (I \<union> set (invoked xs)) (R \<union> set (answered xs)) ys"
  by (induction I R xs rule: wf_from.induct) auto

lemma wf_history_Nil [simp]: "wf_history []"
  by (simp add: wf_history_def)

lemma wf_history_snoc_Invoke [simp]:
  "wf_history (h @ [Invoke t x]) \<longleftrightarrow> wf_history h \<and> t \<notin> set (invoked h)"
  by (simp add: wf_history_def wf_from_append)

lemma wf_history_snoc_Response [simp]:
  "wf_history (h @ [Response t v x]) \<longleftrightarrow>
     wf_history h \<and> t \<in> set (invoked h) \<and> t \<notin> set (answered h)"
  by (simp add: wf_history_def wf_from_append)

lemma set_invoked: "set (invoked h) = {GetTask (h ! i) | i. i < length h \<and> is_invoke (h ! i)}"
  by (auto simp: invoked_def set_filter in_set_conv_nth)

lemma set_answered: "set (answered h) = {GetTask (h ! i) | i. i < length h \<and> \<not> is_invoke (h ! i)}"
  by (auto simp: answered_def set_filter in_set_conv_nth)

lemma wf_history_nth_Invoke:
  assumes "wf_history h" and "i < length h" and "is_invoke (h ! i)"
  shows "GetTask (h ! i) \<notin> set (invoked (take i h))"
proof -
  from assms(2) have "h = take i h @ h ! i # drop (Suc i) h"
    by (simp add: id_take_nth_drop [symmetric])
  with assms(1) have "wf_from (set (invoked (take i h))) (set (answered (take i h)))
      (h ! i # drop (Suc i) h)"
    by (metis wf_history_def wf_from_append sup_bot_left)
  with assms(3) show ?thesis by (cases "h ! i") auto
qed

lemma wf_history_nth_Response:
  assumes "wf_history h" and "r < length h" and "\<not> is_invoke (h ! r)"
  shows "GetTask (h ! r) \<in> set (invoked (take r h))"
    and "GetTask (h ! r) \<notin> set (answered (take r h))"
proof -
  from assms(2) have "h = take r h @ h ! r # drop (Suc r) h"
    by (simp add: id_take_nth_drop [symmetric])
  with assms(1) have "wf_from (set (invoked (take r h))) (set (answered (take r h)))
      (h ! r # drop (Suc r) h)"
    by (metis wf_history_def wf_from_append sup_bot_left)
  with assms(3) show "GetTask (h ! r) \<in> set (invoked (take r h))"
    and "GetTask (h ! r) \<notin> set (answered (take r h))" by (cases "h ! r"; auto)+
qed

lemma wf_history_invoke_unique:
  assumes "wf_history h" "i < length h" "j < length h" "is_invoke (h ! i)" "is_invoke (h ! j)"
    and "GetTask (h ! i) = GetTask (h ! j)"
  shows "i = j"
proof -
  have no: False if "a < b" "b < length h" "is_invoke (h ! a)" "is_invoke (h ! b)"
      "GetTask (h ! a) = GetTask (h ! b)" for a b
  proof -
    have "GetTask (h ! b) \<in> set (invoked (take b h))"
      using that by (auto simp: set_invoked intro!: exI [of _ a])
    with wf_history_nth_Invoke [OF assms(1) that(2,4)] show False by simp
  qed
  from no [of i j] no [of j i] assms show ?thesis by (metis linorder_neqE_nat)
qed

lemma wf_history_response_unique:
  assumes "wf_history h" "i < length h" "j < length h" "\<not> is_invoke (h ! i)" "\<not> is_invoke (h ! j)"
    and "GetTask (h ! i) = GetTask (h ! j)"
  shows "i = j"
proof -
  have no: False if "a < b" "b < length h" "\<not> is_invoke (h ! a)" "\<not> is_invoke (h ! b)"
      "GetTask (h ! a) = GetTask (h ! b)" for a b
  proof -
    have "GetTask (h ! b) \<in> set (answered (take b h))"
      using that by (auto simp: set_answered intro!: exI [of _ a])
    with wf_history_nth_Response(2) [OF assms(1) that(2,4)] show False by simp
  qed
  from no [of i j] no [of j i] assms show ?thesis by (metis linorder_neqE_nat)
qed

lemma responds_unique:
  assumes "wf_history h" and "responds h i r" and "responds h i r'"
  shows "r = r'"
  using assms wf_history_response_unique [OF assms(1), of r r'] by (auto simp: responds_def)

lemma responds_inj:
  assumes "wf_history h" and "responds h i r" and "responds h j r"
  shows "i = j"
  using assms wf_history_invoke_unique [OF assms(1), of i j] by (auto simp: responds_def)

lemma response_has_invoke:
  assumes "wf_history h" and "r < length h" and "\<not> is_invoke (h ! r)"
  shows "\<exists>i. responds h i r"
  using wf_history_nth_Response(1) [OF assms] assms(2,3)
  by (auto simp: set_invoked responds_def)

section \<open>The computed map is the matching of the history\<close>

definition invoke_at :: "'r history_event list \<Rightarrow> nat \<Rightarrow> 'r \<Rightarrow> bool" where
  "invoke_at h k t \<longleftrightarrow> k < length h \<and> is_invoke (h ! k) \<and> GetTask (h ! k) = t"

lemma invoke_at_Nil [simp]: "\<not> invoke_at [] k t"
  by (simp add: invoke_at_def)

lemma responds_Nil [simp]: "\<not> responds [] i r"
  by (simp add: responds_def)

lemma invoke_at_snoc:
  "invoke_at (h @ [e]) k t \<longleftrightarrow>
     invoke_at h k t \<or> k = length h \<and> is_invoke e \<and> GetTask e = t"
  by (auto simp: invoke_at_def nth_append less_Suc_eq)

lemma responds_snoc:
  "responds (h @ [e]) i r \<longleftrightarrow>
     responds h i r \<or> r = length h \<and> \<not> is_invoke e \<and> invoke_at h i (GetTask e)"
  by (auto simp: responds_def invoke_at_def nth_append less_Suc_eq)

lemma invoke_at_invoked: "(\<exists>k. invoke_at h k t) \<longleftrightarrow> t \<in> set (invoked h)"
  by (auto simp: invoke_at_def set_invoked)

lemma invoke_at_unique: "wf_history h \<Longrightarrow> invoke_at h k t \<Longrightarrow> invoke_at h l t \<Longrightarrow> k = l"
  by (auto simp: invoke_at_def intro: wf_history_invoke_unique)

lemma no_answer_no_response:
  "invoke_at h k t \<Longrightarrow> t \<notin> set (answered h) \<Longrightarrow> \<not> responds h k r"
  by (auto simp: invoke_at_def responds_def set_answered)

lemma inv_res_loop_correct:
  assumes "wf_history (pre @ es)"
    and "\<And>t k. uids t = Some k \<longleftrightarrow> invoke_at pre k t"
    and "\<And>i r. inv_res i = Some r \<longleftrightarrow> responds pre i r"
  shows "\<exists>m. inv_res_loop es (length pre) inv_res uids = Inr m
           \<and> (\<forall>i r. m i = Some r \<longleftrightarrow> responds (pre @ es) i r)"
  using assms
proof (induction es arbitrary: pre inv_res uids)
  case Nil
  then show ?case by simp
next
  case (Cons e es)
  have wf: "wf_history (pre @ [e])"
    using Cons.prems(1) wf_from_append [of "{}" "{}" "pre @ [e]" es] by (simp add: wf_history_def)
  have step: "\<exists>m. inv_res_loop es (Suc (length pre)) inv_res' uids' = Inr m
      \<and> (\<forall>i r. m i = Some r \<longleftrightarrow> responds (pre @ e # es) i r)"
    if "\<And>t k. uids' t = Some k \<longleftrightarrow> invoke_at (pre @ [e]) k t"
      and "\<And>i r. inv_res' i = Some r \<longleftrightarrow> responds (pre @ [e]) i r" for uids' inv_res'
    using Cons.IH [of "pre @ [e]" uids' inv_res'] that Cons.prems(1) by simp
  show ?case
  proof (cases e)
    case (Invoke t x)
    have "\<not> invoke_at pre k t" for k using wf Invoke invoke_at_invoked [of pre t] by auto
    then have "(uids(t \<mapsto> length pre)) s = Some k \<longleftrightarrow> invoke_at (pre @ [e]) k s" for s k
      using Cons.prems(2) [of s k] Invoke by (auto simp: invoke_at_snoc)
    then show ?thesis
      using step [of "uids(t \<mapsto> length pre)" inv_res] Cons.prems(3) Invoke
      by (simp add: responds_snoc)
  next
    case (Response t v x)
    have wfp: "wf_history pre" and "t \<in> set (invoked pre)" and t: "t \<notin> set (answered pre)"
      using wf Response by simp_all
    then obtain k where k: "invoke_at pre k t" by (auto simp flip: invoke_at_invoked)
    have "(inv_res(k \<mapsto> length pre)) i = Some r \<longleftrightarrow> responds (pre @ [e]) i r" for i r
    proof (cases "i = k")
      case True
      then show ?thesis
        using no_answer_no_response [OF k t, of r] k Response by (auto simp: responds_snoc)
    next
      case False
      then have "\<not> invoke_at pre i t" using invoke_at_unique [OF wfp k] by blast
      with False show ?thesis using Cons.prems(3) [of i r] Response by (simp add: responds_snoc)
    qed
    moreover have "uids s = Some l \<longleftrightarrow> invoke_at (pre @ [e]) l s" for s l
      using Cons.prems(2) [of s l] Response by (simp add: invoke_at_snoc)
    ultimately have "\<exists>m. inv_res_loop es (Suc (length pre)) (inv_res(k \<mapsto> length pre)) uids = Inr m
        \<and> (\<forall>i r. m i = Some r \<longleftrightarrow> responds (pre @ e # es) i r)"
      by (intro step)
    moreover have "uids t = Some k" using Cons.prems(2) k by simp
    ultimately show ?thesis by (simp add: Response)
  qed
qed

lemma get_inv_res_mapping_correct:
  assumes "wf_history h"
  obtains m where "get_inv_res_mapping h = Inr m" and "\<And>i r. m i = Some r \<longleftrightarrow> responds h i r"
  using inv_res_loop_correct [of "[]" h Map.empty Map.empty] assms that
  by (auto simp: get_inv_res_mapping_def)

end
