(* ===== verification/Strategy_Verifier.thy ===== *)
theory Strategy_Verifier
  imports Ltest_Prelude
begin

text \<open>
  Model of the strategy verifiers: the concept \<open>StrategyVerifier\<close> of
  \<open>runtime/include/scheduler.h\<close> as a record of operations, and its three implementations,
  \<open>DefaultStrategyVerifier\<close> (\<open>runtime/include/strategy_verifier.h\<close>), \<open>MutexVerifier\<close> and
  \<open>SharedMutexVerifier\<close> (\<open>verifying/blocking/verifiers\<close>). A verifier decides which task a
  thread may start, so that the tested object is only used the way its protocol allows. The
  protocol is an automaton per thread; the locale states what a verifier promises about it.
\<close>

section \<open>The concept\<close>

record created_task_meta_data =
  ct_name :: string
  ct_is_new :: bool
  ct_thread_id :: nat

text \<open>
  \<open>OnFinished\<close> receives a \<open>TaskWithMetaData\<close>, whose task the verifiers only ask for its name;
  the name is passed in its place.
\<close>

record 'v strategy_verifier =
  Verify :: "created_task_meta_data \<Rightarrow> 'v \<Rightarrow> (bool \<times> 'v) res"
  OnFinished :: "created_task_meta_data \<Rightarrow> 'v \<Rightarrow> 'v res"
  Reset_verifier :: "'v \<Rightarrow> 'v"
  UpdateState :: "string \<Rightarrow> nat \<Rightarrow> bool \<Rightarrow> 'v \<Rightarrow> 'v"

section \<open>The verifiers\<close>

definition DefaultStrategyVerifier :: "unit strategy_verifier" where
  "DefaultStrategyVerifier =
     \<lparr>Verify = (\<lambda>_ v. Inr (True, v)), OnFinished = (\<lambda>_ v. Inr v), Reset_verifier = id,
      UpdateState = (\<lambda>_ _ _ v. v)\<rparr>"

type_synonym status_map = "nat \<rightharpoonup> nat"

text \<open>\<open>status[thread_id]\<close> of an unordered map inserts a zero when the key is absent.\<close>

definition status_at :: "status_map \<Rightarrow> nat \<Rightarrow> nat" where
  "status_at st t = (case st t of None \<Rightarrow> 0 | Some n \<Rightarrow> n)"

definition status_touch :: "status_map \<Rightarrow> nat \<Rightarrow> status_map" where
  "status_touch st t = (if st t = None then st(t \<mapsto> 0) else st)"

definition Mutex_Verify :: "created_task_meta_data \<Rightarrow> status_map \<Rightarrow> (bool \<times> status_map) res" where
  "Mutex_Verify ctask st =
     (if \<not> ct_is_new ctask then Inr (True, st)
      else let st = status_touch st (ct_thread_id ctask) in
        if ct_name ctask = ''Lock'' then Inr (status_at st (ct_thread_id ctask) = 0, st)
        else if ct_name ctask = ''Unlock'' then Inr (status_at st (ct_thread_id ctask) = 1, st)
        else Inl (Assert_Failed ''false''))"

definition Mutex_OnFinished :: "created_task_meta_data \<Rightarrow> status_map \<Rightarrow> status_map res" where
  "Mutex_OnFinished ctask st =
     (if ct_name ctask = ''Lock'' then Inr (st(ct_thread_id ctask \<mapsto> 1))
      else if ct_name ctask = ''Unlock'' then Inr (st(ct_thread_id ctask \<mapsto> 0))
      else Inr st)"

definition MutexVerifier :: "status_map strategy_verifier" where
  "MutexVerifier =
     \<lparr>Verify = Mutex_Verify, OnFinished = Mutex_OnFinished, Reset_verifier = (\<lambda>_. Map.empty),
      UpdateState = (\<lambda>_ _ _ st. st)\<rparr>"

definition READER :: nat where "READER = 4"
definition WRITER :: nat where "WRITER = 1"
definition FREE :: nat where "FREE = 0"

definition Shared_Verify :: "created_task_meta_data \<Rightarrow> status_map \<Rightarrow> (bool \<times> status_map) res" where
  "Shared_Verify ctask st =
     (let st = (if st (ct_thread_id ctask) = None then st(ct_thread_id ctask \<mapsto> FREE) else st);
          now = status_at st (ct_thread_id ctask) in
      if ct_name ctask = ''lock'' then Inr (now = FREE, st)
      else if ct_name ctask = ''unlock'' then Inr (now = WRITER, st)
      else if ct_name ctask = ''lock_shared'' then Inr (now = FREE, st)
      else if ct_name ctask = ''unlock_shared'' then Inr (now = READER, st)
      else Inl (Assert_Failed ''false''))"

definition Shared_OnFinished :: "created_task_meta_data \<Rightarrow> status_map \<Rightarrow> status_map res" where
  "Shared_OnFinished ctask st =
     (if ct_name ctask = ''lock'' then Inr (st(ct_thread_id ctask \<mapsto> WRITER))
      else if ct_name ctask = ''unlock'' then Inr (st(ct_thread_id ctask \<mapsto> FREE))
      else if ct_name ctask = ''lock_shared'' then Inr (st(ct_thread_id ctask \<mapsto> READER))
      else if ct_name ctask = ''unlock_shared'' then Inr (st(ct_thread_id ctask \<mapsto> FREE))
      else Inl (Assert_Failed ''false''))"

definition SharedMutexVerifier :: "status_map strategy_verifier" where
  "SharedMutexVerifier =
     \<lparr>Verify = Shared_Verify, OnFinished = Shared_OnFinished, Reset_verifier = (\<lambda>_. Map.empty),
      UpdateState = (\<lambda>_ _ _ st. st)\<rparr>"

section \<open>Usage protocols\<close>

text \<open>
  A protocol is a partial transition function on phases. \<open>follows\<close> runs it over the names of
  the tasks that one thread has started.
\<close>

fun follows :: "('p \<Rightarrow> string \<Rightarrow> 'p option) \<Rightarrow> 'p \<Rightarrow> string list \<Rightarrow> 'p option" where
  "follows \<delta> p [] = Some p"
| "follows \<delta> p (nm # nms) = (case \<delta> p nm of None \<Rightarrow> None | Some q \<Rightarrow> follows \<delta> q nms)"

definition started_by :: "nat \<Rightarrow> (nat \<times> string) list \<Rightarrow> string list" where
  "started_by t tr = map snd (filter (\<lambda>e. fst e = t) tr)"

text \<open>
  How a scheduler drives a verifier. A thread without a running task may start one that the
  verifier accepts; a running task may be verified again (as the TLA scheduler does before it
  resumes the task), reports its end through \<open>OnFinished\<close>. \<open>run\<close> is the running task of each
  thread and \<open>tr\<close> the tasks started so far.
\<close>

inductive guarded_run ::
    "'v strategy_verifier \<Rightarrow> 'v \<Rightarrow> 'v \<Rightarrow> (nat \<rightharpoonup> string) \<Rightarrow> (nat \<times> string) list \<Rightarrow> bool"
    for V :: "'v strategy_verifier" and v0 :: 'v where
  initial: "guarded_run V v0 v0 Map.empty []"
| start: "\<lbrakk>guarded_run V v0 v run tr; run t = None;
     Verify V \<lparr>ct_name = nm, ct_is_new = True, ct_thread_id = t\<rparr> v = Inr (True, v')\<rbrakk>
     \<Longrightarrow> guarded_run V v0 v' (run(t \<mapsto> nm)) (tr @ [(t, nm)])"
| reject: "\<lbrakk>guarded_run V v0 v run tr;
     Verify V \<lparr>ct_name = nm, ct_is_new = True, ct_thread_id = t\<rparr> v = Inr (False, v')\<rbrakk>
     \<Longrightarrow> guarded_run V v0 v' run tr"
| again: "\<lbrakk>guarded_run V v0 v run tr; run t = Some nm;
     Verify V \<lparr>ct_name = nm, ct_is_new = False, ct_thread_id = t\<rparr> v = Inr (b, v')\<rbrakk>
     \<Longrightarrow> guarded_run V v0 v' run tr"
| finish: "\<lbrakk>guarded_run V v0 v run tr; run t = Some nm;
     OnFinished V \<lparr>ct_name = nm, ct_is_new = is_new, ct_thread_id = t\<rparr> v = Inr v'\<rbrakk>
     \<Longrightarrow> guarded_run V v0 v' (run(t := None)) tr"

text \<open>
  The contract of a verifier for a protocol \<open>\<delta>\<close>: the phase of a thread is read from the
  state, \<open>Verify\<close> accepts what the protocol allows in that phase and changes no phase,
  \<open>OnFinished\<close> makes the protocol step of its thread.
\<close>

locale protocol_verifier =
  fixes V :: "'v strategy_verifier" and v0 :: 'v
    and \<delta> :: "'p \<Rightarrow> string \<Rightarrow> 'p option" and p0 :: 'p and phase :: "'v \<Rightarrow> nat \<Rightarrow> 'p"
  assumes phase_init: "phase v0 t = p0"
    and phase_Reset: "phase (Reset_verifier V v) t = p0"
    and Verify_phase: "Verify V c v = Inr (b, v') \<Longrightarrow> phase v' t = phase v t"
    and Verify_new: "Verify V c v = Inr (b, v') \<Longrightarrow> ct_is_new c
      \<Longrightarrow> b \<longleftrightarrow> \<delta> (phase v (ct_thread_id c)) (ct_name c) \<noteq> None"
    and Verify_again: "\<delta> (phase v (ct_thread_id c)) (ct_name c) \<noteq> None
      \<Longrightarrow> \<not> ct_is_new c \<Longrightarrow> \<exists>v'. Verify V c v = Inr (True, v')"
    and OnFinished_phase: "OnFinished V c v = Inr v'
      \<Longrightarrow> \<delta> (phase v (ct_thread_id c)) (ct_name c) = Some q
      \<Longrightarrow> phase v' t = (if t = ct_thread_id c then q else phase v t)"
begin

lemma follows_append: "follows d p (xs @ ys) = (case follows d p xs of None \<Rightarrow> None | Some q \<Rightarrow> follows d q ys)"
  by (induction xs arbitrary: p) (auto split: option.splits)

lemma started_by_snoc [simp]:
  "started_by t (tr @ [(t', nm)]) = (if t = t' then started_by t tr @ [nm] else started_by t tr)"
  by (simp add: started_by_def)

text \<open>The phase of the state is the phase before the running task, if any.\<close>

lemma run_phase:
  assumes "guarded_run V v0 v run tr"
  shows "case run t of None \<Rightarrow> follows \<delta> p0 (started_by t tr) = Some (phase v t)
    | Some nm \<Rightarrow> \<delta> (phase v t) nm \<noteq> None \<and> follows \<delta> p0 (started_by t tr) = \<delta> (phase v t) nm"
  using assms
proof (induction arbitrary: t)
  case initial
  show ?case by (simp add: started_by_def phase_init)
next
  case (start v run tr t' nm v')
  have "\<delta> (phase v t') nm \<noteq> None" using Verify_new [OF start.hyps(3)] by simp
  moreover have "phase v' t = phase v t" using Verify_phase [OF start.hyps(3)] .
  ultimately show ?case using start.IH [of t] start.hyps(2)
    by (auto simp: follows_append split: option.splits)
next
  case (reject v run tr nm t' v')
  show ?case using reject.IH [of t] Verify_phase [OF reject.hyps(2), of t]
    by (auto split: option.splits)
next
  case (again v run tr t' nm b v')
  show ?case using again.IH [of t] Verify_phase [OF again.hyps(3), of t]
    by (auto split: option.splits)
next
  case (finish v run tr t' nm is_new v')
  from finish.IH [of t'] finish.hyps(2) obtain q where "\<delta> (phase v t') nm = Some q"
      "follows \<delta> p0 (started_by t' tr) = Some q" by auto
  with OnFinished_phase [OF finish.hyps(3), of q t] finish.IH [of t] show ?case
    by (auto split: option.splits if_splits)
qed

lemma run_follows:
  "guarded_run V v0 v run tr \<Longrightarrow> follows \<delta> p0 (started_by t tr) \<noteq> None"
  using run_phase [of v run tr t] by (auto split: option.splits)

lemma running_verified:
  assumes "guarded_run V v0 v run tr" "run t = Some nm"
  shows "\<exists>v'. Verify V \<lparr>ct_name = nm, ct_is_new = False, ct_thread_id = t\<rparr> v = Inr (True, v')"
  using run_phase [OF assms(1), of t] assms(2) by (intro Verify_again) auto

end

section \<open>The protocols of the verifiers\<close>

text \<open>A mutex is locked and unlocked in turn; a shared mutex is unlocked the way it was locked.\<close>

definition mutex_protocol :: "nat \<Rightarrow> string \<Rightarrow> nat option" where
  "mutex_protocol p nm =
     (if nm = ''Lock'' \<and> p = 0 then Some 1 else if nm = ''Unlock'' \<and> p = 1 then Some 0 else None)"

definition shared_mutex_protocol :: "nat \<Rightarrow> string \<Rightarrow> nat option" where
  "shared_mutex_protocol p nm =
     (if nm = ''lock'' \<and> p = FREE then Some WRITER
      else if nm = ''unlock'' \<and> p = WRITER then Some FREE
      else if nm = ''lock_shared'' \<and> p = FREE then Some READER
      else if nm = ''unlock_shared'' \<and> p = READER then Some FREE else None)"

lemma status_touch [simp]: "status_at (status_touch st t) t' = status_at st t'"
  by (simp add: status_at_def status_touch_def)

lemma status_at_upd [simp]: "status_at (st(t \<mapsto> n)) t' = (if t' = t then n else status_at st t')"
  by (simp add: status_at_def)

lemma status_at_free: "st t = None \<Longrightarrow> status_at st t = 0"
  by (simp add: status_at_def)

lemma status_at_some:
  "status_at st t = Suc n \<Longrightarrow> \<exists>y. st t = Some y" "status_at st t = numeral k \<Longrightarrow> \<exists>y. st t = Some y"
  by (simp_all add: status_at_def split: option.splits)

lemmas verifier_defs =
  DefaultStrategyVerifier_def MutexVerifier_def SharedMutexVerifier_def Mutex_Verify_def
  Mutex_OnFinished_def Shared_Verify_def Shared_OnFinished_def mutex_protocol_def
  shared_mutex_protocol_def READER_def WRITER_def FREE_def Let_def

interpretation default_verifier:
  protocol_verifier DefaultStrategyVerifier "()" "\<lambda>p _. Some p" "()" "\<lambda>v _. v"
  by unfold_locales (auto simp: verifier_defs)

interpretation mutex_verifier:
  protocol_verifier MutexVerifier Map.empty mutex_protocol 0 status_at
  by unfold_locales (auto simp: verifier_defs status_at_free split: if_splits)

interpretation shared_mutex_verifier:
  protocol_verifier SharedMutexVerifier Map.empty shared_mutex_protocol FREE status_at
  by unfold_locales
    (auto simp: verifier_defs status_at_free dest!: status_at_some split: if_splits)

lemma mutex_protocol_alternates:
  assumes "follows mutex_protocol p nms \<noteq> None" "i < length nms" "p \<le> 1"
  shows "nms ! i = (if even (p + i) then ''Lock'' else ''Unlock'')"
  using assms
proof (induction nms arbitrary: p i)
  case (Cons nm nms)
  from Cons.prems(1) obtain q where q: "mutex_protocol p nm = Some q" "follows mutex_protocol q nms \<noteq> None"
    by (auto split: option.splits)
  then have pq: "nm = (if p = 0 then ''Lock'' else ''Unlock'')" "q = 1 - p" "p \<le> 1"
    by (auto simp: mutex_protocol_def split: if_splits)
  show ?case
  proof (cases i)
    case 0
    with pq show ?thesis by (cases "p = 0") auto
  next
    case (Suc j)
    with Cons.IH [OF q(2), of j] Cons.prems(2) pq show ?thesis by (cases "p = 0") auto
  qed
qed simp

fun shared_pairs :: "string list \<Rightarrow> bool" where
  "shared_pairs [] = True"
| "shared_pairs [a] = (a = ''lock'' \<or> a = ''lock_shared'')"
| "shared_pairs (a # b # nms) =
     ((a = ''lock'' \<and> b = ''unlock'' \<or> a = ''lock_shared'' \<and> b = ''unlock_shared'') \<and> shared_pairs nms)"

lemma shared_protocol_pairs:
  "follows shared_mutex_protocol FREE nms \<noteq> None \<Longrightarrow> shared_pairs nms"
proof (induction nms rule: induct_list012)
  case 1
  show ?case by simp
next
  case (2 a)
  then show ?case
    by (auto simp: shared_mutex_protocol_def FREE_def WRITER_def READER_def split: if_splits)
next
  case (3 a b nms)
  then show ?case
    by (auto simp: shared_mutex_protocol_def FREE_def WRITER_def READER_def split: if_splits option.splits)
qed

section \<open>Properties\<close>

text \<open>
  Under the mutex verifier every thread alternates \<open>Lock\<close> and \<open>Unlock\<close>, beginning with
  \<open>Lock\<close>, whatever the interleaving of the threads; and a running task is never refused when
  it is verified again.
\<close>

theorem mutex_verifier_alternates:
  assumes "guarded_run MutexVerifier Map.empty v run tr"
  shows "(\<forall>i < length (started_by t tr). started_by t tr ! i = (if even i then ''Lock'' else ''Unlock''))
    \<and> (\<forall>nm. run t = Some nm \<longrightarrow>
         (\<exists>v'. Verify MutexVerifier \<lparr>ct_name = nm, ct_is_new = False, ct_thread_id = t\<rparr> v = Inr (True, v')))"
  using mutex_protocol_alternates [of 0 "started_by t tr"] mutex_verifier.run_follows [OF assms]
    mutex_verifier.running_verified [OF assms] by simp

lemma mutex_sample_run:
  "guarded_run MutexVerifier Map.empty [0 \<mapsto> 0, 1 \<mapsto> 0] [0 \<mapsto> ''Lock'', 1 \<mapsto> ''Lock'']
     [(0, ''Lock''), (1, ''Lock'')]"
proof -
  have "guarded_run MutexVerifier Map.empty [0 \<mapsto> 0] [0 \<mapsto> ''Lock''] ([] @ [(0, ''Lock'')])"
    by (rule guarded_run.start [OF guarded_run.initial])
      (simp_all add: MutexVerifier_def Mutex_Verify_def status_touch_def)
  from guarded_run.start [OF this, of 1 "''Lock''" "[0 \<mapsto> 0, 1 \<mapsto> 0]"] show ?thesis
    by (simp add: MutexVerifier_def Mutex_Verify_def status_touch_def)
qed

theorem mutex_verifier_alternates_witness:
  "\<exists>v'. Verify MutexVerifier \<lparr>ct_name = ''Lock'', ct_is_new = False, ct_thread_id = 1\<rparr> [0 \<mapsto> 0, 1 \<mapsto> 0]
     = Inr (True, v')"
  using mutex_verifier_alternates [OF mutex_sample_run, of 1] by simp

text \<open>
  Under the shared mutex verifier the tasks of every thread come in pairs, \<open>lock\<close> with
  \<open>unlock\<close> and \<open>lock_shared\<close> with \<open>unlock_shared\<close>, and a running task is never refused although
  this verifier does not look at \<open>is_new\<close>.
\<close>

theorem shared_mutex_verifier_pairs:
  assumes "guarded_run SharedMutexVerifier Map.empty v run tr"
  shows "shared_pairs (started_by t tr)
    \<and> (\<forall>nm. run t = Some nm \<longrightarrow>
         (\<exists>v'. Verify SharedMutexVerifier \<lparr>ct_name = nm, ct_is_new = False, ct_thread_id = t\<rparr> v = Inr (True, v')))"
  using shared_protocol_pairs [OF shared_mutex_verifier.run_follows [OF assms]]
    shared_mutex_verifier.running_verified [OF assms] by simp

lemma shared_sample_run:
  "guarded_run SharedMutexVerifier Map.empty ([0 \<mapsto> FREE, 1 \<mapsto> FREE](0 \<mapsto> READER))
     ([0 \<mapsto> ''lock_shared'', 1 \<mapsto> ''lock_shared''](0 := None))
     [(0, ''lock_shared''), (1, ''lock_shared'')]"
proof -
  have "guarded_run SharedMutexVerifier Map.empty [0 \<mapsto> FREE] [0 \<mapsto> ''lock_shared''] ([] @ [(0, ''lock_shared'')])"
    by (rule guarded_run.start [OF guarded_run.initial])
      (simp_all add: SharedMutexVerifier_def Shared_Verify_def)
  from guarded_run.start [OF this, of 1 "''lock_shared''" "[0 \<mapsto> FREE, 1 \<mapsto> FREE]"]
  have "guarded_run SharedMutexVerifier Map.empty [0 \<mapsto> FREE, 1 \<mapsto> FREE]
      [0 \<mapsto> ''lock_shared'', 1 \<mapsto> ''lock_shared''] [(0, ''lock_shared''), (1, ''lock_shared'')]"
    by (simp add: SharedMutexVerifier_def Shared_Verify_def)
  then show ?thesis
    by (rule guarded_run.finish [of _ _ _ _ _ _ "''lock_shared''" False])
      (simp_all add: SharedMutexVerifier_def Shared_OnFinished_def)
qed

theorem shared_mutex_verifier_pairs_witness:
  "shared_pairs (started_by 0 [(0, ''lock_shared''), (1, ''lock_shared'')])"
  using shared_mutex_verifier_pairs [OF shared_sample_run] by blast

end
