(* ===== verification/Strategy_Base.thy ===== *)
theory Strategy_Base
  imports Coroutine History Strategy_Verifier "HOL-Library.Multiset"
begin

text \<open>
  Model of the part of \<open>runtime/include/scheduler.h\<close> that all strategies share: the fields of
  \<open>Strategy\<close> and \<open>BaseStrategyWithThreads\<close>, the task builders of \<open>verifying_macro.h\<close>, the
  queries and the termination and restart of the tasks of a round.

  The threads are lists of tasks: the container is \<open>StableVector\<close>, whose list view and
  stable references are the subject of the theory \<open>Stable_Vector\<close>. A \<open>Task&\<close> is the position
  (thread, index) of its slot, so that a history keeps referring to a task that \<open>Restart\<close>
  replaces. The record is extended by the strategies, as the classes are.
\<close>

section \<open>Parameters of the runtime\<close>

text \<open>
  Pseudo-random choices. The generator and the distributions are from the C++ library; the
  record has one function for each use: a permutation of \<open>n\<close> positions (\<open>std::shuffle\<close>), a
  number of a closed range (\<open>uniform_int_distribution\<close>), an index into a list of weights
  (\<open>discrete_distribution\<close>). \<open>random_ok\<close> is what the standard says of their ranges.
\<close>

record 'g random_source =
  rnd_shuffle :: "nat \<Rightarrow> 'g \<Rightarrow> nat list \<times> 'g"
  rnd_uniform :: "nat \<Rightarrow> nat \<Rightarrow> 'g \<Rightarrow> nat \<times> 'g"
  rnd_discrete :: "int list \<Rightarrow> 'g \<Rightarrow> nat \<times> 'g"

definition random_ok :: "'g random_source \<Rightarrow> bool" where
  "random_ok R \<longleftrightarrow> (\<forall>n g. mset (fst (rnd_shuffle R n g)) = mset [0..<n])
     \<and> (\<forall>a b g. a \<le> b \<longrightarrow> a \<le> fst (rnd_uniform R a b g) \<and> fst (rnd_uniform R a b g) \<le> b)
     \<and> (\<forall>ws g. ws \<noteq> [] \<longrightarrow> fst (rnd_discrete R ws g) < length ws)"

definition shuffle :: "'g random_source \<Rightarrow> 'a list \<Rightarrow> 'g \<Rightarrow> 'a list \<times> 'g" where
  "shuffle R xs g = (let (p, g') = rnd_shuffle R (length xs) g in (map ((!) xs) p, g'))"

text \<open>
  What a run depends on besides the strategy: the compiled target method bodies, the futex
  words of the target, \<open>TargetObj::Reset\<close>, the verifier and the random source. \<open>env_fuel\<close>
  bounds the loops of the model that the source does not bound.
\<close>

record ('o, 'c, 'v, 'g) runtime_env =
  env_body :: "('o, 'c) body"
  env_mem :: "'o \<Rightarrow> addr \<Rightarrow> int"
  env_reset :: "'o \<Rightarrow> 'o"
  env_verifier :: "'v strategy_verifier"
  env_random :: "'g random_source"
  env_fuel :: nat

section \<open>Task builders\<close>

text \<open>
  A target method: its name, its body as a function from the arguments to the first context,
  and its argument generator, which may create the token of the task.
\<close>

record ('o, 'a, 'c) task_builder =
  tb_name :: string
  tb_func :: "'a \<Rightarrow> 'c"
  tb_gen :: "nat \<Rightarrow> 'o world \<Rightarrow> 'a \<times> 'o world \<times> token_ref option"

definition Build ::
    "('o, 'a, 'c) task_builder \<Rightarrow> 'o world \<Rightarrow> nat \<Rightarrow> int \<Rightarrow> 'o world \<times> ('a, 'c) coro" where
  "Build b w thread_num task_id =
     (let (args, w', generated_token) = tb_gen b thread_num w;
          coro = Coro_New (tb_func b) args (tb_name b) task_id
      in (w', case generated_token of None \<Rightarrow> coro | Some t \<Rightarrow> SetToken t coro))"

section \<open>The state of a strategy\<close>

type_synonym slot = "nat \<times> nat"

record ('o, 'a, 'c, 'v) base_strategy =
  new_task_id :: int
  removed_tasks :: "int set"
  round_schedule :: "int list"
  sched_checker :: 'v
  st_world :: "'o world"
  threads :: "('a, 'c) coro list list"
  constructors :: "('o, 'a, 'c) task_builder list"

record task_with_meta_data =
  twm_task :: slot
  twm_is_new :: bool
  twm_thread_id :: nat

definition get_task :: "('o, 'a, 'c, 'v, 'x) base_strategy_scheme \<Rightarrow> slot \<Rightarrow> ('a, 'c) coro res" where
  "get_task st r = res_bind (vec_get (threads st) (fst r)) (\<lambda>thread. vec_get thread (snd r))"

definition set_task ::
    "slot \<Rightarrow> ('a, 'c) coro \<Rightarrow> ('o, 'a, 'c, 'v, 'x) base_strategy_scheme
      \<Rightarrow> ('o, 'a, 'c, 'v, 'x) base_strategy_scheme" where
  "set_task r c st = st\<lparr>threads := (threads st)[fst r := (threads st ! fst r)[snd r := c]]\<rparr>"

section \<open>Queries\<close>

definition IsTaskRemoved :: "('o, 'a, 'c, 'v, 'x) base_strategy_scheme \<Rightarrow> int \<Rightarrow> bool" where
  "IsTaskRemoved st task_id \<longleftrightarrow> task_id \<in> removed_tasks st"

definition SetTaskRemoved ::
    "int \<Rightarrow> bool \<Rightarrow> ('o, 'a, 'c, 'v, 'x) base_strategy_scheme
      \<Rightarrow> ('o, 'a, 'c, 'v, 'x) base_strategy_scheme" where
  "SetTaskRemoved task_id is_removed st =
     (if is_removed then st\<lparr>removed_tasks := insert task_id (removed_tasks st)\<rparr>
      else st\<lparr>removed_tasks := removed_tasks st - {task_id}\<rparr>)"

fun find_in_thread :: "int \<Rightarrow> nat \<Rightarrow> ('a, 'c) coro list \<Rightarrow> nat option" where
  "find_in_thread task_id i [] = None"
| "find_in_thread task_id i (c # cs) =
     (if co_id c = task_id then Some i else find_in_thread task_id (Suc i) cs)"

fun find_in_threads :: "int \<Rightarrow> nat \<Rightarrow> ('a, 'c) coro list list \<Rightarrow> (slot \<times> nat) option" where
  "find_in_threads task_id t [] = None"
| "find_in_threads task_id t (th # ths) =
     (case find_in_thread task_id 0 th of
        Some i \<Rightarrow> Some ((t, i), t)
      | None \<Rightarrow> find_in_threads task_id (Suc t) ths)"

definition GetTask_by_id ::
    "('o, 'a, 'c, 'v, 'x) base_strategy_scheme \<Rightarrow> int \<Rightarrow> (slot \<times> nat) option" where
  "GetTask_by_id st task_id = find_in_threads task_id 0 (threads st)"

definition GetValidTasksCount :: "('o, 'a, 'c, 'v, 'x) base_strategy_scheme \<Rightarrow> nat" where
  "GetValidTasksCount st =
     sum_list (map (\<lambda>thread. length (filter (\<lambda>c. \<not> IsTaskRemoved st (co_id c)) thread)) (threads st))"

definition GetTotalTasksCount :: "('o, 'a, 'c, 'v, 'x) base_strategy_scheme \<Rightarrow> nat" where
  "GetTotalTasksCount st = sum_list (map length (threads st))"

definition GetThreadsCount :: "('o, 'a, 'c, 'v, 'x) base_strategy_scheme \<Rightarrow> nat" where
  "GetThreadsCount st = length (threads st)"

definition OnVerifierTaskFinish ::
    "('o, 'c, 'v, 'g) runtime_env \<Rightarrow> task_with_meta_data \<Rightarrow> ('o, 'a, 'c, 'v, 'x) base_strategy_scheme
      \<Rightarrow> ('o, 'a, 'c, 'v, 'x) base_strategy_scheme res" where
  "OnVerifierTaskFinish E t st =
     res_bind (get_task st (twm_task t)) (\<lambda>c.
     res_bind (OnFinished (env_verifier E)
         \<lparr>ct_name = co_name c, ct_is_new = twm_is_new t, ct_thread_id = twm_thread_id t\<rparr>
         (sched_checker st)) (\<lambda>v.
     Inr (st\<lparr>sched_checker := v\<rparr>)))"

text \<open>\<open>task->Resume()\<close> through a reference into the threads.\<close>

definition resume_task ::
    "('o, 'c, 'v, 'g) runtime_env \<Rightarrow> slot \<Rightarrow> ('o, 'a, 'c, 'v, 'x) base_strategy_scheme
      \<Rightarrow> ('o, 'a, 'c, 'v, 'x) base_strategy_scheme res" where
  "resume_task E r st =
     res_bind (get_task st r) (\<lambda>c.
     res_bind (Resume (env_body E) (st_world st) c) (\<lambda>(w, c').
     Inr (set_task r c' (st\<lparr>st_world := w\<rparr>))))"

text \<open>\<open>task->IsBlocked()\<close> may clear the futex state of the task.\<close>

definition is_blocked_task ::
    "('o, 'c, 'v, 'g) runtime_env \<Rightarrow> slot \<Rightarrow> ('o, 'a, 'c, 'v, 'x) base_strategy_scheme
      \<Rightarrow> (bool \<times> ('o, 'a, 'c, 'v, 'x) base_strategy_scheme) res" where
  "is_blocked_task E r st =
     res_bind (get_task st r) (\<lambda>c.
       let (b, c') = IsBlocked (env_mem E) (st_world st) c in Inr (b, set_task r c' st))"

section \<open>Terminating the tasks of a round\<close>

definition skip_returned :: "('a, 'c) coro list \<Rightarrow> nat \<Rightarrow> nat" where
  "skip_returned thread task_index =
     task_index + length (takeWhile co_is_returned (drop task_index thread))"

text \<open>The body of the \<open>for\<close> loop for one thread; the flag is \<open>has_nonterminated_threads\<close>.\<close>

definition terminate_visit ::
    "('o, 'c, 'v, 'g) runtime_env \<Rightarrow> nat
      \<Rightarrow> ('o, 'a, 'c, 'v, 'x) base_strategy_scheme \<times> nat list \<times> bool
      \<Rightarrow> (('o, 'a, 'c, 'v, 'x) base_strategy_scheme \<times> nat list \<times> bool) res" where
  "terminate_visit E thread_index s = (case s of (st, task_indexes, flag) \<Rightarrow>
     res_bind (vec_get (threads st) thread_index) (\<lambda>thread.
     res_bind (vec_get task_indexes thread_index) (\<lambda>k.
     let task_index = skip_returned thread k;
         task_indexes = task_indexes[thread_index := task_index] in
     if task_index < length thread then
       res_bind (is_blocked_task E (thread_index, task_index) st) (\<lambda>(blocked, st).
         if blocked then
           res_bind (cxx_assert ''Trying to terminate blocked task, which is not last in the thread.''
               (task_index = length thread - 1)) (\<lambda>_.
           Inr (st, task_indexes[thread_index := Suc task_index], flag))
         else res_bind (resume_task E (thread_index, task_index) st) (\<lambda>st.
           Inr (st, task_indexes, True)))
     else Inr (st, task_indexes, flag))))"

fun terminate_sweep ::
    "('o, 'c, 'v, 'g) runtime_env \<Rightarrow> nat list
      \<Rightarrow> ('o, 'a, 'c, 'v, 'x) base_strategy_scheme \<times> nat list \<times> bool
      \<Rightarrow> (('o, 'a, 'c, 'v, 'x) base_strategy_scheme \<times> nat list \<times> bool) res" where
  "terminate_sweep E [] s = Inr s"
| "terminate_sweep E (t # ts) s = res_bind (terminate_visit E t s) (terminate_sweep E ts)"

primrec terminate_rounds ::
    "nat \<Rightarrow> ('o, 'c, 'v, 'g) runtime_env \<Rightarrow> ('o, 'a, 'c, 'v, 'x) base_strategy_scheme \<Rightarrow> nat list
      \<Rightarrow> ('o, 'a, 'c, 'v, 'x) base_strategy_scheme res" where
  "terminate_rounds 0 E st task_indexes = Inl Out_Of_Fuel"
| "terminate_rounds (Suc fuel) E st task_indexes =
     res_bind (terminate_sweep E [0..<length (threads st)] (st, task_indexes, False))
       (\<lambda>(st, task_indexes, flag).
          if flag then terminate_rounds fuel E st task_indexes else Inr st)"

definition TerminateTasks ::
    "('o, 'c, 'v, 'g) runtime_env \<Rightarrow> ('o, 'a, 'c, 'v, 'x) base_strategy_scheme
      \<Rightarrow> ('o, 'a, 'c, 'v, 'x) base_strategy_scheme res" where
  "TerminateTasks E st =
     res_bind (cxx_assert ''sizes expected to be the same''
       (length (round_schedule st) = length (threads st))) (\<lambda>_.
     res_bind (terminate_rounds (env_fuel E) E
       (st\<lparr>round_schedule := replicate (length (round_schedule st)) (- 1)\<rparr>)
       (replicate (length (threads st)) 0)) (\<lambda>st.
     Inr (st\<lparr>sched_checker := Reset_verifier (env_verifier E) (sched_checker st),
             st_world := (st_world st)\<lparr>w_state := env_reset E (w_state (st_world st))\<rparr>\<rparr>)))"

section \<open>Restarting the tasks of a round\<close>

fun restart_thread :: "int set \<Rightarrow> ('a, 'c) coro list \<Rightarrow> ('a, 'c) coro list res" where
  "restart_thread removed [] = Inr []"
| "restart_thread removed (c # cs) =
     res_bind (if co_id c \<notin> removed then Coro_Restart c else Inr c) (\<lambda>c'.
     res_bind (restart_thread removed cs) (\<lambda>cs'. Inr (c' # cs')))"

fun restart_threads :: "int set \<Rightarrow> ('a, 'c) coro list list \<Rightarrow> ('a, 'c) coro list list res" where
  "restart_threads removed [] = Inr []"
| "restart_threads removed (th # ths) =
     res_bind (restart_thread removed th) (\<lambda>th'.
     res_bind (restart_threads removed ths) (\<lambda>ths'. Inr (th' # ths')))"

definition ResetCurrentRound ::
    "('o, 'c, 'v, 'g) runtime_env \<Rightarrow> ('o, 'a, 'c, 'v, 'x) base_strategy_scheme
      \<Rightarrow> ('o, 'a, 'c, 'v, 'x) base_strategy_scheme res" where
  "ResetCurrentRound E st =
     res_bind (TerminateTasks E st) (\<lambda>st.
     res_bind (restart_threads (removed_tasks st) (threads st)) (\<lambda>ths.
     Inr (st\<lparr>threads := ths\<rparr>)))"

text \<open>
  \<open>GetNextTaskInThread\<close>: from the scheduled index on (\<open>-1\<close> is before the first task), skip
  the returned and the removed tasks.
\<close>

definition GetNextTaskInThread ::
    "('o, 'a, 'c, 'v, 'x) base_strategy_scheme \<Rightarrow> nat \<Rightarrow> int res" where
  "GetNextTaskInThread st thread_index =
     res_bind (vec_get (threads st) thread_index) (\<lambda>thread.
     res_bind (vec_get (round_schedule st) thread_index) (\<lambda>task_index.
     if task_index < - 1 then Inl Out_Of_Range
     else if int (length thread) \<le> task_index then Inr task_index
     else let k = (if task_index = - 1 then 0 else nat task_index) in
       Inr (int (k + length (takeWhile (\<lambda>c. co_is_returned c \<or> IsTaskRemoved st (co_id c))
                   (drop k thread))))))"

section \<open>Slots\<close>

named_theorems strategy_simps

definition valid_slot :: "('o, 'a, 'c, 'v, 'x) base_strategy_scheme \<Rightarrow> slot \<Rightarrow> bool" where
  "valid_slot st r \<longleftrightarrow> fst r < length (threads st) \<and> snd r < length (threads st ! fst r)"

abbreviation task_at :: "('o, 'a, 'c, 'v, 'x) base_strategy_scheme \<Rightarrow> slot \<Rightarrow> ('a, 'c) coro" where
  "task_at st r \<equiv> threads st ! fst r ! snd r"

text \<open>What identifies a task, and what no step of a round changes.\<close>

definition task_ident :: "('a, 'c) coro \<Rightarrow> int \<times> string \<times> 'a \<times> ('a \<Rightarrow> 'c) \<times> token_ref option" where
  "task_ident c = (co_id c, co_name c, co_args c, co_func c, co_token c)"

definition idents ::
    "('o, 'a, 'c, 'v, 'x) base_strategy_scheme
      \<Rightarrow> (int \<times> string \<times> 'a \<times> ('a \<Rightarrow> 'c) \<times> token_ref option) list list" where
  "idents st = map (map task_ident) (threads st)"

lemma get_task_Inr_iff [strategy_simps]:
  "get_task st r = Inr c \<longleftrightarrow> valid_slot st r \<and> task_at st r = c"
  by (auto simp: get_task_def valid_slot_def vec_get_def)

lemma get_task_valid [simp]: "valid_slot st r \<Longrightarrow> get_task st r = Inr (task_at st r)"
  by (simp add: get_task_Inr_iff)

lemma set_task_frame [simp]:
  "new_task_id (set_task r c st) = new_task_id st" "removed_tasks (set_task r c st) = removed_tasks st"
  "round_schedule (set_task r c st) = round_schedule st" "sched_checker (set_task r c st) = sched_checker st"
  "st_world (set_task r c st) = st_world st" "constructors (set_task r c st) = constructors st"
  "base_strategy.more (set_task r c st) = base_strategy.more st"
  by (simp_all add: set_task_def)

lemma length_threads_set_task [simp]: "length (threads (set_task r c st)) = length (threads st)"
  by (simp add: set_task_def)

lemma length_thread_set_task [simp]:
  "length (threads (set_task r c st) ! t) = length (threads st ! t)"
  by (cases "fst r < length (threads st)"; cases "t = fst r")
    (simp_all add: set_task_def list_update_beyond)

lemma valid_slot_set_task [simp]: "valid_slot (set_task r c st) r' \<longleftrightarrow> valid_slot st r'"
  by (simp add: valid_slot_def)

lemma task_at_set_task [strategy_simps]:
  "valid_slot st r \<Longrightarrow> task_at (set_task r c st) r' = (if r' = r then c else task_at st r')"
  by (cases r; cases r') (auto simp: set_task_def valid_slot_def nth_list_update)

lemma idents_set_task:
  assumes "valid_slot st r" "task_ident c = task_ident (task_at st r)"
  shows "idents (set_task r c st) = idents st"
proof -
  obtain t i where r: "r = (t, i)" by fastforce
  have "map task_ident ((threads st ! t)[i := c]) = map task_ident (threads st ! t)"
    using assms r by (auto simp: valid_slot_def map_update intro!: list_update_same_conv [THEN iffD2])
  then show ?thesis using assms r
    by (auto simp: idents_def set_task_def valid_slot_def map_update intro!: list_update_same_conv [THEN iffD2])
qed

lemma idents_shape:
  assumes "idents st' = idents st"
  shows "length (threads st') = length (threads st)"
    "t < length (threads st) \<Longrightarrow> length (threads st' ! t) = length (threads st ! t)"
    "valid_slot st' r \<longleftrightarrow> valid_slot st r"
    "valid_slot st r \<Longrightarrow> task_ident (task_at st' r) = task_ident (task_at st r)"
proof -
  show len: "length (threads st') = length (threads st)"
    using arg_cong [OF assms, of length] by (simp add: idents_def)
  have th: "map task_ident (threads st' ! t) = map task_ident (threads st ! t)"
    if "t < length (threads st)" for t
    using arg_cong [OF assms, of "\<lambda>x. x ! t"] len that by (simp add: idents_def)
  show len2: "length (threads st' ! t) = length (threads st ! t)" if "t < length (threads st)" for t
    using arg_cong [OF th [OF that], of length] by simp
  show "valid_slot st' r \<longleftrightarrow> valid_slot st r" using len len2 by (auto simp: valid_slot_def)
  show "task_ident (task_at st' r) = task_ident (task_at st r)" if "valid_slot st r"
    using arg_cong [OF th [of "fst r"], of "\<lambda>x. x ! snd r"] that len2 by (simp add: valid_slot_def)
qed

section \<open>Steps of tasks\<close>

lemma resume_task_Inr_iff:
  "resume_task E r st = Inr st' \<longleftrightarrow> valid_slot st r \<and> (\<exists>w c'.
     Resume (env_body E) (st_world st) (task_at st r) = Inr (w, c') \<and> st' = set_task r c' (st\<lparr>st_world := w\<rparr>))"
  by (auto simp: resume_task_def get_task_Inr_iff res_bind_Inr_iff)

lemma resume_task_total:
  "valid_slot st r \<Longrightarrow> \<not> co_is_returned (task_at st r) \<Longrightarrow> \<exists>st'. resume_task E r st = Inr st'"
  using Resume_not_returned [of "task_at st r" "env_body E" "st_world st"]
  by (auto simp: resume_task_Inr_iff)

lemma resume_task_frame:
  assumes "resume_task E r st = Inr st'"
  shows "idents st' = idents st" "new_task_id st' = new_task_id st" "removed_tasks st' = removed_tasks st"
    "round_schedule st' = round_schedule st" "sched_checker st' = sched_checker st"
    "constructors st' = constructors st" "base_strategy.more st' = base_strategy.more st"
    "r' \<noteq> r \<Longrightarrow> task_at st' r' = task_at st r'"
proof -
  from assms obtain w c' where r: "valid_slot st r" "Resume (env_body E) (st_world st) (task_at st r) = Inr (w, c')"
      "st' = set_task r c' (st\<lparr>st_world := w\<rparr>)" by (auto simp: resume_task_Inr_iff)
  have "valid_slot (st\<lparr>st_world := w\<rparr>) r" using r(1) by (simp add: valid_slot_def)
  moreover have "idents (st\<lparr>st_world := w\<rparr>) = idents st" by (simp add: idents_def)
  ultimately show "idents st' = idents st"
    using idents_set_task [of "st\<lparr>st_world := w\<rparr>" r c'] Resume_frame [OF r(2)] r(3)
    by (simp add: task_ident_def)
  show "r' \<noteq> r \<Longrightarrow> task_at st' r' = task_at st r'"
    using \<open>valid_slot (st\<lparr>st_world := w\<rparr>) r\<close> r(3) by (simp add: task_at_set_task)
qed (use assms in \<open>auto simp: resume_task_Inr_iff\<close>)

lemma is_blocked_task_eq:
  "valid_slot st r \<Longrightarrow> is_blocked_task E r st = Inr (blocked_now (env_mem E) (st_world st) (task_at st r),
     set_task r (snd (IsBlocked (env_mem E) (st_world st) (task_at st r))) st)"
  by (simp add: is_blocked_task_def split_beta)

lemma is_blocked_task_Inr_iff:
  "is_blocked_task E r st = Inr (b, st') \<longleftrightarrow> valid_slot st r
     \<and> b = blocked_now (env_mem E) (st_world st) (task_at st r)
     \<and> st' = set_task r (snd (IsBlocked (env_mem E) (st_world st) (task_at st r))) st"
  by (auto simp: is_blocked_task_def get_task_Inr_iff res_bind_Inr_iff split_beta)

lemma IsBlocked_keeps:
  "co_is_returned (snd (IsBlocked m w c)) = co_is_returned c" "co_ctx (snd (IsBlocked m w c)) = co_ctx c"
  "co_ret (snd (IsBlocked m w c)) = co_ret c" "task_ident (snd (IsBlocked m w c)) = task_ident c"
  by (simp_all add: IsBlocked_def task_ident_def)

lemma is_blocked_task_frame:
  assumes "is_blocked_task E r st = Inr (b, st')"
  shows "idents st' = idents st" "new_task_id st' = new_task_id st" "removed_tasks st' = removed_tasks st"
    "round_schedule st' = round_schedule st" "sched_checker st' = sched_checker st" "st_world st' = st_world st"
    "constructors st' = constructors st" "base_strategy.more st' = base_strategy.more st"
    "co_is_returned (task_at st' r') = co_is_returned (task_at st r')"
    "co_ctx (task_at st' r') = co_ctx (task_at st r')" "co_ret (task_at st' r') = co_ret (task_at st r')"
  using assms
  by (auto simp: is_blocked_task_Inr_iff idents_set_task task_at_set_task IsBlocked_keeps)

end
