(* ===== verification/Round_Reset.thy ===== *)
theory Round_Reset
  imports Strategy_Base
begin

text \<open>
  What \<open>TerminateTasks\<close> and \<open>ResetCurrentRound\<close> of \<open>runtime/include/scheduler.h\<close> achieve:
  every task has returned, except a blocked last task of a thread; with wait-free tasks the
  loop ends and all tasks have returned; a reset puts every task that is not removed back
  to its first state and keeps its identity; and what the queries answer.
\<close>

section \<open>Termination sweeps\<close>

text \<open>
  The tasks before the indexes have returned; when tasks can block (\<open>B\<close>), with the exception of
  the last task of a thread.
\<close>

definition finished_before :: "bool \<Rightarrow> ('o, 'a, 'c, 'v, 'x) base_strategy_scheme \<Rightarrow> nat list \<Rightarrow> bool" where
  "finished_before B st idx \<longleftrightarrow> length idx = length (threads st)
     \<and> (\<forall>t < length (threads st). \<forall>i < length (threads st ! t). i < idx ! t \<longrightarrow>
          co_is_returned (task_at st (t, i)) \<or> B \<and> Suc i = length (threads st ! t))"

text \<open>What a visit and a sweep leave alone.\<close>

definition same_round ::
    "('o, 'a, 'c, 'v, 'x) base_strategy_scheme \<Rightarrow> ('o, 'a, 'c, 'v, 'x) base_strategy_scheme \<Rightarrow> bool" where
  "same_round st st' \<longleftrightarrow> idents st' = idents st \<and> round_schedule st' = round_schedule st
     \<and> removed_tasks st' = removed_tasks st \<and> new_task_id st' = new_task_id st
     \<and> sched_checker st' = sched_checker st \<and> constructors st' = constructors st
     \<and> base_strategy.more st' = base_strategy.more st
     \<and> (\<forall>r. valid_slot st r \<longrightarrow> co_is_returned (task_at st r) \<longrightarrow> co_is_returned (task_at st' r))"

lemma same_round_refl [simp]: "same_round st st"
  by (simp add: same_round_def)

lemma same_round_trans: "same_round st st' \<Longrightarrow> same_round st' st'' \<Longrightarrow> same_round st st''"
  unfolding same_round_def by (metis idents_shape(3))

lemma same_round_idents: "same_round st st' \<Longrightarrow> idents st' = idents st"
  by (simp add: same_round_def)

lemma skip_returned_le: "k \<le> skip_returned th k"
  by (simp add: skip_returned_def)

lemma skip_returned_before: "k \<le> i \<Longrightarrow> i < skip_returned th k \<Longrightarrow> co_is_returned (th ! i)"
  unfolding skip_returned_def by (rule takeWhile_drop_before)

lemma skip_returned_at:
  "skip_returned th k < length th \<Longrightarrow> \<not> co_is_returned (th ! skip_returned th k)"
  unfolding skip_returned_def by (rule takeWhile_drop_at)

lemma resume_same_round:
  assumes "resume_task E r st = Inr st'" "\<not> co_is_returned (task_at st r)"
  shows "same_round st st'"
  using resume_task_frame [OF assms(1)] assms(2) unfolding same_round_def by metis

lemma blocked_same_round: "is_blocked_task E r st = Inr (b, st') \<Longrightarrow> same_round st st'"
  using is_blocked_task_frame [of E r st b st'] unfolding same_round_def by metis

lemma terminate_visit_cases:
  assumes "terminate_visit E t (st, idx, f) = Inr (st', idx', f')"
  obtains (past) "t < length (threads st)" "t < length idx" "length (threads st ! t) \<le> skip_returned (threads st ! t) (idx ! t)"
      "st' = st" "idx' = idx[t := skip_returned (threads st ! t) (idx ! t)]" "f' = f"
  | (waits) "t < length (threads st)" "t < length idx" "Suc (skip_returned (threads st ! t) (idx ! t)) = length (threads st ! t)"
      "same_round st st'" "idx' = idx[t := Suc (skip_returned (threads st ! t) (idx ! t))]" "f' = f"
      "is_blocked_task E (t, skip_returned (threads st ! t) (idx ! t)) st = Inr (True, st')"
  | (steps) st1 where "t < length (threads st)" "t < length idx" "skip_returned (threads st ! t) (idx ! t) < length (threads st ! t)"
      "is_blocked_task E (t, skip_returned (threads st ! t) (idx ! t)) st = Inr (False, st1)"
      "resume_task E (t, skip_returned (threads st ! t) (idx ! t)) st1 = Inr st'"
      "same_round st st'" "idx' = idx[t := skip_returned (threads st ! t) (idx ! t)]" "f'"
proof -
  let ?k = "skip_returned (threads st ! t) (idx ! t)"
  from assms have t: "t < length (threads st)" "t < length idx"
    by (auto simp: terminate_visit_def res_bind_Inr_iff vec_get_Inr_iff)
  show ?thesis
  proof (cases "?k < length (threads st ! t)")
    case False
    with assms t show ?thesis by (intro past) (auto simp: terminate_visit_def Let_def)
  next
    case True
    then have v: "valid_slot st (t, ?k)" using t by (simp add: valid_slot_def)
    then obtain b st1 where b: "is_blocked_task E (t, ?k) st = Inr (b, st1)"
      by (simp add: is_blocked_task_eq)
    show ?thesis
    proof (cases b)
      case True
      with assms t b \<open>?k < _\<close> blocked_same_round [OF b] show ?thesis
        by (intro waits) (auto simp: terminate_visit_def Let_def res_bind_Inr_iff cxx_assert_Inr_iff)
    next
      case False
      with assms t b \<open>?k < _\<close> have r: "resume_task E (t, ?k) st1 = Inr st'" "idx' = idx[t := ?k]" "f'"
        by (auto simp: terminate_visit_def Let_def res_bind_Inr_iff)
      have "\<not> co_is_returned (task_at st1 (t, ?k))"
        using skip_returned_at [OF \<open>?k < _\<close>] is_blocked_task_frame(9) [OF b, of "(t, ?k)"] by simp
      with r show ?thesis using same_round_trans [OF blocked_same_round [OF b] resume_same_round [OF r(1)]]
          False b \<open>?k < _\<close> t
        by (intro steps) auto
    qed
  qed
qed

section \<open>Wait-free tasks\<close>

text \<open>
  The assumption of the comment at \<open>TerminateTasks\<close>, made precise: every slice of a task ends
  with a yield that brings the task closer to its return, or with the return, whatever the
  state of the world; no slice ends in a futex wait.
\<close>

definition wait_free_body :: "('o, 'c) body \<Rightarrow> ('c \<Rightarrow> nat) \<Rightarrow> bool" where
  "wait_free_body body rank \<longleftrightarrow> (\<forall>k w. case snd (body k w) of
     Yield k' \<Rightarrow> rank k' < rank k | Futex_Wait _ _ _ \<Rightarrow> False | Return _ \<Rightarrow> True)"

definition work :: "('c \<Rightarrow> nat) \<Rightarrow> ('a, 'c) coro \<Rightarrow> nat" where
  "work rank c = (if co_is_returned c then 0 else Suc (rank (co_ctx c)))"

definition total_work :: "('c \<Rightarrow> nat) \<Rightarrow> ('o, 'a, 'c, 'v, 'x) base_strategy_scheme \<Rightarrow> nat" where
  "total_work rank st = sum_list (map (\<lambda>th. sum_list (map (work rank) th)) (threads st))"

definition no_futex :: "('o, 'a, 'c, 'v, 'x) base_strategy_scheme \<Rightarrow> bool" where
  "no_futex st \<longleftrightarrow> (\<forall>r. valid_slot st r \<longrightarrow> co_fstate (task_at st r) = None)"

lemma sum_list_update_less:
  fixes xs :: "nat list"
  shows "i < length xs \<Longrightarrow> y < xs ! i \<Longrightarrow> sum_list (xs[i := y]) < sum_list xs"
  by (induction xs arbitrary: i) (auto simp: nth_Cons split: nat.splits)

lemma total_work_set_task:
  assumes "valid_slot st r" "work rank c < work rank (task_at st r)"
  shows "total_work rank (set_task r c st) < total_work rank st"
proof -
  obtain t i where r: "r = (t, i)" "t < length (threads st)" "i < length (threads st ! t)"
    using assms(1) by (cases r) (auto simp: valid_slot_def)
  have "sum_list (map (work rank) ((threads st ! t)[i := c])) < sum_list (map (work rank) (threads st ! t))"
    using assms(2) r by (simp add: map_update sum_list_update_less)
  then show ?thesis using r
    by (simp add: total_work_def set_task_def map_update sum_list_update_less)
qed

lemma resume_task_work:
  assumes "wait_free_body (env_body E) rank" "resume_task E r st = Inr st'"
  shows "total_work rank st' < total_work rank st" "no_futex st \<Longrightarrow> no_futex st'"
proof -
  from assms(2) obtain w c' where r: "valid_slot st r" "Resume (env_body E) (st_world st) (task_at st r) = Inr (w, c')"
      "st' = set_task r c' (st\<lparr>st_world := w\<rparr>)" by (auto simp: resume_task_Inr_iff)
  from assms(1) have b: "case snd (env_body E (co_ctx (task_at st r)) (st_world st)) of
      Yield k' \<Rightarrow> rank k' < rank (co_ctx (task_at st r)) | Futex_Wait _ _ _ \<Rightarrow> False | Return _ \<Rightarrow> True"
    by (simp add: wait_free_body_def)
  have c': "work rank c' < work rank (task_at st r)" "co_fstate (task_at st r) = None \<Longrightarrow> co_fstate c' = None"
    using r(2) b by (auto simp: Resume_Inr_iff work_def split: prod.splits slice_end.splits)
  have v: "valid_slot (st\<lparr>st_world := w\<rparr>) r" using r(1) by (simp add: valid_slot_def)
  show "total_work rank st' < total_work rank st"
    using total_work_set_task [OF v, of rank c'] c'(1) r(3) by (simp add: total_work_def)
  show "no_futex st'" if "no_futex st"
    using that c'(2) v r(1,3) by (auto simp: no_futex_def task_at_set_task valid_slot_def)
qed

lemma not_blocked:
  assumes "no_futex st" "valid_slot st r"
  shows "is_blocked_task E r st = Inr (False, st)"
proof -
  have n: "co_fstate (task_at st r) = None" using assms by (simp add: no_futex_def)
  then have "snd (IsBlocked (env_mem E) (st_world st) (task_at st r)) = task_at st r"
    by (simp add: IsBlocked_def)
  moreover have "set_task r (task_at st r) st = st" by (simp add: set_task_def)
  moreover have "\<not> blocked_now (env_mem E) (st_world st) (task_at st r)" using n by (simp add: blocked_now_def)
  ultimately show ?thesis using assms(2) by (simp add: is_blocked_task_eq)
qed

definition awake :: "('o, 'c, 'v, 'g) runtime_env \<Rightarrow> ('o, 'a, 'c, 'v, 'x) base_strategy_scheme \<Rightarrow> bool" where
  "awake E st \<longleftrightarrow> no_futex st \<and> (\<exists>rank. wait_free_body (env_body E) rank)"

section \<open>The sweeps\<close>

lemma finished_before_same_round:
  assumes "finished_before B st idx" "same_round st st'"
  shows "finished_before B st' idx"
proof -
  note sh = idents_shape [OF same_round_idents [OF assms(2)]]
  have "co_is_returned (task_at st (t, i)) \<longrightarrow> co_is_returned (task_at st' (t, i))"
    if "t < length (threads st)" "i < length (threads st ! t)" for t i
    using assms(2) that by (simp add: same_round_def valid_slot_def)
  then show ?thesis using assms(1) sh(1,2) by (simp add: finished_before_def) blast
qed

lemma finished_before_update:
  assumes "finished_before B st idx" "t < length (threads st)"
    and "\<And>i. \<lbrakk>idx ! t \<le> i; i < k; i < length (threads st ! t)\<rbrakk>
      \<Longrightarrow> co_is_returned (task_at st (t, i)) \<or> B \<and> Suc i = length (threads st ! t)"
  shows "finished_before B st (idx[t := k])"
  unfolding finished_before_def
proof (intro conjI allI impI)
  show "length (idx[t := k]) = length (threads st)" using assms(1) by (simp add: finished_before_def)
next
  fix u i
  assume u: "u < length (threads st)" "i < length (threads st ! u)" "i < idx[t := k] ! u"
  show "co_is_returned (task_at st (u, i)) \<or> B \<and> Suc i = length (threads st ! u)"
  proof (cases "i < idx ! u")
    case True
    with assms(1) u show ?thesis by (simp add: finished_before_def)
  next
    case False
    with u assms(1,2) have "u = t" "i < k" by (auto simp: nth_list_update finished_before_def split: if_splits)
    with assms(3) [of i] u False show ?thesis by simp
  qed
qed

lemma finished_before_skip:
  "finished_before B st idx \<Longrightarrow> t < length (threads st)
    \<Longrightarrow> finished_before B st (idx[t := skip_returned (threads st ! t) (idx ! t)])"
  by (rule finished_before_update) (auto dest: skip_returned_before)

lemma terminate_visit_inv:
  assumes v: "terminate_visit E t (st, idx, f) = Inr (st', idx', f')" and i: "finished_before B st idx"
    and B: "B \<or> awake E st"
  shows "same_round st st' \<and> (B \<or> awake E st') \<and> finished_before B st' idx' \<and> (f \<longrightarrow> f')
    \<and> (\<not> f' \<longrightarrow> length (threads st ! t) \<le> idx' ! t) \<and> (\<forall>u. u \<noteq> t \<longrightarrow> idx' ! u = idx ! u)
    \<and> length idx' = length idx"
  using v
proof (cases rule: terminate_visit_cases)
  case past
  then show ?thesis using finished_before_skip [OF i] B by simp
next
  case waits
  have "valid_slot st (t, skip_returned (threads st ! t) (idx ! t))"
    using waits(1,3) by (simp add: valid_slot_def)
  then have B: B using B not_blocked [of st _ E] waits(7) by (auto simp: awake_def)
  have "finished_before B st idx'" unfolding waits(5)
    using skip_returned_before [of "idx ! t" _ "threads st ! t"] waits(3) B
    by (intro finished_before_update [OF i waits(1)]) (auto simp: less_Suc_eq)
  then show ?thesis using waits finished_before_same_round B by auto
next
  case (steps st1)
  have "B \<or> awake E st'"
  proof (cases B)
    case False
    then obtain rank where a: "no_futex st" "wait_free_body (env_body E) rank"
      using B by (auto simp: awake_def)
    have "valid_slot st (t, skip_returned (threads st ! t) (idx ! t))"
      using steps(1,3) by (simp add: valid_slot_def)
    from not_blocked [OF a(1) this, of E] steps(4) have "st1 = st" by simp
    with resume_task_work(2) [OF a(2) steps(5)] a show ?thesis by (auto simp: awake_def)
  qed simp
  moreover have "finished_before B st' idx'"
    using finished_before_same_round [OF finished_before_skip [OF i steps(1)] steps(6)] steps(7) by simp
  ultimately show ?thesis using steps by simp
qed

lemma terminate_sweep_inv:
  assumes "terminate_sweep E ts (st, idx, f) = Inr (st', idx', f')" "finished_before B st idx" "distinct ts"
    "set ts \<subseteq> {..<length (threads st)}" "B \<or> awake E st"
  shows "same_round st st' \<and> (B \<or> awake E st') \<and> finished_before B st' idx' \<and> (f \<longrightarrow> f')
    \<and> (\<not> f' \<longrightarrow> (\<forall>t \<in> set ts. length (threads st ! t) \<le> idx' ! t)) \<and> (\<forall>u. u \<notin> set ts \<longrightarrow> idx' ! u = idx ! u)"
  using assms
proof (induction ts arbitrary: st idx f)
  case (Cons t ts)
  from Cons.prems(1) obtain st1 idx1 f1 where
    v: "terminate_visit E t (st, idx, f) = Inr (st1, idx1, f1)"
    and r: "terminate_sweep E ts (st1, idx1, f1) = Inr (st', idx', f')"
    by (auto elim!: res_bind_Inr_E)
  note i = terminate_visit_inv [OF v Cons.prems(2,5)]
  note sh = idents_shape [OF same_round_idents [of st st1]]
  have "same_round st1 st' \<and> (B \<or> awake E st') \<and> finished_before B st' idx' \<and> (f1 \<longrightarrow> f')
    \<and> (\<not> f' \<longrightarrow> (\<forall>t \<in> set ts. length (threads st1 ! t) \<le> idx' ! t)) \<and> (\<forall>u. u \<notin> set ts \<longrightarrow> idx' ! u = idx1 ! u)"
    using i Cons.prems(3,4) sh(1) by (intro Cons.IH [OF r]) auto
  moreover have "length (threads st1 ! u) = length (threads st ! u)" if "u \<in> set (t # ts)" for u
    using i sh(2) Cons.prems(4) that by auto
  ultimately show ?case using i Cons.prems(3) same_round_trans by auto
qed simp

lemma terminate_rounds_inv:
  assumes "terminate_rounds fuel E st idx = Inr st'" "finished_before B st idx" "B \<or> awake E st"
  shows "same_round st st' \<and> (\<forall>r. valid_slot st' r \<longrightarrow>
     co_is_returned (task_at st' r) \<or> B \<and> Suc (snd r) = length (threads st' ! fst r))"
  using assms
proof (induction fuel arbitrary: st idx)
  case (Suc fuel)
  from Suc.prems(1) obtain st1 idx1 f where
    s: "terminate_sweep E [0..<length (threads st)] (st, idx, False) = Inr (st1, idx1, f)"
    and r: "(if f then terminate_rounds fuel E st1 idx1 else Inr st1) = Inr st'"
    by (auto elim!: res_bind_Inr_E)
  have "set [0..<length (threads st)] \<subseteq> {..<length (threads st)}" by auto
  note i = terminate_sweep_inv [OF s Suc.prems(2) distinct_upt this Suc.prems(3)]
  show ?case
  proof (cases f)
    case True
    with Suc.IH [of st1 idx1] r i same_round_trans show ?thesis by auto
  next
    case False
    with i r have st': "st' = st1" "same_round st st1" "finished_before B st1 idx1"
      and len: "\<forall>t < length (threads st). length (threads st ! t) \<le> idx1 ! t" by auto
    note sh = idents_shape [OF same_round_idents [OF st'(2)]]
    have "co_is_returned (task_at st1 r) \<or> B \<and> Suc (snd r) = length (threads st1 ! fst r)"
      if v: "valid_slot st1 r" for r
    proof -
      obtain a b where r: "r = (a, b)" "a < length (threads st)" "b < length (threads st1 ! a)"
        using v sh(1) by (cases r) (auto simp: valid_slot_def)
      then have "b < idx1 ! a" using len sh(2) [of a] by fastforce
      then show ?thesis using st'(3) r sh(1) by (simp add: finished_before_def)
    qed
    then show ?thesis using st' by simp
  qed
qed simp

lemma terminate_visit_wait_free:
  assumes wf: "wait_free_body (env_body E) rank" and nf: "no_futex st"
    and t: "t < length (threads st)" "length idx = length (threads st)"
  shows "\<exists>st' idx' f'. terminate_visit E t (st, idx, f) = Inr (st', idx', f') \<and> no_futex st'
    \<and> total_work rank st' \<le> total_work rank st \<and> (f' \<longrightarrow> f \<or> total_work rank st' < total_work rank st)
    \<and> length (threads st') = length (threads st) \<and> length idx' = length idx"
proof (cases "skip_returned (threads st ! t) (idx ! t) < length (threads st ! t)")
  case False
  then show ?thesis using t nf by (simp add: terminate_visit_def Let_def)
next
  case True
  let ?r = "(t, skip_returned (threads st ! t) (idx ! t))"
  have v: "valid_slot st ?r" using True t by (simp add: valid_slot_def)
  obtain st' where st': "resume_task E ?r st = Inr st'"
    using resume_task_total [OF v] skip_returned_at [OF True] by auto
  from resume_task_work [OF wf st'] nf resume_task_frame(1) [OF st', THEN idents_shape(1)]
  show ?thesis using st' True t not_blocked [OF nf v, of E]
    by (auto simp: terminate_visit_def Let_def)
qed

lemma terminate_sweep_wait_free:
  assumes wf: "wait_free_body (env_body E) rank"
  shows "\<lbrakk>no_futex st; set ts \<subseteq> {..<length (threads st)}; length idx = length (threads st)\<rbrakk>
    \<Longrightarrow> \<exists>st' idx' f'. terminate_sweep E ts (st, idx, f) = Inr (st', idx', f') \<and> no_futex st'
    \<and> total_work rank st' \<le> total_work rank st \<and> (f' \<longrightarrow> f \<or> total_work rank st' < total_work rank st)
    \<and> length (threads st') = length (threads st) \<and> length idx' = length idx"
proof (induction ts arbitrary: st idx f)
  case (Cons t ts)
  have t: "t < length (threads st)" using Cons.prems(2) by simp
  from terminate_visit_wait_free [OF wf Cons.prems(1) t Cons.prems(3), of f]
  obtain st1 idx1 f1 where v: "terminate_visit E t (st, idx, f) = Inr (st1, idx1, f1)" "no_futex st1"
     "total_work rank st1 \<le> total_work rank st" "f1 \<longrightarrow> f \<or> total_work rank st1 < total_work rank st"
     "length (threads st1) = length (threads st)" "length idx1 = length idx" by blast
  have "set ts \<subseteq> {..<length (threads st1)}" "length idx1 = length (threads st1)"
    using Cons.prems v(5,6) by auto
  from Cons.IH [OF v(2) this, of f1] obtain st2 idx2 f2 where
    "terminate_sweep E ts (st1, idx1, f1) = Inr (st2, idx2, f2)" "no_futex st2"
    "total_work rank st2 \<le> total_work rank st1" "f2 \<longrightarrow> f1 \<or> total_work rank st2 < total_work rank st1"
    "length (threads st2) = length (threads st1)" "length idx2 = length idx1" by blast
  with v show ?case by auto
qed simp

lemma terminate_rounds_wait_free:
  assumes wf: "wait_free_body (env_body E) rank"
  shows "\<lbrakk>no_futex st; length idx = length (threads st); total_work rank st < fuel\<rbrakk>
    \<Longrightarrow> \<exists>st'. terminate_rounds fuel E st idx = Inr st' \<and> no_futex st'"
proof (induction fuel arbitrary: st idx)
  case (Suc fuel)
  have "set [0..<length (threads st)] \<subseteq> {..<length (threads st)}" by auto
  from terminate_sweep_wait_free [OF wf Suc.prems(1) this Suc.prems(2), of False] obtain st1 idx1 f where
    "terminate_sweep E [0..<length (threads st)] (st, idx, False) = Inr (st1, idx1, f)" "no_futex st1"
    "f \<longrightarrow> total_work rank st1 < total_work rank st"
    "length (threads st1) = length (threads st)" "length idx1 = length idx" by auto
  with Suc.IH [of st1 idx1] Suc.prems show ?case by (cases f) auto
qed simp

section \<open>Termination and reset of a round\<close>

lemma finished_before_0: "finished_before B st (replicate (length (threads st)) 0)"
  by (simp add: finished_before_def)

lemma TerminateTasks_Inr_iff:
  "TerminateTasks E st = Inr st' \<longleftrightarrow> length (round_schedule st) = length (threads st) \<and> (\<exists>st1.
     terminate_rounds (env_fuel E) E (st\<lparr>round_schedule := replicate (length (round_schedule st)) (- 1)\<rparr>)
       (replicate (length (threads st)) 0) = Inr st1
     \<and> st' = st1\<lparr>sched_checker := Reset_verifier (env_verifier E) (sched_checker st1),
          st_world := (st_world st1)\<lparr>w_state := env_reset E (w_state (st_world st1))\<rparr>\<rparr>)"
  by (auto simp: TerminateTasks_def res_bind_Inr_iff cxx_assert_Inr_iff)

lemma awake_upd [simp]: "awake E (st\<lparr>round_schedule := rs\<rparr>) = awake E st"
  by (simp add: awake_def no_futex_def valid_slot_def)

lemma TerminateTasks_inv:
  assumes "TerminateTasks E st = Inr st'" "B \<or> awake E st"
  shows "idents st' = idents st \<and> removed_tasks st' = removed_tasks st \<and> new_task_id st' = new_task_id st
    \<and> constructors st' = constructors st \<and> base_strategy.more st' = base_strategy.more st
    \<and> round_schedule st' = replicate (length (threads st)) (- 1)
    \<and> sched_checker st' = Reset_verifier (env_verifier E) (sched_checker st)
    \<and> (\<forall>r. valid_slot st' r \<longrightarrow> co_is_returned (task_at st' r) \<or> B \<and> Suc (snd r) = length (threads st' ! fst r))"
proof -
  let ?st = "st\<lparr>round_schedule := replicate (length (round_schedule st)) (- 1)\<rparr>"
  from assms(1) obtain st1 where len: "length (round_schedule st) = length (threads st)"
    and r: "terminate_rounds (env_fuel E) E ?st (replicate (length (threads st)) 0) = Inr st1"
    and st': "st' = st1\<lparr>sched_checker := Reset_verifier (env_verifier E) (sched_checker st1),
          st_world := (st_world st1)\<lparr>w_state := env_reset E (w_state (st_world st1))\<rparr>\<rparr>"
    by (auto simp: TerminateTasks_Inr_iff)
  have "finished_before B ?st (replicate (length (threads st)) 0)" using finished_before_0 [of B ?st] by simp
  from terminate_rounds_inv [OF r this] assms(2) have i: "same_round ?st st1"
    "\<forall>r. valid_slot st1 r \<longrightarrow> co_is_returned (task_at st1 r) \<or> B \<and> Suc (snd r) = length (threads st1 ! fst r)"
    by auto
  have "idents st' = idents st1" "idents ?st = idents st" by (simp_all add: st' idents_def)
  moreover have "\<forall>r. valid_slot st' r \<longrightarrow> co_is_returned (task_at st' r) \<or> B \<and> Suc (snd r) = length (threads st' ! fst r)"
    using i(2) by (simp add: st' valid_slot_def)
  ultimately show ?thesis using i(1) len by (simp add: same_round_def st')
qed

lemma TerminateTasks_wait_free:
  assumes "wait_free_body (env_body E) rank" "no_futex st" "length (round_schedule st) = length (threads st)"
    "total_work rank st < env_fuel E"
  shows "\<exists>st'. TerminateTasks E st = Inr st'"
proof -
  let ?st = "st\<lparr>round_schedule := replicate (length (round_schedule st)) (- 1)\<rparr>"
  have "no_futex ?st" "total_work rank ?st < env_fuel E"
    using assms(2,4) by (simp_all add: no_futex_def valid_slot_def total_work_def)
  with terminate_rounds_wait_free [OF assms(1), of ?st "replicate (length (threads st)) 0" "env_fuel E"]
  show ?thesis using assms(3) by (auto simp: TerminateTasks_Inr_iff)
qed

text \<open>A restarted task.\<close>

definition fresh_task :: "('a, 'c) coro \<Rightarrow> ('a, 'c) coro" where
  "fresh_task c = (Coro_New (co_func c) (co_args c) (co_name c) (co_id c))\<lparr>co_token := co_token c\<rparr>"

lemma fresh_task_ident: "task_ident c = task_ident c' \<Longrightarrow> fresh_task c = fresh_task c'"
  by (simp add: fresh_task_def task_ident_def)

lemma fresh_task_sel [simp]:
  "co_id (fresh_task c) = co_id c" "co_name (fresh_task c) = co_name c" "co_args (fresh_task c) = co_args c"
  "\<not> co_is_returned (fresh_task c)" "co_fstate (fresh_task c) = None"
  "co_ctx (fresh_task c) = co_func c (co_args c)" "task_ident (fresh_task c) = task_ident c"
  by (simp_all add: fresh_task_def Coro_New_def task_ident_def)

definition restarted :: "int set \<Rightarrow> ('a, 'c) coro \<Rightarrow> ('a, 'c) coro" where
  "restarted removed c = (if co_id c \<in> removed then c else fresh_task c)"

lemma task_ident_restarted [simp]: "task_ident (restarted R c) = task_ident c"
  by (simp add: restarted_def)

lemma restart_thread_Inr_iff:
  "restart_thread removed cs = Inr cs' \<longleftrightarrow>
     (\<forall>c \<in> set cs. co_id c \<notin> removed \<longrightarrow> co_is_returned c) \<and> cs' = map (restarted removed) cs"
  by (induction cs arbitrary: cs')
    (auto simp: res_bind_Inr_iff Coro_Restart_def fresh_task_def restarted_def)

lemma restart_threads_Inr_iff:
  "restart_threads removed ths = Inr ths' \<longleftrightarrow>
     (\<forall>th \<in> set ths. \<forall>c \<in> set th. co_id c \<notin> removed \<longrightarrow> co_is_returned c)
     \<and> ths' = map (map (restarted removed)) ths"
  by (induction ths arbitrary: ths') (auto simp: res_bind_Inr_iff restart_thread_Inr_iff)

lemma idents_restarted:
  assumes "idents st' = idents st"
  shows "map (map (restarted {})) (threads st') = map (map fresh_task) (threads st)"
proof (rule nth_equalityI)
  note sh = idents_shape [OF assms]
  show "length (map (map (restarted {})) (threads st')) = length (map (map fresh_task) (threads st))"
    using sh(1) by simp
  fix t assume "t < length (map (map (restarted {})) (threads st'))"
  then have t: "t < length (threads st)" using sh(1) by simp
  have "fresh_task (task_at st' (t, i)) = fresh_task (task_at st (t, i))" if "i < length (threads st ! t)" for i
    using sh(4) [of "(t, i)"] that t by (intro fresh_task_ident) (simp add: valid_slot_def)
  then show "map (map (restarted {})) (threads st') ! t = map (map fresh_task) (threads st) ! t"
    using t sh(1) sh(2) [OF t] by (auto simp: restarted_def intro!: nth_equalityI)
qed

lemma ResetCurrentRound_Inr_iff:
  "ResetCurrentRound E st = Inr st' \<longleftrightarrow> (\<exists>st1. TerminateTasks E st = Inr st1
     \<and> (\<forall>th \<in> set (threads st1). \<forall>c \<in> set th. co_id c \<notin> removed_tasks st1 \<longrightarrow> co_is_returned c)
     \<and> st' = st1\<lparr>threads := map (map (restarted (removed_tasks st1))) (threads st1)\<rparr>)"
  by (auto simp: ResetCurrentRound_def res_bind_Inr_iff restart_threads_Inr_iff)

lemma ResetCurrentRound_wait_free:
  assumes "wait_free_body (env_body E) rank" "no_futex st" "length (round_schedule st) = length (threads st)"
    "total_work rank st < env_fuel E"
  shows "\<exists>st'. ResetCurrentRound E st = Inr st'"
proof -
  from TerminateTasks_wait_free [OF assms] obtain st1 where t: "TerminateTasks E st = Inr st1" by blast
  have "awake E st" using assms(1,2) by (auto simp: awake_def)
  with TerminateTasks_inv [OF t, of False] have "valid_slot st1 r \<Longrightarrow> co_is_returned (task_at st1 r)" for r
    by auto
  then have "\<forall>th \<in> set (threads st1). \<forall>c \<in> set th. co_is_returned c"
    by (fastforce simp: in_set_conv_nth valid_slot_def)
  with t show ?thesis by (auto simp: ResetCurrentRound_Inr_iff)
qed

section \<open>Queries\<close>

lemma find_in_thread_Some:
  "find_in_thread tid i cs = Some j \<Longrightarrow> \<exists>k < length cs. j = i + k \<and> co_id (cs ! k) = tid"
  by (induction cs arbitrary: i) (fastforce split: if_splits)+

lemma find_in_thread_None: "find_in_thread tid i cs = None \<longleftrightarrow> tid \<notin> co_id ` set cs"
  by (induction cs arbitrary: i) auto

lemma find_in_threads_Some:
  "find_in_threads tid t ths = Some (r, u) \<Longrightarrow> \<exists>k < length ths. u = t + k \<and> fst r = u
     \<and> snd r < length (ths ! k) \<and> co_id (ths ! k ! snd r) = tid"
proof (induction ths arbitrary: t)
  case (Cons th ths)
  show ?case
  proof (cases "find_in_thread tid 0 th")
    case None
    with Cons.prems Cons.IH [of "Suc t"] show ?thesis by fastforce
  next
    case (Some i)
    with Cons.prems find_in_thread_Some [OF Some] show ?thesis by auto
  qed
qed simp

lemma find_in_threads_None:
  "find_in_threads tid t ths = None \<longleftrightarrow> (\<forall>th \<in> set ths. tid \<notin> co_id ` set th)"
  by (induction ths arbitrary: t) (auto simp: find_in_thread_None split: option.splits dest: find_in_thread_Some)

lemma GetTask_by_id_Some:
  "GetTask_by_id st tid = Some (r, u) \<Longrightarrow> valid_slot st r \<and> fst r = u \<and> co_id (task_at st r) = tid"
  unfolding GetTask_by_id_def by (drule find_in_threads_Some) (auto simp: valid_slot_def)

lemma GetTask_by_id_None:
  "GetTask_by_id st tid = None \<longleftrightarrow> (\<forall>r. valid_slot st r \<longrightarrow> co_id (task_at st r) \<noteq> tid)"
  unfolding GetTask_by_id_def find_in_threads_None
proof
  assume "\<forall>th \<in> set (threads st). tid \<notin> co_id ` set th"
  then show "\<forall>r. valid_slot st r \<longrightarrow> co_id (task_at st r) \<noteq> tid"
    by (metis image_eqI nth_mem valid_slot_def)
next
  assume a: "\<forall>r. valid_slot st r \<longrightarrow> co_id (task_at st r) \<noteq> tid"
  have "co_id (threads st ! t ! i) \<noteq> tid" if "t < length (threads st)" "i < length (threads st ! t)" for t i
    using a [rule_format, of "(t, i)"] that by (simp add: valid_slot_def)
  then show "\<forall>th \<in> set (threads st). tid \<notin> co_id ` set th" by (auto simp: in_set_conv_nth) blast
qed

lemma GetNextTaskInThread_eq:
  assumes "t < length (threads st)" "t < length (round_schedule st)" "- 1 \<le> round_schedule st ! t"
    "round_schedule st ! t \<le> int (length (threads st ! t))"
  shows "\<exists>k. GetNextTaskInThread st t = Inr (int k) \<and> k \<le> length (threads st ! t)
    \<and> round_schedule st ! t \<le> int k
    \<and> (\<forall>i < k. round_schedule st ! t \<le> int i \<longrightarrow>
         co_is_returned (task_at st (t, i)) \<or> IsTaskRemoved st (co_id (task_at st (t, i))))
    \<and> (k < length (threads st ! t) \<longrightarrow>
         \<not> co_is_returned (task_at st (t, k)) \<and> \<not> IsTaskRemoved st (co_id (task_at st (t, k))))"
proof -
  let ?P = "\<lambda>c. co_is_returned c \<or> IsTaskRemoved st (co_id c)"
  let ?th = "threads st ! t" and ?s = "round_schedule st ! t"
  show ?thesis
  proof (cases "int (length ?th) \<le> ?s")
    case True
    then have s: "?s = int (length ?th)" using assms(4) by simp
    then have "GetNextTaskInThread st t = Inr (int (length ?th))"
      using assms(1,2) by (simp add: GetNextTaskInThread_def)
    then show ?thesis using s by (intro exI [of _ "length ?th"]) simp
  next
    case False
    define j where "j = (if ?s = - 1 then 0 else nat ?s)"
    define l where "l = length (takeWhile ?P (drop j ?th))"
    have j: "?s \<le> int j" "j \<le> length ?th" using assms(3,4) by (auto simp: j_def)
    have before: "?P (?th ! i)" if "j \<le> i" "i < j + l" for i
      using takeWhile_drop_before [of j i ?P ?th] that by (simp add: l_def)
    have at: "\<not> ?P (?th ! (j + l))" if "j + l < length ?th"
      using takeWhile_drop_at [of j ?P ?th] that by (simp add: l_def)
    have jl: "j + l \<le> length ?th" using length_takeWhile_le [of ?P "drop j ?th"] j(2) by (simp add: l_def)
    have "i < j + l \<and> ?s \<le> int i \<longrightarrow> j \<le> i" for i using assms(3) by (auto simp: j_def)
    moreover have "GetNextTaskInThread st t = Inr (int (j + l))"
      using assms False by (simp add: GetNextTaskInThread_def j_def l_def)
    ultimately show ?thesis using before at jl j(1) by (intro exI [of _ "j + l"]) auto
  qed
qed

lemma Valid_le_Total: "GetValidTasksCount st \<le> GetTotalTasksCount st"
  unfolding GetValidTasksCount_def GetTotalTasksCount_def by (intro sum_list_mono) simp

section \<open>A sample round\<close>

text \<open>
  A target with a counter, whose methods add one to the counter in every slice and return the
  number of slices left over: the context is the number of slices to go.
\<close>

definition sample_body :: "(int, nat) body" where
  "sample_body k w = (w\<lparr>w_state := w_state w + 1\<rparr>,
     if k = 0 then Return (vw_int (w_state w)) else Yield (k - 1))"

definition sample_random :: "unit random_source" where
  "sample_random = \<lparr>rnd_shuffle = (\<lambda>n g. ([0..<n], g)), rnd_uniform = (\<lambda>a b g. (a, g)),
     rnd_discrete = (\<lambda>ws g. (0, g))\<rparr>"

definition sample_env :: "(int, nat, unit, unit) runtime_env" where
  "sample_env = \<lparr>env_body = sample_body, env_mem = (\<lambda>_ _. 0), env_reset = (\<lambda>_. 0),
     env_verifier = DefaultStrategyVerifier, env_random = sample_random, env_fuel = 20\<rparr>"

definition sample_builder :: "string \<Rightarrow> nat \<Rightarrow> (int, int, nat) task_builder" where
  "sample_builder nm k = \<lparr>tb_name = nm, tb_func = (\<lambda>_. k), tb_gen = (\<lambda>t w. (int t, w, None))\<rparr>"

definition sample_world :: "int world" where
  "sample_world = \<lparr>w_state = 0, w_parked = (\<lambda>_. False), w_next_token = 0, w_status = None\<rparr>"

definition sample_task :: "int \<Rightarrow> nat \<Rightarrow> (int, nat) coro" where
  "sample_task i k = Coro_New (\<lambda>_. k) 0 ''get'' i"

definition sample_strategy :: "(int, int, nat, unit) base_strategy" where
  "sample_strategy = \<lparr>new_task_id = 3, removed_tasks = {2}, round_schedule = [0, 0], sched_checker = (),
     st_world = sample_world, threads = [[sample_task 0 1], [sample_task 1 0, sample_task 2 2]],
     constructors = [sample_builder ''get'' 1]\<rparr>"

lemma sample_wait_free: "wait_free_body (env_body sample_env) id"
  by (simp add: wait_free_body_def sample_env_def sample_body_def)

lemma sample_random_ok: "random_ok sample_random"
  by (simp add: random_ok_def sample_random_def)

lemma sample_task_sel [simp]:
  "co_id (sample_task i k) = i" "co_is_returned (sample_task i k) \<longleftrightarrow> False" "co_fstate (sample_task i k) = None"
  "co_ctx (sample_task i k) = k"
  by (simp_all add: sample_task_def Coro_New_def)

lemma sample_slots:
  "valid_slot sample_strategy r \<longleftrightarrow> r \<in> {(0, 0), (1, 0), (1, 1)}"
  by (cases r) (auto simp: valid_slot_def sample_strategy_def less_Suc_eq)

lemma sample_no_futex: "no_futex sample_strategy"
  by (auto simp: no_futex_def sample_slots) (simp_all add: sample_strategy_def)

lemma sample_fuel: "total_work id sample_strategy < env_fuel sample_env"
  by (simp add: total_work_def sample_strategy_def work_def sample_env_def)

lemma sample_lengths: "length (round_schedule sample_strategy) = length (threads sample_strategy)"
  by (simp add: sample_strategy_def)

section \<open>Properties\<close>

text \<open>
  C27. \<open>TerminateTasks\<close> ends when the tasks are wait-free: with more fuel than the slices the
  tasks still have to run it returns, and then every task, removed ones included, has
  returned, the schedule is before the first task of every thread, and the verifier and the
  target object are reset.
\<close>

theorem TerminateTasks_ends:
  assumes "wait_free_body (env_body E) rank" "no_futex st" "length (round_schedule st) = length (threads st)"
    "total_work rank st < env_fuel E"
  shows "\<exists>st'. TerminateTasks E st = Inr st' \<and> idents st' = idents st
    \<and> (\<forall>r. valid_slot st' r \<longrightarrow> co_is_returned (task_at st' r))
    \<and> round_schedule st' = replicate (length (threads st)) (- 1)
    \<and> sched_checker st' = Reset_verifier (env_verifier E) (sched_checker st)"
proof -
  from TerminateTasks_wait_free [OF assms] obtain st' where t: "TerminateTasks E st = Inr st'" by blast
  have "awake E st" using assms(1,2) by (auto simp: awake_def)
  with TerminateTasks_inv [OF t, of False] t show ?thesis by auto
qed

theorem TerminateTasks_ends_witness:
  "\<exists>st'. TerminateTasks sample_env sample_strategy = Inr st'
    \<and> (\<forall>r. valid_slot st' r \<longrightarrow> co_is_returned (task_at st' r))"
  using TerminateTasks_ends [OF sample_wait_free sample_no_futex sample_lengths sample_fuel] by blast

text \<open>
  Without that assumption: whenever \<open>TerminateTasks\<close> returns, a task that has not returned
  is the last task of its thread (the blocked task the loop steps over). In particular a
  blocked task that is not the last of its thread makes it fail.
\<close>

theorem TerminateTasks_leaves_last:
  assumes "TerminateTasks E st = Inr st'" "valid_slot st' (t, i)" "\<not> co_is_returned (task_at st' (t, i))"
  shows "Suc i = length (threads st' ! t)"
  using TerminateTasks_inv [OF assms(1), of True] assms(2,3) by auto

definition sleeping_strategy :: "(int, int, nat, unit) base_strategy" where
  "sleeping_strategy = sample_strategy\<lparr>threads := [[SetBlocked 0 0 (sample_task 0 1)]], round_schedule := [0]\<rparr>"

lemma sleeping_terminates:
  "TerminateTasks sample_env sleeping_strategy = Inr (sleeping_strategy\<lparr>round_schedule := [- 1]\<rparr>)"
  by (simp add: TerminateTasks_def sleeping_strategy_def sample_env_def sample_strategy_def eval_nat_numeral
      terminate_visit_def skip_returned_def is_blocked_task_def IsBlocked_def blocked_now_def SetBlocked_def
      set_task_def get_task_def vec_get_def DefaultStrategyVerifier_def sample_world_def Let_def)

theorem TerminateTasks_leaves_last_witness:
  "Suc 0 = length (threads (sleeping_strategy\<lparr>round_schedule := [- 1]\<rparr>) ! 0)"
  by (rule TerminateTasks_leaves_last [OF sleeping_terminates])
    (simp_all add: valid_slot_def sleeping_strategy_def SetBlocked_def)

text \<open>
  C28. \<open>ResetCurrentRound\<close> with wait-free tasks returns; every task that is not removed is then
  the task as it was built, before its first slice, with the same id, name, arguments and
  token, in the same slot; a removed task stays and has returned.
\<close>

theorem ResetCurrentRound_fresh:
  assumes "wait_free_body (env_body E) rank" "no_futex st" "length (round_schedule st) = length (threads st)"
    "total_work rank st < env_fuel E"
  shows "\<exists>st'. ResetCurrentRound E st = Inr st' \<and> idents st' = idents st
    \<and> (\<forall>r. valid_slot st r \<longrightarrow> (if co_id (task_at st r) \<in> removed_tasks st then co_is_returned (task_at st' r)
          else task_at st' r = fresh_task (task_at st r)))"
proof -
  from ResetCurrentRound_wait_free [OF assms] obtain st' where st': "ResetCurrentRound E st = Inr st'" by blast
  then obtain st1 where t: "TerminateTasks E st = Inr st1"
    and e: "st' = st1\<lparr>threads := map (map (restarted (removed_tasks st1))) (threads st1)\<rparr>"
    by (auto simp: ResetCurrentRound_Inr_iff)
  have "awake E st" using assms(1,2) by (auto simp: awake_def)
  with TerminateTasks_inv [OF t, of False] have id: "idents st1 = idents st"
    and rem: "removed_tasks st1 = removed_tasks st"
    and ret: "\<And>r. valid_slot st1 r \<Longrightarrow> co_is_returned (task_at st1 r)" by auto
  note sh = idents_shape [OF id]
  have "idents st' = idents st1" by (simp add: e idents_def)
  moreover have "if co_id (task_at st r) \<in> removed_tasks st then co_is_returned (task_at st' r)
      else task_at st' r = fresh_task (task_at st r)" if "valid_slot st r" for r
  proof -
    have v: "valid_slot st1 r" using that sh(3) by simp
    then have "task_at st' r = restarted (removed_tasks st) (task_at st1 r)"
      by (simp add: e rem valid_slot_def)
    then show ?thesis using sh(4) [OF that] ret [OF v] fresh_task_ident
      by (auto simp: restarted_def task_ident_def)
  qed
  ultimately show ?thesis using st' id by (intro exI [of _ st'] conjI allI impI) simp_all
qed

theorem ResetCurrentRound_fresh_witness:
  "\<exists>st'. ResetCurrentRound sample_env sample_strategy = Inr st'
    \<and> task_at st' (0, 0) = fresh_task (sample_task 0 1) \<and> co_is_returned (task_at st' (1, 1))"
proof -
  from ResetCurrentRound_fresh [OF sample_wait_free sample_no_futex sample_lengths sample_fuel]
  obtain st' where st': "ResetCurrentRound sample_env sample_strategy = Inr st'"
    and t: "\<And>r. valid_slot sample_strategy r \<Longrightarrow> if co_id (task_at sample_strategy r) \<in> removed_tasks sample_strategy
       then co_is_returned (task_at st' r) else task_at st' r = fresh_task (task_at sample_strategy r)" by blast
  from st' t [of "(0, 0)"] t [of "(1, 1)"] show ?thesis
    by (simp add: sample_slots) (simp add: sample_strategy_def)
qed

end
