(* ===== verification/Strategy_Contract.thy ===== *)
theory Strategy_Contract
  imports Round_Reset
begin

text \<open>
  What the schedulers rely on when they ask a strategy for the next task: the virtual methods
  \<open>Next\<close> and \<open>NextSchedule\<close> of \<open>Strategy\<close> (\<open>runtime/include/scheduler.h\<close>) as a locale. The
  futex state of a task is not part of the contract, since asking whether a task is blocked
  may clear it.
\<close>

section \<open>Views\<close>

definition drop_futex :: "('a, 'c) coro \<Rightarrow> ('a, 'c) coro" where
  "drop_futex c = c\<lparr>co_fstate := None\<rparr>"

definition tasks_view ::
    "('o, 'a, 'c, 'v, 'x) base_strategy_scheme \<Rightarrow> ('a, 'c) coro list list" where
  "tasks_view st = map (map drop_futex) (threads st)"

text \<open>A thread waits when its last task is parked or blocked.\<close>

definition waiting_now ::
    "('o, 'c, 'v, 'g) runtime_env \<Rightarrow> ('o, 'a, 'c, 'v, 'x) base_strategy_scheme \<Rightarrow> nat \<Rightarrow> bool" where
  "waiting_now E st t \<longleftrightarrow> threads st ! t \<noteq> [] \<and> (IsParked (st_world st) (last (threads st ! t))
     \<or> blocked_now (env_mem E) (st_world st) (last (threads st ! t)))"

text \<open>The test of the strategies, with the side effect of \<open>IsBlocked\<close>.\<close>

definition waiting ::
    "('o, 'c, 'v, 'g) runtime_env \<Rightarrow> nat \<Rightarrow> ('o, 'a, 'c, 'v, 'x) base_strategy_scheme
      \<Rightarrow> (bool \<times> ('o, 'a, 'c, 'v, 'x) base_strategy_scheme) res" where
  "waiting E t st = res_bind (vec_get (threads st) t) (\<lambda>thread.
     if thread = [] then Inr (False, st)
     else if IsParked (st_world st) (last thread) then Inr (True, st)
     else is_blocked_task E (t, length thread - 1) st)"

text \<open>The test of the replaying methods: no task is left in the thread, or the next is parked.\<close>

definition schedule_waiting ::
    "nat \<Rightarrow> ('o, 'a, 'c, 'v, 'x) base_strategy_scheme \<Rightarrow> bool res" where
  "schedule_waiting t st = res_bind (GetNextTaskInThread st t) (\<lambda>task_index.
     res_bind (vec_get (threads st) t) (\<lambda>thread.
     if task_index = int (length thread) then Inr True
     else res_bind (get_task st (t, nat task_index)) (\<lambda>c. Inr (IsParked (st_world st) c))))"

text \<open>What a test or a choice of thread leaves alone: everything but futex states.\<close>

definition only_futex ::
    "('o, 'a, 'c, 'v, 'x) base_strategy_scheme \<Rightarrow> ('o, 'a, 'c, 'v, 'y) base_strategy_scheme \<Rightarrow> bool" where
  "only_futex st st' \<longleftrightarrow> tasks_view st' = tasks_view st \<and> new_task_id st' = new_task_id st
     \<and> removed_tasks st' = removed_tasks st \<and> round_schedule st' = round_schedule st
     \<and> sched_checker st' = sched_checker st \<and> st_world st' = st_world st
     \<and> constructors st' = constructors st"

lemma drop_futex_sel [simp]:
  "co_is_returned (drop_futex c) = co_is_returned c" "co_ret (drop_futex c) = co_ret c"
  "co_id (drop_futex c) = co_id c" "co_name (drop_futex c) = co_name c" "co_ctx (drop_futex c) = co_ctx c"
  "co_args (drop_futex c) = co_args c" "co_token (drop_futex c) = co_token c" "co_fstate (drop_futex c) = None"
  "task_ident (drop_futex c) = task_ident c"
  by (simp_all add: drop_futex_def task_ident_def)

section \<open>The contract of Next\<close>

definition next_effect ::
    "('o, 'c, 'v, 'g) runtime_env \<Rightarrow> ('o, 'a, 'c, 'v, 'x) base_strategy_scheme \<Rightarrow> task_with_meta_data
      \<Rightarrow> ('o, 'a, 'c, 'v, 'x) base_strategy_scheme \<Rightarrow> bool" where
  "next_effect E st t st' \<longleftrightarrow>
     (let th = twm_thread_id t; i = snd (twm_task t) in
      fst (twm_task t) = th \<and> th < length (threads st)
      \<and> removed_tasks st' = removed_tasks st \<and> round_schedule st' = round_schedule st
      \<and> set (constructors st') = set (constructors st)
      \<and> \<not> waiting_now E st th
      \<and> (if twm_is_new t then
           (threads st ! th = [] \<or> co_is_returned (last (threads st ! th)))
           \<and> i = length (threads st ! th) \<and> new_task_id st' = new_task_id st + 1
           \<and> (\<exists>c. \<not> co_is_returned c \<and> co_fstate c = None \<and> co_id c = new_task_id st
                \<and> (\<exists>b \<in> set (constructors st). Build b (st_world st) th (new_task_id st) = (st_world st', c))
                \<and> tasks_view st' = (tasks_view st)[th := tasks_view st ! th @ [c]])
         else Suc i = length (threads st ! th) \<and> \<not> co_is_returned (task_at st (th, i))
           \<and> new_task_id st' = new_task_id st \<and> st_world st' = st_world st
           \<and> sched_checker st' = sched_checker st \<and> tasks_view st' = tasks_view st))"

text \<open>
  The contract of \<open>NextSchedule\<close>: the next task of the thread that is not removed and has not
  returned; it is new when the schedule of the thread moved. (The pick strategies also skip
  parked tasks; the PCT strategy falls back on the first thread when all are parked.)
\<close>

definition schedule_ok :: "('o, 'a, 'c, 'v, 'x) base_strategy_scheme \<Rightarrow> bool" where
  "schedule_ok st \<longleftrightarrow> length (round_schedule st) = length (threads st)
     \<and> (\<forall>t < length (threads st). - 1 \<le> round_schedule st ! t
          \<and> round_schedule st ! t \<le> int (length (threads st ! t)))"

definition next_schedule_effect ::
    "('o, 'a, 'c, 'v, 'x) base_strategy_scheme \<Rightarrow> task_with_meta_data
      \<Rightarrow> ('o, 'a, 'c, 'v, 'x) base_strategy_scheme \<Rightarrow> bool" where
  "next_schedule_effect st t st' \<longleftrightarrow>
     (let th = twm_thread_id t; i = snd (twm_task t) in
      fst (twm_task t) = th \<and> valid_slot st (th, i)
      \<and> \<not> co_is_returned (task_at st (th, i)) \<and> \<not> IsTaskRemoved st (co_id (task_at st (th, i)))
      \<and> GetNextTaskInThread st th = Inr (int i)
      \<and> twm_is_new t = (round_schedule st ! th \<noteq> int i)
      \<and> round_schedule st' = (round_schedule st)[th := int i] \<and> threads st' = threads st
      \<and> removed_tasks st' = removed_tasks st \<and> new_task_id st' = new_task_id st
      \<and> sched_checker st' = sched_checker st \<and> st_world st' = st_world st
      \<and> constructors st' = constructors st)"

text \<open>\<open>ok\<close> is what the strategy needs of its environment, such as a proper random source.\<close>

locale scheduling_strategy =
  fixes E :: "('o, 'c, 'v, 'g) runtime_env"
    and Next :: "('o, 'a, 'c, 'v, 'x) base_strategy_scheme
      \<Rightarrow> (task_with_meta_data \<times> ('o, 'a, 'c, 'v, 'x) base_strategy_scheme) res"
    and NextSchedule :: "('o, 'a, 'c, 'v, 'x) base_strategy_scheme
      \<Rightarrow> (task_with_meta_data \<times> ('o, 'a, 'c, 'v, 'x) base_strategy_scheme) res"
    and ok :: bool
  assumes Next_effect: "ok \<Longrightarrow> Next st = Inr (t, st') \<Longrightarrow> next_effect E st t st'"
    and NextSchedule_effect: "ok \<Longrightarrow> schedule_ok st \<Longrightarrow> NextSchedule st = Inr (t, st')
      \<Longrightarrow> next_schedule_effect st t st'"
begin

lemma Next_task:
  assumes "ok" "Next st = Inr (t, st')"
  shows "valid_slot st' (twm_task t) \<and> \<not> co_is_returned (task_at st' (twm_task t))
    \<and> fst (twm_task t) = twm_thread_id t"
proof -
  obtain th i where t: "twm_task t = (th, i)" by fastforce
  have e: "next_effect E st t st'" by (rule Next_effect [OF assms])
  then have th: "twm_thread_id t = th" "th < length (threads st)" by (auto simp: next_effect_def t Let_def)
  show ?thesis
  proof (cases "twm_is_new t")
    case True
    with e t th obtain c where c: "\<not> co_is_returned c" "i = length (threads st ! th)"
        "tasks_view st' = (tasks_view st)[th := tasks_view st ! th @ [c]]"
      by (auto simp: next_effect_def Let_def)
    have len: "length (threads st') = length (threads st)"
      using arg_cong [OF c(3), of length] by (simp add: tasks_view_def)
    have "map drop_futex (threads st' ! th) = tasks_view st ! th @ [c]"
      using arg_cong [OF c(3), of "\<lambda>x. x ! th"] th len by (simp add: tasks_view_def)
    then have m: "map drop_futex (threads st' ! th) = map drop_futex (threads st ! th) @ [c]"
      using th by (simp add: tasks_view_def)
    have l: "length (threads st' ! th) = Suc i" using arg_cong [OF m, of length] c(2) by simp
    have "drop_futex (threads st' ! th ! i) = c"
      using arg_cong [OF m, of "\<lambda>x. x ! i"] l c(2) by (simp add: nth_append)
    then have "\<not> co_is_returned (threads st' ! th ! i)" using c(1) by (auto simp: drop_futex_def)
    then show ?thesis using l th t len by (simp add: valid_slot_def)
  next
    case False
    with e t th have i: "Suc i = length (threads st ! th)" "\<not> co_is_returned (threads st ! th ! i)"
        "tasks_view st' = tasks_view st" by (auto simp: next_effect_def Let_def)
    have len: "length (threads st') = length (threads st)"
      using arg_cong [OF i(3), of length] by (simp add: tasks_view_def)
    have m: "map drop_futex (threads st' ! th) = map drop_futex (threads st ! th)"
      using arg_cong [OF i(3), of "\<lambda>x. x ! th"] th len by (simp add: tasks_view_def)
    have l: "length (threads st' ! th) = Suc i" using arg_cong [OF m, of length] i(1) by simp
    have "drop_futex (threads st' ! th ! i) = drop_futex (threads st ! th ! i)"
      using arg_cong [OF m, of "\<lambda>x. x ! i"] l i(1) by simp
    then have "co_is_returned (threads st' ! th ! i) = co_is_returned (threads st ! th ! i)"
      by (metis drop_futex_sel(1))
    then show ?thesis using l th t len i(2) by (simp add: valid_slot_def)
  qed
qed

end

section \<open>Testing threads\<close>

lemma only_futex_refl [simp]: "only_futex st st"
  by (simp add: only_futex_def)

lemma only_futex_trans: "only_futex st st' \<Longrightarrow> only_futex st' st'' \<Longrightarrow> only_futex st st''"
  by (simp add: only_futex_def)

lemma only_futex_threads:
  assumes "only_futex st st'"
  shows "length (threads st') = length (threads st)"
    "t < length (threads st) \<Longrightarrow> map drop_futex (threads st' ! t) = map drop_futex (threads st ! t)"
    "t < length (threads st) \<Longrightarrow> length (threads st' ! t) = length (threads st ! t)"
proof -
  have v: "tasks_view st' = tasks_view st" using assms by (simp add: only_futex_def)
  show len: "length (threads st') = length (threads st)"
    using arg_cong [OF v, of length] by (simp add: tasks_view_def)
  show m: "map drop_futex (threads st' ! t) = map drop_futex (threads st ! t)"
    if "t < length (threads st)" for t
    using arg_cong [OF v, of "\<lambda>x. x ! t"] len that by (simp add: tasks_view_def)
  show "t < length (threads st) \<Longrightarrow> length (threads st' ! t) = length (threads st ! t)"
    using arg_cong [OF m, of t length] by simp
qed

lemma only_futex_last:
  assumes "only_futex st st'" "t < length (threads st)" "threads st ! t \<noteq> []"
  shows "threads st' ! t \<noteq> []" "drop_futex (last (threads st' ! t)) = drop_futex (last (threads st ! t))"
proof -
  note m = only_futex_threads [OF assms(1)]
  show "threads st' ! t \<noteq> []" using m(3) [OF assms(2)] assms(3) by auto
  then show "drop_futex (last (threads st' ! t)) = drop_futex (last (threads st ! t))"
    using arg_cong [OF m(2) [OF assms(2)], of last] assms(3) by (simp add: last_map)
qed

lemma IsBlocked_view: "drop_futex (snd (IsBlocked m w c)) = drop_futex c"
  by (simp add: IsBlocked_def drop_futex_def)

lemma tasks_view_set_task:
  assumes "valid_slot st r" "drop_futex c = drop_futex (task_at st r)"
  shows "tasks_view (set_task r c st) = tasks_view st"
proof -
  obtain t i where r: "r = (t, i)" by fastforce
  have "map drop_futex ((threads st ! t)[i := c]) = map drop_futex (threads st ! t)"
    using assms r by (auto simp: valid_slot_def map_update intro!: list_update_same_conv [THEN iffD2])
  then show ?thesis using assms r
    by (auto simp: tasks_view_def set_task_def valid_slot_def map_update intro!: list_update_same_conv [THEN iffD2])
qed

lemma is_blocked_task_only_futex:
  "is_blocked_task E r st = Inr (b, st') \<Longrightarrow> only_futex st st'"
  using is_blocked_task_frame [of E r st b st']
  by (auto simp: only_futex_def is_blocked_task_Inr_iff intro!: tasks_view_set_task IsBlocked_view)

text \<open>A test reports whether the thread waits and changes no verdict on any thread.\<close>

definition tested ::
    "('o, 'c, 'v, 'g) runtime_env \<Rightarrow> ('o, 'a, 'c, 'v, 'x) base_strategy_scheme
      \<Rightarrow> ('o, 'a, 'c, 'v, 'y) base_strategy_scheme \<Rightarrow> bool" where
  "tested E st st' \<longleftrightarrow> only_futex st st' \<and> (\<forall>u < length (threads st). waiting_now E st' u = waiting_now E st u)"

lemma tested_refl [simp]: "tested E st st"
  by (simp add: tested_def)

lemma tested_trans: "tested E st st' \<Longrightarrow> tested E st' st'' \<Longrightarrow> tested E st st''"
  unfolding tested_def by (metis only_futex_trans only_futex_threads(1))

lemma waiting_tested:
  assumes "waiting E t st = Inr (b, st')"
  shows "t < length (threads st)" "b = waiting_now E st t" "tested E st st'"
    "base_strategy.more st' = base_strategy.more st"
proof -
  from assms show t: "t < length (threads st)" by (auto simp: waiting_def res_bind_Inr_iff vec_get_Inr_iff)
  let ?th = "threads st ! t"
  have "b = waiting_now E st t \<and> tested E st st' \<and> base_strategy.more st' = base_strategy.more st"
  proof (cases "?th = [] \<or> IsParked (st_world st) (last ?th)")
    case True
    with assms t show ?thesis by (auto simp: waiting_def waiting_now_def split: if_splits)
  next
    case False
    with assms t have b: "is_blocked_task E (t, length ?th - 1) st = Inr (b, st')"
      by (auto simp: waiting_def)
    then have e: "b = blocked_now (env_mem E) (st_world st) (last ?th)"
        "st' = set_task (t, length ?th - 1) (snd (IsBlocked (env_mem E) (st_world st) (last ?th))) st"
      using False by (auto simp: is_blocked_task_Inr_iff last_conv_nth)
    have "waiting_now E st' u = waiting_now E st u" if "u < length (threads st)" for u
    proof (cases "u = t")
      case True
      have "threads st' ! t = ?th[length ?th - 1 := snd (IsBlocked (env_mem E) (st_world st) (last ?th))]"
        using t by (simp add: e(2) set_task_def)
      then have "threads st' ! t \<noteq> []"
          "last (threads st' ! t) = snd (IsBlocked (env_mem E) (st_world st) (last ?th))"
        using False by (simp_all add: last_list_update)
      moreover have "st_world st' = st_world st" by (simp add: e(2))
      ultimately show ?thesis using False True IsBlocked_again [of "env_mem E" "st_world st" "last ?th"]
        by (auto simp: waiting_now_def IsParked_def IsBlocked_def)
    next
      case False
      then have "threads st' ! u = threads st ! u" by (simp add: e(2) set_task_def)
      moreover have "st_world st' = st_world st" by (simp add: e(2))
      ultimately show ?thesis by (simp add: waiting_now_def)
    qed
    then show ?thesis using False e is_blocked_task_only_futex [OF b]
      by (simp add: tested_def waiting_now_def)
  qed
  then show "b = waiting_now E st t" "tested E st st'" "base_strategy.more st' = base_strategy.more st" by auto
qed

lemma waiting_total: "t < length (threads st) \<Longrightarrow> \<exists>b st'. waiting E t st = Inr (b, st')"
  by (auto simp: waiting_def is_blocked_task_eq valid_slot_def)

lemma GetNextTaskInThread_cong:
  "\<lbrakk>threads st' = threads st; round_schedule st' = round_schedule st; removed_tasks st' = removed_tasks st\<rbrakk>
    \<Longrightarrow> GetNextTaskInThread st' t = GetNextTaskInThread st t"
  unfolding GetNextTaskInThread_def IsTaskRemoved_def by (simp cong: if_cong)

lemma schedule_waiting_cong:
  "\<lbrakk>threads st' = threads st; round_schedule st' = round_schedule st; removed_tasks st' = removed_tasks st;
    st_world st' = st_world st\<rbrakk> \<Longrightarrow> schedule_waiting t st' = schedule_waiting t st"
  unfolding schedule_waiting_def get_task_def using GetNextTaskInThread_cong [of st' st] by (simp cong: if_cong)

end
