(* ===== verification/Pick_Strategies.thy ===== *)
theory Pick_Strategies
  imports Strategy_Contract
begin

text \<open>
  Model of \<open>runtime/include/pick_strategy.h\<close>, \<open>round_robin_strategy.h\<close> and
  \<open>random_strategy.h\<close>. The virtual methods \<open>Pick\<close> and \<open>PickSchedule\<close> are arguments of the
  methods of \<open>PickStrategy\<close> and are supplied by the two strategies. The counter of the round
  robin is a natural number: it would take \<open>2 ^ 64\<close> steps to wrap.
\<close>

section \<open>The base class\<close>

record ('o, 'a, 'c, 'v, 'g) pick_strategy = "('o, 'a, 'c, 'v) base_strategy" +
  rng :: 'g

type_synonym ('o, 'a, 'c, 'v, 'g, 'x) pick = "('o, 'a, 'c, 'v, 'g, 'x) pick_strategy_scheme"

text \<open>
  The search for a constructor that the verifier accepts, in the shuffled order. \<open>Verify\<close> may
  change the verifier also when it refuses.
\<close>

fun first_verified ::
    "'v strategy_verifier \<Rightarrow> nat \<Rightarrow> ('o, 'a, 'c) task_builder list \<Rightarrow> 'v
      \<Rightarrow> (('o, 'a, 'c) task_builder option \<times> 'v) res" where
  "first_verified V t [] v = Inr (None, v)"
| "first_verified V t (b # bs) v =
     res_bind (Verify V \<lparr>ct_name = tb_name b, ct_is_new = True, ct_thread_id = t\<rparr> v) (\<lambda>(accepted, v).
       if accepted then Inr (Some b, v) else first_verified V t bs v)"

definition Pick_Next ::
    "(('o, 'a, 'c, 'v, 'g, 'x) pick \<Rightarrow> (nat \<times> ('o, 'a, 'c, 'v, 'g, 'x) pick) res)
      \<Rightarrow> ('o, 'c, 'v, 'g) runtime_env \<Rightarrow> ('o, 'a, 'c, 'v, 'g, 'x) pick
      \<Rightarrow> (task_with_meta_data \<times> ('o, 'a, 'c, 'v, 'g, 'x) pick) res" where
  "Pick_Next Pick E st =
     res_bind (Pick st) (\<lambda>(current_thread, st).
     res_bind (vec_get (threads st) current_thread) (\<lambda>thread.
     if thread = [] \<or> co_is_returned (last thread) then
       let (cs, g) = shuffle (env_random E) (constructors st) (rng st);
           st = st\<lparr>constructors := cs, rng := g\<rparr> in
       res_bind (first_verified (env_verifier E) current_thread cs (sched_checker st)) (\<lambda>(verified, v).
         case verified of
           None \<Rightarrow> Inl (Assert_Failed ''Oops, possible deadlock or incorrect verifier'')
         | Some b \<Rightarrow>
             let (w, c) = Build b (st_world st) current_thread (new_task_id st) in
             Inr (\<lparr>twm_task = (current_thread, length thread), twm_is_new = True,
                    twm_thread_id = current_thread\<rparr>,
                  st\<lparr>sched_checker := v, st_world := w, new_task_id := new_task_id st + 1,
                     threads := (threads st)[current_thread := thread @ [c]]\<rparr>))
     else Inr (\<lparr>twm_task = (current_thread, length thread - 1), twm_is_new = False,
                 twm_thread_id = current_thread\<rparr>, st)))"

definition Pick_NextSchedule ::
    "(('o, 'a, 'c, 'v, 'g, 'x) pick \<Rightarrow> (nat \<times> ('o, 'a, 'c, 'v, 'g, 'x) pick) res)
      \<Rightarrow> ('o, 'a, 'c, 'v, 'g, 'x) pick
      \<Rightarrow> (task_with_meta_data \<times> ('o, 'a, 'c, 'v, 'g, 'x) pick) res" where
  "Pick_NextSchedule PickSchedule st =
     res_bind (PickSchedule st) (\<lambda>(current_thread, st).
     res_bind (GetNextTaskInThread st current_thread) (\<lambda>next_task_index.
     res_bind (vec_get (round_schedule st) current_thread) (\<lambda>scheduled.
     res_bind (get_task st (current_thread, nat next_task_index)) (\<lambda>_.
     Inr (\<lparr>twm_task = (current_thread, nat next_task_index), twm_is_new = (scheduled \<noteq> next_task_index),
            twm_thread_id = current_thread\<rparr>,
          st\<lparr>round_schedule := (round_schedule st)[current_thread := next_task_index]\<rparr>)))))"

definition Pick_StartNextRound ::
    "('o, 'c, 'v, 'g) runtime_env \<Rightarrow> ('o, 'a, 'c, 'v, 'g, 'x) pick \<Rightarrow> ('o, 'a, 'c, 'v, 'g, 'x) pick res" where
  "Pick_StartNextRound E st =
     res_bind (TerminateTasks E (st\<lparr>new_task_id := 0\<rparr>)) (\<lambda>st.
     Inr (st\<lparr>threads := map (\<lambda>_. []) (threads st)\<rparr>))"

section \<open>Round robin\<close>

record ('o, 'a, 'c, 'v, 'g) round_robin_strategy = "('o, 'a, 'c, 'v, 'g) pick_strategy" +
  rr_next_task :: nat

type_synonym ('o, 'a, 'c, 'v, 'g) rr = "('o, 'a, 'c, 'v, 'g) round_robin_strategy"

text \<open>The loop over the attempts; the first argument counts the attempts that are left.\<close>

primrec rr_attempts ::
    "nat \<Rightarrow> (nat \<Rightarrow> ('o, 'a, 'c, 'v, 'g) rr \<Rightarrow> (bool \<times> ('o, 'a, 'c, 'v, 'g) rr) res)
      \<Rightarrow> ('o, 'a, 'c, 'v, 'g) rr \<Rightarrow> (nat \<times> ('o, 'a, 'c, 'v, 'g) rr) res" where
  "rr_attempts 0 skip st = Inl (Assert_Failed ''deadlock'')"
| "rr_attempts (Suc k) skip st =
     (let cur = rr_next_task st mod length (threads st);
          st = st\<lparr>rr_next_task := Suc (rr_next_task st)\<rparr> in
      res_bind (skip cur st) (\<lambda>(b, st). if b then rr_attempts k skip st else Inr (cur, st)))"

definition RR_Pick ::
    "('o, 'c, 'v, 'g) runtime_env \<Rightarrow> ('o, 'a, 'c, 'v, 'g) rr \<Rightarrow> (nat \<times> ('o, 'a, 'c, 'v, 'g) rr) res" where
  "RR_Pick E st = rr_attempts (length (threads st)) (waiting E) st"

definition RR_PickSchedule ::
    "('o, 'a, 'c, 'v, 'g) rr \<Rightarrow> (nat \<times> ('o, 'a, 'c, 'v, 'g) rr) res" where
  "RR_PickSchedule st =
     rr_attempts (length (threads st)) (\<lambda>t st. res_bind (schedule_waiting t st) (\<lambda>b. Inr (b, st))) st"

text \<open>
  The constructor: empty queues, a schedule before the first task of every thread, the target
  and the verifier in their initial states, a seeded generator.
\<close>

definition RR_New ::
    "nat \<Rightarrow> ('o, 'a, 'c) task_builder list \<Rightarrow> 'o world \<Rightarrow> 'v \<Rightarrow> 'g \<Rightarrow> ('o, 'a, 'c, 'v, 'g) rr" where
  "RR_New threads_count cs w v g =
     \<lparr>new_task_id = 0, removed_tasks = {}, round_schedule = replicate threads_count (- 1), sched_checker = v,
      st_world = w, threads = replicate threads_count [], constructors = cs, rng = g, rr_next_task = 0\<rparr>"

section \<open>Random\<close>

record ('o, 'a, 'c, 'v, 'g) random_strategy = "('o, 'a, 'c, 'v, 'g) pick_strategy" +
  weights :: "int list"

type_synonym ('o, 'a, 'c, 'v, 'g) rnd = "('o, 'a, 'c, 'v, 'g) random_strategy"

text \<open>First loop: the weights of the threads that can run. Second loop: the chosen one.\<close>

fun collect_weights ::
    "(nat \<Rightarrow> ('o, 'a, 'c, 'v, 'g) rnd \<Rightarrow> (bool \<times> ('o, 'a, 'c, 'v, 'g) rnd) res) \<Rightarrow> nat list
      \<Rightarrow> ('o, 'a, 'c, 'v, 'g) rnd \<Rightarrow> (int list \<times> ('o, 'a, 'c, 'v, 'g) rnd) res" where
  "collect_weights skip [] st = Inr ([], st)"
| "collect_weights skip (t # ts) st =
     res_bind (skip t st) (\<lambda>(b, st).
       if b then collect_weights skip ts st
       else res_bind (vec_get (weights st) t) (\<lambda>x.
            res_bind (collect_weights skip ts st) (\<lambda>(xs, st). Inr (x # xs, st))))"

fun nth_runnable ::
    "(nat \<Rightarrow> ('o, 'a, 'c, 'v, 'g) rnd \<Rightarrow> (bool \<times> ('o, 'a, 'c, 'v, 'g) rnd) res) \<Rightarrow> nat list \<Rightarrow> nat
      \<Rightarrow> ('o, 'a, 'c, 'v, 'g) rnd \<Rightarrow> (nat \<times> ('o, 'a, 'c, 'v, 'g) rnd) res" where
  "nth_runnable skip [] num st = Inl (Assert_Failed ''Cannot pick thread'')"
| "nth_runnable skip (t # ts) num st =
     res_bind (skip t st) (\<lambda>(b, st).
       if b then nth_runnable skip ts num st
       else if num = 0 then Inr (t, st) else nth_runnable skip ts (num - 1) st)"

definition random_pick ::
    "('o, 'c, 'v, 'g) runtime_env
      \<Rightarrow> (nat \<Rightarrow> ('o, 'a, 'c, 'v, 'g) rnd \<Rightarrow> (bool \<times> ('o, 'a, 'c, 'v, 'g) rnd) res)
      \<Rightarrow> ('o, 'a, 'c, 'v, 'g) rnd \<Rightarrow> (nat \<times> ('o, 'a, 'c, 'v, 'g) rnd) res" where
  "random_pick E skip st =
     res_bind (collect_weights skip [0..<length (threads st)] st) (\<lambda>(pick_weights, st).
     if pick_weights = [] then Inl (Assert_Failed ''deadlock'')
     else let (num, g) = rnd_discrete (env_random E) pick_weights (rng st) in
       nth_runnable skip [0..<length (threads st)] num (st\<lparr>rng := g\<rparr>))"

definition Random_Pick ::
    "('o, 'c, 'v, 'g) runtime_env \<Rightarrow> ('o, 'a, 'c, 'v, 'g) rnd \<Rightarrow> (nat \<times> ('o, 'a, 'c, 'v, 'g) rnd) res" where
  "Random_Pick E st = random_pick E (waiting E) st"

definition Random_PickSchedule ::
    "('o, 'c, 'v, 'g) runtime_env \<Rightarrow> ('o, 'a, 'c, 'v, 'g) rnd \<Rightarrow> (nat \<times> ('o, 'a, 'c, 'v, 'g) rnd) res" where
  "Random_PickSchedule E st =
     random_pick E (\<lambda>t st. res_bind (schedule_waiting t st) (\<lambda>b. Inr (b, st))) st"

definition Random_New ::
    "nat \<Rightarrow> ('o, 'a, 'c) task_builder list \<Rightarrow> int list \<Rightarrow> 'o world \<Rightarrow> 'v \<Rightarrow> 'g
      \<Rightarrow> ('o, 'a, 'c, 'v, 'g) rnd" where
  "Random_New threads_count cs ws w v g =
     \<lparr>new_task_id = 0, removed_tasks = {}, round_schedule = replicate threads_count (- 1), sched_checker = v,
      st_world = w, threads = replicate threads_count [], constructors = cs, rng = g, weights = ws\<rparr>"

section \<open>Choosing a thread\<close>

text \<open>
  The contract of \<open>Pick\<close> and \<open>PickSchedule\<close>: a thread that can run, nothing but futex states
  changed. It gives the contract of a strategy for the methods of \<open>PickStrategy\<close>.
\<close>

locale thread_picker =
  fixes E :: "('o, 'c, 'v, 'g) runtime_env"
    and Pick :: "('o, 'a, 'c, 'v, 'g, 'x) pick \<Rightarrow> (nat \<times> ('o, 'a, 'c, 'v, 'g, 'x) pick) res"
    and PickSchedule :: "('o, 'a, 'c, 'v, 'g, 'x) pick \<Rightarrow> (nat \<times> ('o, 'a, 'c, 'v, 'g, 'x) pick) res"
  assumes Pick_effect: "Pick st = Inr (t, st')
      \<Longrightarrow> t < length (threads st) \<and> \<not> waiting_now E st t \<and> only_futex st st'"
    and PickSchedule_effect: "PickSchedule st = Inr (t, st')
      \<Longrightarrow> t < length (threads st) \<and> schedule_waiting t st = Inr False \<and> only_futex st st'
        \<and> threads st' = threads st"

lemma shuffle_set:
  assumes "random_ok R" "shuffle R xs g = (ys, g')"
  shows "mset ys = mset xs" "set ys = set xs"
proof -
  obtain p where p: "rnd_shuffle R (length xs) g = (p, g')" "ys = map ((!) xs) p"
    using assms(2) by (auto simp: shuffle_def split: prod.splits)
  have "mset p = mset [0..<length xs]"
    using assms(1) p(1) unfolding random_ok_def by (metis fst_conv)
  then have "mset ys = image_mset ((!) xs) (mset [0..<length xs])" by (metis p(2) mset_map)
  also have "\<dots> = mset (map ((!) xs) [0..<length xs])" by (simp only: mset_map)
  finally show "mset ys = mset xs" by (simp only: map_nth)
  then show "set ys = set xs" by (rule mset_eq_setD)
qed

lemma first_verified_mem:
  "first_verified V t bs v = Inr (Some b, v') \<Longrightarrow> b \<in> set bs"
  by (induction bs arbitrary: v) (auto simp: res_bind_Inr_iff split: if_splits)

lemma Build_fresh:
  assumes "Build b w t i = (w', c)"
  shows "\<not> co_is_returned c" "co_fstate c = None" "co_id c = i" "co_name c = tb_name b"
    "co_ctx c = tb_func b (co_args c)"
  using assms by (auto simp: Build_def Coro_New_def SetToken_def Let_def split: prod.splits option.splits)

lemma Pick_Next_effect:
  assumes pick: "Pick st = Inr (t, st1)" "t < length (threads st)" "\<not> waiting_now E st t" "only_futex st st1"
    and rnd: "random_ok (env_random E)" and nx: "Pick_Next Pick E st = Inr (m, st')"
  shows "next_effect E st m st'"
proof -
  note th = only_futex_threads [OF pick(4)]
  have t1: "t < length (threads st1)" using th(1) pick(2) by simp
  have keep: "removed_tasks st1 = removed_tasks st" "round_schedule st1 = round_schedule st"
      "constructors st1 = constructors st" "new_task_id st1 = new_task_id st" "st_world st1 = st_world st"
      "sched_checker st1 = sched_checker st" "tasks_view st1 = tasks_view st"
    using pick(4) by (simp_all add: only_futex_def)
  have len: "length (threads st1 ! t) = length (threads st ! t)" by (rule th(3) [OF pick(2)])
  have ret: "co_is_returned (last (threads st1 ! t)) = co_is_returned (last (threads st ! t))"
    if "threads st ! t \<noteq> []"
    using only_futex_last(2) [OF pick(4,2) that] by (metis drop_futex_sel(1))
  show ?thesis
  proof (cases "threads st1 ! t = [] \<or> co_is_returned (last (threads st1 ! t))")
    case True
    obtain cs g where sh: "shuffle (env_random E) (constructors st1) (rng st1) = (cs, g)" by fastforce
    let ?s = "st1\<lparr>constructors := cs, rng := g\<rparr>"
    from nx pick(1) t1 True sh obtain verified v where
      fv: "first_verified (env_verifier E) t cs (sched_checker st1) = Inr (verified, v)"
      and rest: "(case verified of None \<Rightarrow> Inl (Assert_Failed ''Oops, possible deadlock or incorrect verifier'')
         | Some b \<Rightarrow> let (w, c) = Build b (st_world ?s) t (new_task_id ?s) in
             Inr (\<lparr>twm_task = (t, length (threads st1 ! t)), twm_is_new = True, twm_thread_id = t\<rparr>,
               ?s\<lparr>sched_checker := v, st_world := w, new_task_id := new_task_id ?s + 1,
                  threads := (threads ?s)[t := threads st1 ! t @ [c]]\<rparr>)) = Inr (m, st')"
      by (simp add: Pick_Next_def Let_def) (elim res_bind_Inr_E, auto)
    then obtain b where vb: "verified = Some b" by (cases verified) auto
    obtain w c where c: "Build b (st_world st1) t (new_task_id st1) = (w, c)" by fastforce
    from rest vb c have m: "m = \<lparr>twm_task = (t, length (threads st1 ! t)), twm_is_new = True, twm_thread_id = t\<rparr>"
      and s: "st' = st1\<lparr>constructors := cs, rng := g, sched_checker := v, st_world := w,
         new_task_id := new_task_id st1 + 1, threads := (threads st1)[t := threads st1 ! t @ [c]]\<rparr>"
      by auto
    have b: "b \<in> set (constructors st)"
      using first_verified_mem [OF fv [unfolded vb]] shuffle_set(2) [OF rnd sh] keep(3) by simp
    have "drop_futex c = c" using Build_fresh(2) [OF c] by (simp add: drop_futex_def)
    moreover have "map drop_futex (threads st1 ! t) = tasks_view st ! t"
      using th(2) [OF pick(2)] pick(2) by (simp add: tasks_view_def)
    ultimately have v: "tasks_view st' = (tasks_view st)[t := tasks_view st ! t @ [c]]"
      using keep(7) by (simp add: s tasks_view_def map_update)
    have l: "threads st ! t = [] \<or> co_is_returned (last (threads st ! t))" using True ret len by auto
    show ?thesis unfolding next_effect_def Let_def
      using m s keep pick(2,3) l len shuffle_set(2) [OF rnd sh] v b c Build_fresh [OF c]
      by (auto intro!: exI [of _ c] bexI [of _ b])
  next
    case False
    with nx pick(1) t1 have m: "m = \<lparr>twm_task = (t, length (threads st1 ! t) - 1), twm_is_new = False,
        twm_thread_id = t\<rparr>" "st' = st1"
      by (auto simp: Pick_Next_def)
    have ne: "threads st ! t \<noteq> []" using False len by auto
    then have "\<not> co_is_returned (last (threads st ! t))" using False ret by simp
    then show ?thesis unfolding next_effect_def Let_def
      using m keep pick(2,3) len ne by (simp add: last_conv_nth)
  qed
qed

lemma Pick_NextSchedule_effect:
  assumes pick: "PickSchedule st = Inr (t, st1)" "t < length (threads st)" "schedule_waiting t st = Inr False"
      "only_futex st st1" "threads st1 = threads st"
    and ok: "schedule_ok st" and nx: "Pick_NextSchedule PickSchedule st = Inr (m, st')"
  shows "next_schedule_effect st m st'"
proof -
  have keep: "removed_tasks st1 = removed_tasks st" "round_schedule st1 = round_schedule st"
      "constructors st1 = constructors st" "new_task_id st1 = new_task_id st" "st_world st1 = st_world st"
      "sched_checker st1 = sched_checker st"
    using pick(4) by (simp_all add: only_futex_def)
  from ok pick(2) have r: "t < length (round_schedule st)" "- 1 \<le> round_schedule st ! t"
      "round_schedule st ! t \<le> int (length (threads st ! t))" by (auto simp: schedule_ok_def)
  from GetNextTaskInThread_eq [OF pick(2) r] obtain k where
    k: "GetNextTaskInThread st t = Inr (int k)" "k \<le> length (threads st ! t)"
      "k < length (threads st ! t) \<Longrightarrow> \<not> co_is_returned (task_at st (t, k)) \<and> \<not> IsTaskRemoved st (co_id (task_at st (t, k)))"
    by blast
  have "k \<noteq> length (threads st ! t)" using pick(2,3) k(1) by (auto simp: schedule_waiting_def)
  with k(2) have lt: "k < length (threads st ! t)" by simp
  have g: "GetNextTaskInThread st1 t = Inr (int k)"
    using k(1) GetNextTaskInThread_cong [of st1 st t] pick(5) keep by simp
  from nx pick(1) g r(1) have "m = \<lparr>twm_task = (t, k), twm_is_new = (round_schedule st ! t \<noteq> int k), twm_thread_id = t\<rparr>"
      "st' = st1\<lparr>round_schedule := (round_schedule st)[t := int k]\<rparr>"
    by (auto simp: Pick_NextSchedule_def res_bind_Inr_iff keep)
  then show ?thesis unfolding next_schedule_effect_def Let_def
    using k lt keep pick(2,5) by (simp add: valid_slot_def)
qed

lemma Pick_NextSchedule_not_parked:
  assumes pick: "PickSchedule st = Inr (t, st1)" "schedule_waiting t st = Inr False"
      "only_futex st st1" "threads st1 = threads st"
    and nx: "Pick_NextSchedule PickSchedule st = Inr (m, st')"
  shows "\<not> IsParked (st_world st) (task_at st (twm_task m))"
proof -
  have g: "GetNextTaskInThread st1 t = GetNextTaskInThread st t"
    using pick(3,4) by (intro GetNextTaskInThread_cong) (simp_all add: only_futex_def)
  from nx pick(1) obtain k where k: "GetNextTaskInThread st t = Inr k" "twm_task m = (t, nat k)"
    by (auto simp: Pick_NextSchedule_def g elim!: res_bind_Inr_E)
  with pick(2) show ?thesis
    by (auto simp: schedule_waiting_def get_task_Inr_iff valid_slot_def split: if_splits elim!: res_bind_Inr_E)
qed

context thread_picker
begin

lemma NextSchedule_not_parked:
  assumes "Pick_NextSchedule PickSchedule st = Inr (m, st')"
  shows "\<not> IsParked (st_world st) (task_at st (twm_task m))"
proof -
  from assms obtain t st1 where p: "PickSchedule st = Inr (t, st1)"
    by (auto simp: Pick_NextSchedule_def elim!: res_bind_Inr_E)
  from PickSchedule_effect [OF p] show ?thesis
    by (intro Pick_NextSchedule_not_parked [of PickSchedule, OF p _ _ _ assms]) blast+
qed

end

sublocale thread_picker \<subseteq> scheduling_strategy E "Pick_Next Pick E" "Pick_NextSchedule PickSchedule"
    "random_ok (env_random E)"
proof
  fix st st' :: "('o, 'a, 'c, 'v, 'g, 'x) pick" and m
  assume rnd: "random_ok (env_random E)" and nx: "Pick_Next Pick E st = Inr (m, st')"
  from nx obtain t st1 where p: "Pick st = Inr (t, st1)"
    by (auto simp: Pick_Next_def elim!: res_bind_Inr_E)
  from Pick_effect [OF p] Pick_Next_effect [of Pick, OF p _ _ _ rnd nx]
  show "next_effect E st m st'" by blast
next
  fix st st' :: "('o, 'a, 'c, 'v, 'g, 'x) pick" and m
  assume rnd: "random_ok (env_random E)" and ok: "schedule_ok st"
    and nx: "Pick_NextSchedule PickSchedule st = Inr (m, st')"
  from nx obtain t st1 where p: "PickSchedule st = Inr (t, st1)"
    by (auto simp: Pick_NextSchedule_def elim!: res_bind_Inr_E)
  from PickSchedule_effect [OF p] Pick_NextSchedule_effect [of PickSchedule, OF p _ _ _ _ ok nx]
  show "next_schedule_effect st m st'" by blast
qed

section \<open>Round robin picks a thread that can run\<close>

lemma only_futex_rr [simp]: "only_futex (st\<lparr>rr_next_task := n\<rparr>) st' = only_futex st st'"
  by (simp add: only_futex_def tasks_view_def)

lemma only_futex_rr_right [simp]: "only_futex st (st'\<lparr>rr_next_task := n\<rparr>) = only_futex st st'"
  by (simp add: only_futex_def tasks_view_def)

lemma waiting_now_rr [simp]: "waiting_now E (st\<lparr>rr_next_task := n\<rparr>) t = waiting_now E st t"
  by (simp add: waiting_now_def)

lemma tested_rr [simp]: "tested E (st\<lparr>rr_next_task := n\<rparr>) st' = tested E st st'"
  by (simp add: tested_def)

lemma rr_attempts_waiting:
  assumes "rr_attempts k (waiting E) st = Inr (t, st')"
  shows "t < length (threads st) \<and> \<not> waiting_now E st t \<and> tested E st st'"
  using assms
proof (induction k arbitrary: st)
  case (Suc k)
  let ?cur = "rr_next_task st mod length (threads st)"
  from Suc.prems obtain b st1 where
    w: "waiting E ?cur (st\<lparr>rr_next_task := Suc (rr_next_task st)\<rparr>) = Inr (b, st1)"
    and r: "(if b then rr_attempts k (waiting E) st1 else Inr (?cur, st1)) = Inr (t, st')"
    by (auto simp: Let_def elim!: res_bind_Inr_E)
  have t: "tested E st st1" "b = waiting_now E st ?cur" "?cur < length (threads st)"
    using waiting_tested [OF w] by simp_all
  show ?case
  proof (cases b)
    case True
    with Suc.IH [of st1] r have i: "t < length (threads st1)" "\<not> waiting_now E st1 t" "tested E st1 st'" by auto
    have "length (threads st1) = length (threads st)"
      using t(1) only_futex_threads(1) by (auto simp: tested_def)
    with i t(1) tested_trans [OF t(1) i(3)] show ?thesis by (simp add: tested_def)
  next
    case False
    with r t show ?thesis by auto
  qed
qed simp

lemma rr_attempts_schedule:
  assumes "rr_attempts k (\<lambda>t st. res_bind (schedule_waiting t st) (\<lambda>b. Inr (b, st))) st = Inr (t, st')"
  shows "t < length (threads st) \<and> schedule_waiting t st = Inr False \<and> only_futex st st' \<and> threads st' = threads st"
  using assms
proof (induction k arbitrary: st)
  case (Suc k)
  let ?cur = "rr_next_task st mod length (threads st)"
  let ?st = "st\<lparr>rr_next_task := Suc (rr_next_task st)\<rparr>"
  have sw: "schedule_waiting u ?st = schedule_waiting u st" for u
    by (rule schedule_waiting_cong) simp_all
  from Suc.prems obtain b where w: "schedule_waiting ?cur st = Inr b"
    and r: "(if b then rr_attempts k (\<lambda>t st. res_bind (schedule_waiting t st) (\<lambda>b. Inr (b, st))) ?st
       else Inr (?cur, ?st)) = Inr (t, st')"
    by (auto simp: Let_def sw elim!: res_bind_Inr_E)
  have c: "?cur < length (threads st)"
    using w by (auto simp: schedule_waiting_def res_bind_Inr_iff vec_get_Inr_iff)
  show ?case
  proof (cases b)
    case True
    with Suc.IH [of ?st] r sw show ?thesis by simp
  next
    case False
    with r w c show ?thesis by auto
  qed
qed simp

interpretation round_robin: thread_picker E "RR_Pick E" RR_PickSchedule for E
proof
  show "t < length (threads st) \<and> \<not> waiting_now E st t \<and> only_futex st st'"
    if "RR_Pick E st = Inr (t, st')" for st t st'
    using rr_attempts_waiting [OF that [unfolded RR_Pick_def]] by (simp add: tested_def)
  show "t < length (threads st) \<and> schedule_waiting t st = Inr False \<and> only_futex st st' \<and> threads st' = threads st"
    if "RR_PickSchedule st = Inr (t, st')" for st t st'
    by (rule rr_attempts_schedule [OF that [unfolded RR_PickSchedule_def]])
qed

text \<open>
  The round robin is fair: from the counter on, it takes the first thread in cyclic order
  that can run, and reports a deadlock only after a full turn of waiting threads.
\<close>

definition turn :: "('o, 'a, 'c, 'v, 'g) rr \<Rightarrow> nat \<Rightarrow> nat" where
  "turn st j = (rr_next_task st + j) mod length (threads st)"

lemma rr_attempts_first:
  assumes "0 < length (threads st)"
  shows "if \<forall>j < k. waiting_now E st (turn st j) then rr_attempts k (waiting E) st = Inl (Assert_Failed ''deadlock'')
    else \<exists>j < k. \<exists>st'. rr_attempts k (waiting E) st = Inr (turn st j, st')
      \<and> rr_next_task st' = rr_next_task st + Suc j \<and> \<not> waiting_now E st (turn st j)
      \<and> (\<forall>i < j. waiting_now E st (turn st i))"
  using assms
proof (induction k arbitrary: st)
  case (Suc k)
  let ?n = "length (threads st)"
  let ?cur = "rr_next_task st mod ?n" and ?st = "st\<lparr>rr_next_task := Suc (rr_next_task st)\<rparr>"
  have cur: "?cur < length (threads ?st)" using Suc.prems by simp
  then obtain b st1 where w: "waiting E ?cur ?st = Inr (b, st1)" using waiting_total by blast
  note wt = waiting_tested [OF w]
  have b: "b = waiting_now E st (turn st 0)" using wt(2) by (simp add: turn_def)
  have of: "only_futex st st1" and ww: "\<And>u. u < ?n \<Longrightarrow> waiting_now E st1 u = waiting_now E st u"
    using wt(3) by (simp_all add: tested_def)
  have n1: "length (threads st1) = ?n" by (rule only_futex_threads(1) [OF of])
  have nt: "rr_next_task st1 = Suc (rr_next_task st)"
  proof -
    have "base_strategy.more st1 = base_strategy.more ?st" by (rule wt(4))
    then show ?thesis by (cases st; cases st1) simp
  qed
  have tn: "turn st1 j = turn st (Suc j)" for j by (simp add: turn_def nt n1)
  have "turn st j < ?n" for j using Suc.prems by (simp add: turn_def)
  then have sh: "waiting_now E st1 (turn st1 j) = waiting_now E st (turn st (Suc j))" for j
    using ww tn by simp
  have step: "rr_attempts (Suc k) (waiting E) st = (if b then rr_attempts k (waiting E) st1 else Inr (turn st 0, st1))"
    using w by (simp add: Let_def turn_def)
  show ?case
  proof (cases b)
    case False
    then have "\<not> waiting_now E st (turn st 0)" using b by simp
    then show ?thesis using step False nt by (auto intro!: exI [of _ 0])
  next
    case True
    have pos: "0 < length (threads st1)" using Suc.prems n1 by simp
    have 0: "waiting_now E st (turn st 0)" using True b by simp
    show ?thesis
    proof (cases "\<forall>j < k. waiting_now E st1 (turn st1 j)")
      case all: True
      with Suc.IH [OF pos] True step have "rr_attempts (Suc k) (waiting E) st = Inl (Assert_Failed ''deadlock'')"
        by simp
      moreover have "\<forall>j < Suc k. waiting_now E st (turn st j)"
        using all 0 by (auto simp: sh less_Suc_eq_0_disj)
      ultimately show ?thesis by simp
    next
      case some: False
      with Suc.IH [OF pos] obtain j st' where j: "j < k" "rr_attempts k (waiting E) st1 = Inr (turn st1 j, st')"
          "rr_next_task st' = rr_next_task st1 + Suc j" "\<not> waiting_now E st1 (turn st1 j)"
          "\<forall>i < j. waiting_now E st1 (turn st1 i)" by auto
      have "\<not> waiting_now E st (turn st (Suc j))" "\<forall>i < j. waiting_now E st (turn st (Suc i))"
        using j(4,5) unfolding sh by blast+
      with j(1-3) have "Suc j < Suc k \<and> rr_attempts (Suc k) (waiting E) st = Inr (turn st (Suc j), st')
          \<and> rr_next_task st' = rr_next_task st + Suc (Suc j) \<and> \<not> waiting_now E st (turn st (Suc j))
          \<and> (\<forall>i < Suc j. waiting_now E st (turn st i))"
        using step True 0 by (simp add: tn nt) (auto simp: less_Suc_eq_0_disj)
      then show ?thesis by auto
    qed
  qed
qed simp

section \<open>The random strategy picks a thread that can run\<close>

text \<open>
  Both loops, for a test that reports a fixed verdict \<open>P\<close> on the threads of \<open>D\<close> and keeps an
  invariant \<open>R\<close>.
\<close>

lemma nth_runnable_picks:
  assumes skip: "\<And>t s b s'. R s \<Longrightarrow> skip t s = Inr (b, s') \<Longrightarrow> R s' \<and> t \<in> D \<and> b = P t"
  shows "R s \<Longrightarrow> nth_runnable skip ts num s = Inr (t, s') \<Longrightarrow> R s' \<and> t \<in> D \<and> \<not> P t"
proof (induction ts arbitrary: num s)
  case (Cons u ts)
  from Cons.prems(2) obtain b s1 where b: "skip u s = Inr (b, s1)"
    and r: "(if b then nth_runnable skip ts num s1 else if num = 0 then Inr (u, s1)
       else nth_runnable skip ts (num - 1) s1) = Inr (t, s')"
    by (auto elim!: res_bind_Inr_E)
  from skip [OF Cons.prems(1) b] Cons.IH [of s1 num] Cons.IH [of s1 "num - 1"] r show ?case
    by (auto split: if_splits)
qed simp

lemma collect_weights_keeps:
  assumes skip: "\<And>t s b s'. R s \<Longrightarrow> skip t s = Inr (b, s') \<Longrightarrow> R s' \<and> t \<in> D \<and> b = P t"
  shows "R s \<Longrightarrow> collect_weights skip ts s = Inr (ws, s') \<Longrightarrow> R s' \<and> length ws = length (filter (\<lambda>t. \<not> P t) ts)"
proof (induction ts arbitrary: s ws)
  case (Cons u ts)
  from Cons.prems(2) obtain b s1 where b: "skip u s = Inr (b, s1)"
    and r: "(if b then collect_weights skip ts s1 else res_bind (vec_get (weights s1) u) (\<lambda>x.
            res_bind (collect_weights skip ts s1) (\<lambda>(xs, st). Inr (x # xs, st)))) = Inr (ws, s')"
    by (auto elim!: res_bind_Inr_E)
  from skip [OF Cons.prems(1) b] Cons.IH [of s1] r show ?case
    by (cases b) (auto elim!: res_bind_Inr_E)
qed simp

lemma random_pick_picks:
  assumes skip: "\<And>t s b s'. R s \<Longrightarrow> skip t s = Inr (b, s') \<Longrightarrow> R s' \<and> t \<in> D \<and> b = P t"
    and rng: "\<And>s g. R s \<Longrightarrow> R (s\<lparr>rng := g\<rparr>)"
    and "R s" "random_pick E skip s = Inr (t, s')"
  shows "R s' \<and> t \<in> D \<and> \<not> P t"
proof -
  from assms(4) obtain ws s1 where c: "collect_weights skip [0..<length (threads s)] s = Inr (ws, s1)"
    and n: "ws \<noteq> []" "(let (num, g) = rnd_discrete (env_random E) ws (rng s1) in
       nth_runnable skip [0..<length (threads s1)] num (s1\<lparr>rng := g\<rparr>)) = Inr (t, s')"
    by (auto simp: random_pick_def split: if_splits elim!: res_bind_Inr_E)
  obtain num g where d: "rnd_discrete (env_random E) ws (rng s1) = (num, g)" by fastforce
  have "R s1 \<and> length ws = length (filter (\<lambda>t. \<not> P t) [0..<length (threads s)])"
    by (rule collect_weights_keeps [of R skip, OF _ assms(3) c]) (rule skip)
  then have "R s1" ..
  then have "R (s1\<lparr>rng := g\<rparr>)" by (rule rng)
  moreover have "nth_runnable skip [0..<length (threads s1)] num (s1\<lparr>rng := g\<rparr>) = Inr (t, s')" using n(2) d by simp
  ultimately show ?thesis by (rule nth_runnable_picks [of R skip, rotated]) (rule skip)
qed

lemma only_futex_rng [simp]: "only_futex st (st'\<lparr>rng := g\<rparr>) = only_futex st st'"
  by (simp add: only_futex_def tasks_view_def)

lemma tested_rng [simp]: "tested E st (st'\<lparr>rng := g\<rparr>) = tested E st st'"
  by (simp add: tested_def waiting_now_def)

lemma Random_Pick_effect:
  assumes "Random_Pick E st = Inr (t, st')"
  shows "t < length (threads st) \<and> \<not> waiting_now E st t \<and> only_futex st st'"
proof -
  have "tested E st st' \<and> t \<in> {..<length (threads st)} \<and> \<not> waiting_now E st t"
    using assms unfolding Random_Pick_def
  proof (rule random_pick_picks [rotated 3])
    fix u b s s'
    assume s: "tested E st s" and w: "waiting E u s = Inr (b, s')"
    have "length (threads s) = length (threads st)" using s only_futex_threads(1) by (auto simp: tested_def)
    with waiting_tested [OF w] tested_trans [OF s] s
    show "tested E st s' \<and> u \<in> {..<length (threads st)} \<and> b = waiting_now E st u"
      by (auto simp: tested_def)
  qed simp_all
  then show ?thesis by (simp add: tested_def)
qed

lemma Random_PickSchedule_effect:
  assumes "Random_PickSchedule E st = Inr (t, st')"
  shows "t < length (threads st) \<and> schedule_waiting t st = Inr False \<and> only_futex st st' \<and> threads st' = threads st"
proof -
  let ?D = "{u. u < length (threads st) \<and> schedule_waiting u st \<in> range Inr}"
  have "(only_futex st st' \<and> threads st' = threads st) \<and> t \<in> ?D \<and> \<not> schedule_waiting t st = Inr True"
    using assms unfolding Random_PickSchedule_def
  proof (rule random_pick_picks [rotated 3])
    fix u b s s'
    assume s: "only_futex st s \<and> threads s = threads st"
      and w: "res_bind (schedule_waiting u s) (\<lambda>b. Inr (b, s)) = Inr (b, s')"
    have "schedule_waiting u s = schedule_waiting u st"
      using s by (intro schedule_waiting_cong) (simp_all add: only_futex_def)
    with w have e: "schedule_waiting u st = Inr b" "s' = s" by (auto elim!: res_bind_Inr_E)
    then have "u < length (threads st)" by (auto simp: schedule_waiting_def res_bind_Inr_iff vec_get_Inr_iff)
    with e s show "(only_futex st s' \<and> threads s' = threads st) \<and> u \<in> ?D \<and> b = (schedule_waiting u st = Inr True)"
      by auto
  qed simp_all
  then show ?thesis by auto
qed

interpretation random: thread_picker E "Random_Pick E" "Random_PickSchedule E" for E
  by unfold_locales (fact Random_Pick_effect Random_PickSchedule_effect)+

section \<open>Samples\<close>

definition sample_rr :: "(int, int, nat, unit, unit) rr" where
  "sample_rr = (RR_New 2 [sample_builder ''get'' 1, sample_builder ''get'' 0] sample_world () ())\<lparr>rr_next_task := 1\<rparr>"

definition sample_rnd :: "(int, int, nat, unit, unit) rnd" where
  "sample_rnd = Random_New 2 [sample_builder ''get'' 1, sample_builder ''get'' 0] [1, 1] sample_world () ()"

lemma sample_rr_eq:
  "sample_rr = \<lparr>new_task_id = 0, removed_tasks = {}, round_schedule = [- 1, - 1], sched_checker = (),
     st_world = sample_world, threads = [[], []],
     constructors = [sample_builder ''get'' 1, sample_builder ''get'' 0], rng = (), rr_next_task = 1\<rparr>"
  by (simp add: sample_rr_def RR_New_def numeral_2_eq_2)

lemma sample_rnd_eq:
  "sample_rnd = \<lparr>new_task_id = 0, removed_tasks = {}, round_schedule = [- 1, - 1], sched_checker = (),
     st_world = sample_world, threads = [[], []],
     constructors = [sample_builder ''get'' 1, sample_builder ''get'' 0], rng = (), weights = [1, 1]\<rparr>"
  by (simp add: sample_rnd_def Random_New_def numeral_2_eq_2)

lemmas sample_defs = sample_env_def sample_random_def DefaultStrategyVerifier_def sample_builder_def
  Build_def shuffle_def waiting_def vec_get_def Let_def

lemma sample_env_random: "random_ok (env_random sample_env)"
  using sample_random_ok by (simp add: sample_env_def)

lemma sample_rr_Next: "\<exists>m st'. Pick_Next (RR_Pick sample_env) sample_env sample_rr = Inr (m, st')"
  by (simp add: Pick_Next_def RR_Pick_def sample_rr_eq sample_defs eval_nat_numeral)

lemma sample_rnd_Next: "\<exists>m st'. Pick_Next (Random_Pick sample_env) sample_env sample_rnd = Inr (m, st')"
  by (simp add: Pick_Next_def Random_Pick_def random_pick_def sample_rnd_eq sample_defs upt_rec)

lemma turn_onto:
  assumes "t < length (threads st)"
  shows "\<exists>j < length (threads st). turn st j = t"
proof -
  define n where "n = length (threads st)"
  define m where "m = rr_next_task st mod n"
  have n: "t < n" "0 < n" using assms by (auto simp: n_def)
  have m: "m < n" using n(2) by (simp add: m_def)
  have "(rr_next_task st + (t + (n - m)) mod n) mod n = (m + (t + (n - m))) mod n"
    unfolding m_def by (metis mod_add_left_eq mod_add_right_eq)
  also have "m + (t + (n - m)) = t + n" using m by simp
  also have "(t + n) mod n = t" using n(1) by simp
  finally have "turn st ((t + (n - m)) mod n) = t" by (simp add: turn_def n_def)
  moreover have "(t + (n - m)) mod n < n" using n(2) by simp
  ultimately show ?thesis unfolding n_def by blast
qed

section \<open>Properties\<close>

text \<open>
  C29. The round robin is fair. With all threads waiting it reports a deadlock; otherwise it
  takes the first thread, in cyclic order from its counter, whose last task is neither parked
  nor blocked, and moves the counter past that thread.
\<close>

theorem RR_Pick_fair:
  assumes "0 < length (threads st)"
  shows "if \<forall>t < length (threads st). waiting_now E st t then RR_Pick E st = Inl (Assert_Failed ''deadlock'')
    else \<exists>j < length (threads st). \<exists>st'. RR_Pick E st = Inr ((rr_next_task st + j) mod length (threads st), st')
      \<and> rr_next_task st' = rr_next_task st + Suc j
      \<and> \<not> waiting_now E st ((rr_next_task st + j) mod length (threads st))
      \<and> (\<forall>i < j. waiting_now E st ((rr_next_task st + i) mod length (threads st)))"
proof -
  have "turn st j < length (threads st)" for j using assms by (simp add: turn_def)
  then have "(\<forall>j < length (threads st). waiting_now E st (turn st j)) \<longleftrightarrow> (\<forall>t < length (threads st). waiting_now E st t)"
    using turn_onto by metis
  with rr_attempts_first [OF assms, of "length (threads st)" E] show ?thesis
    unfolding RR_Pick_def turn_def [symmetric] by (simp only:)
qed

theorem RR_Pick_fair_witness:
  "\<exists>j < 2. \<exists>st'. RR_Pick sample_env sample_rr = Inr ((1 + j) mod 2, st')"
proof -
  have n: "length (threads sample_rr) = 2" "rr_next_task sample_rr = 1" by (simp_all add: sample_rr_eq)
  have "\<not> waiting_now sample_env sample_rr 0" by (simp add: sample_rr_eq waiting_now_def)
  then have nw: "\<not> (\<forall>t < length (threads sample_rr). waiting_now sample_env sample_rr t)"
    using n by (metis zero_less_numeral)
  have "0 < length (threads sample_rr)" using n(1) by simp
  from RR_Pick_fair [OF this, of sample_env, unfolded if_not_P [OF nw]] obtain j st' where
    "j < 2" "RR_Pick sample_env sample_rr = Inr ((rr_next_task sample_rr + j) mod 2, st')"
    unfolding n(1) by blast
  then show ?thesis unfolding n(2) by blast
qed

text \<open>
  C30. Neither strategy ever hands out a task that has returned, is parked or is blocked, and
  both create a task in a thread only when the last task of the thread has returned, with the
  next task id and the name of one of the target methods; nothing else of the round changes.
\<close>

theorem Pick_strategies_Next:
  assumes "random_ok (env_random E)"
  shows "(Pick_Next (RR_Pick E) E st = Inr (m, st') \<longrightarrow> next_effect E st m st'
        \<and> valid_slot st' (twm_task m) \<and> \<not> co_is_returned (task_at st' (twm_task m)))
    \<and> (Pick_Next (Random_Pick E) E sr = Inr (m, sr') \<longrightarrow> next_effect E sr m sr'
        \<and> valid_slot sr' (twm_task m) \<and> \<not> co_is_returned (task_at sr' (twm_task m)))"
  using round_robin.Next_effect [OF assms] round_robin.Next_task [OF assms]
    random.Next_effect [OF assms] random.Next_task [OF assms] by blast

theorem Pick_strategies_Next_witness:
  "\<exists>m st'. Pick_Next (RR_Pick sample_env) sample_env sample_rr = Inr (m, st')
    \<and> \<not> co_is_returned (task_at st' (twm_task m))"
  using Pick_strategies_Next [OF sample_env_random, of sample_rr] sample_rr_Next by blast

text \<open>
  When a round is replayed, both strategies only hand out tasks that are not removed, have
  not returned and are not parked, in the order of their thread, and say \<open>is_new\<close> exactly when
  the schedule of the thread moves to the task.
\<close>

theorem Pick_strategies_NextSchedule:
  fixes E :: "('o, 'c, 'v, 'g) runtime_env" and st st' :: "('o, 'a, 'c, 'v, 'g) rr"
    and sr sr' :: "('o, 'a, 'c, 'v, 'g) rnd"
  assumes "random_ok (env_random E)" "schedule_ok st" "schedule_ok sr"
  shows "(Pick_NextSchedule RR_PickSchedule st = Inr (m, st') \<longrightarrow> next_schedule_effect st m st'
        \<and> \<not> IsParked (st_world st) (task_at st (twm_task m)))
    \<and> (Pick_NextSchedule (Random_PickSchedule E) sr = Inr (m, sr') \<longrightarrow> next_schedule_effect sr m sr'
        \<and> \<not> IsParked (st_world sr) (task_at sr (twm_task m)))"
  using round_robin.NextSchedule_effect [OF assms(1,2)] random.NextSchedule_effect [OF assms(1,3)]
    round_robin.NextSchedule_not_parked [of st] random.NextSchedule_not_parked [of E sr] by blast

definition replay_rr :: "(int, int, nat, unit, unit) rr" where
  "replay_rr = sample_rr\<lparr>threads := [[sample_task 0 1], [sample_task 1 0, sample_task 2 2]], removed_tasks := {1}\<rparr>"

lemma replay_rr_step:
  "Pick_NextSchedule RR_PickSchedule replay_rr = Inr (\<lparr>twm_task = (1, 1), twm_is_new = True, twm_thread_id = 1\<rparr>,
     replay_rr\<lparr>rr_next_task := 2, round_schedule := [- 1, 1]\<rparr>)"
  by (simp add: Pick_NextSchedule_def RR_PickSchedule_def replay_rr_def sample_rr_eq schedule_waiting_def
      GetNextTaskInThread_def IsTaskRemoved_def get_task_def vec_get_def Let_def eval_nat_numeral
      IsParked_def sample_task_def Coro_New_def)

theorem Pick_strategies_NextSchedule_witness:
  "next_schedule_effect replay_rr \<lparr>twm_task = (1, 1), twm_is_new = True, twm_thread_id = 1\<rparr>
     (replay_rr\<lparr>rr_next_task := 2, round_schedule := [- 1, 1]\<rparr>)"
proof -
  have "schedule_ok replay_rr" "schedule_ok sample_rnd"
    by (auto simp: schedule_ok_def replay_rr_def sample_rr_eq sample_rnd_eq less_Suc_eq)
  from Pick_strategies_NextSchedule [OF sample_env_random this] replay_rr_step show ?thesis by blast
qed

end
