(* ===== verification/Pct_Strategy.thy ===== *)
theory Pct_Strategy
  imports Pick_Strategies
begin

text \<open>
  Model of \<open>runtime/include/pct_strategy.h\<close>: the strategy of probabilistic concurrency testing.
  The thread with the greatest priority runs; at random steps the priority of the running
  thread is lowered. The unbounded retry loop of \<open>forbid_all_same\<close> runs on \<open>env_fuel\<close>.
\<close>

section \<open>State\<close>

record ('o, 'a, 'c, 'v, 'g) pct_strategy = "('o, 'a, 'c, 'v) base_strategy" +
  k_statistics :: "nat list"
  threads_count :: nat
  current_depth :: nat
  current_schedule_length :: nat
  priorities :: "nat list"
  priority_change_points :: "nat list"
  forbid_all_same :: bool
  pct_rng :: 'g

type_synonym ('o, 'a, 'c, 'v, 'g) pct = "('o, 'a, 'c, 'v, 'g) pct_strategy"

section \<open>Priorities\<close>

primrec draw_points :: "'g random_source \<Rightarrow> nat \<Rightarrow> nat \<Rightarrow> 'g \<Rightarrow> nat list \<times> 'g" where
  "draw_points R k 0 g = ([], g)"
| "draw_points R k (Suc n) g =
     (let (p, g) = rnd_uniform R 1 k g; (ps, g) = draw_points R k n g in (p # ps, g))"

definition PrepareForDepth ::
    "('o, 'c, 'v, 'g) runtime_env \<Rightarrow> nat \<Rightarrow> nat \<Rightarrow> ('o, 'a, 'c, 'v, 'g) pct \<Rightarrow> ('o, 'a, 'c, 'v, 'g) pct" where
  "PrepareForDepth E depth k st =
     (let (ps, g) = shuffle (env_random E) (map (\<lambda>i. current_depth st + i) [0..<threads_count st]) (pct_rng st);
          (cps, g) = draw_points (env_random E) k (depth - 1) g
      in st\<lparr>priorities := ps, priority_change_points := cps, pct_rng := g\<rparr>)"

definition UpdateStatistics ::
    "('o, 'c, 'v, 'g) runtime_env \<Rightarrow> ('o, 'a, 'c, 'v, 'g) pct \<Rightarrow> ('o, 'a, 'c, 'v, 'g) pct" where
  "UpdateStatistics E st =
     (let depth = (if current_depth st + 1 \<ge> 50 then 50 else current_depth st + 1);
          ks = k_statistics st @ [current_schedule_length st];
          new_k = sum_list ks div length ks
      in PrepareForDepth E depth new_k
           (st\<lparr>current_depth := depth, k_statistics := ks, current_schedule_length := 0\<rparr>))"

definition Pct_New ::
    "('o, 'c, 'v, 'g) runtime_env \<Rightarrow> nat \<Rightarrow> ('o, 'a, 'c) task_builder list \<Rightarrow> bool \<Rightarrow> 'o world \<Rightarrow> 'v \<Rightarrow> 'g
      \<Rightarrow> ('o, 'a, 'c, 'v, 'g) pct res" where
  "Pct_New E n cs forbid w v g =
     (if cs = [] then Inl Div_By_Zero
      else Inr (PrepareForDepth E 1 0
        \<lparr>new_task_id = 0, removed_tasks = {}, round_schedule = replicate n (- 1), sched_checker = v,
         st_world = w, threads = replicate n [], constructors = cs, k_statistics = [], threads_count = n,
         current_depth = 1, current_schedule_length = 0, priorities = [], priority_change_points = [],
         forbid_all_same = forbid, pct_rng = g\<rparr>))"

text \<open>The scan for the greatest priority; the later of two threads with equal priority wins.\<close>

fun pct_scan ::
    "(nat \<Rightarrow> ('o, 'a, 'c, 'v, 'g) pct \<Rightarrow> (bool \<times> ('o, 'a, 'c, 'v, 'g) pct) res) \<Rightarrow> nat list \<Rightarrow> nat \<Rightarrow> nat
      \<Rightarrow> ('o, 'a, 'c, 'v, 'g) pct \<Rightarrow> (nat \<times> nat \<times> ('o, 'a, 'c, 'v, 'g) pct) res" where
  "pct_scan skip [] mx index_of_max st = Inr (mx, index_of_max, st)"
| "pct_scan skip (t # ts) mx index_of_max st =
     res_bind (skip t st) (\<lambda>(b, st).
       if b then pct_scan skip ts mx index_of_max st
       else res_bind (vec_get (priorities st) t) (\<lambda>p.
         if mx \<le> p then pct_scan skip ts p t st else pct_scan skip ts mx index_of_max st))"

text \<open>The step counter and the priority change it may trigger.\<close>

fun change_priorities :: "nat list \<Rightarrow> nat \<Rightarrow> nat \<Rightarrow> nat \<Rightarrow> nat \<Rightarrow> nat list \<Rightarrow> nat list" where
  "change_priorities [] i len depth t ps = ps"
| "change_priorities (cp # cps) i len depth t ps =
     change_priorities cps (Suc i) len depth t (if len = cp then ps[t := depth - i] else ps)"

definition pct_step :: "nat \<Rightarrow> ('o, 'a, 'c, 'v, 'g) pct \<Rightarrow> ('o, 'a, 'c, 'v, 'g) pct" where
  "pct_step t st =
     (let len = Suc (current_schedule_length st) in
      st\<lparr>current_schedule_length := len,
         priorities := change_priorities (priority_change_points st) 0 len (current_depth st) t (priorities st)\<rparr>)"

section \<open>Next\<close>

definition CountNames :: "nat \<Rightarrow> ('a, 'c) coro list list \<Rightarrow> string list" where
  "CountNames except_thread ths =
     remdups (map (\<lambda>(i, thread). co_name (last thread))
       (filter (\<lambda>(i, thread). \<not> (thread = [] \<or> i = except_thread)) (enumerate 0 ths)))"

definition draw_constructor ::
    "('o, 'c, 'v, 'g) runtime_env \<Rightarrow> ('o, 'a, 'c) task_builder list \<Rightarrow> 'g \<Rightarrow> (('o, 'a, 'c) task_builder \<times> 'g) res" where
  "draw_constructor E cs g =
     (let (i, g) = rnd_uniform (env_random E) 0 (length cs - 1) g in
      res_bind (vec_get cs i) (\<lambda>b. Inr (b, g)))"

text \<open>
  The retry loop. The set of names is kept between the attempts, so that a name once refused
  by the verifier counts as one that is running.
\<close>

primrec pct_choose ::
    "nat \<Rightarrow> ('o, 'c, 'v, 'g) runtime_env \<Rightarrow> ('o, 'a, 'c) task_builder list \<Rightarrow> nat \<Rightarrow> string list
      \<Rightarrow> ('o, 'a, 'c) task_builder \<Rightarrow> 'v \<Rightarrow> 'g \<Rightarrow> (('o, 'a, 'c) task_builder \<times> 'v \<times> 'g) res" where
  "pct_choose 0 E cs t names b v g = Inl Out_Of_Fuel"
| "pct_choose (Suc fuel) E cs t names b v g =
     (let names = List.insert (tb_name b) names in
      if length names = 1 then
        res_bind (draw_constructor E cs g) (\<lambda>(b, g). pct_choose fuel E cs t names b v g)
      else res_bind (Verify (env_verifier E) \<lparr>ct_name = tb_name b, ct_is_new = True, ct_thread_id = t\<rparr> v)
        (\<lambda>(accepted, v).
          if accepted then Inr (b, v, g)
          else res_bind (draw_constructor E cs g) (\<lambda>(b, g). pct_choose fuel E cs t names b v g)))"

text \<open>The chosen thread: its last task, or a new one when that has returned.\<close>

definition pct_take ::
    "('o, 'c, 'v, 'g) runtime_env \<Rightarrow> nat \<Rightarrow> ('o, 'a, 'c, 'v, 'g) pct
      \<Rightarrow> (task_with_meta_data \<times> ('o, 'a, 'c, 'v, 'g) pct) res" where
  "pct_take E t st =
     res_bind (vec_get (threads st) t) (\<lambda>thread.
     if thread = [] \<or> co_is_returned (last thread) then
       res_bind (draw_constructor E (constructors st) (pct_rng st)) (\<lambda>(b, g).
       res_bind (if forbid_all_same st
           then pct_choose (env_fuel E) E (constructors st) t (CountNames t (threads st)) b (sched_checker st) g
           else Inr (b, sched_checker st, g)) (\<lambda>(b, v, g).
         let (w, c) = Build b (st_world st) t (new_task_id st) in
         Inr (\<lparr>twm_task = (t, length thread), twm_is_new = True, twm_thread_id = t\<rparr>,
              st\<lparr>sched_checker := v, st_world := w, new_task_id := new_task_id st + 1,
                 threads := (threads st)[t := thread @ [c]], pct_rng := g\<rparr>)))
     else Inr (\<lparr>twm_task = (t, length thread - 1), twm_is_new = False, twm_thread_id = t\<rparr>, st))"

definition Pct_Next ::
    "('o, 'c, 'v, 'g) runtime_env \<Rightarrow> ('o, 'a, 'c, 'v, 'g) pct
      \<Rightarrow> (task_with_meta_data \<times> ('o, 'a, 'c, 'v, 'g) pct) res" where
  "Pct_Next E st =
     res_bind (pct_scan (waiting E) [0..<length (threads st)] 0 0 st) (\<lambda>(mx, t, st).
     res_bind (cxx_assert ''all threads are empty or parked'' (mx \<noteq> 0)) (\<lambda>_.
     pct_take E t (pct_step t st)))"

definition Pct_NextSchedule ::
    "('o, 'a, 'c, 'v, 'g) pct \<Rightarrow> (task_with_meta_data \<times> ('o, 'a, 'c, 'v, 'g) pct) res" where
  "Pct_NextSchedule st =
     res_bind (pct_scan (\<lambda>t st. res_bind (schedule_waiting t st) (\<lambda>b. Inr (b, st)))
       [0..<length (threads st)] 0 0 st) (\<lambda>(mx, t, st).
     let st = pct_step t st in
     res_bind (GetNextTaskInThread st t) (\<lambda>next_task_index.
     res_bind (vec_get (round_schedule st) t) (\<lambda>scheduled.
     res_bind (get_task st (t, nat next_task_index)) (\<lambda>_.
     Inr (\<lparr>twm_task = (t, nat next_task_index), twm_is_new = (scheduled \<noteq> next_task_index), twm_thread_id = t\<rparr>,
          st\<lparr>round_schedule := (round_schedule st)[t := next_task_index]\<rparr>)))))"

section \<open>Rounds\<close>

definition Pct_StartNextRound ::
    "('o, 'c, 'v, 'g) runtime_env \<Rightarrow> ('o, 'a, 'c, 'v, 'g) pct \<Rightarrow> ('o, 'a, 'c, 'v, 'g) pct res" where
  "Pct_StartNextRound E st =
     res_bind (TerminateTasks E (st\<lparr>new_task_id := 0\<rparr>)) (\<lambda>st.
     Inr (UpdateStatistics E (st\<lparr>threads := map (\<lambda>_. []) (threads st)\<rparr>)))"

definition Pct_ResetCurrentRound ::
    "('o, 'c, 'v, 'g) runtime_env \<Rightarrow> ('o, 'a, 'c, 'v, 'g) pct \<Rightarrow> ('o, 'a, 'c, 'v, 'g) pct res" where
  "Pct_ResetCurrentRound E st =
     res_bind (ResetCurrentRound E st) (\<lambda>st. Inr (UpdateStatistics E st))"

section \<open>The scan\<close>

lemma pct_scan_spec:
  assumes skip: "\<And>t s b s'. R s \<Longrightarrow> skip t s = Inr (b, s') \<Longrightarrow> R s' \<and> b = P t"
    and pr: "\<And>s. R s \<Longrightarrow> priorities s = ps"
  shows "R s \<Longrightarrow> pct_scan skip ts mx i s = Inr (mx', i', s') \<Longrightarrow> R s' \<and> mx \<le> mx'
    \<and> (mx' = mx \<and> i' = i \<or> i' \<in> set ts \<and> \<not> P i' \<and> i' < length ps \<and> mx' = ps ! i')
    \<and> (\<forall>u \<in> set ts. \<not> P u \<longrightarrow> ps ! u \<le> mx')"
proof (induction ts arbitrary: mx i s)
  case (Cons t ts)
  from Cons.prems(2) obtain b s1 where b: "skip t s = Inr (b, s1)"
    and r: "(if b then pct_scan skip ts mx i s1 else res_bind (vec_get (priorities s1) t) (\<lambda>p.
         if mx \<le> p then pct_scan skip ts p t s1 else pct_scan skip ts mx i s1)) = Inr (mx', i', s')"
    by (auto elim!: res_bind_Inr_E)
  have s1: "R s1" "b = P t" using skip [OF Cons.prems(1) b] by blast+
  show ?case
  proof (cases b)
    case True
    with r Cons.IH [OF s1(1), of mx i] s1 show ?thesis by auto
  next
    case False
    from r False pr [OF s1(1)] have t: "t < length ps"
      and r2: "(if mx \<le> ps ! t then pct_scan skip ts (ps ! t) t s1 else pct_scan skip ts mx i s1) = Inr (mx', i', s')"
      by (auto simp: res_bind_Inr_iff vec_get_Inr_iff)
    show ?thesis
    proof (cases "mx \<le> ps ! t")
      case True
      with r2 Cons.IH [OF s1(1), of "ps ! t" t] t False s1(2) show ?thesis by auto
    next
      case lt: False
      with r2 Cons.IH [OF s1(1), of mx i] show ?thesis by auto
    qed
  qed
qed simp

lemma pct_scan_waiting:
  assumes "pct_scan (waiting E) [0..<length (threads st)] 0 0 st = Inr (mx, t, st1)"
  shows "tested E st st1" "base_strategy.more st1 = base_strategy.more st"
    "mx \<noteq> 0 \<Longrightarrow> t < length (threads st) \<and> \<not> waiting_now E st t \<and> mx = priorities st ! t"
    "\<lbrakk>u < length (threads st); \<not> waiting_now E st u\<rbrakk> \<Longrightarrow> priorities st ! u \<le> mx"
proof -
  let ?R = "\<lambda>s. tested E st s \<and> base_strategy.more s = base_strategy.more st"
  have "?R st1 \<and> 0 \<le> mx \<and> (mx = 0 \<and> t = 0 \<or> t \<in> set [0..<length (threads st)] \<and> \<not> waiting_now E st t
      \<and> t < length (priorities st) \<and> mx = priorities st ! t)
    \<and> (\<forall>u \<in> set [0..<length (threads st)]. \<not> waiting_now E st u \<longrightarrow> priorities st ! u \<le> mx)"
  proof (rule pct_scan_spec [of ?R "waiting E", OF _ _ _ assms])
    fix u s b s'
    assume s: "?R s" and w: "waiting E u s = Inr (b, s')"
    have "length (threads s) = length (threads st)" using s only_futex_threads(1) by (auto simp: tested_def)
    with waiting_tested [OF w] s tested_trans [of E st s s'] show "?R s' \<and> b = waiting_now E st u"
      by (auto simp: tested_def)
  next
    fix s assume "?R s"
    then show "priorities s = priorities st" by (cases s; cases st) simp
  qed simp
  then show "tested E st st1" "base_strategy.more st1 = base_strategy.more st"
    "mx \<noteq> 0 \<Longrightarrow> t < length (threads st) \<and> \<not> waiting_now E st t \<and> mx = priorities st ! t"
    "\<lbrakk>u < length (threads st); \<not> waiting_now E st u\<rbrakk> \<Longrightarrow> priorities st ! u \<le> mx"
    by auto
qed

lemma pct_scan_schedule:
  assumes "pct_scan (\<lambda>t st. res_bind (schedule_waiting t st) (\<lambda>b. Inr (b, st))) ts 0 0 st = Inr (mx, t, st1)"
  shows "st1 = st"
proof -
  have "st1 = st \<and> 0 \<le> mx \<and> (mx = 0 \<and> t = 0 \<or> t \<in> set ts \<and> \<not> schedule_waiting t st = Inr True
      \<and> t < length (priorities st) \<and> mx = priorities st ! t)
    \<and> (\<forall>u \<in> set ts. \<not> schedule_waiting u st = Inr True \<longrightarrow> priorities st ! u \<le> mx)"
    by (rule pct_scan_spec [of "\<lambda>s. s = st", OF _ _ _ assms]) (auto elim!: res_bind_Inr_E)
  then show ?thesis ..
qed

section \<open>The contract\<close>

lemma only_futex_pct_step [simp]: "only_futex st (pct_step t st') = only_futex st st'"
  by (simp add: only_futex_def tasks_view_def pct_step_def Let_def)

lemma pct_step_frame [simp]:
  "threads (pct_step t st) = threads st" "constructors (pct_step t st) = constructors st"
  "st_world (pct_step t st) = st_world st" "new_task_id (pct_step t st) = new_task_id st"
  "removed_tasks (pct_step t st) = removed_tasks st" "round_schedule (pct_step t st) = round_schedule st"
  "sched_checker (pct_step t st) = sched_checker st" "forbid_all_same (pct_step t st) = forbid_all_same st"
  by (simp_all add: pct_step_def Let_def)

lemma draw_constructor_mem: "draw_constructor E cs g = Inr (b, g') \<Longrightarrow> b \<in> set cs"
  by (auto simp: draw_constructor_def res_bind_Inr_iff vec_get_Inr_iff split: prod.splits)

lemma pct_choose_mem:
  "pct_choose fuel E cs t names b v g = Inr (b', v', g') \<Longrightarrow> b \<in> set cs \<Longrightarrow> b' \<in> set cs"
proof (induction fuel arbitrary: names b v g)
  case (Suc fuel)
  let ?names = "List.insert (tb_name b) names"
  have IH: "b' \<in> set cs" if "draw_constructor E cs g = Inr (b1, g1)"
      "pct_choose fuel E cs t ?names b1 v1 g1 = Inr (b', v', g')" for b1 g1 v1
    using Suc.IH [OF that(2) draw_constructor_mem [OF that(1)]] .
  from Suc.prems show ?case
    by (auto simp: Let_def split: if_splits elim!: res_bind_Inr_E intro: IH)
qed simp

lemma Pct_Next_effect:
  assumes nx: "Pct_Next E st = Inr (m, st')"
  shows "next_effect E st m st'"
    "\<forall>u < length (threads st). \<not> waiting_now E st u \<longrightarrow> priorities st ! u \<le> priorities st ! twm_thread_id m"
proof -
  from nx obtain mx t st0 where sc: "pct_scan (waiting E) [0..<length (threads st)] 0 0 st = Inr (mx, t, st0)"
    and mx: "mx \<noteq> 0" and tk: "pct_take E t (pct_step t st0) = Inr (m, st')"
    by (auto simp: Pct_Next_def cxx_assert_Inr_iff elim!: res_bind_Inr_E)
  note scan = pct_scan_waiting [OF sc]
  define st1 where "st1 = pct_step t st0"
  have of: "only_futex st st1" using scan(1) by (simp add: st1_def tested_def)
  have t: "t < length (threads st)" "\<not> waiting_now E st t" "mx = priorities st ! t" using scan(3) [OF mx] by auto
  note th = only_futex_threads [OF of]
  have t1: "t < length (threads st1)" using th(1) t(1) by simp
  have keep: "removed_tasks st1 = removed_tasks st" "round_schedule st1 = round_schedule st"
      "constructors st1 = constructors st" "new_task_id st1 = new_task_id st" "st_world st1 = st_world st"
      "sched_checker st1 = sched_checker st" "tasks_view st1 = tasks_view st"
    using of by (simp_all add: only_futex_def)
  have len: "length (threads st1 ! t) = length (threads st ! t)" by (rule th(3) [OF t(1)])
  have ret: "co_is_returned (last (threads st1 ! t)) = co_is_returned (last (threads st ! t))"
    if "threads st ! t \<noteq> []"
    using only_futex_last(2) [OF of t(1) that] by (metis drop_futex_sel(1))
  have "next_effect E st m st' \<and> twm_thread_id m = t"
  proof (cases "threads st1 ! t = [] \<or> co_is_returned (last (threads st1 ! t))")
    case True
    let ?rest = "\<lambda>(b, v, g). let (w, c) = Build b (st_world st1) t (new_task_id st1) in
         Inr (\<lparr>twm_task = (t, length (threads st1 ! t)), twm_is_new = True, twm_thread_id = t\<rparr>,
              st1\<lparr>sched_checker := v, st_world := w, new_task_id := new_task_id st1 + 1,
                 threads := (threads st1)[t := threads st1 ! t @ [c]], pct_rng := g\<rparr>)"
    let ?choose = "\<lambda>b g. if forbid_all_same st1
         then pct_choose (env_fuel E) E (constructors st1) t (CountNames t (threads st1)) b (sched_checker st1) g
         else Inr (b, sched_checker st1, g)"
    have "res_bind (draw_constructor E (constructors st1) (pct_rng st1)) (\<lambda>(b, g). res_bind (?choose b g) ?rest)
        = Inr (m, st')"
      using tk t1 True unfolding st1_def [symmetric] pct_take_def by simp
    then obtain b0 g0 where d: "draw_constructor E (constructors st1) (pct_rng st1) = Inr (b0, g0)"
      and r: "res_bind (?choose b0 g0) ?rest = Inr (m, st')" by (elim res_bind_Inr_E) (auto simp only: split_beta prod.collapse fst_conv snd_conv)
    obtain y where y: "?choose b0 g0 = Inr y" "?rest y = (Inr (m, st') :: _ res)"
      by (rule res_bind_Inr_E [OF r], rule that)
    obtain b v g where bvg: "y = (b, v, g)" by (cases y) auto
    note ch = y(1) [unfolded bvg]
    note rest = y(2) [unfolded bvg, unfolded prod.case]
    have b: "b \<in> set (constructors st)"
      using draw_constructor_mem [OF d] pct_choose_mem ch keep(3) by (auto split: if_splits)
    obtain w c where c: "Build b (st_world st1) t (new_task_id st1) = (w, c)" by fastforce
    from rest c have m: "m = \<lparr>twm_task = (t, length (threads st1 ! t)), twm_is_new = True, twm_thread_id = t\<rparr>"
      and s: "st' = st1\<lparr>sched_checker := v, st_world := w, new_task_id := new_task_id st1 + 1,
                 threads := (threads st1)[t := threads st1 ! t @ [c]], pct_rng := g\<rparr>" by auto
    have "drop_futex c = c" using Build_fresh(2) [OF c] by (simp add: drop_futex_def)
    moreover have "map drop_futex (threads st1 ! t) = tasks_view st ! t"
      using th(2) [OF t(1)] t(1) by (simp add: tasks_view_def)
    ultimately have v: "tasks_view st' = (tasks_view st)[t := tasks_view st ! t @ [c]]"
      using keep(7) by (simp add: s tasks_view_def map_update)
    have l: "threads st ! t = [] \<or> co_is_returned (last (threads st ! t))" using True ret len by auto
    show ?thesis unfolding next_effect_def Let_def
      using m s keep t(1,2) l len v b c Build_fresh [OF c] by (auto intro!: exI [of _ c] bexI [of _ b])
  next
    case False
    with tk t1 have m: "m = \<lparr>twm_task = (t, length (threads st1 ! t) - 1), twm_is_new = False,
        twm_thread_id = t\<rparr>" "st' = st1"
      unfolding st1_def [symmetric] by (auto simp: pct_take_def)
    have ne: "threads st ! t \<noteq> []" using False len by auto
    then have "\<not> co_is_returned (last (threads st ! t))" using False ret by simp
    then show ?thesis unfolding next_effect_def Let_def
      using m keep t(1,2) len ne by (simp add: last_conv_nth)
  qed
  then show "next_effect E st m st'"
    "\<forall>u < length (threads st). \<not> waiting_now E st u \<longrightarrow> priorities st ! u \<le> priorities st ! twm_thread_id m"
    using scan(4) t(3) by auto
qed

lemma Pct_NextSchedule_effect:
  assumes ok: "schedule_ok st" and nx: "Pct_NextSchedule st = Inr (m, st')"
  shows "next_schedule_effect st m st'"
proof -
  from nx obtain mx t st0 where
    sc: "pct_scan (\<lambda>t st. res_bind (schedule_waiting t st) (\<lambda>b. Inr (b, st))) [0..<length (threads st)] 0 0 st
      = Inr (mx, t, st0)"
    by (auto simp: Pct_NextSchedule_def elim!: res_bind_Inr_E)
  have st0: "st0 = st" by (rule pct_scan_schedule [OF sc])
  let ?st = "pct_step t st"
  have g: "GetNextTaskInThread ?st t = GetNextTaskInThread st t" by (rule GetNextTaskInThread_cong) simp_all
  from nx sc st0 obtain k where k: "GetNextTaskInThread st t = Inr k" "t < length (round_schedule st)"
      "valid_slot st (t, nat k)"
    and m: "m = \<lparr>twm_task = (t, nat k), twm_is_new = (round_schedule st ! t \<noteq> k), twm_thread_id = t\<rparr>"
      "st' = ?st\<lparr>round_schedule := (round_schedule st)[t := k]\<rparr>"
    by (auto simp: Pct_NextSchedule_def Let_def g vec_get_Inr_iff get_task_Inr_iff valid_slot_def
        elim!: res_bind_Inr_E)
  have t: "t < length (threads st)" using k(3) by (simp add: valid_slot_def)
  with ok have r: "- 1 \<le> round_schedule st ! t" "round_schedule st ! t \<le> int (length (threads st ! t))"
    by (auto simp: schedule_ok_def)
  from GetNextTaskInThread_eq [OF t k(2) r] k(1) obtain i where i: "k = int i"
      "i < length (threads st ! t) \<longrightarrow> \<not> co_is_returned (task_at st (t, i)) \<and> \<not> IsTaskRemoved st (co_id (task_at st (t, i)))"
    by auto
  then show ?thesis unfolding next_schedule_effect_def Let_def
    using k m by (simp add: valid_slot_def)
qed

interpretation pct: scheduling_strategy E "Pct_Next E" Pct_NextSchedule True for E
  by unfold_locales (simp_all add: Pct_Next_effect(1) Pct_NextSchedule_effect)

section \<open>Preparation of a depth\<close>

lemma draw_points_range:
  assumes "random_ok R" "1 \<le> k"
  shows "length (fst (draw_points R k n g)) = n \<and> set (fst (draw_points R k n g)) \<subseteq> {1..k}"
proof (induction n arbitrary: g)
  case (Suc n)
  obtain p g1 where p: "rnd_uniform R 1 k g = (p, g1)" by fastforce
  obtain ps g2 where ps: "draw_points R k n g1 = (ps, g2)" by fastforce
  have "1 \<le> p \<and> p \<le> k" using assms p unfolding random_ok_def by (metis fst_conv)
  with Suc.IH [of g1] p ps show ?case by (simp add: Let_def)
qed simp

lemma length_draw_points: "length (fst (draw_points R k n g)) = n"
  by (induction n arbitrary: g) (simp_all add: Let_def split_beta)

lemma PrepareForDepth_eq:
  "priorities (PrepareForDepth E d k st) =
     fst (shuffle (env_random E) (map (\<lambda>i. current_depth st + i) [0..<threads_count st]) (pct_rng st))"
  "priority_change_points (PrepareForDepth E d k st) = fst (draw_points (env_random E) k (d - 1)
     (snd (shuffle (env_random E) (map (\<lambda>i. current_depth st + i) [0..<threads_count st]) (pct_rng st))))"
  "current_depth (PrepareForDepth E d k st) = current_depth st"
  "threads_count (PrepareForDepth E d k st) = threads_count st"
  "k_statistics (PrepareForDepth E d k st) = k_statistics st"
  "current_schedule_length (PrepareForDepth E d k st) = current_schedule_length st"
  by (simp_all add: PrepareForDepth_def Let_def split_beta)

lemma PrepareForDepth_priorities:
  assumes "random_ok (env_random E)"
  shows "mset (priorities (PrepareForDepth E d k st)) = mset [current_depth st..<current_depth st + threads_count st]"
proof -
  have "map (\<lambda>i. c + i) [0..<n] = [c..<c + n]" for c n :: nat
    by (rule nth_equalityI) simp_all
  then show ?thesis
    using shuffle_set(1) [OF assms] by (metis PrepareForDepth_eq(1) prod.collapse)
qed

section \<open>Forbidding the same method in all threads\<close>

lemma draw_constructor_total:
  assumes "random_ok (env_random E)" "cs \<noteq> []"
  shows "\<exists>b g'. draw_constructor E cs g = Inr (b, g') \<and> b \<in> set cs"
proof -
  obtain i g' where i: "rnd_uniform (env_random E) 0 (length cs - 1) g = (i, g')" by fastforce
  have "i \<le> length cs - 1" using assms(1) i unfolding random_ok_def by (metis fst_conv zero_le)
  then have "i < length cs" using assms(2) by (cases cs) auto
  with i show ?thesis by (simp add: draw_constructor_def)
qed

lemma pct_choose_same_name:
  assumes rnd: "random_ok (env_random E)" and cs: "cs \<noteq> []" "\<forall>b \<in> set cs. tb_name b = nm"
  shows "b \<in> set cs \<Longrightarrow> names = [] \<or> names = [nm] \<Longrightarrow> pct_choose fuel E cs t names b v g = Inl Out_Of_Fuel"
proof (induction fuel arbitrary: names b g)
  case (Suc fuel)
  from draw_constructor_total [OF rnd cs(1), of g] obtain b1 g1 where
    d: "draw_constructor E cs g = Inr (b1, g1)" "b1 \<in> set cs" by blast
  have n: "List.insert (tb_name b) names = [nm]" using Suc.prems cs(2) by auto
  from Suc.IH [OF d(2), of "[nm]" g1] show ?case by (simp add: n d(1))
qed simp

text \<open>A sample: two threads on a mutex, drawn in the order \<open>Unlock\<close>, \<open>Lock\<close>.\<close>

definition mutex_env :: "(unit, unit, status_map, nat) runtime_env" where
  "mutex_env = \<lparr>env_body = (\<lambda>_ w. (w, Return void_v)), env_mem = (\<lambda>_ _. 0), env_reset = id,
     env_verifier = MutexVerifier,
     env_random = \<lparr>rnd_shuffle = (\<lambda>n g. ([0..<n], g)), rnd_uniform = (\<lambda>a b g. (if g = 0 then b else a, Suc g)),
       rnd_discrete = (\<lambda>ws g. (0, g))\<rparr>, env_fuel = 10\<rparr>"

definition lock_builder :: "string \<Rightarrow> (unit, unit, unit) task_builder" where
  "lock_builder nm = \<lparr>tb_name = nm, tb_func = (\<lambda>_. ()), tb_gen = (\<lambda>_ w. ((), w, None))\<rparr>"

definition sample_pct :: "(int, int, nat, unit, unit) pct" where
  "sample_pct = \<lparr>new_task_id = 0, removed_tasks = {}, round_schedule = [- 1, - 1], sched_checker = (),
     st_world = sample_world, threads = [[], []], constructors = [sample_builder ''get'' 1],
     k_statistics = [], threads_count = 2, current_depth = 1, current_schedule_length = 0,
     priorities = [2, 1], priority_change_points = [], forbid_all_same = False, pct_rng = ()\<rparr>"

lemma sample_pct_Next:
  "\<exists>m st'. Pct_Next sample_env sample_pct = Inr (m, st') \<and> twm_thread_id m = 0"
  by (simp add: Pct_Next_def sample_pct_def upt_rec pct_take_def pct_step_def draw_constructor_def sample_defs)

section \<open>Properties\<close>

text \<open>
  C31. The strategy runs a thread with the greatest priority among the threads that can run, and
  meets the contract of a strategy: no returned, parked or blocked task is handed out.
\<close>

theorem Pct_Next_priority:
  assumes "Pct_Next E st = Inr (m, st')"
  shows "next_effect E st m st' \<and> valid_slot st' (twm_task m) \<and> \<not> co_is_returned (task_at st' (twm_task m))
    \<and> (\<forall>u < length (threads st). \<not> waiting_now E st u \<longrightarrow> priorities st ! u \<le> priorities st ! twm_thread_id m)"
  using Pct_Next_effect [OF assms] pct.Next_task [OF TrueI assms] by blast

theorem Pct_Next_priority_witness:
  "\<exists>m st'. Pct_Next sample_env sample_pct = Inr (m, st') \<and> next_effect sample_env sample_pct m st'"
  using Pct_Next_priority [of sample_env sample_pct] sample_pct_Next by blast

text \<open>
  After every round the depth grows by one up to 50; the priorities are a permutation of
  the numbers from the depth on, one for each thread, and there are depth minus one change
  points among the first \<open>k\<close> steps. The smallest priority is the depth itself, which is also
  the priority that the first change point assigns: that change does not put the thread
  below all others.
\<close>

theorem UpdateStatistics_prepares:
  assumes "random_ok (env_random E)"
  shows "let st' = UpdateStatistics E st; d = min 50 (current_depth st + 1);
      ks = k_statistics st @ [current_schedule_length st]; k = sum_list ks div length ks in
    current_depth st' = d \<and> current_schedule_length st' = 0 \<and> k_statistics st' = ks
    \<and> mset (priorities st') = mset [d..<d + threads_count st]
    \<and> length (priority_change_points st') = d - 1
    \<and> (1 \<le> k \<longrightarrow> set (priority_change_points st') \<subseteq> {1..k})
    \<and> (0 < threads_count st \<longrightarrow> d \<in> set (priorities st') \<and> (\<forall>p \<in> set (priorities st'). d \<le> p))
    \<and> change_priorities (cp # cps) 0 cp d t ps = change_priorities cps 1 cp d t (ps[t := d])"
proof -
  define d where "d = min 50 (current_depth st + 1)"
  define ks where "ks = k_statistics st @ [current_schedule_length st]"
  define k where "k = sum_list ks div length ks"
  define st1 where "st1 = st\<lparr>current_depth := d, k_statistics := ks, current_schedule_length := 0\<rparr>"
  have u: "UpdateStatistics E st = PrepareForDepth E d k st1"
    unfolding UpdateStatistics_def Let_def st1_def k_def ks_def d_def by (simp add: min_def)
  have p: "mset (priorities (PrepareForDepth E d k st1)) = mset [d..<d + threads_count st]"
    using PrepareForDepth_priorities [OF assms, of d k st1] by (simp add: st1_def)
  have "set (priorities (PrepareForDepth E d k st1)) = {d..<d + threads_count st}"
    using mset_eq_setD [OF p] by simp
  then show ?thesis
    unfolding Let_def d_def [symmetric] ks_def [symmetric] k_def [symmetric] u
    using p draw_points_range [OF assms, of k "d - 1"] length_draw_points
    by (simp add: PrepareForDepth_eq st1_def)
qed

theorem UpdateStatistics_prepares_witness:
  "current_depth (UpdateStatistics sample_env sample_pct) = 2
    \<and> mset (priorities (UpdateStatistics sample_env sample_pct)) = mset [2..<4]"
proof -
  have "current_depth sample_pct = 1" "threads_count sample_pct = 2" by (simp_all add: sample_pct_def)
  with UpdateStatistics_prepares [OF sample_env_random, of sample_pct] show ?thesis
    unfolding Let_def by (simp add: eval_nat_numeral)
qed

text \<open>
  With \<open>forbid_all_same\<close> and methods that all have one name the retry loop never ends, also
  for the first task of a round, when no other thread has a task: no amount of fuel is enough.
\<close>

theorem forbid_all_same_diverges:
  assumes "random_ok (env_random E)" "cs \<noteq> []" "\<forall>b \<in> set cs. tb_name b = nm" "b \<in> set cs"
  shows "\<forall>fuel. pct_choose fuel E cs t [] b v g = Inl Out_Of_Fuel \<and> pct_choose fuel E cs t [nm] b v g = Inl Out_Of_Fuel"
  using pct_choose_same_name [OF assms(1-3), of b] assms(4) by blast

theorem forbid_all_same_diverges_witness:
  "\<forall>fuel. pct_choose fuel sample_env [sample_builder ''get'' 1] 0 [] (sample_builder ''get'' 1) () ()
     = Inl Out_Of_Fuel"
  using forbid_all_same_diverges [OF sample_env_random, of "[sample_builder ''get'' 1]" "''get''"
      "sample_builder ''get'' 1"]
  by (simp add: sample_builder_def)

text \<open>
  \<open>forbid_all_same\<close> does not forbid: with \<open>Lock\<close> running in the other thread, a refused draw
  of \<open>Unlock\<close> stays in the set of names, and the next draw, \<open>Lock\<close>, is taken although then
  all threads run \<open>Lock\<close>.
\<close>

theorem forbid_all_same_broken:
  "pct_choose 5 mutex_env [lock_builder ''Lock'', lock_builder ''Unlock''] 1 [''Lock'']
     (lock_builder ''Unlock'') Map.empty 1 = Inr (lock_builder ''Lock'', [1 \<mapsto> 0], 2)"
  by (simp add: eval_nat_numeral mutex_env_def lock_builder_def draw_constructor_def vec_get_def verifier_defs
      status_touch_def status_at_def)

end
