(* ===== verification/Linearizability.thy ===== *)
theory Linearizability
  imports History
begin

text \<open>
  The abstract contract of the checkers: linearizability of a history with respect to a
  sequential specification, in the sense of Herlihy and Wing. The sequential specification
  is the data of \<open>LinearizabilityChecker\<close> in \<open>runtime/include/lincheck.h\<close>: a map from
  operation names to functions on the specification object, and the first state.
  A linearization orders all completed operations and any set of the pending ones; it keeps
  the real-time order of the history and every completed operation returns in it the value
  it returned in the history.

  The second half of the theory is the search problem that both checkers solve: how a set
  of operations that are already ordered can be extended to a linearization.
\<close>

section \<open>Sequential specifications\<close>

type_synonym ('a, 's) spec_method = "'s \<Rightarrow> 'a \<Rightarrow> 's \<times> value_wrapper"

record ('a, 's) linearizability_checker =
  specification_methods :: "string \<rightharpoonup> ('a, 's) spec_method"
  first_state :: 's

type_synonym ('r, 'a, 'c) task_store = "'r \<Rightarrow> ('a, 'c) coro"

definition run_method ::
    "('a, 's) linearizability_checker \<Rightarrow> ('r, 'a, 'c) task_store \<Rightarrow> 'r \<Rightarrow> 's
      \<Rightarrow> ('s \<times> value_wrapper) option" where
  "run_method C tk t s =
     map_option (\<lambda>m. m s (co_args (tk t))) (specification_methods C (co_name (tk t)))"

section \<open>Linearizations\<close>

definition completed :: "'r history_event list \<Rightarrow> nat \<Rightarrow> bool" where
  "completed h i \<longleftrightarrow> (\<exists>r. responds h i r)"

definition precedes :: "'r history_event list \<Rightarrow> nat \<Rightarrow> nat \<Rightarrow> bool" where
  "precedes h i j \<longleftrightarrow> (\<exists>r. responds h i r \<and> r < j)"

definition accepts ::
    "('a, 's) linearizability_checker \<Rightarrow> ('r, 'a, 'c) task_store \<Rightarrow> 'r history_event list
      \<Rightarrow> nat \<Rightarrow> 's \<Rightarrow> bool" where
  "accepts C tk h i s \<longleftrightarrow> (\<exists>s' v. run_method C tk (GetTask (h ! i)) s = Some (s', v)
     \<and> (completed h i \<longrightarrow> vw_eq v (co_ret (tk (GetTask (h ! i)))) = Inr True))"

definition after ::
    "('a, 's) linearizability_checker \<Rightarrow> ('r, 'a, 'c) task_store \<Rightarrow> 'r history_event list
      \<Rightarrow> nat \<Rightarrow> 's \<Rightarrow> 's" where
  "after C tk h i s = (case run_method C tk (GetTask (h ! i)) s of
     None \<Rightarrow> s | Some (s', v) \<Rightarrow> s')"

fun legal ::
    "('a, 's) linearizability_checker \<Rightarrow> ('r, 'a, 'c) task_store \<Rightarrow> 'r history_event list
      \<Rightarrow> 's \<Rightarrow> nat list \<Rightarrow> bool" where
  "legal C tk h s [] = True"
| "legal C tk h s (i # is) = (accepts C tk h i s \<and> legal C tk h (after C tk h i s) is)"

definition real_time :: "'r history_event list \<Rightarrow> nat list \<Rightarrow> bool" where
  "real_time h p = sorted_wrt (\<lambda>a b. \<not> precedes h b a) p"

definition linearization ::
    "('a, 's) linearizability_checker \<Rightarrow> ('r, 'a, 'c) task_store \<Rightarrow> 'r history_event list
      \<Rightarrow> nat list \<Rightarrow> bool" where
  "linearization C tk h p \<longleftrightarrow> distinct p \<and> set p \<subseteq> invokes h
     \<and> {i \<in> invokes h. completed h i} \<subseteq> set p
     \<and> real_time h p \<and> legal C tk h (first_state C) p"

definition linearizable ::
    "('a, 's) linearizability_checker \<Rightarrow> ('r, 'a, 'c) task_store \<Rightarrow> 'r history_event list
      \<Rightarrow> bool" where
  "linearizable C tk h \<longleftrightarrow> (\<exists>p. linearization C tk h p)"

text \<open>
  What the checkers need of a history besides well-formedness: every invoked operation has a
  specification operation, and the value that it returns can be compared with the value that
  the task returned (the comparison does not throw). The tasks of the responses are returned.
\<close>

definition checkable ::
    "('a, 's) linearizability_checker \<Rightarrow> ('r, 'a, 'c) task_store \<Rightarrow> 'r history_event list
      \<Rightarrow> bool" where
  "checkable C tk h \<longleftrightarrow> wf_history h \<and> (\<forall>i \<in> invokes h.
     (\<exists>m. specification_methods C (co_name (tk (GetTask (h ! i)))) = Some m
        \<and> (completed h i \<longrightarrow> co_is_returned (tk (GetTask (h ! i)))
            \<and> (\<forall>s. \<exists>b. vw_eq (snd (m s (co_args (tk (GetTask (h ! i))))))
                               (co_ret (tk (GetTask (h ! i)))) = Inr b))))"

lemma checkableD: "checkable C tk h \<Longrightarrow> wf_history h"
  by (simp add: checkable_def)

lemma checkable_accepts_pending:
  assumes "checkable C tk h" and "i \<in> invokes h" and "\<not> completed h i"
  shows "accepts C tk h i s"
  using assms by (fastforce simp: checkable_def accepts_def run_method_def)

section \<open>The search problem\<close>

definition matching :: "'r history_event list \<Rightarrow> (nat \<rightharpoonup> nat) \<Rightarrow> bool" where
  "matching h m \<longleftrightarrow> (\<forall>i r. m i = Some r \<longleftrightarrow> responds h i r)"

definition closed_flags :: "'r history_event list \<Rightarrow> bool list \<Rightarrow> bool" where
  "closed_flags h lin \<longleftrightarrow> length lin = length h \<and> (\<forall>i r. responds h i r \<longrightarrow> lin ! i = lin ! r)"

definition open_ops :: "'r history_event list \<Rightarrow> bool list \<Rightarrow> nat set" where
  "open_ops h lin = {i \<in> invokes h. \<not> lin ! i}"

definition minimal_op :: "'r history_event list \<Rightarrow> bool list \<Rightarrow> nat \<Rightarrow> bool" where
  "minimal_op h lin i \<longleftrightarrow> i \<in> open_ops h lin \<and> (\<forall>r < i. \<not> is_invoke (h ! r) \<longrightarrow> lin ! r)"

definition mark :: "(nat \<rightharpoonup> nat) \<Rightarrow> nat \<Rightarrow> bool list \<Rightarrow> bool list" where
  "mark m i lin = (case m i of None \<Rightarrow> lin[i := True] | Some r \<Rightarrow> lin[i := True, r := True])"

definition unmark :: "(nat \<rightharpoonup> nat) \<Rightarrow> nat \<Rightarrow> bool list \<Rightarrow> bool list" where
  "unmark m i lin = (case m i of None \<Rightarrow> lin[i := False] | Some r \<Rightarrow> lin[i := False, r := False])"

definition extendable ::
    "('a, 's) linearizability_checker \<Rightarrow> ('r, 'a, 'c) task_store \<Rightarrow> 'r history_event list
      \<Rightarrow> bool list \<Rightarrow> 's \<Rightarrow> bool" where
  "extendable C tk h lin s \<longleftrightarrow>
     (\<exists>p. distinct p \<and> set p = open_ops h lin \<and> real_time h p \<and> legal C tk h s p)"

lemma matchingD: "matching h m \<Longrightarrow> m i = Some r \<longleftrightarrow> responds h i r"
  by (simp add: matching_def)

lemma matching_None: "matching h m \<Longrightarrow> m i = None \<longleftrightarrow> \<not> completed h i"
  by (metis matchingD completed_def not_None_eq)

lemma get_inv_res_mapping_matching:
  assumes "wf_history h"
  obtains m where "get_inv_res_mapping h = Inr m" and "matching h m"
  using get_inv_res_mapping_correct [OF assms] by (auto simp: matching_def)

lemma closed_flags_length [simp]: "closed_flags h lin \<Longrightarrow> length lin = length h"
  by (simp add: closed_flags_def)

lemma closed_flagsD: "closed_flags h lin \<Longrightarrow> responds h i r \<Longrightarrow> lin ! r = lin ! i"
  unfolding closed_flags_def by blast

lemma closed_flagsI:
  "length lin = length h \<Longrightarrow> (\<And>i r. responds h i r \<Longrightarrow> lin ! r = lin ! i) \<Longrightarrow> closed_flags h lin"
  unfolding closed_flags_def by blast

lemma closed_flags_initial: "closed_flags h (replicate (length h) False)"
  by (auto simp: closed_flags_def responds_def)

lemma open_ops_initial: "open_ops h (replicate (length h) False) = invokes h"
  by (auto simp: open_ops_def invokes_def)

lemma length_mark [simp]: "length (mark m i lin) = length lin"
  by (simp add: mark_def split: option.splits)

lemma length_unmark [simp]: "length (unmark m i lin) = length lin"
  by (simp add: unmark_def split: option.splits)

lemma mark_nth:
  assumes "matching h m" and "length lin = length h" and "i < length h" and "j < length h"
  shows "mark m i lin ! j \<longleftrightarrow> lin ! j \<or> j = i \<or> responds h i j"
proof (cases "m i")
  case None
  then have "\<not> responds h i j" using matchingD [OF assms(1), of i j] by simp
  with None assms show ?thesis by (simp add: mark_def nth_list_update)
next
  case (Some r)
  then have "responds h i j \<longleftrightarrow> j = r" using matchingD [OF assms(1), of i j] by auto
  moreover have "r < length h" using matchingD [OF assms(1), of i r] Some by (simp add: responds_def)
  ultimately show ?thesis using Some assms by (auto simp: mark_def nth_list_update)
qed

lemma flag_reset: "\<not> l ! i \<Longrightarrow> l[i := False] = l"
  by (metis list_update_id)

lemma unmark_mark:
  assumes "matching h m" and "closed_flags h lin" and "\<not> lin ! i"
  shows "unmark m i (mark m i lin) = lin"
proof (cases "m i")
  case None
  with assms(3) show ?thesis by (simp add: mark_def unmark_def flag_reset)
next
  case (Some r)
  then have "responds h i r" using assms(1) by (simp add: matchingD)
  with assms(2,3) have "\<not> lin ! r" and "i \<noteq> r"
    using closed_flagsD [OF assms(2), of i r] by (auto simp: responds_def)
  with assms(3) Some show ?thesis
    by (simp add: mark_def unmark_def list_update_swap [of i r] flag_reset)
qed

lemma closed_flags_mark:
  assumes "wf_history h" and "matching h m" and "closed_flags h lin" and "i \<in> invokes h"
  shows "closed_flags h (mark m i lin)"
proof -
  have "mark m i lin ! b = mark m i lin ! a" if ab: "responds h a b" for a b
  proof -
    have len: "length lin = length h" "i < length h" "a < length h" "b < length h"
      using assms(3,4) ab by (auto simp: invokes_def responds_def)
    have "lin ! a = lin ! b" using closed_flagsD [OF assms(3) ab] by simp
    moreover have "a = i \<longleftrightarrow> responds h i b"
      using ab responds_inj [OF assms(1), of a b i] by auto
    moreover have "b \<noteq> i" "\<not> responds h i a"
      using ab assms(4) by (auto simp: invokes_def responds_def)
    ultimately show ?thesis using mark_nth [OF assms(2) len(1,2)] len(3,4) by blast
  qed
  with assms(3) show ?thesis by (auto intro: closed_flagsI)
qed

lemma open_ops_mark:
  assumes "matching h m" and "closed_flags h lin" and "i \<in> invokes h"
  shows "open_ops h (mark m i lin) = open_ops h lin - {i}"
proof -
  have len: "length lin = length h" "i < length h" using assms(2,3) by (auto simp: invokes_def)
  have "\<not> responds h i j" if "j \<in> invokes h" for j
    using that by (auto simp: responds_def invokes_def)
  then show ?thesis
    using mark_nth [OF assms(1) len] by (auto simp: open_ops_def invokes_def)
qed

lemma all_flags_iff:
  assumes "wf_history h" and "closed_flags h lin"
  shows "list_all id lin \<longleftrightarrow> open_ops h lin = {}"
proof
  assume "list_all id lin"
  then show "open_ops h lin = {}"
    using assms(2) by (auto simp: list_all_length open_ops_def invokes_def)
next
  assume none: "open_ops h lin = {}"
  have "lin ! j" if "j < length h" for j
  proof (cases "is_invoke (h ! j)")
    case True
    with none that show ?thesis by (auto simp: open_ops_def invokes_def)
  next
    case False
    from response_has_invoke [OF assms(1) \<open>j < length h\<close> False]
    obtain i where i: "responds h i j" ..
    with none closed_flagsD [OF assms(2) i] respondsD(3) [OF i] show ?thesis
      by (auto simp: open_ops_def)
  qed
  with assms(2) show "list_all id lin" by (simp add: list_all_length)
qed

lemma minimal_op_iff:
  assumes "wf_history h" and "closed_flags h lin" and "i \<in> open_ops h lin"
  shows "minimal_op h lin i \<longleftrightarrow> (\<forall>b \<in> open_ops h lin. \<not> precedes h b i)"
proof
  assume min: "minimal_op h lin i"
  have "lin ! b" if "responds h b r" "r < i" for b r
    using min that closed_flagsD [OF assms(2) that(1)] respondsD(4) [OF that(1)]
    by (auto simp: minimal_op_def)
  then show "\<forall>b \<in> open_ops h lin. \<not> precedes h b i"
    by (auto simp: precedes_def open_ops_def)
next
  assume no: "\<forall>b \<in> open_ops h lin. \<not> precedes h b i"
  have "lin ! r" if r: "r < i" "\<not> is_invoke (h ! r)" for r
  proof (rule ccontr)
    assume "\<not> lin ! r"
    have "r < length h" using r assms(3) by (simp add: open_ops_def invokes_def)
    then obtain b where b: "responds h b r" using response_has_invoke [OF assms(1)] r(2) by blast
    with \<open>\<not> lin ! r\<close> have "b \<in> open_ops h lin"
      using respondsD(3) [OF b] closed_flagsD [OF assms(2) b] by (simp add: open_ops_def)
    with no b r(1) show False by (auto simp: precedes_def)
  qed
  with assms(3) show "minimal_op h lin i" by (simp add: minimal_op_def)
qed

lemma extendable_done:
  "open_ops h lin = {} \<Longrightarrow> extendable C tk h lin s"
  by (auto simp: extendable_def real_time_def intro!: exI [of _ "[]"])

lemma extendable_step:
  assumes "wf_history h" and "matching h m" and "closed_flags h lin" and "open_ops h lin \<noteq> {}"
  shows "extendable C tk h lin s \<longleftrightarrow> (\<exists>i. minimal_op h lin i \<and> accepts C tk h i s
           \<and> extendable C tk h (mark m i lin) (after C tk h i s))"
proof
  assume "extendable C tk h lin s"
  then obtain p where p: "distinct p" "set p = open_ops h lin" "real_time h p" "legal C tk h s p"
    by (auto simp: extendable_def)
  then obtain i q where pq: "p = i # q" using assms(4) by (cases p) auto
  have i: "i \<in> open_ops h lin" "i \<in> invokes h" using p(2) pq by (auto simp: open_ops_def)
  have "\<not> precedes h i i" by (auto simp: precedes_def responds_def)
  with p(2,3) pq have "\<forall>b \<in> open_ops h lin. \<not> precedes h b i"
    by (auto simp: real_time_def)
  then have "minimal_op h lin i" using minimal_op_iff [OF assms(1,3) i(1)] by simp
  moreover have "extendable C tk h (mark m i lin) (after C tk h i s)"
    using p pq open_ops_mark [OF assms(2,3) i(2)]
    by (auto simp: extendable_def real_time_def intro!: exI [of _ q])
  ultimately show "\<exists>i. minimal_op h lin i \<and> accepts C tk h i s
      \<and> extendable C tk h (mark m i lin) (after C tk h i s)" using p(4) pq by auto
next
  assume "\<exists>i. minimal_op h lin i \<and> accepts C tk h i s
      \<and> extendable C tk h (mark m i lin) (after C tk h i s)"
  then obtain i q where i: "minimal_op h lin i" "accepts C tk h i s"
    and q: "distinct q" "set q = open_ops h (mark m i lin)" "real_time h q"
      "legal C tk h (after C tk h i s) q"
    by (auto simp: extendable_def)
  have io: "i \<in> open_ops h lin" "i \<in> invokes h" using i(1) by (auto simp: minimal_op_def open_ops_def)
  have sq: "set q = open_ops h lin - {i}" using q(2) open_ops_mark [OF assms(2,3) io(2)] by simp
  have "\<forall>b \<in> set q. \<not> precedes h b i"
    using i(1) minimal_op_iff [OF assms(1,3) io(1)] sq by auto
  then show "extendable C tk h lin s"
    using q i(2) sq io(1) by (auto simp: extendable_def real_time_def intro!: exI [of _ "i # q"])
qed

section \<open>The initial problem is linearizability\<close>

lemma legal_append:
  "legal C tk h s (xs @ ys) \<longleftrightarrow>
     legal C tk h s xs \<and> legal C tk h (fold (after C tk h) xs s) ys"
  by (induction xs arbitrary: s) simp_all

lemma legal_pending:
  assumes "checkable C tk h" and "\<forall>i \<in> set xs. i \<in> invokes h \<and> \<not> completed h i"
  shows "legal C tk h s xs"
  using assms by (induction xs arbitrary: s) (auto intro: checkable_accepts_pending)

lemma not_precedes_pending: "\<not> completed h b \<Longrightarrow> \<not> precedes h b a"
  by (auto simp: completed_def precedes_def)

lemma sorted_wrt_pending:
  "\<forall>i \<in> set xs. \<not> completed h i \<Longrightarrow> sorted_wrt (\<lambda>a b. \<not> precedes h b a) xs"
  by (induction xs) (auto simp: not_precedes_pending)

lemma linearization_complete:
  assumes "checkable C tk h" and "linearization C tk h p"
  shows "\<exists>q. distinct q \<and> set q = invokes h \<and> real_time h q \<and> legal C tk h (first_state C) q"
proof -
  let ?rest = "sorted_list_of_set (invokes h - set p)"
  have rest: "\<forall>i \<in> set ?rest. i \<in> invokes h \<and> \<not> completed h i"
    using assms(2) by (auto simp: linearization_def)
  have "sorted_wrt (\<lambda>a b. \<not> precedes h b a) ?rest"
    using rest by (intro sorted_wrt_pending) auto
  then have "real_time h (p @ ?rest)"
    using assms(2) rest
    by (auto simp: linearization_def real_time_def sorted_wrt_append not_precedes_pending)
  moreover have "legal C tk h (first_state C) (p @ ?rest)"
    using assms legal_pending [OF assms(1) rest] by (simp add: linearization_def legal_append)
  moreover have "distinct (p @ ?rest)" and "set (p @ ?rest) = invokes h"
    using assms(2) by (auto simp: linearization_def)
  ultimately show ?thesis by blast
qed

lemma linearizable_iff_extendable:
  assumes "checkable C tk h"
  shows "linearizable C tk h \<longleftrightarrow>
           extendable C tk h (replicate (length h) False) (first_state C)"
  using linearization_complete [OF assms]
  by (auto simp: linearizable_def extendable_def linearization_def open_ops_initial)

section \<open>The interface of a specification object\<close>

text \<open>
  What the checkers rely on when they compare specification objects: objects that are equal
  under the equality supplied with the specification stay equal under every operation and give
  results that compare in the same way. Every specification of the repository is an instance
  (theory \<open>Seq_Specs\<close>).
\<close>

locale linear_specification =
  fixes C :: "('a, 's) linearizability_checker"
    and equal :: "'s \<Rightarrow> 's \<Rightarrow> bool"
  assumes equal_state: "equal x y \<Longrightarrow> specification_methods C nm = Some mth
      \<Longrightarrow> equal (fst (mth x a)) (fst (mth y a))"
    and equal_result: "equal x y \<Longrightarrow> specification_methods C nm = Some mth
      \<Longrightarrow> vw_eq (snd (mth x a)) r = vw_eq (snd (mth y a)) r"
begin

lemma accepts_cong: "equal x y \<Longrightarrow> accepts C tk h i x \<longleftrightarrow> accepts C tk h i y"
proof (cases "specification_methods C (co_name (tk (GetTask (h ! i))))")
  case None
  then show "accepts C tk h i x \<longleftrightarrow> accepts C tk h i y" by (simp add: accepts_def run_method_def)
next
  case (Some mth)
  assume "equal x y"
  with Some have "vw_eq (snd (mth x (co_args (tk (GetTask (h ! i)))))) r
      = vw_eq (snd (mth y (co_args (tk (GetTask (h ! i)))))) r" for r
    by (rule equal_result [rotated])
  with Some show "accepts C tk h i x \<longleftrightarrow> accepts C tk h i y"
    by (cases "mth x (co_args (tk (GetTask (h ! i))))"; cases "mth y (co_args (tk (GetTask (h ! i))))")
      (simp add: accepts_def run_method_def)
qed

lemma after_cong: "equal x y \<Longrightarrow> equal (after C tk h i x) (after C tk h i y)"
proof (cases "specification_methods C (co_name (tk (GetTask (h ! i))))")
  case None
  assume "equal x y"
  with None show ?thesis by (simp add: after_def run_method_def)
next
  case (Some mth)
  assume "equal x y"
  from equal_state [OF this Some, of "co_args (tk (GetTask (h ! i)))"] Some show ?thesis
    by (cases "mth x (co_args (tk (GetTask (h ! i))))"; cases "mth y (co_args (tk (GetTask (h ! i))))")
      (simp add: after_def run_method_def)
qed

lemma legal_cong: "equal x y \<Longrightarrow> legal C tk h x p \<longleftrightarrow> legal C tk h y p"
proof (induction p arbitrary: x y)
  case Nil
  then show ?case by simp
next
  case (Cons i p)
  from Cons.IH [OF after_cong [OF Cons.prems, of tk h i]] accepts_cong [OF Cons.prems, of tk h i]
  show ?case by simp
qed

lemma extendable_cong: "equal x y \<Longrightarrow> extendable C tk h lin x \<longleftrightarrow> extendable C tk h lin y"
  by (simp add: extendable_def legal_cong [of x y])

end

end
