(* ===== verification/Lincheck_Recursive.thy ===== *)
theory Lincheck_Recursive
  imports Linearizability
begin

text \<open>
  Model of \<open>runtime/include/lincheck_recursive.h\<close>: the plain recursive checker, which is the
  one that \<open>ltest::Run\<close> uses. The vector \<open>linearized\<close> is passed by reference in the source,
  so \<open>recursive_step\<close> returns its new value. The recursion marks one more event in every
  call; the fuel of \<open>recursive_step\<close> bounds its depth, and one more than the length of the
  history is enough (\<open>recursive_step_correct\<close>).
\<close>

section \<open>The checker\<close>

text \<open>The loop over all minimal operations; \<open>step\<close> is the recursive call.\<close>

fun rec_for ::
    "(bool list \<Rightarrow> 's \<Rightarrow> (bool \<times> bool list) res) \<Rightarrow> ('a, 's) linearizability_checker
      \<Rightarrow> ('r, 'a, 'c) task_store \<Rightarrow> 'r history_event list \<Rightarrow> (nat \<rightharpoonup> nat)
      \<Rightarrow> nat list \<Rightarrow> bool list \<Rightarrow> 's \<Rightarrow> (bool \<times> bool list) res" where
  "rec_for step C tk h inv_res [] lin s = Inr (False, lin)"
| "rec_for step C tk h inv_res (i # is) lin s =
     (if lin ! i then rec_for step C tk h inv_res is lin s
      else case h ! i of
        Response _ _ _ \<Rightarrow> Inr (False, lin)
      | Invoke t _ \<Rightarrow>
         (case specification_methods C (co_name (tk t)) of
            None \<Rightarrow> Inl (Assert_Failed ''specification_methods.find(name) != end()'')
          | Some mth \<Rightarrow>
             (let (s', v) = mth s (co_args (tk t)) in
              case inv_res i of
                None \<Rightarrow>
                  res_bind (step (lin[i := True]) s') (\<lambda>(b, lin').
                    if b then Inr (True, lin')
                    else rec_for step C tk h inv_res is (lin'[i := False]) s)
              | Some r \<Rightarrow>
                  res_bind (GetRetVal (tk t)) (\<lambda>ret. res_bind (vw_eq v ret) (\<lambda>eq.
                    if eq then
                      res_bind (step (lin[i := True, r := True]) s') (\<lambda>(b, lin').
                        if b then Inr (True, lin')
                        else rec_for step C tk h inv_res is (lin'[i := False, r := False]) s)
                    else rec_for step C tk h inv_res is lin s)))))"

primrec recursive_step ::
    "nat \<Rightarrow> ('a, 's) linearizability_checker \<Rightarrow> ('r, 'a, 'c) task_store
      \<Rightarrow> 'r history_event list \<Rightarrow> (nat \<rightharpoonup> nat) \<Rightarrow> bool list \<Rightarrow> 's \<Rightarrow> (bool \<times> bool list) res" where
  "recursive_step 0 C tk h inv_res lin s = Inl Out_Of_Fuel"
| "recursive_step (Suc n) C tk h inv_res lin s =
     (if list_all id lin then Inr (True, lin)
      else rec_for (recursive_step n C tk h inv_res) C tk h inv_res [0..<length h] lin s)"

definition Check_recursive ::
    "('a, 's) linearizability_checker \<Rightarrow> ('r, 'a, 'c) task_store \<Rightarrow> 'r history_event list
      \<Rightarrow> bool res" where
  "Check_recursive C tk h =
     (if h = [] then Inr True
      else res_bind (get_inv_res_mapping h) (\<lambda>inv_res.
        res_bind (recursive_step (Suc (length h)) C tk h inv_res
                    (replicate (length h) False) (first_state C))
          (\<lambda>(b, lin). Inr b)))"

section \<open>Correctness\<close>

text \<open>What the recursive call promises for a vector of flags: it decides extendability and
  restores the flags when it fails.\<close>

definition decides ::
    "(bool list \<Rightarrow> 's \<Rightarrow> (bool \<times> bool list) res) \<Rightarrow> ('a, 's) linearizability_checker
      \<Rightarrow> ('r, 'a, 'c) task_store \<Rightarrow> 'r history_event list \<Rightarrow> bool list \<Rightarrow> bool" where
  "decides step C tk h lin \<longleftrightarrow> (\<forall>s. \<exists>b lin'. step lin s = Inr (b, lin')
     \<and> (b \<longleftrightarrow> extendable C tk h lin s) \<and> (\<not> b \<longrightarrow> lin' = lin))"

lemma decidesE:
  assumes "decides step C tk h lin"
  obtains lin' where "step lin s = Inr (extendable C tk h lin s, lin')"
    and "\<not> extendable C tk h lin s \<longrightarrow> lin' = lin"
  using assms unfolding decides_def by blast

definition candidate ::
    "('a, 's) linearizability_checker \<Rightarrow> ('r, 'a, 'c) task_store \<Rightarrow> 'r history_event list
      \<Rightarrow> (nat \<rightharpoonup> nat) \<Rightarrow> bool list \<Rightarrow> 's \<Rightarrow> nat \<Rightarrow> bool" where
  "candidate C tk h m lin s i \<longleftrightarrow> minimal_op h lin i \<and> accepts C tk h i s
     \<and> extendable C tk h (mark m i lin) (after C tk h i s)"

lemma rec_for_invoke:
  assumes ok: "checkable C tk h" "matching h m" "closed_flags h lin"
    and i: "i \<in> open_ops h lin"
    and step: "decides step C tk h (mark m i lin)"
  shows "rec_for step C tk h m (i # is) lin s =
    (if accepts C tk h i s \<and> extendable C tk h (mark m i lin) (after C tk h i s)
     then Inr (True, snd (projr (step (mark m i lin) (after C tk h i s))))
     else rec_for step C tk h m is lin s)"
proof -
  from i have inv: "i \<in> invokes h" and open_i: "\<not> lin ! i" by (auto simp: open_ops_def)
  then obtain t x where t: "h ! i = Invoke t x" by (cases "h ! i") (auto simp: invokes_def)
  from ok(1) inv t obtain mth where me: "specification_methods C (co_name (tk t)) = Some mth"
    and cmp: "completed h i \<Longrightarrow> co_is_returned (tk t)
      \<and> (\<exists>b. vw_eq (snd (mth s (co_args (tk t)))) (co_ret (tk t)) = Inr b)"
    by (fastforce simp: checkable_def)
  obtain s' v where sv: "mth s (co_args (tk t)) = (s', v)" by fastforce
  have aft: "after C tk h i s = s'" and
    acc: "accepts C tk h i s \<longleftrightarrow> (completed h i \<longrightarrow> vw_eq v (co_ret (tk t)) = Inr True)"
    using t me sv by (simp_all add: after_def accepts_def run_method_def)
  obtain lin' where st: "step (mark m i lin) s' = Inr (extendable C tk h (mark m i lin) s', lin')"
      "\<not> extendable C tk h (mark m i lin) s' \<longrightarrow> lin' = mark m i lin"
    by (rule decidesE [OF step, of s'])
  have reset: "unmark m i (mark m i lin) = lin" by (rule unmark_mark [OF ok(2,3) open_i])
  show ?thesis
  proof (cases "m i")
    case None
    then have "\<not> completed h i" using matching_None [OF ok(2)] by simp
    then show ?thesis
      using None open_i t me sv st aft acc reset by (auto simp: mark_def unmark_def)
  next
    case (Some r)
    then have com: "completed h i" using matching_None [OF ok(2), of i] by simp
    with cmp sv obtain e where e: "vw_eq v (co_ret (tk t)) = Inr e" by auto
    with com cmp have "GetRetVal (tk t) = Inr (co_ret (tk t))" by (simp add: GetRetVal_def)
    then show ?thesis
      using Some open_i t me sv st aft acc reset e com by (auto simp: mark_def unmark_def)
  qed
qed

lemma rec_for_correct:
  assumes ok: "checkable C tk h" "matching h m" "closed_flags h lin"
    and step: "\<And>i. i \<in> open_ops h lin \<Longrightarrow> decides step C tk h (mark m i lin)"
    and k: "k \<le> length h" "\<forall>r < k. \<not> is_invoke (h ! r) \<longrightarrow> lin ! r"
      "\<forall>i < k. \<not> candidate C tk h m lin s i"
  shows "\<exists>lin'. rec_for step C tk h m [k..<length h] lin s = Inr (Ex (candidate C tk h m lin s), lin')
           \<and> (\<not> Ex (candidate C tk h m lin s) \<longrightarrow> lin' = lin)"
  using k
proof (induction "length h - k" arbitrary: k)
  case 0
  then have "k = length h" by simp
  moreover have "\<not> candidate C tk h m lin s i" if "\<not> i < length h" for i
    using that by (auto simp: candidate_def minimal_op_def open_ops_def invokes_def)
  ultimately show ?case using 0 by auto
next
  case (Suc d)
  have upt: "[k..<length h] = k # [Suc k..<length h]" using Suc.hyps(2) by (simp add: upt_conv_Cons)
  have next_k: "\<exists>lin'. rec_for step C tk h m [Suc k..<length h] lin s
        = Inr (Ex (candidate C tk h m lin s), lin') \<and> (\<not> Ex (candidate C tk h m lin s) \<longrightarrow> lin' = lin)"
    if "\<not> is_invoke (h ! k) \<longrightarrow> lin ! k" "\<not> candidate C tk h m lin s k"
    using Suc.hyps(1) [of "Suc k"] Suc.hyps(2) Suc.prems that by (auto simp: less_Suc_eq)
  show ?case
  proof (cases "lin ! k")
    case True
    then have "\<not> candidate C tk h m lin s k" by (auto simp: candidate_def minimal_op_def open_ops_def)
    with True upt next_k show ?thesis by simp
  next
    case flag: False
    show ?thesis
    proof (cases "is_invoke (h ! k)")
      case False
      have "\<not> candidate C tk h m lin s i" for i
        using flag False Suc.prems(3)
        by (cases i k rule: linorder_cases)
          (auto simp: candidate_def minimal_op_def open_ops_def invokes_def)
      then show ?thesis using upt flag False by (auto split: history_event.splits)
    next
      case True
      then have op: "k \<in> open_ops h lin" using flag Suc.hyps(2) by (simp add: open_ops_def invokes_def)
      then have min: "minimal_op h lin k" using Suc.prems(2) by (simp add: minimal_op_def)
      show ?thesis
        using rec_for_invoke [OF ok op step [OF op], of "[Suc k..<length h]" s] min next_k True upt
        by (auto simp: candidate_def)
    qed
  qed
qed

lemma recursive_step_correct:
  assumes ok: "checkable C tk h" "matching h m"
  shows "closed_flags h lin \<Longrightarrow> card (open_ops h lin) < n
    \<Longrightarrow> decides (recursive_step n C tk h m) C tk h lin"
proof (induction n arbitrary: lin)
  case 0
  then show ?case by simp
next
  case (Suc n)
  note wf = checkableD [OF ok(1)]
  show ?case
  proof (cases "open_ops h lin = {}")
    case True
    then show ?thesis
      using all_flags_iff [OF wf Suc.prems(1)] extendable_done [OF True]
      by (auto simp: decides_def)
  next
    case False
    have step: "decides (recursive_step n C tk h m) C tk h (mark m i lin)" if "i \<in> open_ops h lin" for i
    proof (rule Suc.IH)
      have inv: "i \<in> invokes h" using that by (simp add: open_ops_def)
      then show "closed_flags h (mark m i lin)" using closed_flags_mark [OF wf ok(2) Suc.prems(1)] by simp
      have "finite (open_ops h lin)" by (simp add: open_ops_def)
      then have "0 < card (open_ops h lin)" using that by (auto simp: card_gt_0_iff)
      then show "card (open_ops h (mark m i lin)) < n"
        using open_ops_mark [OF ok(2) Suc.prems(1) inv] that Suc.prems(2) by simp
    qed
    have "\<not> list_all id lin" using all_flags_iff [OF wf Suc.prems(1)] False by simp
    moreover have "Ex (candidate C tk h m lin s) \<longleftrightarrow> extendable C tk h lin s" for s
      unfolding extendable_step [OF wf ok(2) Suc.prems(1) False] candidate_def by simp
    ultimately show ?thesis
      using rec_for_correct [OF ok Suc.prems(1) step, of 0] by (auto simp: decides_def)
  qed
qed

lemma Check_recursive_decides:
  assumes "checkable C tk h"
  shows "Check_recursive C tk h = Inr (linearizable C tk h)"
proof -
  note wf = checkableD [OF assms]
  obtain m where m: "get_inv_res_mapping h = Inr m" "matching h m"
    by (rule get_inv_res_mapping_matching [OF wf])
  have "card (open_ops h (replicate (length h) False)) \<le> card {..<length h}"
    by (rule card_mono) (auto simp: open_ops_def invokes_def)
  then have "decides (recursive_step (Suc (length h)) C tk h m) C tk h (replicate (length h) False)"
    by (intro recursive_step_correct assms m closed_flags_initial) simp
  then obtain lin' where "recursive_step (Suc (length h)) C tk h m (replicate (length h) False)
      (first_state C) = Inr (extendable C tk h (replicate (length h) False) (first_state C), lin')"
    by (rule decidesE)
  moreover have "linearizable C tk []" by (auto simp: linearizable_def linearization_def
      invokes_def real_time_def intro!: exI [of _ "[]"])
  ultimately show ?thesis
    using m linearizable_iff_extendable [OF assms]
    by (auto simp: Check_recursive_def simp del: recursive_step.simps)
qed

end
