(* ===== verification/WGL_Correctness.thy ===== *)
theory WGL_Correctness
  imports Lincheck_WGL
begin

text \<open>
  Correctness of the iterative checker. The invariant of its loop says that the stacks
  describe a chain of operations from the first state to the current one, that at every
  level of the chain all operations before the one that was chosen cannot be completed to a
  linearization, and that every configuration in the cache either is on the chain or cannot
  be completed. Termination is shown with a lexicographic rank of the stack.
\<close>

section \<open>The invariant\<close>

definition exhausted ::
    "('a, 's) linearizability_checker \<Rightarrow> ('r, 'a, 'c) task_store \<Rightarrow> 'r history_event list
      \<Rightarrow> (nat \<rightharpoonup> nat) \<Rightarrow> bool list \<Rightarrow> 's \<Rightarrow> nat \<Rightarrow> bool" where
  "exhausted C tk h m lin s k \<longleftrightarrow> (\<forall>r < k. \<not> is_invoke (h ! r) \<longrightarrow> lin ! r)
     \<and> (\<forall>i < k. \<not> candidate C tk h m lin s i)"

fun chain ::
    "('a, 's) linearizability_checker \<Rightarrow> ('r, 'a, 'c) task_store \<Rightarrow> 'r history_event list
      \<Rightarrow> (nat \<rightharpoonup> nat) \<Rightarrow> bool list \<Rightarrow> 's \<Rightarrow> nat list \<Rightarrow> 's list \<Rightarrow> bool" where
  "chain C tk h m lin s [] [] \<longleftrightarrow> lin = replicate (length h) False \<and> s = first_state C"
| "chain C tk h m lin s (i # os) (s0 # ss) \<longleftrightarrow>
     (\<exists>lin0. lin = mark m i lin0 \<and> s = after C tk h i s0 \<and> closed_flags h lin0
        \<and> minimal_op h lin0 i \<and> accepts C tk h i s0 \<and> exhausted C tk h m lin0 s0 i
        \<and> chain C tk h m lin0 s0 os ss)"
| "chain C tk h m lin s _ _ \<longleftrightarrow> False"

fun on_chain :: "(nat \<rightharpoonup> nat) \<Rightarrow> bool list \<Rightarrow> 's \<Rightarrow> nat list \<Rightarrow> 's list \<Rightarrow> (bool list \<times> 's) set" where
  "on_chain m lin s (i # os) (s0 # ss) =
     insert (lin, s) (on_chain m (unmark m i lin) s0 os ss)"
| "on_chain m lin s _ _ = {}"

definition wgl_inv ::
    "('a, 's) linearizability_checker \<Rightarrow> ('r, 'a, 'c) task_store \<Rightarrow> 'r history_event list
      \<Rightarrow> (nat \<rightharpoonup> nat) \<Rightarrow> 's wgl_state \<Rightarrow> bool" where
  "wgl_inv C tk h m st \<longleftrightarrow>
     closed_flags h (linearized st)
     \<and> linearized_entries_count st + card (unset (linearized st)) = length h
     \<and> chain C tk h m (linearized st) (data_structure_state st)
         (open_sections_stack st) (states_stack st)
     \<and> exhausted C tk h m (linearized st) (data_structure_state st) (current_section_start st)
     \<and> (\<forall>(l, t) \<in> set (states_cache st). \<not> extendable C tk h l t
          \<or> (l, t) \<in> on_chain m (linearized st) (data_structure_state st)
                         (open_sections_stack st) (states_stack st))"

section \<open>Flags and counts\<close>

lemma card_unset_mark:
  assumes "matching h m" and "closed_flags h lin" and "i \<in> open_ops h lin"
  shows "card (unset (mark m i lin)) + entries m i = card (unset lin)"
proof -
  have i: "i < length lin" "\<not> lin ! i" using assms(2,3) by (auto simp: open_ops_def invokes_def)
  show ?thesis
  proof (cases "m i")
    case None
    have "i \<in> unset lin" using i by (simp add: unset_def)
    then have "Suc (card (unset lin - {i})) = card (unset lin)"
      by (rule card_Suc_Diff1 [OF finite_unset])
    with None show ?thesis by (simp only: mark_def entries_def unset_update_True option.case) simp
  next
    case (Some r)
    then have r: "responds h i r" using matchingD [OF assms(1)] by simp
    then have sub: "{i, r} \<subseteq> unset lin" and "i \<noteq> r"
      using i closed_flagsD [OF assms(2) r] assms(2) by (auto simp: unset_def responds_def)
    then have "card (unset lin - {i, r}) = card (unset lin) - 2" and "2 \<le> card (unset lin)"
      using card_Diff_subset [OF _ sub] card_mono [OF _ sub] by simp_all
    moreover have "unset lin - {i} - {r} = unset lin - {i, r}" by blast
    ultimately show ?thesis using Some by (simp add: mark_def entries_def unset_update_True)
  qed
qed

lemma entries_pos: "0 < entries m i"
  by (simp add: entries_def)

lemma chain_stack_length:
  assumes "matching h m"
  shows "chain C tk h m lin s os ss \<Longrightarrow> length os + card (open_ops h lin) = card (invokes h)"
proof (induction os arbitrary: lin s ss)
  case Nil
  then show ?case by (cases ss) (simp_all add: open_ops_initial)
next
  case (Cons i os)
  then obtain s0 ss' lin0 where c: "ss = s0 # ss'" "lin = mark m i lin0" "closed_flags h lin0"
      "minimal_op h lin0 i" "chain C tk h m lin0 s0 os ss'"
    by (cases ss) auto
  have i: "i \<in> open_ops h lin0" "i \<in> invokes h" using c(4) by (auto simp: minimal_op_def open_ops_def)
  have "finite (open_ops h lin0)" by (simp add: open_ops_def)
  then have "card (open_ops h lin0) = Suc (card (open_ops h lin))"
    using open_ops_mark [OF assms c(3) i(2)] i(1) c(2) card_Suc_Diff1 by fastforce
  with Cons.IH [OF c(5)] show ?case by simp
qed

lemma chain_stack_bound:
  assumes "matching h m" and "chain C tk h m lin s os ss" and "i \<in> open_ops h lin"
  shows "length os < length h"
proof -
  have "finite (open_ops h lin)" by (simp add: open_ops_def)
  then have "0 < card (open_ops h lin)" using assms(3) by (auto simp: card_gt_0_iff)
  moreover have "card (invokes h) \<le> card {..<length h}"
    by (rule card_mono) (auto simp: invokes_def)
  ultimately show ?thesis using chain_stack_length [OF assms(1,2)] by simp
qed

lemma on_chain_open:
  assumes "matching h m"
  shows "chain C tk h m lin s os ss \<Longrightarrow> (l, t) \<in> on_chain m lin s os ss
    \<Longrightarrow> card (open_ops h lin) \<le> card (open_ops h l)"
proof (induction os arbitrary: lin s ss)
  case Nil
  then show ?case by (cases ss) simp_all
next
  case (Cons i os)
  then obtain s0 ss' lin0 where c: "ss = s0 # ss'" "lin = mark m i lin0" "closed_flags h lin0"
      "minimal_op h lin0 i" "chain C tk h m lin0 s0 os ss'"
    by (cases ss) auto
  have i: "i \<in> invokes h" "\<not> lin0 ! i" using c(4) by (auto simp: minimal_op_def open_ops_def)
  have "finite (open_ops h lin0)" by (simp add: open_ops_def)
  then have le: "card (open_ops h lin) \<le> card (open_ops h lin0)"
    unfolding c(2) open_ops_mark [OF assms c(3) i(1)] by (auto intro: card_mono)
  have "unmark m i lin = lin0" using unmark_mark [OF assms c(3) i(2)] c(2) by simp
  with Cons.prems(2) c(1) Cons.IH [OF c(5)] le show ?case by auto
qed

section \<open>What an exhausted level means\<close>

lemma exhausted_Suc:
  "exhausted C tk h m lin s k \<Longrightarrow> (\<not> is_invoke (h ! k) \<longrightarrow> lin ! k)
     \<Longrightarrow> \<not> candidate C tk h m lin s k \<Longrightarrow> exhausted C tk h m lin s (Suc k)"
  by (auto simp: exhausted_def less_Suc_eq)

lemma exhausted_response:
  assumes "wf_history h" "matching h m" "closed_flags h lin"
    and "exhausted C tk h m lin s k" and "k < length h" "\<not> is_invoke (h ! k)" "\<not> lin ! k"
  shows "\<not> extendable C tk h lin s"
proof -
  obtain b where b: "responds h b k" using response_has_invoke [OF assms(1,5,6)] ..
  have "b \<in> open_ops h lin"
    using closed_flagsD [OF assms(3) b] respondsD(3) [OF b] assms(7) by (simp add: open_ops_def)
  then have "open_ops h lin \<noteq> {}" by blast
  moreover have "\<not> candidate C tk h m lin s i" for i
    using assms(4-7) by (cases i k rule: linorder_cases)
      (auto simp: exhausted_def candidate_def minimal_op_def open_ops_def invokes_def)
  ultimately show ?thesis
    unfolding extendable_step [OF assms(1-3) \<open>open_ops h lin \<noteq> {}\<close>] by (simp add: candidate_def)
qed

text \<open>The scan never passes the end of the history: only pending operations would be left there,
  and they can always be appended.\<close>

lemma extendable_pending:
  assumes "checkable C tk h" and "\<forall>i \<in> open_ops h lin. \<not> completed h i"
  shows "extendable C tk h lin s"
proof -
  let ?p = "sorted_list_of_set (open_ops h lin)"
  have fin: "finite (open_ops h lin)" by (simp add: open_ops_def)
  then have "\<forall>i \<in> set ?p. i \<in> invokes h \<and> \<not> completed h i" using assms(2) by (auto simp: open_ops_def)
  then have "legal C tk h s ?p" "real_time h ?p"
    by (simp_all add: real_time_def legal_pending [OF assms(1)] sorted_wrt_pending)
  then show ?thesis using fin by (auto simp: extendable_def intro!: exI [of _ ?p])
qed

lemma exhausted_end:
  assumes "checkable C tk h" "matching h m" "closed_flags h lin"
    and "exhausted C tk h m lin s (length h)"
  shows "open_ops h lin = {}"
proof (rule ccontr)
  assume "open_ops h lin \<noteq> {}"
  then obtain i where i: "i \<in> open_ops h lin" by blast
  then have inv: "i \<in> invokes h" "i < length h" by (auto simp: open_ops_def invokes_def)
  have pend: "\<not> completed h j" if "j \<in> open_ops h lin" for j
    using that assms(4) closed_flagsD [OF assms(3)]
    by (auto simp: completed_def open_ops_def exhausted_def responds_def)
  then have "accepts C tk h i s" using checkable_accepts_pending [OF assms(1) inv(1)] i by blast
  moreover have "minimal_op h lin i" using i assms(4) inv(2) by (auto simp: minimal_op_def exhausted_def)
  moreover have "extendable C tk h (mark m i lin) (after C tk h i s)"
    using pend open_ops_mark [OF assms(2,3) inv(1)] by (intro extendable_pending [OF assms(1)]) auto
  ultimately show False using assms(4) inv(2) by (auto simp: exhausted_def candidate_def)
qed

lemma chain_extendable:
  assumes "wf_history h" "matching h m"
  shows "chain C tk h m lin s os ss \<Longrightarrow> extendable C tk h lin s
    \<Longrightarrow> extendable C tk h (replicate (length h) False) (first_state C)"
proof (induction os arbitrary: lin s ss)
  case Nil
  then show ?case by (cases ss) simp_all
next
  case (Cons i os)
  then obtain s0 ss' lin0 where c: "ss = s0 # ss'" "lin = mark m i lin0" "s = after C tk h i s0"
      "closed_flags h lin0" "minimal_op h lin0 i" "accepts C tk h i s0"
      "chain C tk h m lin0 s0 os ss'"
    by (cases ss) auto
  have ne: "open_ops h lin0 \<noteq> {}" using c(5) by (auto simp: minimal_op_def)
  have "extendable C tk h lin0 s0"
    unfolding extendable_step [OF assms c(4) ne] using c(2,3,5,6) Cons.prems(2) by blast
  then show ?case by (rule Cons.IH [OF c(7)])
qed

section \<open>The rank of a configuration\<close>

definition wgl_rank :: "nat \<Rightarrow> nat list \<Rightarrow> nat \<Rightarrow> nat list" where
  "wgl_rank n os c = map (\<lambda>i. 2 * (n - i) + 1) (rev os) @ (2 * (n - c) + 2) # replicate (n - length os) 0"

lemma lex_first_difference:
  "x < y \<Longrightarrow> length xs = length ys \<Longrightarrow> (pre @ x # xs, pre @ y # ys) \<in> lex less_than"
  by (auto simp: lex_conv)

lemma wgl_rank_advance: "c < n \<Longrightarrow> (wgl_rank n os (Suc c), wgl_rank n os c) \<in> lex less_than"
  unfolding wgl_rank_def by (rule lex_first_difference) auto

lemma wgl_rank_push:
  "length os < n \<Longrightarrow> (wgl_rank n (c # os) 0, wgl_rank n os c) \<in> lex less_than"
  unfolding wgl_rank_def by (simp add: lex_first_difference)

lemma wgl_rank_pop:
  "i < n \<Longrightarrow> length os < n \<Longrightarrow> (wgl_rank n os (Suc i), wgl_rank n (i # os) c) \<in> lex less_than"
  unfolding wgl_rank_def by (simp add: lex_first_difference)

section \<open>The passes of the loop\<close>

lemma wgl_inv_advance:
  assumes "wgl_inv C tk h m st"
    and "\<not> is_invoke (h ! current_section_start st) \<longrightarrow> linearized st ! current_section_start st"
    and "\<not> candidate C tk h m (linearized st) (data_structure_state st) (current_section_start st)"
  shows "wgl_inv C tk h m (st\<lparr>current_section_start := Suc (current_section_start st)\<rparr>)"
  using assms by (auto simp: wgl_inv_def intro: exhausted_Suc)

lemma wgl_inv_push:
  assumes "checkable C tk h" "matching h m" "wgl_inv C tk h m st"
    and i: "i = current_section_start st" "i \<in> open_ops h (linearized st)"
    and acc: "accepts C tk h i (data_structure_state st)"
    and s': "s' = after C tk h i (data_structure_state st)"
  shows "wgl_inv C tk h m
    (st\<lparr>linearized := mark m i (linearized st),
        linearized_entries_count := linearized_entries_count st + entries m i,
        states_cache := (mark m i (linearized st), s') # states_cache st,
        open_sections_stack := i # open_sections_stack st,
        states_stack := data_structure_state st # states_stack st,
        data_structure_state := s', current_section_start := 0\<rparr>)"
proof -
  note inv = assms(3) [unfolded wgl_inv_def]
  have io: "i \<in> invokes h" "\<not> linearized st ! i" using i(2) by (auto simp: open_ops_def)
  have min: "minimal_op h (linearized st) i"
    using inv i by (auto simp: minimal_op_def exhausted_def)
  have un: "unmark m i (mark m i (linearized st)) = linearized st"
    using unmark_mark [OF assms(2)] inv io by blast
  have "closed_flags h (mark m i (linearized st))"
    using closed_flags_mark [OF checkableD [OF assms(1)] assms(2)] inv io by blast
  moreover have "chain C tk h m (mark m i (linearized st)) s' (i # open_sections_stack st)
      (data_structure_state st # states_stack st)"
    using inv min acc s' i(1) by auto
  moreover have "card (unset (mark m i (linearized st))) + entries m i = card (unset (linearized st))"
    using card_unset_mark [OF assms(2)] inv i(2) by blast
  ultimately show ?thesis
    using inv un by (auto simp: wgl_inv_def exhausted_def)
qed

lemma wgl_inv_backtrack:
  assumes "checkable C tk h" "matching h m" "wgl_inv C tk h m st"
    and c: "current_section_start st < length h" "\<not> is_invoke (h ! current_section_start st)"
      "\<not> linearized st ! current_section_start st"
  shows "case wgl_response m st of
      None \<Rightarrow> \<not> extendable C tk h (replicate (length h) False) (first_state C)
    | Some st' \<Rightarrow> wgl_inv C tk h m st'
        \<and> (wgl_rank (length h) (open_sections_stack st') (current_section_start st'),
           wgl_rank (length h) (open_sections_stack st) (current_section_start st)) \<in> lex less_than"
proof -
  note inv = assms(3) [unfolded wgl_inv_def]
  from inv have cf: "closed_flags h (linearized st)"
    and ex: "exhausted C tk h m (linearized st) (data_structure_state st) (current_section_start st)"
    by simp_all
  have no: "\<not> extendable C tk h (linearized st) (data_structure_state st)"
    by (rule exhausted_response [OF checkableD [OF assms(1)] assms(2) cf ex c])
  show ?thesis
  proof (cases "open_sections_stack st")
    case Nil
    with inv have "linearized st = replicate (length h) False" "data_structure_state st = first_state C"
      by (cases "states_stack st"; simp)+
    with Nil no show ?thesis by (simp add: wgl_response_def)
  next
    case (Cons i os)
    with inv obtain s0 ss lin0 where d: "states_stack st = s0 # ss" "linearized st = mark m i lin0"
        "data_structure_state st = after C tk h i s0" "closed_flags h lin0" "minimal_op h lin0 i"
        "exhausted C tk h m lin0 s0 i" "chain C tk h m lin0 s0 os ss"
      by (cases "states_stack st") auto
    have io: "i \<in> open_ops h lin0" "i < length h" "is_invoke (h ! i)" "\<not> lin0 ! i"
      using d(5) by (auto simp: minimal_op_def open_ops_def invokes_def)
    have un: "unmark m i (linearized st) = lin0" using unmark_mark [OF assms(2) d(4) io(4)] d(2) by simp
    have "\<not> candidate C tk h m lin0 s0 i" using no d(2,3) by (simp add: candidate_def)
    then have "exhausted C tk h m lin0 s0 (Suc i)" using exhausted_Suc [OF d(6)] io(3) by simp
    moreover have "linearized_entries_count st - entries m i + card (unset lin0) = length h"
      using card_unset_mark [OF assms(2) d(4) io(1)] inv d(2) c(1) card_unset_le [of "lin0"] d(4)
      by auto
    moreover have "length os < length h"
      by (rule chain_stack_bound [OF assms(2) d(7) io(1)])
    ultimately show ?thesis
      using Cons d un inv no io(2) wgl_rank_pop [of i "length h" os]
      by (auto simp: wgl_response_def wgl_inv_def)
  qed
qed

lemma wgl_init_inv: "wgl_inv C tk h m (wgl_init C h)"
  by (simp add: wgl_inv_def wgl_init_def closed_flags_initial exhausted_def)

lemma wgl_invoke_eq:
  assumes "checkable C tk h" "matching h m" "closed_flags h (linearized st)"
    and i: "i = current_section_start st" "i \<in> open_ops h (linearized st)" "h ! i = Invoke t x"
    and s': "s' = after C tk h i (data_structure_state st)"
  shows "wgl_invoke C T m (tk t) st =
    Inr (if accepts C tk h i (data_structure_state st)
            \<and> \<not> cache_contains T (states_cache st) (mark m i (linearized st), s')
         then st\<lparr>linearized := mark m i (linearized st),
                 linearized_entries_count := linearized_entries_count st + entries m i,
                 states_cache := (mark m i (linearized st), s') # states_cache st,
                 open_sections_stack := i # open_sections_stack st,
                 states_stack := data_structure_state st # states_stack st,
                 data_structure_state := s', current_section_start := 0\<rparr>
         else st\<lparr>current_section_start := Suc i\<rparr>)"
proof -
  have inv: "i \<in> invokes h" "\<not> linearized st ! i" using i(2) by (auto simp: open_ops_def)
  have un: "unmark m i (mark m i (linearized st)) = linearized st"
    by (rule unmark_mark [OF assms(2,3) inv(2)])
  from assms(1) inv i(3) obtain mth where me:
      "specification_methods C (co_name (tk t)) = Some mth"
      and cmp: "completed h i \<Longrightarrow> co_is_returned (tk t)
        \<and> (\<exists>b. vw_eq (snd (mth (data_structure_state st) (co_args (tk t)))) (co_ret (tk t)) = Inr b)"
    by (fastforce simp: checkable_def)
  obtain u v where uv: "mth (data_structure_state st) (co_args (tk t)) = (u, v)" by fastforce
  have u: "u = s'" using s' i(3) me uv by (simp add: after_def run_method_def)
  have "matches m i v (tk t) = Inr (accepts C tk h i (data_structure_state st))"
  proof (cases "completed h i")
    case True
    then have "m i \<noteq> None" using matching_None [OF assms(2), of i] by simp
    with True cmp uv i(3) me show ?thesis
      by (auto simp: matches_def GetRetVal_def accepts_def run_method_def)
  next
    case False
    then have "m i = None" using matching_None [OF assms(2), of i] by simp
    with checkable_accepts_pending [OF assms(1) inv(1) False] show ?thesis by (simp add: matches_def)
  qed
  with me uv u i(1) un show ?thesis by (auto simp: wgl_invoke_def Let_def)
qed

section \<open>The loop decides linearizability\<close>

context linear_specification
begin

lemma cache_hit:
  assumes "SpecificationObjectEqual T = equal" and "matching h m" "wgl_inv C tk h m st"
    and "i \<in> open_ops h (linearized st)"
    and hit: "cache_contains T (states_cache st) (mark m i (linearized st), s')"
  shows "\<not> extendable C tk h (mark m i (linearized st)) s'"
proof -
  note inv = assms(3) [unfolded wgl_inv_def]
  from hit assms(1) obtain t where t: "(mark m i (linearized st), t) \<in> set (states_cache st)"
      "equal s' t"
    by (auto simp: cache_contains_def PairEqual_def list_ex_iff)
  have io: "i \<in> invokes h" using assms(4) by (simp add: open_ops_def)
  have cf: "closed_flags h (linearized st)" using inv by simp
  have "finite (open_ops h (linearized st))" by (simp add: open_ops_def)
  then have "card (open_ops h (mark m i (linearized st))) < card (open_ops h (linearized st))"
    unfolding open_ops_mark [OF assms(2) cf io] using assms(4) by (rule card_Diff1_less)
  then have "(mark m i (linearized st), t) \<notin> on_chain m (linearized st) (data_structure_state st)
      (open_sections_stack st) (states_stack st)"
    using on_chain_open [OF assms(2)] inv by (meson not_le)
  with inv t(1) have "\<not> extendable C tk h (mark m i (linearized st)) t" by auto
  with extendable_cong [OF t(2)] show ?thesis by blast
qed

lemma wgl_iteration_correct:
  assumes "SpecificationObjectEqual T = equal" and "checkable C tk h" "matching h m" "wgl_inv C tk h m st"
    and "linearized_entries_count st \<noteq> length h"
  shows "\<exists>r. wgl_iteration C T tk h m st = Inr r \<and>
    (case r of None \<Rightarrow> \<not> extendable C tk h (replicate (length h) False) (first_state C)
     | Some st' \<Rightarrow> wgl_inv C tk h m st'
         \<and> (wgl_rank (length h) (open_sections_stack st') (current_section_start st'),
            wgl_rank (length h) (open_sections_stack st) (current_section_start st)) \<in> lex less_than)"
proof -
  note inv = assms(4) [unfolded wgl_inv_def]
  let ?c = "current_section_start st" and ?lin = "linearized st" and ?s = "data_structure_state st"
  have cf: "closed_flags h ?lin" and ch: "chain C tk h m ?lin ?s (open_sections_stack st) (states_stack st)"
    using inv by simp_all
  have open_ne: "open_ops h ?lin \<noteq> {}"
    using inv assms(5) all_flags_iff [OF checkableD [OF assms(2)] cf] unset_empty_iff [of ?lin] by auto
  have c: "?c < length h"
  proof (rule ccontr)
    assume "\<not> ?c < length h"
    then have "exhausted C tk h m ?lin ?s (length h)" using inv by (auto simp: exhausted_def)
    with open_ne show False using exhausted_end [OF assms(2,3) cf] by blast
  qed
  have adv: "?thesis" if "wgl_iteration C T tk h m st = Inr (Some (st\<lparr>current_section_start := Suc ?c\<rparr>))"
      "\<not> is_invoke (h ! ?c) \<longrightarrow> ?lin ! ?c" "\<not> candidate C tk h m ?lin ?s ?c"
    using that wgl_inv_advance [OF assms(4)] wgl_rank_advance [OF c] by simp
  show ?thesis
  proof (cases "?lin ! ?c")
    case True
    then show ?thesis
      using c cf by (intro adv) (auto simp: wgl_iteration_def Let_def candidate_def minimal_op_def open_ops_def)
  next
    case flag: False
    show ?thesis
    proof (cases "h ! ?c")
      case (Invoke t x)
      then have op: "?c \<in> open_ops h ?lin" using flag c by (simp add: open_ops_def invokes_def)
      note eq = wgl_invoke_eq [OF assms(2,3) cf refl op Invoke refl, of T]
      show ?thesis
      proof (cases "accepts C tk h ?c ?s \<and>
          \<not> cache_contains T (states_cache st) (mark m ?c ?lin, after C tk h ?c ?s)")
        case True
        have "length (open_sections_stack st) < length h"
          by (rule chain_stack_bound [OF assms(3) ch op])
        then show ?thesis
          using True eq flag c cf Invoke wgl_inv_push [OF assms(2-4) refl op _ refl] wgl_rank_push
          by (simp add: wgl_iteration_def Let_def)
      next
        case False
        then have "\<not> candidate C tk h m ?lin ?s ?c"
          using cache_hit [OF assms(1,3,4) op] by (auto simp: candidate_def)
        with False eq flag c cf Invoke show ?thesis by (intro adv) (auto simp: wgl_iteration_def Let_def)
      qed
    next
      case (Response t v x)
      then show ?thesis
        using wgl_inv_backtrack [OF assms(2-4) c] flag c cf by (simp add: wgl_iteration_def Let_def)
    qed
  qed
qed

lemma wgl_loop_correct:
  assumes "SpecificationObjectEqual T = equal" and "checkable C tk h" "matching h m"
  shows "wgl_inv C tk h m st \<Longrightarrow> wgl_loop C T tk h m st = Some (Inr (linearizable C tk h))"
proof (induction "wgl_rank (length h) (open_sections_stack st) (current_section_start st)"
    arbitrary: st rule: wf_induct_rule [OF wf_lex [OF wf_less_than]])
  case (1 st)
  note wf = checkableD [OF assms(2)]
  show ?case
  proof (cases "linearized_entries_count st = length h")
    case True
    with "1.prems" have cf: "closed_flags h (linearized st)" and "unset (linearized st) = {}"
      by (auto simp: wgl_inv_def)
    then have "open_ops h (linearized st) = {}"
      using all_flags_iff [OF wf cf] unset_empty_iff [of "linearized st"] by simp
    then have ext: "extendable C tk h (linearized st) (data_structure_state st)" by (rule extendable_done)
    have ch: "chain C tk h m (linearized st) (data_structure_state st)
        (open_sections_stack st) (states_stack st)"
      using "1.prems" by (simp add: wgl_inv_def)
    have "linearizable C tk h"
      unfolding linearizable_iff_extendable [OF assms(2)]
      by (rule chain_extendable [OF wf assms(3) ch ext])
    with True show ?thesis by (simp add: wgl_loop.simps)
  next
    case False
    then show ?thesis
      using wgl_iteration_correct [OF assms "1.prems" False] "1.hyps"
        linearizable_iff_extendable [OF assms(2)]
      by (auto simp: wgl_loop.simps [of C T tk h m st] split: option.splits)
  qed
qed

lemma Check_wgl_decides:
  assumes "SpecificationObjectEqual T = equal" and "checkable C tk h"
  shows "Check_wgl C T tk h = Some (Inr (linearizable C tk h))"
proof -
  obtain m where "get_inv_res_mapping h = Inr m" "matching h m"
    by (rule get_inv_res_mapping_matching [OF checkableD [OF assms(2)]])
  then show ?thesis
    using wgl_loop_correct [OF assms _ wgl_init_inv] by (simp add: Check_wgl_def)
qed

end

end
