(* ===== verification/Seq_Specs.thy ===== *)
theory Seq_Specs
  imports WGL_Correctness
begin

text \<open>
  The sequential specifications under \<open>verifying/specs/\<close>, with their method tables
  (\<open>GetMethods\<close>), hash and equality functions, and the specification that
  \<open>verifying/targets/deadlock.cpp\<close> supplies. The template parameters \<open>PushArgTuple\<close> and
  \<open>ValueIndex\<close> of the queue, the stack and the set select the value argument from the tuple of
  arguments; they are the parameter \<open>value_of\<close>. Each specification is an instance of the
  locale \<open>linear_specification\<close>, so both checkers decide linearizability for it.
\<close>

section \<open>Queue (queue.h)\<close>

record queue =
  q_deq :: "int list"

definition Queue_Push :: "int \<Rightarrow> queue \<Rightarrow> queue" where
  "Queue_Push v q = q\<lparr>q_deq := q_deq q @ [v]\<rparr>"

definition Queue_Pop :: "queue \<Rightarrow> queue \<times> int" where
  "Queue_Pop q = (case q_deq q of [] \<Rightarrow> (q, 0) | res # rest \<Rightarrow> (q\<lparr>q_deq := rest\<rparr>, res))"

definition Queue_GetMethods :: "('a \<Rightarrow> int) \<Rightarrow> string \<rightharpoonup> ('a, queue) spec_method" where
  "Queue_GetMethods value_of =
     [''Push'' \<mapsto> \<lambda>l args. (Queue_Push (value_of args) l, void_v),
      ''Pop'' \<mapsto> \<lambda>l args. (let (l', r) = Queue_Pop l in (l', vw_int r))]"

text \<open>The elements are summed up in an \<open>int\<close>, which is then converted to \<open>size_t\<close>.\<close>

definition int_hash :: "int \<Rightarrow> 64 word" where
  "int_hash res = scast (word_of_int res :: 32 word)"

definition QueueHash :: "queue \<Rightarrow> 64 word" where
  "QueueHash r = int_hash (sum_list (q_deq r))"

definition QueueEquals :: "queue \<Rightarrow> queue \<Rightarrow> bool" where
  "QueueEquals lhs rhs \<longleftrightarrow> q_deq lhs = q_deq rhs"

definition Queue_checker :: "('a \<Rightarrow> int) \<Rightarrow> ('a, queue) linearizability_checker" where
  "Queue_checker value_of =
     \<lparr>specification_methods = Queue_GetMethods value_of, first_state = \<lparr>q_deq = []\<rparr>\<rparr>"

section \<open>Bounded queue (bounded\_queue.h)\<close>

definition bounded_size :: nat where
  "bounded_size = 2"

definition Bounded_Push :: "int \<Rightarrow> queue \<Rightarrow> queue \<times> int" where
  "Bounded_Push v q =
     (if bounded_size \<le> length (q_deq q) then (q, 0) else (q\<lparr>q_deq := q_deq q @ [v]\<rparr>, 1))"

definition Bounded_Pop :: "queue \<Rightarrow> queue \<times> int" where
  "Bounded_Pop q = (case q_deq q of [] \<Rightarrow> (q, 0) | res # rest \<Rightarrow> (q\<lparr>q_deq := rest\<rparr>, res))"

definition Bounded_GetMethods :: "('a \<Rightarrow> int) \<Rightarrow> string \<rightharpoonup> ('a, queue) spec_method" where
  "Bounded_GetMethods value_of =
     [''Push'' \<mapsto> \<lambda>l args. (let (l', r) = Bounded_Push (value_of args) l in (l', vw_int r)),
      ''Pop'' \<mapsto> \<lambda>l args. (let (l', r) = Bounded_Pop l in (l', vw_int r))]"

definition Bounded_checker :: "('a \<Rightarrow> int) \<Rightarrow> ('a, queue) linearizability_checker" where
  "Bounded_checker value_of =
     \<lparr>specification_methods = Bounded_GetMethods value_of, first_state = \<lparr>q_deq = []\<rparr>\<rparr>"

section \<open>Stack (stack.h)\<close>

record stack =
  s_deq :: "int list"

definition Stack_Push :: "int \<Rightarrow> stack \<Rightarrow> stack" where
  "Stack_Push v s = s\<lparr>s_deq := s_deq s @ [v]\<rparr>"

definition Stack_Pop :: "stack \<Rightarrow> stack \<times> int" where
  "Stack_Pop s =
     (if s_deq s = [] then (s, 0) else (s\<lparr>s_deq := butlast (s_deq s)\<rparr>, last (s_deq s)))"

definition Stack_GetMethods :: "('a \<Rightarrow> int) \<Rightarrow> string \<rightharpoonup> ('a, stack) spec_method" where
  "Stack_GetMethods value_of =
     [''Push'' \<mapsto> \<lambda>l args. (Stack_Push (value_of args) l, void_v),
      ''Pop'' \<mapsto> \<lambda>l args. (let (l', r) = Stack_Pop l in (l', vw_int r))]"

definition StackHash :: "stack \<Rightarrow> 64 word" where
  "StackHash r = int_hash (sum_list (s_deq r))"

definition StackEquals :: "stack \<Rightarrow> stack \<Rightarrow> bool" where
  "StackEquals lhs rhs \<longleftrightarrow> s_deq lhs = s_deq rhs"

definition Stack_checker :: "('a \<Rightarrow> int) \<Rightarrow> ('a, stack) linearizability_checker" where
  "Stack_checker value_of =
     \<lparr>specification_methods = Stack_GetMethods value_of, first_state = \<lparr>s_deq = []\<rparr>\<rparr>"

section \<open>Set (set.h)\<close>

record int_set =
  set_st :: "int set"

definition Set_Insert :: "int \<Rightarrow> int_set \<Rightarrow> int_set \<times> int" where
  "Set_Insert v s = (s\<lparr>set_st := insert v (set_st s)\<rparr>, if v \<in> set_st s then 0 else 1)"

definition Set_Erase :: "int \<Rightarrow> int_set \<Rightarrow> int_set \<times> int" where
  "Set_Erase v s = (s\<lparr>set_st := set_st s - {v}\<rparr>, if v \<in> set_st s then 1 else 0)"

definition Set_GetMethods :: "('a \<Rightarrow> int) \<Rightarrow> string \<rightharpoonup> ('a, int_set) spec_method" where
  "Set_GetMethods value_of =
     [''Insert'' \<mapsto> \<lambda>l args. (let (l', r) = Set_Insert (value_of args) l in (l', vw_int r)),
      ''Erase'' \<mapsto> \<lambda>l args. (let (l', r) = Set_Erase (value_of args) l in (l', vw_int r))]"

definition SetHash :: "int_set \<Rightarrow> 64 word" where
  "SetHash r = int_hash (\<Sum>e \<in> set_st r. e)"

definition SetEquals :: "int_set \<Rightarrow> int_set \<Rightarrow> bool" where
  "SetEquals lhs rhs \<longleftrightarrow> set_st lhs = set_st rhs"

definition Set_checker :: "('a \<Rightarrow> int) \<Rightarrow> ('a, int_set) linearizability_checker" where
  "Set_checker value_of =
     \<lparr>specification_methods = Set_GetMethods value_of, first_state = \<lparr>set_st = {}\<rparr>\<rparr>"

section \<open>Register (register.h)\<close>

record linear_register =
  reg_x :: int

definition Register_add :: "linear_register \<Rightarrow> linear_register" where
  "Register_add r = r\<lparr>reg_x := reg_x r + 1\<rparr>"

definition Register_get :: "linear_register \<Rightarrow> int" where
  "Register_get r = reg_x r"

definition Register_GetMethods :: "string \<rightharpoonup> ('a, linear_register) spec_method" where
  "Register_GetMethods =
     [''add'' \<mapsto> \<lambda>l args. (Register_add l, void_v),
      ''get'' \<mapsto> \<lambda>l args. (l, vw_int (Register_get l))]"

definition LinearRegisterHash :: "linear_register \<Rightarrow> 64 word" where
  "LinearRegisterHash r = int_hash (reg_x r)"

definition LinearRegisterEquals :: "linear_register \<Rightarrow> linear_register \<Rightarrow> bool" where
  "LinearRegisterEquals lhs rhs \<longleftrightarrow> reg_x lhs = reg_x rhs"

definition Register_checker :: "('a, linear_register) linearizability_checker" where
  "Register_checker =
     \<lparr>specification_methods = Register_GetMethods, first_state = \<lparr>reg_x = 0\<rparr>\<rparr>"

section \<open>Mutexes (mutex.h)\<close>

record linear_mutex =
  isLocked :: int

definition LinearMutex_Lock :: "linear_mutex \<Rightarrow> linear_mutex \<times> int" where
  "LinearMutex_Lock m = (if isLocked m \<noteq> 0 then (m, 1) else (m\<lparr>isLocked := 1\<rparr>, 0))"

definition LinearMutex_Unlock :: "linear_mutex \<Rightarrow> linear_mutex \<times> int" where
  "LinearMutex_Unlock m = (m\<lparr>isLocked := 0\<rparr>, 0)"

definition Mutex_GetMethods :: "string \<rightharpoonup> ('a, linear_mutex) spec_method" where
  "Mutex_GetMethods =
     [''Lock'' \<mapsto> \<lambda>l args. (let (l', r) = LinearMutex_Lock l in (l', vw_int r)),
      ''Unlock'' \<mapsto> \<lambda>l args. (let (l', r) = LinearMutex_Unlock l in (l', vw_int r))]"

definition LinearMutexHash :: "linear_mutex \<Rightarrow> 64 word" where
  "LinearMutexHash r = 0"

definition LinearMutexEquals :: "linear_mutex \<Rightarrow> linear_mutex \<Rightarrow> bool" where
  "LinearMutexEquals lhs rhs \<longleftrightarrow> False"

definition Mutex_checker :: "('a, linear_mutex) linearizability_checker" where
  "Mutex_checker = \<lparr>specification_methods = Mutex_GetMethods, first_state = \<lparr>isLocked = 0\<rparr>\<rparr>"

record shared_linear_mutex =
  locked_state :: int

definition READER :: int where "READER = 1"
definition WRITER :: int where "WRITER = - 1"
definition FREE :: int where "FREE = 0"

definition Shared_lock :: "shared_linear_mutex \<Rightarrow> shared_linear_mutex \<times> int" where
  "Shared_lock m = (if locked_state m \<noteq> FREE then (m, 1) else (m\<lparr>locked_state := WRITER\<rparr>, 0))"

definition Shared_unlock :: "shared_linear_mutex \<Rightarrow> shared_linear_mutex \<times> int" where
  "Shared_unlock m = (m\<lparr>locked_state := FREE\<rparr>, 0)"

definition Shared_lock_shared :: "shared_linear_mutex \<Rightarrow> shared_linear_mutex \<times> int" where
  "Shared_lock_shared m =
     (if locked_state m = WRITER then (m, 1) else (m\<lparr>locked_state := locked_state m + READER\<rparr>, 0))"

definition Shared_unlock_shared :: "shared_linear_mutex \<Rightarrow> shared_linear_mutex \<times> int" where
  "Shared_unlock_shared m = (m\<lparr>locked_state := locked_state m - READER\<rparr>, 0)"

definition Shared_GetMethods :: "string \<rightharpoonup> ('a, shared_linear_mutex) spec_method" where
  "Shared_GetMethods =
     [''lock'' \<mapsto> \<lambda>l args. (let (l', r) = Shared_lock l in (l', vw_int r)),
      ''unlock'' \<mapsto> \<lambda>l args. (let (l', r) = Shared_unlock l in (l', vw_int r)),
      ''lock_shared'' \<mapsto> \<lambda>l args. (let (l', r) = Shared_lock_shared l in (l', vw_int r)),
      ''unlock_shared'' \<mapsto> \<lambda>l args. (let (l', r) = Shared_unlock_shared l in (l', vw_int r))]"

definition SharedLinearMutexHash :: "shared_linear_mutex \<Rightarrow> 64 word" where
  "SharedLinearMutexHash r = 0"

definition SharedLinearMutexEquals :: "shared_linear_mutex \<Rightarrow> shared_linear_mutex \<Rightarrow> bool" where
  "SharedLinearMutexEquals lhs rhs \<longleftrightarrow> False"

definition Shared_checker :: "('a, shared_linear_mutex) linearizability_checker" where
  "Shared_checker = \<lparr>specification_methods = Shared_GetMethods, first_state = \<lparr>locked_state = FREE\<rparr>\<rparr>"

section \<open>Unique arguments (unique\_args.h)\<close>

record unique_args_ref =
  called :: nat

definition limit :: nat where
  "limit = 3"

definition Print :: to_string_func where
  "Print a = res_bind (GetValue Type_Opt_Int a) (\<lambda>v. case v of
     Any_Opt_Int None \<Rightarrow> Inr ''{}'' | Any_Opt_Int (Some i) \<Rightarrow> Inr (to_string_int i)
   | _ \<Rightarrow> Inl Bad_Any_Cast)"

definition vw_opt :: "int option \<Rightarrow> value_wrapper" where
  "vw_opt x = vw_of (Any_Opt_Int x) (GetDefaultCompator Type_Opt_Int) Print"

definition UniqueArgs_Get :: "unique_args_ref \<Rightarrow> unique_args_ref \<times> value_wrapper" where
  "UniqueArgs_Get u =
     (let n = called u + 1 in
      if n = limit then (u\<lparr>called := 0\<rparr>, vw_opt (Some (int n))) else (u\<lparr>called := n\<rparr>, vw_opt None))"

definition UniqueArgs_GetMethods :: "string \<rightharpoonup> ('a, unique_args_ref) spec_method" where
  "UniqueArgs_GetMethods = [''Get'' \<mapsto> \<lambda>l args. UniqueArgs_Get l]"

definition UniqueArgsHash :: "unique_args_ref \<Rightarrow> 64 word" where
  "UniqueArgsHash r = of_nat (called r)"

definition UniqueArgsEquals :: "unique_args_ref \<Rightarrow> unique_args_ref \<Rightarrow> bool" where
  "UniqueArgsEquals lhs rhs \<longleftrightarrow> called lhs = called rhs"

definition UniqueArgs_checker :: "('a, unique_args_ref) linearizability_checker" where
  "UniqueArgs_checker =
     \<lparr>specification_methods = UniqueArgs_GetMethods, first_state = \<lparr>called = 0\<rparr>\<rparr>"

section \<open>The specification of the deadlock target\<close>

text \<open>The target class is its own specification; its method \<open>Lock\<close> returns the integer 0.\<close>

definition Deadlock_GetMethods :: "string \<rightharpoonup> ('a, unit) spec_method" where
  "Deadlock_GetMethods = [''Lock'' \<mapsto> \<lambda>l args. (l, vw_int 0)]"

definition Deadlock_checker :: "('a, unit) linearizability_checker" where
  "Deadlock_checker = \<lparr>specification_methods = Deadlock_GetMethods, first_state = ()\<rparr>"

section \<open>Instances of the interface\<close>

lemmas method_tables =
  Queue_checker_def Queue_GetMethods_def Bounded_checker_def Bounded_GetMethods_def
  Stack_checker_def Stack_GetMethods_def Set_checker_def Set_GetMethods_def
  Register_checker_def Register_GetMethods_def Mutex_checker_def Mutex_GetMethods_def
  Shared_checker_def Shared_GetMethods_def UniqueArgs_checker_def UniqueArgs_GetMethods_def
  Deadlock_checker_def Deadlock_GetMethods_def

text \<open>The equality functions of the containers are equality of the objects; the ones of the
  mutexes are constantly false.\<close>

lemma QueueEquals_iff: "QueueEquals x y \<longleftrightarrow> x = y"
  by (auto simp: QueueEquals_def intro: queue.equality)

lemma StackEquals_iff: "StackEquals x y \<longleftrightarrow> x = y"
  by (auto simp: StackEquals_def intro: stack.equality)

lemma SetEquals_iff: "SetEquals x y \<longleftrightarrow> x = y"
  by (auto simp: SetEquals_def intro: int_set.equality)

lemma LinearRegisterEquals_iff: "LinearRegisterEquals x y \<longleftrightarrow> x = y"
  by (auto simp: LinearRegisterEquals_def intro: linear_register.equality)

lemma UniqueArgsEquals_iff: "UniqueArgsEquals x y \<longleftrightarrow> x = y"
  by (auto simp: UniqueArgsEquals_def intro: unique_args_ref.equality)

interpretation queue_spec: linear_specification "Queue_checker value_of" QueueEquals for value_of
  by unfold_locales (simp_all add: QueueEquals_iff)

interpretation bounded_spec: linear_specification "Bounded_checker value_of" QueueEquals for value_of
  by unfold_locales (simp_all add: QueueEquals_iff)

interpretation stack_spec: linear_specification "Stack_checker value_of" StackEquals for value_of
  by unfold_locales (simp_all add: StackEquals_iff)

interpretation set_spec: linear_specification "Set_checker value_of" SetEquals for value_of
  by unfold_locales (simp_all add: SetEquals_iff)

interpretation register_spec: linear_specification Register_checker LinearRegisterEquals
  by unfold_locales (simp_all add: LinearRegisterEquals_iff)

interpretation mutex_spec: linear_specification Mutex_checker LinearMutexEquals
  by unfold_locales (auto simp: LinearMutexEquals_def)

interpretation shared_spec: linear_specification Shared_checker SharedLinearMutexEquals
  by unfold_locales (auto simp: SharedLinearMutexEquals_def)

interpretation unique_spec: linear_specification UniqueArgs_checker UniqueArgsEquals
  by unfold_locales (simp_all add: UniqueArgsEquals_iff)

interpretation deadlock_spec: linear_specification Deadlock_checker "(=)"
  by unfold_locales simp_all

end
