(* ===== verification/Checkers.thy ===== *)
theory Checkers
  imports Seq_Specs
begin

text \<open>
  The interface \<open>ModelChecker\<close> of \<open>runtime/include/lincheck.h\<close> as a locale, its two
  implementations as interpretations, and the properties of the checkers: both decide
  linearizability, so they agree (the property that the fuzz test \<open>CheckersAreTheSame\<close> of
  \<open>test/runtime/lin_check_test.cpp\<close> samples), for every specification of the repository.
\<close>

section \<open>The ModelChecker interface\<close>

text \<open>
  A checker reads the tasks of a history from the store. The contract: on the histories it
  accepts as input it returns normally and its answer is the verdict of its consistency model.
\<close>

locale model_checker =
  fixes Check :: "('r, 'a, 'c) task_store \<Rightarrow> 'r history_event list \<Rightarrow> bool res"
    and input_ok :: "('r, 'a, 'c) task_store \<Rightarrow> 'r history_event list \<Rightarrow> bool"
    and consistent :: "('r, 'a, 'c) task_store \<Rightarrow> 'r history_event list \<Rightarrow> bool"
  assumes Check_verdict: "input_ok tk h \<Longrightarrow> Check tk h = Inr (consistent tk h)"
begin

lemma Check_returns: "input_ok tk h \<Longrightarrow> \<exists>b. Check tk h = Inr b"
  by (simp add: Check_verdict)

lemma Check_False: "input_ok tk h \<Longrightarrow> Check tk h = Inr False \<longleftrightarrow> \<not> consistent tk h"
  by (simp add: Check_verdict)

lemma Check_True: "input_ok tk h \<Longrightarrow> Check tk h = Inr True \<longleftrightarrow> consistent tk h"
  by (simp add: Check_verdict)

end

text \<open>The iterative checker as an implementation of the interface: the loop of the model has
  no other value than a result (\<open>Check_wgl_total\<close>).\<close>

definition Check_wgl_result ::
    "('a, 's) linearizability_checker \<Rightarrow> 's spec_traits \<Rightarrow> ('r, 'a, 'c) task_store
      \<Rightarrow> 'r history_event list \<Rightarrow> bool res" where
  "Check_wgl_result C T tk h = (case Check_wgl C T tk h of None \<Rightarrow> Inl Out_Of_Fuel | Some r \<Rightarrow> r)"

interpretation recursive_checker:
  model_checker "Check_recursive C" "checkable C" "linearizable C" for C
  by unfold_locales (rule Check_recursive_decides)

interpretation wgl_checker:
  model_checker "Check_wgl_result C T"
    "\<lambda>tk h. linear_specification C (SpecificationObjectEqual T) \<and> checkable C tk h"
    "linearizable C" for C T
  by unfold_locales (simp add: Check_wgl_result_def linear_specification.Check_wgl_decides [OF _ refl])

section \<open>A sample history\<close>

text \<open>
  A push of 1 that overlaps a pop: the pop is invoked after the push and answers before it.
\<close>

definition finished_task :: "string \<Rightarrow> int \<Rightarrow> value_wrapper \<Rightarrow> (int, unit) coro" where
  "finished_task nm a v = (Coro_New (\<lambda>_. ()) a nm 0)\<lparr>co_ret := v, co_is_returned := True\<rparr>"

definition sample_store :: "int \<Rightarrow> nat \<Rightarrow> (int, unit) coro" where
  "sample_store popped t =
     (if t = 0 then finished_task ''Push'' 1 void_v else finished_task ''Pop'' 0 (vw_int popped))"

definition sample_history :: "int \<Rightarrow> nat history_event list" where
  "sample_history popped =
     [Invoke 0 0, Invoke 1 1, Response 1 (vw_int popped) 1, Response 0 void_v 0]"

definition pending_sample :: "nat history_event list" where
  "pending_sample = [Invoke 0 0, Invoke 1 1]"

definition queue_traits :: "queue spec_traits" where
  "queue_traits =
     \<lparr>SpecificationObjectHash = QueueHash, SpecificationObjectEqual = QueueEquals,
      vector_bool_hash = (\<lambda>l. of_nat (length l))\<rparr>"

lemma finished_task_sel [simp]:
  "co_name (finished_task nm a v) = nm" "co_args (finished_task nm a v) = a"
  "co_ret (finished_task nm a v) = v" "co_is_returned (finished_task nm a v)"
  by (simp_all add: finished_task_def Coro_New_def)

lemma sample_checkable:
  "checkable (Queue_checker id) (sample_store popped) (sample_history popped)"
proof -
  have "invokes (sample_history popped) = {0, 1}"
    by (simp add: invokes_filter sample_history_def upt_rec)
  moreover have "wf_history (sample_history popped)"
    by (simp add: wf_history_def sample_history_def)
  ultimately show ?thesis
    by (auto simp: checkable_def sample_history_def sample_store_def method_tables Queue_Pop_def
        split: list.splits)
qed

lemma queue_traits_equal [simp]: "SpecificationObjectEqual queue_traits = QueueEquals"
  by (simp add: queue_traits_def)

lemma queue_is_specification: "linear_specification (Queue_checker value_of) QueueEquals"
  by (rule queue_spec.linear_specification_axioms)

lemmas sample_eval =
  sample_history_def sample_store_def get_inv_res_mapping_def method_tables Queue_Pop_def
  Queue_Push_def GetRetVal_def upt_rec

lemma sample_recursive:
  "Check_recursive (Queue_checker id) (sample_store 1) (sample_history 1) = Inr True"
  "Check_recursive (Queue_checker id) (sample_store 2) (sample_history 2) = Inr False"
  by (simp_all add: Check_recursive_def sample_eval)

section \<open>Properties\<close>

text \<open>
  C1. The recursive checker decides linearizability: on every history whose methods the
  specification knows and whose results it can compare, \<open>Check\<close> returns, without an assertion
  or an exception, and returns true exactly when the history has a linearization.
\<close>

theorem Check_recursive_correct:
  assumes "checkable C tk h"
  shows "Check_recursive C tk h = Inr (linearizable C tk h)"
  using assms by (rule recursive_checker.Check_verdict)

theorem Check_recursive_correct_witness:
  "linearizable (Queue_checker id) (sample_store 1) (sample_history 1)
   \<and> \<not> linearizable (Queue_checker id) (sample_store 2) (sample_history 2)"
  using Check_recursive_correct [OF sample_checkable, of 1]
    Check_recursive_correct [OF sample_checkable, of 2] sample_recursive by simp

text \<open>
  C2. The iterative checker with the cache always ends (its loop is a partial function and
  has a result on every such history), never reads past the end of the history and decides
  linearizability, provided that the equality supplied for specification objects is a
  congruence for the methods.
\<close>

theorem Check_wgl_correct:
  assumes "linear_specification C (SpecificationObjectEqual T)" and "checkable C tk h"
  shows "Check_wgl C T tk h = Some (Inr (linearizable C tk h))"
  by (rule linear_specification.Check_wgl_decides [OF assms(1) refl assms(2)])

theorem Check_wgl_correct_witness:
  "Check_wgl (Queue_checker id) queue_traits (sample_store 1) (sample_history 1) = Some (Inr True)"
proof -
  have spec: "linear_specification (Queue_checker id) (SpecificationObjectEqual queue_traits)"
    by (simp add: queue_is_specification)
  from Check_wgl_correct [OF spec sample_checkable, of 1] show ?thesis
    using recursive_checker.Check_verdict [OF sample_checkable, of 1] sample_recursive by simp
qed

text \<open>
  C5. The two checkers are the same function: the optimised iterative checker returns what the
  plain recursive one returns.
\<close>

theorem checkers_are_the_same:
  assumes "linear_specification C (SpecificationObjectEqual T)" and "checkable C tk h"
  shows "Check_wgl C T tk h = Some (Check_recursive C tk h)"
  using linear_specification.Check_wgl_decides [OF assms(1) refl assms(2)]
    recursive_checker.Check_verdict [OF assms(2)] by simp

theorem checkers_are_the_same_witness:
  "Check_wgl (Queue_checker id) queue_traits (sample_store 2) (sample_history 2) = Some (Inr False)"
proof -
  have spec: "linear_specification (Queue_checker id) (SpecificationObjectEqual queue_traits)"
    by (simp add: queue_is_specification)
  from checkers_are_the_same [OF spec sample_checkable, of 2] show ?thesis
    using sample_recursive by simp
qed

text \<open>
  A history whose operations are all pending is linearizable whatever the specification:
  the checkers accept it, as the test \<open>ExtendedLinearizableHistory\<close> expects.
\<close>

theorem pending_history_accepted:
  assumes "checkable C tk h" and "list_all is_invoke h"
  shows "Check_recursive C tk h = Inr True"
proof -
  have "\<not> completed h i" for i
    using assms(2) by (auto simp: completed_def responds_def list_all_length)
  then have "extendable C tk h (replicate (length h) False) (first_state C)"
    by (intro extendable_pending [OF assms(1)]) simp
  then show ?thesis
    using recursive_checker.Check_verdict [OF assms(1)] linearizable_iff_extendable [OF assms(1)]
    by simp
qed

theorem pending_history_accepted_witness:
  "Check_recursive (Queue_checker id) (sample_store 2) pending_sample = Inr True"
proof -
  have "invokes pending_sample = {0, 1}"
    by (simp add: invokes_filter pending_sample_def upt_rec)
  moreover have "\<not> completed pending_sample i" for i
    by (auto simp: completed_def responds_def pending_sample_def less_Suc_eq)
  ultimately have "checkable (Queue_checker id) (sample_store 2) pending_sample"
    by (auto simp: checkable_def wf_history_def pending_sample_def sample_store_def method_tables)
  then show ?thesis
    by (rule pending_history_accepted) (simp add: pending_sample_def)
qed

text \<open>
  The specification of the deadlock target returns the integer 0 for its \<open>void\<close> method
  \<open>Lock\<close>, while the task returns \<open>void_v\<close>: the checker that \<open>ltest::Run\<close> uses throws
  \<open>std::bad_any_cast\<close> on the first history with a completed call.
\<close>

theorem deadlock_target_spec_throws:
  assumes "co_name (tk t) = ''Lock''" and "co_is_returned (tk t)" and "co_ret (tk t) = void_v"
  shows "Check_recursive Deadlock_checker tk [Invoke t i, Response t v i] = Inl Bad_Any_Cast"
  using assms
  by (simp add: Check_recursive_def get_inv_res_mapping_def method_tables GetRetVal_def upt_rec)

theorem deadlock_target_spec_throws_witness:
  "Check_recursive Deadlock_checker (\<lambda>t. finished_task ''Lock'' 0 void_v)
     [Invoke (0::nat) 0, Response 0 void_v 0] = Inl Bad_Any_Cast"
  by (rule deadlock_target_spec_throws) simp_all

end
