(* ===== verification/Strategy_Scheduler.thy ===== *)
theory Strategy_Scheduler
  imports Pct_Strategy Checkers
begin

text \<open>
  Model of \<open>StrategyScheduler\<close> of \<open>runtime/include/scheduler.h\<close>: running, exploring and
  replaying a round. The strategy is a record of its virtual methods (the environment is
  already applied); the checker is a function on the task store and the history. A run of
  the loops that the source leaves unbounded takes fuel from the environment.
\<close>

section \<open>The virtual methods of a strategy\<close>

record ('o, 'a, 'c, 'v, 'x) strategy_methods =
  Next :: "('o, 'a, 'c, 'v, 'x) base_strategy_scheme
    \<Rightarrow> (task_with_meta_data \<times> ('o, 'a, 'c, 'v, 'x) base_strategy_scheme) res"
  NextSchedule :: "('o, 'a, 'c, 'v, 'x) base_strategy_scheme
    \<Rightarrow> (task_with_meta_data \<times> ('o, 'a, 'c, 'v, 'x) base_strategy_scheme) res"
  StartNextRound :: "('o, 'a, 'c, 'v, 'x) base_strategy_scheme
    \<Rightarrow> ('o, 'a, 'c, 'v, 'x) base_strategy_scheme res"
  ResetRound :: "('o, 'a, 'c, 'v, 'x) base_strategy_scheme
    \<Rightarrow> ('o, 'a, 'c, 'v, 'x) base_strategy_scheme res"

type_synonym full_history = "slot list"
type_synonym seq_history = "slot history_event list"
type_synonym both_histories = "full_history \<times> seq_history"
type_synonym ('a, 'c) check = "(slot \<Rightarrow> ('a, 'c) coro) \<Rightarrow> seq_history \<Rightarrow> bool res"

definition store :: "('o, 'a, 'c, 'v, 'x) base_strategy_scheme \<Rightarrow> slot \<Rightarrow> ('a, 'c) coro" where
  "store st r = task_at st r"

section \<open>Running a round\<close>

text \<open>
  One iteration of the loops of \<open>RunRound\<close> and \<open>ExploreRound\<close>, which differ in the method that
  picks the task (\<open>pick\<close>) and in the report to the verifier (\<open>finish\<close>). The first component
  of the result says whether the task has returned.
\<close>

definition schedule_step ::
    "(('o, 'a, 'c, 'v, 'x) base_strategy_scheme
        \<Rightarrow> (task_with_meta_data \<times> ('o, 'a, 'c, 'v, 'x) base_strategy_scheme) res)
      \<Rightarrow> (task_with_meta_data \<Rightarrow> ('o, 'a, 'c, 'v, 'x) base_strategy_scheme
        \<Rightarrow> ('o, 'a, 'c, 'v, 'x) base_strategy_scheme res)
      \<Rightarrow> ('o, 'c, 'v, 'g) runtime_env \<Rightarrow> ('o, 'a, 'c, 'v, 'x) base_strategy_scheme \<Rightarrow> both_histories
      \<Rightarrow> (bool \<times> ('o, 'a, 'c, 'v, 'x) base_strategy_scheme \<times> both_histories) res" where
  "schedule_step pick finish E st h =
     res_bind (pick st) (\<lambda>(t, st).
       let next_task = twm_task t; tid = int (twm_thread_id t);
           full_history = fst h @ [next_task];
           sequential_history = (if twm_is_new t then snd h @ [Invoke next_task tid] else snd h) in
       res_bind (resume_task E next_task st) (\<lambda>st.
       res_bind (get_task st next_task) (\<lambda>c.
       if co_is_returned c then
         res_bind (finish t st) (\<lambda>st.
         res_bind (GetRetVal c) (\<lambda>v.
         Inr (True, st, full_history, sequential_history @ [Response next_task v tid])))
       else Inr (False, st, full_history, sequential_history))))"

text \<open>The loop: \<open>todo\<close> is the number of tasks that have still to return.\<close>

fun schedule_loop ::
    "nat \<Rightarrow> (('o, 'a, 'c, 'v, 'x) base_strategy_scheme
        \<Rightarrow> (task_with_meta_data \<times> ('o, 'a, 'c, 'v, 'x) base_strategy_scheme) res)
      \<Rightarrow> (task_with_meta_data \<Rightarrow> ('o, 'a, 'c, 'v, 'x) base_strategy_scheme
        \<Rightarrow> ('o, 'a, 'c, 'v, 'x) base_strategy_scheme res)
      \<Rightarrow> ('o, 'c, 'v, 'g) runtime_env \<Rightarrow> nat \<Rightarrow> ('o, 'a, 'c, 'v, 'x) base_strategy_scheme \<Rightarrow> both_histories
      \<Rightarrow> (('o, 'a, 'c, 'v, 'x) base_strategy_scheme \<times> both_histories) res" where
  "schedule_loop fuel pick finish E 0 st h = Inr (st, h)"
| "schedule_loop 0 pick finish E (Suc todo) st h = Inl Out_Of_Fuel"
| "schedule_loop (Suc fuel) pick finish E (Suc todo) st h =
     res_bind (schedule_step pick finish E st h) (\<lambda>(returned, st, h).
       schedule_loop fuel pick finish E (if returned then todo else Suc todo) st h)"

definition check_round ::
    "('a, 'c) check \<Rightarrow> ('o, 'a, 'c, 'v, 'x) base_strategy_scheme \<Rightarrow> both_histories
      \<Rightarrow> both_histories option res" where
  "check_round Check st h = res_bind (Check (store st) (snd h)) (\<lambda>ok. Inr (if ok then None else Some h))"

definition RunRound ::
    "('o, 'a, 'c, 'v, 'x) strategy_methods \<Rightarrow> ('o, 'c, 'v, 'g) runtime_env \<Rightarrow> ('a, 'c) check \<Rightarrow> nat
      \<Rightarrow> ('o, 'a, 'c, 'v, 'x) base_strategy_scheme
      \<Rightarrow> (both_histories option \<times> ('o, 'a, 'c, 'v, 'x) base_strategy_scheme) res" where
  "RunRound M E Check max_tasks st =
     res_bind (schedule_loop (env_fuel E) (Next M) (OnVerifierTaskFinish E) E max_tasks st ([], [])) (\<lambda>(st, h).
     res_bind (check_round Check st h) (\<lambda>r. Inr (r, st)))"

section \<open>Exploring a round\<close>

fun ExploreRound ::
    "('o, 'a, 'c, 'v, 'x) strategy_methods \<Rightarrow> ('o, 'c, 'v, 'g) runtime_env \<Rightarrow> ('a, 'c) check \<Rightarrow> nat
      \<Rightarrow> ('o, 'a, 'c, 'v, 'x) base_strategy_scheme
      \<Rightarrow> (both_histories option \<times> ('o, 'a, 'c, 'v, 'x) base_strategy_scheme) res" where
  "ExploreRound M E Check 0 st = Inr (None, st)"
| "ExploreRound M E Check (Suc runs) st =
     res_bind (ResetRound M st) (\<lambda>st.
     res_bind (schedule_loop (env_fuel E) (NextSchedule M) (\<lambda>_ st. Inr st) E (GetValidTasksCount st) st ([], []))
       (\<lambda>(st, h).
     res_bind (check_round Check st h) (\<lambda>r.
     case r of Some h \<Rightarrow> Inr (Some h, st) | None \<Rightarrow> ExploreRound M E Check runs st)))"

section \<open>Replaying a round\<close>

definition terminate_task ::
    "('o, 'c, 'v, 'g) runtime_env \<Rightarrow> slot \<Rightarrow> ('o, 'a, 'c, 'v, 'x) base_strategy_scheme
      \<Rightarrow> ('o, 'a, 'c, 'v, 'x) base_strategy_scheme res" where
  "terminate_task E r st =
     res_bind (get_task st r) (\<lambda>c.
     res_bind (Terminate (env_body E) (st_world st) c) (\<lambda>(w, c').
     Inr (set_task r c' (st\<lparr>st_world := w\<rparr>))))"

record replay_state =
  started_tasks :: "int set"
  resumes_count :: "int \<Rightarrow> nat"

text \<open>
  One entry of the ordering. The counter of a task is decremented on every entry that resumes
  it; \<open>Terminate\<close> is called when it is zero.
\<close>

definition replay_step ::
    "('o, 'c, 'v, 'g) runtime_env \<Rightarrow> int
      \<Rightarrow> ('o, 'a, 'c, 'v, 'x) base_strategy_scheme \<times> replay_state \<times> both_histories
      \<Rightarrow> (('o, 'a, 'c, 'v, 'x) base_strategy_scheme \<times> replay_state \<times> both_histories) res" where
  "replay_step E next_task_id s = (case s of (st, rs, h) \<Rightarrow>
     let is_new = (next_task_id \<notin> started_tasks rs);
         rs = rs\<lparr>started_tasks := insert next_task_id (started_tasks rs)\<rparr> in
     case GetTask_by_id st next_task_id of
       None \<Rightarrow> Inl (Runtime_Error ''Invalid task id'')
     | Some (next_task, tid) \<Rightarrow>
         let sequential_history =
               (if is_new then snd h @ [Invoke next_task (int tid)] else snd h);
             full_history = fst h @ [next_task] in
         res_bind (get_task st next_task) (\<lambda>c.
         if co_is_returned c then Inr (st, rs, full_history, sequential_history)
         else res_bind
           (if resumes_count rs next_task_id = 0
            then res_bind (terminate_task E next_task st) (\<lambda>st. Inr (st, rs))
            else res_bind (resume_task E next_task st) (\<lambda>st.
              Inr (st, rs\<lparr>resumes_count := (resumes_count rs)(next_task_id := resumes_count rs next_task_id - 1)\<rparr>)))
           (\<lambda>(st, rs).
           res_bind (get_task st next_task) (\<lambda>c.
           if co_is_returned c then
             res_bind (GetRetVal c) (\<lambda>v.
             Inr (st, rs, full_history, sequential_history @ [Response next_task v (int tid)]))
           else Inr (st, rs, full_history, sequential_history)))))"

fun replay_loop ::
    "('o, 'c, 'v, 'g) runtime_env \<Rightarrow> int list
      \<Rightarrow> ('o, 'a, 'c, 'v, 'x) base_strategy_scheme \<times> replay_state \<times> both_histories
      \<Rightarrow> (('o, 'a, 'c, 'v, 'x) base_strategy_scheme \<times> replay_state \<times> both_histories) res" where
  "replay_loop E [] s = Inr s"
| "replay_loop E (i # is) s = res_bind (replay_step E i s) (replay_loop E is)"

definition ReplayRound ::
    "('o, 'a, 'c, 'v, 'x) strategy_methods \<Rightarrow> ('o, 'c, 'v, 'g) runtime_env \<Rightarrow> ('a, 'c) check \<Rightarrow> int list
      \<Rightarrow> ('o, 'a, 'c, 'v, 'x) base_strategy_scheme
      \<Rightarrow> (both_histories option \<times> ('o, 'a, 'c, 'v, 'x) base_strategy_scheme) res" where
  "ReplayRound M E Check tasks_ordering st =
     res_bind (ResetRound M st) (\<lambda>st.
     res_bind (replay_loop E tasks_ordering
       (st, \<lparr>started_tasks = {}, resumes_count = count_list tasks_ordering\<rparr>, [], [])) (\<lambda>(st, rs, h).
     res_bind (check_round Check st h) (\<lambda>r. Inr (r, st))))"

section \<open>The strategies as objects\<close>

definition RR_methods ::
    "('o, 'c, 'v, 'g) runtime_env
      \<Rightarrow> ('o, 'a, 'c, 'v, \<lparr>rng :: 'g, rr_next_task :: nat\<rparr>) strategy_methods" where
  "RR_methods E = \<lparr>Next = Pick_Next (RR_Pick E) E, NextSchedule = Pick_NextSchedule RR_PickSchedule,
     StartNextRound = Pick_StartNextRound E, ResetRound = ResetCurrentRound E\<rparr>"

definition Random_methods ::
    "('o, 'c, 'v, 'g) runtime_env
      \<Rightarrow> ('o, 'a, 'c, 'v, \<lparr>rng :: 'g, weights :: int list\<rparr>) strategy_methods" where
  "Random_methods E = \<lparr>Next = Pick_Next (Random_Pick E) E, NextSchedule = Pick_NextSchedule (Random_PickSchedule E),
     StartNextRound = Pick_StartNextRound E, ResetRound = ResetCurrentRound E\<rparr>"

definition Pct_methods ::
    "('o, 'c, 'v, 'g) runtime_env
      \<Rightarrow> ('o, 'a, 'c, 'v, \<lparr>k_statistics :: nat list, threads_count :: nat, current_depth :: nat,
           current_schedule_length :: nat, priorities :: nat list, priority_change_points :: nat list,
           forbid_all_same :: bool, pct_rng :: 'g\<rparr>) strategy_methods" where
  "Pct_methods E = \<lparr>Next = Pct_Next E, NextSchedule = Pct_NextSchedule,
     StartNextRound = Pct_StartNextRound E, ResetRound = Pct_ResetCurrentRound E\<rparr>"

end
