(* ===== verification/Round_Histories.thy ===== *)
theory Round_Histories
  imports Strategy_Scheduler
begin

text \<open>
  The histories that \<open>RunRound\<close>, \<open>ExploreRound\<close> and \<open>ReplayRound\<close> record: they are well formed,
  agree with the tasks of the round, and are what the checker decides. The properties hold
  for every strategy that meets the contract of \<open>Strategy_Contract\<close>.
\<close>

declare split_paired_All [simp del] split_paired_Ex [simp del]

section \<open>Histories that agree with the tasks\<close>

definition records :: "('o, 'a, 'c, 'v, 'x) base_strategy_scheme \<Rightarrow> seq_history \<Rightarrow> bool" where
  "records st seq \<longleftrightarrow> wf_history seq
     \<and> (\<forall>r \<in> set (invoked seq). valid_slot st r \<and> (r \<in> set (answered seq) \<longleftrightarrow> co_is_returned (task_at st r)))
     \<and> (\<forall>r v t. Response r v t \<in> set seq \<longrightarrow> v = co_ret (task_at st r))
     \<and> (\<forall>e \<in> set seq. thread_id e = int (fst (GetTask e)))"

lemma wf_from_answered: "wf_from I R seq \<Longrightarrow> R \<subseteq> I \<Longrightarrow> set (answered seq) \<subseteq> I \<union> set (invoked seq)"
  by (induction I R seq rule: wf_from.induct) auto

lemma wf_history_answered: "wf_history seq \<Longrightarrow> set (answered seq) \<subseteq> set (invoked seq)"
  using wf_from_answered [of "{}" "{}" seq] by (simp add: wf_history_def)

lemma Response_answered: "Response r v t \<in> set seq \<Longrightarrow> r \<in> set (answered seq)"
  by (force simp: answered_def)

lemma records_Nil [simp]: "records st []"
  by (simp add: records_def)

lemma records_cong:
  assumes "records st seq"
    and "\<And>r. r \<in> set (invoked seq) \<Longrightarrow> valid_slot st r \<Longrightarrow> valid_slot st' r
      \<and> co_is_returned (task_at st' r) = co_is_returned (task_at st r) \<and> co_ret (task_at st' r) = co_ret (task_at st r)"
  shows "records st' seq"
proof -
  have "r \<in> set (invoked seq)" if "Response r v t \<in> set seq" for r v t
    using Response_answered [OF that] wf_history_answered assms(1) by (auto simp: records_def)
  then show ?thesis using assms by (auto simp: records_def)
qed

lemma records_invoke:
  assumes "records st seq" "r \<notin> set (invoked seq)" "valid_slot st r" "\<not> co_is_returned (task_at st r)"
  shows "records st (seq @ [Invoke r (int (fst r))])"
  using assms wf_history_answered [of seq] by (auto simp: records_def)

definition moved ::
    "('o, 'a, 'c, 'v, 'x) base_strategy_scheme \<Rightarrow> slot \<Rightarrow> ('o, 'a, 'c, 'v, 'y) base_strategy_scheme \<Rightarrow> bool" where
  "moved st r st' \<longleftrightarrow> length (threads st') = length (threads st)
     \<and> (\<forall>t < length (threads st). length (threads st' ! t) = length (threads st ! t))
     \<and> (\<forall>r'. r' \<noteq> r \<longrightarrow> task_at st' r' = task_at st r')"

lemma moved_valid: "moved st r st' \<Longrightarrow> valid_slot st' r' \<longleftrightarrow> valid_slot st r'"
  by (auto simp: moved_def valid_slot_def)

lemma records_advance:
  assumes rec: "records st seq" and r: "r \<in> set (invoked seq)" "\<not> co_is_returned (task_at st r)"
    and mv: "moved st r st'"
  shows "records st' (if co_is_returned (task_at st' r)
    then seq @ [Response r (co_ret (task_at st' r)) (int (fst r))] else seq)"
proof -
  have na: "r \<notin> set (answered seq)" using rec r by (auto simp: records_def)
  have same: "r' \<noteq> r \<Longrightarrow> task_at st' r' = task_at st r'" for r' using mv by (auto simp: moved_def)
  have nr: "Response r v t \<notin> set seq" for v t using na Response_answered [of r v t seq] by blast
  have resp: "v = co_ret (task_at st' r')" if "Response r' v t \<in> set seq" for r' v t
  proof -
    have "v = co_ret (task_at st r')" using that rec unfolding records_def by blast
    moreover have "r' \<noteq> r" using that nr by auto
    ultimately show ?thesis using same by simp
  qed
  show ?thesis
  proof (cases "co_is_returned (task_at st' r)")
    case True
    have "valid_slot st' r' \<and> (r' \<in> insert r (set (answered seq)) \<longleftrightarrow> co_is_returned (task_at st' r'))"
      if "r' \<in> set (invoked seq)" for r'
      using that rec same [of r'] True moved_valid [OF mv] by (cases "r' = r") (auto simp: records_def)
    then show ?thesis using True rec r(1) na resp by (auto simp: records_def)
  next
    case False
    have "valid_slot st' r' \<and> (r' \<in> set (answered seq) \<longleftrightarrow> co_is_returned (task_at st' r'))"
      if "r' \<in> set (invoked seq)" for r'
      using that rec same [of r'] False na moved_valid [OF mv] by (cases "r' = r") (auto simp: records_def)
    then show ?thesis using False rec resp by (auto simp: records_def)
  qed
qed

lemma resume_moved:
  assumes "resume_task E r st = Inr st'"
  shows "moved st r st'"
  using resume_task_frame [OF assms] idents_shape [OF resume_task_frame(1) [OF assms]]
  by (auto simp: moved_def)

section \<open>One iteration of the scheduler\<close>

lemma schedule_step_records:
  assumes step: "schedule_step pick finish E st h = Inr (b, st', h')" and pick: "pick st = Inr (t, st1)"
    and fst: "fst (twm_task t) = twm_thread_id t"
    and task: "valid_slot st1 (twm_task t)" "\<not> co_is_returned (task_at st1 (twm_task t))"
    and rec: "records st1 (snd h)" and new: "twm_is_new t \<longleftrightarrow> twm_task t \<notin> set (invoked (snd h))"
    and fin: "\<And>s s'. finish t s = Inr s' \<Longrightarrow> threads s' = threads s"
  shows "records st' (snd h')" "set (invoked (snd h')) = insert (twm_task t) (set (invoked (snd h)))"
    "fst h' = fst h @ [twm_task t]" "moved st1 (twm_task t) st'"
    "b = co_is_returned (task_at st' (twm_task t))"
    "length (answered (snd h')) = length (answered (snd h)) + (if b then 1 else 0)"
    "\<exists>st2. resume_task E (twm_task t) st1 = Inr st2 \<and> (if b then finish t st2 = Inr st' else st' = st2)"
proof -
  let ?r = "twm_task t"
  let ?seq = "if twm_is_new t then snd h @ [Invoke ?r (int (twm_thread_id t))] else snd h"
  from step pick obtain st2 where res: "resume_task E ?r st1 = Inr st2"
    and rest: "res_bind (get_task st2 ?r) (\<lambda>c.
       if co_is_returned c then
         res_bind (finish t st2) (\<lambda>st. res_bind (GetRetVal c) (\<lambda>v.
         Inr (True, st, fst h @ [?r], ?seq @ [Response ?r v (int (twm_thread_id t))])))
       else Inr (False, st2, fst h @ [?r], ?seq)) = Inr (b, st', h')"
    by (auto simp: schedule_step_def Let_def elim!: res_bind_Inr_E)
  have mv: "moved st1 ?r st2" by (rule resume_moved [OF res])
  have v2: "valid_slot st2 ?r" using moved_valid [OF mv] task(1) by simp
  have seq: "records st1 ?seq" "?r \<in> set (invoked ?seq)"
    "set (invoked ?seq) = insert ?r (set (invoked (snd h)))" "answered ?seq = answered (snd h)"
    using rec new records_invoke [OF rec _ task] fst by auto
  note adv = records_advance [OF seq(1,2) task(2) mv]
  have "records st' (snd h') \<and> set (invoked (snd h')) = insert ?r (set (invoked (snd h)))
    \<and> fst h' = fst h @ [?r] \<and> moved st1 ?r st' \<and> b = co_is_returned (task_at st' ?r)
    \<and> length (answered (snd h')) = length (answered (snd h)) + (if b then 1 else 0)
    \<and> (\<exists>st2. resume_task E ?r st1 = Inr st2 \<and> (if b then finish t st2 = Inr st' else st' = st2))"
  proof (cases "co_is_returned (task_at st2 ?r)")
    case True
    with rest v2 have f: "finish t st2 = Inr st'" "b"
      "h' = (fst h @ [?r], ?seq @ [Response ?r (co_ret (task_at st2 ?r)) (int (twm_thread_id t))])"
      by (auto simp: GetRetVal_def elim!: res_bind_Inr_E)
    have th: "threads st' = threads st2" by (rule fin [OF f(1)])
    have "records st' (?seq @ [Response ?r (co_ret (task_at st2 ?r)) (int (fst ?r))])"
      by (rule records_cong [of st2]) (use adv True th in \<open>auto simp: valid_slot_def\<close>)
    moreover have "moved st1 ?r st'" using mv th by (simp add: moved_def)
    ultimately show ?thesis
      using f True th fst seq(3,4) res by simp
  next
    case False
    with rest v2 have f: "st' = st2" "\<not> b" "h' = (fst h @ [?r], ?seq)" by auto
    then show ?thesis
      using adv False mv seq(3,4) res by simp
  qed
  then show "records st' (snd h')" "set (invoked (snd h')) = insert ?r (set (invoked (snd h)))"
    "fst h' = fst h @ [?r]" "moved st1 ?r st'" "b = co_is_returned (task_at st' ?r)"
    "length (answered (snd h')) = length (answered (snd h)) + (if b then 1 else 0)"
    "\<exists>st2. resume_task E ?r st1 = Inr st2 \<and> (if b then finish t st2 = Inr st' else st' = st2)"
    by blast+
qed

section \<open>RunRound\<close>

text \<open>While a round is generated, the invoked tasks are all tasks of the round.\<close>

definition run_inv :: "('o, 'a, 'c, 'v, 'x) base_strategy_scheme \<Rightarrow> seq_history \<Rightarrow> bool" where
  "run_inv st seq \<longleftrightarrow> records st seq \<and> (\<forall>r. r \<in> set (invoked seq) \<longleftrightarrow> valid_slot st r)"

lemma OnVerifierTaskFinish_threads:
  "OnVerifierTaskFinish E t st = Inr st' \<Longrightarrow> \<exists>v. st' = st\<lparr>sched_checker := v\<rparr>"
  by (auto simp: OnVerifierTaskFinish_def elim!: res_bind_Inr_E)

text \<open>What \<open>Next\<close> does to the slots.\<close>

lemma next_effect_slots:
  assumes "next_effect E st t st'"
  shows "fst (twm_task t) = twm_thread_id t"
    "valid_slot st' r \<longleftrightarrow> valid_slot st r \<or> twm_is_new t \<and> r = twm_task t"
    "twm_is_new t \<Longrightarrow> \<not> valid_slot st (twm_task t)" "\<not> twm_is_new t \<Longrightarrow> valid_slot st (twm_task t)"
    "valid_slot st r \<Longrightarrow> drop_futex (task_at st' r) = drop_futex (task_at st r)"
proof -
  obtain th i where t: "twm_task t = (th, i)" by fastforce
  from assms have th: "twm_thread_id t = th" "th < length (threads st)" by (auto simp: next_effect_def t Let_def)
  then show "fst (twm_task t) = twm_thread_id t" by (simp add: t)
  let ?V = "tasks_view st"
  have V: "u < length (threads st) \<Longrightarrow> ?V ! u = map drop_futex (threads st ! u)" for u
    by (simp add: tasks_view_def)
  from assms t th obtain c where view: "tasks_view st' = (if twm_is_new t then ?V[th := ?V ! th @ [c]] else ?V)"
    and i: "if twm_is_new t then i = length (threads st ! th) else Suc i = length (threads st ! th)"
    by (cases "twm_is_new t") (auto simp: next_effect_def Let_def)
  have len: "length (threads st') = length (threads st)"
    using arg_cong [OF view, of length] by (simp add: tasks_view_def split: if_splits)
  have thr: "map drop_futex (threads st' ! u)
      = map drop_futex (threads st ! u) @ (if twm_is_new t \<and> u = th then [c] else [])"
    if "u < length (threads st)" for u
    using arg_cong [OF view, of "\<lambda>x. x ! u"] V [OF that] len that th(2)
    by (auto simp: tasks_view_def nth_list_update split: if_splits)
  have thl: "length (threads st' ! u) = length (threads st ! u) + (if twm_is_new t \<and> u = th then 1 else 0)"
    if "u < length (threads st)" for u
    using arg_cong [OF thr [OF that], of length] by (simp split: if_splits)
  show "valid_slot st' r \<longleftrightarrow> valid_slot st r \<or> twm_is_new t \<and> r = twm_task t"
    using thl len i th(2) by (cases r) (auto simp: valid_slot_def t split: if_splits)
  show "twm_is_new t \<Longrightarrow> \<not> valid_slot st (twm_task t)" "\<not> twm_is_new t \<Longrightarrow> valid_slot st (twm_task t)"
    using i th(2) by (auto simp: valid_slot_def t)
  show "drop_futex (task_at st' r) = drop_futex (task_at st r)" if "valid_slot st r"
  proof -
    have r: "fst r < length (threads st)" "snd r < length (threads st ! fst r)" using that by (auto simp: valid_slot_def)
    have "snd r < length (threads st' ! fst r)" using thl [OF r(1)] r(2) by simp
    then show ?thesis using arg_cong [OF thr [OF r(1)], of "\<lambda>x. x ! snd r"] r(2) by (simp add: nth_append)
  qed
qed

lemma run_inv_Next:
  assumes "run_inv st seq" "next_effect E st t st'"
  shows "records st' seq" "twm_is_new t \<longleftrightarrow> twm_task t \<notin> set (invoked seq)"
    "valid_slot st' r \<longleftrightarrow> r \<in> insert (twm_task t) (set (invoked seq))"
proof -
  note sl = next_effect_slots [OF assms(2)]
  have "co_is_returned (task_at st' r) = co_is_returned (task_at st r)
      \<and> co_ret (task_at st' r) = co_ret (task_at st r)" if "valid_slot st r" for r
    using arg_cong [OF sl(5) [OF that], of co_is_returned] arg_cong [OF sl(5) [OF that], of co_ret] by simp
  note same = this
  have "records st seq" using assms(1) by (simp add: run_inv_def)
  then show "records st' seq"
  proof (rule records_cong)
    fix r assume "valid_slot st r"
    then show "valid_slot st' r \<and> co_is_returned (task_at st' r) = co_is_returned (task_at st r)
        \<and> co_ret (task_at st' r) = co_ret (task_at st r)"
      using same [of r] sl(2) [of r] by blast
  qed
  show "twm_is_new t \<longleftrightarrow> twm_task t \<notin> set (invoked seq)"
    using sl(3,4) assms(1) by (auto simp: run_inv_def)
  show "valid_slot st' r \<longleftrightarrow> r \<in> insert (twm_task t) (set (invoked seq))"
    using sl(2) [of r] sl(4) assms(1) by (auto simp: run_inv_def)
qed

text \<open>An invariant of the iterations is one of the loop, which ends after \<open>todo\<close> responses.\<close>

lemma schedule_loop_inv:
  assumes step: "\<And>s k b s' k'. I s k \<Longrightarrow> schedule_step pick finish E s k = Inr (b, s', k')
      \<Longrightarrow> I s' k' \<and> length (answered (snd k')) = length (answered (snd k)) + (if b then 1 else 0)"
  shows "schedule_loop fuel pick finish E todo st h = Inr (st', h') \<Longrightarrow> I st h
    \<Longrightarrow> I st' h' \<and> length (answered (snd h')) = length (answered (snd h)) + todo"
proof (induction fuel arbitrary: todo st h)
  case 0
  then show ?case by (cases todo) auto
next
  case (Suc fuel)
  show ?case
  proof (cases todo)
    case 0
    with Suc.prems show ?thesis by auto
  next
    case todo: (Suc n)
    from Suc.prems(1) todo obtain b st1 h1 where s: "schedule_step pick finish E st h = Inr (b, st1, h1)"
      and l: "schedule_loop fuel pick finish E (if b then n else Suc n) st1 h1 = Inr (st', h')"
      by (auto elim!: res_bind_Inr_E)
    from step [OF Suc.prems(2) s] Suc.IH [OF l] todo show ?thesis by (auto split: if_splits)
  qed
qed

text \<open>The iterations of \<open>RunRound\<close>, for every strategy that meets the contract.\<close>

context scheduling_strategy
begin

lemma run_step_inv:
  assumes ok: ok and inv: "run_inv st (snd h)"
    and s: "schedule_step Next (OnVerifierTaskFinish E) E st h = Inr (b, st1, h1)"
  shows "run_inv st1 (snd h1) \<and> length (answered (snd h1)) = length (answered (snd h)) + (if b then 1 else 0)"
proof -
  from s obtain t s1 where n: "Next st = Inr (t, s1)" by (auto simp: schedule_step_def elim!: res_bind_Inr_E)
  note nt = Next_task [OF ok n]
  note ri = run_inv_Next [OF inv Next_effect [OF ok n]]
  have fin: "threads s' = threads s" if "OnVerifierTaskFinish E t s = Inr s'"
    for s s' :: "('o, 'a, 'c, 'v, 'x) base_strategy_scheme"
    using OnVerifierTaskFinish_threads [OF that] by auto
  have r: "fst (twm_task t) = twm_thread_id t" "valid_slot s1 (twm_task t)"
    "\<not> co_is_returned (task_at s1 (twm_task t))" using nt by auto
  note st = schedule_step_records [OF s n r ri(1,2) fin]
  have "run_inv st1 (snd h1)" using st(1,2) ri(3) moved_valid [OF st(4)] by (auto simp: run_inv_def)
  with st(6) show ?thesis by simp
qed

lemma run_loop_inv:
  assumes ok "schedule_loop fuel Next (OnVerifierTaskFinish E) E todo st h = Inr (st', h')" "run_inv st (snd h)"
  shows "run_inv st' (snd h') \<and> length (answered (snd h')) = length (answered (snd h)) + todo"
  by (rule schedule_loop_inv [of "\<lambda>s k. run_inv s (snd k)" Next "OnVerifierTaskFinish E" E, OF run_step_inv [OF assms(1)] assms(2,3)])

end

section \<open>What the checker is asked\<close>

text \<open>
  The tasks of a round fit a specification: it knows every method, and can compare its result
  with the value that the task returned.
\<close>

definition comparable ::
    "('a, 's) linearizability_checker \<Rightarrow> ('o, 'a, 'c, 'v, 'x) base_strategy_scheme \<Rightarrow> bool" where
  "comparable C st \<longleftrightarrow> (\<forall>r. valid_slot st r \<longrightarrow>
     (\<exists>m. specification_methods C (co_name (task_at st r)) = Some m
        \<and> (co_is_returned (task_at st r) \<longrightarrow>
             (\<forall>s. \<exists>b. vw_eq (snd (m s (co_args (task_at st r)))) (co_ret (task_at st r)) = Inr b))))"

lemma records_checkable:
  assumes rec: "records st seq" and cmp: "comparable C st"
  shows "checkable C (store st) seq"
  unfolding checkable_def
proof (intro conjI ballI)
  show "wf_history seq" using rec by (simp add: records_def)
  fix i assume i: "i \<in> invokes seq"
  let ?r = "GetTask (seq ! i)"
  have r: "?r \<in> set (invoked seq)" using i by (auto simp: set_invoked invokes_def)
  then have v: "valid_slot st ?r" using rec by (simp add: records_def)
  have "co_is_returned (task_at st ?r)" if "completed seq i"
  proof -
    from that obtain k where "responds seq i k" by (auto simp: completed_def)
    then have "?r \<in> set (answered seq)" by (auto simp: set_answered responds_def)
    then show ?thesis using rec r by (simp add: records_def)
  qed
  then show "\<exists>m. specification_methods C (co_name (store st ?r)) = Some m
        \<and> (completed seq i \<longrightarrow> co_is_returned (store st ?r)
            \<and> (\<forall>s. \<exists>b. vw_eq (snd (m s (co_args (store st ?r)))) (co_ret (store st ?r)) = Inr b))"
    using cmp v unfolding comparable_def store_def by blast
qed

lemma check_round_verdict:
  assumes "records st (snd h)" "comparable C st"
  shows "check_round (Check_recursive C) st h = Inr (if linearizable C (store st) (snd h) then None else Some h)"
  using recursive_checker.Check_verdict [OF records_checkable [OF assms]] by (simp add: check_round_def)

lemma run_inv_fresh:
  assumes "\<forall>th \<in> set (threads st). th = []"
  shows "run_inv st []"
proof -
  have "\<not> valid_slot st r" for r
    using assms by (metis length_0_conv not_less_zero nth_mem valid_slot_def)
  then show ?thesis by (simp add: run_inv_def)
qed

text \<open>The outcome of a generated round, for a strategy that meets the contract.\<close>

definition round_outcome ::
    "('a, 's) linearizability_checker \<Rightarrow> nat \<Rightarrow> ('o, 'a, 'c, 'v, 'x) base_strategy_scheme
      \<Rightarrow> both_histories option \<Rightarrow> bool" where
  "round_outcome C max_tasks st res \<longleftrightarrow> (\<exists>h. wf_history (snd h)
     \<and> (\<forall>r. r \<in> set (invoked (snd h)) \<longleftrightarrow> valid_slot st r)
     \<and> (\<forall>r. r \<in> set (answered (snd h)) \<longleftrightarrow> valid_slot st r \<and> co_is_returned (task_at st r))
     \<and> length (answered (snd h)) = max_tasks
     \<and> res = (if linearizable C (store st) (snd h) then None else Some h))"

context scheduling_strategy
begin

lemma RunRound_outcome:
  assumes ok: ok and "\<forall>th \<in> set (threads st). th = []"
    and run: "RunRound M E (Check_recursive C) max_tasks st = Inr (res, st')"
    and M: "strategy_methods.Next M = Next" and cmp: "comparable C st'"
  shows "round_outcome C max_tasks st' res"
proof -
  from run M obtain h where l: "schedule_loop (env_fuel E) Next (OnVerifierTaskFinish E) E max_tasks st ([], []) = Inr (st', h)"
    and c: "check_round (Check_recursive C) st' h = Inr res"
    by (auto simp: RunRound_def elim!: res_bind_Inr_E)
  have i: "run_inv st' (snd h)" "length (answered (snd h)) = max_tasks"
    using run_loop_inv [OF ok l] run_inv_fresh [OF assms(2)] by auto
  have rec: "records st' (snd h)" and inv: "\<forall>r. r \<in> set (invoked (snd h)) \<longleftrightarrow> valid_slot st' r"
    using i(1) unfolding run_inv_def by blast+
  have wf: "wf_history (snd h)" using rec by (simp add: records_def)
  have "r \<in> set (answered (snd h)) \<longleftrightarrow> valid_slot st' r \<and> co_is_returned (task_at st' r)" for r
    using rec inv wf_history_answered [OF wf] unfolding records_def by blast
  moreover have "res = (if linearizable C (store st') (snd h) then None else Some h)"
    using c check_round_verdict [OF rec cmp] by auto
  ultimately show ?thesis unfolding round_outcome_def using i(2) inv wf by blast
qed

end

section \<open>Samples\<close>

fun int_any :: "std_any \<Rightarrow> bool" where
  "int_any None = True"
| "int_any (Some (Any_Int _)) = True"
| "int_any _ = False"

definition get_call :: "('a, 'c) coro \<Rightarrow> bool" where
  "get_call c \<longleftrightarrow> co_name c = ''get'' \<and> int_any (vw_value (co_ret c))"

lemma comparable_gets:
  assumes "list_all (list_all get_call) (threads st)"
  shows "comparable Register_checker st"
proof -
  have "get_call (task_at st r)" if "valid_slot st r" for r
    using that assms by (auto simp: valid_slot_def list_all_length)
  moreover have "\<exists>b. vw_eq (vw_int x) v = Inr b" if "int_any (vw_value v)" for x v
    using that by (cases "vw_value v" rule: int_any.cases)
      (auto simp: vw_eq_def vw_int_def vw_of_def GetDefaultCompator_def HasValue_def GetValue_def)
  ultimately show ?thesis
    by (auto simp: comparable_def method_tables get_call_def)
qed

text \<open>Two calls that overlap and return 2 and 3, where the register only ever holds 0.\<close>

lemma sample_RunRound:
  "case RunRound (RR_methods sample_env) sample_env (Check_recursive Register_checker) 2 sample_rr of
     Inl _ \<Rightarrow> False
   | Inr (res, st) \<Rightarrow> map_option fst res = Some [(1, 0), (0, 0), (1, 0), (0, 0)]
       \<and> map_option (map is_invoke \<circ> snd) res = Some [True, True, False, False]
       \<and> list_all (list_all get_call) (threads st)"
  by code_simp

section \<open>Properties\<close>

text \<open>
  C7. A generated round, with any of the three strategies. The history that \<open>RunRound\<close> records is
  well formed (an invocation before each response, none twice), its invocations are the tasks
  of the round, its responses the tasks that have returned, as many as were asked for; and the
  round is reported, with this history, exactly when the history is not linearizable.
\<close>

theorem RunRound_reports:
  assumes "random_ok (env_random E)" "\<forall>th \<in> set (threads st). th = []" "\<forall>th \<in> set (threads sr). th = []"
    "\<forall>th \<in> set (threads sp). th = []"
  shows "(RunRound (RR_methods E) E (Check_recursive C) max_tasks st = Inr (res, st') \<and> comparable C st'
        \<longrightarrow> round_outcome C max_tasks st' res)
    \<and> (RunRound (Random_methods E) E (Check_recursive C) max_tasks sr = Inr (res, sr') \<and> comparable C sr'
        \<longrightarrow> round_outcome C max_tasks sr' res)
    \<and> (RunRound (Pct_methods E) E (Check_recursive C) max_tasks sp = Inr (res, sp') \<and> comparable C sp'
        \<longrightarrow> round_outcome C max_tasks sp' res)"
  using round_robin.RunRound_outcome [OF assms(1,2), of "RR_methods E" C max_tasks res st']
    random.RunRound_outcome [OF assms(1,3), of "Random_methods E" C max_tasks res sr']
    pct.RunRound_outcome [OF TrueI assms(4), of "Pct_methods E" E C max_tasks res sp']
  by (simp add: RR_methods_def Random_methods_def Pct_methods_def)

theorem RunRound_reports_witness:
  "\<exists>h st'. RunRound (RR_methods sample_env) sample_env (Check_recursive Register_checker) 2 sample_rr = Inr (Some h, st')
     \<and> round_outcome Register_checker 2 st' (Some h)"
proof -
  from sample_RunRound obtain res st' where
    r: "RunRound (RR_methods sample_env) sample_env (Check_recursive Register_checker) 2 sample_rr = Inr (res, st')"
    and p: "map_option fst res = Some [(1, 0), (0, 0), (1, 0), (0, 0)]
      \<and> map_option (map is_invoke \<circ> snd) res = Some [True, True, False, False] \<and> list_all (list_all get_call) (threads st')"
    by (rule res_case_E)
  have cmp: "comparable Register_checker st'" using p comparable_gets by blast
  have "\<forall>th \<in> set (threads sample_rr). th = []" "\<forall>th \<in> set (threads sample_rnd). th = []"
    "\<forall>th \<in> set (threads sample_pct). th = []"
    by (simp_all add: sample_rr_eq sample_rnd_eq sample_pct_def)
  from RunRound_reports [OF sample_env_random this] r cmp have "round_outcome Register_checker 2 st' res" by blast
  with r p show ?thesis by (cases res) auto
qed

end
