(* ===== verification/Round_Replay.thy ===== *)
theory Round_Replay
  imports Round_Histories
begin

text \<open>
  The histories of \<open>ExploreRound\<close> and \<open>ReplayRound\<close>, which run the tasks of a round again: the
  first with the order of the strategy, the second with a given order of task ids. Both start
  from a reset of the round. The minimizors rely on these facts.
\<close>

section \<open>The contract of the reset\<close>

text \<open>The tasks that are left, in the sense of \<open>GetValidTasksCount\<close>.\<close>

definition active :: "('o, 'a, 'c, 'v, 'x) base_strategy_scheme \<Rightarrow> slot \<Rightarrow> bool" where
  "active st r \<longleftrightarrow> valid_slot st r \<and> \<not> IsTaskRemoved st (co_id (task_at st r))"

definition reset_effect ::
    "('o, 'a, 'c, 'v, 'x) base_strategy_scheme \<Rightarrow> ('o, 'a, 'c, 'v, 'x) base_strategy_scheme \<Rightarrow> bool" where
  "reset_effect st st' \<longleftrightarrow> idents st' = idents st \<and> removed_tasks st' = removed_tasks st
     \<and> round_schedule st' = replicate (length (threads st)) (- 1)
     \<and> (\<forall>r. active st' r \<longrightarrow> task_at st' r = fresh_task (task_at st r))"

lemma reset_not_returned: "reset_effect st st' \<Longrightarrow> active st' r \<Longrightarrow> \<not> co_is_returned (task_at st' r)"
  by (simp add: reset_effect_def)

locale replaying_strategy = scheduling_strategy E Next NextSchedule ok
  for E :: "('o, 'c, 'v, 'g) runtime_env"
    and Next :: "('o, 'a, 'c, 'v, 'x) base_strategy_scheme
      \<Rightarrow> (task_with_meta_data \<times> ('o, 'a, 'c, 'v, 'x) base_strategy_scheme) res"
    and NextSchedule :: "('o, 'a, 'c, 'v, 'x) base_strategy_scheme
      \<Rightarrow> (task_with_meta_data \<times> ('o, 'a, 'c, 'v, 'x) base_strategy_scheme) res"
    and ok :: bool +
  fixes ResetRound :: "('o, 'a, 'c, 'v, 'x) base_strategy_scheme \<Rightarrow> ('o, 'a, 'c, 'v, 'x) base_strategy_scheme res"
  assumes Reset_effect: "ResetRound st = Inr st' \<Longrightarrow> reset_effect st st'"

lemma ResetCurrentRound_effect:
  assumes "ResetCurrentRound E st = Inr st'"
  shows "reset_effect st st'"
proof -
  from assms obtain st1 where t: "TerminateTasks E st = Inr st1"
    and e: "st' = st1\<lparr>threads := map (map (restarted (removed_tasks st1))) (threads st1)\<rparr>"
    by (auto simp: ResetCurrentRound_Inr_iff)
  note i = TerminateTasks_inv [OF t, of True]
  have "idents st' = idents st1" by (simp add: e idents_def)
  moreover have "task_at st' r = fresh_task (task_at st r)" if a: "active st' r" for r
  proof -
    have "task_at st' r = fresh_task (task_at st1 r)" and v: "valid_slot st1 r"
      using a by (auto simp: active_def e valid_slot_def IsTaskRemoved_def restarted_def split: if_splits)
    moreover have "idents st1 = idents st" using i by simp
    ultimately show ?thesis using idents_shape(3,4) [of st1 st r] fresh_task_ident by metis
  qed
  ultimately show ?thesis using i by (simp add: reset_effect_def e)
qed

lemma UpdateStatistics_frame:
  "threads (UpdateStatistics E st) = threads st" "removed_tasks (UpdateStatistics E st) = removed_tasks st"
  "round_schedule (UpdateStatistics E st) = round_schedule st"
  by (simp_all add: UpdateStatistics_def PrepareForDepth_def Let_def split_beta)

lemma Pct_ResetCurrentRound_effect:
  assumes "Pct_ResetCurrentRound E st = Inr st'"
  shows "reset_effect st st'"
proof -
  from assms obtain st1 where r: "ResetCurrentRound E st = Inr st1" and e: "st' = UpdateStatistics E st1"
    by (auto simp: Pct_ResetCurrentRound_def res_bind_Inr_iff)
  show ?thesis using ResetCurrentRound_effect [OF r]
    by (simp add: reset_effect_def e UpdateStatistics_frame idents_def active_def valid_slot_def IsTaskRemoved_def)
qed

interpretation rr_replay: replaying_strategy E "Pick_Next (RR_Pick E) E" "Pick_NextSchedule RR_PickSchedule"
    "random_ok (env_random E)" "ResetCurrentRound E" for E
  by unfold_locales (rule ResetCurrentRound_effect)

interpretation random_replay: replaying_strategy E "Pick_Next (Random_Pick E) E"
    "Pick_NextSchedule (Random_PickSchedule E)" "random_ok (env_random E)" "ResetCurrentRound E" for E
  by unfold_locales (rule ResetCurrentRound_effect)

interpretation pct_replay: replaying_strategy E "Pct_Next E" Pct_NextSchedule True "Pct_ResetCurrentRound E" for E
  by unfold_locales (rule Pct_ResetCurrentRound_effect)

section \<open>Exploring\<close>

text \<open>
  While the round is explored, the invoked tasks are the active ones up to the scheduled index
  of their thread, and no later one has run.
\<close>

definition explore_inv :: "('o, 'a, 'c, 'v, 'x) base_strategy_scheme \<Rightarrow> seq_history \<Rightarrow> bool" where
  "explore_inv st seq \<longleftrightarrow> records st seq \<and> schedule_ok st
     \<and> (\<forall>r. r \<in> set (invoked seq) \<longleftrightarrow> active st r \<and> int (snd r) \<le> round_schedule st ! fst r)
     \<and> (\<forall>r. active st r \<longrightarrow> round_schedule st ! fst r < int (snd r) \<longrightarrow> \<not> co_is_returned (task_at st r))"

lemma explore_inv_reset:
  assumes "reset_effect st st'"
  shows "explore_inv st' []"
proof -
  from assms have len: "length (threads st') = length (threads st)"
    and sch: "round_schedule st' = replicate (length (threads st')) (- 1)"
    using idents_shape(1) [of st' st] by (auto simp: reset_effect_def)
  have ret: "\<forall>r. active st' r \<longrightarrow> \<not> co_is_returned (task_at st' r)" using reset_not_returned [OF assms] by blast
  have "fst r < length (threads st')" if "active st' r" for r using that by (simp add: active_def valid_slot_def)
  then have "round_schedule st' ! fst r = - 1" if "active st' r" for r using that sch by simp
  then show ?thesis using ret sch by (fastforce simp: explore_inv_def schedule_ok_def)
qed

lemma active_moved:
  assumes "moved st r st'" "idents st' = idents st" "removed_tasks st' = removed_tasks st"
  shows "active st' r' \<longleftrightarrow> active st r'"
proof -
  have "co_id (task_at st' r') = co_id (task_at st r')" if "valid_slot st r'"
    using idents_shape(4) [OF assms(2) that] by (simp add: task_ident_def)
  then show ?thesis using moved_valid [OF assms(1), of r'] assms(3) by (auto simp: active_def IsTaskRemoved_def)
qed

text \<open>The choice of \<open>NextSchedule\<close> against the invariant.\<close>

lemma next_schedule_choice:
  assumes inv: "explore_inv st seq" and eff: "next_schedule_effect st t st1"
  shows "twm_is_new t \<longleftrightarrow> twm_task t \<notin> set (invoked seq)" "active st (twm_task t)"
    "\<not> co_is_returned (task_at st (twm_task t))" "fst (twm_task t) = twm_thread_id t"
    "active st r \<Longrightarrow> fst r = fst (twm_task t) \<Longrightarrow>
      snd r \<le> snd (twm_task t) \<longleftrightarrow> r = twm_task t \<or> int (snd r) \<le> round_schedule st ! fst r"
proof -
  obtain th i where t: "twm_task t = (th, i)" by fastforce
  from eff have e: "twm_thread_id t = th" "valid_slot st (th, i)" "\<not> co_is_returned (task_at st (th, i))"
    "\<not> IsTaskRemoved st (co_id (task_at st (th, i)))" "GetNextTaskInThread st th = Inr (int i)"
    "twm_is_new t = (round_schedule st ! th \<noteq> int i)"
    by (auto simp: next_schedule_effect_def t Let_def)
  have ok: "schedule_ok st" using inv by (simp add: explore_inv_def)
  have th: "th < length (threads st)" using e(2) by (simp add: valid_slot_def)
  then have "- 1 \<le> round_schedule st ! th" "round_schedule st ! th \<le> int (length (threads st ! th))"
      "th < length (round_schedule st)" using ok by (auto simp: schedule_ok_def)
  from GetNextTaskInThread_eq [OF th this(3,1,2)] e(5) have le: "round_schedule st ! th \<le> int i"
    and skipped: "\<And>j. j < i \<Longrightarrow> round_schedule st ! th \<le> int j \<Longrightarrow>
       co_is_returned (task_at st (th, j)) \<or> IsTaskRemoved st (co_id (task_at st (th, j)))" by auto
  show a: "active st (twm_task t)" using e by (simp add: active_def t)
  show "\<not> co_is_returned (task_at st (twm_task t))" "fst (twm_task t) = twm_thread_id t" using e by (simp_all add: t)
  show "twm_is_new t \<longleftrightarrow> twm_task t \<notin> set (invoked seq)"
    using inv a le e(6) by (auto simp: explore_inv_def t)
  show "snd r \<le> snd (twm_task t) \<longleftrightarrow> r = twm_task t \<or> int (snd r) \<le> round_schedule st ! fst r"
    if r: "active st r" "fst r = fst (twm_task t)"
  proof -
    obtain j where j: "r = (th, j)" using r(2) by (cases r) (simp add: t)
    have "\<not> (round_schedule st ! th < int j \<and> j < i)"
    proof
      assume c: "round_schedule st ! th < int j \<and> j < i"
      then have "\<not> co_is_returned (task_at st (th, j))" using inv r(1) j by (auto simp: explore_inv_def)
      with skipped [of j] c r(1) j show False by (auto simp: active_def)
    qed
    then show ?thesis using le by (auto simp: j t)
  qed
qed

text \<open>One slice of the chosen task.\<close>

lemma explore_inv_slice:
  assumes inv: "explore_inv st seq" and eff: "next_schedule_effect st t st1"
    and mv: "moved st1 (twm_task t) st'" "idents st' = idents st1" "removed_tasks st' = removed_tasks st1"
      "round_schedule st' = round_schedule st1"
    and rec: "records st' seq'" "set (invoked seq') = insert (twm_task t) (set (invoked seq))"
  shows "explore_inv st' seq'"
proof -
  obtain th i where t: "twm_task t = (th, i)" by fastforce
  note ch = next_schedule_choice [OF inv eff]
  have e: "threads st1 = threads st" "removed_tasks st1 = removed_tasks st"
    "round_schedule st1 = (round_schedule st)[th := int i]" and v: "valid_slot st (th, i)"
    using eff by (auto simp: next_schedule_effect_def t Let_def)
  have th: "th < length (threads st)" "i < length (threads st ! th)" using v by (auto simp: valid_slot_def)
  have ok: "schedule_ok st" and thr: "th < length (round_schedule st)"
    using inv th by (auto simp: explore_inv_def schedule_ok_def)
  have sch: "round_schedule st' ! u = (if u = th then int i else round_schedule st ! u)" for u
    using thr e(3) mv(4) by (simp add: nth_list_update)
  have act: "active st' r \<longleftrightarrow> active st r" for r
    using active_moved [OF mv(1-3)] e by (simp add: active_def valid_slot_def IsTaskRemoved_def)
  have "schedule_ok st'"
    using ok th e mv sch idents_shape(1,2) [OF mv(2)] by (auto simp: schedule_ok_def)
  moreover have "r \<in> set (invoked seq') \<longleftrightarrow> active st' r \<and> int (snd r) \<le> round_schedule st' ! fst r" for r
    using ch(2) ch(5) [of r] inv sch [of "fst r"] unfolding rec(2) act by (auto simp: explore_inv_def t)
  moreover have "\<not> co_is_returned (task_at st' r)"
    if r: "active st' r" "round_schedule st' ! fst r < int (snd r)" for r
  proof -
    have "r \<noteq> twm_task t" using r(2) sch by (auto simp: t)
    moreover have "round_schedule st ! fst r < int (snd r)"
      using r ch(5) [of r] sch [of "fst r"] act by (cases "fst r = th") (auto simp: t)
    ultimately show ?thesis using r(1) act inv mv(1) e(1) by (auto simp: explore_inv_def moved_def)
  qed
  ultimately show ?thesis using rec(1) unfolding explore_inv_def by blast
qed

text \<open>The state of the round that exploring and replaying keep.\<close>

definition same_tasks ::
    "('o, 'a, 'c, 'v, 'x) base_strategy_scheme \<Rightarrow> ('o, 'a, 'c, 'v, 'y) base_strategy_scheme \<Rightarrow> bool" where
  "same_tasks st st' \<longleftrightarrow> idents st' = idents st \<and> removed_tasks st' = removed_tasks st"

lemma same_tasks_active: "same_tasks st st' \<Longrightarrow> active st' r \<longleftrightarrow> active st r"
  using idents_shape(3,4) [of st' st r]
  by (auto simp: same_tasks_def active_def IsTaskRemoved_def task_ident_def)

context scheduling_strategy
begin

lemma explore_step_inv:
  assumes ok: ok
    and inv: "explore_inv st (snd h) \<and> same_tasks st0 st \<and> set (fst h) = set (invoked (snd h))"
    and s: "schedule_step NextSchedule (\<lambda>_ st. Inr st) E st h = Inr (b, st', h')"
  shows "(explore_inv st' (snd h') \<and> same_tasks st0 st' \<and> set (fst h') = set (invoked (snd h')))
    \<and> length (answered (snd h')) = length (answered (snd h)) + (if b then 1 else 0)"
proof -
  from s obtain t s1 where n: "NextSchedule st = Inr (t, s1)"
    by (auto simp: schedule_step_def elim!: res_bind_Inr_E)
  have i: "explore_inv st (snd h)" "schedule_ok st" using inv by (auto simp: explore_inv_def)
  have eff: "next_schedule_effect st t s1" by (rule NextSchedule_effect [OF ok i(2) n])
  note ch = next_schedule_choice [OF i(1) eff]
  have th: "threads s1 = threads st" "removed_tasks s1 = removed_tasks st"
    using eff by (auto simp: next_schedule_effect_def Let_def)
  have r: "valid_slot s1 (twm_task t)" "\<not> co_is_returned (task_at s1 (twm_task t))"
    using ch(2,3) th by (auto simp: active_def valid_slot_def)
  have rec: "records s1 (snd h)"
    by (rule records_cong [of st]) (use i th in \<open>auto simp: explore_inv_def valid_slot_def\<close>)
  note st = schedule_step_records [OF s n ch(4) r rec ch(1)]
  from st(7) have "resume_task E (twm_task t) s1 = Inr st'" by (auto split: if_splits)
  note fr = resume_task_frame [OF this]
  have "explore_inv st' (snd h')"
    by (rule explore_inv_slice [OF i(1) eff _ fr(1,3,4)]) (use st in auto)
  moreover have "same_tasks st0 st'"
    using inv fr th by (simp add: same_tasks_def idents_def)
  moreover have "set (fst h') = set (invoked (snd h'))" using inv st(2,3) by simp
  ultimately show ?thesis using st(6) by simp
qed

lemma explore_loop_inv:
  assumes ok "schedule_loop fuel NextSchedule (\<lambda>_ st. Inr st) E todo st h = Inr (st', h')"
    "explore_inv st (snd h)" "same_tasks st0 st" "set (fst h) = set (invoked (snd h))"
  shows "(explore_inv st' (snd h') \<and> same_tasks st0 st' \<and> set (fst h') = set (invoked (snd h')))
    \<and> length (answered (snd h')) = length (answered (snd h)) + todo"
  by (rule schedule_loop_inv [of "\<lambda>s k. explore_inv s (snd k) \<and> same_tasks st0 s \<and> set (fst k) = set (invoked (snd k))",
      OF explore_step_inv [OF assms(1)] assms(2)]) (use assms in auto)

end

text \<open>Counting the active tasks.\<close>

lemma active_slots: "{r. active st r} = Sigma {0..<length (threads st)}
    (\<lambda>t. {i. i < length (threads st ! t) \<and> \<not> IsTaskRemoved st (co_id (threads st ! t ! i))})"
  by (auto simp: active_def valid_slot_def)

lemma finite_active: "finite {r. active st r}"
  unfolding active_slots by simp

lemma card_active: "card {r. active st r} = GetValidTasksCount st"
proof -
  have "card {r. active st r} = (\<Sum>t = 0..<length (threads st).
      card {i. i < length (threads st ! t) \<and> \<not> IsTaskRemoved st (co_id (threads st ! t ! i))})"
    unfolding active_slots by (simp add: card_SigmaI)
  also have "\<dots> = GetValidTasksCount st"
    unfolding GetValidTasksCount_def by (simp add: sum_list_sum_nth length_filter_conv_card)
  finally show ?thesis .
qed

lemma wf_from_distinct_answered: "wf_from I R seq \<Longrightarrow> distinct (answered seq) \<and> set (answered seq) \<inter> R = {}"
  by (induction I R seq rule: wf_from.induct) auto

lemma wf_history_distinct_answered: "wf_history seq \<Longrightarrow> distinct (answered seq)"
  using wf_from_distinct_answered by (auto simp: wf_history_def)

text \<open>A history is complete for the round when it invokes and answers exactly the active tasks.\<close>

definition complete_history :: "('o, 'a, 'c, 'v, 'x) base_strategy_scheme \<Rightarrow> seq_history \<Rightarrow> bool" where
  "complete_history st seq \<longleftrightarrow> wf_history seq
     \<and> (\<forall>r. r \<in> set (invoked seq) \<longleftrightarrow> active st r) \<and> (\<forall>r. r \<in> set (answered seq) \<longleftrightarrow> active st r)"

lemma explore_complete:
  assumes inv: "explore_inv st seq" and len: "length (answered seq) = GetValidTasksCount st"
  shows "complete_history st seq"
proof -
  have wf: "wf_history seq" and sub: "set (invoked seq) \<subseteq> {r. active st r}"
    using inv by (auto simp: explore_inv_def records_def)
  have sub2: "set (answered seq) \<subseteq> set (invoked seq)" by (rule wf_history_answered [OF wf])
  have "card (set (answered seq)) = card {r. active st r}"
    using distinct_card [OF wf_history_distinct_answered [OF wf]] len card_active [of st] by simp
  then have "set (answered seq) = {r. active st r}"
    using card_subset_eq [OF finite_active] sub sub2 by (meson order_trans)
  with sub sub2 wf show ?thesis unfolding complete_history_def by blast
qed

text \<open>A history that the checker refused, and that agrees with the tasks of the round.\<close>

definition refuted ::
    "('a, 's) linearizability_checker \<Rightarrow> ('o, 'a, 'c, 'v, 'x) base_strategy_scheme \<Rightarrow> both_histories \<Rightarrow> bool" where
  "refuted C st h \<longleftrightarrow> records st (snd h) \<and> set (fst h) = set (invoked (snd h))
     \<and> Check_recursive C (store st) (snd h) = Inr False"

lemma refuted_not_linearizable:
  assumes "refuted C st h" "comparable C st"
  shows "\<not> linearizable C (store st) (snd h)"
  using recursive_checker.Check_verdict [OF records_checkable [OF _ assms(2)], of "snd h"] assms(1)
  by (simp add: refuted_def)

definition explore_outcome ::
    "('a, 's) linearizability_checker \<Rightarrow> ('o, 'a, 'c, 'v, 'x) base_strategy_scheme
      \<Rightarrow> ('o, 'a, 'c, 'v, 'y) base_strategy_scheme \<Rightarrow> both_histories option \<Rightarrow> bool" where
  "explore_outcome C st0 st res \<longleftrightarrow> same_tasks st0 st
     \<and> (\<forall>h. res = Some h \<longrightarrow> complete_history st (snd h) \<and> refuted C st h
          \<and> (comparable C st \<longrightarrow> \<not> linearizable C (store st) (snd h)))"

lemma check_round_Some:
  assumes "check_round Check st h = Inr (Some h')"
  shows "h' = h \<and> Check (store st) (snd h) = Inr False"
  using assms by (auto simp: check_round_def elim!: res_bind_Inr_E split: if_splits)

context replaying_strategy
begin

lemma ExploreRound_outcome:
  assumes ok: ok and M: "strategy_methods.NextSchedule M = NextSchedule" "strategy_methods.ResetRound M = ResetRound"
  shows "ExploreRound M E (Check_recursive C) runs st = Inr (res, st') \<Longrightarrow> same_tasks st0 st
    \<Longrightarrow> explore_outcome C st0 st' res"
proof (induction runs arbitrary: st)
  case 0
  then show ?case by (simp add: explore_outcome_def)
next
  case (Suc runs)
  from Suc.prems(1) M obtain s1 s2 h r where
    reset: "ResetRound st = Inr s1"
    and loop: "schedule_loop (env_fuel E) NextSchedule (\<lambda>_ st. Inr st) E (GetValidTasksCount s1) s1 ([], []) = Inr (s2, h)"
    and chk: "check_round (Check_recursive C) s2 h = Inr r"
    and rest: "(case r of Some h \<Rightarrow> Inr (Some h, s2) | None \<Rightarrow> ExploreRound M E (Check_recursive C) runs s2)
      = (Inr (res, st') :: _ res)"
    by (auto elim!: res_bind_Inr_E)
  have eff: "reset_effect st s1" by (rule Reset_effect [OF reset])
  have s1: "same_tasks st0 s1" using eff Suc.prems(2) by (simp add: reset_effect_def same_tasks_def)
  have i: "explore_inv s2 (snd h)" "same_tasks st0 s2" "length (answered (snd h)) = GetValidTasksCount s1"
      "set (fst h) = set (invoked (snd h))"
    using explore_loop_inv [OF ok loop _ s1] explore_inv_reset [OF eff] by auto
  show ?case
  proof (cases r)
    case None
    with rest Suc.IH i(2) show ?thesis by simp
  next
    case (Some h')
    have h': "h' = h" "Check_recursive C (store s2) (snd h) = Inr False"
      using check_round_Some [of _ s2 h h'] chk Some by auto
    have "GetValidTasksCount s1 = GetValidTasksCount s2"
      using same_tasks_active [OF s1] same_tasks_active [OF i(2)] by (simp flip: card_active)
    then have "complete_history s2 (snd h)" using explore_complete [OF i(1)] i(3) by simp
    moreover have "refuted C s2 h" using i h'(2) by (simp add: refuted_def explore_inv_def)
    ultimately show ?thesis using rest Some h' i(2) refuted_not_linearizable by (auto simp: explore_outcome_def)
  qed
qed

end

section \<open>Replaying\<close>

text \<open>
  What a replay comes down to: every entry of the ordering resumes its task once, unless the
  task has returned. There is no counter and no call of \<open>Terminate\<close>.
\<close>

definition resume_entry ::
    "('o, 'c, 'v, 'g) runtime_env \<Rightarrow> int
      \<Rightarrow> ('o, 'a, 'c, 'v, 'x) base_strategy_scheme \<times> int set \<times> both_histories
      \<Rightarrow> (('o, 'a, 'c, 'v, 'x) base_strategy_scheme \<times> int set \<times> both_histories) res" where
  "resume_entry E i s = (case s of (st, started, h) \<Rightarrow>
     case GetTask_by_id st i of
       None \<Rightarrow> Inl (Runtime_Error ''Invalid task id'')
     | Some (r, u) \<Rightarrow>
         let seq = (if i \<in> started then snd h else snd h @ [Invoke r (int u)]) in
         res_bind (get_task st r) (\<lambda>c.
         if co_is_returned c then Inr (st, insert i started, fst h @ [r], seq)
         else res_bind (resume_task E r st) (\<lambda>st.
           res_bind (get_task st r) (\<lambda>c.
           Inr (st, insert i started, fst h @ [r],
             if co_is_returned c then seq @ [Response r (co_ret c) (int u)] else seq)))))"

fun resume_entries ::
    "('o, 'c, 'v, 'g) runtime_env \<Rightarrow> int list
      \<Rightarrow> ('o, 'a, 'c, 'v, 'x) base_strategy_scheme \<times> int set \<times> both_histories
      \<Rightarrow> (('o, 'a, 'c, 'v, 'x) base_strategy_scheme \<times> int set \<times> both_histories) res" where
  "resume_entries E [] s = Inr s"
| "resume_entries E (i # is) s = res_bind (resume_entry E i s) (resume_entries E is)"

lemma replay_step_resumes:
  assumes "0 < resumes_count rs i"
  shows "\<exists>n. resumes_count rs i \<le> Suc n \<and> replay_step E i (st, rs, h) =
    res_bind (resume_entry E i (st, started_tasks rs, h)) (\<lambda>(st, started, h).
      Inr (st, \<lparr>started_tasks = started, resumes_count = (resumes_count rs)(i := n)\<rparr>, h))"
proof (cases "GetTask_by_id st i")
  case None
  then show ?thesis by (intro exI [of _ "resumes_count rs i"]) (simp add: replay_step_def resume_entry_def Let_def)
next
  case (Some p)
  obtain r u where p: "p = (r, u)" by fastforce
  obtain S k where rs: "rs = \<lparr>started_tasks = S, resumes_count = k\<rparr>" by (cases rs)
  have v: "valid_slot st r" using GetTask_by_id_Some [of st i r u] Some p by simp
  show ?thesis
  proof (cases "co_is_returned (task_at st r)")
    case True
    then show ?thesis using Some p v rs
      by (intro exI [of _ "k i"]) (simp add: replay_step_def resume_entry_def Let_def)
  next
    case False
    then obtain st' where st': "resume_task E r st = Inr st'" using resume_task_total [OF v] by blast
    have "valid_slot st' r" using resume_moved [OF st'] moved_valid v by blast
    then show ?thesis using Some p v rs False st' assms
      by (intro exI [of _ "k i - 1"]) (simp add: replay_step_def resume_entry_def Let_def GetRetVal_def)
  qed
qed

lemma replay_loop_resumes:
  assumes "\<And>i. count_list is i \<le> resumes_count rs i"
  shows "res_bind (replay_loop E is (st, rs, h)) (\<lambda>(st, rs, h). f st h)
    = res_bind (resume_entries E is (st, started_tasks rs, h)) (\<lambda>(st, started, h). f st h)"
  using assms
proof (induction "is" arbitrary: st rs h)
  case Nil
  then show ?case by simp
next
  case (Cons i "is")
  have pos: "0 < resumes_count rs i" using Cons.prems [of i] by simp
  obtain n where n: "resumes_count rs i \<le> Suc n" "replay_step E i (st, rs, h) =
    res_bind (resume_entry E i (st, started_tasks rs, h)) (\<lambda>(st, started, h).
      Inr (st, \<lparr>started_tasks = started, resumes_count = (resumes_count rs)(i := n)\<rparr>, h))"
    using replay_step_resumes [OF pos] by blast
  have cnt: "count_list is j \<le> ((resumes_count rs)(i := n)) j" for j
    using Cons.prems [of j] n(1) by (auto split: if_splits)
  show ?case
  proof (cases "resume_entry E i (st, started_tasks rs, h)")
    case (Inl e)
    with n(2) show ?thesis by simp
  next
    case (Inr p)
    obtain st' S' h' where p: "p = (st', S', h')" by (cases p)
    show ?thesis using Cons.IH [of "\<lparr>started_tasks = S', resumes_count = (resumes_count rs)(i := n)\<rparr>" st' h'] cnt
      by (simp add: n(2) Inr p)
  qed
qed

text \<open>The histories of a replay that names active tasks only.\<close>

definition replay_inv ::
    "('o, 'a, 'c, 'v, 'x) base_strategy_scheme \<Rightarrow> int set \<Rightarrow> both_histories \<Rightarrow> bool" where
  "replay_inv st started h \<longleftrightarrow> records st (snd h)
     \<and> (\<forall>r. r \<in> set (invoked (snd h)) \<longleftrightarrow> (\<exists>i \<in> started. GetTask_by_id st i = Some (r, fst r)))
     \<and> (\<forall>r. active st r \<longrightarrow> r \<notin> set (invoked (snd h)) \<longrightarrow> \<not> co_is_returned (task_at st r))"

text \<open>The search by id looks at the ids only.\<close>

lemma find_in_thread_ids: "map co_id cs = map co_id cs' \<Longrightarrow> find_in_thread i k cs = find_in_thread i k cs'"
  by (induction cs arbitrary: cs' k) (auto simp: Cons_eq_map_conv)

lemma find_in_threads_ids:
  "map (map co_id) ths = map (map co_id) ths' \<Longrightarrow> find_in_threads i t ths = find_in_threads i t ths'"
proof (induction ths arbitrary: ths' t)
  case (Cons th ths)
  then obtain th' ths'' where "ths' = th' # ths''" "map co_id th = map co_id th'" by (auto simp: Cons_eq_map_conv)
  with Cons find_in_thread_ids [of th th'] show ?case by (auto split: option.splits)
qed simp

lemma GetTask_by_id_idents:
  assumes "idents st' = idents st"
  shows "GetTask_by_id st' i = GetTask_by_id st i"
proof -
  have "map (map co_id) (threads st') = map (map co_id) (threads st)"
    using arg_cong [OF assms, of "map (map fst)"] by (simp add: idents_def comp_def task_ident_def)
  from find_in_threads_ids [OF this] show ?thesis by (simp add: GetTask_by_id_def)
qed

lemma resume_entry_inv:
  assumes entry: "resume_entry E i (st, started, h) = Inr (st', started', h')"
    and inv: "replay_inv st started h" and i: "\<not> IsTaskRemoved st i"
  shows "replay_inv st' started' h' \<and> same_tasks st st' \<and> started' = insert i started
    \<and> (\<exists>r. fst h' = fst h @ [r] \<and> GetTask_by_id st i = Some (r, fst r))"
proof -
  from entry obtain r u where g: "GetTask_by_id st i = Some (r, u)"
    by (cases "GetTask_by_id st i") (auto simp: resume_entry_def)
  have r: "valid_slot st r" "fst r = u" "co_id (task_at st r) = i" using GetTask_by_id_Some [OF g] by auto
  have act: "active st r" using r i by (simp add: active_def)
  let ?seq = "if i \<in> started then snd h else snd h @ [Invoke r (int u)]"
  have new: "i \<in> started \<longleftrightarrow> r \<in> set (invoked (snd h))"
  proof
    assume "r \<in> set (invoked (snd h))"
    then obtain j where j: "j \<in> started" "GetTask_by_id st j = Some (r, fst r)" using inv unfolding replay_inv_def by blast
    then have "j = i" using GetTask_by_id_Some [OF j(2)] r by simp
    with j show "i \<in> started" by simp
  qed (use inv g r in \<open>auto simp: replay_inv_def\<close>)
  have seq: "records st ?seq" "r \<in> set (invoked ?seq)" "set (invoked ?seq) = insert r (set (invoked (snd h)))"
    using new inv records_invoke [of st "snd h" r] r act by (auto simp: replay_inv_def)
  have started: "r' \<in> insert r (set (invoked (snd h))) \<longleftrightarrow> (\<exists>j \<in> insert i started. GetTask_by_id st j = Some (r', fst r'))" for r'
    using inv g r(2) unfolding replay_inv_def by auto
  have later: "active st r' \<Longrightarrow> r' \<notin> insert r (set (invoked (snd h))) \<Longrightarrow> \<not> co_is_returned (task_at st r')" for r'
    using inv unfolding replay_inv_def by blast
  show ?thesis
  proof (cases "co_is_returned (task_at st r)")
    case True
    then have "st' = st \<and> started' = insert i started \<and> h' = (fst h @ [r], ?seq)"
      using entry g r(1) by (simp add: resume_entry_def Let_def)
    then show ?thesis using seq started later r g unfolding replay_inv_def by (auto simp: same_tasks_def)
  next
    case False
    then obtain s where s: "resume_task E r st = Inr s" using resume_task_total [OF r(1)] by blast
    have mv: "moved st r s" by (rule resume_moved [OF s])
    then have "valid_slot s r" using moved_valid r(1) by blast
    then have e: "st' = s" "started' = insert i started" "h' = (fst h @ [r],
        if co_is_returned (task_at s r) then ?seq @ [Response r (co_ret (task_at s r)) (int (fst r))] else ?seq)"
      using entry g r False s by (auto simp: resume_entry_def Let_def)
    have same: "same_tasks st s" using resume_task_frame(1,3) [OF s] by (simp add: same_tasks_def)
    have "records s (snd h')" using records_advance [OF seq(1,2) False mv] e(3) by simp
    moreover have i': "set (invoked (snd h')) = insert r (set (invoked (snd h)))" using seq(3) e(3) by auto
    moreover have "\<forall>r'. active s r' \<longrightarrow> r' \<notin> set (invoked (snd h')) \<longrightarrow> \<not> co_is_returned (task_at s r')"
    proof (intro allI impI)
      fix r' assume "active s r'" "r' \<notin> set (invoked (snd h'))"
      then show "\<not> co_is_returned (task_at s r')"
        using later [of r'] same_tasks_active [OF same, of r'] mv i' by (auto simp: moved_def)
    qed
    moreover have "\<forall>r'. r' \<in> set (invoked (snd h')) \<longleftrightarrow> (\<exists>j \<in> started'. GetTask_by_id s j = Some (r', fst r'))"
      unfolding i' e(2) GetTask_by_id_idents [OF resume_task_frame(1) [OF s]] by (rule allI, rule started)
    ultimately have "replay_inv s started' h'" unfolding replay_inv_def by blast
    then show ?thesis using e same r g by auto
  qed
qed

definition entries_of :: "('o, 'a, 'c, 'v, 'x) base_strategy_scheme \<Rightarrow> slot list \<Rightarrow> int list \<Rightarrow> bool" where
  "entries_of st rs is \<longleftrightarrow> list_all2 (\<lambda>r i. GetTask_by_id st i = Some (r, fst r)) rs is"

lemma entries_of_same: "same_tasks st st' \<Longrightarrow> entries_of st' rs is \<longleftrightarrow> entries_of st rs is"
  by (simp add: entries_of_def same_tasks_def GetTask_by_id_idents [of st' st])

lemma entries_of_set:
  assumes "entries_of st rs is"
  shows "r \<in> set rs \<longleftrightarrow> (\<exists>i \<in> set is. GetTask_by_id st i = Some (r, fst r))"
  using assms unfolding entries_of_def by (induction rs "is" rule: list_all2_induct) auto

lemma entries_invoked:
  assumes "replay_inv st (set ord) h" "entries_of st (fst h) ord"
  shows "set (fst h) = set (invoked (snd h))"
  using entries_of_set [OF assms(2)] assms(1) unfolding replay_inv_def by blast

lemma resume_entries_inv:
  "resume_entries E is (st, started, h) = Inr (st', started', h') \<Longrightarrow> replay_inv st started h
    \<Longrightarrow> \<forall>i \<in> set is. \<not> IsTaskRemoved st i
    \<Longrightarrow> replay_inv st' started' h' \<and> same_tasks st st' \<and> started' = started \<union> set is
      \<and> (\<exists>rs. fst h' = fst h @ rs \<and> entries_of st rs is)"
proof (induction "is" arbitrary: st started h)
  case Nil
  then show ?case by (simp add: same_tasks_def entries_of_def)
next
  case (Cons i "is")
  from Cons.prems(1) obtain s1 S1 h1 where e: "resume_entry E i (st, started, h) = Inr (s1, S1, h1)"
    and l: "resume_entries E is (s1, S1, h1) = Inr (st', started', h')"
    by (auto elim!: res_bind_Inr_E)
  obtain r where i: "replay_inv s1 S1 h1" "same_tasks st s1" "S1 = insert i started" "fst h1 = fst h @ [r]"
      "GetTask_by_id st i = Some (r, fst r)"
    using resume_entry_inv [OF e Cons.prems(2)] Cons.prems(3) by auto
  have "\<forall>j \<in> set is. \<not> IsTaskRemoved s1 j" using Cons.prems(3) i(2) by (simp add: same_tasks_def IsTaskRemoved_def)
  from Cons.IH [OF l i(1) this] obtain rs where
    rest: "replay_inv st' started' h'" "same_tasks s1 st'" "started' = S1 \<union> set is" "fst h' = fst h1 @ rs" "entries_of s1 rs is"
    by blast
  moreover have "same_tasks st st'" using i(2) rest(2) by (simp add: same_tasks_def)
  moreover have "entries_of st (r # rs) (i # is)"
    using rest(5) i entries_of_same [OF i(2)] by (simp add: entries_of_def)
  ultimately show ?case using i by auto
qed

definition replay_outcome ::
    "('a, 's) linearizability_checker \<Rightarrow> int list \<Rightarrow> ('o, 'a, 'c, 'v, 'x) base_strategy_scheme
      \<Rightarrow> ('o, 'a, 'c, 'v, 'y) base_strategy_scheme \<Rightarrow> both_histories option \<Rightarrow> bool" where
  "replay_outcome C ord st0 st res \<longleftrightarrow> same_tasks st0 st
     \<and> (\<forall>h. res = Some h \<longrightarrow> wf_history (snd h) \<and> refuted C st h \<and> entries_of st (fst h) ord
          \<and> (\<forall>r. r \<in> set (invoked (snd h)) \<longleftrightarrow> (\<exists>i \<in> set ord. GetTask_by_id st i = Some (r, fst r)))
          \<and> (\<forall>r \<in> set (invoked (snd h)). r \<in> set (answered (snd h)) \<longleftrightarrow> co_is_returned (task_at st r))
          \<and> (comparable C st \<longrightarrow> \<not> linearizable C (store st) (snd h)))"

lemma ReplayRound_resumes:
  "ReplayRound M E Check ord st = res_bind (ResetRound M st) (\<lambda>st.
     res_bind (resume_entries E ord (st, {}, [], [])) (\<lambda>(st, started, h).
     res_bind (check_round Check st h) (\<lambda>r. Inr (r, st))))"
proof -
  have "res_bind (replay_loop E ord (s, \<lparr>started_tasks = {}, resumes_count = count_list ord\<rparr>, [], []))
      (\<lambda>(s, rs, h). res_bind (check_round Check s h) (\<lambda>r. Inr (r, s)))
    = res_bind (resume_entries E ord (s, {}, [], [])) (\<lambda>(s, started, h). res_bind (check_round Check s h) (\<lambda>r. Inr (r, s)))"
    for s :: "('a, 'b, 'c, 'd, 'e) base_strategy_scheme"
    using replay_loop_resumes [of ord "\<lparr>started_tasks = {}, resumes_count = count_list ord\<rparr>" E s "([], [])"] by simp
  then show ?thesis unfolding ReplayRound_def by (simp only:)
qed

context replaying_strategy
begin

lemma ReplayRound_outcome:
  assumes M: "strategy_methods.ResetRound M = ResetRound"
    and run: "ReplayRound M E' (Check_recursive C) ord st = Inr (res, st')"
    and ids: "\<forall>i \<in> set ord. \<not> IsTaskRemoved st i"
  shows "replay_outcome C ord st st' res"
proof -
  from run M obtain s1 S h where reset: "ResetRound st = Inr s1"
    and loop: "resume_entries E' ord (s1, {}, [], []) = Inr (st', S, h)"
    and chk: "check_round (Check_recursive C) st' h = Inr res"
    unfolding ReplayRound_resumes by (auto elim!: res_bind_Inr_E)
  have eff: "reset_effect st s1" by (rule Reset_effect [OF reset])
  then have "replay_inv s1 {} ([], [])" using reset_not_returned by (auto simp: replay_inv_def)
  moreover have "\<forall>i \<in> set ord. \<not> IsTaskRemoved s1 i" using eff ids by (simp add: reset_effect_def IsTaskRemoved_def)
  ultimately have i: "replay_inv st' (set ord) h" "same_tasks s1 st'" "entries_of s1 (fst h) ord"
    using resume_entries_inv [OF loop] by auto
  have same: "same_tasks st st'" using eff i(2) by (simp add: reset_effect_def same_tasks_def)
  have rec: "records st' (snd h)" using i(1) by (simp add: replay_inv_def)
  have ent: "entries_of st' (fst h) ord" using i(3) entries_of_same [OF i(2)] by simp
  have refuted: "refuted C st' h" if "res = Some h'" for h'
    using rec entries_invoked [OF i(1) ent] check_round_Some [of "Check_recursive C" st' h h'] chk that
    by (simp add: refuted_def)
  moreover have "h' = h" if "res = Some h'" for h' using check_round_Some chk that by fastforce
  ultimately show ?thesis
    using same i(1) rec ent refuted_not_linearizable [of C st'] unfolding replay_outcome_def replay_inv_def records_def by blast
qed

end

section \<open>Samples\<close>

text \<open>The round of \<open>replay_rr\<close>, where task 1 is removed, explored and replayed.\<close>

lemma sample_ExploreRound:
  "case ExploreRound (RR_methods sample_env) sample_env (Check_recursive Register_checker) 1 replay_rr of
     Inl _ \<Rightarrow> False
   | Inr (res, st) \<Rightarrow> map_option fst res = Some [(1, 1), (0, 0), (1, 1), (0, 0), (1, 1)]
       \<and> list_all (list_all get_call) (threads st)"
  by code_simp

lemma sample_ReplayRound:
  "case ReplayRound (RR_methods sample_env) sample_env (Check_recursive Register_checker) [2, 0, 0, 2] replay_rr of
     Inl _ \<Rightarrow> False
   | Inr (res, st) \<Rightarrow> map_option fst res = Some [(1, 1), (0, 0), (0, 0), (1, 1)]
       \<and> list_all (list_all get_call) (threads st)"
  by code_simp

section \<open>Properties\<close>

text \<open>
  C8. Exploring a round, with any of the three strategies: the tasks and the removed ids of the
  round stay as they are, and a history that is returned is complete (it invokes and answers
  each task that is not removed once, and no other) and is not linearizable.
\<close>

theorem ExploreRound_reports:
  assumes "random_ok (env_random E)"
  shows "(ExploreRound (RR_methods E) E (Check_recursive C) runs st = Inr (res, st') \<longrightarrow> explore_outcome C st st' res)
    \<and> (ExploreRound (Random_methods E) E (Check_recursive C) runs sr = Inr (res, sr') \<longrightarrow> explore_outcome C sr sr' res)
    \<and> (ExploreRound (Pct_methods E) E (Check_recursive C) runs sp = Inr (res, sp') \<longrightarrow> explore_outcome C sp sp' res)"
  using rr_replay.ExploreRound_outcome [OF assms, of "RR_methods E" C runs st res st' st]
    random_replay.ExploreRound_outcome [OF assms, of "Random_methods E" C runs sr res sr' sr]
    pct_replay.ExploreRound_outcome [OF TrueI, of "Pct_methods E" E C runs sp res sp' sp]
  by (simp add: RR_methods_def Random_methods_def Pct_methods_def same_tasks_def)

theorem ExploreRound_reports_witness:
  "\<exists>h st'. ExploreRound (RR_methods sample_env) sample_env (Check_recursive Register_checker) 1 replay_rr = Inr (Some h, st')
     \<and> explore_outcome Register_checker replay_rr st' (Some h) \<and> comparable Register_checker st'"
proof -
  from sample_ExploreRound obtain res st' where
    r: "ExploreRound (RR_methods sample_env) sample_env (Check_recursive Register_checker) 1 replay_rr = Inr (res, st')"
    and p: "map_option fst res = Some [(1, 1), (0, 0), (1, 1), (0, 0), (1, 1)] \<and> list_all (list_all get_call) (threads st')"
    by (rule res_case_E)
  from ExploreRound_reports [OF sample_env_random] r have "explore_outcome Register_checker replay_rr st' res" by blast
  with r p comparable_gets [of st'] show ?thesis by (cases res) auto
qed

text \<open>
  C9. Replaying a round in a given order of ids, none of them removed: the recorded slices are
  the entries of the order, the invoked tasks those that occur in it, the answered ones those
  of them that have returned, and a history that is returned is not linearizable.
\<close>

theorem ReplayRound_reports:
  assumes "\<forall>i \<in> set ord. i \<notin> removed_tasks st" "\<forall>i \<in> set ord. i \<notin> removed_tasks sp"
  shows "(ReplayRound (RR_methods E) E (Check_recursive C) ord st = Inr (res, st') \<longrightarrow> replay_outcome C ord st st' res)
    \<and> (ReplayRound (Pct_methods E) E (Check_recursive C) ord sp = Inr (res, sp') \<longrightarrow> replay_outcome C ord sp sp' res)"
  using rr_replay.ReplayRound_outcome [of "RR_methods E" E E C ord st res st']
    pct_replay.ReplayRound_outcome [of "Pct_methods E" E E C ord sp res sp'] assms
  by (simp add: RR_methods_def Pct_methods_def IsTaskRemoved_def)

theorem ReplayRound_reports_witness:
  "\<exists>h st'. ReplayRound (RR_methods sample_env) sample_env (Check_recursive Register_checker) [2, 0, 0, 2] replay_rr
      = Inr (Some h, st') \<and> replay_outcome Register_checker [2, 0, 0, 2] replay_rr st' (Some h)
      \<and> comparable Register_checker st'"
proof -
  from sample_ReplayRound obtain res st' where
    r: "ReplayRound (RR_methods sample_env) sample_env (Check_recursive Register_checker) [2, 0, 0, 2] replay_rr = Inr (res, st')"
    and p: "map_option fst res = Some [(1, 1), (0, 0), (0, 0), (1, 1)] \<and> list_all (list_all get_call) (threads st')"
    by (rule res_case_E)
  have "\<forall>i \<in> set [2, 0, 0, 2]. i \<notin> removed_tasks replay_rr" "\<forall>i \<in> set [2, 0, 0, 2]. i \<notin> removed_tasks sample_pct"
    by (simp_all add: replay_rr_def sample_pct_def)
  from ReplayRound_reports [OF this] r have "replay_outcome Register_checker [2, 0, 0, 2] replay_rr st' res" by blast
  with r p comparable_gets [of st'] show ?thesis by (cases res) auto
qed

text \<open>
  A replay never completes a task: the counter of a task counts all its entries and goes
  down by one per entry that runs it, so it is positive whenever it is tested, and
  \<open>ReplayRound\<close> is the loop that resumes the task of each entry once. The comment on the call
  of \<open>Terminate\<close> says that the last entry of a task completes it.
\<close>

theorem ReplayRound_only_resumes:
  "ReplayRound M E Check ord st = res_bind (ResetRound M st) (\<lambda>st.
     res_bind (resume_entries E ord (st, {}, [], [])) (\<lambda>(st, started, h).
     res_bind (check_round Check st h) (\<lambda>r. Inr (r, st))))"
  by (rule ReplayRound_resumes)

end
