(* ===== verification/Minimization.thy ===== *)
theory Minimization
  imports Round_Replay
begin

text \<open>
  Model of \<open>runtime/minimization.cpp\<close>: the greedy minimizors, which remove single tasks and then
  pairs of tasks from a history that the checker refused, as long as a replay (\<open>SameInterleaving\<close>)
  or an exploration (\<open>StrategyExploration\<close>) of the rest is still refused. A reference to a task
  is its slot; ids are read from the tasks of the strategy.
\<close>

section \<open>The greedy minimizors\<close>

definition GetId :: "('o, 'a, 'c, 'v, 'x) base_strategy_scheme \<Rightarrow> slot \<Rightarrow> int" where
  "GetId st r = co_id (store st r)"

definition GetTasksOrdering ::
    "('o, 'a, 'c, 'v, 'x) base_strategy_scheme \<Rightarrow> full_history \<Rightarrow> int set \<Rightarrow> int list" where
  "GetTasksOrdering st full_history exclude_task_ids =
     filter (\<lambda>i. i \<notin> exclude_task_ids) (map (GetId st) full_history)"

type_synonym ('o, 'a, 'c, 'v, 'x) removal =
  "('o, 'a, 'c, 'v, 'x) base_strategy_scheme \<Rightarrow> both_histories \<Rightarrow> int list
    \<Rightarrow> (both_histories option \<times> ('o, 'a, 'c, 'v, 'x) base_strategy_scheme) res"

text \<open>The first loop: single tasks.\<close>

fun remove_single ::
    "('o, 'a, 'c, 'v, 'x) removal \<Rightarrow> slot list \<Rightarrow> ('o, 'a, 'c, 'v, 'x) base_strategy_scheme \<times> both_histories
      \<Rightarrow> (('o, 'a, 'c, 'v, 'x) base_strategy_scheme \<times> both_histories) res" where
  "remove_single OnTasksRemoved [] s = Inr s"
| "remove_single OnTasksRemoved (task # tasks) s = (case s of (st, h) \<Rightarrow>
     let task_id = GetId st task in
     if IsTaskRemoved st task_id then remove_single OnTasksRemoved tasks s
     else res_bind (OnTasksRemoved st h [task_id]) (\<lambda>(new_histories, st).
       remove_single OnTasksRemoved tasks
         (case new_histories of
            None \<Rightarrow> (st, h)
          | Some h' \<Rightarrow> (SetTaskRemoved task_id True st, h'))))"

text \<open>The loop over the partners of one task, which stops at the first success.\<close>

fun remove_with ::
    "('o, 'a, 'c, 'v, 'x) removal \<Rightarrow> int \<Rightarrow> slot list \<Rightarrow> ('o, 'a, 'c, 'v, 'x) base_strategy_scheme \<times> both_histories
      \<Rightarrow> (('o, 'a, 'c, 'v, 'x) base_strategy_scheme \<times> both_histories) res" where
  "remove_with OnTasksRemoved task_i_id [] s = Inr s"
| "remove_with OnTasksRemoved task_i_id (task_j # tasks) s = (case s of (st, h) \<Rightarrow>
     let task_j_id = GetId st task_j in
     if IsTaskRemoved st task_j_id then remove_with OnTasksRemoved task_i_id tasks s
     else res_bind (OnTasksRemoved st h [task_i_id, task_j_id]) (\<lambda>(new_histories, st).
       case new_histories of
         None \<Rightarrow> remove_with OnTasksRemoved task_i_id tasks (st, h)
       | Some h' \<Rightarrow>
           res_bind (cxx_assert ''new_histories.value().second.size() % 2 == 0'' (even (length (snd h')))) (\<lambda>_.
           Inr (SetTaskRemoved task_j_id True (SetTaskRemoved task_i_id True st), h'))))"

fun remove_pairs ::
    "('o, 'a, 'c, 'v, 'x) removal \<Rightarrow> slot list \<Rightarrow> ('o, 'a, 'c, 'v, 'x) base_strategy_scheme \<times> both_histories
      \<Rightarrow> (('o, 'a, 'c, 'v, 'x) base_strategy_scheme \<times> both_histories) res" where
  "remove_pairs OnTasksRemoved [] s = Inr s"
| "remove_pairs OnTasksRemoved (task_i # tasks) s = (case s of (st, h) \<Rightarrow>
     let task_i_id = GetId st task_i in
     if IsTaskRemoved st task_i_id then remove_pairs OnTasksRemoved tasks s
     else res_bind (remove_with OnTasksRemoved task_i_id tasks s) (remove_pairs OnTasksRemoved tasks))"

definition Greedy_Minimize ::
    "('o, 'a, 'c, 'v, 'x) strategy_methods \<Rightarrow> ('o, 'c, 'v, 'g) runtime_env \<Rightarrow> ('a, 'c) check
      \<Rightarrow> ('o, 'a, 'c, 'v, 'x) removal \<Rightarrow> ('o, 'a, 'c, 'v, 'x) base_strategy_scheme \<times> both_histories
      \<Rightarrow> (('o, 'a, 'c, 'v, 'x) base_strategy_scheme \<times> both_histories) res" where
  "Greedy_Minimize M E Check OnTasksRemoved s =
     (let tasks = invoked (snd (snd s)) in
      res_bind (remove_single OnTasksRemoved tasks s) (\<lambda>s.
      res_bind (remove_pairs OnTasksRemoved tasks s) (\<lambda>(st, h).
      res_bind (ReplayRound M E Check (GetTasksOrdering st (fst h) {}) st) (\<lambda>(_, st).
      Inr (st, h)))))"

definition Same_OnTasksRemoved ::
    "('o, 'a, 'c, 'v, 'x) strategy_methods \<Rightarrow> ('o, 'c, 'v, 'g) runtime_env \<Rightarrow> ('a, 'c) check
      \<Rightarrow> ('o, 'a, 'c, 'v, 'x) removal" where
  "Same_OnTasksRemoved M E Check st h task_ids =
     ReplayRound M E Check (GetTasksOrdering st (fst h) (set task_ids)) st"

definition mark_tasks_as_removed ::
    "int list \<Rightarrow> bool \<Rightarrow> ('o, 'a, 'c, 'v, 'x) base_strategy_scheme \<Rightarrow> ('o, 'a, 'c, 'v, 'x) base_strategy_scheme" where
  "mark_tasks_as_removed task_ids is_removed st = fold (\<lambda>i. SetTaskRemoved i is_removed) task_ids st"

definition Explore_OnTasksRemoved ::
    "('o, 'a, 'c, 'v, 'x) strategy_methods \<Rightarrow> ('o, 'c, 'v, 'g) runtime_env \<Rightarrow> ('a, 'c) check \<Rightarrow> nat
      \<Rightarrow> ('o, 'a, 'c, 'v, 'x) removal" where
  "Explore_OnTasksRemoved M E Check runs st h task_ids =
     res_bind (ExploreRound M E Check runs (mark_tasks_as_removed task_ids True st)) (\<lambda>(new_histories, st).
     Inr (new_histories, if new_histories = None then mark_tasks_as_removed task_ids False st else st))"

definition SameInterleavingMinimizor ::
    "('o, 'a, 'c, 'v, 'x) strategy_methods \<Rightarrow> ('o, 'c, 'v, 'g) runtime_env \<Rightarrow> ('a, 'c) check
      \<Rightarrow> ('o, 'a, 'c, 'v, 'x) base_strategy_scheme \<times> both_histories
      \<Rightarrow> (('o, 'a, 'c, 'v, 'x) base_strategy_scheme \<times> both_histories) res" where
  "SameInterleavingMinimizor M E Check = Greedy_Minimize M E Check (Same_OnTasksRemoved M E Check)"

definition StrategyExplorationMinimizor ::
    "('o, 'a, 'c, 'v, 'x) strategy_methods \<Rightarrow> ('o, 'c, 'v, 'g) runtime_env \<Rightarrow> ('a, 'c) check \<Rightarrow> nat
      \<Rightarrow> ('o, 'a, 'c, 'v, 'x) base_strategy_scheme \<times> both_histories
      \<Rightarrow> (('o, 'a, 'c, 'v, 'x) base_strategy_scheme \<times> both_histories) res" where
  "StrategyExplorationMinimizor M E Check runs = Greedy_Minimize M E Check (Explore_OnTasksRemoved M E Check runs)"

section \<open>What a minimizor keeps\<close>

definition distinct_ids :: "('o, 'a, 'c, 'v, 'x) base_strategy_scheme \<Rightarrow> bool" where
  "distinct_ids st \<longleftrightarrow> (\<forall>r r'. valid_slot st r \<longrightarrow> valid_slot st r' \<longrightarrow> GetId st r = GetId st r' \<longrightarrow> r = r')"

text \<open>
  The history was refused by the checker, in some state of the round with these tasks, and its
  tasks are those of the round that are not removed.
\<close>

definition counterexample ::
    "('a, 's) linearizability_checker \<Rightarrow> ('o, 'a, 'c, 'v, 'x) base_strategy_scheme \<Rightarrow> both_histories \<Rightarrow> bool" where
  "counterexample C st h \<longleftrightarrow> (\<exists>s :: ('o, 'a, 'c, 'v, 'x) base_strategy_scheme. idents s = idents st \<and> refuted C s h)
     \<and> (\<forall>r. r \<in> set (invoked (snd h)) \<longleftrightarrow> active st r)"

definition shrinks ::
    "('o, 'a, 'c, 'v, 'x) base_strategy_scheme \<Rightarrow> ('o, 'a, 'c, 'v, 'y) base_strategy_scheme \<Rightarrow> bool" where
  "shrinks st st' \<longleftrightarrow> idents st' = idents st \<and> removed_tasks st \<subseteq> removed_tasks st'"

lemma shrinks_refl [simp]: "shrinks st st"
  by (simp add: shrinks_def)

lemma shrinks_trans: "shrinks st st' \<Longrightarrow> shrinks st' st'' \<Longrightarrow> shrinks st st''"
  by (auto simp: shrinks_def)

lemma GetId_idents: "idents st' = idents st \<Longrightarrow> valid_slot st r \<Longrightarrow> GetId st' r = GetId st r"
  using idents_shape(4) [of st' st r] by (simp add: GetId_def store_def task_ident_def)

lemma distinct_ids_idents:
  assumes "idents st' = idents st" "distinct_ids st"
  shows "distinct_ids st'"
  unfolding distinct_ids_def
proof (intro allI impI)
  fix r r' assume a: "valid_slot st' r" "valid_slot st' r'" "GetId st' r = GetId st' r'"
  have v: "valid_slot st r" "valid_slot st r'" using a idents_shape(3) [OF assms(1)] by auto
  then have "GetId st r = GetId st r'" using a(3) GetId_idents [OF assms(1)] by simp
  then show "r = r'" using v assms(2) unfolding distinct_ids_def by blast
qed

lemma GetTask_by_id_GetId:
  assumes "distinct_ids st" "valid_slot st r"
  shows "GetTask_by_id st (GetId st r) = Some (r, fst r)"
proof (cases "GetTask_by_id st (GetId st r)")
  case None
  then show ?thesis using assms(2) GetTask_by_id_None [of st "GetId st r"] by (auto simp: GetId_def store_def)
next
  case (Some p)
  obtain r' u where p: "p = (r', u)" by fastforce
  have "valid_slot st r'" "fst r' = u" "GetId st r' = GetId st r"
    using GetTask_by_id_Some [of st "GetId st r" r' u] Some p by (auto simp: GetId_def store_def)
  then show ?thesis using assms Some p unfolding distinct_ids_def by blast
qed

lemma active_iff: "active st r \<longleftrightarrow> valid_slot st r \<and> GetId st r \<notin> removed_tasks st"
  by (simp add: active_def GetId_def store_def IsTaskRemoved_def)

lemma active_idents:
  assumes "idents st' = idents st"
  shows "active st' r \<longleftrightarrow> valid_slot st r \<and> GetId st r \<notin> removed_tasks st'"
  using idents_shape(3) [OF assms, of r] GetId_idents [OF assms, of r] by (auto simp: active_iff)

lemma mark_tasks_as_removed_eq:
  "mark_tasks_as_removed is True st = st\<lparr>removed_tasks := removed_tasks st \<union> set is\<rparr>"
  "mark_tasks_as_removed is False st = st\<lparr>removed_tasks := removed_tasks st - set is\<rparr>"
  by (induction "is" arbitrary: st) (auto simp: mark_tasks_as_removed_def SetTaskRemoved_def intro!: arg_cong [where f = "\<lambda>x. _\<lparr>removed_tasks := x\<rparr>"])

lemma idents_removed [simp]: "idents (st\<lparr>removed_tasks := R\<rparr>) = idents st"
  by (simp add: idents_def)

lemma counterexample_removed:
  fixes st st' :: "('o, 'a, 'c, 'v, 'x) base_strategy_scheme"
  assumes "counterexample C st h" "idents st' = idents st" "removed_tasks st' = removed_tasks st"
  shows "counterexample C st' h"
  using assms active_idents [OF assms(2)] by (simp add: counterexample_def active_iff)

section \<open>The contract of OnTasksRemoved\<close>

locale task_removal =
  fixes OnTasksRemoved :: "('o, 'a, 'c, 'v, 'x) removal"
    and C :: "('a, 's) linearizability_checker" and ready :: bool
  assumes removal_fails: "ready \<Longrightarrow> distinct_ids st \<Longrightarrow> counterexample C st h \<Longrightarrow> \<forall>i \<in> set ids. \<not> IsTaskRemoved st i
      \<Longrightarrow> OnTasksRemoved st h ids = Inr (None, st')
      \<Longrightarrow> idents st' = idents st \<and> removed_tasks st' = removed_tasks st"
    and removal_succeeds: "ready \<Longrightarrow> distinct_ids st \<Longrightarrow> counterexample C st h \<Longrightarrow> \<forall>i \<in> set ids. \<not> IsTaskRemoved st i
      \<Longrightarrow> OnTasksRemoved st h ids = Inr (Some h', st')
      \<Longrightarrow> shrinks st st' \<and> counterexample C (mark_tasks_as_removed ids True st') h'"
begin

text \<open>One attempt, as both loops make it.\<close>

lemma attempt:
  assumes ready "distinct_ids st" "counterexample C st h" "\<forall>i \<in> set ids. \<not> IsTaskRemoved st i"
    and a: "OnTasksRemoved st h ids = Inr (res, st')"
  defines "st'' \<equiv> if res = None then st' else mark_tasks_as_removed ids True st'"
  shows "shrinks st st'' \<and> distinct_ids st'' \<and> counterexample C st'' (case res of None \<Rightarrow> h | Some h' \<Rightarrow> h')"
proof -
  have "shrinks st st'' \<and> counterexample C st'' (case res of None \<Rightarrow> h | Some h' \<Rightarrow> h')"
  proof (cases res)
    case None
    then have "idents st' = idents st" "removed_tasks st' = removed_tasks st"
      using removal_fails [OF assms(1-4)] a by auto
    then show ?thesis using None counterexample_removed [OF assms(3)] by (simp add: st''_def shrinks_def)
  next
    case (Some h')
    then have "shrinks st st'" "counterexample C (mark_tasks_as_removed ids True st') h'"
      using removal_succeeds [OF assms(1-4)] a by auto
    then show ?thesis using Some by (auto simp: st''_def shrinks_def mark_tasks_as_removed_eq)
  qed
  then show ?thesis using distinct_ids_idents [of st'' st] assms(2) by (simp add: shrinks_def)
qed

lemma remove_single_keeps:
  assumes ready: ready
  shows "remove_single OnTasksRemoved tasks (st, h) = Inr (st', h') \<Longrightarrow> distinct_ids st \<Longrightarrow> counterexample C st h
    \<Longrightarrow> shrinks st st' \<and> distinct_ids st' \<and> counterexample C st' h'"
proof (induction tasks arbitrary: st h)
  case (Cons task tasks)
  let ?i = "GetId st task"
  show ?case
  proof (cases "IsTaskRemoved st ?i")
    case False
    with Cons.prems(1) obtain res s1 where a: "OnTasksRemoved st h [?i] = Inr (res, s1)"
      and l: "remove_single OnTasksRemoved tasks (case res of None \<Rightarrow> (s1, h)
          | Some h' \<Rightarrow> (SetTaskRemoved ?i True s1, h')) = Inr (st', h')"
      by (auto simp: Let_def elim!: res_bind_Inr_E)
    have l2: "remove_single OnTasksRemoved tasks
        (if res = None then s1 else mark_tasks_as_removed [?i] True s1, case res of None \<Rightarrow> h | Some h' \<Rightarrow> h') = Inr (st', h')"
      using l by (cases res) (simp_all add: mark_tasks_as_removed_def)
    have i: "\<forall>i \<in> set [?i]. \<not> IsTaskRemoved st i" using False by simp
    note at = attempt [OF ready Cons.prems(2,3) i a]
    from Cons.IH [OF l2] at show ?thesis using shrinks_trans by blast
  qed (use Cons in \<open>simp add: Let_def\<close>)
qed simp

lemma remove_with_keeps:
  assumes ready: ready
  shows "remove_with OnTasksRemoved i tasks (st, h) = Inr (st', h') \<Longrightarrow> distinct_ids st \<Longrightarrow> counterexample C st h
    \<Longrightarrow> \<not> IsTaskRemoved st i \<Longrightarrow> shrinks st st' \<and> distinct_ids st' \<and> counterexample C st' h'"
proof (induction tasks arbitrary: st h)
  case (Cons task tasks)
  let ?j = "GetId st task"
  show ?case
  proof (cases "IsTaskRemoved st ?j")
    case False
    with Cons.prems(1) obtain res s1 where a: "OnTasksRemoved st h [i, ?j] = Inr (res, s1)"
      and l: "(case res of None \<Rightarrow> remove_with OnTasksRemoved i tasks (s1, h)
          | Some h' \<Rightarrow> res_bind (cxx_assert ''new_histories.value().second.size() % 2 == 0'' (even (length (snd h')))) (\<lambda>_.
              Inr (SetTaskRemoved ?j True (SetTaskRemoved i True s1), h'))) = Inr (st', h')"
      by (auto simp: Let_def elim!: res_bind_Inr_E)
    have i: "\<forall>k \<in> set [i, ?j]. \<not> IsTaskRemoved st k" using False Cons.prems(4) by simp
    note at = attempt [OF ready Cons.prems(2,3) i a]
    show ?thesis
    proof (cases res)
      case None
      with removal_fails [OF ready Cons.prems(2,3) i, of s1] a Cons.prems(4) have "\<not> IsTaskRemoved s1 i"
        by (simp add: IsTaskRemoved_def)
      with Cons.IH [of s1 h] l at None show ?thesis using shrinks_trans by fastforce
    next
      case (Some h2)
      with l have "st' = mark_tasks_as_removed [i, ?j] True s1" "h' = h2"
        by (auto simp: mark_tasks_as_removed_def elim!: res_bind_Inr_E)
      with at Some show ?thesis by simp
    qed
  qed (use Cons in \<open>simp add: Let_def\<close>)
qed simp

lemma remove_pairs_keeps:
  assumes ready: ready
  shows "remove_pairs OnTasksRemoved tasks (st, h) = Inr (st', h') \<Longrightarrow> distinct_ids st \<Longrightarrow> counterexample C st h
    \<Longrightarrow> shrinks st st' \<and> distinct_ids st' \<and> counterexample C st' h'"
proof (induction tasks arbitrary: st h)
  case (Cons task tasks)
  show ?case
  proof (cases "IsTaskRemoved st (GetId st task)")
    case False
    with Cons.prems(1) obtain s1 h1 where w: "remove_with OnTasksRemoved (GetId st task) tasks (st, h) = Inr (s1, h1)"
      and l: "remove_pairs OnTasksRemoved tasks (s1, h1) = Inr (st', h')"
      by (auto simp: Let_def elim!: res_bind_Inr_E)
    from remove_with_keeps [OF ready w Cons.prems(2,3) False] Cons.IH [OF l] show ?thesis using shrinks_trans by blast
  qed (use Cons in \<open>simp add: Let_def\<close>)
qed simp

end

section \<open>The two removals meet the contract\<close>

locale strategy_object =
  replaying_strategy E "strategy_methods.Next M" "strategy_methods.NextSchedule M" ok "strategy_methods.ResetRound M"
  for E :: "('o, 'c, 'v, 'g) runtime_env" and M :: "('o, 'a, 'c, 'v, 'x) strategy_methods" and ok :: bool
begin

lemma replay_order:
  assumes dist: "distinct_ids st" and cx: "counterexample C st h" "\<forall>i \<in> set ids. \<not> IsTaskRemoved st i"
    and run: "ReplayRound M E (Check_recursive C) (GetTasksOrdering st (fst h) (set ids)) st = Inr (res, st')"
  shows "same_tasks st st'"
    "res = Some h' \<Longrightarrow> counterexample C (mark_tasks_as_removed ids True st') h'"
    "res = Some h' \<Longrightarrow> refuted C st' h'"
proof -
  let ?ord = "GetTasksOrdering st (fst h) (set ids)"
  have tasks: "r \<in> set (fst h) \<longleftrightarrow> active st r" for r
    using cx(1) by (auto simp: counterexample_def refuted_def)
  then have "\<forall>i \<in> set ?ord. \<not> IsTaskRemoved st i"
    by (auto simp: GetTasksOrdering_def active_iff IsTaskRemoved_def)
  then have o: "replay_outcome C ?ord st st' res" by (rule ReplayRound_outcome [OF refl run])
  then show same: "same_tasks st st'" by (simp add: replay_outcome_def)
  then have id: "idents st' = idents st" and rem: "removed_tasks st' = removed_tasks st" by (auto simp: same_tasks_def)
  show "refuted C st' h'" if "res = Some h'" using o that by (simp add: replay_outcome_def)
  show "counterexample C (mark_tasks_as_removed ids True st') h'" if "res = Some h'"
  proof -
    have "r \<in> set (invoked (snd h')) \<longleftrightarrow> active (mark_tasks_as_removed ids True st') r" for r
    proof -
      have "r \<in> set (invoked (snd h')) \<longleftrightarrow> (\<exists>i \<in> set ?ord. GetTask_by_id st i = Some (r, fst r))"
        using o that GetTask_by_id_idents [OF id] unfolding replay_outcome_def by simp
      also have "\<dots> \<longleftrightarrow> (\<exists>r'. active st r' \<and> GetId st r' \<notin> set ids \<and> GetTask_by_id st (GetId st r') = Some (r, fst r))"
        using tasks by (auto simp: GetTasksOrdering_def)
      also have "\<dots> \<longleftrightarrow> active st r \<and> GetId st r \<notin> set ids"
        using GetTask_by_id_GetId [OF dist] by (metis active_iff option.inject prod.inject)
      also have "\<dots> \<longleftrightarrow> active (mark_tasks_as_removed ids True st') r"
        using active_idents [of "mark_tasks_as_removed ids True st'" st r] id rem
        by (auto simp: mark_tasks_as_removed_eq active_iff)
      finally show ?thesis .
    qed
    moreover have "refuted C st' h'" using o that by (simp add: replay_outcome_def)
    ultimately show ?thesis using id unfolding counterexample_def by (auto simp: mark_tasks_as_removed_eq)
  qed
qed

lemma explore_order:
  assumes ok: ok and ids: "\<forall>i \<in> set ids. \<not> IsTaskRemoved st i"
    and run: "ExploreRound M E (Check_recursive C) runs (mark_tasks_as_removed ids True st) = Inr (res, st')"
  shows "idents st' = idents st" "removed_tasks st' = removed_tasks st \<union> set ids"
    "res = Some h' \<Longrightarrow> counterexample C st' h'"
proof -
  have o: "explore_outcome C (mark_tasks_as_removed ids True st) st' res"
    by (rule ExploreRound_outcome [OF ok refl refl run]) (simp add: same_tasks_def)
  then show "idents st' = idents st" "removed_tasks st' = removed_tasks st \<union> set ids"
    by (simp_all add: explore_outcome_def same_tasks_def mark_tasks_as_removed_eq)
  show "res = Some h' \<Longrightarrow> counterexample C st' h'"
    using o by (auto simp: explore_outcome_def counterexample_def complete_history_def)
qed

end

sublocale strategy_object \<subseteq> same: task_removal "Same_OnTasksRemoved M E (Check_recursive C)" C True for C
proof
  fix st :: "('o, 'a, 'c, 'v, 'x) base_strategy_scheme" and h ids st'
  assume a: "distinct_ids st" "counterexample C st h" "\<forall>i \<in> set ids. \<not> IsTaskRemoved st i"
  show "idents st' = idents st \<and> removed_tasks st' = removed_tasks st"
    if "Same_OnTasksRemoved M E (Check_recursive C) st h ids = Inr (None, st')"
    using replay_order(1) [OF a] that by (simp add: Same_OnTasksRemoved_def same_tasks_def)
  show "shrinks st st' \<and> counterexample C (mark_tasks_as_removed ids True st') h'"
    if "Same_OnTasksRemoved M E (Check_recursive C) st h ids = Inr (Some h', st')" for h'
    using replay_order [OF a] that by (auto simp: Same_OnTasksRemoved_def same_tasks_def shrinks_def)
qed

sublocale strategy_object \<subseteq> explore: task_removal "Explore_OnTasksRemoved M E (Check_recursive C) runs" C ok for C runs
proof
  fix st :: "('o, 'a, 'c, 'v, 'x) base_strategy_scheme" and h ids st'
  assume a: ok "distinct_ids st" "counterexample C st h" "\<forall>i \<in> set ids. \<not> IsTaskRemoved st i"
  let ?run = "ExploreRound M E (Check_recursive C) runs (mark_tasks_as_removed ids True st)"
  show "idents st' = idents st \<and> removed_tasks st' = removed_tasks st"
    if "Explore_OnTasksRemoved M E (Check_recursive C) runs st h ids = Inr (None, st')"
  proof -
    from that obtain s1 where r: "?run = Inr (None, s1)" and "st' = mark_tasks_as_removed ids False s1"
      by (auto simp: Explore_OnTasksRemoved_def elim!: res_bind_Inr_E)
    with explore_order(1,2) [OF a(1,4) r] a(4) show ?thesis by (auto simp: mark_tasks_as_removed_eq IsTaskRemoved_def)
  qed
  show "shrinks st st' \<and> counterexample C (mark_tasks_as_removed ids True st') h'"
    if "Explore_OnTasksRemoved M E (Check_recursive C) runs st h ids = Inr (Some h', st')" for h'
  proof -
    from that have r: "?run = Inr (Some h', st')"
      by (auto simp: Explore_OnTasksRemoved_def elim!: res_bind_Inr_E)
    note o = explore_order [OF a(1,4) r]
    have "counterexample C (mark_tasks_as_removed ids True st') h'"
      by (rule counterexample_removed [OF o(3) [OF refl]]) (use o(2) in \<open>auto simp: mark_tasks_as_removed_eq\<close>)
    then show ?thesis using o by (auto simp: shrinks_def)
  qed
qed

context strategy_object
begin

lemma Greedy_Minimize_keeps:
  assumes "task_removal R C ready" ready
    and min: "Greedy_Minimize M E (Check_recursive C) R (st, h) = Inr (st', h')"
    and d: "distinct_ids st" and c: "counterexample C st h"
  shows "shrinks st st' \<and> counterexample C st' h'"
proof -
  from min obtain s1 h1 s2 res where l: "remove_single R (invoked (snd h)) (st, h) = Inr (s1, h1)"
      "remove_pairs R (invoked (snd h)) (s1, h1) = Inr (s2, h')"
    and run: "ReplayRound M E (Check_recursive C) (GetTasksOrdering s2 (fst h') {}) s2 = Inr (res, st')"
    by (auto simp: Greedy_Minimize_def Let_def elim!: res_bind_Inr_E)
  note i1 = task_removal.remove_single_keeps [OF assms(1,2) l(1) d c]
  have i2: "shrinks st s2" "distinct_ids s2" "counterexample C s2 h'"
    using task_removal.remove_pairs_keeps [OF assms(1,2) l(2)] i1 shrinks_trans by blast+
  have "same_tasks s2 st'"
    using replay_order(1) [OF i2(2,3), of "[]" res st'] run by simp
  then have "idents st' = idents s2" "removed_tasks st' = removed_tasks s2" by (auto simp: same_tasks_def)
  then show ?thesis using i2 counterexample_removed [OF i2(3)] by (auto simp: shrinks_def)
qed

lemmas Same_Minimize_keeps = Greedy_Minimize_keeps [OF same.task_removal_axioms TrueI]
lemmas Explore_Minimize_keeps = Greedy_Minimize_keeps [OF explore.task_removal_axioms]

end

interpretation rr_object: strategy_object E "RR_methods E" "random_ok (env_random E)" for E :: "('o, 'c, 'v, 'g) runtime_env"
  by (simp add: strategy_object_def RR_methods_def rr_replay.replaying_strategy_axioms)

interpretation random_object: strategy_object E "Random_methods E" "random_ok (env_random E)" for E :: "('o, 'c, 'v, 'g) runtime_env"
  by (simp add: strategy_object_def Random_methods_def random_replay.replaying_strategy_axioms)

interpretation pct_object: strategy_object E "Pct_methods E" True for E :: "('o, 'c, 'v, 'g) runtime_env"
  by (simp add: strategy_object_def Pct_methods_def pct_replay.replaying_strategy_axioms)

section \<open>Samples\<close>

text \<open>
  A target that counts slices. Its methods: one that returns 0 in one slice, one that returns the
  parity of the counter in one slice, and one that returns 0 in two slices.
\<close>

definition parity_body :: "(int, nat) body" where
  "parity_body k w = (w\<lparr>w_state := w_state w + 1\<rparr>,
     if k = 2 then Yield 0 else Return (vw_int (if k = 1 then w_state w mod 2 else 0)))"

text \<open>The first two shuffles keep the order of the constructors, the later ones rotate it.\<close>

definition parity_env :: "(int, nat, unit, nat) runtime_env" where
  "parity_env = \<lparr>env_body = parity_body, env_mem = (\<lambda>_ _. 0), env_reset = (\<lambda>_. 0),
     env_verifier = DefaultStrategyVerifier,
     env_random = \<lparr>rnd_shuffle = (\<lambda>n g. (if g < 2 then [0..<n] else rotate1 [0..<n], Suc g)),
       rnd_uniform = (\<lambda>a b g. (a, g)), rnd_discrete = (\<lambda>ws g. (0, g))\<rparr>, env_fuel = 20\<rparr>"

definition parity_rr :: "(int, int, nat, unit, nat) rr" where
  "parity_rr = RR_New 4 [sample_builder ''get'' 0, sample_builder ''get'' 2, sample_builder ''get'' 1] sample_world () 0"

lemma replay_rr_distinct: "distinct_ids replay_rr"
  by (auto simp: distinct_ids_def GetId_def store_def valid_slot_def replay_rr_def less_Suc_eq)

text \<open>The sample round, explored and then minimized to a single call.\<close>

definition minimized_sample :: "(nat \<times> nat) res" where
  "minimized_sample =
     res_bind (ExploreRound (RR_methods sample_env) sample_env (Check_recursive Register_checker) 1 replay_rr)
       (\<lambda>(res, st). case res of None \<Rightarrow> Inl Out_Of_Fuel
          | Some h \<Rightarrow> res_bind (SameInterleavingMinimizor (RR_methods sample_env) sample_env (Check_recursive Register_checker) (st, h))
              (\<lambda>(st', h'). Inr (length (snd h), length (snd h'))))"

lemma sample_Minimize: "minimized_sample = Inr (4, 2)"
  by code_simp

lemma sample_Minimize_E:
  assumes "minimized_sample = Inr (m, n)"
  obtains st h st' h' where
    "ExploreRound (RR_methods sample_env) sample_env (Check_recursive Register_checker) 1 replay_rr = Inr (Some h, st)"
    "SameInterleavingMinimizor (RR_methods sample_env) sample_env (Check_recursive Register_checker) (st, h) = Inr (st', h')"
    "length (snd h) = m" "length (snd h') = n"
  using assms unfolding minimized_sample_def by (auto elim!: res_bind_Inr_E split: option.splits)

section \<open>Properties\<close>

text \<open>
  C12. Both greedy minimizors, with any of the three strategies, turn a counterexample into a
  counterexample: the new history was refused by the checker too, its tasks are the tasks that
  are not removed, and the set of removed tasks only grows, so that the tasks of the new
  history are among those of the old one.
\<close>

theorem greedy_minimizors_keep:
  assumes "random_ok (env_random E)"
  shows "(distinct_ids st \<and> counterexample C st h
      \<and> (SameInterleavingMinimizor (RR_methods E) E (Check_recursive C) (st, h) = Inr (st', h')
         \<or> StrategyExplorationMinimizor (RR_methods E) E (Check_recursive C) runs (st, h) = Inr (st', h'))
        \<longrightarrow> shrinks st st' \<and> counterexample C st' h')
    \<and> (distinct_ids sr \<and> counterexample C sr h
      \<and> (SameInterleavingMinimizor (Random_methods E) E (Check_recursive C) (sr, h) = Inr (sr', h')
         \<or> StrategyExplorationMinimizor (Random_methods E) E (Check_recursive C) runs (sr, h) = Inr (sr', h'))
        \<longrightarrow> shrinks sr sr' \<and> counterexample C sr' h')
    \<and> (distinct_ids sp \<and> counterexample C sp h
      \<and> (SameInterleavingMinimizor (Pct_methods E) E (Check_recursive C) (sp, h) = Inr (sp', h')
         \<or> StrategyExplorationMinimizor (Pct_methods E) E (Check_recursive C) runs (sp, h) = Inr (sp', h'))
        \<longrightarrow> shrinks sp sp' \<and> counterexample C sp' h')"
  using rr_object.Same_Minimize_keeps [of E C st h st' h'] rr_object.Explore_Minimize_keeps [OF assms, of C runs st h st' h']
    random_object.Same_Minimize_keeps [of E C sr h sr' h'] random_object.Explore_Minimize_keeps [OF assms, of C runs sr h sr' h']
    pct_object.Same_Minimize_keeps [of E C sp h sp' h'] pct_object.Explore_Minimize_keeps [OF TrueI, of E C runs sp h sp' h']
  unfolding SameInterleavingMinimizor_def StrategyExplorationMinimizor_def by blast

theorem greedy_minimizors_keep_witness:
  "\<exists>(st :: (int, int, nat, unit, unit) rr) h st' h'. SameInterleavingMinimizor (RR_methods sample_env) sample_env (Check_recursive Register_checker) (st, h)
      = Inr (st', h') \<and> counterexample Register_checker st h \<and> counterexample Register_checker st' h'
      \<and> length (snd h) = 4 \<and> length (snd h') = 2"
proof -
  from sample_Minimize obtain st h st' h' where
    e: "ExploreRound (RR_methods sample_env) sample_env (Check_recursive Register_checker) 1 replay_rr = Inr (Some h, st)"
    and m: "SameInterleavingMinimizor (RR_methods sample_env) sample_env (Check_recursive Register_checker) (st, h) = Inr (st', h')"
    and l: "length (snd h) = 4" "length (snd h') = 2" by (rule sample_Minimize_E)
  have o: "explore_outcome Register_checker replay_rr st (Some h)"
    using rr_object.ExploreRound_outcome [OF sample_env_random refl refl e, of replay_rr] by (simp add: same_tasks_def)
  then have c: "counterexample Register_checker st h"
    by (auto simp: explore_outcome_def counterexample_def complete_history_def)
  have d: "distinct_ids st"
    by (rule distinct_ids_idents [OF _ replay_rr_distinct]) (use o in \<open>simp add: explore_outcome_def same_tasks_def\<close>)
  from greedy_minimizors_keep [OF sample_env_random] c d m have "counterexample Register_checker st' h'" by blast
  with c m l show ?thesis by blast
qed

text \<open>
  The assertion of the second loop of the minimizor can fail. The round has four calls, the
  third of which is still pending when three have finished; no single call can be removed, but
  the first two together can, and the history that is left has an odd number of events.
\<close>

theorem minimizor_assertion_fails:
  "case res_bind (RunRound (RR_methods parity_env) parity_env (Check_recursive Register_checker) 3 parity_rr)
     (\<lambda>(res, st). case res of None \<Rightarrow> Inr (st, [], [])
        | Some h \<Rightarrow> SameInterleavingMinimizor (RR_methods parity_env) parity_env (Check_recursive Register_checker) (st, h)) of
     Inl e \<Rightarrow> e = Assert_Failed ''new_histories.value().second.size() % 2 == 0''
   | Inr _ \<Rightarrow> False"
  by code_simp

end
