(* ===== verification/Smart_Minimization.thy ===== *)
theory Smart_Minimization
  imports Complex_Main Minimization
begin

text \<open>
  Model of \<open>runtime/minimization_smart.cpp\<close>: the genetic minimizor. A solution lists the tasks
  that are left, by thread, with a refused history of them and a fitness. The map from threads to
  task ids is an association list (its iteration order is unspecified in the source, and only
  random positions of it are used). Floating point arithmetic is exact arithmetic followed by a
  rounding that is a parameter, one for \<open>double\<close> and one for \<open>float\<close>.
\<close>

declare split_paired_All [simp del] split_paired_Ex [simp del]

section \<open>Parameters and state\<close>

record rounding =
  to_double :: "rat \<Rightarrow> rat"
  to_float :: "rat \<Rightarrow> rat"

record smart_params =
  exploration_runs :: nat
  minimization_runs :: nat
  max_offsprings_per_generation :: nat
  offsprings_generation_attemps :: nat

text \<open>The random device of the minimizor: its integers, and \<open>dist\<close>, uniform in \<open>[0, 1)\<close>.\<close>

record 'h smart_random =
  sr_uniform :: "nat \<Rightarrow> nat \<Rightarrow> 'h \<Rightarrow> nat \<times> 'h"
  sr_dist :: "'h \<Rightarrow> rat \<times> 'h"

type_synonym thread_tasks = "(nat \<times> int list) list"

record solution =
  sol_tasks :: thread_tasks
  nonlinear_histories :: both_histories
  fitness :: rat
  valid_tasks :: nat

definition max_population_size :: nat where
  "max_population_size = 2"

section \<open>Solutions\<close>

definition eps :: "rounding \<Rightarrow> rat" where
  "eps F = to_float F (1 / 10000)"

definition Tasks_fitness :: "rounding \<Rightarrow> nat \<Rightarrow> nat \<Rightarrow> rat" where
  "Tasks_fitness F valid all_tasks = to_float F (to_double F (1 - to_double F (of_nat valid / of_nat all_tasks)))"

definition Threads_fitness :: "rounding \<Rightarrow> nat \<Rightarrow> nat \<Rightarrow> rat" where
  "Threads_fitness F used all_threads =
     to_float F (to_double F (to_double F (eps F + 1) - to_double F (of_nat used / of_nat all_threads)))"

definition valid_ids ::
    "('o, 'a, 'c, 'v, 'x) base_strategy_scheme \<Rightarrow> nat \<Rightarrow> int list" where
  "valid_ids st t = remdups (map co_id (filter (\<lambda>c. \<not> IsTaskRemoved st (co_id c)) (threads st ! t)))"

text \<open>
  The constructor. With no task or no thread in the round the quotients are not numbers, and
  the comparisons of the assertions are false.
\<close>

definition New_Solution ::
    "rounding \<Rightarrow> ('o, 'a, 'c, 'v, 'x) base_strategy_scheme \<Rightarrow> both_histories \<Rightarrow> nat \<Rightarrow> solution res" where
  "New_Solution F st histories total_tasks =
     (let total_threads = GetThreadsCount st;
          tasks = filter (\<lambda>(t, ids). ids \<noteq> []) (map (\<lambda>t. (t, valid_ids st t)) [0..<length (threads st)]);
          valid = GetValidTasksCount st;
          tasks_fitness = Tasks_fitness F valid total_tasks;
          threads_fitness = Threads_fitness F (length tasks) total_threads in
      res_bind (cxx_assert ''tasks_fitness >= 0.0 && tasks_fitness <= 1.0''
        (total_tasks \<noteq> 0 \<and> 0 \<le> tasks_fitness \<and> tasks_fitness \<le> 1)) (\<lambda>_.
      res_bind (cxx_assert ''threads_fitness >= 0.0 && threads_fitness <= 1.0''
        (total_threads \<noteq> 0 \<and> 0 \<le> threads_fitness \<and> threads_fitness \<le> 1)) (\<lambda>_.
      Inr \<lparr>sol_tasks = tasks, nonlinear_histories = histories,
           fitness = to_float F (tasks_fitness * threads_fitness), valid_tasks = valid\<rparr>)))"

text \<open>The multiset of solutions, best first; a new solution goes behind its equals.\<close>

definition insert_solution :: "solution \<Rightarrow> solution list \<Rightarrow> solution list" where
  "insert_solution s population =
     takeWhile (\<lambda>p. fitness s \<le> fitness p) population @ s # dropWhile (\<lambda>p. fitness s \<le> fitness p) population"

function erase_worst :: "solution list \<Rightarrow> solution list" where
  "erase_worst population =
     (if max_population_size < length population then erase_worst (butlast population) else population)"
  by pat_completeness auto
termination
  by (relation "measure length") (auto simp: max_population_size_def)

declare erase_worst.simps [simp del]

section \<open>Crossing and mutating\<close>

definition DropRandomTask :: "'h smart_random \<Rightarrow> thread_tasks \<Rightarrow> 'h \<Rightarrow> (thread_tasks \<times> 'h) res" where
  "DropRandomTask R ths g =
     (if ths = [] then Inr (ths, g)
      else let (thread_index, g) = sr_uniform R 0 (length ths - 1) g in
        res_bind (vec_get ths thread_index) (\<lambda>(t, tasks).
        if tasks = [] \<or> length tasks = 1 \<and> length ths = 2 then Inr (ths, g)
        else let (task_index, g) = sr_uniform R 0 (length tasks - 1) g in
          res_bind (vec_get tasks task_index) (\<lambda>_.
          Inr (ths[thread_index := (t, take task_index tasks @ drop (Suc task_index) tasks)], g))))"

fun cross_threads :: "'h smart_random \<Rightarrow> thread_tasks \<Rightarrow> thread_tasks \<Rightarrow> 'h \<Rightarrow> thread_tasks \<times> 'h" where
  "cross_threads R [] ts2 g = ([], g)"
| "cross_threads R ((t, ids) # ts) ts2 g =
     (let (ids', g) = (case map_of ts2 t of
            None \<Rightarrow> (ids, g)
          | Some ids2 \<Rightarrow> let (x, g) = sr_dist R g in (if 1 / 2 \<le> x then ids2 else ids, g));
          (rest, g) = cross_threads R ts ts2 g in
      ((t, ids') # rest, g))"

definition CrossProduct :: "'h smart_random \<Rightarrow> solution \<Rightarrow> solution \<Rightarrow> 'h \<Rightarrow> thread_tasks \<times> 'h" where
  "CrossProduct R p1 p2 g =
     (if length (sol_tasks p2) \<le> length (sol_tasks p1) then cross_threads R (sol_tasks p2) (sol_tasks p1) g
      else cross_threads R (sol_tasks p1) (sol_tasks p2) g)"

definition listed :: "thread_tasks \<Rightarrow> nat \<Rightarrow> int \<Rightarrow> bool" where
  "listed ths t i = (case map_of ths t of None \<Rightarrow> False | Some ids \<Rightarrow> i \<in> set ids)"

definition RemoveInvalidTasks ::
    "thread_tasks \<Rightarrow> ('o, 'a, 'c, 'v, 'x) base_strategy_scheme \<Rightarrow> ('o, 'a, 'c, 'v, 'x) base_strategy_scheme" where
  "RemoveInvalidTasks valid_threads st =
     fold (\<lambda>thread_id. fold (\<lambda>c. SetTaskRemoved (co_id c) (\<not> listed valid_threads thread_id (co_id c)))
       (threads st ! thread_id)) [0..<length (threads st)] st"

text \<open>The loop of mutations; \<open>m\<close> of the \<open>mutations_count\<close> are left.\<close>

fun mutate_tasks :: "'h smart_random \<Rightarrow> nat \<Rightarrow> nat \<Rightarrow> thread_tasks \<Rightarrow> 'h \<Rightarrow> (thread_tasks \<times> 'h) res" where
  "mutate_tasks R mutations_count 0 ths g = Inr (ths, g)"
| "mutate_tasks R mutations_count (Suc m) ths g =
     (let (apply_it, g) = (if 1 < mutations_count then (True, g)
          else let (x, g) = sr_dist R g in (x < 95 / 100, g)) in
      res_bind (if apply_it then DropRandomTask R ths g else Inr (ths, g)) (\<lambda>(ths, g).
      mutate_tasks R mutations_count m ths g))"

section \<open>Generations\<close>

text \<open>The attempts at one offspring; the strategy and the generator are threaded through.\<close>

fun one_offspring ::
    "('o, 'a, 'c, 'v, 'x) strategy_methods \<Rightarrow> ('o, 'c, 'v, 'g) runtime_env \<Rightarrow> ('a, 'c) check \<Rightarrow> rounding
      \<Rightarrow> 'h smart_random \<Rightarrow> nat \<Rightarrow> nat \<Rightarrow> nat \<Rightarrow> solution \<Rightarrow> solution \<Rightarrow> nat
      \<Rightarrow> ('o, 'a, 'c, 'v, 'x) base_strategy_scheme \<times> 'h
      \<Rightarrow> (solution option \<times> ('o, 'a, 'c, 'v, 'x) base_strategy_scheme \<times> 'h) res" where
  "one_offspring M E Check F R runs total_tasks mutations_count p1 p2 0 s = Inr (None, s)"
| "one_offspring M E Check F R runs total_tasks mutations_count p1 p2 (Suc left_attempts) s = (case s of (st, g) \<Rightarrow>
     let (new_threads, g) = CrossProduct R p1 p2 g in
     res_bind (mutate_tasks R mutations_count mutations_count new_threads g) (\<lambda>(new_threads, g).
     res_bind (ExploreRound M E Check runs (RemoveInvalidTasks new_threads st)) (\<lambda>(histories, st).
     case histories of
       Some h \<Rightarrow> res_bind (New_Solution F st h total_tasks) (\<lambda>sol. Inr (Some sol, st, g))
     | None \<Rightarrow> one_offspring M E Check F R runs total_tasks mutations_count p1 p2 left_attempts (st, g))))"

fun offsprings_loop ::
    "('o, 'a, 'c, 'v, 'x) strategy_methods \<Rightarrow> ('o, 'c, 'v, 'g) runtime_env \<Rightarrow> ('a, 'c) check \<Rightarrow> rounding
      \<Rightarrow> 'h smart_random \<Rightarrow> smart_params \<Rightarrow> nat \<Rightarrow> nat \<Rightarrow> solution \<Rightarrow> solution \<Rightarrow> nat
      \<Rightarrow> ('o, 'a, 'c, 'v, 'x) base_strategy_scheme \<times> 'h
      \<Rightarrow> (solution list \<times> ('o, 'a, 'c, 'v, 'x) base_strategy_scheme \<times> 'h) res" where
  "offsprings_loop M E Check F R P total_tasks mutations_count p1 p2 0 s = Inr ([], s)"
| "offsprings_loop M E Check F R P total_tasks mutations_count p1 p2 (Suc n) s =
     res_bind (one_offspring M E Check F R (exploration_runs P) total_tasks mutations_count p1 p2
         (offsprings_generation_attemps P) s) (\<lambda>(sol, s).
     res_bind (offsprings_loop M E Check F R P total_tasks mutations_count p1 p2 n s) (\<lambda>(sols, s).
     Inr (case sol of None \<Rightarrow> sols | Some x \<Rightarrow> x # sols, s)))"

definition GenerateOffsprings ::
    "('o, 'a, 'c, 'v, 'x) strategy_methods \<Rightarrow> ('o, 'c, 'v, 'g) runtime_env \<Rightarrow> ('a, 'c) check \<Rightarrow> rounding
      \<Rightarrow> 'h smart_random \<Rightarrow> smart_params \<Rightarrow> nat \<Rightarrow> solution \<Rightarrow> solution
      \<Rightarrow> ('o, 'a, 'c, 'v, 'x) base_strategy_scheme \<times> 'h \<times> nat
      \<Rightarrow> (solution list \<times> ('o, 'a, 'c, 'v, 'x) base_strategy_scheme \<times> 'h \<times> nat) res" where
  "GenerateOffsprings M E Check F R P total_tasks p1 p2 s = (case s of (st, g, mutations_count) \<Rightarrow>
     res_bind (cxx_assert ''offsprings_generation_attemps > 0'' (0 < offsprings_generation_attemps P)) (\<lambda>_.
     res_bind (offsprings_loop M E Check F R P total_tasks mutations_count p1 p2
         (max_offsprings_per_generation P) (st, g)) (\<lambda>(offsprings, st, g).
     Inr (offsprings, st, g,
       if length offsprings * 2 < max_offsprings_per_generation P \<and> 1 < mutations_count
       then mutations_count - 1 else mutations_count))))"

fun generations ::
    "('o, 'a, 'c, 'v, 'x) strategy_methods \<Rightarrow> ('o, 'c, 'v, 'g) runtime_env \<Rightarrow> ('a, 'c) check \<Rightarrow> rounding
      \<Rightarrow> 'h smart_random \<Rightarrow> smart_params \<Rightarrow> nat \<Rightarrow> nat \<Rightarrow> solution list
      \<Rightarrow> ('o, 'a, 'c, 'v, 'x) base_strategy_scheme \<times> 'h \<times> nat
      \<Rightarrow> (solution list \<times> ('o, 'a, 'c, 'v, 'x) base_strategy_scheme \<times> 'h \<times> nat) res" where
  "generations M E Check F R P total_tasks 0 population s = Inr (population, s)"
| "generations M E Check F R P total_tasks (Suc r) population s =
     res_bind (vec_get population 0) (\<lambda>p1.
     res_bind (if length population < 2 then Inr p1 else vec_get population 1) (\<lambda>p2.
     res_bind (GenerateOffsprings M E Check F R P total_tasks p1 p2 s) (\<lambda>(offsprings, s).
     generations M E Check F R P total_tasks r (erase_worst (fold insert_solution offsprings population)) s)))"

definition Smart_Minimize ::
    "('o, 'a, 'c, 'v, 'x) strategy_methods \<Rightarrow> ('o, 'c, 'v, 'g) runtime_env \<Rightarrow> ('a, 'c) check \<Rightarrow> rounding
      \<Rightarrow> 'h smart_random \<Rightarrow> smart_params \<Rightarrow> 'h \<Rightarrow> nat
      \<Rightarrow> ('o, 'a, 'c, 'v, 'x) base_strategy_scheme \<times> both_histories
      \<Rightarrow> (('o, 'a, 'c, 'v, 'x) base_strategy_scheme \<times> both_histories) res" where
  "Smart_Minimize M E Check F R P g mutations_count s = (case s of (st, histories) \<Rightarrow>
     let total_tasks = GetTotalTasksCount st in
     res_bind (New_Solution F st histories total_tasks) (\<lambda>sol.
     res_bind (generations M E Check F R P total_tasks (minimization_runs P) [sol] (st, g, mutations_count))
       (\<lambda>(population, st, g, mutations_count).
     res_bind (cxx_assert ''!population.empty()'' (population \<noteq> [])) (\<lambda>_.
     let best_solution = hd population;
         st = RemoveInvalidTasks (sol_tasks best_solution) st in
     res_bind (ReplayRound M E Check (GetTasksOrdering st (fst (nonlinear_histories best_solution)) {}) st)
       (\<lambda>(replayed_result, st).
     case replayed_result of
       None \<Rightarrow> Inl (Assert_Failed ''replayed_result.has_value()'')
     | Some h \<Rightarrow> Inr (st, h))))))"

text \<open>The defaults of the constructor.\<close>

definition default_params :: "nat \<Rightarrow> nat \<Rightarrow> smart_params" where
  "default_params exploration minimization =
     \<lparr>exploration_runs = exploration, minimization_runs = minimization,
      max_offsprings_per_generation = 5, offsprings_generation_attemps = 10\<rparr>"

definition initial_mutations_count :: nat where
  "initial_mutations_count = 10"

section \<open>The tasks of a solution\<close>

text \<open>A slot that the map from threads to task ids lists.\<close>

definition kept :: "('o, 'a, 'c, 'v, 'x) base_strategy_scheme \<Rightarrow> thread_tasks \<Rightarrow> slot \<Rightarrow> bool" where
  "kept st ths r \<longleftrightarrow> valid_slot st r \<and> listed ths (fst r) (GetId st r)"

lemma kept_idents: "idents st' = idents st \<Longrightarrow> kept st' ths r \<longleftrightarrow> kept st ths r"
  using idents_shape(3) [of st' st r] GetId_idents [of st' st r] by (auto simp: kept_def)

lemma fold_SetTaskRemoved:
  "fold (\<lambda>(i, b). SetTaskRemoved i b) xs st
     = st\<lparr>removed_tasks := {i. case map_of (rev xs) i of None \<Rightarrow> i \<in> removed_tasks st | Some b \<Rightarrow> b}\<rparr>"
proof (induction xs arbitrary: st rule: rev_induct)
  case (snoc x xs)
  obtain i b where x: "x = (i, b)" by fastforce
  show ?case by (simp add: snoc.IH x) (auto simp: SetTaskRemoved_def intro!: arg_cong [where f = "\<lambda>S. st\<lparr>removed_tasks := S\<rparr>"])
qed simp

definition marks :: "('o, 'a, 'c, 'v, 'x) base_strategy_scheme \<Rightarrow> thread_tasks \<Rightarrow> (int \<times> bool) list" where
  "marks st ths = concat (map (\<lambda>t. map (\<lambda>c. (co_id c, \<not> listed ths t (co_id c))) (threads st ! t)) [0..<length (threads st)])"

lemma fold_nested:
  "fold (\<lambda>t. fold (\<lambda>c. SetTaskRemoved (f c) (b t c)) (g t)) ts st
     = fold (\<lambda>(i, x). SetTaskRemoved i x) (concat (map (\<lambda>t. map (\<lambda>c. (f c, b t c)) (g t)) ts)) st"
  by (induction ts arbitrary: st) (simp_all add: fold_map comp_def)

lemma RemoveInvalidTasks_eq:
  "RemoveInvalidTasks ths st
     = st\<lparr>removed_tasks := {i. case map_of (rev (marks st ths)) i of None \<Rightarrow> i \<in> removed_tasks st | Some b \<Rightarrow> b}\<rparr>"
  unfolding RemoveInvalidTasks_def marks_def by (simp only: fold_nested fold_SetTaskRemoved)

lemma set_marks: "set (marks st ths) = (\<lambda>r. (GetId st r, \<not> listed ths (fst r) (GetId st r))) ` {r. valid_slot st r}"
proof (intro set_eqI iffI)
  fix p assume "p \<in> set (marks st ths)"
  then obtain t c where "t < length (threads st)" "c \<in> set (threads st ! t)" "p = (co_id c, \<not> listed ths t (co_id c))"
    by (auto simp: marks_def)
  then obtain i where "i < length (threads st ! t)" "p = (GetId st (t, i), \<not> listed ths t (GetId st (t, i)))"
    by (auto simp: in_set_conv_nth GetId_def store_def)
  with \<open>t < length (threads st)\<close> show "p \<in> (\<lambda>r. (GetId st r, \<not> listed ths (fst r) (GetId st r))) ` {r. valid_slot st r}"
    by (intro image_eqI [of _ _ "(t, i)"]) (auto simp: valid_slot_def)
next
  fix p assume "p \<in> (\<lambda>r. (GetId st r, \<not> listed ths (fst r) (GetId st r))) ` {r. valid_slot st r}"
  then obtain t i where "t < length (threads st)" "i < length (threads st ! t)"
      "p = (GetId st (t, i), \<not> listed ths t (GetId st (t, i)))" by (auto simp: valid_slot_def)
  then show "p \<in> set (marks st ths)"
    by (auto simp: marks_def GetId_def store_def intro!: bexI [of _ t] image_eqI [of _ _ "threads st ! t ! i"])
qed

lemma RemoveInvalidTasks_active:
  assumes "distinct_ids st"
  shows "active (RemoveInvalidTasks ths st) r \<longleftrightarrow> kept st ths r"
proof -
  have "(case map_of (rev (marks st ths)) (GetId st r) of None \<Rightarrow> GetId st r \<in> removed_tasks st | Some b \<Rightarrow> b)
      \<longleftrightarrow> \<not> listed ths (fst r) (GetId st r)" if v: "valid_slot st r"
  proof (cases "map_of (rev (marks st ths)) (GetId st r)")
    case None
    then have "GetId st r \<notin> fst ` set (marks st ths)" by (simp add: map_of_eq_None_iff)
    moreover have "GetId st r \<in> fst ` set (marks st ths)" using v by (force simp: set_marks)
    ultimately show ?thesis by simp
  next
    case (Some b)
    then have "(GetId st r, b) \<in> set (marks st ths)" using map_of_SomeD by fastforce
    then obtain r' where "valid_slot st r'" "GetId st r = GetId st r'" "b = (\<not> listed ths (fst r') (GetId st r'))"
      by (auto simp: set_marks)
    moreover from this have "r' = r" using assms v unfolding distinct_ids_def by metis
    ultimately show ?thesis using Some by simp
  qed
  then show ?thesis
    using active_idents [of "RemoveInvalidTasks ths st" st r] by (auto simp: RemoveInvalidTasks_eq kept_def)
qed

lemma idents_RemoveInvalidTasks [simp]: "idents (RemoveInvalidTasks ths st) = idents st"
  by (simp add: RemoveInvalidTasks_eq)

section \<open>Crossing and mutating keep to the parents\<close>

lemma map_of_cross: "map_of (fst (cross_threads R ts ts2 g)) t = Some ids \<Longrightarrow>
    map_of ts t = Some ids \<or> map_of ts2 t = Some ids"
proof (induction R ts ts2 g rule: cross_threads.induct)
  case (2 R u us ts ts2 g)
  then show ?case by (fastforce simp: Let_def split_beta split: if_splits option.splits)
qed simp

lemma listed_cross: "listed (fst (CrossProduct R p1 p2 g)) t i \<Longrightarrow> listed (sol_tasks p1) t i \<or> listed (sol_tasks p2) t i"
  using map_of_cross by (fastforce simp: CrossProduct_def listed_def split: option.splits if_splits)

lemma map_of_shrink:
  assumes "set ids' \<subseteq> set ids" "ths ! k = (u, ids)" "k < length ths"
  shows "listed (ths[k := (u, ids')]) t i \<Longrightarrow> listed ths t i"
  using assms
proof (induction ths arbitrary: k)
  case (Cons p ths)
  obtain v js where p: "p = (v, js)" by fastforce
  show ?case
  proof (cases k)
    case 0
    with Cons.prems p show ?thesis by (auto simp: listed_def split: if_splits)
  next
    case (Suc l)
    with Cons p show ?thesis by (fastforce simp: listed_def split: if_splits)
  qed
qed simp

lemma listed_drop:
  assumes "DropRandomTask R ths g = Inr (ths', g')" "listed ths' t i"
  shows "listed ths t i"
proof -
  obtain k g1 where k: "sr_uniform R 0 (length ths - 1) g = (k, g1)" by fastforce
  show ?thesis
  proof (cases "ths = []")
    case False
    obtain u ids where u2: "ths ! k = (u, ids)" by fastforce
    with False assms(1) k have u: "k < length ths" "ths ! k = (u, ids)"
      and d: "(if ids = [] \<or> length ids = 1 \<and> length ths = 2 then Inr (ths, g1)
        else let (j, g) = sr_uniform R 0 (length ids - 1) g1 in res_bind (vec_get ids j) (\<lambda>_.
          Inr (ths[k := (u, take j ids @ drop (Suc j) ids)], g))) = (Inr (ths', g') :: _ res)"
      by (auto simp: DropRandomTask_def vec_get_def split: if_splits elim!: res_bind_Inr_E)
    obtain j g2 where j: "sr_uniform R 0 (length ids - 1) g1 = (j, g2)" by fastforce
    have "set (take j ids @ drop (Suc j) ids) \<subseteq> set ids" using set_take_subset set_drop_subset by fastforce
    moreover have "ths' = ths \<or> ths' = ths[k := (u, take j ids @ drop (Suc j) ids)]"
      using d j by (auto split: if_splits elim!: res_bind_Inr_E)
    ultimately show ?thesis using map_of_shrink [OF _ u(2,1)] assms(2) by metis
  qed (use assms in \<open>simp add: DropRandomTask_def\<close>)
qed

lemma listed_mutate:
  "mutate_tasks R n m ths g = Inr (ths', g') \<Longrightarrow> listed ths' t i \<Longrightarrow> listed ths t i"
proof (induction m arbitrary: ths g)
  case (Suc m)
  then obtain a g1 ths1 g2 where "(if a then DropRandomTask R ths g1 else Inr (ths, g1)) = Inr (ths1, g2)"
      "mutate_tasks R n m ths1 g2 = Inr (ths', g')"
    by (auto simp: Let_def split_beta elim!: res_bind_Inr_E)
  with Suc.IH [of ths1 g2] Suc.prems(2) listed_drop [of R ths g1 ths1 g2 t i] show ?case by (auto split: if_splits)
qed simp

section \<open>Solutions stay counterexamples\<close>

text \<open>
  A solution of a round \<open>st0\<close>: its history was refused in some state of the round, the tasks of
  the history are the listed ones, and they were there at the start.
\<close>

definition solution_ok ::
    "('a, 's) linearizability_checker \<Rightarrow> ('o, 'a, 'c, 'v, 'x) base_strategy_scheme \<Rightarrow> solution \<Rightarrow> bool" where
  "solution_ok C st0 s \<longleftrightarrow> (\<exists>st :: ('o, 'a, 'c, 'v, 'x) base_strategy_scheme.
        idents st = idents st0 \<and> refuted C st (nonlinear_histories s))
     \<and> (\<forall>r. r \<in> set (invoked (snd (nonlinear_histories s))) \<longleftrightarrow> kept st0 (sol_tasks s) r)
     \<and> (\<forall>r. kept st0 (sol_tasks s) r \<longrightarrow> active st0 r)"

lemma map_of_filter_upt:
  "map_of (filter (\<lambda>(t, ids). ids \<noteq> []) (map (\<lambda>t. (t, f t)) [0..<n])) t
     = (if t < n \<and> f t \<noteq> [] then Some (f t) else None)"
  by (induction n) (auto simp: map_add_Some_iff map_add_def split: option.splits)

lemma New_Solution_kept:
  assumes "New_Solution F st h n = Inr s"
  shows "nonlinear_histories s = h" "kept st (sol_tasks s) r \<longleftrightarrow> active st r"
proof -
  from assms have s: "nonlinear_histories s = h"
    "sol_tasks s = filter (\<lambda>(t, ids). ids \<noteq> []) (map (\<lambda>t. (t, valid_ids st t)) [0..<length (threads st)])"
    by (auto simp: New_Solution_def Let_def elim!: res_bind_Inr_E)
  then show "nonlinear_histories s = h" by simp
  have "listed (sol_tasks s) t i \<longleftrightarrow> t < length (threads st) \<and> i \<in> set (valid_ids st t)" for t i
    unfolding s(2) listed_def map_of_filter_upt by auto
  then show "kept st (sol_tasks s) r \<longleftrightarrow> active st r"
    by (auto simp: kept_def active_iff valid_slot_def valid_ids_def GetId_def store_def IsTaskRemoved_def)
qed

lemma New_Solution_ok:
  fixes st st0 :: "('o, 'a, 'c, 'v, 'x) base_strategy_scheme"
  assumes "New_Solution F st h n = Inr s" "idents st = idents st0" "counterexample C st h"
    and "\<And>r. active st r \<Longrightarrow> active st0 r"
  shows "solution_ok C st0 s"
  using New_Solution_kept [OF assms(1)] assms(2-4) kept_idents [OF assms(2)]
  unfolding solution_ok_def counterexample_def by metis

lemma kept_crossed:
  assumes "solution_ok C st0 p1" "solution_ok C st0 p2"
    "mutate_tasks R n n (fst (CrossProduct R p1 p2 g)) g1 = Inr (ths, g2)" "kept st0 ths r"
  shows "active st0 r"
proof -
  have "kept st0 (sol_tasks p1) r \<or> kept st0 (sol_tasks p2) r"
    using assms(4) listed_mutate [OF assms(3)] listed_cross by (fastforce simp: kept_def)
  then show ?thesis using assms(1,2) by (auto simp: solution_ok_def)
qed

context strategy_object
begin

lemma explore_kept:
  assumes ok: ok and d: "distinct_ids st" and id: "idents st = idents st0"
    and run: "ExploreRound M E (Check_recursive C) runs (RemoveInvalidTasks ths st) = Inr (res, st')"
  shows "idents st' = idents st0" "active st' r \<longleftrightarrow> kept st0 ths r" "res = Some h \<Longrightarrow> counterexample C st' h"
proof -
  have run2: "ExploreRound M E (Check_recursive C) runs (mark_tasks_as_removed [] True (RemoveInvalidTasks ths st)) = Inr (res, st')"
    using run by (simp add: mark_tasks_as_removed_def)
  note o = explore_order [OF ok _ run2, simplified]
  show id': "idents st' = idents st0" using o(1) id by simp
  show "active st' r \<longleftrightarrow> kept st0 ths r"
    using active_idents [OF o(1), of r] o(2) active_iff [of "RemoveInvalidTasks ths st" r] active_idents [of "RemoveInvalidTasks ths st" st r]
      RemoveInvalidTasks_active [OF d, of ths r] kept_idents [OF id, of ths r]
      active_idents [of st' st r] by simp
  show "res = Some h \<Longrightarrow> counterexample C st' h" by (rule o(3))
qed

lemma one_offspring_ok:
  fixes st0 :: "('o, 'a, 'c, 'v, 'x) base_strategy_scheme"
  assumes ok: ok and d: "distinct_ids st0" and p: "solution_ok C st0 p1" "solution_ok C st0 p2"
  shows "one_offspring M E (Check_recursive C) F R runs tot n p1 p2 k (st, g) = Inr (sol, st', g')
    \<Longrightarrow> idents st = idents st0 \<Longrightarrow> idents st' = idents st0 \<and> (\<forall>s. sol = Some s \<longrightarrow> solution_ok C st0 s)"
proof (induction k arbitrary: st g)
  case (Suc k)
  obtain T g1 where T: "CrossProduct R p1 p2 g = (T, g1)" by fastforce
  from Suc.prems(1) T obtain ths g2 res s1 where m: "mutate_tasks R n n T g1 = Inr (ths, g2)"
    and run: "ExploreRound M E (Check_recursive C) runs (RemoveInvalidTasks ths st) = Inr (res, s1)"
    and rest: "(case res of Some h \<Rightarrow> res_bind (New_Solution F s1 h tot) (\<lambda>sol. Inr (Some sol, s1, g2))
      | None \<Rightarrow> one_offspring M E (Check_recursive C) F R runs tot n p1 p2 k (s1, g2)) = (Inr (sol, st', g') :: _ res)"
    by (auto elim!: res_bind_Inr_E)
  note e = explore_kept [OF ok distinct_ids_idents [OF Suc.prems(2) d] Suc.prems(2) run]
  show ?case
  proof (cases res)
    case None
    with rest Suc.IH [of s1 g2] e(1) show ?thesis by simp
  next
    case (Some h)
    with rest obtain s where s: "New_Solution F s1 h tot = Inr s" "sol = Some s" "st' = s1"
      by (auto elim!: res_bind_Inr_E)
    have "active st0 r" if "active s1 r" for r
      using kept_crossed [OF p, of R n g g1 ths g2 r] m T e(2) that by simp
    then have "solution_ok C st0 s" using New_Solution_ok [OF s(1) e(1) e(3) [OF Some]] by blast
    then show ?thesis using s e(1) by simp
  qed
qed simp

lemma offsprings_loop_ok:
  fixes st0 :: "('o, 'a, 'c, 'v, 'x) base_strategy_scheme"
  assumes ok: ok and d: "distinct_ids st0" and p: "solution_ok C st0 p1" "solution_ok C st0 p2"
  shows "offsprings_loop M E (Check_recursive C) F R P tot n p1 p2 k (st, g) = Inr (sols, st', g')
    \<Longrightarrow> idents st = idents st0 \<Longrightarrow> idents st' = idents st0 \<and> (\<forall>s \<in> set sols. solution_ok C st0 s)"
proof (induction k arbitrary: st g sols)
  case (Suc k)
  from Suc.prems(1) obtain sol s1 g1 sols' where
    o: "one_offspring M E (Check_recursive C) F R (exploration_runs P) tot n p1 p2 (offsprings_generation_attemps P) (st, g)
      = Inr (sol, s1, g1)"
    and l: "offsprings_loop M E (Check_recursive C) F R P tot n p1 p2 k (s1, g1) = Inr (sols', st', g')"
    and s: "sols = (case sol of None \<Rightarrow> sols' | Some x \<Rightarrow> x # sols')"
    by (auto elim!: res_bind_Inr_E)
  from one_offspring_ok [OF ok d p o Suc.prems(2)] Suc.IH [OF l] s show ?case by (auto split: option.splits)
qed simp

end

text \<open>The population is sorted by fitness; its first solution never gets worse.\<close>

definition sorted_population :: "solution list \<Rightarrow> bool" where
  "sorted_population ps \<longleftrightarrow> sorted_wrt (\<lambda>a b. fitness b \<le> fitness a) ps"

lemma set_insert_solution [simp]: "set (insert_solution s ps) = insert s (set ps)"
  unfolding insert_solution_def
  by simp (metis Un_insert_right set_append takeWhile_dropWhile_id)

lemma insert_solution_sorted:
  assumes "sorted_population ps"
  shows "sorted_population (insert_solution s ps)"
proof -
  let ?P = "\<lambda>p. fitness s \<le> fitness p"
  have ps: "sorted_wrt (\<lambda>a b. fitness b \<le> fitness a) (takeWhile ?P ps @ dropWhile ?P ps)"
    using assms by (simp add: sorted_population_def)
  have "fitness p \<le> fitness s" if p: "p \<in> set (dropWhile ?P ps)" for p
  proof -
    obtain q qs where q: "dropWhile ?P ps = q # qs" using p by (cases "dropWhile ?P ps") auto
    then have "\<not> ?P q" by (metis hd_dropWhile list.distinct(1) list.sel(1))
    moreover have "fitness p \<le> fitness q" using ps p q by (auto simp: sorted_wrt_append)
    ultimately show ?thesis by simp
  qed
  then show ?thesis using ps set_takeWhileD
    by (fastforce simp: sorted_population_def insert_solution_def sorted_wrt_append)
qed

lemma fold_insert_solution:
  assumes "sorted_population ps"
  shows "sorted_population (fold insert_solution ss ps) \<and> set (fold insert_solution ss ps) = set ss \<union> set ps"
  using assms by (induction ss arbitrary: ps) (auto simp: insert_solution_sorted)

lemma erase_worst_take: "erase_worst ps = take max_population_size ps"
proof (induction ps rule: erase_worst.induct)
  case (1 ps)
  show ?case
    by (subst erase_worst.simps) (use 1 in \<open>auto simp: butlast_conv_take min_def\<close>)
qed

lemma best_stays:
  assumes "sorted_population ps" "ps \<noteq> []" "ps' = erase_worst (fold insert_solution ss ps)"
  shows "sorted_population ps' \<and> ps' \<noteq> [] \<and> set ps' \<subseteq> set ss \<union> set ps \<and> fitness (hd ps) \<le> fitness (hd ps')"
proof -
  let ?qs = "fold insert_solution ss ps"
  have q: "sorted_population ?qs" "set ?qs = set ss \<union> set ps" using fold_insert_solution [OF assms(1)] by auto
  then have ne: "?qs \<noteq> []" using assms(2) by (metis Un_empty set_empty)
  have "hd ps \<in> set ?qs" using q(2) assms(2) by simp
  then have "fitness (hd ps) \<le> fitness (hd ?qs)"
    using q(1) ne by (cases ?qs) (auto simp: sorted_population_def)
  moreover have "hd ps' = hd ?qs" "ps' \<noteq> []"
    using ne unfolding assms(3) erase_worst_take by (simp_all add: max_population_size_def)
  moreover have "sorted_population ps'" "set ps' \<subseteq> set ?qs"
    using q(1) unfolding assms(3) erase_worst_take sorted_population_def by (auto simp: sorted_wrt_take dest: in_set_takeD)
  ultimately show ?thesis using q(2) by simp
qed

context strategy_object
begin

lemma generations_ok:
  fixes st0 :: "('o, 'a, 'c, 'v, 'x) base_strategy_scheme"
  assumes ok: ok and d: "distinct_ids st0"
  shows "generations M E (Check_recursive C) F R P tot k ps (st, x) = Inr (ps', st', x')
    \<Longrightarrow> idents st = idents st0 \<Longrightarrow> sorted_population ps \<Longrightarrow> ps \<noteq> [] \<Longrightarrow> \<forall>s \<in> set ps. solution_ok C st0 s
    \<Longrightarrow> idents st' = idents st0 \<and> ps' \<noteq> [] \<and> (\<forall>s \<in> set ps'. solution_ok C st0 s) \<and> fitness (hd ps) \<le> fitness (hd ps')"
proof (induction k arbitrary: ps st x)
  case (Suc k)
  obtain g n where x: "x = (g, n)" by fastforce
  from Suc.prems(1) x obtain p1 p2 ss s1 g1 n1 where p: "vec_get ps 0 = Inr p1"
      "(if length ps < 2 then Inr p1 else vec_get ps 1) = Inr p2"
    and o: "GenerateOffsprings M E (Check_recursive C) F R P tot p1 p2 (st, g, n) = Inr (ss, s1, g1, n1)"
    and l: "generations M E (Check_recursive C) F R P tot k (erase_worst (fold insert_solution ss ps)) (s1, g1, n1) = Inr (ps', st', x')"
    by (auto elim!: res_bind_Inr_E)
  have "p1 \<in> set ps" "p2 \<in> set ps" using p by (auto simp: vec_get_def split: if_splits)
  then have sol: "solution_ok C st0 p1" "solution_ok C st0 p2" using Suc.prems(5) by auto
  from o obtain g2 where loop: "offsprings_loop M E (Check_recursive C) F R P tot n p1 p2
      (max_offsprings_per_generation P) (st, g) = Inr (ss, s1, g2)"
    by (auto simp: GenerateOffsprings_def elim!: res_bind_Inr_E)
  note ss = offsprings_loop_ok [OF ok d sol loop Suc.prems(2)]
  note b = best_stays [OF Suc.prems(3,4) refl, of ss]
  have "\<forall>s \<in> set (erase_worst (fold insert_solution ss ps)). solution_ok C st0 s" using b ss Suc.prems(5) by blast
  with Suc.IH [OF l] ss b show ?case by (meson order_trans)
qed simp

lemma Smart_Minimize_ok:
  fixes st :: "('o, 'a, 'c, 'v, 'x) base_strategy_scheme"
  assumes ok: ok and d: "distinct_ids st" and c: "counterexample C st h"
    and run: "Smart_Minimize M E (Check_recursive C) F R P g n (st, h) = Inr (st', h')"
  shows "idents st' = idents st \<and> counterexample C st' h' \<and> refuted C st' h' \<and> (\<forall>r. active st' r \<longrightarrow> active st r)"
proof -
  from run obtain sol ps s1 x where s: "New_Solution F st h (GetTotalTasksCount st) = Inr sol"
    and gen: "generations M E (Check_recursive C) F R P (GetTotalTasksCount st) (minimization_runs P) [sol] (st, g, n) = Inr (ps, s1, x)"
    and rep: "ReplayRound M E (Check_recursive C) (GetTasksOrdering (RemoveInvalidTasks (sol_tasks (hd ps)) s1)
        (fst (nonlinear_histories (hd ps))) {}) (RemoveInvalidTasks (sol_tasks (hd ps)) s1) = Inr (Some h', st')"
    by (auto simp: Smart_Minimize_def Let_def elim!: res_bind_Inr_E split: option.splits)
  have "solution_ok C st sol" by (rule New_Solution_ok [OF s refl c])
  with generations_ok [OF ok d gen refl] have i: "idents s1 = idents st" "solution_ok C st (hd ps)"
    by (auto simp: sorted_population_def)
  define s2 where "s2 = RemoveInvalidTasks (sol_tasks (hd ps)) s1"
  have id2: "idents s2 = idents st" using i(1) by (simp add: s2_def)
  have act: "active s2 r \<longleftrightarrow> kept st (sol_tasks (hd ps)) r" for r
    using RemoveInvalidTasks_active [OF distinct_ids_idents [OF i(1) d]] kept_idents [OF i(1)] by (simp add: s2_def)
  have c2: "counterexample C s2 (nonlinear_histories (hd ps))"
    using i(2) id2 act unfolding counterexample_def solution_ok_def by simp
  note o = replay_order(1) [OF distinct_ids_idents [OF id2 d] c2, of "[]" "Some h'" st']
    replay_order(2,3) [OF distinct_ids_idents [OF id2 d] c2, of "[]" "Some h'" st' h']
  have "same_tasks s2 st'" "counterexample C st' h'" "refuted C st' h'"
    using o rep by (simp_all add: s2_def mark_tasks_as_removed_def)
  moreover have "active st r" if "active s2 r" for r using that act i(2) by (simp add: solution_ok_def)
  ultimately show ?thesis using id2 same_tasks_active [of s2 st'] by (simp add: same_tasks_def)
qed

end

section \<open>Bounds of the fitness\<close>

text \<open>Rounding as IEEE arithmetic documents it: monotone, exact at 0 and 1, with small relative error.\<close>

definition rounding_ok :: "rounding \<Rightarrow> bool" where
  "rounding_ok F \<longleftrightarrow> mono (to_double F) \<and> mono (to_float F)
     \<and> to_double F 0 = 0 \<and> to_double F 1 = 1 \<and> to_float F 0 = 0 \<and> to_float F 1 = 1
     \<and> (\<forall>x \<ge> 0. \<bar>to_double F x - x\<bar> \<le> x / 2 ^ 53) \<and> (\<forall>x \<ge> 0. \<bar>to_float F x - x\<bar> \<le> x / 2 ^ 24)"

lemma rounding_unit:
  assumes "mono f" "f 0 = 0" "f 1 = (1::rat)" "0 \<le> x" "x \<le> 1"
  shows "0 \<le> f x" "f x \<le> 1"
  using monoD [OF assms(1,4)] monoD [OF assms(1,5)] assms(2,3) by auto

lemma Tasks_fitness_unit:
  assumes "rounding_ok F" "valid \<le> n" "0 < n"
  shows "0 \<le> Tasks_fitness F valid n \<and> Tasks_fitness F valid n \<le> 1"
proof -
  have "0 \<le> (of_nat valid / of_nat n :: rat)" "(of_nat valid / of_nat n :: rat) \<le> 1" using assms(2,3) by auto
  then have "0 \<le> to_double F (of_nat valid / of_nat n)" "to_double F (of_nat valid / of_nat n) \<le> 1"
    using rounding_unit [of "to_double F"] assms(1) by (auto simp: rounding_ok_def)
  then have "0 \<le> 1 - to_double F (of_nat valid / of_nat n)" "1 - to_double F (of_nat valid / of_nat n) \<le> 1" by simp_all
  then show ?thesis unfolding Tasks_fitness_def
    using rounding_unit [of "to_double F"] rounding_unit [of "to_float F"] assms(1) by (simp add: rounding_ok_def)
qed

lemma Threads_fitness_unit:
  assumes F: "rounding_ok F" and k: "0 < k" "k \<le> n" and n: "n \<le> 5000"
  shows "0 \<le> Threads_fitness F k n \<and> Threads_fitness F k n \<le> 1"
proof -
  define q where "q = (of_nat k / of_nat n :: rat)"
  have "(of_nat n :: rat) \<le> 5000" using n by (metis of_nat_le_iff of_nat_numeral)
  moreover have "(1::rat) \<le> of_nat k" "0 < (of_nat n :: rat)" using k by auto
  ultimately have q: "1 / 5000 \<le> q" "q \<le> 1" using k(2) by (auto simp: q_def field_simps)
  have fl: "\<bar>to_float F x - x\<bar> \<le> x / 2 ^ 24" and db: "\<bar>to_double F x - x\<bar> \<le> x / 2 ^ 53" if "0 \<le> x" for x
    using F that unfolding rounding_ok_def by blast+
  have e: "\<bar>eps F - 1 / 10000\<bar> \<le> 1 / 10000 / 2 ^ 24" unfolding eps_def by (rule fl) simp
  have e2: "0 \<le> eps F" "eps F \<le> 1 / 9999" using abs_le_D1 [OF e] abs_le_D2 [OF e] by simp_all
  have d1: "\<bar>to_double F (eps F + 1) - (eps F + 1)\<bar> \<le> (eps F + 1) / 2 ^ 53"
    and d2: "\<bar>to_double F q - q\<bar> \<le> q / 2 ^ 53" by (rule db; use e2 q in simp)+
  have "1 \<le> to_double F (eps F + 1)" using F e2(1) monoD [of "to_double F" 1 "eps F + 1"] by (simp add: rounding_ok_def)
  moreover have "to_double F q \<le> 1" using rounding_unit [of "to_double F" q] F q by (simp add: rounding_ok_def)
  moreover have "to_double F (eps F + 1) \<le> 1 + 1 / 9000" using abs_le_D1 [OF d1] e2 by simp
  moreover have "1 / 6000 \<le> to_double F q" using abs_le_D2 [OF d2] q by simp
  ultimately have "0 \<le> to_double F (eps F + 1) - to_double F q" "to_double F (eps F + 1) - to_double F q \<le> 1" by simp_all
  then show ?thesis unfolding Threads_fitness_def q_def [symmetric]
    using rounding_unit [of "to_double F"] rounding_unit [of "to_float F"] F by (simp add: rounding_ok_def)
qed

lemma used_threads:
  assumes "0 < GetValidTasksCount st"
  shows "0 < length (filter (\<lambda>(t, ids). ids \<noteq> []) (map (\<lambda>t. (t, valid_ids st t)) [0..<length (threads st)]))"
proof -
  from assms obtain r where "active st r"
    using card_active [of st] by (metis card.empty empty_Collect_eq less_not_refl)
  then have "fst r < length (threads st)" "valid_ids st (fst r) \<noteq> []"
    by (auto simp: active_def valid_slot_def valid_ids_def filter_empty_conv)
  then have "(fst r, valid_ids st (fst r)) \<in> set (filter (\<lambda>(t, ids). ids \<noteq> []) (map (\<lambda>t. (t, valid_ids st t)) [0..<length (threads st)]))"
    by auto
  then show ?thesis by (metis length_pos_if_in_set)
qed

lemma New_Solution_unit:
  assumes F: "rounding_ok F" and st: "0 < GetValidTasksCount st" "length (threads st) \<le> 5000"
  shows "\<exists>s. New_Solution F st h (GetTotalTasksCount st) = Inr s \<and> 0 \<le> fitness s \<and> fitness s \<le> 1"
proof -
  let ?tasks = "filter (\<lambda>(t, ids). ids \<noteq> []) (map (\<lambda>t. (t, valid_ids st t)) [0..<length (threads st)])"
  let ?x = "Tasks_fitness F (GetValidTasksCount st) (GetTotalTasksCount st)"
  let ?y = "Threads_fitness F (length ?tasks) (length (threads st))"
  have k: "0 < length ?tasks" "length ?tasks \<le> length (threads st)"
    using used_threads [OF st(1)] length_filter_le [of "\<lambda>(t, ids). ids \<noteq> []" "map (\<lambda>t. (t, valid_ids st t)) [0..<length (threads st)]"]
    by auto
  have x: "0 \<le> ?x" "?x \<le> 1" using Tasks_fitness_unit [OF F Valid_le_Total [of st]] st(1) Valid_le_Total [of st] by auto
  have y: "0 \<le> ?y" "?y \<le> 1" using Threads_fitness_unit [OF F k st(2)] by auto
  have xy: "0 \<le> ?x * ?y" "?x * ?y \<le> 1" using x y by (simp_all add: mult_le_one)
  have "0 \<le> to_float F (?x * ?y)" "to_float F (?x * ?y) \<le> 1"
    using rounding_unit [of "to_float F", OF _ _ _ xy] F by (simp_all add: rounding_ok_def)
  moreover have "GetTotalTasksCount st \<noteq> 0" "length (threads st) \<noteq> 0" using st(1) Valid_le_Total [of st] k by auto
  ultimately show ?thesis using x y by (simp add: New_Solution_def GetThreadsCount_def cxx_assert_def Let_def)
qed

lemma generations_best:
  "generations M E Check F R P tot k ps s = Inr (ps', s') \<Longrightarrow> sorted_population ps \<Longrightarrow> ps \<noteq> []
    \<Longrightarrow> sorted_population ps' \<and> ps' \<noteq> [] \<and> fitness (hd ps) \<le> fitness (hd ps') \<and> (0 < k \<longrightarrow> length ps' \<le> 2)"
proof (induction k arbitrary: ps s)
  case (Suc k)
  from Suc.prems(1) obtain ss s1 where
    l: "generations M E Check F R P tot k (erase_worst (fold insert_solution ss ps)) s1 = Inr (ps', s')"
    by (auto elim!: res_bind_Inr_E)
  note b = best_stays [OF Suc.prems(2,3) refl, of ss]
  have "length (erase_worst (fold insert_solution ss ps)) \<le> 2" by (simp add: erase_worst_take max_population_size_def)
  then have "k = 0 \<Longrightarrow> length ps' \<le> 2" using l by simp
  with Suc.IH [OF l] b show ?case by (cases k) auto
qed simp

section \<open>Samples\<close>

definition exact :: rounding where
  "exact = \<lparr>to_double = (\<lambda>x. x), to_float = (\<lambda>x. x)\<rparr>"

definition sample_smart :: "unit smart_random" where
  "sample_smart = \<lparr>sr_uniform = (\<lambda>a b g. (b, g)), sr_dist = (\<lambda>g. (0, g))\<rparr>"

definition sample_params :: smart_params where
  "sample_params = \<lparr>exploration_runs = 1, minimization_runs = 1, max_offsprings_per_generation = 1,
     offsprings_generation_attemps = 1\<rparr>"

definition whole_rr :: "(int, int, nat, unit, unit) rr" where
  "whole_rr = replay_rr\<lparr>removed_tasks := {}\<rparr>"

definition smart_sample :: "(nat \<times> nat) res" where
  "smart_sample =
     res_bind (ExploreRound (RR_methods sample_env) sample_env (Check_recursive Register_checker) 1 whole_rr)
       (\<lambda>(res, st). case res of None \<Rightarrow> Inl Out_Of_Fuel
          | Some h \<Rightarrow> res_bind (Smart_Minimize (RR_methods sample_env) sample_env (Check_recursive Register_checker)
                exact sample_smart sample_params () 1 (st, h))
              (\<lambda>(st', h'). Inr (length (snd h), length (snd h'))))"

lemma sample_smart_run: "smart_sample = Inr (6, 4)"
  by code_simp

lemma smart_sample_E:
  assumes "smart_sample = Inr (m, n)"
  obtains st h st' h' where
    "ExploreRound (RR_methods sample_env) sample_env (Check_recursive Register_checker) 1 whole_rr = Inr (Some h, st)"
    "Smart_Minimize (RR_methods sample_env) sample_env (Check_recursive Register_checker)
        exact sample_smart sample_params () 1 (st, h) = Inr (st', h')"
    "length (snd h) = m" "length (snd h') = n"
  using assms unfolding smart_sample_def by (auto elim!: res_bind_Inr_E split: option.splits)

lemma exact_ok: "rounding_ok exact"
  by (simp add: rounding_ok_def exact_def mono_def)

section \<open>Properties\<close>

text \<open>
  C13. The genetic minimizor, with any of the three strategies, turns a counterexample into a
  counterexample of the same round: the replayed history was refused by the checker, its tasks
  are the tasks that are not removed, and they are among the tasks that were there.
\<close>

theorem smart_minimizor_keeps:
  assumes "random_ok (env_random E)"
  shows "(distinct_ids st \<and> counterexample C st h
      \<and> Smart_Minimize (RR_methods E) E (Check_recursive C) F R P g n (st, h) = Inr (st', h')
      \<longrightarrow> idents st' = idents st \<and> counterexample C st' h' \<and> (\<forall>r. active st' r \<longrightarrow> active st r))
    \<and> (distinct_ids sr \<and> counterexample C sr h
      \<and> Smart_Minimize (Random_methods E) E (Check_recursive C) F R P g n (sr, h) = Inr (sr', h')
      \<longrightarrow> idents sr' = idents sr \<and> counterexample C sr' h' \<and> (\<forall>r. active sr' r \<longrightarrow> active sr r))
    \<and> (distinct_ids sp \<and> counterexample C sp h
      \<and> Smart_Minimize (Pct_methods E) E (Check_recursive C) F R P g n (sp, h) = Inr (sp', h')
      \<longrightarrow> idents sp' = idents sp \<and> counterexample C sp' h' \<and> (\<forall>r. active sp' r \<longrightarrow> active sp r))"
  using rr_object.Smart_Minimize_ok [OF assms, of st C h F R P g n st' h']
    random_object.Smart_Minimize_ok [OF assms, of sr C h F R P g n sr' h']
    pct_object.Smart_Minimize_ok [OF TrueI, of sp C h E F R P g n sp' h'] by blast

theorem smart_minimizor_keeps_witness:
  "\<exists>(st :: (int, int, nat, unit, unit) rr) h st' h'. Smart_Minimize (RR_methods sample_env) sample_env
      (Check_recursive Register_checker) exact sample_smart sample_params () 1 (st, h) = Inr (st', h')
    \<and> counterexample Register_checker st h \<and> counterexample Register_checker st' h'
    \<and> length (snd h) = 6 \<and> length (snd h') = 4"
proof -
  from sample_smart_run obtain st h st' h' where
    e: "ExploreRound (RR_methods sample_env) sample_env (Check_recursive Register_checker) 1 whole_rr = Inr (Some h, st)"
    and m: "Smart_Minimize (RR_methods sample_env) sample_env (Check_recursive Register_checker)
        exact sample_smart sample_params () 1 (st, h) = Inr (st', h')"
    and l: "length (snd h) = 6" "length (snd h') = 4" by (rule smart_sample_E)
  have o: "explore_outcome Register_checker whole_rr st (Some h)"
    using rr_object.ExploreRound_outcome [OF sample_env_random refl refl e, of whole_rr] by (simp add: same_tasks_def)
  then have c: "counterexample Register_checker st h"
    by (auto simp: explore_outcome_def counterexample_def complete_history_def)
  have "idents st = idents replay_rr" using o by (simp add: explore_outcome_def same_tasks_def whole_rr_def)
  then have "distinct_ids st" by (rule distinct_ids_idents [OF _ replay_rr_distinct])
  with smart_minimizor_keeps [OF sample_env_random, of st Register_checker h exact sample_smart sample_params "()" 1 st' h'] c m have "counterexample Register_checker st' h'" by blast
  with c m l show ?thesis by blast
qed

text \<open>
  The generations never lose the best solution: the population stays sorted by fitness, is
  cut to two solutions, and its first solution is at least as fit as the one it started from.
\<close>

theorem generations_keep_best:
  assumes "sorted_population ps" "ps \<noteq> []" "generations M E Check F R P tot k ps s = Inr (ps', s')"
  shows "sorted_population ps' \<and> ps' \<noteq> [] \<and> fitness (hd ps) \<le> fitness (hd ps') \<and> (0 < k \<longrightarrow> length ps' \<le> 2)"
  by (rule generations_best [OF assms(3,1,2)])

definition lone_solution :: solution where
  "lone_solution = \<lparr>sol_tasks = [], nonlinear_histories = ([], []), fitness = 0, valid_tasks = 0\<rparr>"

theorem generations_keep_best_witness:
  "\<exists>ps' s'. generations (RR_methods sample_env) sample_env (Check_recursive Register_checker) exact sample_smart
       sample_params 3 0 [lone_solution] (whole_rr, (), 1) = Inr (ps', s') \<and> fitness lone_solution \<le> fitness (hd ps')"
  using generations_keep_best [of "[lone_solution]" "RR_methods sample_env" sample_env "Check_recursive Register_checker"
      exact sample_smart sample_params 3 0 "(whole_rr, (), 1)"]
  by (simp add: sorted_population_def)

text \<open>
  The assertions of the constructor of a solution hold, in rounded arithmetic, as long as a
  task is left and there are at most 5000 threads, and the fitness is between 0 and 1.
\<close>

theorem solution_fitness_bounds:
  assumes "rounding_ok F" "0 < GetValidTasksCount st" "length (threads st) \<le> 5000"
  shows "\<exists>s. New_Solution F st h (GetTotalTasksCount st) = Inr s \<and> 0 \<le> fitness s \<and> fitness s \<le> 1"
  by (rule New_Solution_unit [OF assms])

theorem solution_fitness_bounds_witness:
  "\<exists>s. New_Solution exact replay_rr ([], []) (GetTotalTasksCount replay_rr) = Inr s \<and> fitness s \<le> 1"
proof -
  have "0 < GetValidTasksCount replay_rr" "length (threads replay_rr) \<le> 5000"
    by (simp_all add: GetValidTasksCount_def replay_rr_def IsTaskRemoved_def)
  from solution_fitness_bounds [OF exact_ok this] show ?thesis by blast
qed

end
