(* ===== verification/Replay_Faithful.thy ===== *)
theory Replay_Faithful
  imports Minimization
begin

text \<open>
  A replay is faithful: the tasks that a history records, resumed in the recorded order from an
  equal start, give the same history. This is what the minimizors rely on when they keep a
  history and later replay it, and what the last assertion of the genetic minimizor states.
\<close>

section \<open>Equal rounds\<close>

text \<open>Two states of a round that agree on the tasks that are left and on the tested object.\<close>

definition agree ::
    "('o, 'a, 'c, 'v, 'x) base_strategy_scheme \<Rightarrow> ('o, 'a, 'c, 'v, 'x) base_strategy_scheme \<Rightarrow> bool" where
  "agree s s' \<longleftrightarrow> same_tasks s s' \<and> st_world s' = st_world s \<and> (\<forall>r. active s r \<longrightarrow> task_at s' r = task_at s r)"

lemma agree_resume:
  assumes "agree s s'" "active s r" "resume_task E r s = Inr s2"
  shows "\<exists>s2'. resume_task E r s' = Inr s2' \<and> agree s2 s2' \<and> task_at s2' r = task_at s2 r"
proof -
  from assms(3) obtain w c where r: "valid_slot s r" "Resume (env_body E) (st_world s) (task_at s r) = Inr (w, c)"
    and s2: "s2 = set_task r c (s\<lparr>st_world := w\<rparr>)" by (auto simp: resume_task_Inr_iff)
  have v': "valid_slot s' r" using r(1) assms(1) idents_shape(3) [of s' s r] by (simp add: agree_def same_tasks_def)
  define s2' where "s2' = set_task r c (s'\<lparr>st_world := w\<rparr>)"
  have res: "resume_task E r s' = Inr s2'"
    using r v' assms(1,2) by (auto simp: resume_task_Inr_iff s2'_def agree_def)
  have same: "same_tasks s2 s2'"
    using assms(1) resume_task_frame(1,3) [OF assms(3)] resume_task_frame(1,3) [OF res] by (simp add: agree_def same_tasks_def)
  have v: "valid_slot (s\<lparr>st_world := w\<rparr>) r" "valid_slot (s'\<lparr>st_world := w\<rparr>) r" using r(1) v' by (simp_all add: valid_slot_def)
  have at: "task_at s2 r' = (if r' = r then c else task_at s r')" "task_at s2' r' = (if r' = r then c else task_at s' r')" for r'
    using task_at_set_task [OF v(1)] task_at_set_task [OF v(2)] by (simp_all add: s2 s2'_def)
  have "active s2 r' \<longleftrightarrow> active s r'" for r'
    using same_tasks_active [of s s2 r'] resume_task_frame(1,3) [OF assms(3)] by (simp add: same_tasks_def)
  then have "agree s2 s2'" using assms(1) same at by (simp add: agree_def s2 s2'_def)
  with res at show ?thesis by auto
qed

section \<open>One slice\<close>

lemma explore_step_entry:
  assumes step: "schedule_step pick (\<lambda>_ st. Inr st) E s k = Inr (b, s2, k2)" and n: "pick s = Inr (t, s1)"
    and eff: "next_schedule_effect s t s1" and inv: "explore_inv s (snd k)" and d: "distinct_ids s" and ag: "agree s s'"
  shows "\<exists>s2'. resume_entry E (GetId s (twm_task t)) (s', GetId s ` set (invoked (snd k)), k)
        = Inr (s2', GetId s ` set (invoked (snd k2)), k2)
      \<and> agree s2 s2' \<and> fst k2 = fst k @ [twm_task t]"
proof -
  let ?r = "twm_task t" and ?i = "GetId s (twm_task t)"
  note ch = next_schedule_choice [OF inv eff]
  have s1: "threads s1 = threads s" "removed_tasks s1 = removed_tasks s" "st_world s1 = st_world s"
    using eff by (auto simp: next_schedule_effect_def Let_def)
  have v: "valid_slot s ?r" and tid: "twm_thread_id t = fst ?r" using ch(2,4) by (auto simp: active_def)
  have ag1: "agree s1 s'" using ag s1 by (auto simp: agree_def same_tasks_def idents_def active_def valid_slot_def IsTaskRemoved_def)
  have act1: "active s1 ?r" using ch(2) s1 by (auto simp: active_def valid_slot_def IsTaskRemoved_def)
  from step n obtain s3 where res: "resume_task E ?r s1 = Inr s3"
    by (auto simp: schedule_step_def Let_def elim!: res_bind_Inr_E)
  have v3: "valid_slot s3 ?r" using moved_valid [OF resume_moved [OF res]] v s1(1) by (simp add: valid_slot_def)
  have k2: "s2 = s3" "fst k2 = fst k @ [?r]"
    "snd k2 = (if twm_is_new t then snd k @ [Invoke ?r (int (fst ?r))] else snd k)
      @ (if co_is_returned (task_at s3 ?r) then [Response ?r (co_ret (task_at s3 ?r)) (int (fst ?r))] else [])"
    using step n res v3 tid by (auto simp: schedule_step_def Let_def GetRetVal_def split: if_splits)
  obtain s3' where s3': "resume_task E ?r s' = Inr s3'" "agree s3 s3'" "task_at s3' ?r = task_at s3 ?r"
    using agree_resume [OF ag1 act1 res] by blast
  have id: "idents s' = idents s" using ag by (simp add: agree_def same_tasks_def)
  have g: "GetTask_by_id s' ?i = Some (?r, fst ?r)"
    using GetTask_by_id_GetId [OF d v] GetTask_by_id_idents [OF id] by simp
  have v': "valid_slot s' ?r" "valid_slot s3' ?r"
    using v idents_shape(3) [OF id, of ?r] moved_valid [OF resume_moved [OF s3'(1)], of ?r] by auto
  have nr: "\<not> co_is_returned (task_at s' ?r)" using ag ch(2,3) by (simp add: agree_def)
  have "?i \<in> GetId s ` set (invoked (snd k)) \<longleftrightarrow> ?r \<in> set (invoked (snd k))"
  proof
    assume "?i \<in> GetId s ` set (invoked (snd k))"
    then obtain r' where r': "r' \<in> set (invoked (snd k))" "GetId s ?r = GetId s r'" by auto
    then have "valid_slot s r'" using inv by (auto simp: explore_inv_def active_def)
    with r' d v show "?r \<in> set (invoked (snd k))" unfolding distinct_ids_def by metis
  qed simp
  then have new: "?i \<in> GetId s ` set (invoked (snd k)) \<longleftrightarrow> \<not> twm_is_new t" using ch(1) by simp
  have "insert ?i (GetId s ` set (invoked (snd k))) = GetId s ` set (invoked (snd k2))"
    using k2(3) ch(1) by (auto split: if_splits)
  then have "resume_entry E ?i (s', GetId s ` set (invoked (snd k)), k) = Inr (s3', GetId s ` set (invoked (snd k2)), k2)"
    using g v' nr s3' new k2(2,3) by (cases k2) (auto simp: resume_entry_def Let_def)
  then show ?thesis using s3'(2) k2 by auto
qed

section \<open>A whole run\<close>

context scheduling_strategy
begin

lemma explore_loop_replays:
  assumes ok: ok
  shows "schedule_loop fuel NextSchedule (\<lambda>_ st. Inr st) E todo s k = Inr (s2, k2) \<Longrightarrow> explore_inv s (snd k)
    \<Longrightarrow> set (fst k) = set (invoked (snd k)) \<Longrightarrow> distinct_ids s \<Longrightarrow> agree s s'
    \<Longrightarrow> \<exists>rs s2'. fst k2 = fst k @ rs \<and> resume_entries E (map (GetId s) rs) (s', GetId s ` set (invoked (snd k)), k)
          = Inr (s2', GetId s ` set (invoked (snd k2)), k2) \<and> agree s2 s2'"
proof (induction fuel arbitrary: todo s s' k)
  case 0
  then show ?case by (cases todo) auto
next
  case (Suc fuel)
  show ?case
  proof (cases todo)
    case 0
    with Suc.prems show ?thesis by auto
  next
    case todo: (Suc n)
    from Suc.prems(1) todo obtain b s1 k1 where step: "schedule_step NextSchedule (\<lambda>_ st. Inr st) E s k = Inr (b, s1, k1)"
      and loop: "schedule_loop fuel NextSchedule (\<lambda>_ st. Inr st) E (if b then n else Suc n) s1 k1 = Inr (s2, k2)"
      by (auto elim!: res_bind_Inr_E)
    from step obtain t sp where n: "NextSchedule s = Inr (t, sp)"
      by (auto simp: schedule_step_def elim!: res_bind_Inr_E)
    have "schedule_ok s" using Suc.prems(2) by (simp add: explore_inv_def)
    note eff = NextSchedule_effect [OF ok this n]
    have inv1: "explore_inv s1 (snd k1)" "same_tasks s s1" "set (fst k1) = set (invoked (snd k1))"
      using explore_step_inv [OF ok _ step, of s] Suc.prems(2,3) by (auto simp: same_tasks_def)
    obtain s1' where e: "resume_entry E (GetId s (twm_task t)) (s', GetId s ` set (invoked (snd k)), k)
        = Inr (s1', GetId s ` set (invoked (snd k1)), k1)" "agree s1 s1'" "fst k1 = fst k @ [twm_task t]"
      using explore_step_entry [OF step n eff Suc.prems(2,4,5)] by blast
    have id: "idents s1 = idents s" using inv1(2) by (simp add: same_tasks_def)
    obtain rs s2' where r: "fst k2 = fst k1 @ rs" "resume_entries E (map (GetId s1) rs) (s1', GetId s1 ` set (invoked (snd k1)), k1)
          = Inr (s2', GetId s1 ` set (invoked (snd k2)), k2)" "agree s2 s2'"
      using Suc.IH [OF loop inv1(1,3) distinct_ids_idents [OF id Suc.prems(4)] e(2)] by blast
    have inv2: "explore_inv s2 (snd k2)" "same_tasks s s2" "set (fst k2) = set (invoked (snd k2))"
      using explore_loop_inv [OF ok loop inv1(1,2,3)] by auto
    have val: "valid_slot s r" if "r \<in> set (fst k2)" for r
      using that inv2 same_tasks_active [OF inv2(2), of r] by (auto simp: explore_inv_def active_def)
    have same_id: "GetId s1 r = GetId s r" if "r \<in> set (fst k2)" for r using val [OF that] GetId_idents [OF id] by simp
    have "map (GetId s1) rs = map (GetId s) rs" "GetId s1 ` set (invoked (snd k1)) = GetId s ` set (invoked (snd k1))"
        "GetId s1 ` set (invoked (snd k2)) = GetId s ` set (invoked (snd k2))"
      using same_id r(1) inv1(3) inv2(3) by (auto intro!: image_cong)
    with r e(1,3) show ?thesis by (intro exI [of _ "twm_task t # rs"] exI [of _ s2']) simp
  qed
qed

end

section \<open>The verdict\<close>

text \<open>The checker looks only at the tasks of the history.\<close>

lemma rec_for_cong:
  assumes "\<And>t x. Invoke t x \<in> set h \<Longrightarrow> tk t = tk' t"
  shows "\<forall>i \<in> set is. i < length h \<Longrightarrow> rec_for step C tk h m is lin s = rec_for step C tk' h m is lin s"
proof (induction "is" arbitrary: lin)
  case (Cons i "is")
  have ih: "rec_for step C tk h m is l s = rec_for step C tk' h m is l s" for l using Cons by simp
  show ?case
  proof (cases "h ! i")
    case (Invoke t x)
    then have t: "tk t = tk' t" using assms [of t x] Cons.prems nth_mem [of i h] by simp
    show ?thesis unfolding rec_for.simps Invoke history_event.case t ih ..
  next
    case (Response t v x)
    show ?thesis unfolding rec_for.simps Response history_event.case ih ..
  qed
qed simp

lemma recursive_step_cong:
  assumes "\<And>t x. Invoke t x \<in> set h \<Longrightarrow> tk t = tk' t"
  shows "recursive_step n C tk h m = recursive_step n C tk' h m"
proof (induction n)
  case (Suc n)
  have "recursive_step (Suc n) C tk h m lin s = recursive_step (Suc n) C tk' h m lin s" for lin s
    using rec_for_cong [of h tk tk' "[0..<length h]" "recursive_step n C tk' h m" C m lin s] assms by (simp add: Suc)
  then show ?case by blast
qed (intro ext, simp)

lemma Check_recursive_cong:
  assumes "\<And>r. r \<in> set (invoked h) \<Longrightarrow> tk r = tk' r"
  shows "Check_recursive C tk h = Check_recursive C tk' h"
proof -
  have "tk t = tk' t" if "Invoke t x \<in> set h" for t x using assms [of t] that by (force simp: invoked_def)
  then have "recursive_step n C tk h m = recursive_step n C tk' h m" for n m by (rule recursive_step_cong)
  then show ?thesis unfolding Check_recursive_def by (simp only:)
qed

text \<open>The replay of an explored run.\<close>

lemma reset_agree:
  assumes "reset_effect s s1" "reset_effect s' s1'" "same_tasks s s'" "st_world s1' = st_world s1"
  shows "agree s1 s1'"
proof -
  have same: "same_tasks s1 s1'" using assms(1-3) by (simp add: reset_effect_def same_tasks_def)
  have "task_at s1' r = task_at s1 r" if a: "active s1 r" for r
  proof -
    have "active s1' r" using same_tasks_active [OF same] a by simp
    moreover have "valid_slot s r" using a idents_shape(3) [of s1 s r] assms(1) by (simp add: active_def reset_effect_def)
    ultimately show ?thesis
      using assms(1-3) a idents_shape(4) [of s' s r] fresh_task_ident by (auto simp: reset_effect_def same_tasks_def)
  qed
  with same assms(4) show ?thesis by (simp add: agree_def)
qed

section \<open>Targets that reset completely\<close>

text \<open>
  The part of the world that a reset of the target object leaves alone, and targets that never
  touch it and whose reset does not depend on the old state.
\<close>

definition outside :: "'o world \<Rightarrow> (token_ref \<Rightarrow> bool) \<times> token_ref \<times> coroutine_status option" where
  "outside w = (w_parked w, w_next_token w, w_status w)"

definition resettable :: "('o, 'c, 'v, 'g) runtime_env \<Rightarrow> bool" where
  "resettable E \<longleftrightarrow> (\<forall>x y. env_reset E x = env_reset E y) \<and> (\<forall>k w. outside (fst (env_body E k w)) = outside w)"

lemma resume_outside:
  assumes "resettable E" "resume_task E r s = Inr s'"
  shows "outside (st_world s') = outside (st_world s)"
  using assms unfolding resettable_def
  by (auto simp: resume_task_Inr_iff Resume_def split: if_splits prod.splits slice_end.splits) (metis fst_conv)+

lemma terminate_visit_outside:
  assumes "resettable E" "terminate_visit E t (s, i, f) = Inr (s', i', f')"
  shows "outside (st_world s') = outside (st_world s)"
  using assms(2)
proof (cases rule: terminate_visit_cases)
  case waits
  then show ?thesis using is_blocked_task_frame(6) by metis
next
  case (steps s1)
  then show ?thesis using is_blocked_task_frame(6) [OF steps(4)] resume_outside [OF assms(1) steps(5)] by simp
qed simp

lemma terminate_sweep_outside:
  "resettable E \<Longrightarrow> terminate_sweep E ts (s, i, f) = Inr (s', i', f') \<Longrightarrow> outside (st_world s') = outside (st_world s)"
  by (induction ts arbitrary: s i f) (auto elim!: res_bind_Inr_E simp: terminate_visit_outside)

lemma terminate_rounds_outside:
  "resettable E \<Longrightarrow> terminate_rounds n E s i = Inr s' \<Longrightarrow> outside (st_world s') = outside (st_world s)"
  by (induction n arbitrary: s i) (auto elim!: res_bind_Inr_E simp: terminate_sweep_outside split: if_splits)

lemma ResetCurrentRound_outside:
  assumes "resettable E" "ResetCurrentRound E s = Inr s1"
  shows "outside (st_world s1) = outside (st_world s)" "w_state (st_world s1) = env_reset E x"
proof -
  have "outside (st_world s1) = outside (st_world s) \<and> (\<exists>x. w_state (st_world s1) = env_reset E x)"
    using assms(2) terminate_rounds_outside [OF assms(1)]
    by (fastforce simp: ResetCurrentRound_Inr_iff TerminateTasks_Inr_iff outside_def)
  then show "outside (st_world s1) = outside (st_world s)" "w_state (st_world s1) = env_reset E x"
    using assms(1) unfolding resettable_def by metis+
qed

text \<open>The same for the reset of any of the strategies.\<close>

definition resets_world ::
    "('o, 'c, 'v, 'g) runtime_env
      \<Rightarrow> (('o, 'a, 'c, 'v, 'x) base_strategy_scheme \<Rightarrow> ('o, 'a, 'c, 'v, 'x) base_strategy_scheme res) \<Rightarrow> bool" where
  "resets_world E Reset \<longleftrightarrow> (\<forall>s s1. Reset s = Inr s1 \<longrightarrow> outside (st_world s1) = outside (st_world s)
     \<and> (\<forall>x. w_state (st_world s1) = env_reset E x))"

lemma ResetCurrentRound_resets: "resettable E \<Longrightarrow> resets_world E (ResetCurrentRound E)"
  unfolding resets_world_def by (intro allI impI conjI) (rule ResetCurrentRound_outside; assumption)+

lemma UpdateStatistics_world: "st_world (UpdateStatistics E s) = st_world s"
  by (simp add: UpdateStatistics_def PrepareForDepth_def Let_def split_beta)

lemma Pct_ResetCurrentRound_resets:
  assumes "resettable E"
  shows "resets_world E (Pct_ResetCurrentRound E)"
  unfolding resets_world_def
proof (intro allI impI)
  fix s s1 assume "Pct_ResetCurrentRound E s = Inr s1"
  then obtain s2 where "ResetCurrentRound E s = Inr s2" "s1 = UpdateStatistics E s2"
    unfolding Pct_ResetCurrentRound_def by (elim res_bind_Inr_E) simp
  then show "outside (st_world s1) = outside (st_world s) \<and> (\<forall>x. w_state (st_world s1) = env_reset E x)"
    using ResetCurrentRound_outside [OF assms, of s s2] by (simp add: UpdateStatistics_world)
qed

lemma world_eq: "outside w = outside w' \<Longrightarrow> w_state w = w_state w' \<Longrightarrow> w = (w' :: 'o world)"
  by (simp add: outside_def)

context strategy_object
begin

lemma explored_once_replays:
  assumes ok: ok and d: "distinct_ids st"
    and run: "ExploreRound M E (Check_recursive C) 1 st = Inr (Some h, st')"
    and reset: "strategy_methods.ResetRound M st = Inr s1" "strategy_methods.ResetRound M st' = Inr s1'"
      "st_world s1' = st_world s1"
  shows "\<exists>st''. ReplayRound M E (Check_recursive C) (GetTasksOrdering st' (fst h) {}) st' = Inr (Some h, st'')"
proof -
  from run reset(1) have loop: "schedule_loop (env_fuel E) (strategy_methods.NextSchedule M) (\<lambda>_ st. Inr st) E (GetValidTasksCount s1) s1 ([], []) = Inr (st', h)"
    and chk: "Check_recursive C (store st') (snd h) = Inr False"
    by (auto simp: check_round_def elim!: res_bind_Inr_E split: if_splits)
  have eff: "reset_effect st s1" "reset_effect st' s1'" by (rule Reset_effect [OF reset(1)], rule Reset_effect [OF reset(2)])
  have same: "same_tasks st st'"
    using ExploreRound_outcome [OF ok refl refl run, of st] by (simp add: same_tasks_def explore_outcome_def)
  have ag: "agree s1 s1'" by (rule reset_agree [OF eff same reset(3)])
  have d1: "distinct_ids s1" by (rule distinct_ids_idents [OF _ d]) (use eff in \<open>simp add: reset_effect_def\<close>)
  obtain s2' where r: "resume_entries E (map (GetId s1) (fst h)) (s1', {}, [], [])
      = Inr (s2', GetId s1 ` set (invoked (snd h)), h)" "agree st' s2'"
    using explore_loop_replays [OF ok loop _ _ d1 ag] explore_inv_reset [OF eff(1)] by auto
  have i: "explore_inv st' (snd h)" "same_tasks s1 st'" "set (fst h) = set (invoked (snd h))"
    using explore_loop_inv [OF ok loop, of s1] explore_inv_reset [OF eff(1)] by (auto simp: same_tasks_def)
  have inv: "active st' r" if "r \<in> set (invoked (snd h))" for r using i(1) that by (auto simp: explore_inv_def)
  have "GetId s1 r = GetId st' r" if "r \<in> set (fst h)" for r
    using inv [of r] that i GetId_idents [of s1 st' r] by (simp add: same_tasks_def active_def)
  then have ord: "GetTasksOrdering st' (fst h) {} = map (GetId s1) (fst h)" by (simp add: GetTasksOrdering_def)
  have "Check_recursive C (store s2') (snd h) = Inr False"
    using Check_recursive_cong [of "snd h" "store s2'" "store st'" C] inv r(2) chk by (simp add: store_def agree_def)
  then show ?thesis unfolding ReplayRound_resumes ord using reset(2) r(1) by (simp add: check_round_def)
qed

lemma explore_loop_outside:
  assumes ok: ok and E: "resettable E"
    and loop: "schedule_loop fuel (strategy_methods.NextSchedule M) (\<lambda>_ st. Inr st) E todo s k = Inr (s', k')"
    and inv: "explore_inv s (snd k)" "set (fst k) = set (invoked (snd k))"
  shows "outside (st_world s') = outside (st_world s)"
proof -
  let ?I = "\<lambda>u k. (explore_inv u (snd k) \<and> same_tasks s u \<and> set (fst k) = set (invoked (snd k)))
    \<and> outside (st_world u) = outside (st_world s)"
  have "?I s' k' \<and> length (answered (snd k')) = length (answered (snd k)) + todo"
  proof (rule schedule_loop_inv [of ?I, OF _ loop])
    fix u k b u' k'
    assume i: "?I u k" and step: "schedule_step (strategy_methods.NextSchedule M) (\<lambda>_ st. Inr st) E u k = Inr (b, u', k')"
    from step obtain t u1 where n: "strategy_methods.NextSchedule M u = Inr (t, u1)"
      and r: "resume_task E (twm_task t) u1 = Inr u'"
      by (auto simp: schedule_step_def Let_def elim!: res_bind_Inr_E split: if_splits)
    have "schedule_ok u" using i by (simp add: explore_inv_def)
    then have "st_world u1 = st_world u" using NextSchedule_effect [OF ok _ n] by (simp add: next_schedule_effect_def Let_def)
    then show "?I u' k' \<and> length (answered (snd k')) = length (answered (snd k)) + (if b then 1 else 0)"
      using explore_step_inv [OF ok _ step, of s] i resume_outside [OF E r] by simp
  qed (use inv in \<open>simp add: same_tasks_def\<close>)
  then show ?thesis by simp
qed

lemma ExploreRound_last:
  assumes ok: ok and E: "resettable E" "resets_world E (strategy_methods.ResetRound M)"
  shows "ExploreRound M E (Check_recursive C) runs st = Inr (Some h, st') \<Longrightarrow>
    \<exists>s. same_tasks st s \<and> outside (st_world s) = outside (st_world st) \<and> outside (st_world st') = outside (st_world st)
      \<and> ExploreRound M E (Check_recursive C) 1 s = Inr (Some h, st')"
proof (induction runs arbitrary: st)
  case (Suc runs)
  from Suc.prems obtain s1 s2 k r where reset: "strategy_methods.ResetRound M st = Inr s1"
    and loop: "schedule_loop (env_fuel E) (strategy_methods.NextSchedule M) (\<lambda>_ st. Inr st) E (GetValidTasksCount s1) s1 ([], []) = Inr (s2, k)"
    and chk: "check_round (Check_recursive C) s2 k = Inr r"
    and rest: "(case r of Some h \<Rightarrow> Inr (Some h, s2) | None \<Rightarrow> ExploreRound M E (Check_recursive C) runs s2)
      = (Inr (Some h, st') :: _ res)"
    by (auto elim!: res_bind_Inr_E)
  have eff: "reset_effect st s1" by (rule Reset_effect [OF reset])
  have inv: "explore_inv s1 []" by (rule explore_inv_reset [OF eff])
  have same: "same_tasks st s2"
    using explore_loop_inv [OF ok loop, of st] inv eff by (simp add: reset_effect_def same_tasks_def)
  have out: "outside (st_world s2) = outside (st_world st)"
    using explore_loop_outside [OF ok E(1) loop] inv E(2) reset unfolding resets_world_def by simp
  show ?case
  proof (cases r)
    case None
    with rest Suc.IH [of s2] same out show ?thesis by (auto simp: same_tasks_def)
  next
    case (Some h')
    with rest have "h' = h" "st' = s2" by auto
    then have "ExploreRound M E (Check_recursive C) 1 st = Inr (Some h, st')"
      using reset loop chk Some by simp
    then show ?thesis using out \<open>st' = s2\<close> by (intro exI [of _ st]) (simp add: same_tasks_def)
  qed
qed simp

lemma explored_replays:
  assumes ok: ok and E: "resettable E" "resets_world E (strategy_methods.ResetRound M)" and d: "distinct_ids st"
    and run: "ExploreRound M E (Check_recursive C) runs st = Inr (Some h, st')"
    and reset: "strategy_methods.ResetRound M st' = Inr s1'"
  shows "\<exists>st''. ReplayRound M E (Check_recursive C) (GetTasksOrdering st' (fst h) {}) st' = Inr (Some h, st'')"
proof -
  obtain s where s: "same_tasks st s" "outside (st_world s) = outside (st_world st)" "outside (st_world st') = outside (st_world st)"
    "ExploreRound M E (Check_recursive C) 1 s = Inr (Some h, st')" using ExploreRound_last [OF ok E run] by blast
  then obtain s1 where s1: "strategy_methods.ResetRound M s = Inr s1" by (auto elim!: res_bind_Inr_E)
  have "distinct_ids s" by (rule distinct_ids_idents [OF _ d]) (use s(1) in \<open>simp add: same_tasks_def\<close>)
  moreover have "st_world s1' = st_world s1"
    using E(2) s1 reset s(2,3) unfolding resets_world_def by (intro world_eq) metis+
  ultimately show ?thesis using explored_once_replays [OF ok _ s(4) s1 reset] by blast
qed

end

lemma methods_reset:
  assumes "resettable E"
  shows "resets_world E (ResetRound (RR_methods E))" "resets_world E (ResetRound (Random_methods E))"
    "resets_world E (ResetRound (Pct_methods E))"
  by (simp_all add: RR_methods_def Random_methods_def Pct_methods_def ResetCurrentRound_resets [OF assms]
      Pct_ResetCurrentRound_resets [OF assms])

lemma methods_ResetRound [simp]:
  "ResetRound (RR_methods E) = ResetCurrentRound E" "ResetRound (Random_methods E) = ResetCurrentRound E"
  "ResetRound (Pct_methods E) = Pct_ResetCurrentRound E"
  by (simp_all add: RR_methods_def Random_methods_def Pct_methods_def)

section \<open>Properties\<close>

text \<open>
  C10. Replays are faithful. For a target whose reset restores its initial state, the history that
  an exploration found, replayed in the order of its task ids, is found again, event for event,
  and refused again; only the reset that the replay starts with has to succeed.
\<close>

theorem explored_history_replays:
  assumes "random_ok (env_random E)" "resettable E"
  shows "(distinct_ids st \<and> ExploreRound (RR_methods E) E (Check_recursive C) runs st = Inr (Some h, st')
        \<and> ResetCurrentRound E st' = Inr s1
        \<longrightarrow> (\<exists>st''. ReplayRound (RR_methods E) E (Check_recursive C) (GetTasksOrdering st' (fst h) {}) st' = Inr (Some h, st'')))
    \<and> (distinct_ids sr \<and> ExploreRound (Random_methods E) E (Check_recursive C) runs sr = Inr (Some h, sr')
        \<and> ResetCurrentRound E sr' = Inr sr1
        \<longrightarrow> (\<exists>sr''. ReplayRound (Random_methods E) E (Check_recursive C) (GetTasksOrdering sr' (fst h) {}) sr' = Inr (Some h, sr'')))
    \<and> (distinct_ids sp \<and> ExploreRound (Pct_methods E) E (Check_recursive C) runs sp = Inr (Some h, sp')
        \<and> Pct_ResetCurrentRound E sp' = Inr sp1
        \<longrightarrow> (\<exists>sp''. ReplayRound (Pct_methods E) E (Check_recursive C) (GetTasksOrdering sp' (fst h) {}) sp' = Inr (Some h, sp'')))"
  using rr_object.explored_replays [OF assms methods_reset(1) [OF assms(2)], of st C runs h st' s1]
    random_object.explored_replays [OF assms methods_reset(2) [OF assms(2)], of sr C runs h sr' sr1]
    pct_object.explored_replays [OF TrueI assms(2) methods_reset(3) [OF assms(2)], of sp C runs h sp' sp1]
  by simp

lemma sample_resettable: "resettable sample_env"
  by (simp add: resettable_def sample_env_def sample_body_def outside_def)

lemma sample_resets_after:
  "case ExploreRound (RR_methods sample_env) sample_env (Check_recursive Register_checker) 1 replay_rr of
     Inl _ \<Rightarrow> False | Inr (res, st) \<Rightarrow> map_option fst res \<noteq> None \<and> \<not> isl (ResetCurrentRound sample_env st)"
  by code_simp

theorem explored_history_replays_witness:
  "\<exists>h st' st''. ExploreRound (RR_methods sample_env) sample_env (Check_recursive Register_checker) 1 replay_rr = Inr (Some h, st')
     \<and> ReplayRound (RR_methods sample_env) sample_env (Check_recursive Register_checker) (GetTasksOrdering st' (fst h) {}) st'
       = Inr (Some h, st'')"
proof -
  from sample_resets_after obtain res st' where
    r: "ExploreRound (RR_methods sample_env) sample_env (Check_recursive Register_checker) 1 replay_rr = Inr (res, st')"
    and p: "map_option fst res \<noteq> None \<and> \<not> isl (ResetCurrentRound sample_env st')" by (rule res_case_E)
  then obtain h s1 where "res = Some h" "ResetCurrentRound sample_env st' = Inr s1" by (cases res; cases "ResetCurrentRound sample_env st'") auto
  with explored_history_replays [OF sample_env_random sample_resettable, of replay_rr Register_checker 1 h st' s1] r replay_rr_distinct
  show ?thesis by blast
qed

end
