(* ===== verification/Scheduler_Run.thy ===== *)
theory Scheduler_Run
  imports Smart_Minimization Replay_Faithful
begin

text \<open>
  Model of \<open>StrategyScheduler::Run\<close> (\<open>runtime/include/scheduler.h\<close>): rounds until the checker
  refuses a history, which is then passed through the three minimizors. Printing to the log is
  left out.
\<close>

declare split_paired_All [simp del] split_paired_Ex [simp del]

section \<open>The main loop\<close>

record scheduler_params =
  max_tasks :: nat
  should_minimize_history :: bool
  sp_exploration_runs :: nat
  sp_minimization_runs :: nat

definition Minimize_all ::
    "('o, 'a, 'c, 'v, 'x) strategy_methods \<Rightarrow> ('o, 'c, 'v, 'g) runtime_env \<Rightarrow> ('a, 'c) check \<Rightarrow> rounding
      \<Rightarrow> 'h smart_random \<Rightarrow> 'h \<Rightarrow> scheduler_params \<Rightarrow> ('o, 'a, 'c, 'v, 'x) base_strategy_scheme \<times> both_histories
      \<Rightarrow> (('o, 'a, 'c, 'v, 'x) base_strategy_scheme \<times> both_histories) res" where
  "Minimize_all M E Check F R g P s =
     res_bind (SameInterleavingMinimizor M E Check s) (\<lambda>s.
     res_bind (StrategyExplorationMinimizor M E Check (sp_exploration_runs P) s) (\<lambda>s.
     Smart_Minimize M E Check F R (default_params (sp_exploration_runs P) (sp_minimization_runs P)) g
       initial_mutations_count s))"

fun Run ::
    "('o, 'a, 'c, 'v, 'x) strategy_methods \<Rightarrow> ('o, 'c, 'v, 'g) runtime_env \<Rightarrow> ('a, 'c) check \<Rightarrow> rounding
      \<Rightarrow> 'h smart_random \<Rightarrow> 'h \<Rightarrow> scheduler_params \<Rightarrow> nat \<Rightarrow> ('o, 'a, 'c, 'v, 'x) base_strategy_scheme
      \<Rightarrow> (both_histories option \<times> ('o, 'a, 'c, 'v, 'x) base_strategy_scheme) res" where
  "Run M E Check F R g P 0 st = Inr (None, st)"
| "Run M E Check F R g P (Suc rounds) st =
     res_bind (RunRound M E Check (max_tasks P) st) (\<lambda>(histories, st).
     case histories of
       Some h \<Rightarrow>
         if should_minimize_history P
         then res_bind (Minimize_all M E Check F R g P (st, h)) (\<lambda>(st, h). Inr (Some h, st))
         else Inr (Some h, st)
     | None \<Rightarrow> res_bind (StartNextRound M st) (\<lambda>st. Run M E Check F R g P rounds st))"

section \<open>Task ids of a round\<close>

text \<open>Ids are drawn from a counter, so that they are distinct.\<close>

definition fresh_ids :: "('o, 'a, 'c, 'v, 'x) base_strategy_scheme \<Rightarrow> bool" where
  "fresh_ids st \<longleftrightarrow> distinct_ids st \<and> (\<forall>r. valid_slot st r \<longrightarrow> GetId st r < new_task_id st)"

lemma fresh_ids_Next:
  assumes f: "fresh_ids st" and e: "next_effect E st t st'"
  shows "fresh_ids st' \<and> removed_tasks st' = removed_tasks st"
proof -
  note sl = next_effect_slots [OF e]
  have old: "GetId st' r = GetId st r" if "valid_slot st r" for r
    using arg_cong [OF sl(5) [OF that], of co_id] by (simp add: GetId_def store_def)
  have new: "GetId st' (twm_task t) = new_task_id st \<and> new_task_id st' = new_task_id st + 1" if n: "twm_is_new t"
  proof -
    obtain th i where t: "twm_task t = (th, i)" by fastforce
    from e n t obtain c where c: "co_id c = new_task_id st" "i = length (threads st ! th)" "th < length (threads st)"
        "tasks_view st' = (tasks_view st)[th := tasks_view st ! th @ [c]]" "new_task_id st' = new_task_id st + 1"
      by (auto simp: next_effect_def Let_def)
    have len: "length (threads st') = length (threads st)"
      using arg_cong [OF c(4), of length] by (simp add: tasks_view_def)
    have m: "map drop_futex (threads st' ! th) = map drop_futex (threads st ! th) @ [c]"
      using arg_cong [OF c(4), of "\<lambda>x. x ! th"] c(3) len by (simp add: tasks_view_def)
    have "drop_futex (threads st' ! th ! i) = c"
      using arg_cong [OF m, of "\<lambda>x. x ! i"] arg_cong [OF m, of length] c(2) by (simp add: nth_append)
    then have "co_id (threads st' ! th ! i) = new_task_id st" using c(1) by (metis drop_futex_sel(3))
    then show ?thesis using c(5) t by (simp add: GetId_def store_def)
  qed
  have keep: "new_task_id st' = new_task_id st" if "\<not> twm_is_new t" using e that by (auto simp: next_effect_def Let_def)
  have less: "GetId st' r < new_task_id st'" if v: "valid_slot st' r" for r
    using v sl(2) [of r] old [of r] new keep f by (cases "valid_slot st r"; cases "twm_is_new t") (auto simp: fresh_ids_def)
  have "r = r'" if v: "valid_slot st' r" "valid_slot st' r'" and eq: "GetId st' r = GetId st' r'" for r r'
  proof (cases "valid_slot st r \<and> valid_slot st r'")
    case True
    then show ?thesis using eq old f unfolding fresh_ids_def distinct_ids_def by metis
  next
    case False
    then have n: "twm_is_new t" using v sl(2) by metis
    have "q = twm_task t \<or> GetId st' q < new_task_id st" if "valid_slot st' q" for q
      using that sl(2) [of q] old [of q] f by (auto simp: fresh_ids_def)
    then show ?thesis using v eq new [OF n] False sl(2) by (metis less_irrefl)
  qed
  then show ?thesis using less e unfolding fresh_ids_def distinct_ids_def by (simp add: next_effect_def Let_def)
qed

lemma fresh_ids_idents:
  "idents st' = idents st \<Longrightarrow> new_task_id st' = new_task_id st \<Longrightarrow> fresh_ids st \<Longrightarrow> fresh_ids st'"
  using distinct_ids_idents [of st' st] GetId_idents [of st' st] idents_shape(3) [of st' st]
  unfolding fresh_ids_def by metis

lemma empty_fresh_ids:
  assumes "\<forall>th \<in> set (threads st). th = []"
  shows "fresh_ids st"
proof -
  have "\<not> valid_slot st r" for r
    using assms by (metis length_0_conv not_less_zero nth_mem valid_slot_def)
  then show ?thesis by (simp add: fresh_ids_def distinct_ids_def)
qed

section \<open>Rounds give counterexamples\<close>

context scheduling_strategy
begin

lemma run_loop_fresh:
  assumes ok: ok and loop: "schedule_loop fuel Next (OnVerifierTaskFinish E) E todo st h = Inr (st', h')"
    and inv: "run_inv st (snd h)" "fresh_ids st" "set (fst h) = set (invoked (snd h))"
  shows "run_inv st' (snd h') \<and> fresh_ids st' \<and> set (fst h') = set (invoked (snd h')) \<and> removed_tasks st' = removed_tasks st"
proof -
  let ?I = "\<lambda>s k. run_inv s (snd k) \<and> fresh_ids s \<and> set (fst k) = set (invoked (snd k)) \<and> removed_tasks s = removed_tasks st"
  have "?I st' h' \<and> length (answered (snd h')) = length (answered (snd h)) + todo"
  proof (rule schedule_loop_inv [of ?I, OF _ loop])
    fix s k b s' k'
    assume i: "?I s k" and step: "schedule_step Next (OnVerifierTaskFinish E) E s k = Inr (b, s', k')"
    from step obtain t s1 where n: "Next s = Inr (t, s1)" by (auto simp: schedule_step_def elim!: res_bind_Inr_E)
    note eff = Next_effect [OF ok n] and nt = Next_task [OF ok n]
    note ri = run_inv_Next [OF conjunct1 [OF i] eff]
    have fin: "threads u' = threads u" if "OnVerifierTaskFinish E t u = Inr u'"
      for u u' :: "('o, 'a, 'c, 'v, 'x) base_strategy_scheme"
      using OnVerifierTaskFinish_threads [OF that] by auto
    have r: "fst (twm_task t) = twm_thread_id t" "valid_slot s1 (twm_task t)"
      "\<not> co_is_returned (task_at s1 (twm_task t))" using nt by auto
    note rec = schedule_step_records [OF step n r ri(1,2) fin]
    from rec(7) obtain s2 where s2: "resume_task E (twm_task t) s1 = Inr s2"
      "if b then OnVerifierTaskFinish E t s2 = Inr s' else s' = s2" by blast
    have "idents s' = idents s2 \<and> new_task_id s' = new_task_id s2 \<and> removed_tasks s' = removed_tasks s2"
      using s2(2) OnVerifierTaskFinish_threads [of E t s2 s'] by (cases b) (auto simp: idents_def)
    then have fr: "idents s' = idents s1" "new_task_id s' = new_task_id s1" "removed_tasks s' = removed_tasks s1"
      using resume_task_frame(1-3) [OF s2(1)] by auto
    have "fresh_ids s1 \<and> removed_tasks s1 = removed_tasks s" using fresh_ids_Next [OF _ eff] i by simp
    then have "fresh_ids s'" "removed_tasks s' = removed_tasks st" using fresh_ids_idents [OF fr(1,2)] fr(3) i by auto
    then show "?I s' k' \<and> length (answered (snd k')) = length (answered (snd k)) + (if b then 1 else 0)"
      using run_step_inv [OF ok conjunct1 [OF i] step] rec(2,3) i by simp
  qed (use inv in simp)
  then show ?thesis by simp
qed

lemma RunRound_removed:
  assumes ok: ok and fresh: "\<forall>th \<in> set (threads st). th = []"
    and run: "RunRound M E Check n st = Inr (res, st')" and M: "strategy_methods.Next M = Next"
  shows "removed_tasks st' = removed_tasks st"
proof -
  from run M obtain h where l: "schedule_loop (env_fuel E) Next (OnVerifierTaskFinish E) E n st ([], []) = Inr (st', h)"
    by (auto simp: RunRound_def elim!: res_bind_Inr_E)
  show ?thesis using run_loop_fresh [OF ok l] run_inv_fresh [OF fresh] empty_fresh_ids [OF fresh] by simp
qed

lemma RunRound_counterexample:
  assumes ok: ok and fresh: "\<forall>th \<in> set (threads st). th = []" "removed_tasks st = {}"
    and run: "RunRound M E (Check_recursive C) n st = Inr (Some h, st')" and M: "strategy_methods.Next M = Next"
  shows "counterexample C st' h \<and> refuted C st' h \<and> distinct_ids st' \<and> removed_tasks st' = {}"
proof -
  from run M have l: "schedule_loop (env_fuel E) Next (OnVerifierTaskFinish E) E n st ([], []) = Inr (st', h)"
    and c: "Check_recursive C (store st') (snd h) = Inr False"
    by (auto simp: RunRound_def check_round_def elim!: res_bind_Inr_E split: if_splits)
  from run_loop_fresh [OF ok l] run_inv_fresh [OF fresh(1)] fresh(2) empty_fresh_ids [OF fresh(1)]
  have i: "run_inv st' (snd h)" "fresh_ids st'" "set (fst h) = set (invoked (snd h))" "removed_tasks st' = {}" by auto
  have "refuted C st' h" using i c by (simp add: refuted_def run_inv_def)
  with this show ?thesis using i by (auto simp: counterexample_def run_inv_def active_iff fresh_ids_def)
qed

end

section \<open>The contract of a strategy for Run\<close>

locale round_strategy = strategy_object E M ok
  for E :: "('o, 'c, 'v, 'g) runtime_env" and M :: "('o, 'a, 'c, 'v, 'x) strategy_methods" and ok :: bool +
  assumes Start_effect: "strategy_methods.StartNextRound M st = Inr st'
    \<Longrightarrow> (\<forall>th \<in> set (threads st'). th = []) \<and> removed_tasks st' = removed_tasks st"
begin

lemma Minimize_all_keeps:
  assumes ok: ok and d: "distinct_ids st" and c: "counterexample C st h"
    and m: "Minimize_all M E (Check_recursive C) F R g P (st, h) = Inr (st', h')"
  shows "counterexample C st' h' \<and> refuted C st' h' \<and> idents st' = idents st \<and> (\<forall>r. active st' r \<longrightarrow> active st r)"
proof -
  from m obtain s1 h1 s2 h2 where m1: "SameInterleavingMinimizor M E (Check_recursive C) (st, h) = Inr (s1, h1)"
    and m2: "StrategyExplorationMinimizor M E (Check_recursive C) (sp_exploration_runs P) (s1, h1) = Inr (s2, h2)"
    and m3: "Smart_Minimize M E (Check_recursive C) F R (default_params (sp_exploration_runs P) (sp_minimization_runs P)) g
      initial_mutations_count (s2, h2) = Inr (st', h')"
    by (auto simp: Minimize_all_def elim!: res_bind_Inr_E)
  have i1: "shrinks st s1" "counterexample C s1 h1"
    using Same_Minimize_keeps [OF m1 [unfolded SameInterleavingMinimizor_def] d c] by auto
  then have d1: "distinct_ids s1" using distinct_ids_idents [of s1 st, OF _ d] by (simp add: shrinks_def)
  have i2: "shrinks s1 s2" "counterexample C s2 h2"
    using Explore_Minimize_keeps [OF ok m2 [unfolded StrategyExplorationMinimizor_def] d1 i1(2)] by auto
  then have d2: "distinct_ids s2" using distinct_ids_idents [of s2 s1, OF _ d1] by (simp add: shrinks_def)
  have sh: "shrinks st s2" by (rule shrinks_trans [OF i1(1) i2(1)])
  have "active s2 r \<longrightarrow> active st r" for r
    using sh active_idents [of s2 st r] by (auto simp: shrinks_def active_iff)
  with Smart_Minimize_ok [OF ok d2 i2(2) m3] sh show ?thesis by (simp add: shrinks_def)
qed

lemma Run_counterexample:
  assumes ok: ok
  shows "Run M E (Check_recursive C) F R g P n st = Inr (Some h, st') \<Longrightarrow> \<forall>th \<in> set (threads st). th = []
    \<Longrightarrow> removed_tasks st = {} \<Longrightarrow> counterexample C st' h \<and> refuted C st' h"
proof (induction n arbitrary: st)
  case (Suc n)
  from Suc.prems(1) obtain res s1 where r: "RunRound M E (Check_recursive C) (max_tasks P) st = Inr (res, s1)"
    and rest: "(case res of Some h \<Rightarrow> if should_minimize_history P
         then res_bind (Minimize_all M E (Check_recursive C) F R g P (s1, h)) (\<lambda>(st, h). Inr (Some h, st))
         else Inr (Some h, s1)
      | None \<Rightarrow> res_bind (strategy_methods.StartNextRound M s1) (\<lambda>st. Run M E (Check_recursive C) F R g P n st))
      = (Inr (Some h, st') :: _ res)"
    by (auto elim!: res_bind_Inr_E)
  show ?case
  proof (cases res)
    case None
    with rest obtain s2 where s2: "strategy_methods.StartNextRound M s1 = Inr s2"
      "Run M E (Check_recursive C) F R g P n s2 = Inr (Some h, st')" by (auto elim!: res_bind_Inr_E)
    have "removed_tasks s1 = {}" using RunRound_removed [OF ok Suc.prems(2) r refl] Suc.prems(3) by simp
    with Start_effect [OF s2(1)] Suc.IH [OF s2(2)] show ?thesis by simp
  next
    case (Some h1)
    have c: "counterexample C s1 h1" "distinct_ids s1" "refuted C s1 h1"
      using RunRound_counterexample [OF ok Suc.prems(2,3) _ refl, of C "max_tasks P" h1 s1] r Some by auto
    show ?thesis
    proof (cases "should_minimize_history P")
      case True
      with rest Some have "Minimize_all M E (Check_recursive C) F R g P (s1, h1) = Inr (st', h)"
        by (auto elim!: res_bind_Inr_E)
      from Minimize_all_keeps [OF ok c(2,1) this] show ?thesis by simp
    next
      case False
      with rest Some c show ?thesis by simp
    qed
  qed
qed simp

end

lemma Pick_StartNextRound_effect:
  assumes "Pick_StartNextRound E st = Inr st'"
  shows "(\<forall>th \<in> set (threads st'). th = []) \<and> removed_tasks st' = removed_tasks st"
proof -
  from assms obtain s1 where t: "TerminateTasks E (st\<lparr>new_task_id := 0\<rparr>) = Inr s1"
    and e: "st' = s1\<lparr>threads := map (\<lambda>_. []) (threads s1)\<rparr>" by (auto simp: Pick_StartNextRound_def elim!: res_bind_Inr_E)
  show ?thesis using TerminateTasks_inv [OF t, of True] by (auto simp: e)
qed

lemma Pct_StartNextRound_effect:
  assumes "Pct_StartNextRound E st = Inr st'"
  shows "(\<forall>th \<in> set (threads st'). th = []) \<and> removed_tasks st' = removed_tasks st"
proof -
  from assms obtain s1 where t: "TerminateTasks E (st\<lparr>new_task_id := 0\<rparr>) = Inr s1"
    and e: "st' = UpdateStatistics E (s1\<lparr>threads := map (\<lambda>_. []) (threads s1)\<rparr>)"
    by (auto simp: Pct_StartNextRound_def elim!: res_bind_Inr_E)
  show ?thesis using TerminateTasks_inv [OF t, of True] by (auto simp: e UpdateStatistics_frame)
qed

interpretation rr_round: round_strategy E "RR_methods E" "random_ok (env_random E)" for E :: "('o, 'c, 'v, 'g) runtime_env"
  by unfold_locales (rule Pick_StartNextRound_effect, simp add: RR_methods_def)

interpretation random_round: round_strategy E "Random_methods E" "random_ok (env_random E)" for E :: "('o, 'c, 'v, 'g) runtime_env"
  by unfold_locales (rule Pick_StartNextRound_effect, simp add: Random_methods_def)

interpretation pct_round: round_strategy E "Pct_methods E" True for E :: "('o, 'c, 'v, 'g) runtime_env"
  by unfold_locales (rule Pct_StartNextRound_effect, simp add: Pct_methods_def)

section \<open>Samples\<close>

text \<open>A run without and one with minimization.\<close>

definition plain_params :: scheduler_params where
  "plain_params = \<lparr>max_tasks = 2, should_minimize_history = False, sp_exploration_runs = 1, sp_minimization_runs = 0\<rparr>"

definition minimizing_params :: scheduler_params where
  "minimizing_params = plain_params\<lparr>should_minimize_history := True\<rparr>"

definition sample_Run :: "scheduler_params \<Rightarrow> (both_histories option \<times> (int, int, nat, unit, unit) rr) res" where
  "sample_Run P = Run (RR_methods sample_env) sample_env (Check_recursive Register_checker) exact sample_smart () P 3 sample_rr"

lemma sample_Run_finds:
  "case sample_Run plain_params of Inl _ \<Rightarrow> False | Inr (res, st) \<Rightarrow> map_option (length \<circ> snd) res = Some 4"
  "case sample_Run minimizing_params of Inl _ \<Rightarrow> False | Inr (res, st) \<Rightarrow> map_option (length \<circ> snd) res = Some 2"
  by code_simp+

section \<open>Properties\<close>

text \<open>
  C6. What the tool reports is a counterexample, with each of the three strategies and with or
  without the three minimizors: the reported history was refused by the checker in a state of
  the last round, agrees with its tasks, and its tasks are those that the minimizors left.
\<close>

theorem Run_reports_counterexample:
  assumes "random_ok (env_random E)"
  shows "((\<forall>th \<in> set (threads st). th = []) \<and> removed_tasks st = {}
      \<and> Run (RR_methods E) E (Check_recursive C) F R g P n st = Inr (Some h, st') \<longrightarrow> counterexample C st' h)
    \<and> ((\<forall>th \<in> set (threads sr). th = []) \<and> removed_tasks sr = {}
      \<and> Run (Random_methods E) E (Check_recursive C) F R g P n sr = Inr (Some h, sr') \<longrightarrow> counterexample C sr' h)
    \<and> ((\<forall>th \<in> set (threads sp). th = []) \<and> removed_tasks sp = {}
      \<and> Run (Pct_methods E) E (Check_recursive C) F R g P n sp = Inr (Some h, sp') \<longrightarrow> counterexample C sp' h)"
  using rr_round.Run_counterexample [OF assms, of C F R g P n st h st']
    random_round.Run_counterexample [OF assms, of C F R g P n sr h sr']
    pct_round.Run_counterexample [OF TrueI, of E C F R g P n sp h sp'] by blast

theorem Run_reports_counterexample_witness:
  "\<exists>h st'. sample_Run minimizing_params = Inr (Some h, st') \<and> counterexample Register_checker st' h \<and> length (snd h) = 2"
proof -
  from sample_Run_finds(2) obtain res st' where r: "sample_Run minimizing_params = Inr (res, st')"
    and p: "map_option (length \<circ> snd) res = Some 2" by (rule res_case_E)
  then obtain h where h: "res = Some h" "length (snd h) = 2" by (cases res) auto
  have "(\<forall>th \<in> set (threads sample_rr). th = []) \<and> removed_tasks sample_rr = {}" by (simp add: sample_rr_eq)
  with Run_reports_counterexample [OF sample_env_random, of sample_rr Register_checker exact sample_smart "()"
      minimizing_params 3 h st'] r h
  have "counterexample Register_checker st' h" unfolding sample_Run_def by blast
  with r h show ?thesis by simp
qed

end
