(* ===== verification/Tla_Scheduler.thy ===== *)
theory Tla_Scheduler
  imports Strategy_Scheduler
begin

text \<open>
  Model of \<open>TLAScheduler\<close> of \<open>runtime/include/scheduler.h\<close>, which enumerates the executions of
  a bounded number of tasks depth first. A coroutine cannot go back, so the scheduler leaves a
  branch by terminating all tasks, resetting the target and replaying the frames of the current
  path.

  The state is a record of the fields of the class; a \<open>Frame\<close> holds the position of its task.
  \<open>ResumeTask\<close> and \<open>RunStep\<close> call each other: \<open>Tla_ResumeTask\<close> takes the recursive call as the
  argument \<open>rec\<close>, and the recursion of \<open>Tla_RunStep\<close> is bounded by fuel, as the source does not
  bound the number of steps of a path.
\<close>

section \<open>State and parameters\<close>

record frame =
  fr_task :: "slot option"
  fr_is_new :: bool

type_synonym full_history_with_threads = "(nat \<times> (slot + coroutine_status)) list"

record ('o, 'a, 'c, 'v) tla_state =
  started_tasks :: nat
  finished_tasks :: nat
  finished_rounds :: nat
  tla_world :: "'o world"
  tla_seq :: seq_history
  tla_full :: full_history_with_threads
  thread_id_history :: "nat list"
  tla_threads :: "('a, 'c) coro list list"
  tla_frames :: "frame list"
  tla_verifier :: 'v

record ('o, 'a, 'c) tla_params =
  tla_max_tasks :: nat
  tla_max_rounds :: nat
  tla_max_switches :: nat
  tla_max_depth :: nat
  tla_constructors :: "('o, 'a, 'c) task_builder list"
  tla_check :: "('a, 'c) check"
  tla_cancel :: "'o world \<Rightarrow> 'o world"

type_synonym tla_result = "bool \<times> both_histories option"

definition TLAScheduler :: "nat \<Rightarrow> 'o world \<Rightarrow> 'v \<Rightarrow> ('o, 'a, 'c, 'v) tla_state" where
  "TLAScheduler n_threads w v =
     \<lparr>started_tasks = 0, finished_tasks = 0, finished_rounds = 0, tla_world = w, tla_seq = [],
      tla_full = [], thread_id_history = [], tla_threads = replicate n_threads [],
      tla_frames = [], tla_verifier = v\<rparr>"

definition tla_get :: "('a, 'c) coro list list \<Rightarrow> slot \<Rightarrow> ('a, 'c) coro res" where
  "tla_get ths r = res_bind (vec_get ths (fst r)) (\<lambda>thread. vec_get thread (snd r))"

definition tla_set :: "slot \<Rightarrow> ('a, 'c) coro \<Rightarrow> ('a, 'c) coro list list \<Rightarrow> ('a, 'c) coro list list" where
  "tla_set r c ths = ths[fst r := (ths ! fst r)[snd r := c]]"

definition tla_store :: "('a, 'c) coro list list \<Rightarrow> slot \<Rightarrow> ('a, 'c) coro" where
  "tla_store ths r = ths ! fst r ! snd r"

section \<open>Terminating and replaying\<close>

fun tla_terminate_thread ::
    "('o, 'c) body \<Rightarrow> 'o world \<Rightarrow> ('a, 'c) coro list \<Rightarrow> ('o world \<times> ('a, 'c) coro list) res" where
  "tla_terminate_thread body w [] = Inr (w, [])"
| "tla_terminate_thread body w (c # cs) =
     res_bind (if \<not> co_is_returned c then Terminate body w c else Inr (w, c)) (\<lambda>(w, c).
     res_bind (tla_terminate_thread body w cs) (\<lambda>(w, cs). Inr (w, c # cs)))"

fun tla_terminate_threads ::
    "('o, 'c) body \<Rightarrow> 'o world \<Rightarrow> ('a, 'c) coro list list
      \<Rightarrow> ('o world \<times> ('a, 'c) coro list list) res" where
  "tla_terminate_threads body w [] = Inr (w, [])"
| "tla_terminate_threads body w (th # ths) =
     res_bind (tla_terminate_thread body w th) (\<lambda>(w, th).
     res_bind (tla_terminate_threads body w ths) (\<lambda>(w, ths). Inr (w, th # ths)))"

definition Tla_TerminateTasks ::
    "('o, 'a, 'c) tla_params \<Rightarrow> ('o, 'c, 'v, 'g) runtime_env \<Rightarrow> ('o, 'a, 'c, 'v) tla_state
      \<Rightarrow> ('o, 'a, 'c, 'v) tla_state res" where
  "Tla_TerminateTasks P E st =
     res_bind (tla_terminate_threads (env_body E) (tla_cancel P (tla_world st)) (tla_threads st))
       (\<lambda>(w, ths). Inr (st\<lparr>tla_world := w, tla_threads := ths\<rparr>))"

text \<open>One frame of the loop of \<open>Replay\<close>, and the loop.\<close>

definition replay_frame ::
    "('o, 'c) body \<Rightarrow> frame \<Rightarrow> ('a, 'c) coro list list \<times> 'o world
      \<Rightarrow> (('a, 'c) coro list list \<times> 'o world) res" where
  "replay_frame body fr s = (case s of (ths, w) \<Rightarrow>
     case fr_task fr of
       None \<Rightarrow> Inl (Assert_Failed ''task'')
     | Some r \<Rightarrow>
         res_bind (tla_get ths r) (\<lambda>c.
         res_bind (if fr_is_new fr then Coro_Restart c else Inr c) (\<lambda>c.
         res_bind (Resume body w c) (\<lambda>(w, c). Inr (tla_set r c ths, w)))))"

fun replay_frames ::
    "('o, 'c) body \<Rightarrow> frame list \<Rightarrow> ('a, 'c) coro list list \<times> 'o world
      \<Rightarrow> (('a, 'c) coro list list \<times> 'o world) res" where
  "replay_frames body [] s = Inr s"
| "replay_frames body (fr # frs) s = res_bind (replay_frame body fr s) (replay_frames body frs)"

definition Tla_Replay ::
    "('o, 'a, 'c) tla_params \<Rightarrow> ('o, 'c, 'v, 'g) runtime_env \<Rightarrow> nat \<Rightarrow> ('o, 'a, 'c, 'v) tla_state
      \<Rightarrow> ('o, 'a, 'c, 'v) tla_state res" where
  "Tla_Replay P E step_end st =
     res_bind (Tla_TerminateTasks P E st) (\<lambda>st.
     res_bind (cxx_assert ''frames[step]'' (step_end \<le> length (tla_frames st))) (\<lambda>_.
     res_bind (replay_frames (env_body E) (take step_end (tla_frames st))
         (tla_threads st, (tla_world st)\<lparr>w_state := env_reset E (w_state (tla_world st))\<rparr>))
       (\<lambda>(ths, w). Inr (st\<lparr>tla_threads := ths, tla_world := w\<lparr>w_status := None\<rparr>\<rparr>))))"

section \<open>Histories\<close>

definition UpdateFullHistory ::
    "('o, 'c, 'v, 'g) runtime_env \<Rightarrow> nat \<Rightarrow> slot \<Rightarrow> string \<Rightarrow> bool \<Rightarrow> ('o, 'a, 'c, 'v) tla_state
      \<Rightarrow> ('o, 'a, 'c, 'v) tla_state res" where
  "UpdateFullHistory E tid task name is_new st =
     (case w_status (tla_world st) of
        Some cs \<Rightarrow>
          res_bind (cxx_assert ''coroutine_status->has_started'' (is_new \<longrightarrow> cs_has_started cs)) (\<lambda>_.
          Inr (st\<lparr>tla_full := tla_full st @ (if is_new then [(tid, Inl task)] else [])
                                @ [(tid, Inr cs)],
                  tla_verifier := UpdateState (env_verifier E) (cs_name cs) tid
                                    (cs_has_started cs) (tla_verifier st),
                  tla_world := (tla_world st)\<lparr>w_status := None\<rparr>\<rparr>))
      | None \<Rightarrow>
          Inr (st\<lparr>tla_full := tla_full st @ [(tid, Inl task)],
                  tla_verifier := UpdateState (env_verifier E) name tid is_new
                                    (tla_verifier st)\<rparr>))"

text \<open>
  The removal of the last step from the full history. Two entries go when the last one is the
  start of a coroutine and the one before it is the first entry of the same thread. The source
  takes a reference to the entry before the last one even if there is none.
\<close>

definition undo_full_history :: "full_history_with_threads \<Rightarrow> full_history_with_threads res" where
  "undo_full_history h =
     (if h = [] then Inl Out_Of_Range
      else case snd (last h) of
        Inl _ \<Rightarrow> Inr (butlast h)
      | Inr cor \<Rightarrow>
          if length h = 1 then Inl Out_Of_Range else
          let first_ind = length (takeWhile (\<lambda>a. fst a \<noteq> fst (last h)) (butlast h)) in
          if cs_has_started cor \<and> first_ind + 2 = length h \<and> isl (snd (h ! (length h - 2)))
          then Inr (butlast (butlast h)) else Inr (butlast h))"

section \<open>Resuming a task\<close>

text \<open>
  The test whether the thread differs from the previous one, which is the largest \<open>size_t\<close>
  when the history is empty.
\<close>

definition is_switch :: "nat \<Rightarrow> nat list \<Rightarrow> bool" where
  "is_switch tid h \<longleftrightarrow> tid \<noteq> (if h = [] then 2 ^ 64 - 1 else last h)"

lemma is_switch_code [code]:
  "is_switch tid h \<longleftrightarrow> (if h = [] then int tid \<noteq> 18446744073709551615 else tid \<noteq> last h)"
  by (simp add: is_switch_def)

text \<open>What \<open>ResumeTask\<close> does up to the test for the end of the round. The flag is \<open>is_finished\<close>.\<close>

definition tla_advance ::
    "('o, 'c, 'v, 'g) runtime_env \<Rightarrow> nat \<Rightarrow> nat \<Rightarrow> bool \<Rightarrow> ('o, 'a, 'c, 'v) tla_state
      \<Rightarrow> (bool \<times> ('o, 'a, 'c, 'v) tla_state) res" where
  "tla_advance E fi tid is_new st =
     res_bind (vec_get (tla_threads st) tid) (\<lambda>tasks.
     if tasks = [] then Inl Out_Of_Range else
     let r = (tid, length tasks - 1);
         st = st\<lparr>tla_frames := (tla_frames st)[fi := (tla_frames st ! fi)\<lparr>fr_task := Some r\<rparr>],
                 thread_id_history := thread_id_history st @ [tid],
                 tla_seq := tla_seq st @ (if is_new then [Invoke r (int tid)] else [])\<rparr> in
     res_bind (cxx_assert ''!task->IsParked()'' (\<not> IsParked (tla_world st) (last tasks))) (\<lambda>_.
     res_bind (Resume (env_body E) (tla_world st) (last tasks)) (\<lambda>(w, c).
     res_bind (UpdateFullHistory E tid r (co_name c) is_new
         (st\<lparr>tla_world := w, tla_threads := tla_set r c (tla_threads st)\<rparr>)) (\<lambda>st.
     if co_is_returned c then
       res_bind (OnFinished (env_verifier E)
           \<lparr>ct_name = co_name c, ct_is_new = False, ct_thread_id = tid\<rparr> (tla_verifier st)) (\<lambda>v.
       res_bind (GetRetVal c) (\<lambda>rv.
       Inr (True, st\<lparr>finished_tasks := Suc (finished_tasks st), tla_verifier := v,
                      tla_seq := tla_seq st @ [Response r rv (int tid)]\<rparr>)))
     else Inr (False, st)))))"

text \<open>What \<open>ResumeTask\<close> undoes when it is left without a result.\<close>

definition tla_undo ::
    "bool \<Rightarrow> bool \<Rightarrow> ('o, 'a, 'c, 'v) tla_state \<Rightarrow> ('o, 'a, 'c, 'v) tla_state res" where
  "tla_undo is_finished is_new st =
     res_bind (undo_full_history (tla_full st)) (\<lambda>full.
     let st = st\<lparr>thread_id_history := butlast (thread_id_history st), tla_full := full\<rparr>;
         st = (if is_finished then st\<lparr>finished_tasks := finished_tasks st - 1,
                                       tla_seq := butlast (tla_seq st)\<rparr> else st) in
     Inr (if is_new then st\<lparr>started_tasks := started_tasks st - 1,
                             tla_seq := butlast (tla_seq st)\<rparr> else st))"

definition Tla_ResumeTask ::
    "(nat \<Rightarrow> nat \<Rightarrow> ('o, 'a, 'c, 'v) tla_state \<Rightarrow> (tla_result \<times> ('o, 'a, 'c, 'v) tla_state) res)
      \<Rightarrow> ('o, 'a, 'c) tla_params \<Rightarrow> ('o, 'c, 'v, 'g) runtime_env
      \<Rightarrow> nat \<Rightarrow> nat \<Rightarrow> nat \<Rightarrow> nat \<Rightarrow> bool \<Rightarrow> ('o, 'a, 'c, 'v) tla_state
      \<Rightarrow> (tla_result \<times> ('o, 'a, 'c, 'v) tla_state) res" where
  "Tla_ResumeTask rec P E fi step switches tid is_new st =
     (let nxt_switches =
            (if \<not> is_new \<and> is_switch tid (thread_id_history st)
             then Suc switches else switches) in
      if \<not> is_new \<and> nxt_switches > tla_max_switches P then Inr ((False, None), st)
      else
        res_bind (tla_advance E fi tid is_new st) (\<lambda>(is_finished, st).
        if finished_tasks st \<noteq> tla_max_tasks P then
          res_bind (rec (Suc step) nxt_switches st) (\<lambda>((is_over, r), st).
          if is_over \<or> r \<noteq> None then Inr ((is_over, r), st)
          else res_bind (tla_undo is_finished is_new st) (\<lambda>st. Inr ((False, None), st)))
        else
          let st = st\<lparr>finished_rounds := Suc (finished_rounds st)\<rparr> in
          res_bind (tla_check P (tla_store (tla_threads st)) (tla_seq st)) (\<lambda>ok.
          if \<not> ok then Inr ((False, Some ([], tla_seq st)), st)
          else if finished_rounds st = tla_max_rounds P then Inr ((True, None), st)
          else res_bind (tla_undo is_finished is_new st) (\<lambda>st. Inr ((False, None), st)))))"

section \<open>Choosing the next task\<close>

definition set_frame_new :: "nat \<Rightarrow> bool \<Rightarrow> ('o, 'a, 'c, 'v) tla_state \<Rightarrow> ('o, 'a, 'c, 'v) tla_state" where
  "set_frame_new fi b st = st\<lparr>tla_frames := (tla_frames st)[fi := (tla_frames st ! fi)\<lparr>fr_is_new := b\<rparr>]\<rparr>"

text \<open>The loop over the constructors for one thread.\<close>

fun run_constructors ::
    "(nat \<Rightarrow> nat \<Rightarrow> ('o, 'a, 'c, 'v) tla_state \<Rightarrow> (tla_result \<times> ('o, 'a, 'c, 'v) tla_state) res)
      \<Rightarrow> ('o, 'a, 'c) tla_params \<Rightarrow> ('o, 'c, 'v, 'g) runtime_env
      \<Rightarrow> nat \<Rightarrow> nat \<Rightarrow> nat \<Rightarrow> nat \<Rightarrow> ('o, 'a, 'c) task_builder list \<Rightarrow> ('o, 'a, 'c, 'v) tla_state
      \<Rightarrow> (tla_result \<times> ('o, 'a, 'c, 'v) tla_state) res" where
  "run_constructors rec P E fi step switches i [] st = Inr ((False, None), st)"
| "run_constructors rec P E fi step switches i (b # bs) st =
     res_bind (Verify (env_verifier E) \<lparr>ct_name = tb_name b, ct_is_new = True, ct_thread_id = i\<rparr>
         (tla_verifier st)) (\<lambda>(ok, v).
       let st = st\<lparr>tla_verifier := v\<rparr> in
       if \<not> ok then run_constructors rec P E fi step switches i bs st
       else
         let st = set_frame_new fi True st;
             (w, c) = Build b (tla_world st) i (- 1);
             size_before = length (tla_threads st ! i);
             st = st\<lparr>tla_world := w, tla_threads := (tla_threads st)[i := tla_threads st ! i @ [c]],
                     started_tasks := Suc (started_tasks st)\<rparr> in
         res_bind (Tla_ResumeTask rec P E fi step switches i True st) (\<lambda>((is_over, r), st).
         if is_over \<or> r \<noteq> None then Inr ((is_over, r), st)
         else
           let st = st\<lparr>tla_threads := (tla_threads st)[i := butlast (tla_threads st ! i)]\<rparr> in
           res_bind (cxx_assert ''size_before == size_after''
               (size_before = length (tla_threads st ! i))) (\<lambda>_.
           res_bind (Tla_Replay P E step st)
             (run_constructors rec P E fi step switches i bs))))"

text \<open>The body of the loop over the threads; the flag is \<open>all_parked\<close>.\<close>

definition visit_thread ::
    "(nat \<Rightarrow> nat \<Rightarrow> ('o, 'a, 'c, 'v) tla_state \<Rightarrow> (tla_result \<times> ('o, 'a, 'c, 'v) tla_state) res)
      \<Rightarrow> ('o, 'a, 'c) tla_params \<Rightarrow> ('o, 'c, 'v, 'g) runtime_env
      \<Rightarrow> nat \<Rightarrow> nat \<Rightarrow> nat \<Rightarrow> nat \<Rightarrow> bool \<Rightarrow> ('o, 'a, 'c, 'v) tla_state
      \<Rightarrow> (tla_result \<times> bool \<times> ('o, 'a, 'c, 'v) tla_state) res" where
  "visit_thread rec P E fi step switches i all_parked st =
     res_bind (vec_get (tla_threads st) i) (\<lambda>tasks.
     if tasks \<noteq> [] \<and> \<not> co_is_returned (last tasks) then
       if IsParked (tla_world st) (last tasks) then Inr ((False, None), all_parked, st)
       else
         res_bind (Verify (env_verifier E)
             \<lparr>ct_name = co_name (last tasks), ct_is_new = False, ct_thread_id = i\<rparr>
             (tla_verifier st)) (\<lambda>(ok, v).
         let st = st\<lparr>tla_verifier := v\<rparr> in
         if \<not> ok then Inr ((False, None), False, st)
         else
           res_bind (Tla_ResumeTask rec P E fi step switches i False (set_frame_new fi False st))
             (\<lambda>((is_over, r), st).
           if is_over \<or> r \<noteq> None then Inr ((is_over, r), False, st)
           else res_bind (Tla_Replay P E step st) (\<lambda>st. Inr ((False, None), False, st))))
     else if started_tasks st \<noteq> tla_max_tasks P \<and> length tasks < tla_max_depth P then
       res_bind (run_constructors rec P E fi step switches i (tla_constructors P) st) (\<lambda>(r, st).
       Inr (r, False, st))
     else Inr ((False, None), False, st))"

fun run_threads ::
    "(nat \<Rightarrow> nat \<Rightarrow> ('o, 'a, 'c, 'v) tla_state \<Rightarrow> (tla_result \<times> ('o, 'a, 'c, 'v) tla_state) res)
      \<Rightarrow> ('o, 'a, 'c) tla_params \<Rightarrow> ('o, 'c, 'v, 'g) runtime_env
      \<Rightarrow> nat \<Rightarrow> nat \<Rightarrow> nat \<Rightarrow> nat list \<Rightarrow> bool \<Rightarrow> ('o, 'a, 'c, 'v) tla_state
      \<Rightarrow> (tla_result \<times> bool \<times> ('o, 'a, 'c, 'v) tla_state) res" where
  "run_threads rec P E fi step switches [] all_parked st = Inr ((False, None), all_parked, st)"
| "run_threads rec P E fi step switches (i # is) all_parked st =
     res_bind (visit_thread rec P E fi step switches i all_parked st) (\<lambda>((is_over, r), all_parked, st).
     if is_over \<or> r \<noteq> None then Inr ((is_over, r), all_parked, st)
     else run_threads rec P E fi step switches is all_parked st)"

primrec Tla_RunStep ::
    "nat \<Rightarrow> ('o, 'a, 'c) tla_params \<Rightarrow> ('o, 'c, 'v, 'g) runtime_env \<Rightarrow> nat \<Rightarrow> nat
      \<Rightarrow> ('o, 'a, 'c, 'v) tla_state \<Rightarrow> (tla_result \<times> ('o, 'a, 'c, 'v) tla_state) res" where
  "Tla_RunStep 0 P E step switches st = Inl Out_Of_Fuel"
| "Tla_RunStep (Suc fuel) P E step switches st =
     res_bind (run_threads (Tla_RunStep fuel P E) P E (length (tla_frames st)) step switches
         [0..<length (tla_threads st)] True
         (st\<lparr>tla_frames := tla_frames st @ [\<lparr>fr_task = None, fr_is_new = False\<rparr>]\<rparr>))
       (\<lambda>((is_over, r), all_parked, st).
     if is_over \<or> r \<noteq> None then Inr ((is_over, r), st)
     else res_bind (cxx_assert ''!all_parked && deadlock'' (\<not> all_parked)) (\<lambda>_.
       Inr ((False, None), st\<lparr>tla_frames := butlast (tla_frames st)\<rparr>)))"

text \<open>
  \<open>Run\<close> discards the flag of the last round; it is kept here, with the final state, to state
  what was explored. The fuel is the one of the environment.
\<close>

definition Tla_Run ::
    "('o, 'a, 'c) tla_params \<Rightarrow> ('o, 'c, 'v, 'g) runtime_env \<Rightarrow> ('o, 'a, 'c, 'v) tla_state
      \<Rightarrow> (tla_result \<times> ('o, 'a, 'c, 'v) tla_state) res" where
  "Tla_Run P E st = Tla_RunStep (env_fuel E) P E 0 0 st"

end
