(* ===== verification/Tla_Replay.thy ===== *)
theory Tla_Replay
  imports Tla_Scheduler
begin

text \<open>
  What \<open>Replay\<close> of \<open>TLAScheduler\<close> restores. The scheduler relies on it at every step: after a
  branch is left, running the frames of the path again has to bring back the tasks and the
  target. The invariant \<open>synced\<close> says that a list of frames leads from the initial target to a
  given state; every resumed step extends it, and \<open>Tla_Replay\<close> then restores the state.
\<close>

declare split_paired_All [simp del] split_paired_Ex [simp del]

section \<open>Targets that can be replayed\<close>

text \<open>
  A slice depends on the context of the task and on the target only, and does not touch tokens.
  \<open>Reset\<close> brings back the initial target, \<open>cancel\<close> keeps the tokens, and the generators make
  arguments without a token.
\<close>

definition same_tokens :: "'o world \<Rightarrow> 'o world \<Rightarrow> bool" where
  "same_tokens w w' \<longleftrightarrow> w_parked w' = w_parked w \<and> w_next_token w' = w_next_token w"

definition plain_body :: "('o, 'c) body \<Rightarrow> bool" where
  "plain_body body \<longleftrightarrow> (\<forall>c w. same_tokens w (fst (body c w)))
     \<and> (\<forall>c w w'. w_state w = w_state w' \<longrightarrow> snd (body c w) = snd (body c w')
          \<and> w_state (fst (body c w)) = w_state (fst (body c w')))"

definition plain_target :: "('o, 'a, 'c) tla_params \<Rightarrow> ('o, 'c, 'v, 'g) runtime_env \<Rightarrow> 'o \<Rightarrow> bool" where
  "plain_target P E s0 \<longleftrightarrow> plain_body (env_body E) \<and> (\<forall>s. env_reset E s = s0)
     \<and> (\<forall>w. same_tokens w (tla_cancel P w))
     \<and> (\<forall>b \<in> set (tla_constructors P). \<forall>t w. \<exists>a. tb_gen b t w = (a, w, None))"

lemma same_tokens_refl [simp]: "same_tokens w w"
  by (simp add: same_tokens_def)

lemma same_tokens_trans: "same_tokens w w' \<Longrightarrow> same_tokens w' w'' \<Longrightarrow> same_tokens w w''"
  by (simp add: same_tokens_def)

lemma same_tokens_update [simp]:
  "same_tokens w (w'\<lparr>w_state := s\<rparr>) \<longleftrightarrow> same_tokens w w'"
  "same_tokens w (w'\<lparr>w_status := x\<rparr>) \<longleftrightarrow> same_tokens w w'"
  "same_tokens (w\<lparr>w_state := s\<rparr>) w' \<longleftrightarrow> same_tokens w w'"
  "same_tokens (w\<lparr>w_status := x\<rparr>) w' \<longleftrightarrow> same_tokens w w'"
  by (simp_all add: same_tokens_def)

lemma world_eqI:
  "same_tokens w w' \<Longrightarrow> w_state w' = w_state w \<Longrightarrow> w_status w' = w_status w \<Longrightarrow> w' = (w :: 'o world)"
  by (simp add: same_tokens_def)

lemma plain_Resume_tokens:
  "plain_body body \<Longrightarrow> Resume body w c = Inr (w', c') \<Longrightarrow> same_tokens w w'"
  by (cases "body (co_ctx c) w"; cases "snd (body (co_ctx c) w)")
    (auto simp: Resume_Inr_iff plain_body_def dest!: spec [of _ "co_ctx c"] spec [of _ w])

lemma plain_Resume:
  assumes "plain_body body" "Resume body w c = Inr (w', c')" "w_state v = w_state w"
  obtains v' where "Resume body v c = Inr (v', c')" "w_state v' = w_state w'" "same_tokens v v'"
proof -
  have "snd (body (co_ctx c) v) = snd (body (co_ctx c) w)"
    "w_state (fst (body (co_ctx c) v)) = w_state (fst (body (co_ctx c) w))"
    using assms(1,3) unfolding plain_body_def by metis+
  then obtain v' where v': "Resume body v c = Inr (v', c')" "w_state v' = w_state w'"
    using assms(2)
    by (cases "body (co_ctx c) w"; cases "body (co_ctx c) v")
      (auto simp: Resume_def split: slice_end.splits if_splits)
  show thesis by (rule that [OF v' plain_Resume_tokens [OF assms(1) v'(1)]])
qed

lemma Resume_fresh_task: "Resume body w c = Inr (w', c') \<Longrightarrow> fresh_task c' = fresh_task c"
  by (drule Resume_frame) (simp add: fresh_task_def)

section \<open>Positions of tasks\<close>

definition slot_in :: "('a, 'c) coro list list \<Rightarrow> slot \<Rightarrow> bool" where
  "slot_in ths r \<longleftrightarrow> fst r < length ths \<and> snd r < length (ths ! fst r)"

lemma tla_get_Inr_iff: "tla_get ths r = Inr c \<longleftrightarrow> slot_in ths r \<and> tla_store ths r = c"
  by (auto simp: tla_get_def slot_in_def tla_store_def vec_get_def)

lemma length_nth_set: "length (tla_set r c ths ! t) = length (ths ! t)"
  by (cases "fst r < length ths") (auto simp: tla_set_def nth_list_update list_update_beyond)

lemma length_set [simp]: "length (tla_set r c ths) = length ths"
  by (simp add: tla_set_def)

lemma slot_in_set [simp]: "slot_in (tla_set r c ths) r' \<longleftrightarrow> slot_in ths r'"
  by (simp add: slot_in_def length_nth_set)

lemma store_set: "slot_in ths r \<Longrightarrow> tla_store (tla_set r c ths) r' = (if r' = r then c else tla_store ths r')"
  by (cases r; cases r') (auto simp: slot_in_def tla_set_def tla_store_def nth_list_update)

lemma lengths_set [simp]: "map length (tla_set r c ths) = map length ths"
  by (rule nth_equalityI) (simp_all add: length_nth_set)

lemma threads_eqI:
  assumes "map length ths = map length ths'" "\<And>r. slot_in ths r \<Longrightarrow> tla_store ths r = tla_store ths' r"
  shows "ths = ths'"
proof (rule nth_equalityI)
  show len: "length ths = length ths'" using assms(1) by (metis length_map)
  fix t assume t: "t < length ths"
  have "length (ths ! t) = length (ths' ! t)" using assms(1) t len by (metis nth_map)
  then show "ths ! t = ths' ! t"
    using assms(2) t by (intro nth_equalityI) (force simp: slot_in_def tla_store_def)+
qed

lemma fresh_map_slots:
  assumes "map (map fresh_task) ths = map (map fresh_task) ths'"
  shows "map length ths = map length ths'" "slot_in ths r \<longleftrightarrow> slot_in ths' r"
    "slot_in ths r \<Longrightarrow> fresh_task (tla_store ths r) = fresh_task (tla_store ths' r)"
proof -
  have "map (length \<circ> map fresh_task) ths = map (length \<circ> map fresh_task) ths'"
    using arg_cong [OF assms, of "map length"] by simp
  then show len: "map length ths = map length ths'" by (simp add: comp_def)
  have l: "length ths = length ths'" using assms by (rule map_eq_imp_length_eq)
  then have n: "length (ths ! t) = length (ths' ! t)" if "t < length ths" for t
    using len that by (metis nth_map)
  then show sl: "slot_in ths r \<longleftrightarrow> slot_in ths' r" using l by (auto simp: slot_in_def)
  show "fresh_task (tla_store ths r) = fresh_task (tla_store ths' r)" if "slot_in ths r"
  proof -
    have "map fresh_task (ths ! fst r) = map fresh_task (ths' ! fst r)"
      using assms that l unfolding slot_in_def by (metis nth_map)
    then show ?thesis using that sl unfolding slot_in_def tla_store_def by (metis nth_map)
  qed
qed

lemma fresh_map_set:
  assumes "fresh_task c = fresh_task (tla_store ths r)"
  shows "map (map fresh_task) (tla_set r c ths) = map (map fresh_task) ths"
proof -
  have "map fresh_task ((ths ! fst r)[snd r := c]) = map fresh_task (ths ! fst r)"
    using assms by (simp add: map_update tla_store_def) (metis list_update_beyond list_update_id
        length_map not_le nth_map)
  then show ?thesis
    unfolding tla_set_def map_update
    by (metis list_update_beyond list_update_id length_map not_le nth_map)
qed

section \<open>Terminating\<close>

lemma terminate_loop_tokens:
  "plain_body body \<Longrightarrow> terminate_loop body tries w c = Inr (w', c') \<Longrightarrow> same_tokens w w'"
proof (induction body tries w c rule: terminate_loop.induct)
  case (1 body tries w c)
  show ?case
  proof (cases "co_is_returned c")
    case True
    with "1.prems" show ?thesis by (simp add: terminate_loop.simps [of body tries w c])
  next
    case False
    with "1.prems" obtain v d where d: "Resume body w c = Inr (v, d)" "Suc tries < max_tries"
        "terminate_loop body (Suc tries) v d = Inr (w', c')"
      by (auto simp: terminate_loop.simps [of body tries w c] res_bind_Inr_iff split: if_splits)
    from "1.IH" [OF False d(1) refl d(2) "1.prems"(1) d(3)] plain_Resume_tokens [OF "1.prems"(1) d(1)]
    show ?thesis using same_tokens_trans by blast
  qed
qed

lemma terminate_one:
  assumes "plain_body body"
    "(if \<not> co_is_returned c then Terminate body w c else Inr (w, c)) = Inr (w', c')"
  shows "co_is_returned c'" "fresh_task c' = fresh_task c" "same_tokens w w'"
  using assms terminate_loop_returned [of body 0 w c w' c'] terminate_loop_frame [of body 0 w c w' c']
    terminate_loop_tokens [of body 0 w c w' c']
  by (auto simp: Terminate_def fresh_task_def split: if_splits)

lemma tla_terminate_thread_effect:
  assumes "plain_body body" "tla_terminate_thread body w th = Inr (w', th')"
  shows "(\<forall>c \<in> set th'. co_is_returned c) \<and> map fresh_task th' = map fresh_task th \<and> same_tokens w w'"
  using assms(2)
proof (induction th arbitrary: w th')
  case (Cons c cs)
  from Cons.prems obtain v c' cs' where
      c: "(if \<not> co_is_returned c then Terminate body w c else Inr (w, c)) = Inr (v, c')"
      "tla_terminate_thread body v cs = Inr (w', cs')" "th' = c' # cs'"
    by (auto simp: res_bind_Inr_iff simp del: if_split)
  from Cons.IH [OF c(2)] terminate_one [OF assms(1) c(1)] c(3) show ?case
    using same_tokens_trans by auto
qed simp

lemma tla_terminate_threads_effect:
  assumes "plain_body body" "tla_terminate_threads body w ths = Inr (w', ths')"
  shows "(\<forall>th \<in> set ths'. \<forall>c \<in> set th. co_is_returned c)
    \<and> map (map fresh_task) ths' = map (map fresh_task) ths \<and> same_tokens w w'"
  using assms(2)
proof (induction ths arbitrary: w ths')
  case (Cons th ths)
  from Cons.prems obtain v th1 ths1 where
      t: "tla_terminate_thread body w th = Inr (v, th1)"
      "tla_terminate_threads body v ths = Inr (w', ths1)" "ths' = th1 # ths1"
    by (auto simp: res_bind_Inr_iff)
  from Cons.IH [OF t(2)] tla_terminate_thread_effect [OF assms(1) t(1)] t(3) show ?case
    using same_tokens_trans by auto
qed simp

section \<open>Replaying\<close>

text \<open>
  The tasks of \<open>ths0\<close> at the positions of \<open>ths\<close> are returned runs of the same tasks.
\<close>

definition spent :: "('a, 'c) coro list list \<Rightarrow> ('a, 'c) coro list list \<Rightarrow> bool" where
  "spent ths ths0 \<longleftrightarrow> (\<forall>r. slot_in ths r \<longrightarrow> slot_in ths0 r
     \<and> fresh_task (tla_store ths0 r) = fresh_task (tla_store ths r) \<and> co_is_returned (tla_store ths0 r))"

definition overlaid ::
    "('a, 'c) coro list list \<Rightarrow> ('a, 'c) coro list list \<Rightarrow> ('a, 'c) coro list list \<Rightarrow> bool" where
  "overlaid ths ths0 ths1 \<longleftrightarrow> map length ths1 = map length ths0 \<and> (\<forall>r. slot_in ths1 r \<longleftrightarrow> slot_in ths0 r)
     \<and> (\<forall>r. slot_in ths0 r \<longrightarrow>
          tla_store ths1 r = (if slot_in ths r then tla_store ths r else tla_store ths0 r))"

text \<open>
  The frames lead from the initial target \<open>s0\<close> and spent tasks to the tasks \<open>ths\<close> and the target
  \<open>s\<close>. Positions that \<open>ths\<close> does not have are left alone.
\<close>

definition synced :: "('o, 'c) body \<Rightarrow> 'o \<Rightarrow> frame list \<Rightarrow> ('a, 'c) coro list list \<Rightarrow> 'o \<Rightarrow> bool" where
  "synced body s0 fs ths s \<longleftrightarrow> (\<forall>ths0 w. spent ths ths0 \<and> w_state w = s0 \<longrightarrow>
     (\<exists>ths1 w1. replay_frames body fs (ths0, w) = Inr (ths1, w1) \<and> w_state w1 = s
        \<and> same_tokens w w1 \<and> overlaid ths ths0 ths1))"

lemma replay_frames_append:
  "replay_frames body (fs @ gs) s = res_bind (replay_frames body fs s) (replay_frames body gs)"
  by (induction fs arbitrary: s) (auto simp: res_bind_assoc intro!: res_bind_cong)

lemma synced_initial: "synced body s0 [] (replicate n []) s0"
proof -
  have none: "slot_in (replicate n []) r = False" for r :: slot and n :: nat
    by (auto simp: slot_in_def)
  show ?thesis unfolding synced_def overlaid_def none by simp
qed

text \<open>One more step: the task at \<open>r\<close> is \<open>c\<close> before it is resumed and \<open>c'\<close> afterwards.\<close>

lemma synced_step:
  fixes body :: "('o, 'c) body" and s0 s :: 'o
  assumes body: "plain_body body" and syn: "synced body s0 fs ths s"
    and resume: "Resume body w c = Inr (w', c')" "w_state w = s"
    and old: "\<not> new \<Longrightarrow> slot_in ths r \<and> c = tla_store ths r"
    and fresh: "new \<Longrightarrow> \<not> slot_in ths r \<and> c = fresh_task c"
    and slots: "\<And>r'. slot_in ths' r' \<longleftrightarrow> slot_in ths r' \<or> r' = r"
    and stored: "\<And>r'. slot_in ths' r' \<Longrightarrow> tla_store ths' r' = (if r' = r then c' else tla_store ths r')"
  shows "synced body s0 (fs @ [\<lparr>fr_task = Some r, fr_is_new = new\<rparr>]) ths' (w_state w')"
  unfolding synced_def
proof (intro allI impI, elim conjE)
  fix ths0 and v :: "'o world" assume sp: "spent ths' ths0" and v: "w_state v = s0"
  have fc: "fresh_task c' = fresh_task c" using resume(1) by (rule Resume_fresh_task)
  have sp1: "spent ths ths0"
    unfolding spent_def
  proof (intro allI impI)
    fix r' assume r': "slot_in ths r'"
    then have "slot_in ths' r'" using slots by blast
    moreover have "fresh_task (tla_store ths' r') = fresh_task (tla_store ths r')"
      using stored [OF \<open>slot_in ths' r'\<close>] fc old fresh r' by auto
    ultimately show "slot_in ths0 r' \<and> fresh_task (tla_store ths0 r') = fresh_task (tla_store ths r')
        \<and> co_is_returned (tla_store ths0 r')"
      using sp unfolding spent_def by metis
  qed
  then obtain ths1 w1 where 1: "replay_frames body fs (ths0, v) = Inr (ths1, w1)" "w_state w1 = s"
      "same_tokens v w1" and ov: "overlaid ths ths0 ths1"
    using syn v unfolding synced_def by blast
  have r0: "slot_in ths' r" "slot_in ths0 r" using slots sp unfolding spent_def by blast+
  then have r1: "slot_in ths1 r" using ov by (simp add: overlaid_def)
  have c: "(if new then Coro_Restart (tla_store ths1 r) else Inr (tla_store ths1 r)) = Inr c"
  proof (cases new)
    case True
    have "tla_store ths1 r = tla_store ths0 r" using ov r0 fresh [OF True] by (simp add: overlaid_def)
    moreover have "co_is_returned (tla_store ths0 r)" "fresh_task (tla_store ths0 r) = c"
      using sp r0 stored [OF r0(1)] fc fresh [OF True] by (auto simp: spent_def)
    ultimately show ?thesis using True by (simp add: Coro_Restart_def fresh_task_def)
  next
    case False
    then show ?thesis using ov r0 old by (simp add: overlaid_def)
  qed
  obtain w2 where 2: "Resume body w1 c = Inr (w2, c')" "w_state w2 = w_state w'" "same_tokens w1 w2"
    using plain_Resume [OF body resume(1), of w1] 1(2) resume(2) by auto
  have "replay_frame body \<lparr>fr_task = Some r, fr_is_new = new\<rparr> (ths1, w1) = Inr (tla_set r c' ths1, w2)"
    using c r1 2(1) tla_get_Inr_iff [of ths1 r "tla_store ths1 r"] by (simp add: replay_frame_def)
  then have run: "replay_frames body (fs @ [\<lparr>fr_task = Some r, fr_is_new = new\<rparr>]) (ths0, v)
      = Inr (tla_set r c' ths1, w2)"
    using 1(1) by (simp add: replay_frames_append)
  have "overlaid ths' ths0 (tla_set r c' ths1)"
    using ov r0 r1 slots stored by (auto simp: overlaid_def store_set)
  with run 2 1(3) show "\<exists>ths1 w1. replay_frames body (fs @ [\<lparr>fr_task = Some r, fr_is_new = new\<rparr>]) (ths0, v)
      = Inr (ths1, w1) \<and> w_state w1 = w_state w' \<and> same_tokens v w1 \<and> overlaid ths' ths0 ths1"
    using same_tokens_trans by blast
qed

lemma synced_restores:
  assumes "synced body s0 fs ths s" "map (map fresh_task) ths0 = map (map fresh_task) ths"
    "\<forall>th \<in> set ths0. \<forall>c \<in> set th. co_is_returned c" "w_state w = s0"
  obtains w1 where "replay_frames body fs (ths0, w) = Inr (ths, w1)" "w_state w1 = s" "same_tokens w w1"
proof -
  note f = fresh_map_slots [OF assms(2)]
  have "co_is_returned (tla_store ths0 r)" if "slot_in ths0 r" for r
    using that assms(3) unfolding slot_in_def tla_store_def by (meson nth_mem)
  then have "spent ths ths0" using f(2,3) unfolding spent_def by metis
  then obtain ths1 w1 where 1: "replay_frames body fs (ths0, w) = Inr (ths1, w1)" "w_state w1 = s"
      "same_tokens w w1" "overlaid ths ths0 ths1"
    using assms(1,4) unfolding synced_def by blast
  have "ths1 = ths"
    by (rule threads_eqI) (use 1(4) f(1,2) in \<open>auto simp: overlaid_def\<close>)
  then show thesis using that 1 by blast
qed

text \<open>\<open>Tla_Replay\<close> brings back the tasks and the world of the current path.\<close>

lemma Tla_Replay_restores:
  assumes plain: "plain_target P E s0"
    and syn: "synced (env_body E) s0 fs ths (w_state w)" and w: "w_status w = None"
    and st: "take step_end (tla_frames st) = fs" "map (map fresh_task) (tla_threads st) = map (map fresh_task) ths"
      "same_tokens w (tla_world st)"
    and run: "Tla_Replay P E step_end st = Inr st'"
  shows "st' = st\<lparr>tla_threads := ths, tla_world := w\<rparr>"
proof -
  have body: "plain_body (env_body E)" and reset: "\<And>s. env_reset E s = s0"
    and cancel: "\<And>w. same_tokens w (tla_cancel P w)"
    using plain by (simp_all add: plain_target_def)
  from run obtain v ths0 ths1 v1 where
      t: "tla_terminate_threads (env_body E) (tla_cancel P (tla_world st)) (tla_threads st) = Inr (v, ths0)"
    and r: "replay_frames (env_body E) fs (ths0, v\<lparr>w_state := s0\<rparr>) = Inr (ths1, v1)"
    and st': "st' = st\<lparr>tla_threads := ths1, tla_world := v1\<lparr>w_status := None\<rparr>\<rparr>"
    using st(1) reset by (auto simp: Tla_Replay_def Tla_TerminateTasks_def res_bind_Inr_iff)
  note e = tla_terminate_threads_effect [OF body t]
  obtain w1 where w1: "replay_frames (env_body E) fs (ths0, v\<lparr>w_state := s0\<rparr>) = Inr (ths, w1)"
      "w_state w1 = w_state w" "same_tokens (v\<lparr>w_state := s0\<rparr>) w1"
    by (rule synced_restores [OF syn, of ths0 "v\<lparr>w_state := s0\<rparr>"]) (use e st(2) in auto)
  have "same_tokens w v"
    using e st(3) cancel [of "tla_world st"] by (auto intro: same_tokens_trans)
  then have "w1\<lparr>w_status := None\<rparr> = w"
    using w1 w by (intro world_eqI) (auto intro: same_tokens_trans)
  then show ?thesis using st' r w1(1) by simp
qed

end
