(* ===== verification/Tla_Exhaustive.thy ===== *)
theory Tla_Exhaustive
  imports Tla_Replay
begin

text \<open>
  What \<open>TLAScheduler\<close> promises: it enumerates all executions within its bounds. The executions
  are a step relation on states that are never undone: a step starts a task or resumes the last
  task of a thread, within the bounds on tasks, depth and switches. When \<open>Run\<close> ends without a
  result and without having used up its rounds, the checker has accepted every complete
  execution of that relation; a result is a complete execution that the checker refused.
\<close>

declare split_paired_All [simp del] split_paired_Ex [simp del]

section \<open>The executions\<close>

record ('o, 'a, 'c) execution =
  ex_world :: "'o world"
  ex_threads :: "('a, 'c) coro list list"
  ex_started :: nat
  ex_finished :: nat
  ex_switches :: nat
  ex_order :: "nat list"
  ex_seq :: seq_history

text \<open>The last task of thread \<open>t\<close> runs one slice.\<close>

definition exec_resume ::
    "('o, 'c) body \<Rightarrow> nat \<Rightarrow> bool \<Rightarrow> ('o, 'a, 'c) execution \<Rightarrow> ('o, 'a, 'c) execution option" where
  "exec_resume body t is_new e =
     (let c = last (ex_threads e ! t); r = (t, length (ex_threads e ! t) - 1) in
      case Resume body (ex_world e) c of
        Inl _ \<Rightarrow> None
      | Inr (w, c') \<Rightarrow> Some (e\<lparr>
          ex_world := w\<lparr>w_status := None\<rparr>,
          ex_threads := tla_set r c' (ex_threads e),
          ex_finished := ex_finished e + (if co_is_returned c' then 1 else 0),
          ex_order := ex_order e @ [t],
          ex_seq := ex_seq e @ (if is_new then [Invoke r (int t)] else [])
            @ (if co_is_returned c' then [Response r (co_ret c') (int t)] else [])\<rparr>))"

definition idle :: "('a, 'c) coro list \<Rightarrow> bool" where
  "idle tasks \<longleftrightarrow> tasks = [] \<or> co_is_returned (last tasks)"

definition switched :: "nat \<Rightarrow> ('o, 'a, 'c) execution \<Rightarrow> ('o, 'a, 'c) execution" where
  "switched t e = (if is_switch t (ex_order e) then e\<lparr>ex_switches := Suc (ex_switches e)\<rparr> else e)"

definition with_task :: "('o, 'a, 'c) task_builder \<Rightarrow> nat \<Rightarrow> ('o, 'a, 'c) execution \<Rightarrow> ('o, 'a, 'c) execution" where
  "with_task b t e = (let (w, c) = Build b (ex_world e) t (- 1) in
     e\<lparr>ex_world := w, ex_threads := (ex_threads e)[t := ex_threads e ! t @ [c]],
       ex_started := Suc (ex_started e)\<rparr>)"

inductive thread_step ::
    "('o, 'a, 'c) tla_params \<Rightarrow> ('o, 'c) body \<Rightarrow> nat \<Rightarrow> ('o, 'a, 'c) execution \<Rightarrow> ('o, 'a, 'c) execution \<Rightarrow> bool"
    for P body t where
  resume: "\<lbrakk>\<not> idle (ex_threads e ! t); \<not> IsParked (ex_world e) (last (ex_threads e ! t));
      ex_switches (switched t e) \<le> tla_max_switches P; exec_resume body t False (switched t e) = Some e'\<rbrakk>
    \<Longrightarrow> thread_step P body t e e'"
| start: "\<lbrakk>idle (ex_threads e ! t); ex_started e \<noteq> tla_max_tasks P; length (ex_threads e ! t) < tla_max_depth P;
      b \<in> set (tla_constructors P); exec_resume body t True (with_task b t e) = Some e'\<rbrakk>
    \<Longrightarrow> thread_step P body t e e'"

definition complete :: "('o, 'a, 'c) tla_params \<Rightarrow> ('o, 'a, 'c) execution \<Rightarrow> bool" where
  "complete P e \<longleftrightarrow> ex_finished e = tla_max_tasks P"

definition tla_step ::
    "('o, 'a, 'c) tla_params \<Rightarrow> ('o, 'c) body \<Rightarrow> ('o, 'a, 'c) execution \<Rightarrow> ('o, 'a, 'c) execution \<Rightarrow> bool" where
  "tla_step P body e e' \<longleftrightarrow> \<not> complete P e \<and> (\<exists>t < length (ex_threads e). thread_step P body t e e')"

definition verdict :: "('o, 'a, 'c) tla_params \<Rightarrow> ('o, 'a, 'c) execution \<Rightarrow> bool res" where
  "verdict P e = tla_check P (tla_store (ex_threads e)) (ex_seq e)"

text \<open>All complete executions from \<open>e\<close> on, \<open>e\<close> itself included, are accepted; one is refused.\<close>

definition accepted :: "('o, 'a, 'c) tla_params \<Rightarrow> ('o, 'c) body \<Rightarrow> ('o, 'a, 'c) execution \<Rightarrow> bool" where
  "accepted P body e \<longleftrightarrow> (\<forall>e'. (tla_step P body)\<^sup>*\<^sup>* e e' \<longrightarrow> complete P e' \<longrightarrow> verdict P e' = Inr True)"

definition refused ::
    "('o, 'a, 'c) tla_params \<Rightarrow> ('o, 'c) body \<Rightarrow> ('o, 'a, 'c) execution \<Rightarrow> both_histories \<Rightarrow> bool" where
  "refused P body e h \<longleftrightarrow> (\<exists>e'. (tla_step P body)\<^sup>*\<^sup>* e e' \<and> complete P e' \<and> verdict P e' = Inr False
     \<and> h = ([], ex_seq e'))"

definition execution_of :: "nat \<Rightarrow> ('o, 'a, 'c, 'v) tla_state \<Rightarrow> ('o, 'a, 'c) execution" where
  "execution_of switches st =
     \<lparr>ex_world = tla_world st, ex_threads = tla_threads st, ex_started = started_tasks st,
      ex_finished = finished_tasks st, ex_switches = switches, ex_order = thread_id_history st,
      ex_seq = tla_seq st\<rparr>"

lemma complete_no_step: "complete P e \<Longrightarrow> (tla_step P body)\<^sup>*\<^sup>* e e' \<Longrightarrow> e' = e"
  by (erule converse_rtranclpE) (simp_all add: tla_step_def)

lemma accepted_complete: "complete P e \<Longrightarrow> accepted P body e \<longleftrightarrow> verdict P e = Inr True"
  unfolding accepted_def using complete_no_step by blast

lemma accepted_step:
  "\<not> complete P e \<Longrightarrow> (\<And>e'. tla_step P body e e' \<Longrightarrow> accepted P body e') \<Longrightarrow> accepted P body e"
  unfolding accepted_def by (metis converse_rtranclpE)

lemma refused_step:
  assumes "tla_step P body e e'" "refused P body e' h"
  shows "refused P body e h"
proof -
  from assms(2) obtain e'' where e: "(tla_step P body)\<^sup>*\<^sup>* e' e''" "complete P e''"
      "verdict P e'' = Inr False" "h = ([], ex_seq e'')"
    unfolding refused_def by blast
  show ?thesis
    unfolding refused_def
    by (rule exI [of _ e'']) (use e converse_rtranclp_into_rtranclp [OF assms(1) e(1)] in simp)
qed

section \<open>What the recursive call promises\<close>

text \<open>
  The states that stand for the same point of the exploration: the full history (whose undoing
  is not exact) and the number of rounds may differ.
\<close>

definition same_point :: "('o, 'a, 'c, 'v) tla_state \<Rightarrow> ('o, 'a, 'c, 'v) tla_state \<Rightarrow> bool" where
  "same_point st st' \<longleftrightarrow> (\<exists>n h. st' = st\<lparr>finished_rounds := n, tla_full := h\<rparr>)"

definition at_path ::
    "('o, 'c, 'v, 'g) runtime_env \<Rightarrow> 'o \<Rightarrow> frame list \<Rightarrow> ('o, 'a, 'c, 'v) tla_state \<Rightarrow> bool" where
  "at_path E s0 fs st \<longleftrightarrow> w_status (tla_world st) = None
     \<and> synced (env_body E) s0 fs (tla_threads st) (w_state (tla_world st))"

definition explores ::
    "('o, 'a, 'c) tla_params \<Rightarrow> ('o, 'c, unit, 'g) runtime_env \<Rightarrow> 'o
      \<Rightarrow> (nat \<Rightarrow> nat \<Rightarrow> ('o, 'a, 'c, unit) tla_state \<Rightarrow> (tla_result \<times> ('o, 'a, 'c, unit) tla_state) res) \<Rightarrow> bool" where
  "explores P E s0 rec \<longleftrightarrow> (\<forall>step switches st is_over r st'.
     at_path E s0 (tla_frames st) st \<and> step = length (tla_frames st)
       \<and> \<not> complete P (execution_of switches st)
       \<and> rec step switches st = Inr ((is_over, r), st') \<longrightarrow>
     (\<not> is_over \<and> r = None \<longrightarrow> same_point st st' \<and> accepted P (env_body E) (execution_of switches st))
     \<and> (\<forall>h. r = Some h \<longrightarrow> refused P (env_body E) (execution_of switches st) h))"

section \<open>Resuming a task\<close>

abbreviation last_slot :: "('o, 'a, 'c, 'v) tla_state \<Rightarrow> nat \<Rightarrow> slot" where
  "last_slot st t \<equiv> (t, length (tla_threads st ! t) - 1)"

lemma unit_verifier_update [simp]: "tla_verifier_update f st = (st :: ('o, 'a, 'c, unit) tla_state)"
  by (cases st) simp

lemma UpdateFullHistory_effect:
  fixes st :: "('o, 'a, 'c, unit) tla_state"
  assumes "UpdateFullHistory E t r nm new st = Inr st'" "env_verifier E = DefaultStrategyVerifier"
  shows "\<exists>h. st' = st\<lparr>tla_full := h, tla_world := (tla_world st)\<lparr>w_status := None\<rparr>\<rparr>"
proof (cases "w_status (tla_world st)")
  case None
  then have "(tla_world st)\<lparr>w_status := None\<rparr> = tla_world st" by simp
  with assms None show ?thesis
    by (cases st) (auto simp: UpdateFullHistory_def DefaultStrategyVerifier_def)
qed (use assms in \<open>auto simp: UpdateFullHistory_def res_bind_Inr_iff cxx_assert_Inr_iff\<close>)

lemma tla_advance_Inr_E:
  assumes "tla_advance E fi t new st = Inr (fin, st1)" "t < length (tla_threads st)"
  obtains w c st2 where "tla_threads st ! t \<noteq> []"
    "Resume (env_body E) (tla_world st) (last (tla_threads st ! t)) = Inr (w, c)"
    "UpdateFullHistory E t (last_slot st t) (co_name c) new
        (st\<lparr>tla_frames := (tla_frames st)[fi := (tla_frames st ! fi)\<lparr>fr_task := Some (last_slot st t)\<rparr>],
          thread_id_history := thread_id_history st @ [t],
          tla_seq := tla_seq st @ (if new then [Invoke (last_slot st t) (int t)] else []),
          tla_world := w, tla_threads := tla_set (last_slot st t) c (tla_threads st)\<rparr>) = Inr st2"
    "(if co_is_returned c then
        res_bind (OnFinished (env_verifier E) \<lparr>ct_name = co_name c, ct_is_new = False, ct_thread_id = t\<rparr>
          (tla_verifier st2)) (\<lambda>v. res_bind (GetRetVal c) (\<lambda>rv.
          Inr (True, st2\<lparr>finished_tasks := Suc (finished_tasks st2), tla_verifier := v,
            tla_seq := tla_seq st2 @ [Response (last_slot st t) rv (int t)]\<rparr>)))
        else Inr (False, st2)) = Inr (fin, st1)"
proof (cases "tla_threads st ! t = []")
  case True
  with assms show thesis by (simp add: tla_advance_def)
next
  case False
  with assms show thesis
    by (auto simp: tla_advance_def Let_def simp del: if_split One_nat_def elim!: res_bind_Inr_E intro: that)
qed

lemma tla_advance_effect:
  fixes st :: "('o, 'a, 'c, unit) tla_state"
  assumes run: "tla_advance E fi t new st = Inr (fin, st1)"
    and E: "env_verifier E = DefaultStrategyVerifier" and t: "t < length (tla_threads st)"
  obtains w c h where "Resume (env_body E) (tla_world st) (last (tla_threads st ! t)) = Inr (w, c)"
    "fin = co_is_returned c" "tla_threads st ! t \<noteq> []"
    "st1 = st\<lparr>tla_frames := (tla_frames st)[fi := (tla_frames st ! fi)\<lparr>fr_task := Some (last_slot st t)\<rparr>],
       thread_id_history := thread_id_history st @ [t],
       tla_seq := tla_seq st @ (if new then [Invoke (last_slot st t) (int t)] else [])
         @ (if fin then [Response (last_slot st t) (co_ret c) (int t)] else []),
       tla_world := w\<lparr>w_status := None\<rparr>, tla_threads := tla_set (last_slot st t) c (tla_threads st),
       finished_tasks := finished_tasks st + (if fin then 1 else 0), tla_full := h\<rparr>"
proof (rule tla_advance_Inr_E [OF run t], goal_cases)
  case (1 w c st2)
  from UpdateFullHistory_effect [OF 1(4) E] obtain h where st2:
    "st2 = st\<lparr>tla_frames := (tla_frames st)[fi := (tla_frames st ! fi)\<lparr>fr_task := Some (last_slot st t)\<rparr>],
      thread_id_history := thread_id_history st @ [t],
      tla_seq := tla_seq st @ (if new then [Invoke (last_slot st t) (int t)] else []),
      tla_world := w, tla_threads := tla_set (last_slot st t) c (tla_threads st),
      tla_full := h, tla_world := w\<lparr>w_status := None\<rparr>\<rparr>" by auto
  from 1(5) E have fin: "fin = co_is_returned c" and st1: "st1 = (if fin then st2\<lparr>finished_tasks := Suc (finished_tasks st2),
      tla_seq := tla_seq st2 @ [Response (last_slot st t) (co_ret c) (int t)]\<rparr> else st2)"
    by (auto simp: GetRetVal_def DefaultStrategyVerifier_def split: if_splits)
  show thesis
    by (rule that [OF 1(3) fin 1(2)], rule tla_state.equality) (simp_all add: st1 st2)
qed

lemma tla_undo_effect:
  assumes "tla_undo fin new st = Inr st'"
    "thread_id_history st = ord @ [t]"
    "tla_seq st = sq @ (if new then [x] else []) @ (if fin then [y] else [])"
  shows "st' = st\<lparr>thread_id_history := ord, tla_full := tla_full st', tla_seq := sq,
    finished_tasks := finished_tasks st - (if fin then 1 else 0),
    started_tasks := started_tasks st - (if new then 1 else 0)\<rparr>"
proof -
  from assms(1) obtain h where st': "st' = (let st = st\<lparr>thread_id_history := butlast (thread_id_history st), tla_full := h\<rparr>;
      st = (if fin then st\<lparr>finished_tasks := finished_tasks st - 1, tla_seq := butlast (tla_seq st)\<rparr> else st) in
      if new then st\<lparr>started_tasks := started_tasks st - 1, tla_seq := butlast (tla_seq st)\<rparr> else st)"
    by (auto simp: tla_undo_def Let_def elim!: res_bind_Inr_E simp del: if_split One_nat_def)
  show ?thesis
    by (rule tla_state.equality) (simp_all add: st' assms(2,3) Let_def butlast_append)
qed

text \<open>
  \<open>st'\<close> is left over from a branch that started in \<open>st\<close> with the execution \<open>e\<close>: all is undone but
  the frame in use, the tasks and the target, which a replay restores.
\<close>

definition left_over ::
    "frame list \<Rightarrow> bool \<Rightarrow> ('o, 'a, 'c) execution \<Rightarrow> ('o, 'a, 'c, 'v) tla_state \<Rightarrow> ('o, 'a, 'c, 'v) tla_state \<Rightarrow> bool" where
  "left_over fs new e st st' \<longleftrightarrow> (\<exists>fr n h w. same_tokens (tla_world st) w
     \<and> st' = st\<lparr>finished_rounds := n, tla_full := h, tla_frames := fs @ [fr], tla_world := w,
         tla_threads := ex_threads e, started_tasks := started_tasks st - (if new then 1 else 0)\<rparr>)"

lemma exec_resume_advance:
  assumes "Resume (env_body E) (tla_world st) (last (tla_threads st ! t)) = Inr (w, c)"
    "st1 = st\<lparr>tla_frames := frs, thread_id_history := thread_id_history st @ [t],
       tla_seq := tla_seq st @ (if new then [Invoke (last_slot st t) (int t)] else [])
         @ (if co_is_returned c then [Response (last_slot st t) (co_ret c) (int t)] else []),
       tla_world := w\<lparr>w_status := None\<rparr>, tla_threads := tla_set (last_slot st t) c (tla_threads st),
       finished_tasks := finished_tasks st + (if co_is_returned c then 1 else 0), tla_full := h\<rparr>"
  shows "exec_resume (env_body E) t new (execution_of k st) = Some (execution_of k st1)"
  using assms by (simp add: exec_resume_def execution_of_def Let_def)

lemma left_over_undo:
  assumes st1: "st1 = st\<lparr>tla_frames := fs @ [fr], thread_id_history := thread_id_history st @ [t],
       tla_seq := tla_seq st @ (if new then [x] else []) @ (if fin then [y] else []),
       tla_world := w\<lparr>w_status := None\<rparr>, tla_threads := ths,
       finished_tasks := finished_tasks st + (if fin then 1 else 0), tla_full := h\<rparr>"
    and "same_point st1 st2" "same_tokens (tla_world st) w"
    and undo: "tla_undo fin new st2 = Inr st'"
  shows "left_over fs new (execution_of k st1) st st'"
proof -
  obtain n h2 where st2: "st2 = st1\<lparr>finished_rounds := n, tla_full := h2\<rparr>"
    using assms(2) by (auto simp: same_point_def)
  have st': "st' = st2\<lparr>thread_id_history := thread_id_history st, tla_full := tla_full st', tla_seq := tla_seq st,
      finished_tasks := finished_tasks st2 - (if fin then 1 else 0),
      started_tasks := started_tasks st2 - (if new then 1 else 0)\<rparr>"
    by (rule tla_undo_effect [OF undo, where t = t and x = x and y = y]) (simp_all add: st2 st1)
  have "st' = st\<lparr>finished_rounds := n, tla_full := tla_full st', tla_frames := fs @ [fr], tla_world := w\<lparr>w_status := None\<rparr>,
      tla_threads := ex_threads (execution_of k st1), started_tasks := started_tasks st - (if new then 1 else 0)\<rparr>"
    by (subst st', rule tla_state.equality) (simp_all add: st2 st1 execution_of_def)
  then show ?thesis using assms(3) unfolding left_over_def by (metis same_tokens_update(2))
qed

lemma Tla_ResumeTask_explores:
  fixes st :: "('o, 'a, 'c, unit) tla_state"
  assumes plain: "plain_target P E s0" and E: "env_verifier E = DefaultStrategyVerifier"
    and rec: "explores P E s0 rec" and t: "t < length (tla_threads st)"
    and fs: "tla_frames st = fs @ [fr]" "fr_is_new fr = new" "length fs = step"
    and syn: "\<And>w c. Resume (env_body E) (tla_world st) (last (tla_threads st ! t)) = Inr (w, c) \<Longrightarrow>
      synced (env_body E) s0 (fs @ [\<lparr>fr_task = Some (last_slot st t), fr_is_new = new\<rparr>])
        (tla_set (last_slot st t) c (tla_threads st)) (w_state w)"
    and k: "k = (if \<not> new \<and> is_switch t (thread_id_history st) then Suc switches else switches)"
    and run: "Tla_ResumeTask rec P E step step switches t new st = Inr ((is_over, r), st')"
  shows "\<not> new \<and> k > tla_max_switches P \<and> st' = st \<and> \<not> is_over \<and> r = None \<or>
    (new \<or> k \<le> tla_max_switches P) \<and> (\<exists>e. exec_resume (env_body E) t new (execution_of k st) = Some e
      \<and> (\<not> is_over \<and> r = None \<longrightarrow> left_over fs new e st st' \<and> accepted P (env_body E) e)
      \<and> (\<forall>h. r = Some h \<longrightarrow> refused P (env_body E) e h))"
proof (cases "\<not> new \<and> k > tla_max_switches P")
  case True
  then show ?thesis using run unfolding Tla_ResumeTask_def Let_def k [symmetric] by simp
next
  case False
  let ?fr = "\<lparr>fr_task = Some (last_slot st t), fr_is_new = new\<rparr>"
  from False run obtain fin st1 where adv: "tla_advance E step t new st = Inr (fin, st1)"
    and rest: "(if finished_tasks st1 \<noteq> tla_max_tasks P then
          res_bind (rec (Suc step) k st1) (\<lambda>((is_over, r), st).
          if is_over \<or> r \<noteq> None then Inr ((is_over, r), st)
          else res_bind (tla_undo fin new st) (\<lambda>st. Inr ((False, None), st)))
        else
          let st = st1\<lparr>finished_rounds := Suc (finished_rounds st1)\<rparr> in
          res_bind (tla_check P (tla_store (tla_threads st)) (tla_seq st)) (\<lambda>ok.
          if \<not> ok then Inr ((False, Some ([], tla_seq st)), st)
          else if finished_rounds st = tla_max_rounds P then Inr ((True, None), st)
          else res_bind (tla_undo fin new st) (\<lambda>st. Inr ((False, None), st))))
      = Inr ((is_over, r), st')"
    unfolding Tla_ResumeTask_def Let_def k [symmetric] if_not_P [OF False]
    by (elim res_bind_Inr_E) (simp only: split_paired_all prod.case)
  obtain w c h where w: "Resume (env_body E) (tla_world st) (last (tla_threads st ! t)) = Inr (w, c)"
    and fin: "fin = co_is_returned c"
    and st1': "st1 = st\<lparr>tla_frames := (tla_frames st)[step := (tla_frames st ! step)\<lparr>fr_task := Some (last_slot st t)\<rparr>],
       thread_id_history := thread_id_history st @ [t],
       tla_seq := tla_seq st @ (if new then [Invoke (last_slot st t) (int t)] else [])
         @ (if fin then [Response (last_slot st t) (co_ret c) (int t)] else []),
       tla_world := w\<lparr>w_status := None\<rparr>, tla_threads := tla_set (last_slot st t) c (tla_threads st),
       finished_tasks := finished_tasks st + (if fin then 1 else 0), tla_full := h\<rparr>"
    by (rule tla_advance_effect [OF adv E t])
  have "(tla_frames st)[step := (tla_frames st ! step)\<lparr>fr_task := Some (last_slot st t)\<rparr>] = fs @ [?fr]"
    using fs by (auto simp: nth_append list_update_append)
  note st1 = st1' [unfolded this]
  let ?e = "execution_of k st1"
  have e: "exec_resume (env_body E) t new (execution_of k st) = Some ?e"
    using exec_resume_advance [OF w, of st1] st1 fin by blast
  have tok: "same_tokens (tla_world st) w"
    using plain_Resume_tokens [OF _ w] plain by (simp add: plain_target_def)
  note undo = left_over_undo [OF st1 _ tok]
  have path: "at_path E s0 (tla_frames st1) st1"
    using syn [OF w] by (simp add: at_path_def st1)
  have "(\<not> is_over \<and> r = None \<longrightarrow> left_over fs new ?e st st' \<and> accepted P (env_body E) ?e)
      \<and> (\<forall>h. r = Some h \<longrightarrow> refused P (env_body E) ?e h)"
  proof (cases "complete P ?e")
    case True
    then have fm: "finished_tasks st1 = tla_max_tasks P" by (simp add: complete_def execution_of_def)
    let ?st = "st1\<lparr>finished_rounds := Suc (finished_rounds st1)\<rparr>"
    have sp: "same_point st1 ?st" unfolding same_point_def by (metis tla_state.surjective tla_state.update_convs(3,6))
    obtain ok where v: "verdict P ?e = Inr ok"
      and rr: "(if \<not> ok then Inr ((False, Some ([], tla_seq st1)), ?st)
          else if finished_rounds ?st = tla_max_rounds P then Inr ((True, None), ?st)
          else res_bind (tla_undo fin new ?st) (\<lambda>st. Inr ((False, None), st))) = Inr ((is_over, r), st')"
      using rest fm by (auto simp: Let_def verdict_def execution_of_def elim!: res_bind_Inr_E cong: if_cong)
    have "refused P (env_body E) ?e ([], tla_seq st1)" if "\<not> ok"
      using True v that by (auto simp: refused_def execution_of_def intro!: exI [of _ ?e])
    with rr v show ?thesis
      using accepted_complete [OF True, of "env_body E"] undo [OF sp]
      by (auto split: if_splits elim!: res_bind_Inr_E)
  next
    case False
    then have fm: "finished_tasks st1 \<noteq> tla_max_tasks P" by (simp add: complete_def execution_of_def)
    obtain o2 r2 st2 where rc: "rec (Suc step) k st1 = Inr ((o2, r2), st2)"
      and rr: "(if o2 \<or> r2 \<noteq> None then Inr ((o2, r2), st2)
          else res_bind (tla_undo fin new st2) (\<lambda>st. Inr ((False, None), st))) = Inr ((is_over, r), st')"
      using rest fm by (auto elim!: res_bind_Inr_E)
    have "Suc step = length (tla_frames st1)" using fs by (simp add: st1)
    then have "(\<not> o2 \<and> r2 = None \<longrightarrow> same_point st1 st2 \<and> accepted P (env_body E) ?e)
        \<and> (\<forall>h. r2 = Some h \<longrightarrow> refused P (env_body E) ?e h)"
      using rec path False rc unfolding explores_def by blast
    with rr undo show ?thesis by (auto split: if_splits elim!: res_bind_Inr_E)
  qed
  with e False show ?thesis by auto
qed

section \<open>The loops over constructors and threads\<close>

definition loop_point ::
    "frame list \<Rightarrow> ('o, 'a, 'c, 'v) tla_state \<Rightarrow> ('o, 'a, 'c, 'v) tla_state \<Rightarrow> bool" where
  "loop_point fs st0 st \<longleftrightarrow> (\<exists>n h fr. st = st0\<lparr>finished_rounds := n, tla_full := h, tla_frames := fs @ [fr]\<rparr>)"

lemma loop_point_sel:
  assumes "loop_point fs st0 st"
  shows "tla_threads st = tla_threads st0" "tla_world st = tla_world st0"
    "started_tasks st = started_tasks st0" "execution_of k st = execution_of k st0"
    "thread_id_history st = thread_id_history st0" "\<exists>fr. tla_frames st = fs @ [fr]"
  using assms by (auto simp: loop_point_def execution_of_def)

lemma loop_point_frames: "loop_point fs st0 st \<Longrightarrow> loop_point fs st0 (st\<lparr>tla_frames := fs @ [fr]\<rparr>)"
  unfolding loop_point_def by (elim exE) (simp, blast)

lemma set_frame_new_at:
  "tla_frames st = fs @ [fr] \<Longrightarrow>
     set_frame_new (length fs) b st = st\<lparr>tla_frames := fs @ [fr\<lparr>fr_is_new := b\<rparr>]\<rparr>"
  by (simp add: set_frame_new_def list_update_append nth_append)

text \<open>A replay after a branch brings the loop back to its point.\<close>

lemma replay_loop_point:
  assumes plain: "plain_target P E s0" and path: "at_path E s0 fs st0"
    and frs: "tla_frames st = fs @ [fr]" and tok: "same_tokens (tla_world st0) (tla_world st)"
    and ths: "map (map fresh_task) (tla_threads st) = map (map fresh_task) (tla_threads st0)"
    and st: "st\<lparr>tla_threads := tla_threads st0, tla_world := tla_world st0\<rparr> =
      st0\<lparr>finished_rounds := n, tla_full := h, tla_frames := fs @ [fr]\<rparr>"
    and run: "Tla_Replay P E (length fs) st = Inr st'"
  shows "loop_point fs st0 st'"
proof -
  have syn: "synced (env_body E) s0 fs (tla_threads st0) (w_state (tla_world st0))"
      "w_status (tla_world st0) = None"
    using path by (simp_all add: at_path_def)
  have "st' = st\<lparr>tla_threads := tla_threads st0, tla_world := tla_world st0\<rparr>"
    by (rule Tla_Replay_restores [OF plain syn _ ths tok run]) (simp add: frs)
  then show ?thesis unfolding loop_point_def st by blast
qed

lemma last_slot_store:
  "tla_threads st ! t \<noteq> [] \<Longrightarrow> tla_store (tla_threads st) (last_slot st t) = last (tla_threads st ! t)"
  by (simp add: tla_store_def last_conv_nth)

lemma last_slot_in: "t < length (tla_threads st) \<Longrightarrow> tla_threads st ! t \<noteq> [] \<Longrightarrow> slot_in (tla_threads st) (last_slot st t)"
  by (simp add: slot_in_def)

lemma appended_slots:
  assumes "t < length ths"
  shows "slot_in (ths[t := ths ! t @ [c]]) r \<longleftrightarrow> slot_in ths r \<or> r = (t, length (ths ! t))"
    "slot_in (ths[t := ths ! t @ [c]]) r \<Longrightarrow>
      tla_store (ths[t := ths ! t @ [c]]) r = (if r = (t, length (ths ! t)) then c else tla_store ths r)"
  using assms by (cases r; auto simp: slot_in_def tla_store_def nth_list_update nth_append split: if_splits)+

lemma set_appended: "t < length ths \<Longrightarrow>
    tla_set (t, length (ths ! t)) c' (ths[t := ths ! t @ [c]]) = ths[t := ths ! t @ [c']]"
  by (simp add: tla_set_def)

lemma Build_plain:
  assumes "plain_target P E s0" "b \<in> set (tla_constructors P)"
  obtains c where "Build b w t k = (w, c)" "fresh_task c = c" "\<not> co_is_returned c"
proof -
  obtain a where a: "tb_gen b t w = (a, w, None)" using assms unfolding plain_target_def by blast
  show thesis
    by (rule that [of "Coro_New (tb_func b) a (tb_name b) k"]) (simp_all add: Build_def a fresh_task_def Coro_New_def)
qed

lemma constructor_synced:
  assumes plain: "plain_target P E s0" and path: "at_path E s0 fs st0" and t: "t < length (tla_threads st0)"
    and b: "b \<in> set (tla_constructors P)" and wc: "Build b (tla_world st0) t (- 1) = (w, c)"
    and stb: "stb = st\<lparr>tla_world := w,
        tla_threads := (tla_threads st0)[t := tla_threads st0 ! t @ [c]], started_tasks := k\<rparr>"
    and r: "Resume (env_body E) (tla_world stb) (last (tla_threads stb ! t)) = Inr (w', c')"
  shows "synced (env_body E) s0 (fs @ [\<lparr>fr_task = Some (last_slot stb t), fr_is_new = True\<rparr>])
      (tla_set (last_slot stb t) c' (tla_threads stb)) (w_state w')"
proof -
  have body: "plain_body (env_body E)" using plain by (simp add: plain_target_def)
  have w: "w = tla_world st0" "fresh_task c = c"
    using Build_plain [OF plain b, of "tla_world st0" t "- 1"] wc by auto
  have last: "last (tla_threads stb ! t) = c" "last_slot stb t = (t, length (tla_threads st0 ! t))"
    using t by (simp_all add: stb)
  have ths: "tla_set (t, length (tla_threads st0 ! t)) c' (tla_threads stb)
      = (tla_threads st0)[t := tla_threads st0 ! t @ [c']]"
    by (simp add: stb set_appended t)
  show ?thesis
    unfolding last(2) ths
  proof (rule synced_step [OF body _ r [unfolded last(1)]])
    show "synced (env_body E) s0 fs (tla_threads st0) (w_state (tla_world st0))"
      using path by (simp add: at_path_def)
    show "w_state (tla_world stb) = w_state (tla_world st0)" by (simp add: stb w)
    show "\<not> slot_in (tla_threads st0) (t, length (tla_threads st0 ! t)) \<and> c = fresh_task c"
      by (simp add: slot_in_def w)
  qed (use appended_slots [OF t] in simp_all)
qed

text \<open>The branch of one constructor.\<close>

lemma constructor_branch:
  fixes st0 st :: "('o, 'a, 'c, unit) tla_state"
  assumes plain: "plain_target P E s0" and E: "env_verifier E = DefaultStrategyVerifier"
    and rec: "explores P E s0 rec" and t: "t < length (tla_threads st0)"
    and path: "at_path E s0 fs st0" and lp: "loop_point fs st0 st"
    and b: "b \<in> set (tla_constructors P)"
    and wc: "Build b (tla_world st0) t (- 1) = (w, c)"
    and stb: "stb = (set_frame_new (length fs) True st)\<lparr>tla_world := w,
        tla_threads := (tla_threads st0)[t := tla_threads st0 ! t @ [c]], started_tasks := Suc (started_tasks st0)\<rparr>"
    and run: "Tla_ResumeTask rec P E (length fs) (length fs) switches t True stb = Inr ((is_over, r), st1)"
  shows "\<exists>e. exec_resume (env_body E) t True (with_task b t (execution_of switches st0)) = Some e
    \<and> (\<not> is_over \<and> r = None \<longrightarrow> accepted P (env_body E) e
       \<and> (tla_threads st1)[t := butlast (tla_threads st1 ! t)] = tla_threads st0
       \<and> length (tla_threads st1 ! t) = Suc (length (tla_threads st0 ! t))
       \<and> (\<exists>fr. tla_frames st1 = fs @ [fr])
       \<and> (\<forall>st'. Tla_Replay P E (length fs)
            (st1\<lparr>tla_threads := (tla_threads st1)[t := butlast (tla_threads st1 ! t)]\<rparr>) = Inr st' \<longrightarrow> loop_point fs st0 st'))
    \<and> (\<forall>h. r = Some h \<longrightarrow> refused P (env_body E) e h)"
proof -
  note sel = loop_point_sel [OF lp]
  obtain fr where fr: "tla_frames st = fs @ [fr]" using sel(6) by blast
  have w: "w = tla_world st0" "fresh_task c = c"
    using Build_plain [OF plain b, of "tla_world st0" t "- 1"] wc by auto
  note syn = constructor_synced [OF plain path t b wc stb]
  have last: "last (tla_threads stb ! t) = c" "last_slot stb t = (t, length (tla_threads st0 ! t))"
    using t by (simp_all add: stb)
  have ths: "tla_set (last_slot stb t) c' (tla_threads stb)
      = (tla_threads st0)[t := tla_threads st0 ! t @ [c']]" for c'
    unfolding last(2) by (simp add: stb set_appended t)
  note stb = stb [unfolded set_frame_new_at [OF fr]]
  have ex: "execution_of switches stb = with_task b t (execution_of switches st0)"
    using wc loop_point_sel(4,5) [OF lp] lp
    by (auto simp: stb with_task_def execution_of_def loop_point_def)
  note R = Tla_ResumeTask_explores [OF plain E rec _ _ _ refl syn refl run, of "fr\<lparr>fr_is_new := True\<rparr>"]
  have "\<exists>e. exec_resume (env_body E) t True (with_task b t (execution_of switches st0)) = Some e
      \<and> (\<not> is_over \<and> r = None \<longrightarrow> left_over fs True e stb st1 \<and> accepted P (env_body E) e)
      \<and> (\<forall>h. r = Some h \<longrightarrow> refused P (env_body E) e h)"
    using R t by (simp add: ex [symmetric]) (simp add: stb)
  then obtain e where e: "exec_resume (env_body E) t True (with_task b t (execution_of switches st0)) = Some e"
      "\<not> is_over \<and> r = None \<longrightarrow> left_over fs True e stb st1 \<and> accepted P (env_body E) e"
      "\<forall>h. r = Some h \<longrightarrow> refused P (env_body E) e h" by blast
  have "(tla_threads st1)[t := butlast (tla_threads st1 ! t)] = tla_threads st0
      \<and> length (tla_threads st1 ! t) = Suc (length (tla_threads st0 ! t)) \<and> (\<exists>fr. tla_frames st1 = fs @ [fr])
      \<and> (\<forall>st'. Tla_Replay P E (length fs) (st1\<lparr>tla_threads := (tla_threads st1)[t := butlast (tla_threads st1 ! t)]\<rparr>)
          = Inr st' \<longrightarrow> loop_point fs st0 st')"
    if lo: "left_over fs True e stb st1"
  proof (intro conjI allI impI)
    let ?st = "st1\<lparr>tla_threads := (tla_threads st1)[t := butlast (tla_threads st1 ! t)]\<rparr>"
    from e(1) [folded ex] obtain c' where "ex_threads e = tla_set (last_slot stb t) c' (tla_threads stb)"
      by (auto simp: exec_resume_def execution_of_def Let_def simp del: One_nat_def split: sum.splits prod.splits)
    then have ext: "ex_threads e = (tla_threads st0)[t := tla_threads st0 ! t @ [c']]" unfolding ths .
    then have bl: "(ex_threads e)[t := butlast (ex_threads e ! t)] = tla_threads st0"
      using t by (simp add: list_update_overwrite list_update_id)
    obtain fr' n h w' where st1: "same_tokens (tla_world stb) w'" "st1 = stb\<lparr>finished_rounds := n, tla_full := h,
        tla_frames := fs @ [fr'], tla_world := w', tla_threads := ex_threads e, started_tasks := started_tasks stb - 1\<rparr>"
      using lo unfolding left_over_def by auto
    show "(tla_threads st1)[t := butlast (tla_threads st1 ! t)] = tla_threads st0" by (simp add: st1 bl)
    show "length (tla_threads st1 ! t) = Suc (length (tla_threads st0 ! t))" using t by (simp add: st1 ext)
    show "\<exists>fr. tla_frames st1 = fs @ [fr]" by (simp add: st1)
    obtain n0 h0 fr0 where st: "st = st0\<lparr>finished_rounds := n0, tla_full := h0, tla_frames := fs @ [fr0]\<rparr>"
      using lp unfolding loop_point_def by blast
    fix st' assume rep: "Tla_Replay P E (length fs) ?st = Inr st'"
    show "loop_point fs st0 st'"
    proof (rule replay_loop_point [OF plain path _ _ _ _ rep])
      show "tla_frames ?st = fs @ [fr']" by (simp add: st1)
      show "same_tokens (tla_world st0) (tla_world ?st)" using st1 w by (simp add: stb)
      show "map (map fresh_task) (tla_threads ?st) = map (map fresh_task) (tla_threads st0)"
        by (simp add: st1 bl)
      show "?st\<lparr>tla_threads := tla_threads st0, tla_world := tla_world st0\<rparr> =
          st0\<lparr>finished_rounds := n, tla_full := h, tla_frames := fs @ [fr']\<rparr>"
        by (rule tla_state.equality) (simp_all add: st1 stb st)
    qed
  qed
  with e show ?thesis by blast
qed

lemma run_constructors_explores:
  fixes st0 st :: "('o, 'a, 'c, unit) tla_state"
  assumes plain: "plain_target P E s0" and E: "env_verifier E = DefaultStrategyVerifier"
    and rec: "explores P E s0 rec" and t: "t < length (tla_threads st0)" and path: "at_path E s0 fs st0"
  shows "\<lbrakk>set bs \<subseteq> set (tla_constructors P); loop_point fs st0 st;
      run_constructors rec P E (length fs) (length fs) switches t bs st = Inr ((is_over, r), st')\<rbrakk> \<Longrightarrow>
    (\<not> is_over \<and> r = None \<longrightarrow> loop_point fs st0 st' \<and> (\<forall>b \<in> set bs. \<forall>e.
       exec_resume (env_body E) t True (with_task b t (execution_of switches st0)) = Some e \<longrightarrow> accepted P (env_body E) e))
    \<and> (\<forall>h. r = Some h \<longrightarrow> (\<exists>b \<in> set bs. \<exists>e.
       exec_resume (env_body E) t True (with_task b t (execution_of switches st0)) = Some e \<and> refused P (env_body E) e h))"
proof (induction bs arbitrary: st)
  case (Cons b bs)
  obtain w c where wc: "Build b (tla_world st0) t (- 1) = (w, c)" by fastforce
  note sel = loop_point_sel [OF Cons.prems(2)]
  have [simp]: "tla_threads (set_frame_new k x st) = tla_threads st" "tla_world (set_frame_new k x st) = tla_world st"
      "started_tasks (set_frame_new k x st) = started_tasks st" for k x
    by (simp_all add: set_frame_new_def)
  let ?stb = "(set_frame_new (length fs) True st)\<lparr>tla_world := w,
    tla_threads := (tla_threads st0)[t := tla_threads st0 ! t @ [c]], started_tasks := Suc (started_tasks st0)\<rparr>"
  from Cons.prems(3) obtain o1 r1 st1 where
      R: "Tla_ResumeTask rec P E (length fs) (length fs) switches t True ?stb = Inr ((o1, r1), st1)"
    and rest: "(if o1 \<or> r1 \<noteq> None then Inr ((o1, r1), st1)
         else res_bind (cxx_assert ''size_before == size_after'' (length (tla_threads st0 ! t)
             = length ((tla_threads st1)[t := butlast (tla_threads st1 ! t)] ! t))) (\<lambda>_.
           res_bind (Tla_Replay P E (length fs) (st1\<lparr>tla_threads := (tla_threads st1)[t := butlast (tla_threads st1 ! t)]\<rparr>))
             (run_constructors rec P E (length fs) (length fs) switches t bs))) = Inr ((is_over, r), st')"
    by (auto simp: E DefaultStrategyVerifier_def Let_def sel wc simp del: if_split
        elim!: res_bind_Inr_E cong: if_cong)
  have b: "b \<in> set (tla_constructors P)" using Cons.prems(1) by simp
  obtain e where e: "exec_resume (env_body E) t True (with_task b t (execution_of switches st0)) = Some e"
    and acc: "\<not> o1 \<and> r1 = None \<longrightarrow> accepted P (env_body E) e \<and>
         (\<forall>st'. Tla_Replay P E (length fs)
            (st1\<lparr>tla_threads := (tla_threads st1)[t := butlast (tla_threads st1 ! t)]\<rparr>) = Inr st' \<longrightarrow> loop_point fs st0 st')"
    and ref: "\<forall>h. r1 = Some h \<longrightarrow> refused P (env_body E) e h"
    using constructor_branch [OF plain E rec t path Cons.prems(2) b wc refl R] by blast
  show ?case
  proof (cases "o1 \<or> r1 \<noteq> None")
    case True
    then show ?thesis using rest e ref by auto
  next
    case False
    then obtain st2 where st2: "loop_point fs st0 st2"
        "run_constructors rec P E (length fs) (length fs) switches t bs st2 = Inr ((is_over, r), st')"
      using rest acc by (auto elim!: res_bind_Inr_E)
    from Cons.IH [OF _ st2] Cons.prems(1) e acc False show ?thesis by auto
  qed
qed auto

lemma running_synced:
  assumes plain: "plain_target P E s0" and path: "at_path E s0 fs st0" and t: "t < length (tla_threads st0)"
    and ne: "tla_threads st0 ! t \<noteq> []"
    and st: "tla_threads st = tla_threads st0" "tla_world st = tla_world st0"
    and res: "Resume (env_body E) (tla_world st) (last (tla_threads st ! t)) = Inr (w, c)"
  shows "synced (env_body E) s0 (fs @ [\<lparr>fr_task = Some (last_slot st t), fr_is_new = False\<rparr>])
      (tla_set (last_slot st t) c (tla_threads st)) (w_state w)"
proof (rule synced_step [OF _ _ res])
  show "plain_body (env_body E)" using plain by (simp add: plain_target_def)
  show "synced (env_body E) s0 fs (tla_threads st0) (w_state (tla_world st))"
    using path by (simp add: at_path_def st)
qed (use last_slot_in [of t st] last_slot_store [of st t] t ne store_set [of "tla_threads st0"] in \<open>auto simp: st\<close>)

text \<open>The branch of a task that is already running.\<close>

lemma running_branch:
  fixes st0 st :: "('o, 'a, 'c, unit) tla_state"
  assumes plain: "plain_target P E s0" and E: "env_verifier E = DefaultStrategyVerifier"
    and rec: "explores P E s0 rec" and t: "t < length (tla_threads st0)"
    and path: "at_path E s0 fs st0" and lp: "loop_point fs st0 st"
    and ne: "tla_threads st0 ! t \<noteq> []"
    and run: "Tla_ResumeTask rec P E (length fs) (length fs) switches t False
        (set_frame_new (length fs) False st) = Inr ((is_over, r), st1)"
  shows "(\<not> is_over \<and> r = None \<longrightarrow>
      (\<exists>fr. tla_frames st1 = fs @ [fr])
      \<and> (tla_threads st1 = tla_threads st0 \<or> (\<exists>w c. Resume (env_body E) (tla_world st0) (last (tla_threads st0 ! t)) = Inr (w, c)
          \<and> tla_threads st1 = tla_set (last_slot st0 t) c (tla_threads st0)))
      \<and> (\<forall>st'. Tla_Replay P E (length fs) st1 = Inr st' \<longrightarrow> loop_point fs st0 st')
      \<and> (\<forall>e. ex_switches (switched t (execution_of switches st0)) \<le> tla_max_switches P
          \<longrightarrow> exec_resume (env_body E) t False (switched t (execution_of switches st0)) = Some e
          \<longrightarrow> accepted P (env_body E) e))
    \<and> (\<forall>h. r = Some h \<longrightarrow> ex_switches (switched t (execution_of switches st0)) \<le> tla_max_switches P
        \<and> (\<exists>e. exec_resume (env_body E) t False (switched t (execution_of switches st0)) = Some e
          \<and> refused P (env_body E) e h))"
proof -
  obtain n0 h0 fr where st: "st = st0\<lparr>finished_rounds := n0, tla_full := h0, tla_frames := fs @ [fr]\<rparr>"
    using lp unfolding loop_point_def by blast
  let ?st = "st0\<lparr>finished_rounds := n0, tla_full := h0, tla_frames := fs @ [fr\<lparr>fr_is_new := False\<rparr>]\<rparr>"
  have sf: "set_frame_new (length fs) False st = ?st"
    by (subst set_frame_new_at [of st fs fr]) (simp_all add: st)
  have body: "plain_body (env_body E)" using plain by (simp add: plain_target_def)
  define k where "k = (if is_switch t (thread_id_history st0) then Suc switches else switches)"
  have k: "switched t (execution_of switches st0) = execution_of k ?st"
    by (simp add: switched_def k_def execution_of_def)
  have "tla_threads ?st = tla_threads st0" "tla_world ?st = tla_world st0" by simp_all
  note syn = running_synced [OF plain path t ne this]
  have "\<not> is_over \<and> r = None \<and> st1 = ?st \<and> k > tla_max_switches P \<or>
    k \<le> tla_max_switches P \<and> (\<exists>e. exec_resume (env_body E) t False (execution_of k ?st) = Some e
      \<and> (\<not> is_over \<and> r = None \<longrightarrow> left_over fs False e ?st st1 \<and> accepted P (env_body E) e)
      \<and> (\<forall>h. r = Some h \<longrightarrow> refused P (env_body E) e h))"
    using Tla_ResumeTask_explores [OF plain E rec _ _ _ refl syn _ run [unfolded sf], of "fr\<lparr>fr_is_new := False\<rparr>" k] t
    by (auto simp: k_def)
  moreover have "loop_point fs st0 st'" if "st1 = ?st" "Tla_Replay P E (length fs) st1 = Inr st'" for st'
    by (rule replay_loop_point [OF plain path _ _ _ _ that(2), where fr = "fr\<lparr>fr_is_new := False\<rparr>" and n = n0 and h = h0])
      (simp_all add: that(1))
  moreover have "(\<exists>fr. tla_frames st1 = fs @ [fr])
      \<and> (\<exists>w c. Resume (env_body E) (tla_world st0) (last (tla_threads st0 ! t)) = Inr (w, c)
          \<and> tla_threads st1 = tla_set (last_slot st0 t) c (tla_threads st0))
      \<and> (\<forall>st'. Tla_Replay P E (length fs) st1 = Inr st' \<longrightarrow> loop_point fs st0 st')"
    if lo: "left_over fs False e ?st st1" and ex: "exec_resume (env_body E) t False (execution_of k ?st) = Some e" for e
  proof -
    from ex obtain w c where rs: "Resume (env_body E) (tla_world st0) (last (tla_threads st0 ! t)) = Inr (w, c)"
      and ths: "ex_threads e = tla_set (last_slot st0 t) c (tla_threads st0)"
      by (auto simp: exec_resume_def execution_of_def Let_def split: sum.splits prod.splits)
    have fm: "map (map fresh_task) (ex_threads e) = map (map fresh_task) (tla_threads st0)"
      unfolding ths by (rule fresh_map_set) (simp only: Resume_fresh_task [OF rs] last_slot_store [OF ne])
    obtain fr' n h w' where st1: "same_tokens (tla_world ?st) w'" "st1 = ?st\<lparr>finished_rounds := n, tla_full := h,
        tla_frames := fs @ [fr'], tla_world := w', tla_threads := ex_threads e, started_tasks := started_tasks ?st - 0\<rparr>"
      using lo unfolding left_over_def by auto
    have st1': "st1\<lparr>tla_threads := tla_threads st0, tla_world := tla_world st0\<rparr> =
        st0\<lparr>finished_rounds := n, tla_full := h, tla_frames := fs @ [fr']\<rparr>"
      by (rule tla_state.equality) (simp_all add: st1)
    have "loop_point fs st0 st'" if rep: "Tla_Replay P E (length fs) st1 = Inr st'" for st'
      by (rule replay_loop_point [OF plain path _ _ _ st1' rep]) (use st1 fm in simp_all)
    then show ?thesis using rs ths st1(2) by auto
  qed
  ultimately show ?thesis unfolding k by (auto simp: execution_of_def simp del: One_nat_def)
qed

lemma visit_thread_explores:
  fixes st0 st :: "('o, 'a, 'c, unit) tla_state"
  assumes plain: "plain_target P E s0" and E: "env_verifier E = DefaultStrategyVerifier"
    and rec: "explores P E s0 rec" and t: "t < length (tla_threads st0)"
    and path: "at_path E s0 fs st0" and lp: "loop_point fs st0 st"
    and run: "visit_thread rec P E (length fs) (length fs) switches t ap st = Inr ((is_over, r), ap', st')"
  shows "(\<not> is_over \<and> r = None \<longrightarrow> loop_point fs st0 st'
      \<and> (\<forall>e. thread_step P (env_body E) t (execution_of switches st0) e \<longrightarrow> accepted P (env_body E) e))
    \<and> (\<forall>h. r = Some h \<longrightarrow> (\<exists>e. thread_step P (env_body E) t (execution_of switches st0) e
        \<and> refused P (env_body E) e h))"
proof -
  note sel = loop_point_sel [OF lp]
  let ?e = "execution_of switches st0" and ?tasks = "tla_threads st0 ! t"
  have ths: "ex_threads ?e = tla_threads st0" "ex_world ?e = tla_world st0" "ex_started ?e = started_tasks st0"
    by (simp_all add: execution_of_def)
  consider (idle) "idle ?tasks" | (parked) "\<not> idle ?tasks" "IsParked (tla_world st0) (last ?tasks)"
    | (running) "\<not> idle ?tasks" "\<not> IsParked (tla_world st0) (last ?tasks)" by blast
  then show ?thesis
  proof cases
    case idle
    show ?thesis
    proof (cases "started_tasks st0 \<noteq> tla_max_tasks P \<and> length ?tasks < tla_max_depth P")
      case True
      then have "run_constructors rec P E (length fs) (length fs) switches t (tla_constructors P) st = Inr ((is_over, r), st')"
        using run idle t by (auto simp: visit_thread_def idle_def sel elim!: res_bind_Inr_E split: if_splits)
      note C = run_constructors_explores [OF plain E rec t path subset_refl lp this]
      have iff: "thread_step P (env_body E) t ?e e \<longleftrightarrow>
          (\<exists>b \<in> set (tla_constructors P). exec_resume (env_body E) t True (with_task b t ?e) = Some e)" for e
        using idle True by (auto simp: thread_step.simps ths)
      show ?thesis using C unfolding iff by blast
    next
      case False
      then show ?thesis
        using run idle t lp by (auto simp: visit_thread_def idle_def sel thread_step.simps ths split: if_splits)
    qed
  next
    case parked
    then show ?thesis
      using run t lp by (auto simp: visit_thread_def idle_def sel thread_step.simps ths split: if_splits)
  next
    case running
    then have ne: "?tasks \<noteq> []" by (auto simp: idle_def)
    from running run t obtain o1 r1 st1 where
        R: "Tla_ResumeTask rec P E (length fs) (length fs) switches t False
          (set_frame_new (length fs) False st) = Inr ((o1, r1), st1)"
      and rest: "(if o1 \<or> r1 \<noteq> None then Inr ((o1, r1), False, st1)
           else res_bind (Tla_Replay P E (length fs) st1) (\<lambda>st. Inr ((False, None), False, st)))
         = Inr ((is_over, r), ap', st')"
      by (auto simp: visit_thread_def idle_def sel E DefaultStrategyVerifier_def simp del: if_split
          elim!: res_bind_Inr_E cong: if_cong)
    note B = running_branch [OF plain E rec t path lp ne R]
    show ?thesis
      using B rest running by (auto simp: thread_step.simps ths split: if_splits elim!: res_bind_Inr_E)
  qed
qed

lemma run_threads_explores:
  fixes st0 st :: "('o, 'a, 'c, unit) tla_state"
  assumes plain: "plain_target P E s0" and E: "env_verifier E = DefaultStrategyVerifier"
    and rec: "explores P E s0 rec" and path: "at_path E s0 fs st0"
  shows "\<lbrakk>\<forall>t \<in> set ts. t < length (tla_threads st0); loop_point fs st0 st;
      run_threads rec P E (length fs) (length fs) switches ts ap st = Inr ((is_over, r), ap', st')\<rbrakk> \<Longrightarrow>
    (\<not> is_over \<and> r = None \<longrightarrow> loop_point fs st0 st'
      \<and> (\<forall>t \<in> set ts. \<forall>e. thread_step P (env_body E) t (execution_of switches st0) e \<longrightarrow> accepted P (env_body E) e))
    \<and> (\<forall>h. r = Some h \<longrightarrow> (\<exists>t \<in> set ts. \<exists>e. thread_step P (env_body E) t (execution_of switches st0) e
        \<and> refused P (env_body E) e h))"
proof (induction ts arbitrary: ap st)
  case (Cons t ts)
  from Cons.prems(3) obtain o1 r1 ap1 st1 where
      v: "visit_thread rec P E (length fs) (length fs) switches t ap st = Inr ((o1, r1), ap1, st1)"
    and rest: "(if o1 \<or> r1 \<noteq> None then Inr ((o1, r1), ap1, st1)
        else run_threads rec P E (length fs) (length fs) switches ts ap1 st1) = Inr ((is_over, r), ap', st')"
    by (auto elim!: res_bind_Inr_E simp del: if_split)
  have t: "t < length (tla_threads st0)" using Cons.prems(1) by simp
  note V = visit_thread_explores [OF plain E rec t path Cons.prems(2) v]
  show ?case
  proof (cases "o1 \<or> r1 \<noteq> None")
    case True
    then show ?thesis using rest V by auto
  next
    case False
    with rest V have "loop_point fs st0 st1"
      "run_threads rec P E (length fs) (length fs) switches ts ap1 st1 = Inr ((is_over, r), ap', st')" by simp_all
    from Cons.IH [OF _ this] Cons.prems(1) V False show ?thesis by auto
  qed
qed auto

lemma Tla_RunStep_explores:
  fixes P :: "('o, 'a, 'c) tla_params" and E :: "('o, 'c, unit, 'g) runtime_env"
  assumes plain: "plain_target P E s0" and E: "env_verifier E = DefaultStrategyVerifier"
  shows "explores P E s0 (Tla_RunStep fuel P E)"
proof (induction fuel)
  case (Suc fuel)
  show ?case
    unfolding explores_def
  proof (intro allI impI, elim conjE)
    fix step switches st is_over r st'
    assume path: "at_path E s0 (tla_frames st) st" and step: "step = length (tla_frames st)"
      and nc: "\<not> complete P (execution_of switches st)"
      and run: "Tla_RunStep (Suc fuel) P E step switches st = Inr ((is_over, r), st')"
    let ?e = "execution_of switches st" and ?fs = "tla_frames st"
    let ?st = "st\<lparr>tla_frames := ?fs @ [\<lparr>fr_task = None, fr_is_new = False\<rparr>]\<rparr>"
    from run obtain o1 r1 ap1 st1 where
        rt: "run_threads (Tla_RunStep fuel P E) P E (length ?fs) (length ?fs) switches
          [0..<length (tla_threads st)] True ?st = Inr ((o1, r1), ap1, st1)"
      and rest: "(if o1 \<or> r1 \<noteq> None then Inr ((o1, r1), st1)
          else res_bind (cxx_assert ''!all_parked && deadlock'' (\<not> ap1)) (\<lambda>_.
            Inr ((False, None), st1\<lparr>tla_frames := butlast (tla_frames st1)\<rparr>))) = Inr ((is_over, r), st')"
      unfolding step by (auto elim!: res_bind_Inr_E simp del: if_split)
    have lp: "loop_point ?fs st ?st"
      unfolding loop_point_def
      by (rule exI [of _ "finished_rounds st"], rule exI [of _ "tla_full st"], rule exI) simp
    note T = run_threads_explores [OF plain E Suc.IH path _ lp rt]
    have step_of: "tla_step P (env_body E) ?e e \<longleftrightarrow>
        (\<exists>t \<in> set [0..<length (tla_threads st)]. thread_step P (env_body E) t ?e e)" for e
      using nc by (auto simp: tla_step_def execution_of_def)
    have "same_point st st'" if lp1: "loop_point ?fs st st1" and none: "\<not> o1 \<and> r1 = None"
    proof -
      obtain n h fr where "st1 = st\<lparr>finished_rounds := n, tla_full := h, tla_frames := ?fs @ [fr]\<rparr>"
        using lp1 unfolding loop_point_def by blast
      then have "st' = st\<lparr>finished_rounds := n, tla_full := h\<rparr>"
        using rest none by (auto simp: res_bind_Inr_iff intro!: tla_state.equality)
      then show ?thesis unfolding same_point_def by blast
    qed
    moreover have "accepted P (env_body E) ?e"
      if "\<forall>t \<in> set [0..<length (tla_threads st)]. \<forall>e. thread_step P (env_body E) t ?e e \<longrightarrow> accepted P (env_body E) e"
      using accepted_step [OF nc] step_of that by blast
    moreover have "refused P (env_body E) ?e h"
      if "\<exists>t \<in> set [0..<length (tla_threads st)]. \<exists>e. thread_step P (env_body E) t ?e e \<and> refused P (env_body E) e h" for h
      using refused_step step_of that by blast
    ultimately show "(\<not> is_over \<and> r = None \<longrightarrow> same_point st st' \<and> accepted P (env_body E) ?e)
        \<and> (\<forall>h. r = Some h \<longrightarrow> refused P (env_body E) ?e h)"
      using T rest by (auto simp: res_bind_Inr_iff split: if_splits)
  qed
qed (simp add: explores_def)

section \<open>A racy counter and a sound one\<close>

text \<open>
  A method that increments a counter and returns the old value, with a yield between the read
  and the write, and the same in one slice. The check asks for different answers.
\<close>

definition racy_body :: "(int, nat) body" where
  "racy_body k w = (case k of
     0 \<Rightarrow> (w, Yield (Suc (nat (w_state w))))
   | Suc v \<Rightarrow> (w\<lparr>w_state := int v + 1\<rparr>, Return (vw_int (int v))))"

definition atomic_body :: "(int, nat) body" where
  "atomic_body k w = (w\<lparr>w_state := w_state w + 1\<rparr>, Return (vw_int (w_state w)))"

definition counter_env :: "(int, nat) body \<Rightarrow> (int, nat, unit, unit) runtime_env" where
  "counter_env body = sample_env\<lparr>env_body := body\<rparr>"

definition distinct_answers :: "(slot \<Rightarrow> (int, nat) coro) \<Rightarrow> seq_history \<Rightarrow> bool res" where
  "distinct_answers _ h = Inr (distinct (map (vw_to_string \<circ> result) (filter (\<lambda>e. \<not> is_invoke e) h)))"

definition counter_params :: "nat \<Rightarrow> (int, int, nat) tla_params" where
  "counter_params depth = \<lparr>tla_max_tasks = 2, tla_max_rounds = 100, tla_max_switches = 1, tla_max_depth = depth,
     tla_constructors = [sample_builder ''inc'' 0], tla_check = distinct_answers, tla_cancel = (\<lambda>w. w)\<rparr>"

abbreviation counter_run :: "(int, nat) body \<Rightarrow> nat \<Rightarrow> (tla_result \<times> (int, int, nat, unit) tla_state) res" where
  "counter_run body depth \<equiv> Tla_Run (counter_params depth) (counter_env body) (TLAScheduler 2 sample_world ())"

lemma counter_runs:
  "case counter_run atomic_body 1 of Inl _ \<Rightarrow> False | Inr (r, st) \<Rightarrow> (\<not> fst r \<and> Option.is_none (snd r)) \<and> finished_rounds st = 2"
  "case counter_run racy_body 1 of Inl _ \<Rightarrow> False | Inr ((b, r), st) \<Rightarrow> \<not> b \<and> map_option (length \<circ> snd) r = Some 4"
  by code_simp+

end
