(* ===== verification/Tla_Total.thy ===== *)
theory Tla_Total
  imports Tla_Exhaustive
begin

text \<open>
  \<open>TLAScheduler\<close> ends. For a target without tokens and status reports whose methods end after a
  bounded number of slices, the depth of the recursion is bounded by the work that is left, no
  assertion fails, and a branch that is left without a result leaves no trace in the full
  history.
\<close>

declare split_paired_All [simp del] split_paired_Ex [simp del]

section \<open>Bounded targets\<close>

definition bounded_target ::
    "('o, 'a, 'c) tla_params \<Rightarrow> ('o, 'c, 'v, 'g) runtime_env \<Rightarrow> ('c \<Rightarrow> nat) \<Rightarrow> nat \<Rightarrow> bool" where
  "bounded_target P E rank K \<longleftrightarrow> wait_free_body (env_body E) rank \<and> K < max_tries
     \<and> (\<forall>c w. w_status (fst (env_body E c w)) = w_status w)
     \<and> (\<forall>b \<in> set (tla_constructors P). \<forall>a. rank (tb_func b a) < K)
     \<and> (\<forall>s h. \<exists>b. tla_check P s h = Inr b)"

text \<open>The part of it that is about the slices, and a checker that does not fail on the executions that are still possible.\<close>

definition sliced_target ::
    "('o, 'a, 'c) tla_params \<Rightarrow> ('o, 'c, 'v, 'g) runtime_env \<Rightarrow> ('c \<Rightarrow> nat) \<Rightarrow> nat \<Rightarrow> bool" where
  "sliced_target P E rank K \<longleftrightarrow> wait_free_body (env_body E) rank \<and> K < max_tries
     \<and> (\<forall>c w. w_status (fst (env_body E c w)) = w_status w)
     \<and> (\<forall>b \<in> set (tla_constructors P). \<forall>a. rank (tb_func b a) < K)"

definition judged :: "('o, 'a, 'c) tla_params \<Rightarrow> ('o, 'c) body \<Rightarrow> ('o, 'a, 'c) execution \<Rightarrow> bool" where
  "judged P body e \<longleftrightarrow> (\<forall>e'. (tla_step P body)\<^sup>*\<^sup>* e e' \<longrightarrow> complete P e' \<longrightarrow> (\<exists>b. verdict P e' = Inr b))"

lemma bounded_target_sliced: "bounded_target P E rank K \<Longrightarrow> sliced_target P E rank K \<and> judged P body e"
  by (simp add: bounded_target_def sliced_target_def judged_def verdict_def)

lemma judged_step: "judged P body e \<Longrightarrow> tla_step P body e e' \<Longrightarrow> judged P body e'"
  unfolding judged_def by (meson converse_rtranclp_into_rtranclp)

lemma judged_verdict: "judged P body e \<Longrightarrow> complete P e \<Longrightarrow> \<exists>b. verdict P e = Inr b"
  unfolding judged_def by blast

definition tame_task :: "('c \<Rightarrow> nat) \<Rightarrow> nat \<Rightarrow> ('a, 'c) coro \<Rightarrow> bool" where
  "tame_task rank K c \<longleftrightarrow> co_token c = None \<and> rank (co_ctx c) < K"

definition tame :: "('c \<Rightarrow> nat) \<Rightarrow> nat \<Rightarrow> ('a, 'c) coro list list \<Rightarrow> bool" where
  "tame rank K ths \<longleftrightarrow> (\<forall>th \<in> set ths. \<forall>c \<in> set th. tame_task rank K c)"

definition thread_work :: "('c \<Rightarrow> nat) \<Rightarrow> ('a, 'c) coro list list \<Rightarrow> nat" where
  "thread_work rank ths = sum_list (map (\<lambda>th. sum_list (map (work rank) th)) ths)"

definition work_left ::
    "('o, 'a, 'c) tla_params \<Rightarrow> ('c \<Rightarrow> nat) \<Rightarrow> nat \<Rightarrow> ('o, 'a, 'c, 'v) tla_state \<Rightarrow> nat" where
  "work_left P rank K st = thread_work rank (tla_threads st) + (tla_max_tasks P - started_tasks st) * Suc K"

lemma Resume_bounded:
  assumes "wait_free_body body rank" "Resume body w c = Inr (w', c')"
  shows "work rank c' < work rank c" "tame_task rank K c \<Longrightarrow> tame_task rank K c'"
proof -
  have b: "case snd (body (co_ctx c) w) of Yield k' \<Rightarrow> rank k' < rank (co_ctx c) | Futex_Wait _ _ _ \<Rightarrow> False | Return _ \<Rightarrow> True"
    using assms(1) by (simp add: wait_free_body_def)
  then show "work rank c' < work rank c"
    using assms(2) by (auto simp: Resume_Inr_iff work_def split: prod.splits slice_end.splits)
  show "tame_task rank K c'" if "tame_task rank K c"
    using assms(2) b that by (auto simp: Resume_Inr_iff tame_task_def split: prod.splits slice_end.splits)
qed

lemma Resume_status:
  "\<forall>c w. w_status (fst (body c w)) = w_status w \<Longrightarrow> Resume body w c = Inr (w', c') \<Longrightarrow> w_status w' = w_status w"
  by (cases "body (co_ctx c) w"; cases "snd (body (co_ctx c) w)")
    (auto simp: Resume_Inr_iff dest!: spec [of _ "co_ctx c"] spec [of _ w])

section \<open>Terminating and replaying\<close>

lemma terminate_loop_total:
  "wait_free_body body rank \<Longrightarrow> tries + work rank c < max_tries \<Longrightarrow>
     \<exists>w' c'. terminate_loop body tries w c = Inr (w', c')"
proof (induction "work rank c" arbitrary: tries w c rule: less_induct)
  case less
  show ?case
  proof (cases "co_is_returned c")
    case False
    then obtain v d where d: "Resume body w c = Inr (v, d)" using Resume_not_returned by blast
    note dec = Resume_bounded(1) [OF less.prems(1) d]
    then have "\<exists>w' c'. terminate_loop body (Suc tries) v d = Inr (w', c')"
      using less.prems by (intro less.hyps) auto
    then show ?thesis using d False dec less.prems(2) by (simp add: terminate_loop.simps [of body tries w c])
  qed (simp add: terminate_loop.simps [of body tries w c])
qed

lemma tame_work: "tame_task rank K c \<Longrightarrow> work rank c \<le> K"
  by (simp add: tame_task_def work_def)

lemma tla_terminate_thread_total:
  assumes "wait_free_body body rank" "K < max_tries"
  shows "\<forall>c \<in> set th. tame_task rank K c \<Longrightarrow> \<exists>w' th'. tla_terminate_thread body w th = Inr (w', th')"
proof (induction th arbitrary: w)
  case (Cons c cs)
  have "work rank c < max_tries" using tame_work [of rank K c] Cons.prems assms(2) by simp
  then obtain v d where "(if \<not> co_is_returned c then Terminate body w c else Inr (w, c)) = Inr (v, d)"
    using terminate_loop_total [OF assms(1), of 0 c w] by (cases "co_is_returned c") (auto simp: Terminate_def)
  with Cons.IH [of v] Cons.prems show ?case by auto
qed simp

lemma tla_terminate_threads_total:
  assumes "wait_free_body body rank" "K < max_tries"
  shows "tame rank K ths \<Longrightarrow> \<exists>w' ths'. tla_terminate_threads body w ths = Inr (w', ths')"
proof (induction ths arbitrary: w)
  case (Cons th ths)
  from tla_terminate_thread_total [OF assms, of th w] Cons.prems obtain v th' where
    "tla_terminate_thread body w th = Inr (v, th')" by (auto simp: tame_def)
  with Cons.IH [of v] Cons.prems show ?case by (auto simp: tame_def)
qed simp

lemma Tla_Replay_total:
  assumes plain: "plain_target P E s0" and bd: "sliced_target P E rank K"
    and syn: "synced (env_body E) s0 fs ths s"
    and st: "tla_frames st = fs @ [fr]" "map (map fresh_task) (tla_threads st) = map (map fresh_task) ths"
    and tame: "tame rank K (tla_threads st)"
  shows "\<exists>st'. Tla_Replay P E (length fs) st = Inr st' \<and> tla_full st' = tla_full st"
proof -
  have body: "plain_body (env_body E)" and reset: "\<And>s. env_reset E s = s0"
    using plain by (simp_all add: plain_target_def)
  obtain v ths0 where t: "tla_terminate_threads (env_body E) (tla_cancel P (tla_world st)) (tla_threads st) = Inr (v, ths0)"
    using tla_terminate_threads_total [OF _ _ tame] bd unfolding sliced_target_def by blast
  note e = tla_terminate_threads_effect [OF body t]
  obtain w1 where "replay_frames (env_body E) fs (ths0, v\<lparr>w_state := s0\<rparr>) = Inr (ths, w1)"
    by (rule synced_restores [OF syn, of ths0 "v\<lparr>w_state := s0\<rparr>"]) (use e st(2) in auto)
  then show ?thesis
    using t st(1) by (simp add: Tla_Replay_def Tla_TerminateTasks_def reset)
qed

section \<open>Resuming a task\<close>

definition completes ::
    "('o, 'a, 'c) tla_params \<Rightarrow> ('o, 'c, unit, 'g) runtime_env \<Rightarrow> 'o \<Rightarrow> ('c \<Rightarrow> nat) \<Rightarrow> nat \<Rightarrow> nat
      \<Rightarrow> (nat \<Rightarrow> nat \<Rightarrow> ('o, 'a, 'c, unit) tla_state \<Rightarrow> (tla_result \<times> ('o, 'a, 'c, unit) tla_state) res) \<Rightarrow> bool" where
  "completes P E s0 rank K n rec \<longleftrightarrow> (\<forall>step switches st.
     at_path E s0 (tla_frames st) st \<and> step = length (tla_frames st) \<and> tla_threads st \<noteq> []
       \<and> \<not> complete P (execution_of switches st) \<and> tame rank K (tla_threads st)
       \<and> started_tasks st \<le> tla_max_tasks P \<and> work_left P rank K st < n
       \<and> judged P (env_body E) (execution_of switches st) \<longrightarrow>
     (\<exists>is_over r st'. rec step switches st = Inr ((is_over, r), st')
        \<and> (\<not> is_over \<and> r = None \<longrightarrow> tla_full st' = tla_full st)))"

lemma tla_set_work:
  assumes "slot_in ths r" "work rank c < work rank (tla_store ths r)"
  shows "thread_work rank (tla_set r c ths) < thread_work rank ths"
proof -
  have "sum_list (map (work rank) ((ths ! fst r)[snd r := c])) < sum_list (map (work rank) (ths ! fst r))"
    using assms by (simp add: map_update sum_list_update_less slot_in_def tla_store_def)
  then show ?thesis using assms(1)
    by (simp add: thread_work_def tla_set_def map_update sum_list_update_less slot_in_def)
qed

lemma tame_set: "tame rank K ths \<Longrightarrow> tame_task rank K c \<Longrightarrow> tame rank K (tla_set r c ths)"
proof (cases "fst r < length ths")
  case True
  assume "tame rank K ths" "tame_task rank K c"
  then have "\<forall>d \<in> set ((ths ! fst r)[snd r := c]). tame_task rank K d"
    using True set_update_subset_insert [of "ths ! fst r" "snd r" c] nth_mem [OF True] unfolding tame_def by blast
  then show ?thesis
    using \<open>tame rank K ths\<close> set_update_subset_insert [of ths "fst r"] unfolding tame_def tla_set_def by blast
qed (simp add: tla_set_def list_update_beyond)

lemma tame_last: "tame rank K ths \<Longrightarrow> t < length ths \<Longrightarrow> ths ! t \<noteq> [] \<Longrightarrow> tame_task rank K (last (ths ! t))"
  unfolding tame_def by (meson last_in_set nth_mem)

lemma tla_advance_total:
  fixes st :: "('o, 'a, 'c, unit) tla_state"
  assumes E: "env_verifier E = DefaultStrategyVerifier" and bd: "sliced_target P E rank K"
    and t: "t < length (tla_threads st)" "\<not> idle (tla_threads st ! t)" and tame: "tame rank K (tla_threads st)"
    and w: "w_status (tla_world st) = None"
  shows "\<exists>fin st1. tla_advance E fi t new st = Inr (fin, st1)
    \<and> tla_full st1 = tla_full st @ [(t, Inl (last_slot st t))]"
proof -
  have ne: "tla_threads st ! t \<noteq> []" "\<not> co_is_returned (last (tla_threads st ! t))"
    using t(2) by (auto simp: idle_def)
  obtain w' c where r: "Resume (env_body E) (tla_world st) (last (tla_threads st ! t)) = Inr (w', c)"
    using Resume_not_returned [OF ne(2)] by blast
  have "w_status w' = None" using Resume_status [OF _ r] bd w by (simp add: sliced_target_def)
  moreover have "co_token (last (tla_threads st ! t)) = None"
    using tame_last [OF tame t(1) ne(1)] by (simp add: tame_task_def)
  ultimately show ?thesis
    using t(1) ne r by (auto simp: tla_advance_def IsParked_def UpdateFullHistory_def Let_def E
        DefaultStrategyVerifier_def GetRetVal_def)
qed

lemma tla_undo_total:
  assumes "tla_full st = h @ [(t, Inl x)]"
  shows "\<exists>st'. tla_undo fin new st = Inr st' \<and> tla_full st' = h"
  using assms by (simp add: tla_undo_def undo_full_history_def Let_def)

lemma Tla_ResumeTask_total:
  fixes st :: "('o, 'a, 'c, unit) tla_state"
  assumes plain: "plain_target P E s0" and E: "env_verifier E = DefaultStrategyVerifier"
    and bd: "sliced_target P E rank K" and rec: "completes P E s0 rank K n rec"
    and t: "t < length (tla_threads st)" "\<not> idle (tla_threads st ! t)" and tame: "tame rank K (tla_threads st)"
    and w: "w_status (tla_world st) = None" and started: "started_tasks st \<le> tla_max_tasks P"
    and fs: "tla_frames st = fs @ [fr]" "fr_is_new fr = new" "length fs = step"
    and syn: "\<And>w c. Resume (env_body E) (tla_world st) (last (tla_threads st ! t)) = Inr (w, c) \<Longrightarrow>
      synced (env_body E) s0 (fs @ [\<lparr>fr_task = Some (last_slot st t), fr_is_new = new\<rparr>])
        (tla_set (last_slot st t) c (tla_threads st)) (w_state w)"
    and left: "work_left P rank K st \<le> n"
    and k: "k = (if \<not> new \<and> is_switch t (thread_id_history st) then Suc switches else switches)"
    and jd: "\<And>e. exec_resume (env_body E) t new (execution_of k st) = Some e \<Longrightarrow> new \<or> k \<le> tla_max_switches P \<Longrightarrow> judged P (env_body E) e"
  shows "\<exists>is_over r st'. Tla_ResumeTask rec P E step step switches t new st = Inr ((is_over, r), st')
    \<and> (\<not> is_over \<and> r = None \<longrightarrow> tla_full st' = tla_full st)"
proof -
  let ?fr = "\<lparr>fr_task = Some (last_slot st t), fr_is_new = new\<rparr>"
  obtain fin st1 where adv: "tla_advance E step t new st = Inr (fin, st1)"
    and full: "tla_full st1 = tla_full st @ [(t, Inl (last_slot st t))]"
    using tla_advance_total [OF E bd t tame w] by blast
  obtain w' c h where res: "Resume (env_body E) (tla_world st) (last (tla_threads st ! t)) = Inr (w', c)"
    and fin: "fin = co_is_returned c"
    and st1': "st1 = st\<lparr>tla_frames := (tla_frames st)[step := (tla_frames st ! step)\<lparr>fr_task := Some (last_slot st t)\<rparr>],
       thread_id_history := thread_id_history st @ [t],
       tla_seq := tla_seq st @ (if new then [Invoke (last_slot st t) (int t)] else [])
         @ (if fin then [Response (last_slot st t) (co_ret c) (int t)] else []),
       tla_world := w'\<lparr>w_status := None\<rparr>, tla_threads := tla_set (last_slot st t) c (tla_threads st),
       finished_tasks := finished_tasks st + (if fin then 1 else 0), tla_full := h\<rparr>"
    by (rule tla_advance_effect [OF adv E t(1)])
  have frs: "(tla_frames st)[step := (tla_frames st ! step)\<lparr>fr_task := Some (last_slot st t)\<rparr>] = fs @ [?fr]"
    using fs by (auto simp: nth_append list_update_append)
  note st1 = st1' [unfolded frs]
  have ne: "tla_threads st ! t \<noteq> []" using t(2) by (auto simp: idle_def)
  have wf: "wait_free_body (env_body E) rank" using bd by (simp add: sliced_target_def)
  note slot = last_slot_in [OF t(1) ne] last_slot_store [OF ne]
  have "thread_work rank (tla_threads st1) < thread_work rank (tla_threads st)"
    using tla_set_work [OF slot(1), of rank c] Resume_bounded(1) [OF wf res] slot(2) by (simp add: st1)
  then have wl: "work_left P rank K st1 < n" using left by (simp add: work_left_def st1)
  have tame1: "tame rank K (tla_threads st1)"
    using tame_set [OF tame Resume_bounded(2) [OF wf res tame_last [OF tame t(1) ne]]] by (simp add: st1)
  have path: "at_path E s0 (tla_frames st1) st1" using syn [OF res] by (simp add: at_path_def st1)
  have "exec_resume (env_body E) t new (execution_of k st) = Some (execution_of k st1)"
    using exec_resume_advance [OF res, of st1] st1 fin by blast
  note jd1 = jd [OF this]
  have rc: "\<exists>o2 r2 st2. rec (Suc step) k st1 = Inr ((o2, r2), st2) \<and> (\<not> o2 \<and> r2 = None \<longrightarrow> tla_full st2 = tla_full st1)"
    if "finished_tasks st1 \<noteq> tla_max_tasks P" and kk: "new \<or> k \<le> tla_max_switches P"
  proof -
    have "Suc step = length (tla_frames st1)" "tla_threads st1 \<noteq> []" "started_tasks st1 \<le> tla_max_tasks P"
      "\<not> complete P (execution_of k st1)"
      using fs that t(1) started by (auto simp: st1 complete_def execution_of_def tla_set_def)
    then show ?thesis using rec path tame1 wl jd1 [OF kk] unfolding completes_def by blast
  qed
  have un: "\<exists>st'. tla_undo fin new st2 = Inr st' \<and> tla_full st' = tla_full st" if "tla_full st2 = tla_full st1" for st2
    using tla_undo_total that full by metis
  show ?thesis
  proof (cases "\<not> new \<and> k > tla_max_switches P")
    case True
    show ?thesis unfolding Tla_ResumeTask_def Let_def k [symmetric] if_P [OF True] by auto
  next
    case False
    then have kk: "new \<or> k \<le> tla_max_switches P" by auto
    show ?thesis
    proof (cases "finished_tasks st1 = tla_max_tasks P")
      case True
      then have "complete P (execution_of k st1)" by (simp add: complete_def execution_of_def)
      then obtain ok where "tla_check P (tla_store (tla_threads st1)) (tla_seq st1) = Inr ok"
        using judged_verdict [OF jd1 [OF kk]] by (auto simp: verdict_def execution_of_def)
      with True show ?thesis
        using adv un [of "st1\<lparr>finished_rounds := Suc (finished_rounds st1)\<rparr>"]
        unfolding Tla_ResumeTask_def Let_def k [symmetric] if_not_P [OF False] by auto
    next
      case fm: False
      then obtain o2 r2 st2 where "rec (Suc step) k st1 = Inr ((o2, r2), st2)"
        "\<not> o2 \<and> r2 = None \<longrightarrow> tla_full st2 = tla_full st1" using rc kk by blast
      then show ?thesis
        using adv fm un [of st2] unfolding Tla_ResumeTask_def Let_def k [symmetric] if_not_P [OF False]
        by (cases "o2 \<or> r2 \<noteq> None") auto
    qed
  qed
qed

section \<open>The loops\<close>

text \<open>The point of the loop, with the full history as it was.\<close>

definition loop_start ::
    "frame list \<Rightarrow> ('o, 'a, 'c, 'v) tla_state \<Rightarrow> ('o, 'a, 'c, 'v) tla_state \<Rightarrow> bool" where
  "loop_start fs st0 st \<longleftrightarrow> loop_point fs st0 st \<and> tla_full st = tla_full st0"

lemma tame_append:
  "tame rank K ths \<Longrightarrow> tame_task rank K c \<Longrightarrow> t < length ths \<Longrightarrow> tame rank K (ths[t := ths ! t @ [c]])"
proof -
  assume a: "tame rank K ths" "tame_task rank K c" "t < length ths"
  then have "\<forall>d \<in> set (ths ! t @ [c]). tame_task rank K d" using nth_mem [of t ths] unfolding tame_def by auto
  then show ?thesis using a(1) set_update_subset_insert [of ths t] unfolding tame_def by blast
qed

lemma thread_work_append:
  "t < length ths \<Longrightarrow> thread_work rank (ths[t := ths ! t @ [c]]) = thread_work rank ths + work rank c"
  by (simp add: thread_work_def map_update sum_list_update)

lemma constructor_total:
  fixes st0 st :: "('o, 'a, 'c, unit) tla_state"
  assumes plain: "plain_target P E s0" and E: "env_verifier E = DefaultStrategyVerifier"
    and bd: "sliced_target P E rank K" and ex: "explores P E s0 rec" and rec: "completes P E s0 rank K n rec"
    and t: "t < length (tla_threads st0)" and path: "at_path E s0 fs st0"
    and tame: "tame rank K (tla_threads st0)" and started: "started_tasks st0 < tla_max_tasks P"
    and left: "work_left P rank K st0 \<le> n"
    and ls: "loop_start fs st0 st" and b: "b \<in> set (tla_constructors P)"
    and wc: "Build b (tla_world st0) t (- 1) = (w, c)"
    and stb: "stb = (set_frame_new (length fs) True st)\<lparr>tla_world := w,
        tla_threads := (tla_threads st0)[t := tla_threads st0 ! t @ [c]], started_tasks := Suc (started_tasks st0)\<rparr>"
    and jd: "\<forall>e. exec_resume (env_body E) t True (with_task b t (execution_of switches st0)) = Some e \<longrightarrow> judged P (env_body E) e"
  shows "\<exists>is_over r st1. Tla_ResumeTask rec P E (length fs) (length fs) switches t True stb = Inr ((is_over, r), st1)
    \<and> (\<not> is_over \<and> r = None \<longrightarrow> (tla_threads st1)[t := butlast (tla_threads st1 ! t)] = tla_threads st0
       \<and> (\<exists>st'. Tla_Replay P E (length fs)
            (st1\<lparr>tla_threads := (tla_threads st1)[t := butlast (tla_threads st1 ! t)]\<rparr>) = Inr st' \<and> loop_start fs st0 st'))"
proof -
  have lp: "loop_point fs st0 st" using ls by (simp add: loop_start_def)
  obtain fr where fr: "tla_frames st = fs @ [fr]" using loop_point_sel(6) [OF lp] by blast
  obtain a where a: "tb_gen b t (tla_world st0) = (a, tla_world st0, None)"
    using plain b unfolding plain_target_def by blast
  then have c: "w = tla_world st0" "c = Coro_New (tb_func b) a (tb_name b) (- 1)"
    using wc by (simp_all add: Build_def)
  then have tc: "tame_task rank K c" "\<not> co_is_returned c"
    using bd b by (simp_all add: tame_task_def Coro_New_def sliced_target_def)
  note syn = constructor_synced [OF plain path t b wc stb]
  note stb' = stb [unfolded set_frame_new_at [OF fr]]
  have full: "tla_full stb = tla_full st0" using ls by (simp add: stb' loop_start_def)
  have exc: "execution_of switches stb = with_task b t (execution_of switches st0)"
    using wc loop_point_sel(4,5) [OF lp] lp by (auto simp: stb' with_task_def execution_of_def loop_point_def)
  have "work rank c + (tla_max_tasks P - Suc (started_tasks st0)) * Suc K \<le> (tla_max_tasks P - started_tasks st0) * Suc K"
  proof -
    obtain m where "tla_max_tasks P - started_tasks st0 = Suc m" "tla_max_tasks P - Suc (started_tasks st0) = m"
      using started by (metis Suc_diff_Suc)
    then show ?thesis using tame_work [OF tc(1)] by simp
  qed
  then have wl: "work_left P rank K stb \<le> n"
    using left by (simp add: work_left_def stb' thread_work_append t)
  have "\<exists>is_over r st1. Tla_ResumeTask rec P E (length fs) (length fs) switches t True stb = Inr ((is_over, r), st1)
      \<and> (\<not> is_over \<and> r = None \<longrightarrow> tla_full st1 = tla_full stb)"
    by (rule Tla_ResumeTask_total [OF plain E bd rec _ _ _ _ _ _ _ refl syn wl, where fr = "fr\<lparr>fr_is_new := True\<rparr>" and k = switches])
      (use jd exc t tc path started tame_append [OF tame tc(1) t] c in
        \<open>simp_all add: stb' idle_def at_path_def\<close>)
  then obtain is_over r st1 where
      R: "Tla_ResumeTask rec P E (length fs) (length fs) switches t True stb = Inr ((is_over, r), st1)"
    and f1: "\<not> is_over \<and> r = None \<longrightarrow> tla_full st1 = tla_full st0" using full by auto
  note B = constructor_branch [OF plain E ex t path lp b wc stb R]
  have "(tla_threads st1)[t := butlast (tla_threads st1 ! t)] = tla_threads st0
       \<and> (\<exists>st'. Tla_Replay P E (length fs)
            (st1\<lparr>tla_threads := (tla_threads st1)[t := butlast (tla_threads st1 ! t)]\<rparr>) = Inr st' \<and> loop_start fs st0 st')"
    if none: "\<not> is_over \<and> r = None"
  proof -
    let ?st = "st1\<lparr>tla_threads := (tla_threads st1)[t := butlast (tla_threads st1 ! t)]\<rparr>"
    from B none obtain fr' where b: "tla_threads ?st = tla_threads st0" "tla_frames ?st = fs @ [fr']"
        "(tla_threads st1)[t := butlast (tla_threads st1 ! t)] = tla_threads st0"
      and lp': "\<And>st'. Tla_Replay P E (length fs) ?st = Inr st' \<Longrightarrow> loop_point fs st0 st'" by auto
    have "synced (env_body E) s0 fs (tla_threads st0) (w_state (tla_world st0))"
      using path by (simp add: at_path_def)
    from Tla_Replay_total [OF plain bd this b(2)] b(1) tame obtain st' where
      "Tla_Replay P E (length fs) ?st = Inr st'" "tla_full st' = tla_full ?st" by auto
    with lp' f1 none b(3) show ?thesis by (auto simp: loop_start_def)
  qed
  with R show ?thesis by blast
qed

lemma run_constructors_total:
  fixes st0 st :: "('o, 'a, 'c, unit) tla_state"
  assumes plain: "plain_target P E s0" and E: "env_verifier E = DefaultStrategyVerifier"
    and bd: "sliced_target P E rank K" and ex: "explores P E s0 rec" and rec: "completes P E s0 rank K n rec"
    and t: "t < length (tla_threads st0)" and path: "at_path E s0 fs st0"
    and tame: "tame rank K (tla_threads st0)" and started: "started_tasks st0 < tla_max_tasks P"
    and left: "work_left P rank K st0 \<le> n"
    and jd: "\<forall>b \<in> set (tla_constructors P). \<forall>e.
      exec_resume (env_body E) t True (with_task b t (execution_of switches st0)) = Some e \<longrightarrow> judged P (env_body E) e"
  shows "\<lbrakk>set bs \<subseteq> set (tla_constructors P); loop_start fs st0 st\<rbrakk> \<Longrightarrow>
    \<exists>is_over r st'. run_constructors rec P E (length fs) (length fs) switches t bs st = Inr ((is_over, r), st')
      \<and> (\<not> is_over \<and> r = None \<longrightarrow> loop_start fs st0 st')"
proof (induction bs arbitrary: st)
  case (Cons b bs)
  obtain w c where wc: "Build b (tla_world st0) t (- 1) = (w, c)" by fastforce
  have lp: "loop_point fs st0 st" using Cons.prems(2) by (simp add: loop_start_def)
  note sel = loop_point_sel [OF lp]
  have [simp]: "tla_threads (set_frame_new k x st) = tla_threads st" "tla_world (set_frame_new k x st) = tla_world st"
      "started_tasks (set_frame_new k x st) = started_tasks st" for k x
    by (simp_all add: set_frame_new_def)
  let ?stb = "(set_frame_new (length fs) True st)\<lparr>tla_world := w,
    tla_threads := (tla_threads st0)[t := tla_threads st0 ! t @ [c]], started_tasks := Suc (started_tasks st0)\<rparr>"
  have b: "b \<in> set (tla_constructors P)" using Cons.prems(1) by simp
  from constructor_total [OF plain E bd ex rec t path tame started left Cons.prems(2) b wc refl bspec [OF jd b]]
  obtain o1 r1 st1 where
      R: "Tla_ResumeTask rec P E (length fs) (length fs) switches t True ?stb = Inr ((o1, r1), st1)"
    and c: "\<not> o1 \<and> r1 = None \<longrightarrow> (tla_threads st1)[t := butlast (tla_threads st1 ! t)] = tla_threads st0
       \<and> (\<exists>st'. Tla_Replay P E (length fs)
            (st1\<lparr>tla_threads := (tla_threads st1)[t := butlast (tla_threads st1 ! t)]\<rparr>) = Inr st' \<and> loop_start fs st0 st')"
    by blast
  show ?case
  proof (cases "o1 \<or> r1 \<noteq> None")
    case True
    then show ?thesis using R wc by (simp add: E DefaultStrategyVerifier_def Let_def sel) auto
  next
    case False
    with c obtain st2 where "(tla_threads st1)[t := butlast (tla_threads st1 ! t)] = tla_threads st0"
      "Tla_Replay P E (length fs) (st1\<lparr>tla_threads := (tla_threads st1)[t := butlast (tla_threads st1 ! t)]\<rparr>) = Inr st2"
      "loop_start fs st0 st2" by blast
    then show ?thesis
      using Cons.IH [of st2] Cons.prems(1) R wc False by (simp add: E DefaultStrategyVerifier_def Let_def sel)
  qed
qed auto

lemma running_total:
  fixes st0 st :: "('o, 'a, 'c, unit) tla_state"
  assumes plain: "plain_target P E s0" and E: "env_verifier E = DefaultStrategyVerifier"
    and bd: "sliced_target P E rank K" and ex: "explores P E s0 rec" and rec: "completes P E s0 rank K n rec"
    and t: "t < length (tla_threads st0)" "\<not> idle (tla_threads st0 ! t)" and path: "at_path E s0 fs st0"
    and tame: "tame rank K (tla_threads st0)" and started: "started_tasks st0 \<le> tla_max_tasks P"
    and left: "work_left P rank K st0 \<le> n" and ls: "loop_start fs st0 st"
    and jd: "\<forall>e. exec_resume (env_body E) t False (switched t (execution_of switches st0)) = Some e
      \<and> ex_switches (switched t (execution_of switches st0)) \<le> tla_max_switches P \<longrightarrow> judged P (env_body E) e"
  shows "\<exists>is_over r st1. Tla_ResumeTask rec P E (length fs) (length fs) switches t False
      (set_frame_new (length fs) False st) = Inr ((is_over, r), st1)
    \<and> (\<not> is_over \<and> r = None \<longrightarrow> (\<exists>st'. Tla_Replay P E (length fs) st1 = Inr st' \<and> loop_start fs st0 st'))"
proof -
  have lp: "loop_point fs st0 st" using ls by (simp add: loop_start_def)
  obtain fr where fr: "tla_frames st = fs @ [fr]" using loop_point_sel(6) [OF lp] by blast
  let ?st = "set_frame_new (length fs) False st"
  have st: "tla_threads ?st = tla_threads st0" "tla_world ?st = tla_world st0" "started_tasks ?st = started_tasks st0"
      "tla_full ?st = tla_full st0"
    using loop_point_sel [OF lp] ls by (simp_all add: set_frame_new_def loop_start_def)
  have ne: "tla_threads st0 ! t \<noteq> []" using t(2) by (auto simp: idle_def)
  have wf: "wait_free_body (env_body E) rank" using bd by (simp add: sliced_target_def)
  note syn = running_synced [OF plain path t(1) ne st(1,2)]
  define k where "k = (if is_switch t (thread_id_history st0) then Suc switches else switches)"
  have k: "execution_of k ?st = switched t (execution_of switches st0)" "ex_switches (switched t (execution_of switches st0)) = k"
    "thread_id_history ?st = thread_id_history st0"
    using loop_point_sel(4,5) [OF lp] lp by (auto simp: switched_def k_def execution_of_def loop_point_def set_frame_new_def)
  have "\<exists>is_over r st1. Tla_ResumeTask rec P E (length fs) (length fs) switches t False ?st = Inr ((is_over, r), st1)
      \<and> (\<not> is_over \<and> r = None \<longrightarrow> tla_full st1 = tla_full ?st)"
    by (rule Tla_ResumeTask_total [OF plain E bd rec _ _ _ _ _ _ _ refl syn, where fr = "fr\<lparr>fr_is_new := False\<rparr>" and k = k])
      (use jd k k_def t tame path started left st in \<open>simp_all add: at_path_def work_left_def set_frame_new_at [OF fr]\<close>)
  then obtain is_over r st1 where
      R: "Tla_ResumeTask rec P E (length fs) (length fs) switches t False ?st = Inr ((is_over, r), st1)"
    and f1: "\<not> is_over \<and> r = None \<longrightarrow> tla_full st1 = tla_full st0" using st(4) by auto
  note B = running_branch [OF plain E ex t(1) path lp ne R]
  have "\<exists>st'. Tla_Replay P E (length fs) st1 = Inr st' \<and> loop_start fs st0 st'" if none: "\<not> is_over \<and> r = None"
  proof -
    from B none obtain fr' where b: "tla_frames st1 = fs @ [fr']"
      and ths: "tla_threads st1 = tla_threads st0 \<or> (\<exists>w c. Resume (env_body E) (tla_world st0) (last (tla_threads st0 ! t)) = Inr (w, c)
          \<and> tla_threads st1 = tla_set (last_slot st0 t) c (tla_threads st0))"
      and lp': "\<And>st'. Tla_Replay P E (length fs) st1 = Inr st' \<Longrightarrow> loop_point fs st0 st'" by blast
    have "map (map fresh_task) (tla_threads st1) = map (map fresh_task) (tla_threads st0) \<and> tame rank K (tla_threads st1)"
      using ths
    proof (elim disjE exE conjE)
      fix w c assume rs: "Resume (env_body E) (tla_world st0) (last (tla_threads st0 ! t)) = Inr (w, c)"
        and e: "tla_threads st1 = tla_set (last_slot st0 t) c (tla_threads st0)"
      show ?thesis
        unfolding e using fresh_map_set [of c "tla_threads st0" "last_slot st0 t"] Resume_fresh_task [OF rs]
          tame_set [OF tame Resume_bounded(2) [OF wf rs tame_last [OF tame t(1) ne]]] last_slot_store [OF ne] by simp
    qed (simp add: tame)
    moreover have "synced (env_body E) s0 fs (tla_threads st0) (w_state (tla_world st0))"
      using path by (simp add: at_path_def)
    ultimately obtain st' where "Tla_Replay P E (length fs) st1 = Inr st'" "tla_full st' = tla_full st1"
      using Tla_Replay_total [OF plain bd _ b] by blast
    with lp' f1 none show ?thesis by (auto simp: loop_start_def)
  qed
  with R show ?thesis by blast
qed

lemma visit_thread_total:
  fixes st0 st :: "('o, 'a, 'c, unit) tla_state"
  assumes plain: "plain_target P E s0" and E: "env_verifier E = DefaultStrategyVerifier"
    and bd: "sliced_target P E rank K" and ex: "explores P E s0 rec" and rec: "completes P E s0 rank K n rec"
    and t: "t < length (tla_threads st0)" and path: "at_path E s0 fs st0"
    and tame: "tame rank K (tla_threads st0)" and started: "started_tasks st0 \<le> tla_max_tasks P"
    and left: "work_left P rank K st0 \<le> n" and ls: "loop_start fs st0 st"
    and jd: "\<forall>e. thread_step P (env_body E) t (execution_of switches st0) e \<longrightarrow> judged P (env_body E) e"
  shows "\<exists>is_over r st'. visit_thread rec P E (length fs) (length fs) switches t ap st = Inr ((is_over, r), False, st')
    \<and> (\<not> is_over \<and> r = None \<longrightarrow> loop_start fs st0 st')"
proof -
  have lp: "loop_point fs st0 st" using ls by (simp add: loop_start_def)
  note sel = loop_point_sel [OF lp]
  let ?tasks = "tla_threads st0 ! t" and ?e = "execution_of switches st0"
  have ths: "ex_threads ?e = tla_threads st0" "ex_world ?e = tla_world st0" "ex_started ?e = started_tasks st0"
    by (simp_all add: execution_of_def)
  show ?thesis
  proof (cases "idle ?tasks")
    case idle: True
    show ?thesis
    proof (cases "started_tasks st0 \<noteq> tla_max_tasks P \<and> length ?tasks < tla_max_depth P")
      case True
      then have "started_tasks st0 < tla_max_tasks P" using started by simp
      have "thread_step P (env_body E) t ?e e"
        if "b \<in> set (tla_constructors P)" "exec_resume (env_body E) t True (with_task b t ?e) = Some e" for b e
        by (rule thread_step.start [OF _ _ _ that]) (use True idle ths in simp_all)
      with jd have jc: "\<forall>b \<in> set (tla_constructors P). \<forall>e.
        exec_resume (env_body E) t True (with_task b t ?e) = Some e \<longrightarrow> judged P (env_body E) e" by blast
      from run_constructors_total [OF plain E bd ex rec t path tame \<open>started_tasks st0 < tla_max_tasks P\<close> left jc subset_refl ls]
      show ?thesis using True idle t by (auto simp: visit_thread_def idle_def sel)
    next
      case False
      then show ?thesis using idle t ls by (auto simp: visit_thread_def idle_def sel)
    qed
  next
    case False
    then have ne: "?tasks \<noteq> []" "\<not> co_is_returned (last ?tasks)" by (auto simp: idle_def)
    have np: "\<not> IsParked (tla_world st0) (last ?tasks)"
      using tame_last [OF tame t ne(1)] by (simp add: IsParked_def tame_task_def)
    have "thread_step P (env_body E) t ?e e" if "exec_resume (env_body E) t False (switched t ?e) = Some e"
        "ex_switches (switched t ?e) \<le> tla_max_switches P" for e
      by (rule thread_step.resume) (use False np that ths in auto)
    with jd have jr: "\<forall>e. exec_resume (env_body E) t False (switched t ?e) = Some e
      \<and> ex_switches (switched t ?e) \<le> tla_max_switches P \<longrightarrow> judged P (env_body E) e" by blast
    from running_total [OF plain E bd ex rec t False path tame started left ls jr]
    obtain o1 r1 st1 where "Tla_ResumeTask rec P E (length fs) (length fs) switches t False
        (set_frame_new (length fs) False st) = Inr ((o1, r1), st1)"
      "\<not> o1 \<and> r1 = None \<longrightarrow> (\<exists>st'. Tla_Replay P E (length fs) st1 = Inr st' \<and> loop_start fs st0 st')" by blast
    with np show ?thesis
      using ne t by (cases "o1 \<or> r1 \<noteq> None") (auto simp: visit_thread_def sel E DefaultStrategyVerifier_def)
  qed
qed

lemma run_threads_total:
  fixes st0 st :: "('o, 'a, 'c, unit) tla_state"
  assumes plain: "plain_target P E s0" and E: "env_verifier E = DefaultStrategyVerifier"
    and bd: "sliced_target P E rank K" and ex: "explores P E s0 rec" and rec: "completes P E s0 rank K n rec"
    and path: "at_path E s0 fs st0"
    and tame: "tame rank K (tla_threads st0)" and started: "started_tasks st0 \<le> tla_max_tasks P"
    and left: "work_left P rank K st0 \<le> n"
    and jd: "\<forall>t < length (tla_threads st0). \<forall>e. thread_step P (env_body E) t (execution_of switches st0) e \<longrightarrow> judged P (env_body E) e"
  shows "\<lbrakk>\<forall>t \<in> set ts. t < length (tla_threads st0); loop_start fs st0 st\<rbrakk> \<Longrightarrow>
    \<exists>is_over r ap' st'. run_threads rec P E (length fs) (length fs) switches ts ap st = Inr ((is_over, r), ap', st')
      \<and> (\<not> is_over \<and> r = None \<longrightarrow> loop_start fs st0 st' \<and> (ap' \<longrightarrow> ap \<and> ts = []))"
proof (induction ts arbitrary: ap st)
  case (Cons t ts)
  have t: "t < length (tla_threads st0)" using Cons.prems(1) by simp
  from visit_thread_total [OF plain E bd ex rec t path tame started left Cons.prems(2), of switches ap] jd t
  obtain o1 r1 st1 where v: "visit_thread rec P E (length fs) (length fs) switches t ap st = Inr ((o1, r1), False, st1)"
    "\<not> o1 \<and> r1 = None \<longrightarrow> loop_start fs st0 st1" by auto
  show ?case
  proof (cases "o1 \<or> r1 \<noteq> None")
    case True
    then show ?thesis using v(1) by auto
  next
    case False
    then show ?thesis using v Cons.IH [of st1 False] Cons.prems(1) by auto
  qed
qed auto

lemma Tla_RunStep_total:
  fixes P :: "('o, 'a, 'c) tla_params" and E :: "('o, 'c, unit, 'g) runtime_env"
  assumes plain: "plain_target P E s0" and E: "env_verifier E = DefaultStrategyVerifier"
    and bd: "sliced_target P E rank K"
  shows "completes P E s0 rank K n (Tla_RunStep n P E)"
proof (induction n)
  case (Suc n)
  show ?case
    unfolding completes_def
  proof (intro allI impI, elim conjE)
    fix step switches and st :: "('o, 'a, 'c, unit) tla_state"
    assume path: "at_path E s0 (tla_frames st) st" and step: "step = length (tla_frames st)"
      and ne: "tla_threads st \<noteq> []" and tame: "tame rank K (tla_threads st)"
      and started: "started_tasks st \<le> tla_max_tasks P" and left: "work_left P rank K st < Suc n"
      and nc: "\<not> complete P (execution_of switches st)" and jd: "judged P (env_body E) (execution_of switches st)"
    let ?fs = "tla_frames st"
    let ?st = "st\<lparr>tla_frames := ?fs @ [\<lparr>fr_task = None, fr_is_new = False\<rparr>]\<rparr>"
    have "loop_point ?fs st ?st"
      unfolding loop_point_def
      by (rule exI [of _ "finished_rounds st"], rule exI [of _ "tla_full st"], rule exI) simp
    then have ls: "loop_start ?fs st ?st" by (simp add: loop_start_def)
    have left': "work_left P rank K st \<le> n" using left by simp
    have "[0..<length (tla_threads st)] \<noteq> []" using ne by simp
    moreover have "judged P (env_body E) e"
      if "t < length (tla_threads st)" "thread_step P (env_body E) t (execution_of switches st) e" for t e
      by (rule judged_step [OF jd]) (use nc that in \<open>auto simp: tla_step_def execution_of_def\<close>)
    ultimately
    obtain o1 r1 ap1 st1 where "run_threads (Tla_RunStep n P E) P E (length ?fs) (length ?fs) switches
        [0..<length (tla_threads st)] True ?st = Inr ((o1, r1), ap1, st1)"
      "\<not> o1 \<and> r1 = None \<longrightarrow> loop_start ?fs st st1 \<and> \<not> ap1"
      using run_threads_total [OF plain E bd Tla_RunStep_explores [OF plain E] Suc.IH path tame started left' _ _ ls,
        of switches "[0..<length (tla_threads st)]" True] by auto
    then show "\<exists>is_over r st'. Tla_RunStep (Suc n) P E step switches st = Inr ((is_over, r), st')
        \<and> (\<not> is_over \<and> r = None \<longrightarrow> tla_full st' = tla_full st)"
      unfolding step by (cases "o1 \<or> r1 \<noteq> None") (auto simp: loop_start_def)
  qed
qed (simp add: completes_def)

section \<open>The enumeration\<close>

lemma TLAScheduler_path:
  assumes "w_status w = None" "w_state w = s0"
  shows "at_path E s0 (tla_frames (TLAScheduler n w ())) (TLAScheduler n w ())"
  using assms synced_initial by (simp add: at_path_def TLAScheduler_def)

lemma Tla_Run_explores:
  assumes "plain_target P E (w_state w)" "env_verifier E = DefaultStrategyVerifier" "w_status w = None"
    "0 < tla_max_tasks P" "Tla_Run P E (TLAScheduler n w ()) = Inr ((is_over, r), st')"
  shows "(\<not> is_over \<and> r = None \<longrightarrow> accepted P (env_body E) (execution_of 0 (TLAScheduler n w ())))
    \<and> (\<forall>h. r = Some h \<longrightarrow> refused P (env_body E) (execution_of 0 (TLAScheduler n w ())) h)"
proof -
  let ?st = "TLAScheduler n w ()"
  have nc: "\<not> complete P (execution_of 0 ?st)"
    using assms(4) by (simp add: complete_def execution_of_def TLAScheduler_def)
  have "0 = length (tla_frames ?st)" by (simp add: TLAScheduler_def)
  then show ?thesis
    using Tla_RunStep_explores [OF assms(1,2), of "env_fuel E"] TLAScheduler_path [OF assms(3) refl] nc assms(5)
    unfolding explores_def Tla_Run_def by blast
qed

text \<open>
  C3. \<open>TLAScheduler\<close> enumerates all executions within its bounds, for a target that can be replayed
  (a slice depends on the task and the target only, \<open>Reset\<close> restores the initial target, no
  tokens) and the default verifier. If \<open>Run\<close> ends without a result and without having used up its
  rounds, the checker has accepted every complete execution of the step relation; and the history
  that \<open>Run\<close> returns is one of a complete execution that the checker refused.
\<close>

theorem Tla_Run_exhaustive:
  assumes "plain_target P E (w_state w)" "env_verifier E = DefaultStrategyVerifier" "w_status w = None"
    "0 < tla_max_tasks P"
    and run: "Tla_Run P E (TLAScheduler n w ()) = Inr ((is_over, r), st')"
  shows "(\<not> is_over \<and> r = None \<longrightarrow> (\<forall>e.
      (tla_step P (env_body E))\<^sup>*\<^sup>* (execution_of 0 (TLAScheduler n w ())) e \<and> complete P e \<longrightarrow>
        tla_check P (tla_store (ex_threads e)) (ex_seq e) = Inr True))
    \<and> (\<forall>h. r = Some h \<longrightarrow> (\<exists>e.
      (tla_step P (env_body E))\<^sup>*\<^sup>* (execution_of 0 (TLAScheduler n w ())) e \<and> complete P e
        \<and> tla_check P (tla_store (ex_threads e)) (ex_seq e) = Inr False \<and> h = ([], ex_seq e)))"
  using Tla_Run_explores [OF assms] unfolding accepted_def refused_def verdict_def by blast

lemma counter_plain:
  "plain_target (counter_params d) (counter_env atomic_body) (w_state sample_world)"
  "plain_target (counter_params d) (counter_env racy_body) (w_state sample_world)"
  by (auto simp: plain_target_def plain_body_def counter_params_def counter_env_def sample_env_def sample_world_def
      atomic_body_def racy_body_def sample_builder_def same_tokens_def split: nat.splits)

text \<open>The witness: the atomic counter passes, and the racy one is refused.\<close>

lemma counter_parameters:
  "env_body (counter_env b) = b" "tla_check (counter_params d) = distinct_answers"
  "env_verifier (counter_env b) = DefaultStrategyVerifier" "w_status sample_world = None" "0 < tla_max_tasks (counter_params d)"
  by (simp_all add: counter_env_def counter_params_def sample_env_def sample_world_def)

lemma counter_atomic_passes: "\<exists>st. counter_run atomic_body 1 = Inr ((False, None), st)"
proof -
  from counter_runs(1) obtain r st where r: "counter_run atomic_body 1 = Inr (r, st)"
    "(\<not> fst r \<and> Option.is_none (snd r)) \<and> finished_rounds st = 2" by (rule res_case_E)
  then show ?thesis by (cases r) (auto simp: Option.is_none_def)
qed

lemma counter_racy_fails: "\<exists>h st. counter_run racy_body 1 = Inr ((False, Some h), st)"
proof -
  from counter_runs(2) obtain r st where s: "counter_run racy_body 1 = Inr (r, st)"
    "case r of (b, r) \<Rightarrow> \<not> b \<and> map_option (length \<circ> snd) r = Some 4"
    by (cases "counter_run racy_body 1") (auto split: prod.splits)
  then show ?thesis by (cases r) auto
qed

theorem Tla_Run_exhaustive_witness:
  "{e. (tla_step (counter_params 1) atomic_body)\<^sup>*\<^sup>* (execution_of 0 (TLAScheduler 2 sample_world ())) e
      \<and> complete (counter_params 1) e} \<subseteq> {e. distinct_answers (tla_store (ex_threads e)) (ex_seq e) = Inr True}
   \<and> (\<exists>e. (tla_step (counter_params 1) racy_body)\<^sup>*\<^sup>* (execution_of 0 (TLAScheduler 2 sample_world ())) e
      \<and> complete (counter_params 1) e \<and> distinct_answers (tla_store (ex_threads e)) (ex_seq e) = Inr False)"
proof
  from counter_atomic_passes obtain st where "counter_run atomic_body 1 = Inr ((False, None), st)" by blast
  from Tla_Run_exhaustive [OF counter_plain(1) counter_parameters(3,4,5) this]
  show "{e. (tla_step (counter_params 1) atomic_body)\<^sup>*\<^sup>* (execution_of 0 (TLAScheduler 2 sample_world ())) e
      \<and> complete (counter_params 1) e} \<subseteq> {e. distinct_answers (tla_store (ex_threads e)) (ex_seq e) = Inr True}"
    unfolding counter_parameters by blast
  from counter_racy_fails obtain h st where "counter_run racy_body 1 = Inr ((False, Some h), st)" by blast
  from Tla_Run_exhaustive [OF counter_plain(2) counter_parameters(3,4,5) this]
  show "\<exists>e. (tla_step (counter_params 1) racy_body)\<^sup>*\<^sup>* (execution_of 0 (TLAScheduler 2 sample_world ())) e
      \<and> complete (counter_params 1) e \<and> distinct_answers (tla_store (ex_threads e)) (ex_seq e) = Inr False"
    unfolding counter_parameters by blast
qed

text \<open>The enumeration ends when the checker does not fail on the complete executions.\<close>

lemma Tla_Run_ends:
  assumes "plain_target P E (w_state w)" "env_verifier E = DefaultStrategyVerifier" "w_status w = None"
    and "sliced_target P E rank K" "judged P (env_body E) (execution_of 0 (TLAScheduler n w ()))"
    and "0 < tla_max_tasks P" "0 < n" "tla_max_tasks P * Suc K < env_fuel E"
  shows "\<exists>is_over r st'. Tla_Run P E (TLAScheduler n w ()) = Inr ((is_over, r), st')
    \<and> (\<not> is_over \<and> r = None \<longrightarrow> tla_full st' = [])"
proof -
  let ?st = "TLAScheduler n w ()"
  have "\<not> complete P (execution_of 0 ?st)" "tla_threads ?st \<noteq> []" "tame rank K (tla_threads ?st)"
    "started_tasks ?st \<le> tla_max_tasks P" "work_left P rank K ?st < env_fuel E" "0 = length (tla_frames ?st)"
    "tla_full ?st = []"
    using assms(6-8) by (auto simp: complete_def execution_of_def TLAScheduler_def tame_def work_left_def
        thread_work_def sum_list_replicate)
  then show ?thesis
    using Tla_RunStep_total [OF assms(1,2,4), of "env_fuel E"] TLAScheduler_path [OF assms(3) refl, of E n] assms(5)
    unfolding completes_def Tla_Run_def by metis
qed

text \<open>
  C11. The enumeration ends. If, in addition, the methods of the target end within \<open>K\<close> slices and
  report no coroutine status, \<open>Run\<close> returns: no assertion fails, deadlock included, and a depth of
  recursion of one more than \<open>K + 1\<close> steps for each task is enough. Without a result, the full
  history is empty again at the end.
\<close>

theorem Tla_Run_returns:
  assumes "plain_target P E (w_state w)" "env_verifier E = DefaultStrategyVerifier" "w_status w = None"
    and "bounded_target P E rank K" "0 < tla_max_tasks P" "0 < n" "tla_max_tasks P * Suc K < env_fuel E"
  shows "\<exists>is_over r st'. Tla_Run P E (TLAScheduler n w ()) = Inr ((is_over, r), st')
    \<and> (\<not> is_over \<and> r = None \<longrightarrow> tla_full st' = [])"
proof -
  have "sliced_target P E rank K" "judged P (env_body E) (execution_of 0 (TLAScheduler n w ()))"
    using bounded_target_sliced [OF assms(4)] by blast+
  from Tla_Run_ends [OF assms(1-3) this assms(5-7)] show ?thesis by blast
qed

theorem Tla_Run_returns_witness:
  "\<exists>st'. counter_run atomic_body 1 = Inr ((False, None), st') \<and> tla_full st' = []"
proof -
  have "\<exists>is_over r st'. counter_run atomic_body 1 = Inr ((is_over, r), st') \<and> (\<not> is_over \<and> r = None \<longrightarrow> tla_full st' = [])"
  proof (rule Tla_Run_returns [OF counter_plain(1), where rank = "\<lambda>k. 0" and K = 1])
    show "bounded_target (counter_params 1) (counter_env atomic_body) (\<lambda>k. 0) 1"
      by (auto simp: bounded_target_def wait_free_body_def counter_params_def counter_env_def sample_env_def
          atomic_body_def sample_builder_def max_tries_def distinct_answers_def)
  qed (simp_all add: counter_env_def counter_params_def sample_env_def sample_world_def)
  with counter_atomic_passes show ?thesis by auto
qed

text \<open>
  With the default of the option \<open>depth\<close>, zero, no thread may get a task: whatever the target and
  the checker, the scheduler reports no violation and never calls the checker.
\<close>

theorem Tla_depth_zero:
  assumes "tla_max_depth P = 0" "0 < n" "0 < env_fuel E"
  shows "\<exists>st'. Tla_Run P E (TLAScheduler n w v) = Inr ((False, None), st') \<and> finished_rounds st' = 0"
proof -
  have skip: "run_threads rec P E fi step switches is ap st = Inr ((False, None), (if is = [] then ap else False), st)"
    if "\<forall>i \<in> set is. i < length (tla_threads st) \<and> tla_threads st ! i = []" for rec fi step switches "is" ap
      and st
    using that by (induction "is" arbitrary: ap) (auto simp: visit_thread_def assms(1))
  show ?thesis
    using assms(2,3) by (cases "env_fuel E") (auto simp: Tla_Run_def TLAScheduler_def skip)
qed

theorem Tla_depth_zero_witness:
  "\<exists>st'. counter_run racy_body 0 = Inr ((False, None), st') \<and> finished_rounds st' = 0"
  by (rule Tla_depth_zero) (simp_all add: counter_params_def counter_env_def sample_env_def)

section \<open>What a branch leaves behind\<close>

text \<open>A mutex whose two methods end in one slice, with the verifier that guards their order.\<close>

definition guarded_env :: "(int, nat, status_map, unit) runtime_env" where
  "guarded_env = \<lparr>env_body = atomic_body, env_mem = (\<lambda>_ _. 0), env_reset = (\<lambda>_. 0),
     env_verifier = MutexVerifier, env_random = sample_random, env_fuel = 20\<rparr>"

definition called_methods :: "(slot \<Rightarrow> (int, nat) coro) \<Rightarrow> seq_history \<Rightarrow> string list" where
  "called_methods st h = map (co_name \<circ> st) (invoked h)"

definition guarded_params :: "(int, int, nat) tla_params" where
  "guarded_params = \<lparr>tla_max_tasks = 1, tla_max_rounds = 100, tla_max_switches = 1, tla_max_depth = 1,
     tla_constructors = [sample_builder ''Lock'' 0, sample_builder ''Unlock'' 0],
     tla_check = (\<lambda>st h. Inr (called_methods st h \<noteq> [''Unlock''])), tla_cancel = (\<lambda>w. w)\<rparr>"

text \<open>
  The verifier is not rolled back when a branch is left. A thread that has done nothing must not
  start with \<open>Unlock\<close>, and the verifier says so; but after the branch of \<open>Lock\<close> has been explored, the
  verifier still believes that the lock is held, and the scheduler runs and reports the execution
  that consists of a call to \<open>Unlock\<close>.
\<close>

lemma Tla_verifier_not_restored:
  "(case Mutex_Verify \<lparr>ct_name = ''Unlock'', ct_is_new = True, ct_thread_id = 0\<rparr> Map.empty of
      Inl _ \<Rightarrow> False | Inr (ok, _) \<Rightarrow> \<not> ok)
   \<and> (case Tla_Run guarded_params guarded_env (TLAScheduler 1 sample_world Map.empty) of
      Inl _ \<Rightarrow> False
    | Inr ((_, r), st) \<Rightarrow>
        (case r of None \<Rightarrow> False | Some h \<Rightarrow> called_methods (tla_store (tla_threads st)) (snd h) = [''Unlock'']))"
  by code_simp

text \<open>A method that starts a coroutine in its second slice and returns in its third.\<close>

definition late_start_body :: "(int, nat) body" where
  "late_start_body k w = (case k of
     0 \<Rightarrow> (w, Yield 1)
   | Suc 0 \<Rightarrow> CoroutineStatusChange ''read'' True 2 w
   | _ \<Rightarrow> (w, Return (vw_int 0)))"

text \<open>
  \<open>undo_full_history\<close> takes a task entry and the start of a coroutine after it for one step, if they
  are the first two entries of the thread, and for two steps otherwise.
\<close>

lemma undo_full_history_start:
  assumes "cs_has_started cs"
  shows "undo_full_history (h @ [(t, Inl r), (t, Inr cs)]) = Inr (if t \<in> fst ` set h then h @ [(t, Inl r)] else h)"
proof -
  have "length (takeWhile (\<lambda>a. fst a \<noteq> t) (h @ [(t, Inl r)])) = length h \<longleftrightarrow> t \<notin> fst ` set h"
  proof (cases "t \<in> fst ` set h")
    case True
    then obtain x where x: "x \<in> set h" "\<not> fst x \<noteq> t" by auto
    then have "takeWhile (\<lambda>a. fst a \<noteq> t) h \<noteq> h"
      using takeWhile_eq_all_conv [of "\<lambda>a. fst a \<noteq> t" h] by auto
    then have "length (takeWhile (\<lambda>a. fst a \<noteq> t) h) \<noteq> length h"
      using takeWhile_eq_take [of "\<lambda>a. fst a \<noteq> t" h] by (metis order_refl take_all)
    with True x show ?thesis by (simp add: takeWhile_append1 [of x])
  next
    case False
    then have "takeWhile (\<lambda>a. fst a \<noteq> t) (h @ [(t, Inl r)]) = h @ takeWhile (\<lambda>a. fst a \<noteq> t) [(t, Inl r)]"
      by (intro takeWhile_append2) auto
    then show ?thesis using False by simp
  qed
  with assms show ?thesis by (simp add: undo_full_history_def Let_def butlast_append nth_append)
qed

definition late_start_run :: "nat \<Rightarrow> (tla_result \<times> (int, int, nat, unit) tla_state) res" where
  "late_start_run tasks = Tla_Run ((counter_params 2)\<lparr>tla_max_tasks := tasks, tla_check := (\<lambda>_ _. Inr True)\<rparr>)
     (counter_env late_start_body) (TLAScheduler 1 sample_world ())"

text \<open>
  The full history is not undone step by step. For a task that reports the start of a coroutine
  in its second slice, the entries of the first two slices are removed together when the second
  is undone; when the first slice is undone, the scheduler asks an empty vector for its last
  entry, which is undefined behaviour.
\<close>

theorem Tla_undo_underflow:
  "late_start_run 1 = Inl Out_Of_Range"
proof -
  have "case late_start_run 1 of Inl e \<Rightarrow> e = Out_Of_Range | Inr _ \<Rightarrow> False" by code_simp
  then show ?thesis by (auto split: sum.splits)
qed

end
