(* ===== verification/Options.thy ===== *)
theory Options
  imports Ltest_Prelude
begin

text \<open>
  Model of the command line options: \<open>Opts\<close>, \<open>DefaultOptions\<close> and \<open>StrategyType\<close> of
  \<open>runtime/include/verifying.h\<close> and the functions of \<open>runtime/verifying.cpp\<close>. The flags are
  global variables of the gflags library: 32 bit integers, booleans and strings, gathered in a
  record. A \<open>size_t\<close> is a 64 bit word, so that the conversions between the options and the flags
  are those of the source.
\<close>

section \<open>Strategy types\<close>

datatype strategy_type = RR | RND | TLA | PCT

fun GetLiteral :: "strategy_type \<Rightarrow> string" where
  "GetLiteral RR = ''rr''"
| "GetLiteral RND = ''random''"
| "GetLiteral TLA = ''tla''"
| "GetLiteral PCT = ''pct''"

definition FromLiteral :: "string \<Rightarrow> strategy_type res" where
  "FromLiteral a =
     (if a = GetLiteral PCT then Inr PCT
      else if a = GetLiteral RND then Inr RND
      else if a = GetLiteral RR then Inr RR
      else if a = GetLiteral TLA then Inr TLA
      else Inl (Invalid_Argument a))"

section \<open>Strings\<close>

definition tolower :: "char \<Rightarrow> char" where
  "tolower c = (let n = (of_char c :: nat) in if 65 \<le> n \<and> n \<le> 90 then char_of (n + 32) else c)"

definition toLower :: "string \<Rightarrow> string" where
  "toLower str = map tolower str"

text \<open>The loop of \<open>split\<close>; \<open>res\<close> is the vector of the pieces, whose last one grows.\<close>

fun split_loop :: "char \<Rightarrow> string list \<Rightarrow> string \<Rightarrow> string list" where
  "split_loop delim res [] = res"
| "split_loop delim res (c # cs) =
     (if c = delim then split_loop delim (res @ [[]]) cs
      else split_loop delim (butlast res @ [last res @ [c]]) cs)"

definition split :: "string \<Rightarrow> char \<Rightarrow> string list" where
  "split s delim = split_loop delim [[]] s"

text \<open>
  \<open>std::stoi\<close>: white space, a sign, and the digits up to the first other character. It throws
  \<open>invalid_argument\<close> without digits and \<open>out_of_range\<close> outside the range of \<open>int\<close>.
\<close>

definition isspace :: "char \<Rightarrow> bool" where
  "isspace c \<longleftrightarrow> (let n = (of_char c :: nat) in n = 32 \<or> 9 \<le> n \<and> n \<le> 13)"

definition isdigit :: "char \<Rightarrow> bool" where
  "isdigit c \<longleftrightarrow> (let n = (of_char c :: nat) in 48 \<le> n \<and> n \<le> 57)"

definition digit_value :: "char \<Rightarrow> int" where
  "digit_value c = of_char c - 48"

definition digits_value :: "string \<Rightarrow> int" where
  "digits_value ds = foldl (\<lambda>v c. 10 * v + digit_value c) 0 ds"

definition stoi :: "string \<Rightarrow> int res" where
  "stoi s =
     (let s = dropWhile isspace s;
          negative = (s \<noteq> [] \<and> hd s = CHR ''-'');
          s = (if s \<noteq> [] \<and> (hd s = CHR ''-'' \<or> hd s = CHR ''+'') then tl s else s);
          ds = takeWhile isdigit s;
          v = (if negative then - digits_value ds else digits_value ds) in
      if ds = [] then Inl (Invalid_Argument ''stoi'')
      else if - (2 ^ 31) \<le> v \<and> v < 2 ^ 31 then Inr v
      else Inl Out_Of_Range)"

section \<open>Flags and options\<close>

record flags =
  FLAGS_threads :: "32 word"
  FLAGS_tasks :: "32 word"
  FLAGS_switches :: "32 word"
  FLAGS_rounds :: "32 word"
  FLAGS_minimize :: bool
  FLAGS_exploration_runs :: "32 word"
  FLAGS_minimization_runs :: "32 word"
  FLAGS_depth :: "32 word"
  FLAGS_verbose :: bool
  FLAGS_forbid_all_same :: bool
  FLAGS_strategy :: string
  FLAGS_weights :: string

definition default_flags :: flags where
  "default_flags =
     \<lparr>FLAGS_threads = 2, FLAGS_tasks = 15, FLAGS_switches = 100000000, FLAGS_rounds = 5,
      FLAGS_minimize = False, FLAGS_exploration_runs = 15, FLAGS_minimization_runs = 15,
      FLAGS_depth = 0, FLAGS_verbose = False, FLAGS_forbid_all_same = False,
      FLAGS_strategy = GetLiteral RR, FLAGS_weights = []\<rparr>"

record default_options =
  do_threads :: "64 word"
  do_tasks :: "64 word"
  do_switches :: "64 word"
  do_rounds :: "64 word"
  do_depth :: "64 word"
  do_forbid_all_same :: bool
  do_verbose :: bool
  do_strategy :: string
  do_weights :: string
  do_minimization_runs :: "64 word"
  do_exploration_runs :: "64 word"

record opts =
  opt_threads :: "64 word"
  opt_tasks :: "64 word"
  opt_switches :: "64 word"
  opt_rounds :: "64 word"
  opt_minimize :: bool
  opt_exploration_runs :: "64 word"
  opt_minimization_runs :: "64 word"
  opt_depth :: "64 word"
  opt_forbid_all_same :: bool
  opt_verbose :: bool
  opt_typ :: strategy_type
  opt_thread_weights :: "int list"

text \<open>A \<open>size_t\<close> assigned to a flag is cut to 32 bits; a flag read as a \<open>size_t\<close> is sign extended.\<close>

definition to_flag :: "64 word \<Rightarrow> 32 word" where
  "to_flag n = ucast n"

definition of_flag :: "32 word \<Rightarrow> 64 word" where
  "of_flag n = scast n"

definition SetOpts :: "default_options \<Rightarrow> flags \<Rightarrow> flags" where
  "SetOpts def fl = fl
     \<lparr>FLAGS_threads := to_flag (do_threads def), FLAGS_tasks := to_flag (do_tasks def),
      FLAGS_switches := to_flag (do_switches def), FLAGS_rounds := to_flag (do_rounds def),
      FLAGS_depth := to_flag (do_depth def), FLAGS_verbose := do_verbose def,
      FLAGS_strategy := do_strategy def, FLAGS_forbid_all_same := do_forbid_all_same def,
      FLAGS_weights := do_weights def, FLAGS_exploration_runs := to_flag (do_exploration_runs def),
      FLAGS_minimization_runs := to_flag (do_minimization_runs def)\<rparr>"

fun parse_weights :: "string list \<Rightarrow> int list res" where
  "parse_weights [] = Inr []"
| "parse_weights (s # ss) = res_bind (stoi s) (\<lambda>i. res_bind (parse_weights ss) (\<lambda>is. Inr (i # is)))"

definition ParseOpts :: "flags \<Rightarrow> opts res" where
  "ParseOpts fl =
     res_bind (FromLiteral (FLAGS_strategy fl)) (\<lambda>typ.
     res_bind (if FLAGS_weights fl \<noteq> [] then parse_weights (split (FLAGS_weights fl) (CHR '','')) else Inr [])
       (\<lambda>thread_weights.
     Inr \<lparr>opt_threads = of_flag (FLAGS_threads fl), opt_tasks = of_flag (FLAGS_tasks fl),
          opt_switches = of_flag (FLAGS_switches fl), opt_rounds = of_flag (FLAGS_rounds fl),
          opt_minimize = FLAGS_minimize fl,
          opt_exploration_runs = of_flag (FLAGS_exploration_runs fl),
          opt_minimization_runs = of_flag (FLAGS_minimization_runs fl),
          opt_depth = of_flag (FLAGS_depth fl), opt_forbid_all_same = FLAGS_forbid_all_same fl,
          opt_verbose = FLAGS_verbose fl, opt_typ = typ, opt_thread_weights = thread_weights\<rparr>))"

section \<open>Facts about the strings\<close>

text \<open>The reference for \<open>split\<close>: the pieces put together again.\<close>

fun join :: "char \<Rightarrow> string list \<Rightarrow> string" where
  "join d [] = []"
| "join d [p] = p"
| "join d (p # q # ps) = p @ d # join d (q # ps)"

lemma join_snoc: "ps \<noteq> [] \<Longrightarrow> join d (ps @ [q]) = join d ps @ d # q"
  by (induction d ps rule: join.induct) auto

lemma join_extend: "join d (ps @ [q @ r]) = join d (ps @ [q]) @ r"
  by (cases "ps = []") (simp_all add: join_snoc)

lemma split_loop_join: "res \<noteq> [] \<Longrightarrow> join d (split_loop d res s) = join d res @ s"
proof (induction d res s rule: split_loop.induct)
  case (2 d res c cs)
  have "join d (butlast res @ [last res @ [c]]) = join d res @ [c]"
    using 2(3) join_extend [of d "butlast res" "last res" "[c]"] by simp
  with 2 show ?case by (auto simp: join_snoc)
qed simp

lemma split_loop_pieces:
  "res \<noteq> [] \<Longrightarrow> \<forall>p \<in> set res. d \<notin> set p \<Longrightarrow>
     \<forall>p \<in> set (split_loop d res s). d \<notin> set p"
proof (induction d res s rule: split_loop.induct)
  case (2 d res c cs)
  have "\<forall>p \<in> set (butlast res @ [last res @ [c]]). d \<notin> set p" if "c \<noteq> d"
    using "2.prems" that by (auto dest: in_set_butlastD)
  with 2 show ?case by auto
qed simp

lemma split_loop_piece: "d \<notin> set p \<Longrightarrow> split_loop d (res @ [q]) (p @ s) = split_loop d (res @ [q @ p]) s"
  by (induction p arbitrary: q) auto

lemma split_loop_joined:
  "ps \<noteq> [] \<Longrightarrow> \<forall>p \<in> set ps. d \<notin> set p \<Longrightarrow> split_loop d (res @ [[]]) (join d ps) = res @ ps"
proof (induction ps arbitrary: res rule: induct_list012)
  case (2 p)
  then show ?case using split_loop_piece [of d p res "[]" "[]"] by simp
next
  case (3 p q ps)
  have "split_loop d (res @ [[]]) (join d (p # q # ps)) = split_loop d ((res @ [p]) @ [[]]) (join d (q # ps))"
    using split_loop_piece [of d p res "[]" "d # join d (q # ps)"] "3.prems" by simp
  also have "\<dots> = (res @ [p]) @ q # ps" using "3.IH"(2) [of "res @ [p]"] "3.prems" by simp
  finally show ?case by simp
qed simp

lemma split_join: "ps \<noteq> [] \<Longrightarrow> \<forall>p \<in> set ps. d \<notin> set p \<Longrightarrow> split (join d ps) d = ps"
  using split_loop_joined [of ps d "[]"] by (simp add: split_def)

lemma of_char_digit: "d < 10 \<Longrightarrow> of_char (digit_char d) = (48 + d :: nat)"
  by (simp add: digit_char_def)

lemma digit_char_facts:
  assumes "d < 10"
  shows "isdigit (digit_char d)" "digit_value (digit_char d) = int d" "\<not> isspace (digit_char d)"
    "digit_char d \<noteq> CHR ''-''" "digit_char d \<noteq> CHR ''+''" "digit_char d \<noteq> CHR '',''"
proof -
  note c = of_char_digit [OF assms]
  show "isdigit (digit_char d)" "\<not> isspace (digit_char d)"
    using c assms by (simp_all add: isdigit_def isspace_def)
  have "(of_char (digit_char d) :: int) = int (of_char (digit_char d))" by (simp only: of_nat_of_char)
  then show "digit_value (digit_char d) = int d" unfolding digit_value_def c by simp
  show "digit_char d \<noteq> CHR ''-''" "digit_char d \<noteq> CHR ''+''" "digit_char d \<noteq> CHR '',''"
    using c by (auto simp: of_char_def)
qed

lemma digits_value_snoc: "digits_value (ds @ [c]) = 10 * digits_value ds + digit_value c"
  by (simp add: digits_value_def)

lemma to_string_nat_digits:
  "(\<forall>c \<in> set (to_string_nat n). \<exists>d < 10. c = digit_char d) \<and> digits_value (to_string_nat n) = int n"
proof (induction n rule: to_string_nat.induct)
  case (1 n)
  show ?case
  proof (cases "n < 10")
    case True
    then show ?thesis by (auto simp: to_string_nat.simps [of n] digits_value_def digit_char_facts)
  next
    case False
    with 1 have IH: "\<forall>c \<in> set (to_string_nat (n div 10)). \<exists>d < 10. c = digit_char d"
      "digits_value (to_string_nat (n div 10)) = int (n div 10)" by simp_all
    have "digits_value (to_string_nat n) = 10 * int (n div 10) + int (n mod 10)"
      using False IH(2) by (simp add: to_string_nat.simps [of n] digits_value_snoc digit_char_facts(2))
    also have "\<dots> = int n" by (simp add: zdiv_int zmod_int)
    finally have v: "digits_value (to_string_nat n) = int n" .
    have "\<exists>d < 10. digit_char (n mod 10) = digit_char d" by (rule exI [of _ "n mod 10"]) simp
    with v False IH(1) show ?thesis by (simp add: to_string_nat.simps [of n])
  qed
qed

lemma stoi_digits:
  assumes "ds \<noteq> []" "\<forall>c \<in> set ds. \<exists>d < 10. c = digit_char d"
  shows "takeWhile isdigit ds = ds" "dropWhile isspace ds = ds" "hd ds \<noteq> CHR ''-''" "hd ds \<noteq> CHR ''+''"
proof -
  show "takeWhile isdigit ds = ds" using assms(2) digit_char_facts(1) by (auto simp: takeWhile_eq_all_conv)
  obtain c cs d where "ds = c # cs" "d < 10" "c = digit_char d" using assms by (cases ds) auto
  then show "dropWhile isspace ds = ds" "hd ds \<noteq> CHR ''-''" "hd ds \<noteq> CHR ''+''"
    using digit_char_facts [of d] by simp_all
qed

lemma stoi_to_string:
  assumes "- (2 ^ 31) \<le> i" "i < 2 ^ 31"
  shows "stoi (to_string_int i) = Inr i"
proof -
  define ds where "ds = to_string_nat (nat \<bar>i\<bar>)"
  have ds: "ds \<noteq> []" "\<forall>c \<in> set ds. \<exists>d < 10. c = digit_char d" "digits_value ds = \<bar>i\<bar>"
    using to_string_nat_digits [of "nat \<bar>i\<bar>"] by (simp_all add: ds_def)
  note f = stoi_digits [OF ds(1,2)]
  show ?thesis
  proof (cases "i < 0")
    case True
    have "\<not> isspace (CHR ''-'')" by (simp add: isspace_def)
    moreover have "to_string_int i = CHR ''-'' # ds" using True by (simp add: to_string_int_def ds_def)
    ultimately show ?thesis using True ds assms by (simp add: stoi_def Let_def f(1))
  next
    case False
    then have "to_string_int i = ds" by (simp add: to_string_int_def ds_def)
    with False f(2-4) ds assms show ?thesis by (simp add: stoi_def Let_def f(1))
  qed
qed

lemma to_string_int_no_comma: "CHR '','' \<notin> set (to_string_int i)"
proof -
  have "CHR '','' \<notin> set (to_string_nat n)" for n
    using to_string_nat_digits [of n] digit_char_facts(6) by metis
  then show ?thesis by (simp add: to_string_int_def)
qed

lemma parse_weights_printed:
  "\<forall>i \<in> set ws. - (2 ^ 31) \<le> i \<and> i < 2 ^ 31 \<Longrightarrow> parse_weights (map to_string_int ws) = Inr ws"
  by (induction ws) (simp_all add: stoi_to_string)

lemma of_to_flag:
  assumes "n < 2 ^ 31"
  shows "of_flag (to_flag n) = n"
proof -
  have u: "uint n < 2 ^ 31" using assms by (simp add: word_less_def)
  have "uint (ucast n :: 32 word) = uint n"
    using u by (simp add: unsigned_ucast_eq take_bit_int_eq_self)
  then have "sint (ucast n :: 32 word) = uint n"
    using u signed_take_bit_int_eq_self [of 31 "uint n"] order_trans [of "- (2 ^ 31)" 0 "uint n"] by (simp add: sint_uint)
  then show ?thesis by (simp add: of_flag_def to_flag_def scast_eq)
qed

text \<open>Outside that range the options change: a negative flag is read as a huge number.\<close>

lemma of_flag_negative:
  assumes "sint n < 0"
  shows "2 ^ 64 - 2 ^ 31 \<le> uint (of_flag n)"
proof -
  have "- (2 ^ 31) \<le> sint n" using sint_greater_eq [of n] by simp
  then have "(sint n + 2 ^ 64) mod 2 ^ 64 = sint n + 2 ^ 64"
    using assms by (intro mod_pos_pos_trivial) auto
  moreover have "uint (of_flag n) = sint n mod 2 ^ 64"
    unfolding of_flag_def scast_eq uint_word_of_int by simp
  ultimately have "uint (of_flag n) = sint n + 2 ^ 64" by (metis mod_add_self2)
  with \<open>- (2 ^ 31) \<le> sint n\<close> show ?thesis by linarith
qed

section \<open>Properties\<close>

text \<open>
  C1. Literals of strategies are read back: \<open>FromLiteral\<close> is the inverse of \<open>GetLiteral\<close>, and throws
  \<open>invalid_argument\<close> with the literal on every other string.
\<close>

theorem strategy_literals:
  "(FromLiteral a = Inr t \<longleftrightarrow> a = GetLiteral t)
   \<and> (FromLiteral a = Inl e \<longleftrightarrow> e = Invalid_Argument a \<and> (\<forall>t. a \<noteq> GetLiteral t))"
proof (cases "\<exists>u. a = GetLiteral u")
  case True
  then obtain u where u: "a = GetLiteral u" by blast
  then have "FromLiteral a = Inr u" by (cases u) (simp_all add: FromLiteral_def)
  moreover have "GetLiteral u = GetLiteral t \<longleftrightarrow> u = t" by (cases u; cases t) simp_all
  ultimately show ?thesis using u by auto
next
  case False
  then have "FromLiteral a = Inl (Invalid_Argument a)" by (auto simp: FromLiteral_def simp del: GetLiteral.simps)
  then show ?thesis using False by auto
qed

text \<open>
  C33. Options survive the way through the flags. For the defaults of a specification that fit into the
  non-negative range of a 32 bit flag, whose strategy is a literal and whose weights are a
  comma-separated list of numbers, \<open>SetOpts\<close> followed by \<open>ParseOpts\<close> gives these options back.
  \<open>minimize\<close> is the one option that only the command line can set.
\<close>

theorem options_roundtrip:
  assumes "\<forall>n \<in> {do_threads def, do_tasks def, do_switches def, do_rounds def, do_depth def,
      do_minimization_runs def, do_exploration_runs def}. n < 2 ^ 31"
    and "do_strategy def = GetLiteral t" "do_weights def = join (CHR '','') (map to_string_int ws)"
    and "\<forall>i \<in> set ws. - (2 ^ 31) \<le> i \<and> i < 2 ^ 31"
  shows "ParseOpts (SetOpts def fl) =
    Inr \<lparr>opt_threads = do_threads def, opt_tasks = do_tasks def, opt_switches = do_switches def,
         opt_rounds = do_rounds def, opt_minimize = FLAGS_minimize fl,
         opt_exploration_runs = do_exploration_runs def, opt_minimization_runs = do_minimization_runs def,
         opt_depth = do_depth def, opt_forbid_all_same = do_forbid_all_same def, opt_verbose = do_verbose def,
         opt_typ = t, opt_thread_weights = ws\<rparr>"
proof -
  have lit: "FromLiteral (GetLiteral t) = Inr t" by (cases t) (simp_all add: FromLiteral_def)
  have "join (CHR '','') (map to_string_int ws) \<noteq> []" if "ws \<noteq> []"
    using that by (cases ws; cases "tl ws") (auto simp: to_string_int_def)
  moreover have "split (join (CHR '','') (map to_string_int ws)) (CHR '','') = map to_string_int ws" if "ws \<noteq> []"
    using that to_string_int_no_comma by (intro split_join) auto
  ultimately have "(if do_weights def \<noteq> [] then parse_weights (split (do_weights def) (CHR '','')) else Inr []) = Inr ws"
    using parse_weights_printed [OF assms(4)] assms(3) by (cases "ws = []") auto
  then show ?thesis
    using assms(1,2) unfolding ParseOpts_def SetOpts_def
    by (cases "do_weights def = []") (simp_all add: lit of_to_flag)
qed

definition sample_options :: default_options where
  "sample_options = \<lparr>do_threads = 4, do_tasks = 15, do_switches = 100000000, do_rounds = 10000, do_depth = 3,
     do_forbid_all_same = False, do_verbose = False, do_strategy = ''tla'', do_weights = ''10,100,5'',
     do_minimization_runs = 15, do_exploration_runs = 15\<rparr>"

theorem options_roundtrip_witness:
  "ParseOpts (SetOpts sample_options default_flags) =
    Inr \<lparr>opt_threads = 4, opt_tasks = 15, opt_switches = 100000000, opt_rounds = 10000, opt_minimize = False,
         opt_exploration_runs = 15, opt_minimization_runs = 15, opt_depth = 3, opt_forbid_all_same = False,
         opt_verbose = False, opt_typ = TLA, opt_thread_weights = [10, 100, 5]\<rparr>"
proof -
  have w: "do_weights sample_options = join (CHR '','') (map to_string_int [10, 100, 5])" by code_simp
  show ?thesis
    using options_roundtrip [OF _ _ w, of TLA default_flags] by (simp add: sample_options_def default_flags_def)
qed

end
