(* ===== verification/Entry_Point.thy ===== *)
theory Entry_Point
  imports Scheduler_Run Tla_Total Options
begin

text \<open>
  Model of the entry point \<open>ltest::Run\<close> of \<open>runtime/include/verifying.h\<close>: the options of the
  specification and of the command line, the choice of the strategy and of the scheduler, the
  run, and the exit code. \<open>gflags::ParseCommandLineFlags\<close> is a library function and enters as a
  parameter. The text that is printed is left out: the result has what it is made of, the history and the tasks
  of the scheduler, whose names, arguments and results \<open>PrettyPrint\<close> reads.
\<close>

declare split_paired_All [simp del] split_paired_Ex [simp del]

section \<open>Strategies and schedulers\<close>

datatype ('o, 'a, 'c, 'v, 'g) made_strategy =
    Made_RR "('o, 'a, 'c, 'v, 'g) rr"
  | Made_RND "('o, 'a, 'c, 'v, 'g) rnd"
  | Made_PCT "('o, 'a, 'c, 'v, 'g) pct"

datatype ('o, 'a, 'c, 'v, 'g) made_scheduler =
    Made_Strategy_Scheduler "('o, 'a, 'c, 'v, 'g) made_strategy" scheduler_params nat
  | Made_TLA "('o, 'a, 'c) tla_params" "('o, 'a, 'c, 'v) tla_state"

text \<open>
  What a specification brings: the target methods, the initial target and verifier, the checker
  and the canceler; and the pseudo-random sources and the rounding of the run.
\<close>

record ('o, 'a, 'c, 'v, 'g, 's, 'h) run_spec =
  rs_env :: "('o, 'c, 'v, 'g) runtime_env"
  rs_builders :: "('o, 'a, 'c) task_builder list"
  rs_world :: "'o world"
  rs_verifier :: 'v
  rs_checker :: "('a, 's) linearizability_checker"
  rs_cancel :: "'o world \<Rightarrow> 'o world"
  rs_seed :: 'g
  rs_rounding :: rounding
  rs_smart :: "'h smart_random"
  rs_smart_seed :: 'h

definition MakeStrategy ::
    "opts \<Rightarrow> ('o, 'a, 'c, 'v, 'g, 's, 'h) run_spec \<Rightarrow> ('o, 'a, 'c, 'v, 'g) made_strategy res" where
  "MakeStrategy opts S =
     (let n = unat (opt_threads opts); l = rs_builders S in
      case opt_typ opts of
        RR \<Rightarrow> Inr (Made_RR (RR_New n l (rs_world S) (rs_verifier S) (rs_seed S)))
      | RND \<Rightarrow>
          let weights = opt_thread_weights opts;
              weights = (if weights = [] then replicate n 1 else weights) in
          if length weights \<noteq> n
          then Inl (Invalid_Argument ''number of threads not equal to number of weights'')
          else Inr (Made_RND (Random_New n l weights (rs_world S) (rs_verifier S) (rs_seed S)))
      | PCT \<Rightarrow>
          res_bind (Pct_New (rs_env S) n l (opt_forbid_all_same opts) (rs_world S) (rs_verifier S) (rs_seed S))
            (\<lambda>st. Inr (Made_PCT st))
      | TLA \<Rightarrow> Inl (Assert_Failed ''unexpected type''))"

text \<open>The constructors of the minimizors take an \<open>int\<close>, up to which their loops count; a negative one means no run.\<close>

definition int_runs :: "64 word \<Rightarrow> nat" where
  "int_runs n = nat (sint (ucast n :: 32 word))"

definition MakeScheduler ::
    "opts \<Rightarrow> ('o, 'a, 'c, 'v, 'g, 's, 'h) run_spec \<Rightarrow> ('o, 'a, 'c, 'v, 'g) made_scheduler res" where
  "MakeScheduler opts S =
     (if opt_typ opts = TLA then
        Inr (Made_TLA
          \<lparr>tla_max_tasks = unat (opt_tasks opts), tla_max_rounds = unat (opt_rounds opts),
           tla_max_switches = unat (opt_switches opts), tla_max_depth = unat (opt_depth opts),
           tla_constructors = rs_builders S, tla_check = Check_recursive (rs_checker S),
           tla_cancel = rs_cancel S\<rparr>
          (TLAScheduler (unat (opt_threads opts)) (rs_world S) (rs_verifier S)))
      else
        res_bind (MakeStrategy opts S) (\<lambda>strategy.
        Inr (Made_Strategy_Scheduler strategy
          \<lparr>max_tasks = unat (opt_tasks opts), should_minimize_history = opt_minimize opts,
           sp_exploration_runs = int_runs (opt_exploration_runs opts),
           sp_minimization_runs = int_runs (opt_minimization_runs opts)\<rparr>
          (unat (opt_rounds opts)))))"

text \<open>\<open>scheduler->Run()\<close>, with the tasks that the histories refer to, as the scheduler leaves them.\<close>

type_synonym ('a, 'c) run_report = "(both_histories \<times> (slot \<Rightarrow> ('a, 'c) coro)) option"

fun Scheduler_Run ::
    "('o, 'a, 'c, 'v, 'g, 's, 'h) run_spec \<Rightarrow> ('o, 'a, 'c, 'v, 'g) made_scheduler \<Rightarrow> ('a, 'c) run_report res" where
  "Scheduler_Run S (Made_Strategy_Scheduler (Made_RR st) P n) =
     res_bind (Run (RR_methods (rs_env S)) (rs_env S) (Check_recursive (rs_checker S)) (rs_rounding S)
       (rs_smart S) (rs_smart_seed S) P n st) (\<lambda>(r, st). Inr (map_option (\<lambda>h. (h, store st)) r))"
| "Scheduler_Run S (Made_Strategy_Scheduler (Made_RND st) P n) =
     res_bind (Run (Random_methods (rs_env S)) (rs_env S) (Check_recursive (rs_checker S)) (rs_rounding S)
       (rs_smart S) (rs_smart_seed S) P n st) (\<lambda>(r, st). Inr (map_option (\<lambda>h. (h, store st)) r))"
| "Scheduler_Run S (Made_Strategy_Scheduler (Made_PCT st) P n) =
     res_bind (Run (Pct_methods (rs_env S)) (rs_env S) (Check_recursive (rs_checker S)) (rs_rounding S)
       (rs_smart S) (rs_smart_seed S) P n st) (\<lambda>(r, st). Inr (map_option (\<lambda>h. (h, store st)) r))"
| "Scheduler_Run S (Made_TLA P st) = res_bind (Tla_Run P (rs_env S) st) (\<lambda>((_, r), st).
     Inr (map_option (\<lambda>h. (h, tla_store (tla_threads st))) r))"

text \<open>The exit code, with the history that is printed and its tasks.\<close>

type_synonym ('a, 'c) run_result = "int \<times> (seq_history \<times> (slot \<Rightarrow> ('a, 'c) coro)) option"

definition TrapRun ::
    "('o, 'a, 'c, 'v, 'g, 's, 'h) run_spec \<Rightarrow> ('o, 'a, 'c, 'v, 'g) made_scheduler
      \<Rightarrow> ('a, 'c) run_result res" where
  "TrapRun S scheduler =
     res_bind (Scheduler_Run S scheduler) (\<lambda>result.
     Inr (case result of Some (h, tk) \<Rightarrow> (1, Some (snd h, tk)) | None \<Rightarrow> (0, None)))"

definition ltest_Run ::
    "(string list \<Rightarrow> flags \<Rightarrow> flags) \<Rightarrow> default_options option \<Rightarrow> string list
      \<Rightarrow> ('o, 'a, 'c, 'v, 'g, 's, 'h) run_spec \<Rightarrow> ('a, 'c) run_result res" where
  "ltest_Run ParseCommandLineFlags options_override argv S =
     (let fl = (case options_override of None \<Rightarrow> default_flags | Some def \<Rightarrow> SetOpts def default_flags) in
      res_bind (ParseOpts (ParseCommandLineFlags argv fl)) (\<lambda>opts.
      res_bind (MakeScheduler opts S) (TrapRun S)))"

section \<open>What the TLA scheduler reports\<close>

definition tla_reports ::
    "('o, 'a, 'c) tla_params \<Rightarrow> (tla_result \<times> ('o, 'a, 'c, 'v) tla_state) res \<Rightarrow> bool" where
  "tla_reports P m \<longleftrightarrow> (\<forall>b f q st. m = Inr ((b, Some (f, q)), st) \<longrightarrow> tla_check P (tla_store (tla_threads st)) q = Inr False)"

lemma tla_reports_simps [simp]:
  "tla_reports P (Inl e)" "tla_reports P (Inr ((b, None), st))"
  by (simp_all add: tla_reports_def)

lemma tla_reportsD: "tla_reports P m \<Longrightarrow> m = Inr ((b, Some (f, q)), st) \<Longrightarrow> tla_check P (tla_store (tla_threads st)) q = Inr False"
  unfolding tla_reports_def by blast

lemma tla_reports_bind:
  assumes "tla_reports P m" "\<And>st. m = Inr ((False, None), st) \<Longrightarrow> tla_reports P (f st)"
  shows "tla_reports P (res_bind m (\<lambda>((b, r), st). if b \<or> r \<noteq> None then Inr ((b, r), st) else f st))"
proof (cases m)
  case (Inr x)
  then show ?thesis using assms by (cases x; cases "fst (fst x) \<or> snd (fst x) \<noteq> None") (auto simp: tla_reports_def)
qed simp

lemma tla_reports_if: "tla_reports P m \<Longrightarrow> tla_reports P m' \<Longrightarrow> tla_reports P (if b then m else m')"
  by simp

lemma tla_reports_later:
  "(\<And>x. tla_reports P (f x)) \<Longrightarrow> tla_reports P (res_bind m f)"
  by (cases m) (simp_all add: tla_reports_def)

lemma Tla_ResumeTask_reports:
  assumes "\<And>step switches st. tla_reports P (rec step switches st)"
  shows "tla_reports P (Tla_ResumeTask rec P E fi step switches t new st)"
proof -
  have undo: "tla_reports P (res_bind (tla_undo fin new st) (\<lambda>st. Inr ((False, None), st)))" for fin st
    by (rule tla_reports_later) simp
  have rest: "tla_reports P (res_bind (tla_check P (tla_store (tla_threads st)) (tla_seq st)) (\<lambda>ok.
          if \<not> ok then Inr ((False, Some ([], tla_seq st)), st)
          else if finished_rounds st = tla_max_rounds P then Inr ((True, None), st)
          else res_bind (tla_undo fin new st) (\<lambda>st. Inr ((False, None), st))))" for fin st
  proof (cases "tla_check P (tla_store (tla_threads st)) (tla_seq st)")
    case (Inr ok)
    then have "\<not> ok \<Longrightarrow> tla_check P (tla_store (tla_threads st)) (tla_seq st) = Inr False" by auto
    then have "tla_reports P (Inr ((False, Some ([], tla_seq st)), st))" if "\<not> ok"
      using that by (simp add: tla_reports_def)
    with Inr undo [of fin st] show ?thesis by simp
  qed simp
  note recs = tla_reports_bind [OF assms undo]
  let ?k = "if \<not> new \<and> is_switch t (thread_id_history st) then Suc switches else switches"
  show ?thesis
  proof (cases "\<not> new \<and> ?k > tla_max_switches P")
    case True
    show ?thesis unfolding Tla_ResumeTask_def Let_def if_P [OF True] by simp
  next
    case False
    show ?thesis
      unfolding Tla_ResumeTask_def Let_def if_not_P [OF False]
      apply (rule tla_reports_later)
      subgoal for x
        by (cases x) (simp only: prod.case, rule tla_reports_if, (rule recs rest)+)
      done
  qed
qed

lemma run_constructors_reports:
  assumes "\<And>step switches st. tla_reports P (rec step switches st)"
  shows "tla_reports P (run_constructors rec P E fi step switches t bs st)"
proof (induction bs arbitrary: st)
  case (Cons b bs)
  note next_one = tla_reports_later [OF tla_reports_later [OF Cons.IH]]
  note this_one = tla_reports_bind [OF Tla_ResumeTask_reports [OF assms] next_one]
  show ?case
    unfolding run_constructors.simps Let_def
    by (rule tla_reports_later) (auto intro!: this_one Cons.IH simp del: not_None_eq split: prod.splits)
qed simp

lemma visit_thread_reports:
  assumes "\<And>step switches st. tla_reports P (rec step switches st)"
    and "visit_thread rec P E fi step switches t ap st = Inr ((b, Some (f, q)), ap', st')"
  shows "tla_check P (tla_store (tla_threads st')) q = Inr False"
  using assms(2) unfolding visit_thread_def
  by (auto simp: Let_def elim!: res_bind_Inr_E split: if_splits)
    (erule tla_reportsD [OF run_constructors_reports [where rec = rec, OF assms(1)]]
      tla_reportsD [OF Tla_ResumeTask_reports [where rec = rec, OF assms(1)]])+

lemma run_threads_reports:
  assumes "\<And>step switches st. tla_reports P (rec step switches st)"
  shows "run_threads rec P E fi step switches ts ap st = Inr ((b, Some (f, q)), ap', st') \<Longrightarrow>
    tla_check P (tla_store (tla_threads st')) q = Inr False"
proof (induction ts arbitrary: ap st)
  case (Cons t ts)
  then show ?case
    using visit_thread_reports [where rec = rec and E = E and fi = fi and t = t, OF assms]
    by (auto elim!: res_bind_Inr_E split: if_splits)
qed simp

lemma Tla_RunStep_reports: "tla_reports P (Tla_RunStep fuel P E step switches st)"
proof (induction fuel arbitrary: step switches st)
  case (Suc fuel)
  show ?case
    unfolding tla_reports_def Tla_RunStep.simps
    using run_threads_reports [OF Suc.IH] by (auto elim!: res_bind_Inr_E split: if_splits)
qed simp

section \<open>The exit code\<close>

lemma Made_strategy_fresh:
  assumes "MakeStrategy opts S = Inr m"
  shows "case m of
      Made_RR st \<Rightarrow> (\<forall>th \<in> set (threads st). th = []) \<and> removed_tasks st = {}
    | Made_RND st \<Rightarrow> (\<forall>th \<in> set (threads st). th = []) \<and> removed_tasks st = {}
    | Made_PCT st \<Rightarrow> (\<forall>th \<in> set (threads st). th = []) \<and> removed_tasks st = {}"
  using assms by (auto simp: MakeStrategy_def Let_def RR_New_def Random_New_def Pct_New_def PrepareForDepth_def split_beta
      elim!: res_bind_Inr_E split: strategy_type.splits if_splits)

text \<open>A history records the tasks: it is well formed, and has the result of every task that has returned.\<close>

definition recorded :: "(slot \<Rightarrow> ('a, 'c) coro) \<Rightarrow> seq_history \<Rightarrow> bool" where
  "recorded tk h \<longleftrightarrow> wf_history h \<and> (\<forall>r \<in> set (invoked h). r \<in> set (answered h) \<longleftrightarrow> co_is_returned (tk r))
     \<and> (\<forall>r v t. Response r v t \<in> set h \<longrightarrow> v = co_ret (tk r)) \<and> (\<forall>e \<in> set h. thread_id e = int (fst (GetTask e)))"

lemma refuted_store: "refuted C st h \<Longrightarrow> Check_recursive C (store st) (snd h) = Inr False \<and> recorded (store st) (snd h)"
  by (simp add: refuted_def recorded_def records_def store_def)

lemma Scheduler_Run_refused:
  fixes S :: "('o, 'a, 'c, 'v, 'g, 's, 'h) run_spec"
  assumes "random_ok (env_random (rs_env S))" "MakeScheduler opts S = Inr sched" "Scheduler_Run S sched = Inr (Some (h, tk))"
  shows "Check_recursive (rs_checker S) tk (snd h) = Inr False \<and> (opt_typ opts \<noteq> TLA \<longrightarrow> recorded tk (snd h))"
proof (cases sched)
  case (Made_Strategy_Scheduler m P n)
  then have m: "MakeStrategy opts S = Inr m"
    using assms(2) by (auto simp: MakeScheduler_def elim!: res_bind_Inr_E split: if_splits)
  note R = refuted_store [OF conjunct2 [OF rr_round.Run_counterexample [OF assms(1)]]]
    refuted_store [OF conjunct2 [OF random_round.Run_counterexample [OF assms(1)]]]
    refuted_store [OF conjunct2 [OF pct_round.Run_counterexample [OF TrueI]]]
  show ?thesis
    using Made_strategy_fresh [OF m] assms(3) unfolding Made_Strategy_Scheduler
    by (cases m) (auto elim!: res_bind_Inr_E dest: R)
next
  case (Made_TLA P st)
  then have "tla_check P = Check_recursive (rs_checker S)" "opt_typ opts = TLA"
    using assms(2) by (auto simp: MakeScheduler_def elim!: res_bind_Inr_E split: if_splits)
  with Made_TLA assms(3) tla_reportsD [OF Tla_RunStep_reports [of P "env_fuel (rs_env S)" "rs_env S" 0 0 st]] show ?thesis
    by (cases h) (auto simp: Tla_Run_def elim!: res_bind_Inr_E)
qed

definition sample_spec :: "(int, int, nat, unit, unit, linear_register, unit) run_spec" where
  "sample_spec = \<lparr>rs_env = sample_env, rs_builders = [sample_builder ''get'' 1], rs_world = sample_world,
     rs_verifier = (), rs_checker = Register_checker, rs_cancel = (\<lambda>w. w), rs_seed = (),
     rs_rounding = exact, rs_smart = sample_smart, rs_smart_seed = ()\<rparr>"

definition two_tasks :: "string \<Rightarrow> default_options" where
  "two_tasks strategy = \<lparr>do_threads = 2, do_tasks = 2, do_switches = 4, do_rounds = 3, do_depth = 1,
     do_forbid_all_same = False, do_verbose = False, do_strategy = strategy, do_weights = [],
     do_minimization_runs = 1, do_exploration_runs = 1\<rparr>"

lemma sample_spec_runs:
  "case ltest_Run (\<lambda>_ fl. fl) (Some (two_tasks ''tla'')) [] sample_spec of
     Inl _ \<Rightarrow> False | Inr (code, res) \<Rightarrow> code = 1 \<and> map_option (length \<circ> fst) res = Some 4"
  "case ltest_Run (\<lambda>_ fl. fl) (Some (two_tasks ''rr'')) [] sample_spec of
     Inl _ \<Rightarrow> False | Inr (code, res) \<Rightarrow> code = 1 \<and> map_option (length \<circ> fst) res = Some 4"
  by code_simp+

text \<open>
  C4. The message of the tool can be trusted. The exit code of a run is 1 exactly when a history is
  printed, and 0 otherwise. Whichever scheduler the options choose, and with or without minimization, the
  checker refuses the printed history for the tasks that the scheduler is left with, whose names, arguments and
  results are printed; so it is not linearizable, if the specification knows the methods and can compare
  their results. With the strategies, the history is well formed and has the result of exactly the tasks that have
  returned.
\<close>

theorem ltest_Run_exit_code:
  fixes S :: "('o, 'a, 'c, 'v, 'g, 's, 'h) run_spec"
  assumes "random_ok (env_random (rs_env S))" "ltest_Run Parse def argv S = Inr (code, res)"
  shows "(code = 1 \<longleftrightarrow> res \<noteq> None) \<and> (code = 0 \<longleftrightarrow> res = None)
    \<and> (\<forall>h tk. res = Some (h, tk) \<longrightarrow> Check_recursive (rs_checker S) tk h = Inr False
         \<and> (checkable (rs_checker S) tk h \<longrightarrow> \<not> linearizable (rs_checker S) tk h)
         \<and> (\<exists>opts. ParseOpts (Parse argv (case def of None \<Rightarrow> default_flags | Some d \<Rightarrow> SetOpts d default_flags)) = Inr opts
              \<and> (opt_typ opts \<noteq> TLA \<longrightarrow> recorded tk h)))"
proof -
  from assms(2) obtain opts sched r where o: "ParseOpts (Parse argv (case def of None \<Rightarrow> default_flags | Some d \<Rightarrow> SetOpts d default_flags)) = Inr opts"
    and m: "MakeScheduler opts S = Inr sched" "Scheduler_Run S sched = Inr r"
    and e: "(code, res) = (case r of Some (h, tk) \<Rightarrow> (1, Some (snd h, tk)) | None \<Rightarrow> (0, None))"
    by (auto simp: ltest_Run_def TrapRun_def Let_def elim!: res_bind_Inr_E)
  have "Check_recursive (rs_checker S) tk h = Inr False \<and> (opt_typ opts \<noteq> TLA \<longrightarrow> recorded tk h)
      \<and> (checkable (rs_checker S) tk h \<longrightarrow> \<not> linearizable (rs_checker S) tk h)" if "res = Some (h, tk)" for h tk
  proof -
    from e that obtain f where "r = Some ((f, h), tk)" by (cases r) auto
    with Scheduler_Run_refused [OF assms(1) m(1), of "(f, h)" tk] m(2)
    show ?thesis using recursive_checker.Check_verdict [of "rs_checker S" tk h] by auto
  qed
  with o e show ?thesis by (auto split: option.splits)
qed

theorem ltest_Run_exit_code_witness:
  "\<exists>h tk. ltest_Run (\<lambda>_ fl. fl) (Some (two_tasks ''rr'')) [] sample_spec = Inr (1, Some (h, tk)) \<and> length h = 4
     \<and> Check_recursive Register_checker tk h = Inr False \<and> recorded tk h"
proof -
  from sample_spec_runs(2) obtain code res where r: "ltest_Run (\<lambda>_ fl. fl) (Some (two_tasks ''rr'')) [] sample_spec = Inr (code, res)"
    and p: "code = 1 \<and> map_option (length \<circ> fst) res = Some 4" by (rule res_case_E)
  then obtain h tk where h: "res = Some (h, tk)" "length h = 4" by (cases res) auto
  have s: "random_ok (env_random (rs_env sample_spec))" "rs_checker sample_spec = Register_checker"
    using sample_env_random by (simp_all add: sample_spec_def)
  have "opt_typ opts = RR" if "ParseOpts (SetOpts (two_tasks ''rr'') default_flags) = Inr opts" for opts
  proof -
    have "case ParseOpts (SetOpts (two_tasks ''rr'') default_flags) of Inl _ \<Rightarrow> False | Inr opts \<Rightarrow> opt_typ opts = RR" by code_simp
    then show ?thesis using that by simp
  qed
  with ltest_Run_exit_code [OF s(1) r] r p h show ?thesis unfolding s(2) by auto
qed

end
