(* ===== verification/Pretty_Print.thy ===== *)
theory Pretty_Print
  imports Tla_Scheduler
begin

text \<open>
  Model of \<open>PrettyPrinter\<close> of \<open>runtime/include/pretty_print.h\<close>, which prints a history as a table
  with a column for each thread. What is written to the stream is a string; the printer of full
  histories writes to two streams. The strings of the arguments of a task come from a function
  that the task builder supplies, which is a parameter. The number of threads is below \<open>10 ^ 19\<close>.
\<close>

section \<open>Parts of the table\<close>

definition nl :: string where
  "nl = [CHR 0x0A]"

definition cell_width :: nat where
  "cell_width = 20"

definition spaces :: "int \<Rightarrow> string" where
  "spaces k = replicate (nat k) (CHR '' '')"

definition print_separator :: "nat \<Rightarrow> string" where
  "print_separator threads_num =
     ''*'' @ concat (replicate threads_num (replicate cell_width (CHR ''-'') @ ''*'')) @ nl"

definition header_cell :: "nat \<Rightarrow> string" where
  "header_cell i =
     (let rest = int cell_width - 1 - int (length (to_string_nat i)) in
      spaces (rest div 2) @ ''T'' @ to_string_nat i @ spaces (rest - rest div 2) @ ''|'')"

definition print_header :: "nat \<Rightarrow> string" where
  "print_header threads_num = ''|'' @ concat (map header_cell [0..<threads_num]) @ nl"

definition print_empty_cell :: string where
  "print_empty_cell = spaces (int cell_width) @ ''|''"

text \<open>
  The cells to the left and to the right of the cell of thread \<open>num\<close>. The bound of the second loop
  is computed in \<open>size_t\<close>: for a thread that the table does not have it wraps around, and the
  counter of the loop overflows.
\<close>

definition left_cells :: "int \<Rightarrow> string" where
  "left_cells num = concat (replicate (nat num) print_empty_cell)"

definition right_cells :: "nat \<Rightarrow> int \<Rightarrow> string res" where
  "right_cells threads_num num =
     (if int threads_num - num - 1 < 0 then Inl Out_Of_Range
      else Inr (concat (replicate (nat (int threads_num - num - 1)) print_empty_cell)))"

text \<open>\<open>FitPrinter\<close>: what was written and the number of symbols that are left.\<close>

type_synonym fit_printer = "string \<times> int"

definition Fit_Out :: "string \<Rightarrow> fit_printer \<Rightarrow> fit_printer" where
  "Fit_Out msg fp = (fst fp @ msg, snd fp - int (length msg))"

fun out_args :: "nat \<Rightarrow> string list \<Rightarrow> fit_printer \<Rightarrow> fit_printer" where
  "out_args i [] fp = fp"
| "out_args i (a # as) fp =
     out_args (Suc i) as (Fit_Out a (if i > 0 then Fit_Out '', '' fp else fp))"

section \<open>Sequential histories\<close>

definition invoke_cell :: "('a \<Rightarrow> string list) \<Rightarrow> ('a, 'c) coro \<Rightarrow> fit_printer \<Rightarrow> fit_printer" where
  "invoke_cell str_args c fp =
     Fit_Out '')'' (out_args 0 (str_args (co_args c)) (Fit_Out ''('' (Fit_Out (co_name c)
       (Fit_Out (''['' @ to_string_int (co_id c) @ ''] '') fp))))"

definition print_event ::
    "('a \<Rightarrow> string list) \<Rightarrow> nat \<Rightarrow> ('r \<Rightarrow> ('a, 'c) coro) \<Rightarrow> 'r history_event \<Rightarrow> string res" where
  "print_event str_args threads_num tk i =
     (let num = thread_id i; fp = Fit_Out '' '' ([], int cell_width) in
      res_bind
        (case i of
           Invoke r _ \<Rightarrow> Inr (invoke_cell str_args (tk r) fp)
         | Response r _ _ \<Rightarrow>
             res_bind (GetRetVal (tk r)) (\<lambda>v. res_bind (vw_to_string v) (\<lambda>s. Inr (Fit_Out (''<-- '' @ s) fp))))
        (\<lambda>fp.
      res_bind (cxx_assert ''increase cell_width in pretty printer'' (snd fp > 0)) (\<lambda>_.
      res_bind (right_cells threads_num num) (\<lambda>right.
      Inr (''|'' @ left_cells num @ fst fp @ spaces (snd fp) @ ''|'' @ right @ nl)))))"

fun print_events ::
    "('a \<Rightarrow> string list) \<Rightarrow> nat \<Rightarrow> ('r \<Rightarrow> ('a, 'c) coro) \<Rightarrow> 'r history_event list \<Rightarrow> string res" where
  "print_events str_args n tk [] = Inr []"
| "print_events str_args n tk (e # es) =
     res_bind (print_event str_args n tk e) (\<lambda>s. res_bind (print_events str_args n tk es) (\<lambda>t. Inr (s @ t)))"

definition PrettyPrint ::
    "('a \<Rightarrow> string list) \<Rightarrow> nat \<Rightarrow> ('r \<Rightarrow> ('a, 'c) coro) \<Rightarrow> 'r history_event list \<Rightarrow> string res" where
  "PrettyPrint str_args threads_num tk h =
     res_bind (print_events str_args threads_num tk h) (\<lambda>rows.
     Inr (print_separator threads_num @ print_header threads_num @ print_separator threads_num
       @ rows @ print_separator threads_num))"

section \<open>Full histories\<close>

text \<open>
  The state of the printer of full histories: the numbers given to the tasks, the depth of the
  coroutines of each thread, the stream \<open>out\<close> and the standard output.
\<close>

record full_printer =
  fp_index :: "slot list"
  fp_depth :: "int list"
  fp_out :: string
  fp_cout :: string

definition task_number :: "slot \<Rightarrow> slot list \<Rightarrow> nat \<times> slot list" where
  "task_number r index =
     (let n = length (takeWhile (\<lambda>x. x \<noteq> r) index) in
      if n < length index then (n, index) else (length index, index @ [r]))"

definition print_task_entry ::
    "('a \<Rightarrow> string list) \<Rightarrow> (slot \<Rightarrow> ('a, 'c) coro) \<Rightarrow> nat \<Rightarrow> slot \<Rightarrow> full_printer
      \<Rightarrow> (fit_printer \<times> full_printer) res" where
  "print_task_entry str_args tk num r p =
     (let (n, index) = task_number r (fp_index p); len = length (to_string_nat n) in
      res_bind (cxx_assert ''spaces - length >= 0'' (7 - int len \<ge> 0)) (\<lambda>_.
      let fp = Fit_Out '')'' (out_args 0 (str_args (co_args (tk r)))
                 (Fit_Out ''('' (Fit_Out (co_name (tk r)) (Fit_Out '' '' ([], int cell_width))))) in
      Inr (fp, p\<lparr>fp_index := index, fp_cout := fp_cout p @ to_string_nat n,
                 fp_out := fp_out p @ spaces (7 - int len) @ ''|'' @ left_cells (int num) @ fst fp\<rparr>)))"

definition print_status_entry ::
    "nat \<Rightarrow> coroutine_status \<Rightarrow> full_printer \<Rightarrow> (fit_printer \<times> full_printer) res" where
  "print_status_entry num cor p =
     res_bind (vec_get (fp_depth p) num) (\<lambda>d.
     let fp = ([], int cell_width);
         fp = (if cs_has_started cor then Fit_Out ''>'' (Fit_Out (spaces (d + 1)) fp)
               else Fit_Out ''<'' (Fit_Out (spaces d) fp));
         fp = Fit_Out (cs_name cor) fp in
     res_bind (cxx_assert ''increase cell_width in pretty printer'' (snd fp > 0)) (\<lambda>_.
     Inr (fp, p\<lparr>fp_depth := (fp_depth p)[num := (if cs_has_started cor then d + 1 else d - 1)],
                fp_out := fp_out p @ spaces 7 @ ''|'' @ left_cells (int num) @ fst fp\<rparr>)))"

definition print_full_entry ::
    "('a \<Rightarrow> string list) \<Rightarrow> nat \<Rightarrow> (slot \<Rightarrow> ('a, 'c) coro) \<Rightarrow> nat \<times> (slot + coroutine_status) \<Rightarrow> full_printer
      \<Rightarrow> full_printer res" where
  "print_full_entry str_args threads_num tk e p =
     res_bind (case snd e of
         Inl r \<Rightarrow> print_task_entry str_args tk (fst e) r p
       | Inr cor \<Rightarrow> print_status_entry (fst e) cor p) (\<lambda>(fp, p).
     res_bind (right_cells threads_num (int (fst e))) (\<lambda>right.
     Inr (p\<lparr>fp_out := fp_out p @ spaces (snd fp) @ ''|'' @ right @ nl\<rparr>)))"

fun print_full_entries ::
    "('a \<Rightarrow> string list) \<Rightarrow> nat \<Rightarrow> (slot \<Rightarrow> ('a, 'c) coro) \<Rightarrow> full_history_with_threads \<Rightarrow> full_printer
      \<Rightarrow> full_printer res" where
  "print_full_entries str_args n tk [] p = Inr p"
| "print_full_entries str_args n tk (e # es) p =
     res_bind (print_full_entry str_args n tk e p) (print_full_entries str_args n tk es)"

definition PrettyPrint_full ::
    "('a \<Rightarrow> string list) \<Rightarrow> nat \<Rightarrow> (slot \<Rightarrow> ('a, 'c) coro) \<Rightarrow> full_history_with_threads \<Rightarrow> full_printer res" where
  "PrettyPrint_full str_args threads_num tk h =
     res_bind (print_full_entries str_args threads_num tk h
       \<lparr>fp_index = [], fp_depth = replicate threads_num 0,
        fp_out = spaces 7 @ print_separator threads_num @ spaces 7 @ print_header threads_num
          @ spaces 7 @ print_separator threads_num, fp_cout = []\<rparr>) (\<lambda>p.
     Inr (p\<lparr>fp_out := fp_out p @ spaces 7 @ print_separator threads_num\<rparr>))"

section \<open>The shape of the table\<close>

text \<open>A line of the table: \<open>w\<close> symbols and a line break.\<close>

definition is_line :: "nat \<Rightarrow> string \<Rightarrow> bool" where
  "is_line w s \<longleftrightarrow> (\<exists>l. s = l @ nl \<and> length l = w)"

abbreviation table_width :: "nat \<Rightarrow> nat" where
  "table_width n \<equiv> 1 + n * 21"

lemma length_spaces [simp]: "length (spaces k) = nat k"
  by (simp add: spaces_def)

lemma length_empty_cell [simp]: "length print_empty_cell = 21"
  by (simp add: print_empty_cell_def cell_width_def)

lemma length_concat_replicate: "length (concat (replicate n xs)) = n * length xs"
  by (induction n) simp_all

lemma separator_line: "is_line (table_width n) (print_separator n)"
  unfolding is_line_def print_separator_def
  by (rule exI [of _ "''*'' @ concat (replicate n (replicate cell_width (CHR ''-'') @ ''*''))"])
    (simp add: length_concat_replicate cell_width_def)

lemma length_to_string_nat: "0 < k \<Longrightarrow> n < 10 ^ k \<Longrightarrow> length (to_string_nat n) \<le> k"
proof (induction n arbitrary: k rule: to_string_nat.induct)
  case (1 n)
  show ?case
  proof (cases "n < 10")
    case False
    then obtain m where m: "k = Suc m" "0 < m" using "1.prems" by (cases k; cases "k = 1") auto
    with "1.prems" have "n div 10 < 10 ^ m" by (simp add: div_less_iff_less_mult mult.commute)
    then show ?thesis using "1.IH" [OF False m(2)] False m by (simp add: to_string_nat.simps [of n])
  qed (use "1.prems" in \<open>simp add: to_string_nat.simps [of n]\<close>)
qed

lemma length_header_cell:
  assumes "i < 10 ^ 19"
  shows "length (header_cell i) = 21"
proof -
  have "length (to_string_nat i) \<le> 19" using length_to_string_nat [of 19 i] assms by simp
  then show ?thesis by (simp add: header_cell_def Let_def cell_width_def)
qed

lemma header_line:
  assumes "n \<le> 10 ^ 19"
  shows "is_line (table_width n) (print_header n)"
proof -
  have "length (concat (map header_cell [0..<k])) = k * 21" if "k \<le> n" for k
    using that assms by (induction k) (simp_all add: length_header_cell)
  then show ?thesis unfolding is_line_def print_header_def
    by (intro exI [of _ "''|'' @ concat (map header_cell [0..<n])"]) simp
qed

definition fits :: "fit_printer \<Rightarrow> bool" where
  "fits fp \<longleftrightarrow> int (length (fst fp)) + snd fp = int cell_width"

lemma fits_Out: "fits fp \<Longrightarrow> fits (Fit_Out msg fp)"
  by (simp add: fits_def Fit_Out_def)

lemma fits_args: "fits fp \<Longrightarrow> fits (out_args i as fp)"
  by (induction i as fp rule: out_args.induct) (simp_all add: fits_Out)

lemma fits_start: "fits ([], int cell_width)"
  by (simp add: fits_def)

lemma row_line:
  assumes "fits fp" "0 \<le> snd fp" "0 \<le> num" "right_cells n num = Inr right"
  shows "is_line (table_width n) (''|'' @ left_cells num @ fst fp @ spaces (snd fp) @ ''|'' @ right @ nl)"
proof -
  have r: "int n - num - 1 \<ge> 0" "right = concat (replicate (nat (int n - num - 1)) print_empty_cell)"
    using assms(4) by (auto simp: right_cells_def split: if_splits)
  have "nat num + nat (int n - num - 1) + 1 = n" using r(1) assms(3) by linarith
  then have "21 * nat num + 21 + 21 * nat (int n - num - 1) = 21 * n" by (simp flip: distrib_left)
  moreover have "length (fst fp) + nat (snd fp) = 20" using assms(1,2) by (simp add: fits_def cell_width_def nat_eq_iff2)
  ultimately show ?thesis
    unfolding is_line_def r(2) left_cells_def
    by (intro exI [of _ "''|'' @ concat (replicate (nat num) print_empty_cell) @ fst fp @ spaces (snd fp) @ ''|''
        @ concat (replicate (nat (int n - num - 1)) print_empty_cell)"]) (simp add: length_concat_replicate)
qed

lemma print_event_line:
  assumes "print_event str_args n tk e = Inr s" "0 \<le> thread_id e"
  shows "is_line (table_width n) s"
proof -
  let ?fp = "Fit_Out '' '' ([], int cell_width)"
  have f: "fits ?fp" by (intro fits_Out fits_start)
  from assms(1) obtain fp right where c: "(case e of
        Invoke r _ \<Rightarrow> Inr (invoke_cell str_args (tk r) ?fp)
      | Response r _ _ \<Rightarrow>
          res_bind (GetRetVal (tk r)) (\<lambda>v. res_bind (vw_to_string v) (\<lambda>s. Inr (Fit_Out (''<-- '' @ s) ?fp)))) = Inr fp"
    and fp: "0 < snd fp" "right_cells n (thread_id e) = Inr right"
    "s = ''|'' @ left_cells (thread_id e) @ fst fp @ spaces (snd fp) @ ''|'' @ right @ nl"
    unfolding print_event_def Let_def by (elim res_bind_Inr_E) (simp add: cxx_assert_Inr_iff)
  have "fits fp"
    using c by (cases e) (auto simp: invoke_cell_def intro!: fits_Out fits_args fits_start elim!: res_bind_Inr_E)
  then show ?thesis unfolding fp(3) using fp(1) by (intro row_line [OF _ _ assms(2) fp(2)]) simp_all
qed

lemma print_events_lines:
  "print_events str_args n tk h = Inr s \<Longrightarrow> \<forall>e \<in> set h. 0 \<le> thread_id e \<Longrightarrow>
     \<exists>rows. s = concat rows \<and> length rows = length h \<and> (\<forall>l \<in> set rows. is_line (table_width n) l)"
proof (induction h arbitrary: s)
  case (Cons e es)
  from Cons.prems(1) obtain l t where l: "print_event str_args n tk e = Inr l" "print_events str_args n tk es = Inr t" "s = l @ t"
    by (auto elim!: res_bind_Inr_E)
  from Cons.IH [OF l(2)] Cons.prems(2) obtain rows where
    "t = concat rows" "length rows = length es" "\<forall>l \<in> set rows. is_line (table_width n) l" by auto
  with print_event_line [OF l(1)] Cons.prems(2) l(3) show ?case by (intro exI [of _ "l # rows"]) simp
qed simp

text \<open>
  C34. The table is rectangular. When \<open>PrettyPrint\<close> prints a history, what it writes is a separator, a
  header, a separator, one line for each event of the history and a separator, and all lines have
  the same width; so a cell that would be too long is never printed.
\<close>

theorem table_is_aligned:
  assumes "PrettyPrint str_args n tk h = Inr s" "n \<le> 10 ^ 19" "\<forall>e \<in> set h. 0 \<le> thread_id e"
  shows "\<exists>rows. s = print_separator n @ print_header n @ print_separator n @ concat rows @ print_separator n
    \<and> length rows = length h
    \<and> (\<forall>l \<in> set (print_separator n # print_header n # rows). \<exists>t. l = t @ nl \<and> length t = 1 + n * 21)"
proof -
  from assms(1) obtain t where t: "print_events str_args n tk h = Inr t"
    "s = print_separator n @ print_header n @ print_separator n @ t @ print_separator n"
    by (auto simp: PrettyPrint_def elim!: res_bind_Inr_E)
  from print_events_lines [OF t(1) assms(3)] obtain rows where
    "t = concat rows" "length rows = length h" "\<forall>l \<in> set rows. is_line (table_width n) l" by blast
  with t(2) separator_line [of n] header_line [OF assms(2)] show ?thesis
    unfolding is_line_def by (intro exI [of _ rows]) auto
qed

definition printed_tasks :: "nat \<Rightarrow> (int, nat) coro" where
  "printed_tasks i = (Coro_New (\<lambda>_. 0) 7 ''Push'' (int i))\<lparr>co_ret := void_v, co_is_returned := True\<rparr>"

abbreviation printed_sample :: "string res" where
  "printed_sample \<equiv> PrettyPrint (\<lambda>a. [to_string_int a]) 2 printed_tasks [Invoke 0 1, Response 0 void_v 1]"

text \<open>The row of the invocation of the sample; and of a name that does not fit.\<close>

lemma printed_sample_row:
  "print_event (\<lambda>a. [to_string_int a]) 2 printed_tasks (Invoke 0 1)
     = Inr (''|                    | [0] Push(7)        |'' @ nl)"
  by code_simp

lemma printed_sample_ok: "\<not> isl printed_sample"
  by code_simp

theorem table_is_aligned_witness:
  "\<exists>s rows. printed_sample = Inr s
    \<and> s = print_separator 2 @ print_header 2 @ print_separator 2 @ concat rows @ print_separator 2 \<and> length rows = 2"
proof -
  from printed_sample_ok obtain s where s: "printed_sample = Inr s" by (cases printed_sample) simp_all
  from table_is_aligned [OF s] s show ?thesis by auto
qed

text \<open>
  The table of a full history is not: the number of a task is written to the standard output,
  whatever the stream of the table is, and its row is shorter by the digits of the number.
\<close>

lemma full_table_splits:
  "case PrettyPrint_full (\<lambda>a. [to_string_int a]) 1 (\<lambda>r. printed_tasks (snd r)) [(0, Inl (0, 0))] of
     Inl _ \<Rightarrow> False
   | Inr p \<Rightarrow> fp_cout p = ''0'' \<and> fp_out p =
      ''       *--------------------*'' @ nl @ ''       |         T0         |'' @ nl
      @ ''       *--------------------*'' @ nl @ ''      | Push(7)            |'' @ nl
      @ ''       *--------------------*'' @ nl"
  by code_simp

end
