(* ===== verification/Yield_Passes.thy ===== *)
theory Yield_Passes
  imports Ltest_Prelude
begin

text \<open>
  Model of the two LLVM passes that make the tested code interruptible: \<open>codegen/yieldpass.cpp\<close>
  inserts a call of \<open>CoroYield\<close> after the loads, stores and atomic read-modify-writes of the annotated functions, and
  \<open>codegen/coyieldpass.cpp\<close> brackets the coroutine calls that a configuration file names with calls
  of \<open>CoroutineStatusChange\<close>.

  The passes only look at the kind of an instruction and at the name of a called function, so an
  instruction is its kind, the name, and a number that stands for everything else. A function is
  the list of its basic blocks; a declaration has none. The names of C++ functions are demangled by LLVM, which is a
  parameter; messages to the error stream are left out.
\<close>

section \<open>Instructions and modules\<close>

datatype insn =
    LoadInst nat
  | StoreInst nat
  | AtomicRMWInst nat
  | AtomicCmpXchgInst nat
  | CallInst "string option" nat
  | InvokeInst "string option" nat nat nat
  | StatusCall string bool
  | PhiOrPad nat
  | OtherInst nat

type_synonym block = "insn list"

record func =
  f_name :: string
  f_blocks :: "block list"

text \<open>A module: its functions, and its global variables. Of those with a name the passes read the
  annotations, pairs of a function and its annotation; the private constants without a name are kept apart, as
  the list of their strings.\<close>

record ir_module =
  m_funs :: "func list"
  m_globals :: "(string \<times> (string \<times> string) list) list"
  m_strings :: "string list"

text \<open>\<open>Module::getOrInsertFunction\<close>.\<close>

definition getOrInsertFunction :: "string \<Rightarrow> ir_module \<Rightarrow> ir_module" where
  "getOrInsertFunction name M = (if name \<in> set (map f_name (m_funs M)) then M
     else M\<lparr>m_funs := m_funs M @ [\<lparr>f_name = name, f_blocks = []\<rparr>]\<rparr>)"

section \<open>The yield pass\<close>

type_synonym fun_index = "(string \<times> string) set"

definition nonatomic_attr :: string where
  "nonatomic_attr = ''ltest_nonatomic''"

definition CoroYieldF :: string where
  "CoroYieldF = ''CoroYield''"

definition CreateFunIndex :: "ir_module \<Rightarrow> fun_index" where
  "CreateFunIndex M = set (concat (map (\<lambda>(g, anns).
     if g \<noteq> ''llvm.global.annotations'' then [] else map (\<lambda>(fn, annotation). (annotation, fn)) anns) (m_globals M)))"

definition HasAttribute :: "fun_index \<Rightarrow> string \<Rightarrow> string \<Rightarrow> bool" where
  "HasAttribute index name attr \<longleftrightarrow> (attr, name) \<in> index"

definition IsTarget :: "string \<Rightarrow> fun_index \<Rightarrow> bool" where
  "IsTarget fun_name index = HasAttribute index fun_name nonatomic_attr"

fun NeedInterrupt :: "insn \<Rightarrow> bool" where
  "NeedInterrupt (LoadInst _) = True"
| "NeedInterrupt (StoreInst _) = True"
| "NeedInterrupt (AtomicRMWInst _) = True"
| "NeedInterrupt _ = False"

fun ItsYieldInst :: "insn \<Rightarrow> bool" where
  "ItsYieldInst (CallInst (Some name) _) = (name = CoroYieldF)"
| "ItsYieldInst _ = False"

text \<open>The loop over a block, which ends before the last instruction. The iterator steps over
  an inserted call.\<close>

fun yield_block :: "block \<Rightarrow> block" where
  "yield_block (x # y # r) =
     (if NeedInterrupt x \<and> \<not> ItsYieldInst y then x # CallInst (Some CoroYieldF) 0 # yield_block (y # r)
      else x # yield_block (y # r))"
| "yield_block b = b"

text \<open>The builder is made with a reference to the first block, which a declaration does not have.\<close>

definition InsertYields :: "func \<Rightarrow> func res" where
  "InsertYields F = (if f_blocks F = [] then Inl Out_Of_Range else Inr (F\<lparr>f_blocks := map yield_block (f_blocks F)\<rparr>))"

definition YieldInserter :: "ir_module \<Rightarrow> ir_module" where
  "YieldInserter M = getOrInsertFunction CoroYieldF M"

fun YieldInserter_Run :: "fun_index \<Rightarrow> func list \<Rightarrow> func list res" where
  "YieldInserter_Run index [] = Inr []"
| "YieldInserter_Run index (F # Fs) =
     res_bind (if IsTarget (f_name F) index then InsertYields F else Inr F) (\<lambda>F.
     res_bind (YieldInserter_Run index Fs) (\<lambda>Fs. Inr (F # Fs)))"

definition YieldInsertPass :: "ir_module \<Rightarrow> ir_module res" where
  "YieldInsertPass M = (let fun_index = CreateFunIndex M; M = YieldInserter M in
     res_bind (YieldInserter_Run fun_index (m_funs M)) (\<lambda>Fs. Inr (M\<lparr>m_funs := Fs\<rparr>)))"

section \<open>The coroutine pass\<close>

definition costatus_change :: string where "costatus_change = ''CoroutineStatusChange''"
definition co_expr_start :: string where "co_expr_start = ''::await_ready''"
definition co_expr_end :: string where "co_expr_end = ''::await_resume''"
definition co_initial_suspend :: string where "co_initial_suspend = ''::initial_suspend()''"
definition co_final_suspend :: string where "co_final_suspend = ''::final_suspend()''"

record coroutine_filter =
  cf_parent_name :: "string option"
  cf_co_name :: "string option"
  cf_print_name :: string

text \<open>\<open>getCalledFunction\<close> of a call or an invoke, with its name; \<open>None\<close> for an indirect call.\<close>

fun called_function :: "insn \<Rightarrow> string option" where
  "called_function (CallInst fn _) = fn"
| "called_function (InvokeInst fn _ _ _) = fn"
| "called_function (StatusCall _ _) = Some costatus_change"
| "called_function _ = None"

fun is_invoke_inst :: "insn \<Rightarrow> bool" where
  "is_invoke_inst (InvokeInst _ _ _ _) = True"
| "is_invoke_inst _ = False"

text \<open>\<open>std::string::find\<close>.\<close>

fun find_sub :: "string \<Rightarrow> string \<Rightarrow> nat option" where
  "find_sub pat s =
     (if take (length pat) s = pat then Some 0
      else case s of [] \<Rightarrow> None | c # cs \<Rightarrow> map_option Suc (find_sub pat cs))"

declare find_sub.simps [simp del]

definition insert_at :: "nat \<Rightarrow> 'a \<Rightarrow> 'a list \<Rightarrow> 'a list" where
  "insert_at i x xs = take i xs @ x # drop i xs"

definition first_insertion_pt :: "block \<Rightarrow> nat" where
  "first_insertion_pt b = length (takeWhile (\<lambda>x. case x of PhiOrPad _ \<Rightarrow> True | _ \<Rightarrow> False) b)"

text \<open>Insertion before position \<open>i\<close> of block \<open>b\<close>.\<close>

definition insert_in :: "nat \<Rightarrow> nat \<Rightarrow> insn \<Rightarrow> block list \<Rightarrow> block list" where
  "insert_in b i x bs = bs[b := insert_at i x (bs ! b)]"

text \<open>
  What the pass changes: the blocks of the function, and the private constants of the module. \<open>InsertCall\<close> adds a constant
  with the name and inserts the call that refers to it before position \<open>i\<close> of block \<open>b\<close>.
\<close>

type_synonym pass_state = "block list \<times> string list"

definition InsertCall :: "coroutine_filter \<Rightarrow> bool \<Rightarrow> nat \<Rightarrow> nat \<Rightarrow> pass_state \<Rightarrow> pass_state" where
  "InsertCall filt start b i m = (case m of (bs, globals) \<Rightarrow>
     (insert_in b i (StatusCall (cf_print_name filt) start) bs, globals @ [cf_print_name filt]))"

definition matching :: "string \<Rightarrow> coroutine_filter list \<Rightarrow> coroutine_filter list" where
  "matching name filt = filter (\<lambda>a. cf_co_name a = None \<or> cf_co_name a = Some name) filt"

text \<open>The first entry of the configuration that matches; nothing is inserted without one.\<close>

definition InsertCallWithFilter ::
    "coroutine_filter list \<Rightarrow> string \<Rightarrow> bool \<Rightarrow> nat \<Rightarrow> nat \<Rightarrow> nat \<Rightarrow> pass_state \<Rightarrow> pass_state" where
  "InsertCallWithFilter filt co_name start end_pos b i m =
     (case matching (take end_pos co_name) filt of
        [] \<Rightarrow> m
      | a # _ \<Rightarrow> InsertCall a start b i m)"

text \<open>
  The body of the loop at instruction \<open>i\<close> of block \<open>b\<close>: the blocks, the position of the next
  instruction, which is counted after insertions before it, and \<open>skip_insert_points\<close>. An invoke is
  the last instruction of its block; the calls that close it go to the two blocks it leads to.
\<close>

definition wrap_call ::
    "coroutine_filter \<Rightarrow> insn \<Rightarrow> nat \<Rightarrow> nat \<Rightarrow> pass_state \<Rightarrow> pass_state \<times> nat" where
  "wrap_call a x b i m =
     (let m = InsertCall a True b i m in
      case x of
        InvokeInst _ _ normal unwind \<Rightarrow>
          let m = InsertCall a False normal (first_insertion_pt (fst m ! normal)) m;
              m = InsertCall a False unwind (first_insertion_pt (fst m ! unwind)) m in
          (m, length (fst m ! b))
      | _ \<Rightarrow> (InsertCall a False b (i + 2) m, i + 2))"

definition suspend_call ::
    "coroutine_filter list \<Rightarrow> string \<Rightarrow> nat \<Rightarrow> nat \<Rightarrow> pass_state \<times> nat \<Rightarrow> (pass_state \<times> nat \<times> nat) res" where
  "suspend_call filt co_name b i s = (case s of (m, skip) \<Rightarrow>
     case find_sub co_initial_suspend co_name of
       Some p \<Rightarrow>
         let m' = InsertCallWithFilter filt co_name True p b i m in
         Inr (m', i + 1 + (length (fst m' ! b) - length (fst m ! b)), 2)
     | None \<Rightarrow>
     case find_sub co_final_suspend co_name of
       Some p \<Rightarrow> Inr (InsertCallWithFilter filt co_name False p b (i + 1) m, i + 1, 2)
     | None \<Rightarrow>
     case find_sub co_expr_start co_name of
       Some p \<Rightarrow>
         if skip \<noteq> 0 then
           res_bind (cxx_assert ''skip_insert_points == 2'' (skip = 2)) (\<lambda>_. Inr (m, i + 1, skip - 1))
         else
           let m' = InsertCallWithFilter filt co_name True p b i m in
           Inr (m', i + 1 + (length (fst m' ! b) - length (fst m ! b)), skip)
     | None \<Rightarrow>
     case find_sub co_expr_end co_name of
       Some p \<Rightarrow>
         if skip \<noteq> 0 then
           res_bind (cxx_assert ''skip_insert_points == 1'' (skip = 1)) (\<lambda>_. Inr (m, i + 1, skip - 1))
         else Inr (InsertCallWithFilter filt co_name False p b (i + 1) m, i + 1, skip)
     | None \<Rightarrow> Inr (m, i + 1, skip))"

definition visit_insn ::
    "(string \<Rightarrow> string) \<Rightarrow> coroutine_filter list \<Rightarrow> nat \<Rightarrow> nat \<Rightarrow> pass_state \<times> nat \<Rightarrow> (pass_state \<times> nat \<times> nat) res" where
  "visit_insn demangle filt b i s = (case s of (m, skip) \<Rightarrow>
     let x = fst m ! b ! i in
     case called_function x of
       None \<Rightarrow> Inr (m, i + 1, skip)
     | Some fn \<Rightarrow>
         let co_name = demangle fn in
         case matching co_name filt of
           a # _ \<Rightarrow> (case wrap_call a x b i m of (m, j) \<Rightarrow> Inr (m, j, skip))
         | [] \<Rightarrow>
             if is_invoke_inst x then Inr (m, i + 1, skip)
             else suspend_call filt co_name b i (m, skip))"

text \<open>The loops. The loop over a block does not have to end, so it takes fuel.\<close>

fun visit_block ::
    "nat \<Rightarrow> (string \<Rightarrow> string) \<Rightarrow> coroutine_filter list \<Rightarrow> nat \<Rightarrow> nat \<Rightarrow> pass_state \<times> nat \<Rightarrow> (pass_state \<times> nat) res" where
  "visit_block 0 demangle filt b i s = Inl Out_Of_Fuel"
| "visit_block (Suc fuel) demangle filt b i s =
     (if i < length (fst (fst s) ! b) then
        res_bind (visit_insn demangle filt b i s) (\<lambda>(m, i, skip). visit_block fuel demangle filt b i (m, skip))
      else Inr s)"

fun visit_blocks ::
    "nat \<Rightarrow> (string \<Rightarrow> string) \<Rightarrow> coroutine_filter list \<Rightarrow> nat list \<Rightarrow> pass_state \<times> nat \<Rightarrow> (pass_state \<times> nat) res" where
  "visit_blocks fuel demangle filt [] s = Inr s"
| "visit_blocks fuel demangle filt (b # js) s =
     res_bind (visit_block fuel demangle filt b 0 s) (visit_blocks fuel demangle filt js)"

text \<open>As in the other pass, the builder is made with a reference to the first block, which a declaration does not have.\<close>

definition Co_InsertYields ::
    "nat \<Rightarrow> (string \<Rightarrow> string) \<Rightarrow> coroutine_filter list \<Rightarrow> func \<Rightarrow> string list \<Rightarrow> (func \<times> string list) res" where
  "Co_InsertYields fuel demangle filt F globals =
     (if f_blocks F = [] then Inl Out_Of_Range
      else res_bind (visit_blocks fuel demangle filt [0..<length (f_blocks F)] ((f_blocks F, globals), 0)) (\<lambda>((bs, globals), _).
     Inr (F\<lparr>f_blocks := bs\<rparr>, globals)))"

text \<open>The entries for the function \<open>F\<close>.\<close>

definition parent_filter :: "(string \<Rightarrow> string) \<Rightarrow> coroutine_filter list \<Rightarrow> func \<Rightarrow> coroutine_filter list" where
  "parent_filter demangle co_filter F =
     filter (\<lambda>a. cf_parent_name a = None \<or> cf_parent_name a = Some (demangle (f_name F))) co_filter"

fun CoYieldInserter_Run ::
    "nat \<Rightarrow> (string \<Rightarrow> string) \<Rightarrow> coroutine_filter list \<Rightarrow> func list \<Rightarrow> string list \<Rightarrow> (func list \<times> string list) res" where
  "CoYieldInserter_Run fuel demangle co_filter [] globals = Inr ([], globals)"
| "CoYieldInserter_Run fuel demangle co_filter (F # Fs) globals =
     (let filt = parent_filter demangle co_filter F in
      res_bind (if filt \<noteq> [] then Co_InsertYields fuel demangle filt F globals else Inr (F, globals)) (\<lambda>(F, globals).
      res_bind (CoYieldInserter_Run fuel demangle co_filter Fs globals) (\<lambda>(Fs, globals). Inr (F # Fs, globals))))"

section \<open>What the yield pass does\<close>

text \<open>
  What a block has to look like, without the functions of the pass: the accesses that yield, the calls of \<open>CoroYield\<close>, and
  the accesses of a block that are not followed by one. A compare-exchange is an access that does not yield.
\<close>

definition yielding_access :: "insn \<Rightarrow> bool" where
  "yielding_access x \<longleftrightarrow> (\<exists>n. x = LoadInst n \<or> x = StoreInst n \<or> x = AtomicRMWInst n)"

definition is_yield :: "insn \<Rightarrow> bool" where
  "is_yield x \<longleftrightarrow> (\<exists>n. x = CallInst (Some ''CoroYield'') n)"

definition unguarded :: "block \<Rightarrow> (insn \<times> insn) list" where
  "unguarded b = filter (\<lambda>(x, y). yielding_access x \<and> \<not> is_yield y) (zip b (tl b))"

lemma unguarded_simps [simp]:
  "unguarded [] = []" "unguarded [x] = []"
  "unguarded (x # y # r) = (if yielding_access x \<and> \<not> is_yield y then [(x, y)] else []) @ unguarded (y # r)"
  by (simp_all add: unguarded_def)

lemma unguarded_nth:
  assumes "unguarded b = []" "Suc i < length b" "yielding_access (b ! i)"
  shows "is_yield (b ! Suc i)"
proof -
  have "(b ! i, b ! Suc i) \<in> set (zip b (tl b))" using assms(2) by (force simp: set_zip nth_tl)
  then show ?thesis using assms(1,3) by (auto simp: unguarded_def filter_empty_conv)
qed

lemma NeedInterrupt_iff: "NeedInterrupt x \<longleftrightarrow> yielding_access x"
  by (cases x) (simp_all add: yielding_access_def)

lemma ItsYieldInst_iff: "ItsYieldInst x \<longleftrightarrow> is_yield x"
  by (cases x rule: ItsYieldInst.cases) (auto simp: is_yield_def CoroYieldF_def)

lemma inserted_call [simp]:
  "is_yield (CallInst (Some CoroYieldF) n)" "\<not> yielding_access (CallInst (Some CoroYieldF) n)"
  by (simp_all add: is_yield_def yielding_access_def CoroYieldF_def)

lemma yield_block_Cons: "\<exists>t. yield_block (y # r) = y # t"
  by (cases r) simp_all

lemma yield_block_guards: "unguarded (yield_block b) = []"
proof (induction b rule: yield_block.induct)
  case (1 x y r)
  obtain t where t: "yield_block (y # r) = y # t" using yield_block_Cons by blast
  then show ?case using 1 by (auto simp: NeedInterrupt_iff ItsYieldInst_iff)
qed simp_all

lemma yield_block_guarded: "unguarded b = [] \<Longrightarrow> yield_block b = b"
  by (induction b rule: yield_block.induct) (auto simp: NeedInterrupt_iff ItsYieldInst_iff split: if_splits)

lemma yield_block_erase: "filter (\<lambda>x. \<not> is_yield x) (yield_block b) = filter (\<lambda>x. \<not> is_yield x) b"
  by (induction b rule: yield_block.induct) auto

lemma yield_block_length: "length (yield_block b) = length b + length (unguarded b)"
  by (induction b rule: yield_block.induct) (auto simp: NeedInterrupt_iff ItsYieldInst_iff)

text \<open>The blocks of a function before and after the pass.\<close>

definition yields_inserted :: "block \<Rightarrow> block \<Rightarrow> bool" where
  "yields_inserted b b' \<longleftrightarrow> (\<forall>i. Suc i < length b' \<and> yielding_access (b' ! i) \<longrightarrow> is_yield (b' ! Suc i))
     \<and> filter (\<lambda>x. \<not> is_yield x) b' = filter (\<lambda>x. \<not> is_yield x) b
     \<and> length b' = length b + length (unguarded b)"

lemma yield_block_inserts: "yields_inserted b (yield_block b)"
  using unguarded_nth [OF yield_block_guards] yield_block_erase yield_block_length by (simp add: yields_inserted_def)

definition yielded_function :: "fun_index \<Rightarrow> func \<Rightarrow> func \<Rightarrow> bool" where
  "yielded_function index F F' \<longleftrightarrow> (if (''ltest_nonatomic'', f_name F) \<in> index
     then f_blocks F \<noteq> [] \<and> f_name F' = f_name F \<and> list_all2 yields_inserted (f_blocks F) (f_blocks F') else F' = F)"

lemma IsTarget_iff: "IsTarget name index \<longleftrightarrow> (''ltest_nonatomic'', name) \<in> index"
  by (simp add: IsTarget_def HasAttribute_def nonatomic_attr_def)

lemma YieldInserter_Run_Inr:
  "YieldInserter_Run index Fs = Inr Fs' \<Longrightarrow> list_all2 (yielded_function index) Fs Fs' \<and> YieldInserter_Run index Fs' = Inr Fs'"
proof (induction Fs arbitrary: Fs')
  case (Cons F Fs)
  then obtain F1 Fs1 where F1: "(if IsTarget (f_name F) index then InsertYields F else Inr F) = Inr F1"
    and Fs1: "YieldInserter_Run index Fs = Inr Fs1" and Fs': "Fs' = F1 # Fs1" by (auto elim!: res_bind_Inr_E)
  have "yielded_function index F F1 \<and> (if IsTarget (f_name F1) index then InsertYields F1 else Inr F1) = Inr F1"
  proof (cases "IsTarget (f_name F) index")
    case True
    then have F1: "F1 = F\<lparr>f_blocks := map yield_block (f_blocks F)\<rparr>" "f_blocks F \<noteq> []"
      using F1 by (auto simp: InsertYields_def split: if_splits)
    then show ?thesis using True yield_block_inserts yield_block_guarded [OF yield_block_guards]
      by (simp add: yielded_function_def InsertYields_def IsTarget_iff list_all2_conv_all_nth comp_def)
  qed (use F1 in \<open>simp add: yielded_function_def IsTarget_iff\<close>)
  then show ?case using Cons.IH [OF Fs1] Fs' by simp
qed simp

lemma YieldInserter_Run_Inl:
  "YieldInserter_Run index Fs = Inl e \<longleftrightarrow> e = Out_Of_Range \<and> (\<exists>F \<in> set Fs. IsTarget (f_name F) index \<and> f_blocks F = [])"
proof (induction Fs)
  case (Cons F Fs)
  show ?case using Cons by (cases "YieldInserter_Run index Fs") (auto simp: InsertYields_def)
qed simp

lemma CreateFunIndex_globals: "m_globals M = m_globals M' \<Longrightarrow> CreateFunIndex M = CreateFunIndex M'"
  by (simp add: CreateFunIndex_def)

lemma getOrInsertFunction_simps [simp]:
  "m_globals (getOrInsertFunction name M) = m_globals M" "m_strings (getOrInsertFunction name M) = m_strings M"
  "name \<in> set (map f_name (m_funs (getOrInsertFunction name M)))"
  by (auto simp: getOrInsertFunction_def)

lemma getOrInsertFunction_present: "name \<in> set (map f_name (m_funs M)) \<Longrightarrow> getOrInsertFunction name M = M"
  by (simp add: getOrInsertFunction_def)

lemma yielded_names: "list_all2 (yielded_function index) Fs Fs' \<Longrightarrow> map f_name Fs' = map f_name Fs"
  by (induction rule: list_all2_induct) (auto simp: yielded_function_def split: if_splits)

text \<open>
  C35. The yield pass. The module gets a declaration of \<open>CoroYield\<close>, if it does not have the function, and its globals stay as
  they are. In the functions with the attribute, every load, store and atomic read-modify-write that is not the last instruction of its
  block is followed by a call of \<open>CoroYield\<close>; as many calls are inserted as there are such accesses without one, none of them
  after a compare-exchange or another instruction; without the calls the code is what it was. Other functions are not touched, and
  running the pass again changes nothing. A function with the attribute that has no body makes the pass look at a block that is not there.
\<close>

theorem yield_pass_interrupts:
  "case YieldInsertPass M of
     Inl e \<Rightarrow> e = Out_Of_Range \<and> (\<exists>F \<in> set (m_funs (YieldInserter M)). (''ltest_nonatomic'', f_name F) \<in> CreateFunIndex M \<and> f_blocks F = [])
   | Inr M' \<Rightarrow> m_globals M' = m_globals M \<and> m_strings M' = m_strings M
       \<and> map f_name (m_funs M') = map f_name (m_funs M) @ (if ''CoroYield'' \<in> f_name ` set (m_funs M) then [] else [''CoroYield''])
       \<and> list_all2 (yielded_function (CreateFunIndex M))
           (m_funs M @ (if ''CoroYield'' \<in> f_name ` set (m_funs M) then [] else [\<lparr>f_name = ''CoroYield'', f_blocks = []\<rparr>])) (m_funs M')
       \<and> YieldInsertPass M' = Inr M'"
proof (cases "YieldInserter_Run (CreateFunIndex M) (m_funs (YieldInserter M))")
  case (Inl e)
  then have "YieldInsertPass M = Inl e" by (simp add: YieldInsertPass_def Let_def)
  then show ?thesis using Inl [unfolded YieldInserter_Run_Inl IsTarget_iff] by simp
next
  case (Inr Fs)
  note run = YieldInserter_Run_Inr [OF Inr]
  let ?M = "(YieldInserter M)\<lparr>m_funs := Fs\<rparr>"
  have new: "m_funs (YieldInserter M) = m_funs M @ (if ''CoroYield'' \<in> f_name ` set (m_funs M) then []
      else [\<lparr>f_name = ''CoroYield'', f_blocks = []\<rparr>])"
    by (simp add: YieldInserter_def getOrInsertFunction_def CoroYieldF_def)
  have names: "map f_name Fs = map f_name (m_funs (YieldInserter M))" using yielded_names run by blast
  have index: "CreateFunIndex ?M = CreateFunIndex M" by (rule CreateFunIndex_globals) (simp add: YieldInserter_def)
  have "CoroYieldF \<in> set (map f_name (m_funs ?M))" using names by (simp add: YieldInserter_def del: set_map)
  then have "YieldInserter ?M = ?M" by (simp only: YieldInserter_def getOrInsertFunction_present)
  then have "YieldInsertPass ?M = Inr ?M" using run index by (simp add: YieldInsertPass_def Let_def)
  moreover have "YieldInsertPass M = Inr ?M" using Inr by (simp add: YieldInsertPass_def Let_def)
  moreover have "m_globals ?M = m_globals M" "m_strings ?M = m_strings M" by (simp_all add: YieldInserter_def)
  ultimately show ?thesis using run names new by simp
qed

definition yield_sample :: ir_module where
  "yield_sample = \<lparr>m_funs = [\<lparr>f_name = ''push'', f_blocks = [[LoadInst 0, AtomicCmpXchgInst 1, StoreInst 2, OtherInst 3]]\<rparr>],
     m_globals = [(''llvm.global.annotations'', [(''push'', ''ltest_nonatomic'')])], m_strings = []\<rparr>"

theorem yield_pass_interrupts_witness:
  "\<exists>M'. YieldInsertPass yield_sample = Inr M' \<and> YieldInsertPass M' = Inr M' \<and> map f_blocks (m_funs M') =
     [[[LoadInst 0, CallInst (Some ''CoroYield'') 0, AtomicCmpXchgInst 1, StoreInst 2, CallInst (Some ''CoroYield'') 0, OtherInst 3]], []]"
proof -
  have "case YieldInsertPass yield_sample of Inl e \<Rightarrow> False | Inr M' \<Rightarrow> map f_blocks (m_funs M') =
     [[[LoadInst 0, CallInst (Some ''CoroYield'') 0, AtomicCmpXchgInst 1, StoreInst 2, CallInst (Some ''CoroYield'') 0, OtherInst 3]], []]"
    by code_simp
  then show ?thesis using yield_pass_interrupts [of yield_sample] by (auto split: sum.splits)
qed

section \<open>What the coroutine pass does\<close>

fun is_status :: "insn \<Rightarrow> bool" where
  "is_status (StatusCall _ _) = True"
| "is_status _ = False"

definition erase :: "block list \<Rightarrow> block list" where
  "erase bs = map (filter (\<lambda>x. \<not> is_status x)) bs"

text \<open>The names that the status calls of the blocks refer to.\<close>

definition reported_names :: "block list \<Rightarrow> string set" where
  "reported_names bs = {nm. \<exists>b \<in> set bs. \<exists>start. StatusCall nm start \<in> set b}"

lemma fst_InsertCall [simp]: "fst (InsertCall a start b i m) = insert_in b i (StatusCall (cf_print_name a) start) (fst m)"
  by (simp add: InsertCall_def split: prod.splits)

lemma erase_insert_in [simp]: "erase (insert_in b i (StatusCall nm start) bs) = erase bs"
proof -
  have "filter (\<lambda>x. \<not> is_status x) (insert_at i (StatusCall nm start) (bs ! b)) = filter (\<lambda>x. \<not> is_status x) (bs ! b)"
    unfolding insert_at_def by (metis is_status.simps(1) append_take_drop_id filter.simps(2) filter_append)
  then show ?thesis
    by (cases "b < length bs") (simp_all add: erase_def insert_in_def map_update list_update_beyond list_update_same_conv)
qed

lemma length_insert_in [simp]: "length (insert_in b i x bs) = length bs"
  by (simp add: insert_in_def)

lemma set_insert_at: "set (insert_at i x b) = insert x (set b)"
  by (simp add: insert_at_def) (metis Un_insert_right append_take_drop_id set_append)

lemma reported_insert: "reported_names (insert_in b i (StatusCall nm start) bs) \<subseteq> insert nm (reported_names bs)"
proof (cases "b < length bs")
  case True
  then have "bs ! b \<in> set bs" by simp
  with set_update_subset_insert [of bs b] show ?thesis
    unfolding reported_names_def insert_in_def by (fastforce simp: set_insert_at)
qed (simp add: insert_in_def list_update_beyond subset_insertI)

text \<open>
  The pass only inserts status calls, with the names of entries; the constants are added at the end of the module.
\<close>

definition inserts :: "coroutine_filter list \<Rightarrow> pass_state \<Rightarrow> pass_state \<Rightarrow> bool" where
  "inserts filt m m' \<longleftrightarrow> length (fst m') = length (fst m) \<and> erase (fst m') = erase (fst m)
     \<and> (\<exists>new. snd m' = snd m @ new \<and> set new \<subseteq> cf_print_name ` set filt
          \<and> reported_names (fst m') \<subseteq> reported_names (fst m) \<union> set new)"

lemma insertsI:
  assumes "length (fst m') = length (fst m)" "erase (fst m') = erase (fst m)" "snd m' = snd m @ new"
    "set new \<subseteq> cf_print_name ` set filt" "reported_names (fst m') \<subseteq> reported_names (fst m) \<union> set new"
  shows "inserts filt m m'"
  using assms unfolding inserts_def by blast

lemma inserts_refl [simp]: "inserts filt m m"
  by (rule insertsI [of _ _ "[]"]) simp_all

lemma inserts_trans [trans]:
  assumes "inserts filt m m1" "inserts filt m1 m2"
  shows "inserts filt m m2"
proof -
  from assms obtain u v where "snd m1 = snd m @ u" "set u \<subseteq> cf_print_name ` set filt" "reported_names (fst m1) \<subseteq> reported_names (fst m) \<union> set u"
    "snd m2 = snd m1 @ v" "set v \<subseteq> cf_print_name ` set filt" "reported_names (fst m2) \<subseteq> reported_names (fst m1) \<union> set v"
    unfolding inserts_def by blast
  then show ?thesis using assms by (intro insertsI [of _ _ "u @ v"]) (auto simp: inserts_def)
qed

lemma inserts_call: "a \<in> set filt \<Longrightarrow> inserts filt m (InsertCall a start b i m)"
  using reported_insert by (intro insertsI [of _ _ "[cf_print_name a]"]) (auto simp: InsertCall_def split: prod.splits)

lemma matching_subset: "matching nm filt = a # as \<Longrightarrow> a \<in> set filt"
  unfolding matching_def by (metis filter_is_subset list.set_intros(1) subsetD)

lemma inserts_with_filter: "inserts filt m (InsertCallWithFilter filt nm start p b i m)"
  by (simp add: InsertCallWithFilter_def inserts_call matching_subset split: list.splits)

lemma inserts_wrap:
  assumes "a \<in> set filt"
  shows "inserts filt m (fst (wrap_call a x b i m))"
  using inserts_call [OF assms] inserts_trans by (cases x) (simp_all add: wrap_call_def Let_def, blast+)

lemma visit_insn_inserts:
  assumes "visit_insn demangle filt b i (m, skip) = Inr (m', j, skip')"
  shows "inserts filt m m'"
proof -
  have "inserts filt m m'" if "suspend_call filt nm b i (m, skip) = Inr (m', j, skip')" for nm
    using that
    by (auto simp: suspend_call_def Let_def intro: inserts_with_filter split: option.splits if_splits elim!: res_bind_Inr_E)
  note suspend = this
  show ?thesis
  proof (cases "called_function (fst m ! b ! i)")
    case None
    then show ?thesis using assms by (simp add: visit_insn_def)
  next
    case (Some fn)
    show ?thesis
    proof (cases "matching (demangle fn) filt")
      case Nil
      then show ?thesis using assms Some suspend by (auto simp: visit_insn_def Let_def split: if_splits)
    next
      case (Cons a as)
      then have "fst (wrap_call a (fst m ! b ! i) b i m) = m'"
        using assms Some by (simp add: visit_insn_def Let_def split: prod.splits)
      then show ?thesis using inserts_wrap [OF matching_subset [OF Cons]] by blast
    qed
  qed
qed

lemma visit_block_inserts:
  "visit_block fuel demangle filt b i s = Inr s' \<Longrightarrow> inserts filt (fst s) (fst s')"
proof (induction fuel arbitrary: i s)
  case (Suc fuel)
  show ?case
  proof (cases "i < length (fst (fst s) ! b)")
    case True
    with Suc.prems obtain m j skip where v: "visit_insn demangle filt b i (fst s, snd s) = Inr (m, j, skip)"
      "visit_block fuel demangle filt b j (m, skip) = Inr s'" by (auto elim!: res_bind_Inr_E)
    from inserts_trans [OF visit_insn_inserts [OF v(1)]] Suc.IH [OF v(2)] show ?thesis by simp
  qed (use Suc.prems in simp)
qed simp

lemma visit_blocks_inserts:
  "visit_blocks fuel demangle filt js s = Inr s' \<Longrightarrow> inserts filt (fst s) (fst s')"
  by (induction js arbitrary: s) (auto elim!: res_bind_Inr_E dest: visit_block_inserts intro: inserts_trans)

section \<open>Termination of the coroutine pass\<close>

definition weight :: "insn \<Rightarrow> nat" where
  "weight x = (if is_status x then 1 else 4)"

definition block_weight :: "block \<Rightarrow> nat" where
  "block_weight b = sum_list (map weight b)"

definition rest_weight :: "nat \<Rightarrow> block list \<Rightarrow> nat" where
  "rest_weight n bs = sum_list (map block_weight (drop n bs))"

definition left_weight :: "nat \<Rightarrow> nat \<Rightarrow> block list \<Rightarrow> nat" where
  "left_weight b i bs = block_weight (drop i (bs ! b)) + rest_weight (Suc b) bs"

lemma block_weight_simps [simp]:
  "block_weight [] = 0" "block_weight (x # b) = weight x + block_weight b"
  "block_weight (b @ b') = block_weight b + block_weight b'"
  by (simp_all add: block_weight_def)

lemma weight_status [simp]: "weight (StatusCall nm start) = 1"
  by (simp add: weight_def)

lemma block_weight_insert_at [simp]: "block_weight (insert_at i x b) = weight x + block_weight b"
  by (simp add: insert_at_def) (metis add.assoc add.commute append_take_drop_id block_weight_simps(3))

lemma rest_weight_insert:
  "rest_weight n (insert_in b i (StatusCall nm start) bs) \<le> rest_weight n bs + (if n \<le> b then 1 else 0)"
proof (cases "n \<le> b \<and> b < length bs")
  case True
  then have "rest_weight n (insert_in b i (StatusCall nm start) bs)
      = sum_list ((map block_weight (drop n bs))[b - n := block_weight (insert_at i (StatusCall nm start) (bs ! b))])"
    by (simp add: rest_weight_def insert_in_def drop_update_swap map_update)
  also have "\<dots> \<le> rest_weight n bs + 1"
  proof -
    have bn: "b - n < length (map block_weight (drop n bs))" using True by simp linarith
    show ?thesis
      using True bn elem_le_sum_list [OF bn] unfolding sum_list_update [OF bn] by (simp add: rest_weight_def)
  qed
  finally show ?thesis using True by simp
next
  case False
  then show ?thesis
    by (cases "b < length bs") (simp_all add: rest_weight_def insert_in_def list_update_beyond drop_update_cancel)
qed

lemma insert_in_same:
  "b < length bs \<Longrightarrow> insert_in b i x bs ! b = insert_at i x (bs ! b)"
  by (simp add: insert_in_def)

lemma drop_insert_at:
  "i \<le> length xs \<Longrightarrow> drop (Suc i) (insert_at i x xs) = drop i xs"
  "i \<le> length xs \<Longrightarrow> drop i (insert_at i x xs) = x # drop i xs"
  "length (insert_at i x xs) = Suc (length xs)"
  by (simp_all add: insert_at_def min_def)

text \<open>Configurations whose entries name their coroutine, and not the inserted function.\<close>

definition named_filters :: "(string \<Rightarrow> string) \<Rightarrow> coroutine_filter list \<Rightarrow> bool" where
  "named_filters demangle filt \<longleftrightarrow> demangle costatus_change = costatus_change
     \<and> (\<forall>a \<in> set filt. \<exists>nm. cf_co_name a = Some nm \<and> nm \<noteq> costatus_change)"

lemma named_matching: "named_filters demangle filt \<Longrightarrow> matching costatus_change filt = []"
  unfolding matching_def named_filters_def filter_empty_conv by fastforce

lemma status_no_suspend:
  "find_sub co_initial_suspend costatus_change = None" "find_sub co_final_suspend costatus_change = None"
  "find_sub co_expr_start costatus_change = None" "find_sub co_expr_end costatus_change = None"
  by code_simp+

lemma with_filter_weight:
  assumes "b < length (fst m)" "i \<le> length (fst m ! b)"
  shows "block_weight (drop i (fst (InsertCallWithFilter filt nm start p b i m) ! b)) \<le> block_weight (drop i (fst m ! b)) + 1"
    "drop (i + (length (fst (InsertCallWithFilter filt nm start p b i m) ! b) - length (fst m ! b)))
       (fst (InsertCallWithFilter filt nm start p b i m) ! b) = drop i (fst m ! b)"
    "rest_weight (Suc b) (fst (InsertCallWithFilter filt nm start p b i m)) \<le> rest_weight (Suc b) (fst m)"
  using assms rest_weight_insert [of "Suc b" b i]
  by (auto simp: InsertCallWithFilter_def insert_in_same drop_insert_at split: list.splits)

lemma suspend_call_weight:
  assumes b: "b < length (fst m)" and i: "i < length (fst m ! b)"
    and v: "suspend_call filt nm b i (m, skip) = Inr (m', j, skip')"
  shows "left_weight b j (fst m') \<le> left_weight b (Suc i) (fst m) + 1"
proof -
  note f1 = with_filter_weight [OF b, of "Suc i"] and f0 = with_filter_weight [OF b, of i]
  have before: "left_weight b (i + 1 + (length (fst B ! b) - length (fst m ! b))) (fst B) \<le> left_weight b (Suc i) (fst m)"
    if "B = InsertCallWithFilter filt nm True p b i m" for B p
  proof -
    have "drop (1 + (i + (length (fst B ! b) - length (fst m ! b)))) (fst B ! b) = drop 1 (drop i (fst m ! b))"
      using f0(2) [of filt nm True p] i unfolding that by (metis drop_drop less_imp_le)
    then show ?thesis using f0(3) [of filt nm True p] i by (simp add: left_weight_def that add.commute)
  qed
  have after: "left_weight b (Suc i) (fst (InsertCallWithFilter filt nm False p b (Suc i) m)) \<le> left_weight b (Suc i) (fst m) + 1" for p
    using f1(1,3) [of filt nm False p] i by (simp add: left_weight_def)
  show ?thesis
    using v before [OF refl] after unfolding suspend_call_def Let_def
    by (auto split: option.splits if_splits elim!: res_bind_Inr_E intro: le_SucI)
qed

lemma wrap_call_weight:
  assumes b: "b < length (fst m)" and i: "i < length (fst m ! b)" and v: "wrap_call a x b i m = (m', j)"
  shows "left_weight b j (fst m') \<le> left_weight b (Suc i) (fst m) + 2"
proof (cases "is_invoke_inst x")
  case True
  then obtain fn k n u where x: "x = InvokeInst fn k n u" by (cases x) simp_all
  let ?nm = "cf_print_name a"
  let ?b1 = "insert_in b i (StatusCall ?nm True) (fst m)"
  let ?b2 = "insert_in n (first_insertion_pt (?b1 ! n)) (StatusCall ?nm False) ?b1"
  have "fst m' = insert_in u (first_insertion_pt (?b2 ! u)) (StatusCall ?nm False) ?b2" "j = length (fst m' ! b)"
    using v by (auto simp: wrap_call_def x Let_def)
  then have "rest_weight (Suc b) (fst m') \<le> rest_weight (Suc b) (fst m) + 2"
    using rest_weight_insert [of "Suc b" b i ?nm True "fst m"]
      rest_weight_insert [of "Suc b" n "first_insertion_pt (?b1 ! n)" ?nm False ?b1]
      rest_weight_insert [of "Suc b" u "first_insertion_pt (?b2 ! u)" ?nm False ?b2] by (simp split: if_splits)
  with \<open>j = length (fst m' ! b)\<close> show ?thesis by (simp add: left_weight_def)
next
  case False
  let ?nm = "cf_print_name a"
  let ?b1 = "insert_in b i (StatusCall ?nm True) (fst m)"
  have e: "fst m' = insert_in b (i + 2) (StatusCall ?nm False) ?b1" "j = i + 2"
    using v False by (cases x; force simp: wrap_call_def Let_def)+
  have l: "i + 2 \<le> length (?b1 ! b)" using i b by (simp add: insert_in_same drop_insert_at)
  have "fst m' ! b = insert_at (i + 2) (StatusCall ?nm False) (?b1 ! b)" using b by (simp add: e(1) insert_in_same)
  moreover have "drop (i + 2) (?b1 ! b) = drop (Suc i) (fst m ! b)"
    using i b drop_insert_at(1) [of i "fst m ! b"] by (simp add: insert_in_same) (metis drop_drop add.commute plus_1_eq_Suc less_imp_le)
  ultimately have "block_weight (drop j (fst m' ! b)) = 1 + block_weight (drop (Suc i) (fst m ! b))"
    using drop_insert_at(2) [OF l] by (simp add: e(2))
  moreover have "rest_weight (Suc b) (fst m') \<le> rest_weight (Suc b) (fst m)"
    using rest_weight_insert [of "Suc b" b i ?nm True "fst m"] rest_weight_insert [of "Suc b" b "i + 2" ?nm False ?b1] by (simp add: e(1))
  ultimately show ?thesis by (simp add: left_weight_def)
qed

lemma visit_insn_progress:
  assumes nf: "named_filters demangle filt" and b: "b < length (fst m)" and i: "i < length (fst m ! b)"
    and v: "visit_insn demangle filt b i (m, skip) = Inr (m', j, skip')"
  shows "left_weight b j (fst m') < left_weight b i (fst m)"
proof -
  let ?x = "fst m ! b ! i"
  have d: "left_weight b i (fst m) = weight ?x + left_weight b (Suc i) (fst m)"
    using Cons_nth_drop_Suc [OF i] by (metis block_weight_simps(2) left_weight_def add.assoc)
  have w4: "weight ?x = 4" if "\<not> is_status ?x" using that by (simp add: weight_def)
  have pos: "0 < weight ?x" by (simp add: weight_def)
  show ?thesis
  proof (cases "called_function ?x")
    case None
    then show ?thesis using v d pos by (simp add: visit_insn_def)
  next
    case (Some fn)
    show ?thesis
    proof (cases "is_status ?x")
      case True
      then have "demangle fn = costatus_change" "\<not> is_invoke_inst ?x"
        using Some nf by (cases ?x; simp add: named_filters_def)+
      then show ?thesis
        using v d pos Some by (simp add: visit_insn_def named_matching [OF nf] suspend_call_def status_no_suspend)
    next
      case ns: False
      show ?thesis
      proof (cases "matching (demangle fn) filt")
        case Nil
        then have "left_weight b j (fst m') \<le> left_weight b (Suc i) (fst m) + 1"
          using v Some suspend_call_weight [OF b i] by (auto simp: visit_insn_def Let_def split: if_splits)
        with d w4 [OF ns] show ?thesis by simp
      next
        case (Cons a as)
        then have "left_weight b j (fst m') \<le> left_weight b (Suc i) (fst m) + 2"
          using v Some wrap_call_weight [OF b i] by (auto simp: visit_insn_def Let_def split: prod.splits)
        with d w4 [OF ns] show ?thesis by simp
      qed
    qed
  qed
qed

lemma visit_insn_outcome:
  "(\<exists>msg. visit_insn demangle filt b i (m, skip) = Inl (Assert_Failed msg))
   \<or> (\<exists>m' j skip'. visit_insn demangle filt b i (m, skip) = Inr (m', j, skip'))"
  by (simp add: visit_insn_def suspend_call_def Let_def cxx_assert_def
      split: option.splits list.splits prod.splits)

lemma visit_block_outcome:
  assumes nf: "named_filters demangle filt"
  shows "\<lbrakk>b < length (fst m); left_weight b i (fst m) < fuel\<rbrakk> \<Longrightarrow>
    (\<exists>msg. visit_block fuel demangle filt b i (m, skip) = Inl (Assert_Failed msg))
    \<or> (\<exists>m' skip'. visit_block fuel demangle filt b i (m, skip) = Inr (m', skip') \<and> length (fst m') = length (fst m)
        \<and> rest_weight (Suc b) (fst m') \<le> left_weight b i (fst m))"
proof (induction fuel arbitrary: i m skip)
  case (Suc fuel)
  show ?case
  proof (cases "i < length (fst m ! b)")
    case True
    from visit_insn_outcome [of demangle filt b i m skip] show ?thesis
    proof (elim disjE exE conjE)
      fix m' j skip'
      assume v: "visit_insn demangle filt b i (m, skip) = Inr (m', j, skip')"
      have l: "length (fst m') = length (fst m)" using visit_insn_inserts [OF v] by (simp add: inserts_def)
      have p: "left_weight b j (fst m') < left_weight b i (fst m)"
        by (rule visit_insn_progress [OF nf Suc.prems(1) True v])
      with Suc.IH [of m' j skip'] l Suc.prems have
        "(\<exists>msg. visit_block fuel demangle filt b j (m', skip') = Inl (Assert_Failed msg))
          \<or> (\<exists>m'' skip''. visit_block fuel demangle filt b j (m', skip') = Inr (m'', skip'') \<and> length (fst m'') = length (fst m)
              \<and> rest_weight (Suc b) (fst m'') \<le> left_weight b j (fst m'))" by simp
      then show ?thesis
      proof (elim disjE exE conjE)
        fix m'' skip''
        assume r: "visit_block fuel demangle filt b j (m', skip') = Inr (m'', skip'')" "length (fst m'') = length (fst m)"
          "rest_weight (Suc b) (fst m'') \<le> left_weight b j (fst m')"
        have "visit_block (Suc fuel) demangle filt b i (m, skip) = Inr (m'', skip'')" using r(1) v True by simp
        moreover have "rest_weight (Suc b) (fst m'') \<le> left_weight b i (fst m)" using r(3) p by simp
        ultimately show ?thesis using r(2) by blast
      qed (use v True in simp)
    qed (use True in simp)
  next
    case False
    then show ?thesis by (simp add: left_weight_def)
  qed
qed simp

lemma visit_blocks_outcome:
  assumes nf: "named_filters demangle filt"
  shows "\<lbrakk>b \<le> length (fst m); rest_weight b (fst m) < fuel\<rbrakk> \<Longrightarrow>
    (\<exists>msg. visit_blocks fuel demangle filt [b..<length (fst m)] (m, skip) = Inl (Assert_Failed msg))
    \<or> (\<exists>s'. visit_blocks fuel demangle filt [b..<length (fst m)] (m, skip) = Inr s')"
proof (induction "length (fst m) - b" arbitrary: b m skip)
  case (Suc n)
  then have b: "b < length (fst m)" by simp
  have w: "left_weight b 0 (fst m) = rest_weight b (fst m)"
    by (simp add: left_weight_def rest_weight_def Cons_nth_drop_Suc [OF b, symmetric])
  have up: "[b..<length (fst m)] = b # [Suc b..<length (fst m)]" using b by (rule upt_conv_Cons)
  have lw: "left_weight b 0 (fst m) < fuel" using Suc.prems(2) w by simp
  from visit_block_outcome [OF nf b lw, of skip] show ?case
  proof (elim disjE exE conjE)
    fix m' skip' assume v: "visit_block fuel demangle filt b 0 (m, skip) = Inr (m', skip')"
      and l: "length (fst m') = length (fst m)" and r: "rest_weight (Suc b) (fst m') \<le> left_weight b 0 (fst m)"
    have "n = length (fst m') - Suc b" "Suc b \<le> length (fst m')" "rest_weight (Suc b) (fst m') < fuel"
      using Suc.hyps(2) l b r w Suc.prems by simp_all
    from Suc.hyps(1) [OF this, of skip'] v l up show ?thesis by simp
  qed (auto simp: up)
qed simp

lemma Co_InsertYields_outcome:
  assumes "named_filters demangle filt" "rest_weight 0 (f_blocks F) < fuel" "f_blocks F \<noteq> []"
  shows "(\<exists>msg. Co_InsertYields fuel demangle filt F globals = Inl (Assert_Failed msg))
    \<or> (\<exists>r. Co_InsertYields fuel demangle filt F globals = Inr r)"
  using visit_blocks_outcome [OF assms(1), of 0 "(f_blocks F, globals)" fuel 0] assms(2,3)
  by (auto simp: Co_InsertYields_def)

lemma Co_InsertYields_inserts:
  "Co_InsertYields fuel demangle filt F globals = Inr (F', globals')
    \<Longrightarrow> f_blocks F \<noteq> [] \<and> f_name F' = f_name F \<and> inserts filt (f_blocks F, globals) (f_blocks F', globals')"
  by (auto simp: Co_InsertYields_def elim!: res_bind_Inr_E dest: visit_blocks_inserts split: if_splits)

text \<open>Four visits for each instruction are enough.\<close>

definition pass_fuel :: "func list \<Rightarrow> nat" where
  "pass_fuel Fs = Suc (sum_list (map (rest_weight 0 \<circ> f_blocks) Fs))"

text \<open>The functions before and after the pass, and the constants that it has added.\<close>

definition status_inserted :: "(string \<Rightarrow> string) \<Rightarrow> coroutine_filter list \<Rightarrow> string list \<Rightarrow> func \<Rightarrow> func \<Rightarrow> bool" where
  "status_inserted demangle co_filter new F F' \<longleftrightarrow> f_name F' = f_name F \<and> erase (f_blocks F') = erase (f_blocks F)
     \<and> reported_names (f_blocks F') \<subseteq> reported_names (f_blocks F) \<union> set new
     \<and> (parent_filter demangle co_filter F = [] \<longrightarrow> F' = F) \<and> (f_blocks F = [] \<longrightarrow> parent_filter demangle co_filter F = [])"

lemma status_inserted_mono:
  "status_inserted demangle co_filter new F F' \<Longrightarrow> set new \<subseteq> set new' \<Longrightarrow> status_inserted demangle co_filter new' F F'"
  by (auto simp: status_inserted_def)

lemma CoYieldInserter_Run_Inr:
  "CoYieldInserter_Run fuel demangle co_filter Fs globals = Inr (Fs', globals') \<Longrightarrow>
    \<exists>new. globals' = globals @ new \<and> set new \<subseteq> cf_print_name ` set co_filter
      \<and> list_all2 (status_inserted demangle co_filter new) Fs Fs'"
proof (induction Fs arbitrary: globals Fs')
  case (Cons F Fs)
  let ?filt = "parent_filter demangle co_filter F"
  from Cons.prems obtain F1 g1 Fs1 where
      F1: "(if ?filt \<noteq> [] then Co_InsertYields fuel demangle ?filt F globals else Inr (F, globals)) = Inr (F1, g1)"
    and Fs1: "CoYieldInserter_Run fuel demangle co_filter Fs g1 = Inr (Fs1, globals')" and Fs': "Fs' = F1 # Fs1"
    by (auto simp: Let_def elim!: res_bind_Inr_E)
  obtain u where u: "g1 = globals @ u" "set u \<subseteq> cf_print_name ` set co_filter" "status_inserted demangle co_filter u F F1"
  proof (cases "?filt = []")
    case True
    then show ?thesis using F1 by (intro that [of "[]"]) (simp_all add: status_inserted_def)
  next
    case False
    then have i: "f_blocks F \<noteq> []" "f_name F1 = f_name F" "inserts ?filt (f_blocks F, globals) (f_blocks F1, g1)"
      using Co_InsertYields_inserts [of fuel demangle ?filt F globals F1 g1] F1 by simp_all
    then obtain u where u: "g1 = globals @ u" "set u \<subseteq> cf_print_name ` set ?filt"
      "reported_names (f_blocks F1) \<subseteq> reported_names (f_blocks F) \<union> set u" unfolding inserts_def by auto
    have "cf_print_name ` set ?filt \<subseteq> cf_print_name ` set co_filter" by (auto simp: parent_filter_def)
    then have "set u \<subseteq> cf_print_name ` set co_filter" using u(2) by simp
    with u i False show ?thesis by (intro that [of u]) (auto simp: status_inserted_def inserts_def)
  qed
  from Cons.IH [OF Fs1] obtain v where v: "globals' = g1 @ v" "set v \<subseteq> cf_print_name ` set co_filter"
    "list_all2 (status_inserted demangle co_filter v) Fs Fs1" by blast
  have "list_all2 (status_inserted demangle co_filter (u @ v)) Fs Fs1"
    using list_all2_mono [OF v(3) status_inserted_mono] by simp
  then show ?case using u v Fs' status_inserted_mono [OF u(3), of "u @ v"] by (intro exI [of _ "u @ v"]) simp
qed simp

lemma CoYieldInserter_Run_Inl:
  assumes nf: "named_filters demangle co_filter"
  shows "\<lbrakk>\<forall>F \<in> set Fs. rest_weight 0 (f_blocks F) < fuel; CoYieldInserter_Run fuel demangle co_filter Fs globals = Inl e\<rbrakk> \<Longrightarrow>
    (\<exists>msg. e = Assert_Failed msg) \<or> e = Out_Of_Range \<and> (\<exists>F \<in> set Fs. f_blocks F = [] \<and> parent_filter demangle co_filter F \<noteq> [])"
proof (induction Fs arbitrary: globals)
  case (Cons F Fs)
  let ?filt = "parent_filter demangle co_filter F"
  have nf': "named_filters demangle ?filt" using nf by (simp add: named_filters_def parent_filter_def)
  show ?case
  proof (cases "if ?filt \<noteq> [] then Co_InsertYields fuel demangle ?filt F globals else Inr (F, globals)")
    case (Inr r)
    then show ?thesis using Cons by (cases r; cases "CoYieldInserter_Run fuel demangle co_filter Fs (snd r)") auto
  next
    case (Inl e')
    then have "e' = e" "?filt \<noteq> []" "Co_InsertYields fuel demangle ?filt F globals = Inl e" using Cons.prems(2) by (auto split: if_splits)
    then show ?thesis using Co_InsertYields_outcome [OF nf', of F fuel globals] Cons.prems(1)
      by (cases "f_blocks F = []") (auto simp: Co_InsertYields_def)
  qed
qed simp

lemma unnamed_matches: "a \<in> set filt \<Longrightarrow> cf_co_name a = None \<Longrightarrow> \<exists>a' as. matching nm filt = a' # as"
  by (cases "matching nm filt") (auto simp: matching_def filter_empty_conv)

lemma visit_block_diverges:
  assumes "a \<in> set filt" "cf_co_name a = None"
  shows "\<lbrakk>b < length (fst m); i < length (fst m ! b); called_function (fst m ! b ! i) \<noteq> None; \<not> is_invoke_inst (fst m ! b ! i)\<rbrakk> \<Longrightarrow>
    visit_block fuel demangle filt b i (m, skip) = Inl Out_Of_Fuel"
proof (induction fuel arbitrary: i m skip)
  case (Suc fuel)
  obtain fn where fn: "called_function (fst m ! b ! i) = Some fn" using Suc.prems(3) by auto
  obtain a' as where a': "matching (demangle fn) filt = a' # as" using unnamed_matches [OF assms] by blast
  let ?b1 = "insert_in b i (StatusCall (cf_print_name a') True) (fst m)"
  let ?m = "InsertCall a' False b (i + 2) (InsertCall a' True b i m)"
  have v: "visit_insn demangle filt b i (m, skip) = Inr (?m, i + 2, skip)"
    using fn a' Suc.prems(4) by (cases "fst m ! b ! i") (simp_all add: visit_insn_def wrap_call_def Let_def)
  have l: "i + 2 \<le> length (?b1 ! b)" using Suc.prems by (simp add: insert_in_same drop_insert_at)
  have e: "fst ?m ! b = insert_at (i + 2) (StatusCall (cf_print_name a') False) (?b1 ! b)" using Suc.prems(1) by (simp add: insert_in_same)
  then have "fst ?m ! b ! (i + 2) = StatusCall (cf_print_name a') False" "i + 2 < length (fst ?m ! b)"
    using l by (simp_all add: insert_at_def nth_append min_def)
  then show ?case using Suc.IH [of ?m "i + 2" skip] Suc.prems v by simp
qed simp

text \<open>
  C37. An entry without the name of a coroutine, which the configuration format allows, makes the
  pass run forever on a function with a call: the call of \<open>CoroutineStatusChange\<close> that it inserts
  after the call is the next instruction that it visits, matches the entry, and gets brackets of
  its own.
\<close>

theorem coroutine_pass_diverges:
  assumes "a \<in> set filt" "cf_co_name a = None" "f_blocks F = (pre @ CallInst (Some fn) n # post) # bs"
    "\<forall>x \<in> set pre. called_function x = None"
  shows "Co_InsertYields fuel demangle filt F globals = Inl Out_Of_Fuel"
proof -
  let ?bs = "(pre @ CallInst (Some fn) n # post) # bs"
  have "visit_block fuel demangle filt 0 i ((?bs, globals), 0) = Inl Out_Of_Fuel" if "i \<le> length pre" for i fuel
    using that
  proof (induction "length pre - i" arbitrary: i fuel)
    case 0
    then have "i = length pre" by simp
    then show ?case using visit_block_diverges [OF assms(1,2), of 0 "(?bs, globals)" i fuel demangle 0] by simp
  next
    case (Suc k)
    then have i: "i < length pre" by simp
    then have "called_function (?bs ! 0 ! i) = None" using assms(4) by (simp add: nth_append)
    then have "visit_insn demangle filt 0 i ((?bs, globals), 0) = Inr ((?bs, globals), Suc i, 0)" by (simp add: visit_insn_def)
    then show ?case using Suc.hyps(1) [of "Suc i"] Suc.hyps(2) i by (cases fuel) simp_all
  qed
  then show ?thesis by (simp add: Co_InsertYields_def assms(3) upt_conv_Cons del: upt_Suc)
qed

definition sample_fun :: func where
  "sample_fun = \<lparr>f_name = ''main'', f_blocks = [[LoadInst 0, CallInst (Some ''work'') 1, OtherInst 2],
     [InvokeInst (Some ''step()'') 3 0 1]]\<rparr>"

definition sample_entry :: "string option \<Rightarrow> coroutine_filter" where
  "sample_entry nm = \<lparr>cf_parent_name = None, cf_co_name = nm, cf_print_name = ''work''\<rparr>"

theorem coroutine_pass_diverges_witness:
  "\<forall>fuel. Co_InsertYields fuel id [sample_entry None] sample_fun [] = Inl Out_Of_Fuel"
  using coroutine_pass_diverges [of "sample_entry None" "[sample_entry None]" sample_fun "[LoadInst 0]" "''work''" 1 "[OtherInst 2]"]
  by (simp add: sample_entry_def sample_fun_def)

end
