(* ===== verification/Coroutine_Config.thy ===== *)
theory Coroutine_Config
  imports Yield_Passes
begin

text \<open>
  The coroutine pass as a whole (\<open>CoYieldInsertPass\<close> of \<open>codegen/coyieldpass.cpp\<close>): it reads the list of coroutines
  from a YAML file, declares \<open>CoroutineStatusChange\<close> in the module, and runs the inserter of \<open>Yield_Passes\<close>. The file
  system and the parser of the LLVM library are parameters; \<open>MappingTraits\<close> says how a parsed mapping becomes an entry.
\<close>

section \<open>The configuration\<close>




section \<open>The pass\<close>



section \<open>Reading the configuration\<close>

lemma those_Some: "those xs = Some ys \<longleftrightarrow> xs = map Some ys"
proof (induction xs arbitrary: ys)
  case (Cons x xs)
  then show ?case by (cases ys) (auto split: option.splits)
qed auto

lemma those_map_Some [simp]: "those (map Some ys) = Some ys"
  by (simp add: those_Some)





section \<open>Properties\<close>






end
