(* ===== verification/Token_Mutex.thy ===== *)
theory Token_Mutex
  imports Coroutine
begin

text \<open>
  Model of \<open>Mutex\<close> of \<open>verifying/lib/mutex.h\<close>, a blocking mutex built on the tokens of the runtime:
  a task that does not get the lock is parked and not scheduled until it is unparked. The queue of
  tokens holds the owner first and the waiting tasks after it. The shared state is the world of the
  coroutine runtime, with the mutex as the target object.
\<close>

type_synonym token_mutex = "token_ref list"

text \<open>\<open>Lock\<close>: the result says whether the lock was taken at once, or the task was parked and ends
  its slice with the continuation \<open>k\<close>.\<close>

definition Mutex_Lock ::
    "token_ref \<Rightarrow> 'c \<Rightarrow> token_mutex world \<Rightarrow> token_mutex world \<times> 'c slice_end option" where
  "Mutex_Lock token k w =
     (let waiters = w_state w @ [token]; w = w\<lparr>w_state := waiters\<rparr> in
      if length waiters = 1 then (w, None)
      else case Token_Park token k w of (w, e) \<Rightarrow> (w, Some e))"

definition Mutex_Unlock :: "token_mutex world \<Rightarrow> token_mutex world res" where
  "Mutex_Unlock w =
     res_bind (cxx_assert ''!waiters.empty()'' (w_state w \<noteq> [])) (\<lambda>_.
     let waiters = tl (w_state w); w = w\<lparr>w_state := waiters\<rparr> in
     Inr (if waiters \<noteq> [] then Token_Unpark (hd waiters) w else w))"

section \<open>Use of the mutex\<close>

text \<open>
  Tasks lock and unlock in any order. A task that is neither owner nor waiting may lock; the
  runtime runs tasks that are not parked only, and only the owner unlocks. The history lists the
  tokens in the order of their calls of \<open>Lock\<close> and in the order in which they came to own the lock.
\<close>

inductive mutex_use ::
    "'c \<Rightarrow> token_mutex world \<Rightarrow> token_mutex world \<Rightarrow> token_ref list \<Rightarrow> token_ref list \<Rightarrow> bool"
    for k :: 'c and w0 :: "token_mutex world" where
  initial: "w_state w0 = [] \<Longrightarrow> (\<forall>t. \<not> w_parked w0 t) \<Longrightarrow> mutex_use k w0 w0 [] []"
| lock: "\<lbrakk>mutex_use k w0 w asked owned; t \<notin> set (w_state w); Mutex_Lock t k w = (w', e)\<rbrakk>
    \<Longrightarrow> mutex_use k w0 w' (asked @ [t]) (owned @ (if e = None then [t] else []))"
| unlock: "\<lbrakk>mutex_use k w0 w asked owned; t = hd (w_state w); w_state w \<noteq> []; \<not> w_parked w t;
      Mutex_Unlock w = Inr w'\<rbrakk>
    \<Longrightarrow> mutex_use k w0 w' asked (owned @ (case w_state w' of [] \<Rightarrow> [] | u # _ \<Rightarrow> [u]))"

definition mutex_inv :: "token_mutex world \<Rightarrow> token_ref list \<Rightarrow> token_ref list \<Rightarrow> bool" where
  "mutex_inv w asked owned \<longleftrightarrow> distinct (w_state w) \<and> (\<forall>t. w_parked w t \<longleftrightarrow> t \<in> set (tl (w_state w)))
     \<and> asked = owned @ tl (w_state w) \<and> (w_state w \<noteq> [] \<longrightarrow> owned \<noteq> [] \<and> last owned = hd (w_state w))"

lemma mutex_inv_initial: "w_state w = [] \<Longrightarrow> (\<forall>t. \<not> w_parked w t) \<Longrightarrow> mutex_inv w [] []"
  by (simp add: mutex_inv_def)

lemma mutex_inv_lock:
  assumes "mutex_inv w asked owned" "t \<notin> set (w_state w)" "Mutex_Lock t k w = (w', e)"
  shows "mutex_inv w' (asked @ [t]) (owned @ (if e = None then [t] else []))"
proof (cases "w_state w")
  case Nil
  have "w' = w\<lparr>w_state := [t]\<rparr>" "e = None" using assms(3) Nil by (auto simp: Mutex_Lock_def)
  then show ?thesis using assms(1) Nil by (simp add: mutex_inv_def)
next
  case (Cons x ws)
  have "w' = w\<lparr>w_state := x # ws @ [t], w_parked := (w_parked w)(t := True)\<rparr>" "e \<noteq> None"
    using assms(3) Cons by (auto simp: Mutex_Lock_def Token_Park_def)
  then show ?thesis using assms(1,2) Cons by (simp add: mutex_inv_def)
qed

lemma mutex_inv_unlock:
  assumes "mutex_inv w asked owned" "Mutex_Unlock w = Inr w'"
  shows "mutex_inv w' asked (owned @ (case w_state w' of [] \<Rightarrow> [] | u # _ \<Rightarrow> [u]))"
proof (cases "tl (w_state w)")
  case Nil
  have "w' = w\<lparr>w_state := []\<rparr>"
    using assms(2) Nil by (simp add: Mutex_Unlock_def res_bind_Inr_iff)
  then show ?thesis using assms(1) Nil by (simp add: mutex_inv_def)
next
  case (Cons u us)
  then obtain x where x: "w_state w = x # u # us" by (cases "w_state w") simp_all
  have "w' = w\<lparr>w_state := u # us, w_parked := (w_parked w)(u := False)\<rparr>"
    using assms(2) Cons by (simp add: Mutex_Unlock_def Token_Unpark_def res_bind_Inr_iff)
  then show ?thesis using assms(1) x by (auto simp: mutex_inv_def)
qed

lemma mutex_use_inv: "mutex_use k w0 w asked owned \<Longrightarrow> mutex_inv w asked owned"
proof (induction rule: mutex_use.induct)
  case initial
  then show ?case by (rule mutex_inv_initial)
next
  case lock
  then show ?case by (intro mutex_inv_lock)
next
  case unlock
  then show ?case by (intro mutex_inv_unlock)
qed

text \<open>
  C38. The token mutex is fair and never stuck. In every reachable state the lock is owned in the order
  of the calls of \<open>Lock\<close>, the parked tasks are exactly those that wait, in particular the owner is
  not parked, and unlocking by the owner succeeds and passes the lock to the task that has waited
  longest.
\<close>

theorem token_mutex_fifo:
  assumes "mutex_use k w0 w asked owned"
  shows "asked = owned @ tl (w_state w) \<and> (\<forall>t. w_parked w t \<longleftrightarrow> t \<in> set (tl (w_state w)))
    \<and> (w_state w \<noteq> [] \<longrightarrow> \<not> w_parked w (hd (w_state w)) \<and> last owned = hd (w_state w)
        \<and> (\<exists>w'. Mutex_Unlock w = Inr w' \<and> w_state w' = tl (w_state w)
             \<and> mutex_use k w0 w' asked (owned @ (case tl (w_state w) of [] \<Rightarrow> [] | u # _ \<Rightarrow> [u]))))"
proof -
  note inv = mutex_use_inv [OF assms]
  have "\<not> w_parked w (hd (w_state w))" if "w_state w \<noteq> []"
    using inv that by (cases "w_state w") (auto simp: mutex_inv_def)
  moreover have "\<exists>w'. Mutex_Unlock w = Inr w' \<and> w_state w' = tl (w_state w)" if "w_state w \<noteq> []"
    using that by (simp add: Mutex_Unlock_def Let_def Token_Unpark_def)
  ultimately show ?thesis
    using inv mutex_use.unlock [OF assms refl] unfolding mutex_inv_def by metis
qed

theorem token_mutex_fifo_witness:
  "\<exists>w. mutex_use () \<lparr>w_state = [], w_parked = (\<lambda>_. False), w_next_token = 3, w_status = None\<rparr> w [1, 2] [1]
     \<and> w_parked w 2 \<and> \<not> w_parked w 1"
proof -
  let ?w0 = "\<lparr>w_state = [], w_parked = (\<lambda>_. False), w_next_token = 3, w_status = None\<rparr> :: token_mutex world"
  have "mutex_use () ?w0 ?w0 [] []" by (rule mutex_use.initial) simp_all
  from mutex_use.lock [OF this, of 1] have "mutex_use () ?w0 (?w0\<lparr>w_state := [1]\<rparr>) [1] [1]"
    by (simp add: Mutex_Lock_def)
  from mutex_use.lock [OF this, of 2] have u: "mutex_use () ?w0
      (?w0\<lparr>w_state := [1, 2], w_parked := (\<lambda>_. False)(2 := True)\<rparr>) [1, 2] [1]"
    by (simp add: Mutex_Lock_def Token_Park_def)
  from token_mutex_fifo [OF u] u show ?thesis by auto
qed

end
