(* ===== verification/Target_Machine.thy ===== *)
theory Target_Machine
  imports Strategy_Scheduler
begin

text \<open>
  The tested objects under \<open>verifying/targets\<close> and \<open>verifying/blocking\<close> as machines. A method
  that is declared \<open>non_atomic\<close> is compiled with a yield after every access to memory, so one
  slice of it makes at most one access to the shared object: a step function takes the position
  in the method with its local variables and the object, and gives the object after the access
  and how the slice ends. The response comes in a slice of its own.

  \<open>target_run\<close> are the histories of an object under any scheduler: calls begin, slices of calls
  that have not returned run in any order. The locales \<open>helping_points\<close> and \<open>linearization_points\<close> are the methods by
  which the correct targets are shown to be linearizable, whatever the scheduler does.
\<close>

declare split_paired_All [simp del] split_paired_Ex [simp del]

section \<open>Machines\<close>

text \<open>A failed assertion and an access out of bounds end the run of the program.\<close>

type_synonym ('o, 'c) target_step = "'c \<Rightarrow> 'o \<Rightarrow> ('o \<times> 'c slice_end) res"

text \<open>A call: the name of the method, its arguments, and where its execution begins.\<close>

type_synonym ('a, 'c) target_call = "string \<times> 'a \<times> 'c"

text \<open>
  The body that the runtime resumes. It is left open what a slice does that ends the program.
\<close>

definition implements :: "('o, 'c) body \<Rightarrow> ('o, 'c) target_step \<Rightarrow> bool" where
  "implements body step \<longleftrightarrow> (\<forall>c w o' e. step c (w_state w) = Inr (o', e) \<longrightarrow> body c w = (w\<lparr>w_state := o'\<rparr>, e))"

definition step_body :: "('o, 'c) target_step \<Rightarrow> ('o, 'c) body" where
  "step_body step c w = (case step c (w_state w) of
     Inr (o', e) \<Rightarrow> (w\<lparr>w_state := o'\<rparr>, e) | Inl _ \<Rightarrow> (w, Yield c))"

lemma implements_step_body: "implements (step_body step) step"
  by (simp add: implements_def step_body_def)

section \<open>Runs under any scheduler\<close>

text \<open>What a history records of a task.\<close>

definition task_view :: "('a, 'c) coro \<Rightarrow> string \<times> 'a \<times> 'c \<times> bool \<times> value_wrapper" where
  "task_view c = (co_name c, co_args c, co_ctx c, co_is_returned c, co_ret c)"

lemma task_view_sel:
  assumes "task_view c = task_view c'"
  shows "co_name c = co_name c'" "co_args c = co_args c'" "co_ctx c = co_ctx c'"
    "co_is_returned c = co_is_returned c'" "co_ret c = co_ret c'"
  using assms by (simp_all add: task_view_def)

text \<open>The methods that a thread has called, in order.\<close>

definition thread_calls :: "(slot \<Rightarrow> ('a, 'c) coro) \<Rightarrow> seq_history \<Rightarrow> nat \<Rightarrow> string list" where
  "thread_calls tk h t = map (\<lambda>r. co_name (tk r)) (filter (\<lambda>r. fst r = t) (invoked h))"

text \<open>
  A thread calls a method when its previous call has returned and the rules of use (\<open>allowed\<close>, on
  the thread and the methods that it has called before) let it. The last rule lets the runtime change
  what no history shows, such as the futex state of a task.
\<close>

inductive target_run ::
    "('a, 'c) target_call set \<Rightarrow> (nat \<Rightarrow> string list \<Rightarrow> string \<Rightarrow> bool) \<Rightarrow> ('o, 'c) target_step \<Rightarrow> 'o
      \<Rightarrow> 'o \<Rightarrow> (slot \<Rightarrow> ('a, 'c) coro) \<Rightarrow> seq_history \<Rightarrow> bool"
    for calls allowed step o0 where
  start: "target_run calls allowed step o0 o0 tk []"
| invoke: "\<lbrakk>target_run calls allowed step o0 x tk h; r \<notin> set (invoked h);
    (co_name c, co_args c, co_ctx c) \<in> calls; \<not> co_is_returned c;
    \<forall>r' \<in> set (invoked h). fst r' = fst r \<longrightarrow> co_is_returned (tk r');
    allowed (fst r) (thread_calls tk h (fst r)) (co_name c)\<rbrakk>
    \<Longrightarrow> target_run calls allowed step o0 x (tk(r := c)) (h @ [Invoke r (int (fst r))])"
| yield: "\<lbrakk>target_run calls allowed step o0 x tk h; r \<in> set (invoked h); \<not> co_is_returned (tk r);
    step (co_ctx (tk r)) x = Inr (y, e); e = Yield k \<or> (\<exists>a v. e = Futex_Wait k a v)\<rbrakk>
    \<Longrightarrow> target_run calls allowed step o0 y (tk(r := (tk r)\<lparr>co_ctx := k\<rparr>)) h"
| respond: "\<lbrakk>target_run calls allowed step o0 x tk h; r \<in> set (invoked h); \<not> co_is_returned (tk r);
    step (co_ctx (tk r)) x = Inr (y, Return v)\<rbrakk>
    \<Longrightarrow> target_run calls allowed step o0 y (tk(r := (tk r)\<lparr>co_ret := v, co_is_returned := True\<rparr>))
         (h @ [Response r v (int (fst r))])"
| silent: "\<lbrakk>target_run calls allowed step o0 x tk h; \<forall>r \<in> set (invoked h). task_view (tk' r) = task_view (tk r)\<rbrakk>
    \<Longrightarrow> target_run calls allowed step o0 x tk' h"

text \<open>A whole call without interruption, of a method that makes one access.\<close>

lemma target_run_call:
  assumes run: "target_run calls allowed step o0 x tk h" and new: "r \<notin> set (invoked h)"
    "\<forall>r' \<in> set (invoked h). fst r' = fst r \<longrightarrow> co_is_returned (tk r')"
    and c: "(co_name c, co_args c, co_ctx c) \<in> calls" "\<not> co_is_returned c" "allowed (fst r) (thread_calls tk h (fst r)) (co_name c)"
    and st: "step (co_ctx c) x = Inr (y, Yield k)" "step k y = Inr (z, Return v)"
  shows "target_run calls allowed step o0 z (tk(r := c\<lparr>co_ctx := k, co_ret := v, co_is_returned := True\<rparr>))
    (h @ [Invoke r (int (fst r)), Response r v (int (fst r))])"
proof -
  let ?h = "h @ [Invoke r (int (fst r))]"
  have "target_run calls allowed step o0 x (tk(r := c)) ?h" by (rule target_run.invoke [OF run new(1) c(1,2) new(2) c(3)])
  from target_run.yield [OF this, of r y "Yield k" k]
  have "target_run calls allowed step o0 y (tk(r := c\<lparr>co_ctx := k\<rparr>)) ?h" using c(2) st(1) by simp
  from target_run.respond [OF this, of r z v] show ?thesis using c(2) st(2) by simp
qed

text \<open>What every run keeps of the history: it is well formed and agrees with the tasks.\<close>

definition run_ok :: "(slot \<Rightarrow> ('a, 'c) coro) \<Rightarrow> seq_history \<Rightarrow> bool" where
  "run_ok tk h \<longleftrightarrow> wf_history h
     \<and> (\<forall>r \<in> set (invoked h). co_is_returned (tk r) \<longleftrightarrow> r \<in> set (answered h))
     \<and> (\<forall>r \<in> set (invoked h). \<forall>r' \<in> set (invoked h). \<not> co_is_returned (tk r) \<longrightarrow> \<not> co_is_returned (tk r')
          \<longrightarrow> fst r = fst r' \<longrightarrow> r = r')"

lemma answered_invoked: "wf_history h \<Longrightarrow> r \<in> set (answered h) \<Longrightarrow> r \<in> set (invoked h)"
proof (induction h rule: rev_induct)
  case (snoc e h)
  then show ?case by (cases e) auto
qed simp

lemma run_ok_invoke:
  assumes "run_ok tk h" "r \<notin> set (invoked h)" "\<not> co_is_returned c"
    "\<forall>r' \<in> set (invoked h). fst r' = fst r \<longrightarrow> co_is_returned (tk r')"
  shows "run_ok (tk(r := c)) (h @ [Invoke r t])"
  using assms answered_invoked [of h r] unfolding run_ok_def by auto

lemma run_ok_yield:
  assumes "run_ok tk h" "co_is_returned c = co_is_returned (tk r)"
  shows "run_ok (tk(r := c)) h"
  using assms unfolding run_ok_def by auto

lemma run_ok_respond:
  assumes "run_ok tk h" "r \<in> set (invoked h)" "\<not> co_is_returned (tk r)" "co_is_returned c"
  shows "run_ok (tk(r := c)) (h @ [Response r v t])"
  using assms unfolding run_ok_def by auto

lemma run_ok_silent:
  assumes "run_ok tk h" "\<forall>r \<in> set (invoked h). task_view (tk' r) = task_view (tk r)"
  shows "run_ok tk' h"
proof -
  have "co_is_returned (tk' r) = co_is_returned (tk r)" if "r \<in> set (invoked h)" for r
    using assms(2) that task_view_sel(4) by metis
  then show ?thesis using assms(1) unfolding run_ok_def by auto
qed

lemma target_run_ok: "target_run calls allowed step o0 x tk h \<Longrightarrow> run_ok tk h"
proof (induction rule: target_run.induct)
  case (start tk)
  show ?case by (simp add: run_ok_def)
next
  case (invoke x tk h r c)
  from invoke.IH invoke.hyps(2,4,5) show ?case by (intro run_ok_invoke)
next
  case (yield x tk h r y e k)
  from yield.IH show ?case by (intro run_ok_yield) simp_all
next
  case (respond x tk h r y v)
  from respond.IH respond.hyps(2,3) show ?case by (intro run_ok_respond) simp_all
next
  case (silent x tk h tk')
  from silent.IH silent.hyps(2) show ?case by (rule run_ok_silent)
qed

text \<open>A call that has not returned is the last one of its thread.\<close>

lemma active_is_last:
  assumes "target_run calls allowed step o0 x tk h"
  shows "\<forall>r \<in> set (invoked h). \<not> co_is_returned (tk r) \<longrightarrow> (\<exists>qs. filter (\<lambda>q. fst q = fst r) (invoked h) = qs @ [r])"
  using assms
proof (induction rule: target_run.induct)
  case (silent x tk h tk')
  have "co_is_returned (tk' r) = co_is_returned (tk r)" if "r \<in> set (invoked h)" for r
    using silent.hyps(2) that task_view_sel(4) by metis
  then show ?case using silent.IH by simp
qed auto

lemma active_call_name:
  assumes "target_run calls allowed step o0 x tk h" "r \<in> set (invoked h)" "\<not> co_is_returned (tk r)"
  shows "thread_calls tk h (fst r) \<noteq> []" "last (thread_calls tk h (fst r)) = co_name (tk r)"
  using active_is_last [OF assms(1)] assms(2,3) by (auto simp: thread_calls_def)

text \<open>No slice of the target ends the program.\<close>

definition never_fails ::
    "('a, 'c) target_call set \<Rightarrow> (nat \<Rightarrow> string list \<Rightarrow> string \<Rightarrow> bool) \<Rightarrow> ('o, 'c) target_step \<Rightarrow> 'o \<Rightarrow> bool" where
  "never_fails calls allowed step o0 \<longleftrightarrow> (\<forall>x tk h r. target_run calls allowed step o0 x tk h \<longrightarrow> r \<in> set (invoked h)
     \<longrightarrow> \<not> co_is_returned (tk r) \<longrightarrow> (\<exists>y e. step (co_ctx (tk r)) x = Inr (y, e)))"

lemma never_failsI: "(\<And>c x. \<exists>y e. step c x = Inr (y, e)) \<Longrightarrow> never_fails calls allowed step o0"
  unfolding never_fails_def by blast

section \<open>Sequential executions of the specification\<close>

fun spec_trace ::
    "('a, 's) linearizability_checker \<Rightarrow> 's \<Rightarrow> (string \<times> 'a \<times> value_wrapper) list \<Rightarrow> 's \<Rightarrow> bool" where
  "spec_trace C s [] s' \<longleftrightarrow> s' = s"
| "spec_trace C s ((nm, a, v) # ops) s' \<longleftrightarrow> (\<exists>m s1. specification_methods C nm = Some m
     \<and> m s a = (s1, v) \<and> spec_trace C s1 ops s')"

lemma spec_trace_snoc:
  "spec_trace C s (ops @ [(nm, a, v)]) s' \<longleftrightarrow> (\<exists>s1 m. spec_trace C s ops s1
     \<and> specification_methods C nm = Some m \<and> m s1 a = (s', v))"
  by (induction ops arbitrary: s) (auto, metis+)

definition traced :: "(slot \<Rightarrow> ('a, 'c) coro) \<Rightarrow> seq_history \<Rightarrow> (nat \<Rightarrow> value_wrapper) \<Rightarrow> nat
    \<Rightarrow> string \<times> 'a \<times> value_wrapper" where
  "traced tk h val i = (co_name (tk (GetTask (h ! i))), co_args (tk (GetTask (h ! i))), val i)"

lemma legal_traced:
  assumes "spec_trace C s (map (traced tk h val) p) s'"
    and "\<forall>i \<in> set p. completed h i \<longrightarrow> vw_eq (val i) (co_ret (tk (GetTask (h ! i)))) = Inr True"
  shows "legal C tk h s p"
  using assms
proof (induction p arbitrary: s)
  case (Cons i p)
  from Cons.prems(1) obtain m s1 where m: "specification_methods C (co_name (tk (GetTask (h ! i)))) = Some m"
      "m s (co_args (tk (GetTask (h ! i)))) = (s1, val i)" "spec_trace C s1 (map (traced tk h val) p) s'"
    by (auto simp: traced_def [of tk h val i])
  then have "run_method C tk (GetTask (h ! i)) s = Some (s1, val i)" by (simp add: run_method_def)
  with Cons.IH [OF m(3)] Cons.prems(2) show ?case by (simp add: accepts_def after_def)
qed simp

text \<open>
  A specification is typed when every method always gives an \<open>int\<close>, always an \<open>std::optional<int>\<close>, or always \<open>void\<close>: then its
  results can be compared with every value that equals one of them.
\<close>

definition typed_spec :: "('a, 's) linearizability_checker \<Rightarrow> bool" where
  "typed_spec C \<longleftrightarrow> (\<forall>nm m. specification_methods C nm = Some m \<longrightarrow>
     (\<exists>f. \<forall>s a. snd (m s a) = vw_int (f s a)) \<or> (\<exists>f. \<forall>s a. snd (m s a) = vw_opt (f s a)) \<or> (\<forall>s a. snd (m s a) = void_v))"

text \<open>The tables are written with methods of these two forms.\<close>

lemma typed_table:
  assumes "\<And>nm m. specification_methods C nm = Some m \<Longrightarrow>
     (\<exists>f. m = (\<lambda>l args. let (l', r) = f l args in (l', vw_int r))) \<or> (\<exists>f. m = (\<lambda>l args. (f l args, void_v)))"
  shows "typed_spec C"
  unfolding typed_spec_def
proof (intro allI impI)
  fix nm m assume "specification_methods C nm = Some m"
  from assms [OF this] consider (int) f where "m = (\<lambda>l args. let (l', r) = f l args in (l', vw_int r))"
    | (void) f where "m = (\<lambda>l args. (f l args, void_v))" by blast
  then show "(\<exists>f. \<forall>s a. snd (m s a) = vw_int (f s a)) \<or> (\<exists>f. \<forall>s a. snd (m s a) = vw_opt (f s a)) \<or> (\<forall>s a. snd (m s a) = void_v)"
  proof cases
    case int
    then show ?thesis by (intro disjI1 exI [of _ "\<lambda>s a. snd (f s a)"]) (simp add: split_def Let_def)
  qed simp
qed

lemma vw_eq_int_True: "vw_eq (vw_int x) v = Inr True \<Longrightarrow> vw_eq (vw_int y) v = Inr (y = x)"
  by (cases "vw_value v") (auto simp: vw_eq_def vw_int_def vw_of_def GetDefaultCompator_def HasValue_def
      GetValue_def res_bind_Inr_iff split: if_splits option.splits)

lemma vw_eq_opt_True: "vw_eq (vw_opt x) v = Inr True \<Longrightarrow> vw_eq (vw_opt y) v = Inr (y = x)"
  by (cases "vw_value v") (auto simp: vw_eq_def vw_opt_def vw_of_def GetDefaultCompator_def HasValue_def
      GetValue_def res_bind_Inr_iff split: if_splits option.splits)

lemma typed_spec_comparable:
  assumes "typed_spec C" "specification_methods C nm = Some m" "vw_eq (snd (m s a)) v = Inr True"
  shows "\<exists>b. vw_eq (snd (m s' a')) v = Inr b"
proof -
  from assms(1,2) consider f where "\<And>s a. snd (m s a) = vw_int (f s a)" | f where "\<And>s a. snd (m s a) = vw_opt (f s a)"
    | "\<And>s a. snd (m s a) = void_v"
    unfolding typed_spec_def by metis
  then show ?thesis
  proof cases
    case (1 f)
    with assms(3) show ?thesis using vw_eq_int_True [of "f s a" v "f s' a'"] by auto
  next
    case (2 f)
    with assms(3) show ?thesis using vw_eq_opt_True [of "f s a" v "f s' a'"] by auto
  next
    case 3
    then show ?thesis using assms(3) by auto
  qed
qed

lemma spec_trace_value:
  assumes "spec_trace C s ops s'" "(nm, a, v) \<in> set ops"
  shows "\<exists>m s1. specification_methods C nm = Some m \<and> snd (m s1 a) = v"
  using assms
proof (induction ops arbitrary: s)
  case (Cons op ops)
  obtain nm' a' v' where op: "op = (nm', a', v')" by (cases op) auto
  from Cons.prems(1) obtain m s1 where m: "specification_methods C nm' = Some m" "m s a' = (s1, v')" "spec_trace C s1 ops s'"
    by (auto simp: op)
  from Cons.prems(2) consider "(nm, a, v) = (nm', a', v')" | "(nm, a, v) \<in> set ops" by (auto simp: op)
  then show ?case
  proof cases
    case 1
    then have "snd (m s a) = v" using m(2) by simp
    then show ?thesis using 1 m(1) by blast
  next
    case 2
    show ?thesis by (rule Cons.IH [OF m(3) 2])
  qed
qed simp

section \<open>Linearization points\<close>

text \<open>
  What is known of a run: the order \<open>p\<close> in which calls took effect and the values \<open>val\<close> they then
  had, the state \<open>s\<close> of the specification after them, and for every thread with a call that has not
  returned its position and, when it has taken effect, its value.
\<close>

type_synonym ('a, 'c) active = "nat \<rightharpoonup> string \<times> 'a \<times> 'c \<times> value_wrapper option"

definition call_of :: "('a, 'c) coro \<Rightarrow> value_wrapper option \<Rightarrow> string \<times> 'a \<times> 'c \<times> value_wrapper option" where
  "call_of c l = (co_name c, co_args c, co_ctx c, l)"

definition lin_state ::
    "('a, 's) linearizability_checker \<Rightarrow> (slot \<Rightarrow> ('a, 'c) coro) \<Rightarrow> seq_history \<Rightarrow> nat list
      \<Rightarrow> (nat \<Rightarrow> value_wrapper) \<Rightarrow> 's \<Rightarrow> ('a, 'c) active \<Rightarrow> bool" where
  "lin_state C tk h p val s L \<longleftrightarrow> run_ok tk h \<and> distinct p \<and> set p \<subseteq> invokes h \<and> real_time h p
     \<and> spec_trace C (first_state C) (map (traced tk h val) p) s
     \<and> (\<forall>i \<in> invokes h. GetTask (h ! i) \<in> set (answered h) \<longrightarrow>
          i \<in> set p \<and> vw_eq (val i) (co_ret (tk (GetTask (h ! i)))) = Inr True)
     \<and> (\<forall>i \<in> invokes h. \<not> co_is_returned (tk (GetTask (h ! i))) \<longrightarrow>
          L (fst (GetTask (h ! i))) = Some (call_of (tk (GetTask (h ! i))) (if i \<in> set p then Some (val i) else None)))
     \<and> (\<forall>t. L t \<noteq> None \<longrightarrow> (\<exists>r \<in> set (invoked h). fst r = t \<and> \<not> co_is_returned (tk r)))"

lemma lin_stateI:
  assumes "run_ok tk h" "distinct p" "set p \<subseteq> invokes h" "real_time h p"
    "spec_trace C (first_state C) (map (traced tk h val) p) s"
    "\<And>i. i \<in> invokes h \<Longrightarrow> GetTask (h ! i) \<in> set (answered h)
      \<Longrightarrow> i \<in> set p \<and> vw_eq (val i) (co_ret (tk (GetTask (h ! i)))) = Inr True"
    "\<And>i. i \<in> invokes h \<Longrightarrow> \<not> co_is_returned (tk (GetTask (h ! i))) \<Longrightarrow>
      L (fst (GetTask (h ! i))) = Some (call_of (tk (GetTask (h ! i))) (if i \<in> set p then Some (val i) else None))"
    "\<And>t. L t \<noteq> None \<Longrightarrow> \<exists>r \<in> set (invoked h). fst r = t \<and> \<not> co_is_returned (tk r)"
  shows "lin_state C tk h p val s L"
  unfolding lin_state_def using assms by blast

lemma lin_stateD:
  assumes "lin_state C tk h p val s L"
  shows "run_ok tk h" "distinct p" "set p \<subseteq> invokes h" "real_time h p"
    "spec_trace C (first_state C) (map (traced tk h val) p) s"
    "\<lbrakk>i \<in> invokes h; GetTask (h ! i) \<in> set (answered h)\<rbrakk> \<Longrightarrow> i \<in> set p"
    "\<lbrakk>i \<in> invokes h; GetTask (h ! i) \<in> set (answered h)\<rbrakk> \<Longrightarrow> vw_eq (val i) (co_ret (tk (GetTask (h ! i)))) = Inr True"
    "\<lbrakk>i \<in> invokes h; \<not> co_is_returned (tk (GetTask (h ! i)))\<rbrakk> \<Longrightarrow>
      L (fst (GetTask (h ! i))) = Some (call_of (tk (GetTask (h ! i))) (if i \<in> set p then Some (val i) else None))"
    "L t \<noteq> None \<Longrightarrow> \<exists>r \<in> set (invoked h). fst r = t \<and> \<not> co_is_returned (tk r)"
  using assms unfolding lin_state_def by blast+

lemma completed_answered:
  assumes "wf_history h" "i \<in> invokes h"
  shows "completed h i \<longleftrightarrow> GetTask (h ! i) \<in> set (answered h)"
proof
  assume "completed h i"
  then show "GetTask (h ! i) \<in> set (answered h)" by (auto simp: completed_def responds_def set_answered)
next
  assume "GetTask (h ! i) \<in> set (answered h)"
  then obtain r where r: "r < length h" "\<not> is_invoke (h ! r)" "GetTask (h ! r) = GetTask (h ! i)"
    by (auto simp: set_answered)
  then obtain j where "responds h j r" using response_has_invoke [OF assms(1)] by blast
  moreover from this have "j = i"
    using r(3) assms wf_history_invoke_unique [OF assms(1), of j i] by (auto simp: responds_def invokes_def)
  ultimately show "completed h i" by (auto simp: completed_def)
qed

lemma lin_state_linearizable:
  assumes "lin_state C tk h p val s L"
  shows "linearizable C tk h"
proof -
  have wf: "wf_history h" using assms by (auto simp: lin_state_def run_ok_def)
  have "\<forall>i \<in> set p. completed h i \<longrightarrow> vw_eq (val i) (co_ret (tk (GetTask (h ! i)))) = Inr True"
    using assms completed_answered [OF wf] by (auto simp: lin_state_def)
  then have "legal C tk h (first_state C) p"
    using assms by (intro legal_traced [where val = val and s' = s]) (auto simp: lin_state_def)
  then have "linearization C tk h p"
    using assms completed_answered [OF wf] by (auto simp: linearization_def lin_state_def)
  then show ?thesis by (auto simp: linearizable_def)
qed

lemma lin_state_checkable:
  assumes ls: "lin_state C tk h p val s L" and "typed_spec C"
    and known: "\<forall>r \<in> set (invoked h). specification_methods C (co_name (tk r)) \<noteq> None"
  shows "checkable C tk h"
  unfolding checkable_def
proof (intro conjI ballI)
  note D = lin_stateD [OF ls]
  show wf: "wf_history h" using D(1) by (simp add: run_ok_def)
  fix i assume i: "i \<in> invokes h"
  let ?r = "GetTask (h ! i)"
  have r: "?r \<in> set (invoked h)" using i by (auto simp: invokes_def set_invoked)
  then obtain m where m: "specification_methods C (co_name (tk ?r)) = Some m" using known by blast
  have "co_is_returned (tk ?r) \<and> (\<forall>s. \<exists>b. vw_eq (snd (m s (co_args (tk ?r)))) (co_ret (tk ?r)) = Inr b)"
    if "completed h i"
  proof -
    have a: "?r \<in> set (answered h)" using completed_answered [OF wf i] that by simp
    have "(co_name (tk ?r), co_args (tk ?r), val i) \<in> set (map (traced tk h val) p)"
      using D(6) [OF i a] by (auto simp: traced_def)
    from spec_trace_value [OF D(5) this] m obtain s1 where "snd (m s1 (co_args (tk ?r))) = val i" by auto
    then have "vw_eq (snd (m s1 (co_args (tk ?r)))) (co_ret (tk ?r)) = Inr True" using D(7) [OF i a] by simp
    then show ?thesis using typed_spec_comparable [OF assms(2) m] D(1) r a by (auto simp: run_ok_def)
  qed
  then show "\<exists>m. specification_methods C (co_name (tk ?r)) = Some m \<and> (completed h i \<longrightarrow> co_is_returned (tk ?r)
      \<and> (\<forall>s. \<exists>b. vw_eq (snd (m s (co_args (tk ?r)))) (co_ret (tk ?r)) = Inr b))" using m by blast
qed

lemma invokes_snoc [simp]:
  "invokes (h @ [Invoke r t]) = insert (length h) (invokes h)"
  "invokes (h @ [Response r v t]) = invokes h"
  by (auto simp: invokes_def nth_append less_Suc_eq)

lemma invokes_less: "i \<in> invokes h \<Longrightarrow> i < length h"
  by (simp add: invokes_def)

lemma invokes_invoked: "i \<in> invokes h \<Longrightarrow> GetTask (h ! i) \<in> set (invoked h)"
  by (auto simp: invokes_def set_invoked)

lemma precedes_old:
  assumes "a < length h"
  shows "precedes (h @ [e]) b a \<longleftrightarrow> precedes h b a"
  using assms by (auto simp: precedes_def responds_snoc)

lemma real_time_snoc:
  assumes "set p \<subseteq> invokes h" "real_time h p"
  shows "real_time (h @ [e]) p"
proof -
  have "\<not> precedes (h @ [e]) b a" if "\<not> precedes h b a" "a \<in> set p" for a b
    using that assms(1) precedes_old [of a h e b] by (auto dest: invokes_less)
  with assms(2) show ?thesis
    unfolding real_time_def by (elim sorted_wrt_mono_rel [rotated]) blast
qed

lemma map_traced_cong:
  assumes "\<forall>i \<in> set p. h' ! i = h ! i \<and> val' i = val i \<and> co_name (tk' (GetTask (h ! i))) = co_name (tk (GetTask (h ! i)))
      \<and> co_args (tk' (GetTask (h ! i))) = co_args (tk (GetTask (h ! i)))"
  shows "map (traced tk' h' val') p = map (traced tk h val) p"
  using assms by (simp add: traced_def)

lemma lin_state_invoke:
  assumes ls: "lin_state C tk h p val s L" and r: "r \<notin> set (invoked h)" "\<not> co_is_returned c"
    and seq: "\<forall>r' \<in> set (invoked h). fst r' = fst r \<longrightarrow> co_is_returned (tk r')"
  shows "lin_state C (tk(r := c)) (h @ [Invoke r t]) p val s (L(fst r \<mapsto> call_of c None))"
    (is "lin_state C ?tk ?h p val s ?L")
proof (rule lin_stateI)
  note D = lin_stateD [OF ls]
  have wf: "wf_history h" using D(1) by (simp add: run_ok_def)
  have old: "?h ! i = h ! i" "GetTask (h ! i) \<noteq> r" "length h \<noteq> i" if "i \<in> invokes h" for i
    using that r(1) by (auto simp: nth_append invokes_def set_invoked)
  have new: "length h \<notin> set p" using D(3) by (auto dest: invokes_less)
  show "run_ok ?tk ?h" by (rule run_ok_invoke [OF D(1) r seq])
  show "distinct p" by (rule D(2))
  show "set p \<subseteq> invokes ?h" using D(3) by auto
  show "real_time ?h p" by (rule real_time_snoc [OF D(3,4)])
  have "map (traced ?tk ?h val) p = map (traced tk h val) p"
    using D(3) old by (intro map_traced_cong) auto
  then show "spec_trace C (first_state C) (map (traced ?tk ?h val) p) s" using D(5) by (simp only:)
  fix i assume i: "i \<in> invokes ?h"
  show "i \<in> set p \<and> vw_eq (val i) (co_ret (?tk (GetTask (?h ! i)))) = Inr True"
    if a: "GetTask (?h ! i) \<in> set (answered ?h)"
  proof -
    have "i \<noteq> length h" using a r(1) answered_invoked [OF wf, of r] by auto
    then have io: "i \<in> invokes h" using i by simp
    then show ?thesis using D(6,7) [OF io] a old [OF io] by simp
  qed
  show "?L (fst (GetTask (?h ! i))) = Some (call_of (?tk (GetTask (?h ! i))) (if i \<in> set p then Some (val i) else None))"
    if a: "\<not> co_is_returned (?tk (GetTask (?h ! i)))"
  proof (cases "i = length h")
    case False
    then have io: "i \<in> invokes h" using i by simp
    have nr: "\<not> co_is_returned (tk (GetTask (h ! i)))" using a old [OF io] by simp
    then have "fst (GetTask (h ! i)) \<noteq> fst r" using seq invokes_invoked [OF io] by blast
    then show ?thesis using D(8) [OF io nr] old [OF io] by simp
  qed (use new in simp)
next
  fix u assume u: "?L u \<noteq> None"
  show "\<exists>q \<in> set (invoked ?h). fst q = u \<and> \<not> co_is_returned (?tk q)"
  proof (cases "u = fst r")
    case False
    then obtain q where "q \<in> set (invoked h)" "fst q = u" "\<not> co_is_returned (tk q)"
      using lin_stateD(9) [OF ls, of u] u by auto
    with False show ?thesis by auto
  qed (use r in auto)
qed

text \<open>The position in the history of a call that has not returned.\<close>

definition active_at :: "(slot \<Rightarrow> ('a, 'c) coro) \<Rightarrow> seq_history \<Rightarrow> slot \<Rightarrow> nat \<Rightarrow> bool" where
  "active_at tk h r i \<longleftrightarrow> i \<in> invokes h \<and> GetTask (h ! i) = r \<and> \<not> completed h i
     \<and> (\<forall>j \<in> invokes h. j \<noteq> i \<longrightarrow> GetTask (h ! j) \<noteq> r
          \<and> (\<not> co_is_returned (tk (GetTask (h ! j))) \<longrightarrow> fst (GetTask (h ! j)) \<noteq> fst r))"

lemma active_atD:
  assumes "active_at tk h r i"
  shows "i \<in> invokes h" "GetTask (h ! i) = r" "\<not> completed h i"
    "\<lbrakk>j \<in> invokes h; j \<noteq> i\<rbrakk> \<Longrightarrow> GetTask (h ! j) \<noteq> r"
    "\<lbrakk>j \<in> invokes h; j \<noteq> i; \<not> co_is_returned (tk (GetTask (h ! j)))\<rbrakk> \<Longrightarrow> fst (GetTask (h ! j)) \<noteq> fst r"
  using assms unfolding active_at_def by blast+

lemma active_index:
  assumes "run_ok tk h" "r \<in> set (invoked h)" "\<not> co_is_returned (tk r)"
  shows "\<exists>i. active_at tk h r i"
proof -
  have wf: "wf_history h" using assms(1) by (simp add: run_ok_def)
  from assms(2) obtain i where i: "i \<in> invokes h" "GetTask (h ! i) = r" by (auto simp: set_invoked invokes_def)
  have other: "GetTask (h ! j) \<noteq> r" if "j \<in> invokes h" "j \<noteq> i" for j
    using that i wf_history_invoke_unique [OF wf, of i j] by (auto simp: invokes_def)
  moreover have "fst (GetTask (h ! j)) \<noteq> fst r"
    if "j \<in> invokes h" "j \<noteq> i" "\<not> co_is_returned (tk (GetTask (h ! j)))" for j
    using assms other [OF that(1,2)] invokes_invoked [OF that(1)] that(3) unfolding run_ok_def by blast
  moreover have "\<not> completed h i"
    using completed_answered [OF wf i(1)] assms i(2) by (simp add: run_ok_def)
  ultimately show ?thesis using i unfolding active_at_def by blast
qed

text \<open>A call takes effect.\<close>

lemma lin_state_effect:
  assumes ls: "lin_state C tk h p val s L" and r: "r \<in> set (invoked h)" "\<not> co_is_returned (tk r)"
    and L: "L (fst r) = Some (nm, a, c, None)" and m: "specification_methods C nm = Some m" "m s a = (s', v)"
  shows "\<exists>p val. lin_state C tk h p val s' (L(fst r \<mapsto> (nm, a, c, Some v)))"
proof -
  note D = lin_stateD [OF ls]
  obtain i where "active_at tk h r i" using active_index [OF D(1) r] by blast
  note i = active_atD(1,2) [OF this] and pend = active_atD(3) [OF this] and other = active_atD(4) [OF this]
    and thr = active_atD(5) [OF this]
  have call: "nm = co_name (tk r)" "a = co_args (tk r)" "c = co_ctx (tk r)" "i \<notin> set p"
    using D(8) [OF i(1)] i(2) r(2) L by (auto simp: call_of_def split: if_splits)
  let ?val = "val(i := v)" and ?L = "L(fst r \<mapsto> (nm, a, c, Some v))"
  have "lin_state C tk h (p @ [i]) ?val s' ?L"
  proof (rule lin_stateI)
    show "run_ok tk h" "distinct (p @ [i])" "set (p @ [i]) \<subseteq> invokes h" using D(1-3) call(4) i(1) by auto
    show "real_time h (p @ [i])"
      using D(4) pend by (auto simp: real_time_def sorted_wrt_append not_precedes_pending)
    have "map (traced tk h ?val) p = map (traced tk h val) p" using call(4) by (intro map_traced_cong) auto
    then have "spec_trace C (first_state C) (map (traced tk h ?val) p) s" using D(5) by (simp only:)
    then show "spec_trace C (first_state C) (map (traced tk h ?val) (p @ [i])) s'"
      using m call i(2) by (auto simp: traced_def [of tk h ?val i] spec_trace_snoc)
    fix j assume j: "j \<in> invokes h"
    show "j \<in> set (p @ [i]) \<and> vw_eq (?val j) (co_ret (tk (GetTask (h ! j)))) = Inr True"
      if "GetTask (h ! j) \<in> set (answered h)"
    proof -
      have "j \<noteq> i" using that i D(1) r by (auto simp: run_ok_def)
      then show ?thesis using D(6,7) [OF j that] by simp
    qed
    show "?L (fst (GetTask (h ! j))) = Some (call_of (tk (GetTask (h ! j))) (if j \<in> set (p @ [i]) then Some (?val j) else None))"
      if nr: "\<not> co_is_returned (tk (GetTask (h ! j)))"
    proof (cases "j = i")
      case False
      then show ?thesis using thr [OF j False nr] D(8) [OF j nr] by simp
    qed (use i(2) call in \<open>simp add: call_of_def\<close>)
  next
    fix u assume u: "?L u \<noteq> None"
    show "\<exists>q \<in> set (invoked h). fst q = u \<and> \<not> co_is_returned (tk q)"
      using r D(9) [of u] u by (cases "u = fst r") auto
  qed
  then show ?thesis by blast
qed

text \<open>A call moves on.\<close>

lemma lin_state_yield:
  assumes ls: "lin_state C tk h p val s L" and r: "r \<in> set (invoked h)" "\<not> co_is_returned (tk r)"
    and L: "L (fst r) = Some (nm, a, c, l)"
  shows "lin_state C (tk(r := (tk r)\<lparr>co_ctx := k\<rparr>)) h p val s (L(fst r \<mapsto> (nm, a, k, l)))"
    (is "lin_state C ?tk h p val s ?L")
proof (rule lin_stateI)
  note D = lin_stateD [OF ls]
  obtain i where "active_at tk h r i" using active_index [OF D(1) r] by blast
  note i = active_atD(1,2) [OF this] and pend = active_atD(3) [OF this] and other = active_atD(4) [OF this]
    and thr = active_atD(5) [OF this]
  have call: "nm = co_name (tk r)" "a = co_args (tk r)" "l = (if i \<in> set p then Some (val i) else None)"
    using D(8) [OF i(1)] i(2) r(2) L by (auto simp: call_of_def)
  show "run_ok ?tk h" by (rule run_ok_yield [OF D(1)]) simp
  show "distinct p" "set p \<subseteq> invokes h" "real_time h p" by (rule D)+
  have "map (traced ?tk h val) p = map (traced tk h val) p" by (intro map_traced_cong) auto
  then show "spec_trace C (first_state C) (map (traced ?tk h val) p) s" using D(5) by (simp only:)
  fix j assume j: "j \<in> invokes h"
  show "j \<in> set p \<and> vw_eq (val j) (co_ret (?tk (GetTask (h ! j)))) = Inr True"
    if "GetTask (h ! j) \<in> set (answered h)" using D(6,7) [OF j that] by auto
  show "?L (fst (GetTask (h ! j))) = Some (call_of (?tk (GetTask (h ! j))) (if j \<in> set p then Some (val j) else None))"
    if nr: "\<not> co_is_returned (?tk (GetTask (h ! j)))"
  proof (cases "j = i")
    case False
    then have n: "GetTask (h ! j) \<noteq> r" by (rule other [OF j])
    with nr have nr': "\<not> co_is_returned (tk (GetTask (h ! j)))" by simp
    show ?thesis using thr [OF j False nr'] n D(8) [OF j nr'] by simp
  qed (use i(2) call in \<open>simp add: call_of_def\<close>)
next
  fix u assume u: "?L u \<noteq> None"
  show "\<exists>q \<in> set (invoked h). fst q = u \<and> \<not> co_is_returned (?tk q)"
    using r lin_stateD(9) [OF ls, of u] u by (cases "u = fst r") auto
qed

text \<open>A call returns.\<close>

lemma lin_state_respond:
  assumes ls: "lin_state C tk h p val s L" and r: "r \<in> set (invoked h)" "\<not> co_is_returned (tk r)"
    and L: "L (fst r) = Some (nm, a, c, Some v)" and eq: "vw_eq v ret = Inr True"
  shows "lin_state C (tk(r := (tk r)\<lparr>co_ret := ret, co_is_returned := True\<rparr>)) (h @ [Response r ret t]) p val s
    (L(fst r := None))" (is "lin_state C ?tk ?h p val s ?L")
proof (rule lin_stateI)
  note D = lin_stateD [OF ls]
  obtain i where "active_at tk h r i" using active_index [OF D(1) r] by blast
  note i = active_atD(1,2) [OF this] and pend = active_atD(3) [OF this] and other = active_atD(4) [OF this]
    and thr = active_atD(5) [OF this]
  have val: "i \<in> set p" "val i = v"
    using D(8) [OF i(1)] i(2) r(2) L by (auto simp: call_of_def split: if_splits)
  have old: "?h ! j = h ! j" if "j \<in> invokes h" for j using that by (simp add: nth_append invokes_def)
  show "run_ok ?tk ?h" by (rule run_ok_respond [OF D(1) r]) simp
  show "distinct p" "set p \<subseteq> invokes ?h" using D(2,3) by auto
  show "real_time ?h p" by (rule real_time_snoc [OF D(3,4)])
  have "map (traced ?tk ?h val) p = map (traced tk h val) p"
    using D(3) old by (intro map_traced_cong) auto
  then show "spec_trace C (first_state C) (map (traced ?tk ?h val) p) s" using D(5) by (simp only:)
  fix j assume "j \<in> invokes ?h"
  then have j: "j \<in> invokes h" by simp
  show "j \<in> set p \<and> vw_eq (val j) (co_ret (?tk (GetTask (?h ! j)))) = Inr True"
    if a: "GetTask (?h ! j) \<in> set (answered ?h)"
  proof (cases "j = i")
    case False
    then show ?thesis using D(6,7) [OF j] other [OF j False] a old [OF j] by simp
  qed (use i old val eq in simp)
  show "?L (fst (GetTask (?h ! j))) = Some (call_of (?tk (GetTask (?h ! j))) (if j \<in> set p then Some (val j) else None))"
    if a: "\<not> co_is_returned (?tk (GetTask (?h ! j)))"
  proof -
    have n: "GetTask (h ! j) \<noteq> r" "j \<noteq> i" using a i old [OF j] by auto
    then have nr: "\<not> co_is_returned (tk (GetTask (h ! j)))" using a old [OF j] by simp
    show ?thesis using thr [OF j n(2) nr] n(1) D(8) [OF j nr] old [OF j] by simp
  qed
next
  fix u assume u: "?L u \<noteq> None"
  then have "u \<noteq> fst r" "L u \<noteq> None" by (auto split: if_splits)
  then show "\<exists>q \<in> set (invoked ?h). fst q = u \<and> \<not> co_is_returned (?tk q)"
    using lin_stateD(9) [OF ls, of u] by auto
qed

lemma lin_state_silent:
  assumes ls: "lin_state C tk h p val s L" and view: "\<forall>r \<in> set (invoked h). task_view (tk' r) = task_view (tk r)"
  shows "lin_state C tk' h p val s L"
proof (rule lin_stateI)
  note D = lin_stateD [OF ls]
  have v: "call_of (tk' r) l = call_of (tk r) l" "co_name (tk' r) = co_name (tk r)" "co_args (tk' r) = co_args (tk r)"
      "co_is_returned (tk' r) = co_is_returned (tk r)" "co_ret (tk' r) = co_ret (tk r)"
    if "r \<in> set (invoked h)" for r l
    using view that task_view_sel [of "tk' r" "tk r"] by (auto simp: call_of_def)
  show "run_ok tk' h" by (rule run_ok_silent [OF D(1) view])
  show "distinct p" "set p \<subseteq> invokes h" "real_time h p" by (rule D)+
  have "map (traced tk' h val) p = map (traced tk h val) p"
    using D(3) v invokes_invoked by (intro map_traced_cong) blast
  then show "spec_trace C (first_state C) (map (traced tk' h val) p) s" using D(5) by (simp only:)
  fix j assume j: "j \<in> invokes h"
  note vj = v [OF invokes_invoked [OF j]]
  show "j \<in> set p \<and> vw_eq (val j) (co_ret (tk' (GetTask (h ! j)))) = Inr True"
    if "GetTask (h ! j) \<in> set (answered h)" using D(6,7) [OF j that] vj(5) by simp
  show "L (fst (GetTask (h ! j))) = Some (call_of (tk' (GetTask (h ! j))) (if j \<in> set p then Some (val j) else None))"
    if "\<not> co_is_returned (tk' (GetTask (h ! j)))" using D(8) [OF j] that vj(1,4) by simp
next
  fix u assume "L u \<noteq> None"
  then obtain q where q: "q \<in> set (invoked h)" "fst q = u" "\<not> co_is_returned (tk q)"
    using lin_stateD(9) [OF ls, of u] by blast
  then have "co_is_returned (tk' q) = co_is_returned (tk q)" using view task_view_sel(4) by metis
  with q show "\<exists>q \<in> set (invoked h). fst q = u \<and> \<not> co_is_returned (tk' q)" by auto
qed

lemma active_call:
  assumes ls: "lin_state C tk h p val s L" and r: "r \<in> set (invoked h)" "\<not> co_is_returned (tk r)"
  shows "\<exists>nm a l. L (fst r) = Some (nm, a, co_ctx (tk r), l)"
proof -
  obtain i where "active_at tk h r i" using active_index [OF lin_stateD(1) [OF ls] r] by blast
  note i = active_atD(1,2) [OF this]
  from lin_stateD(8) [OF ls i(1)] i(2) r(2) show ?thesis by (auto simp: call_of_def)
qed

definition takes_effect ::
    "('a, 's) linearizability_checker \<Rightarrow> string \<Rightarrow> 'a \<Rightarrow> 's \<Rightarrow> value_wrapper option \<Rightarrow> 's \<Rightarrow> value_wrapper option \<Rightarrow> bool" where
  "takes_effect C nm a s l s' l' \<longleftrightarrow> s' = s \<and> l' = l
     \<or> l = None \<and> (\<exists>m v. specification_methods C nm = Some m \<and> m s a = (s', v) \<and> l' = Some v)"

lemma takes_effect_no [simp]: "takes_effect C nm a s l s l"
  by (simp add: takes_effect_def)

lemma takes_effectI:
  "specification_methods C nm = Some m \<Longrightarrow> m s a = (s', v) \<Longrightarrow> takes_effect C nm a s None s' (Some v)"
  by (simp add: takes_effect_def)

text \<open>Any calls that have not returned take effect, one after the other.\<close>

inductive effects ::
    "('a, 's) linearizability_checker \<Rightarrow> 's \<Rightarrow> ('a, 'c) active \<Rightarrow> 's \<Rightarrow> ('a, 'c) active \<Rightarrow> bool"
    for C s L where
  none: "effects C s L s L"
| more: "\<lbrakk>effects C s L s1 L1; L1 u = Some (nm, a, c, None); specification_methods C nm = Some m; m s1 a = (s2, v)\<rbrakk>
    \<Longrightarrow> effects C s L s2 (L1(u \<mapsto> (nm, a, c, Some v)))"

lemma lin_state_effects:
  assumes "effects C s L s' L'" "lin_state C tk h p val s L"
  shows "\<exists>p val. lin_state C tk h p val s' L'"
  using assms
proof (induction rule: effects.induct)
  case (more s1 L1 u nm a c m s2 v)
  then obtain p val where ls: "lin_state C tk h p val s1 L1" by blast
  obtain r where "r \<in> set (invoked h)" "fst r = u" "\<not> co_is_returned (tk r)"
    using lin_stateD(9) [OF ls, of u] more.hyps(2) by auto
  then show ?case using lin_state_effect [OF ls _ _ _ more.hyps(3,4)] more.hyps(2) by blast
qed blast

lemma takes_effect_effects:
  assumes "takes_effect C nm a s l s' l'" "L t = Some (nm, a, c, l)"
  shows "effects C s L s' (L(t \<mapsto> (nm, a, c, l')))"
  using assms(1) [unfolded takes_effect_def]
proof
  assume "s' = s \<and> l' = l"
  moreover from this have "L(t \<mapsto> (nm, a, c, l')) = L" using assms(2) by (auto simp: fun_eq_iff)
  ultimately show ?thesis using effects.none [of C s L] by simp
next
  assume "l = None \<and> (\<exists>m v. specification_methods C nm = Some m \<and> m s a = (s', v) \<and> l' = Some v)"
  then show ?thesis using effects.more [OF effects.none, of L t nm a c C _ s s'] assms(2) by blast
qed

lemma thread_calls_cong:
  assumes "\<And>r. r \<in> set (invoked h) \<Longrightarrow> co_name (tk' r) = co_name (tk r)" "invoked h' = invoked h"
  shows "thread_calls tk' h' = thread_calls tk h"
  using assms by (auto simp: thread_calls_def fun_eq_iff)

section \<open>The proof method\<close>

text \<open>
  \<open>inv\<close> relates the object, the state of the specification, the methods that the threads have
  called, and the calls that have not returned. A step may make calls take effect, its own and, where
  calls help each other, those of other threads; before a call returns it has taken effect with a value
  that the specification's comparison takes for the returned one.
\<close>

locale target_invariant =
  fixes C :: "('a, 's) linearizability_checker"
    and calls :: "('a, 'c) target_call set"
    and allowed :: "nat \<Rightarrow> string list \<Rightarrow> string \<Rightarrow> bool"
    and step :: "('o, 'c) target_step"
    and o0 :: 'o
    and inv :: "'o \<Rightarrow> 's \<Rightarrow> (nat \<Rightarrow> string list) \<Rightarrow> ('a, 'c) active \<Rightarrow> bool"
  assumes typed: "typed_spec C"
    and known: "(nm, a, c) \<in> calls \<Longrightarrow> specification_methods C nm \<noteq> None"
    and inv_start: "inv o0 (first_state C) (\<lambda>_. []) Map.empty"
    and inv_invoke: "\<lbrakk>inv x s N L; L t = None; (nm, a, c) \<in> calls; allowed t (N t) nm\<rbrakk>
      \<Longrightarrow> inv x s (N(t := N t @ [nm])) (L(t \<mapsto> (nm, a, c, None)))"

locale helping_points = target_invariant +
  assumes inv_slice: "\<lbrakk>inv x s N L; L t = Some (nm, a, c, l); step c x = Inr (y, e)\<rbrakk>
      \<Longrightarrow> \<exists>s' L' l'. effects C s L s' L' \<and> L' t = Some (nm, a, c, l')
          \<and> (case e of
               Yield k \<Rightarrow> inv y s' N (L'(t \<mapsto> (nm, a, k, l')))
             | Futex_Wait k _ _ \<Rightarrow> inv y s' N (L'(t \<mapsto> (nm, a, k, l')))
             | Return ret \<Rightarrow> (\<exists>v. l' = Some v \<and> vw_eq v ret = Inr True) \<and> inv y s' N (L'(t := None)))"
begin

lemma run_has_points:
  assumes "target_run calls allowed step o0 x tk h"
  shows "\<exists>p val s L. lin_state C tk h p val s L \<and> inv x s (thread_calls tk h) L"
  using assms
proof (induction rule: target_run.induct)
  case (start tk)
  have "lin_state C tk [] [] (\<lambda>_. vw_default) (first_state C) Map.empty"
    by (rule lin_stateI) (simp_all add: run_ok_def real_time_def invokes_def)
  moreover have "thread_calls tk [] = (\<lambda>_. [])" by (simp add: thread_calls_def fun_eq_iff)
  ultimately show ?case using inv_start by metis
next
  case (invoke x tk h r c)
  then obtain p val s L where ls: "lin_state C tk h p val s L" and inv: "inv x s (thread_calls tk h) L" by blast
  have "L (fst r) = None" using lin_stateD(9) [OF ls, of "fst r"] invoke.hyps(5) by blast
  note inv_invoke [OF inv this invoke.hyps(3,6)]
  moreover have "thread_calls (tk(r := c)) (h @ [Invoke r (int (fst r))])
      = (thread_calls tk h)(fst r := thread_calls tk h (fst r) @ [co_name c])"
  proof
    fix t
    have "map (\<lambda>q. co_name ((tk(r := c)) q)) (filter (\<lambda>q. fst q = t) (invoked h))
        = map (\<lambda>q. co_name (tk q)) (filter (\<lambda>q. fst q = t) (invoked h))"
      using invoke.hyps(2) by auto
    then show "thread_calls (tk(r := c)) (h @ [Invoke r (int (fst r))]) t
        = ((thread_calls tk h)(fst r := thread_calls tk h (fst r) @ [co_name c])) t"
      by (simp add: thread_calls_def)
  qed
  ultimately have "inv x s (thread_calls (tk(r := c)) (h @ [Invoke r (int (fst r))])) (L(fst r \<mapsto> call_of c None))"
    by (simp add: call_of_def)
  with lin_state_invoke [OF ls invoke.hyps(2,4,5)] show ?case by blast
next
  case (yield x tk h r y e k)
  then obtain p val s L where ls: "lin_state C tk h p val s L" and inv: "inv x s (thread_calls tk h) L" by blast
  obtain nm a l where L: "L (fst r) = Some (nm, a, co_ctx (tk r), l)"
    using active_call [OF ls yield.hyps(2,3)] by blast
  from inv_slice [OF inv L yield.hyps(4)] yield.hyps(5) obtain s' L' l' where
    eff: "effects C s L s' L'" and L': "L' (fst r) = Some (nm, a, co_ctx (tk r), l')"
    and inv': "inv y s' (thread_calls tk h) (L'(fst r \<mapsto> (nm, a, k, l')))" by auto
  obtain p' val' where ls': "lin_state C tk h p' val' s' L'" using lin_state_effects [OF eff ls] by blast
  note lin_state_yield [OF ls' yield.hyps(2,3) L', of k]
  moreover have "thread_calls (tk(r := (tk r)\<lparr>co_ctx := k\<rparr>)) h = thread_calls tk h"
    by (rule thread_calls_cong) simp_all
  ultimately show ?case using inv' by metis
next
  case (respond x tk h r y v)
  then obtain p val s L where ls: "lin_state C tk h p val s L" and inv: "inv x s (thread_calls tk h) L" by blast
  obtain nm a l where L: "L (fst r) = Some (nm, a, co_ctx (tk r), l)"
    using active_call [OF ls respond.hyps(2,3)] by blast
  from inv_slice [OF inv L respond.hyps(4)] obtain s' L' u where
    eff: "effects C s L s' L'" and L': "L' (fst r) = Some (nm, a, co_ctx (tk r), Some u)"
    and u: "vw_eq u v = Inr True" and inv': "inv y s' (thread_calls tk h) (L'(fst r := None))" by auto
  obtain p' val' where ls': "lin_state C tk h p' val' s' L'" using lin_state_effects [OF eff ls] by blast
  note lin_state_respond [OF ls' respond.hyps(2,3) L' u, of "int (fst r)"]
  moreover have "thread_calls (tk(r := (tk r)\<lparr>co_ret := v, co_is_returned := True\<rparr>)) (h @ [Response r v (int (fst r))])
      = thread_calls tk h"
    by (rule thread_calls_cong) simp_all
  ultimately show ?case using inv' by metis
next
  case (silent x tk h tk')
  then obtain p val s L where ls: "lin_state C tk h p val s L" and inv: "inv x s (thread_calls tk h) L" by blast
  have "thread_calls tk' h = thread_calls tk h"
  proof (rule thread_calls_cong)
    show "co_name (tk' r) = co_name (tk r)" if "r \<in> set (invoked h)" for r
      using silent.hyps(2) that task_view_sel(1) by metis
  qed simp
  then show ?case using inv lin_state_silent [OF ls silent.hyps(2)] by metis
qed

text \<open>Every history of the object is linearizable, under any scheduler.\<close>

lemma run_linearizable:
  assumes "target_run calls allowed step o0 x tk h"
  shows "linearizable C tk h"
proof -
  obtain p val s L where "lin_state C tk h p val s L" using run_has_points [OF assms] by blast
  then show ?thesis by (rule lin_state_linearizable)
qed

lemma run_known:
  assumes "target_run calls allowed step o0 x tk h"
  shows "\<forall>r \<in> set (invoked h). specification_methods C (co_name (tk r)) \<noteq> None"
  using assms
proof (induction rule: target_run.induct)
  case (invoke x tk h r c)
  then show ?case using known [OF invoke.hyps(3)] by auto
next
  case (silent x tk h tk')
  have "co_name (tk' r) = co_name (tk r)" if "r \<in> set (invoked h)" for r
    using silent.hyps(2) that task_view_sel(1) by metis
  then show ?case using silent.IH by auto
qed auto

text \<open>The checkers can be asked about every history of the object, and accept it.\<close>

lemma run_checkable:
  assumes "target_run calls allowed step o0 x tk h"
  shows "checkable C tk h"
proof -
  obtain p val s L where "lin_state C tk h p val s L" using run_has_points [OF assms] by blast
  then show ?thesis using run_known [OF assms] by (intro lin_state_checkable [OF _ typed])
qed

lemma run_accepted:
  "target_run calls allowed step o0 x tk h \<Longrightarrow> Check_recursive C tk h = Inr True"
  using recursive_checker.Check_verdict [OF run_checkable] run_linearizable by simp

text \<open>When the invariant lets every call make its next step, no run fails.\<close>

lemma run_never_fails:
  assumes "\<And>x s N L t nm a c l. inv x s N L \<Longrightarrow> L t = Some (nm, a, c, l) \<Longrightarrow> \<exists>y e. step c x = Inr (y, e)"
  shows "never_fails calls allowed step o0"
  unfolding never_fails_def
proof (intro allI impI)
  fix x tk h r assume run: "target_run calls allowed step o0 x tk h" and r: "r \<in> set (invoked h)" "\<not> co_is_returned (tk r)"
  obtain p val s L where ls: "lin_state C tk h p val s L" "inv x s (thread_calls tk h) L"
    using run_has_points [OF run] by blast
  from active_call [OF ls(1) r] assms [OF ls(2)] show "\<exists>y e. step (co_ctx (tk r)) x = Inr (y, e)" by blast
qed

end

text \<open>In most targets a call takes effect in a slice of its own.\<close>

locale linearization_points = target_invariant +
  assumes inv_step: "\<lbrakk>inv x s N L; L t = Some (nm, a, c, l); step c x = Inr (y, e)\<rbrakk>
      \<Longrightarrow> \<exists>s' l'. takes_effect C nm a s l s' l'
          \<and> (case e of
               Yield k \<Rightarrow> inv y s' N (L(t \<mapsto> (nm, a, k, l')))
             | Futex_Wait k _ _ \<Rightarrow> inv y s' N (L(t \<mapsto> (nm, a, k, l')))
             | Return ret \<Rightarrow> (\<exists>v. l' = Some v \<and> vw_eq v ret = Inr True) \<and> inv y s' N (L(t := None)))"

lemma own_points_help:
  assumes "linearization_points C calls allowed step o0 I"
  shows "helping_points C calls allowed step o0 I"
proof (intro helping_points.intro helping_points_axioms.intro)
  show "target_invariant C calls allowed o0 I" by (rule linearization_points.axioms(1) [OF assms])
  fix x s N L t nm a c l y e
  assume "I x s N L" and L: "L t = Some (nm, a, c, l)" and "step c x = Inr (y, e)"
  from linearization_points.inv_step [OF assms this] obtain s' l' where eff: "takes_effect C nm a s l s' l'" and e: "case e of
      Yield k \<Rightarrow> I y s' N (L(t \<mapsto> (nm, a, k, l')))
    | Futex_Wait k _ _ \<Rightarrow> I y s' N (L(t \<mapsto> (nm, a, k, l')))
    | Return ret \<Rightarrow> (\<exists>v. l' = Some v \<and> vw_eq v ret = Inr True) \<and> I y s' N (L(t := None))" by blast
  let ?L = "L(t \<mapsto> (nm, a, c, l'))"
  show "\<exists>s' L' l'. effects C s L s' L' \<and> L' t = Some (nm, a, c, l')
      \<and> (case e of
           Yield k \<Rightarrow> I y s' N (L'(t \<mapsto> (nm, a, k, l')))
         | Futex_Wait k _ _ \<Rightarrow> I y s' N (L'(t \<mapsto> (nm, a, k, l')))
         | Return ret \<Rightarrow> (\<exists>v. l' = Some v \<and> vw_eq v ret = Inr True) \<and> I y s' N (L'(t := None)))"
    using takes_effect_effects [OF eff, of L t c] L e by (intro exI [of _ s'] exI [of _ ?L] exI [of _ l']) (simp cong: slice_end.case_cong)
qed

sublocale linearization_points \<subseteq> helping_points
  by (rule own_points_help [OF linearization_points_axioms])

end
