(* ===== verification/Round_Targets.thy ===== *)
theory Round_Targets
  imports Target_Machine Round_Histories
begin

text \<open>
  The targets under the runtime: a round that \<open>RunRound\<close> generates is a run of the target in the
  sense of \<open>Target_Machine\<close>, for every strategy that meets the contract. So what holds of all runs
  of a target holds of the histories that the runtime checks, and a target whose linearization
  points are known is never reported.
\<close>

declare split_paired_All [simp del] split_paired_Ex [simp del]

section \<open>One iteration, in full\<close>

lemma schedule_step_Inr:
  assumes "schedule_step pick finish E st h = Inr (b, st', h')"
  obtains t s1 s2 where "pick st = Inr (t, s1)" "resume_task E (twm_task t) s1 = Inr s2"
    "valid_slot s2 (twm_task t)" "b = co_is_returned (task_at s2 (twm_task t))"
    "if b then finish t s2 = Inr st' else st' = s2"
    "snd h' = (if twm_is_new t then snd h @ [Invoke (twm_task t) (int (twm_thread_id t))] else snd h)
       @ (if b then [Response (twm_task t) (co_ret (task_at s2 (twm_task t))) (int (twm_thread_id t))] else [])"
proof -
  from assms obtain t s1 where n: "pick st = Inr (t, s1)" by (auto simp: schedule_step_def elim!: res_bind_Inr_E)
  let ?seq = "if twm_is_new t then snd h @ [Invoke (twm_task t) (int (twm_thread_id t))] else snd h"
  from assms n obtain s2 where res: "resume_task E (twm_task t) s1 = Inr s2"
    and rest: "res_bind (get_task s2 (twm_task t)) (\<lambda>c.
       if co_is_returned c then
         res_bind (finish t s2) (\<lambda>st. res_bind (GetRetVal c) (\<lambda>v.
         Inr (True, st, fst h @ [twm_task t], ?seq @ [Response (twm_task t) v (int (twm_thread_id t))])))
       else Inr (False, s2, fst h @ [twm_task t], ?seq)) = Inr (b, st', h')"
    by (auto simp: schedule_step_def Let_def elim!: res_bind_Inr_E)
  then obtain c where g: "get_task s2 (twm_task t) = Inr c" by (auto elim!: res_bind_Inr_E)
  then have v: "valid_slot s2 (twm_task t)" "c = task_at s2 (twm_task t)" by (auto simp: get_task_Inr_iff)
  show thesis
  proof (cases "co_is_returned c")
    case True
    with rest g have "finish t s2 = Inr st'" "b" "snd h' = ?seq @ [Response (twm_task t) (co_ret c) (int (twm_thread_id t))]"
      by (auto simp: GetRetVal_def elim!: res_bind_Inr_E)
    then show thesis using True v by (intro that [OF n res]) simp_all
  next
    case False
    with rest g have "st' = s2" "\<not> b" "snd h' = ?seq" by auto
    then show thesis using False v by (intro that [OF n res]) simp_all
  qed
qed

section \<open>What links a round to a run of its target\<close>

text \<open>In every thread all tasks but the last have returned.\<close>

definition in_order :: "('o, 'a, 'c, 'v, 'x) base_strategy_scheme \<Rightarrow> bool" where
  "in_order st \<longleftrightarrow> (\<forall>r. valid_slot st r \<longrightarrow> Suc (snd r) < length (threads st ! fst r) \<longrightarrow> co_is_returned (task_at st r))"

definition busy :: "('o, 'a, 'c, 'v, 'x) base_strategy_scheme \<Rightarrow> nat \<Rightarrow> bool" where
  "busy st t \<longleftrightarrow> t < length (threads st) \<and> threads st ! t \<noteq> [] \<and> \<not> co_is_returned (last (threads st ! t))"

text \<open>
  The constructors make calls of the target, and generating arguments leaves the target alone.
\<close>

definition builders_ok :: "('a, 'c) target_call set \<Rightarrow> ('o, 'a, 'c) task_builder set \<Rightarrow> bool" where
  "builders_ok calls B \<longleftrightarrow> (\<forall>b \<in> B. \<forall>t w a w' k. tb_gen b t w = (a, w', k)
     \<longrightarrow> (tb_name b, a, tb_func b a) \<in> calls \<and> w_state w' = w_state w)"

lemma builders_ok_Build:
  assumes "builders_ok calls B" "b \<in> B" "Build b w t i = (w', c)"
  shows "(co_name c, co_args c, co_ctx c) \<in> calls" "w_state w' = w_state w" "co_name c = tb_name b"
proof -
  obtain a w1 k where g: "tb_gen b t w = (a, w1, k)" by (cases "tb_gen b t w") auto
  with assms(3) have "w' = w1" "c = (case k of None \<Rightarrow> Coro_New (tb_func b) a (tb_name b) i
      | Some x \<Rightarrow> SetToken x (Coro_New (tb_func b) a (tb_name b) i))"
    by (auto simp: Build_def Let_def)
  moreover have "(tb_name b, a, tb_func b a) \<in> calls \<and> w_state w1 = w_state w"
    using assms(1,2) g unfolding builders_ok_def by blast
  ultimately show "(co_name c, co_args c, co_ctx c) \<in> calls" "w_state w' = w_state w" "co_name c = tb_name b"
    by (auto simp: Coro_New_def SetToken_def split: option.splits)
qed

text \<open>\<open>vinv\<close> is what the state of the verifier knows of the calls of the threads.\<close>

definition target_state ::
    "('a, 'c) target_call set \<Rightarrow> (nat \<Rightarrow> string list \<Rightarrow> string \<Rightarrow> bool) \<Rightarrow> ('o, 'c) target_step \<Rightarrow> 'o
      \<Rightarrow> ('v \<Rightarrow> (nat \<Rightarrow> string list) \<Rightarrow> (nat \<Rightarrow> bool) \<Rightarrow> bool)
      \<Rightarrow> ('o, 'a, 'c, 'v, 'x) base_strategy_scheme \<Rightarrow> seq_history \<Rightarrow> bool" where
  "target_state calls allowed step o0 vinv st h \<longleftrightarrow> run_inv st h \<and> in_order st
     \<and> target_run calls allowed step o0 (w_state (st_world st)) (store st) h
     \<and> vinv (sched_checker st) (thread_calls (store st) h) (busy st)"

lemma task_view_drop: "task_view (drop_futex c) = task_view c"
  by (simp add: task_view_def)

lemma drop_futex_view: "drop_futex c = drop_futex c' \<Longrightarrow> task_view c = task_view c'"
  by (metis task_view_drop)

text \<open>One resume of a task is a slice of its call.\<close>

lemma resume_target:
  assumes run: "target_run calls allowed step o0 (w_state (st_world st)) (store st) h"
    and body: "implements (env_body E) step" and safe: "never_fails calls allowed step o0"
    and r: "r \<in> set (invoked h)" "\<not> co_is_returned (task_at st r)" and res: "resume_task E r st = Inr st'"
  shows "target_run calls allowed step o0 (w_state (st_world st')) (store st')
    (h @ (if co_is_returned (task_at st' r) then [Response r (co_ret (task_at st' r)) (int (fst r))] else []))"
    "\<And>q. co_name (store st' q) = co_name (store st q)"
proof -
  have nr: "\<not> co_is_returned (store st r)" using r(2) by (simp add: store_def)
  from res obtain w c where v: "valid_slot st r" and R: "Resume (env_body E) (st_world st) (task_at st r) = Inr (w, c)"
    and st': "st' = set_task r c (st\<lparr>st_world := w\<rparr>)" by (auto simp: resume_task_Inr_iff)
  have v': "valid_slot (st\<lparr>st_world := w\<rparr>) r" using v by (simp add: valid_slot_def)
  have store: "store st' = (store st)(r := c)"
    using task_at_set_task [OF v'] by (auto simp: st' store_def fun_eq_iff)
  have at: "task_at st' r = c" "st_world st' = w" using task_at_set_task [OF v'] by (auto simp: st')
  obtain y e where s: "step (co_ctx (task_at st r)) (w_state (st_world st)) = Inr (y, e)"
    using safe run r nr unfolding never_fails_def store_def by blast
  then have b: "env_body E (co_ctx (task_at st r)) (st_world st) = ((st_world st)\<lparr>w_state := y\<rparr>, e)"
    using body unfolding implements_def by blast
  have s': "step (co_ctx (store st r)) (w_state (st_world st)) = Inr (y, e)" using s by (simp add: store_def)
  show "target_run calls allowed step o0 (w_state (st_world st')) (store st')
    (h @ (if co_is_returned (task_at st' r) then [Response r (co_ret (task_at st' r)) (int (fst r))] else []))"
  proof (cases e)
    case (Return x)
    with R b r(2) have c: "c = (store st r)\<lparr>co_ret := x, co_is_returned := True\<rparr>" "w_state w = y"
      by (auto simp: Resume_def store_def)
    from target_run.respond [OF run r(1) nr s' [unfolded Return]] c show ?thesis
      by (simp add: at store)
  next
    case (Yield k)
    with R b r(2) have c: "c = (store st r)\<lparr>co_ctx := k\<rparr>" "w_state w = y" by (auto simp: Resume_def store_def)
    from target_run.yield [OF run r(1) nr s', of k] c nr Yield show ?thesis
      by (simp add: at store)
  next
    case (Futex_Wait k a x)
    with R b r(2) have c: "c = SetBlocked a x ((store st r)\<lparr>co_ctx := k\<rparr>)" "w_state w = y" by (auto simp: Resume_def store_def)
    have "target_run calls allowed step o0 y ((store st)(r := (store st r)\<lparr>co_ctx := k\<rparr>)) h"
      using target_run.yield [OF run r(1) nr s', of k] Futex_Wait by auto
    then have "target_run calls allowed step o0 y (store st') h"
      by (rule target_run.silent) (simp add: store c SetBlocked_def task_view_def)
    with c nr show ?thesis by (simp add: at SetBlocked_def)
  qed
  show "co_name (store st' q) = co_name (store st q)" for q
    using Resume_frame [OF R] by (simp add: store store_def)
qed

section \<open>What Next does, in terms of tasks\<close>

lemma next_effect_threads:
  assumes e: "next_effect E st t st'"
  obtains c where "twm_thread_id t < length (threads st)" "length (threads st') = length (threads st)"
    "twm_task t = (twm_thread_id t, length (threads st ! twm_thread_id t) - (if twm_is_new t then 0 else 1))"
    "\<forall>u < length (threads st). map drop_futex (threads st' ! u)
      = map drop_futex (threads st ! u) @ (if twm_is_new t \<and> u = twm_thread_id t then [c] else [])"
    "twm_is_new t \<longrightarrow> \<not> co_is_returned c \<and> (\<exists>b \<in> set (constructors st).
        Build b (st_world st) (twm_thread_id t) (new_task_id st) = (st_world st', c))"
    "busy st (twm_thread_id t) = (\<not> twm_is_new t)"
proof -
  obtain th i where t: "twm_task t = (th, i)" by fastforce
  have th: "twm_thread_id t = th" "th < length (threads st)" using e by (auto simp: next_effect_def t Let_def)
  obtain c where V: "tasks_view st' = (if twm_is_new t then (tasks_view st)[th := tasks_view st ! th @ [c]] else tasks_view st)"
    and i: "if twm_is_new t then i = length (threads st ! th) else Suc i = length (threads st ! th)"
    and new: "twm_is_new t \<Longrightarrow> \<not> co_is_returned c \<and> (\<exists>b \<in> set (constructors st).
        Build b (st_world st) th (new_task_id st) = (st_world st', c))"
    and last: "twm_is_new t \<Longrightarrow> threads st ! th = [] \<or> co_is_returned (last (threads st ! th))"
    and act: "\<not> twm_is_new t \<Longrightarrow> \<not> co_is_returned (task_at st (th, i))"
    using e t th by (cases "twm_is_new t") (auto simp: next_effect_def Let_def)
  have len: "length (threads st') = length (threads st)"
    using arg_cong [OF V, of length] by (simp add: tasks_view_def split: if_splits)
  have "map drop_futex (threads st' ! u)
      = map drop_futex (threads st ! u) @ (if twm_is_new t \<and> u = th then [c] else [])"
    if "u < length (threads st)" for u
    using arg_cong [OF V, of "\<lambda>x. x ! u"] len that th(2)
    by (auto simp: tasks_view_def nth_list_update split: if_splits)
  moreover have "busy st th = (\<not> twm_is_new t)"
  proof (cases "twm_is_new t")
    case False
    then have "i = length (threads st ! th) - 1" "threads st ! th \<noteq> []" using i by auto
    then show ?thesis using act False th by (simp add: busy_def last_conv_nth)
  qed (use last in \<open>auto simp: busy_def\<close>)
  ultimately show thesis using that [of c] th len new i t by auto
qed

lemma next_effect_view:
  "next_effect E st t st' \<Longrightarrow> valid_slot st r \<Longrightarrow> task_view (store st' r) = task_view (store st r)"
  unfolding store_def by (intro drop_futex_view next_effect_slots(5))

lemma next_effect_built:
  assumes e: "next_effect E st t st'" and n: "twm_is_new t"
  shows "\<exists>b \<in> set (constructors st). \<exists>c. Build b (st_world st) (twm_thread_id t) (new_task_id st) = (st_world st', c)
       \<and> task_view (store st' (twm_task t)) = task_view c \<and> \<not> co_is_returned c"
proof -
  let ?th = "twm_thread_id t"
  obtain c where c: "?th < length (threads st)" "length (threads st') = length (threads st)"
    "twm_task t = (?th, length (threads st ! ?th) - (if twm_is_new t then 0 else 1))"
    "\<forall>u < length (threads st). map drop_futex (threads st' ! u)
      = map drop_futex (threads st ! u) @ (if twm_is_new t \<and> u = ?th then [c] else [])"
    "twm_is_new t \<longrightarrow> \<not> co_is_returned c \<and> (\<exists>b \<in> set (constructors st).
        Build b (st_world st) ?th (new_task_id st) = (st_world st', c))"
    by (rule next_effect_threads [OF e])
  have m: "map drop_futex (threads st' ! ?th) = map drop_futex (threads st ! ?th) @ [c]" using c(1,4) n by simp
  have "drop_futex (threads st' ! ?th ! length (threads st ! ?th)) = c"
    using arg_cong [OF m, of "\<lambda>x. x ! length (threads st ! ?th)"] arg_cong [OF m, of length] by (simp add: nth_append)
  then have "task_view (store st' (twm_task t)) = task_view c"
    using task_view_drop [of "threads st' ! ?th ! length (threads st ! ?th)"] n by (simp add: store_def c(3))
  then show ?thesis using c(5) n by auto
qed

lemma next_effect_last:
  assumes e: "next_effect E st t st'"
  shows "Suc (snd (twm_task t)) = length (threads st' ! twm_thread_id t)"
proof -
  let ?th = "twm_thread_id t"
  obtain c where c: "?th < length (threads st)"
    "twm_task t = (?th, length (threads st ! ?th) - (if twm_is_new t then 0 else 1))"
    "\<forall>u < length (threads st). map drop_futex (threads st' ! u)
      = map drop_futex (threads st ! u) @ (if twm_is_new t \<and> u = ?th then [c] else [])"
    "busy st ?th = (\<not> twm_is_new t)"
    by (rule next_effect_threads [OF e])
  have "length (threads st' ! ?th) = length (threads st ! ?th) + (if twm_is_new t then 1 else 0)"
    using arg_cong [OF c(3) [rule_format, OF c(1)], of length] by (simp split: if_splits)
  moreover have "\<not> twm_is_new t \<Longrightarrow> threads st ! ?th \<noteq> []" using c(4) by (auto simp: busy_def)
  ultimately show ?thesis using c(2) by auto
qed

text \<open>All other tasks of the thread of a new task have returned.\<close>

lemma in_order_returned:
  assumes "in_order st" "\<not> busy st (fst r)" "valid_slot st r"
  shows "co_is_returned (task_at st r)"
proof (cases "Suc (snd r) < length (threads st ! fst r)")
  case False
  then have "snd r = length (threads st ! fst r) - 1" "threads st ! fst r \<noteq> []" "fst r < length (threads st)"
    using assms(3) by (auto simp: valid_slot_def)
  then show ?thesis using assms(2) by (simp add: busy_def last_conv_nth)
qed (use assms(1,3) in \<open>simp add: in_order_def\<close>)

lemma next_effect_in_order:
  assumes e: "next_effect E st t st'" and o: "in_order st"
  shows "in_order st'" "busy st' = (if twm_is_new t then (busy st)(twm_thread_id t := True) else busy st)"
proof -
  let ?th = "twm_thread_id t"
  obtain c where c: "?th < length (threads st)" "length (threads st') = length (threads st)"
    "twm_task t = (?th, length (threads st ! ?th) - (if twm_is_new t then 0 else 1))"
    "\<forall>u < length (threads st). map drop_futex (threads st' ! u)
      = map drop_futex (threads st ! u) @ (if twm_is_new t \<and> u = ?th then [c] else [])"
    "twm_is_new t \<longrightarrow> \<not> co_is_returned c \<and> (\<exists>b \<in> set (constructors st).
        Build b (st_world st) ?th (new_task_id st) = (st_world st', c))" "busy st ?th = (\<not> twm_is_new t)"
    by (rule next_effect_threads [OF e])
  have thl: "length (threads st' ! u) = length (threads st ! u) + (if twm_is_new t \<and> u = ?th then 1 else 0)"
    if "u < length (threads st)" for u
    using arg_cong [OF c(4) [rule_format, OF that], of length] by (simp split: if_splits)
  have ret: "co_is_returned (task_at st' r) = co_is_returned (task_at st r)" if "valid_slot st r" for r
    using task_view_sel(4) [OF next_effect_view [OF e that]] by (simp add: store_def)
  show "in_order st'"
    unfolding in_order_def
  proof (intro allI impI)
    fix r assume r: "valid_slot st' r" "Suc (snd r) < length (threads st' ! fst r)"
    have f: "fst r < length (threads st)" using r(1) c(2) by (simp add: valid_slot_def)
    have vr: "valid_slot st r" using r(2) thl [OF f] f by (simp add: valid_slot_def split: if_splits)
    show "co_is_returned (task_at st' r)"
    proof (cases "twm_is_new t \<and> fst r = ?th")
      case True
      then show ?thesis using in_order_returned [OF o _ vr] c(6) ret [OF vr] by simp
    next
      case False
      then have "Suc (snd r) < length (threads st ! fst r)" using r(2) thl [OF f] by auto
      then show ?thesis using o vr ret [OF vr] by (simp add: in_order_def)
    qed
  qed
  have same: "busy st' u = busy st u" if u: "\<not> (twm_is_new t \<and> u = ?th)" for u
  proof (cases "u < length (threads st) \<and> threads st ! u \<noteq> []")
    case True
    then have "valid_slot st (u, length (threads st ! u) - 1)" by (simp add: valid_slot_def)
    moreover have "length (threads st' ! u) = length (threads st ! u)" "threads st' ! u \<noteq> []"
      using thl [of u] u True by auto
    ultimately show ?thesis using ret [of "(u, length (threads st ! u) - 1)"] True c(2)
      by (simp add: busy_def last_conv_nth)
  next
    case False
    then show ?thesis using thl [of u] u c(2) by (auto simp: busy_def)
  qed
  have "busy st' ?th" if n: "twm_is_new t"
  proof -
    have m: "map drop_futex (threads st' ! ?th) = map drop_futex (threads st ! ?th) @ [c]" using c(1,4) n by simp
    then have ne: "threads st' ! ?th \<noteq> []" by auto
    have "drop_futex (last (threads st' ! ?th)) = c" using arg_cong [OF m, of last] ne by (simp add: last_map)
    then have "\<not> co_is_returned (last (threads st' ! ?th))" using c(5) n drop_futex_sel(1) by metis
    then show ?thesis using ne c(1,2) by (simp add: busy_def)
  qed
  then show "busy st' = (if twm_is_new t then (busy st)(?th := True) else busy st)"
    using same by (auto simp: fun_eq_iff)
qed

section \<open>Rounds are runs of the target\<close>

definition task_name :: "('o, 'a, 'c, 'v, 'x) base_strategy_scheme \<Rightarrow> slot \<Rightarrow> string" where
  "task_name st r = co_name (task_at st r)"

text \<open>The history after the task is chosen.\<close>

definition with_invoke :: "task_with_meta_data \<Rightarrow> seq_history \<Rightarrow> seq_history" where
  "with_invoke t h = (if twm_is_new t then h @ [Invoke (twm_task t) (int (twm_thread_id t))] else h)"

lemma target_Next:
  assumes run: "target_run calls allowed step o0 (w_state (st_world st)) (store st) h" and o: "in_order st"
    and inv: "run_inv st h" and e: "next_effect E st t s1" and B: "builders_ok calls (set (constructors st))"
    and al: "twm_is_new t \<Longrightarrow> allowed (twm_thread_id t) (thread_calls (store st) h (twm_thread_id t)) (task_name s1 (twm_task t))"
  shows "target_run calls allowed step o0 (w_state (st_world s1)) (store s1) (with_invoke t h)"
    "thread_calls (store s1) (with_invoke t h) = (if twm_is_new t then (thread_calls (store st) h)(twm_thread_id t :=
       thread_calls (store st) h (twm_thread_id t) @ [task_name s1 (twm_task t)]) else thread_calls (store st) h)"
proof -
  note sl = next_effect_slots [OF e]
  have valid: "valid_slot st r" if "r \<in> set (invoked h)" for r using inv that by (simp add: run_inv_def)
  have view: "task_view (store s1 r) = task_view (store st r)" if "r \<in> set (invoked h)" for r
    using next_effect_view [OF e valid [OF that]] .
  have names: "co_name (store s1 r) = co_name (store st r)" if "r \<in> set (invoked h)" for r
    using task_view_sel(1) [OF view [OF that]] .
  have "target_run calls allowed step o0 (w_state (st_world s1)) (store s1) (with_invoke t h)
    \<and> thread_calls (store s1) (with_invoke t h) = (if twm_is_new t then (thread_calls (store st) h)(twm_thread_id t :=
       thread_calls (store st) h (twm_thread_id t) @ [task_name s1 (twm_task t)]) else thread_calls (store st) h)"
  proof (cases "twm_is_new t")
    case True
    let ?r = "twm_task t"
    obtain b c where b: "b \<in> set (constructors st)" "Build b (st_world st) (twm_thread_id t) (new_task_id st) = (st_world s1, c)"
      "task_view (store s1 ?r) = task_view c" "\<not> co_is_returned c" using next_effect_built [OF e True] by blast
    note built = builders_ok_Build [OF B b(1,2)]
    have nm: "task_name s1 ?r = co_name c" using task_view_sel(1) [OF b(3)] by (simp add: task_name_def store_def)
    have "?r \<notin> set (invoked h)" using sl(3) [OF True] valid by blast
    moreover have "\<not> busy st (fst ?r)"
      using next_effect_threads [OF e, of "\<not> busy st (twm_thread_id t)"] True sl(1) by auto
    then have "\<forall>q \<in> set (invoked h). fst q = fst ?r \<longrightarrow> co_is_returned (store st q)"
      using in_order_returned [OF o] valid by (auto simp: store_def)
    ultimately have "target_run calls allowed step o0 (w_state (st_world st)) ((store st)(?r := c)) (h @ [Invoke ?r (int (fst ?r))])"
      using target_run.invoke [OF run _ built(1) b(4), of ?r] al [OF True] nm sl(1) by simp
    then have "target_run calls allowed step o0 (w_state (st_world st)) (store s1) (h @ [Invoke ?r (int (fst ?r))])"
    proof (rule target_run.silent, intro ballI)
      fix q assume "q \<in> set (invoked (h @ [Invoke ?r (int (fst ?r))]))"
      then show "task_view (store s1 q) = task_view (((store st)(?r := c)) q)"
        using view [of q] b(3) by (cases "q = ?r") auto
    qed
    moreover have "thread_calls (store s1) (h @ [Invoke ?r (int (fst ?r))]) u
        = thread_calls (store st) h u @ (if u = twm_thread_id t then [task_name s1 ?r] else [])" for u
      using names sl(1) by (auto simp: thread_calls_def task_name_def store_def)
    ultimately show ?thesis using True sl(1) built(2) by (auto simp: with_invoke_def fun_eq_iff)
  next
    case False
    then have "st_world s1 = st_world st" using e by (simp add: next_effect_def Let_def)
    then have "target_run calls allowed step o0 (w_state (st_world s1)) (store s1) h"
      using target_run.silent [OF run] view by simp
    then show ?thesis using False names thread_calls_cong [of h "store s1" "store st" h] by (simp add: with_invoke_def)
  qed
  then show "target_run calls allowed step o0 (w_state (st_world s1)) (store s1) (with_invoke t h)"
    "thread_calls (store s1) (with_invoke t h) = (if twm_is_new t then (thread_calls (store st) h)(twm_thread_id t :=
       thread_calls (store st) h (twm_thread_id t) @ [task_name s1 (twm_task t)]) else thread_calls (store st) h)" by blast+
qed

lemma resume_in_order:
  assumes "resume_task E r st = Inr st'" "in_order st" "Suc (snd r) = length (threads st ! fst r)"
  shows "in_order st'" "busy st' = (busy st)(fst r := \<not> co_is_returned (task_at st' r))"
proof -
  have v: "valid_slot st r" using assms(1) by (auto simp: resume_task_Inr_iff)
  note fr = resume_task_frame(8) [OF assms(1)] and id = idents_shape [OF resume_task_frame(1) [OF assms(1)]]
  show "in_order st'"
    unfolding in_order_def
  proof (intro allI impI)
    fix q assume q: "valid_slot st' q" "Suc (snd q) < length (threads st' ! fst q)"
    have f: "fst q < length (threads st)" using q(1) id(1) by (simp add: valid_slot_def)
    have "q \<noteq> r" using q(2) assms(3) id(2) [OF f] by auto
    then show "co_is_returned (task_at st' q)" using fr [of q] assms(2) q id(2) [OF f] id(3) by (simp add: in_order_def)
  qed
  have last: "last (threads x ! t) = task_at x (t, length (threads x ! t) - 1)" if "threads x ! t \<noteq> []"
    for x :: "('o, 'b, 'c, 'd, 'e) base_strategy_scheme" and t using that by (simp add: last_conv_nth)
  show "busy st' = (busy st)(fst r := \<not> co_is_returned (task_at st' r))"
  proof
    fix u
    show "busy st' u = ((busy st)(fst r := \<not> co_is_returned (task_at st' r))) u"
    proof (cases "u < length (threads st) \<and> threads st ! u \<noteq> []")
      case True
      then have len: "length (threads st' ! u) = length (threads st ! u)" "threads st' ! u \<noteq> []"
        using id(2) [of u] by auto
      show ?thesis
      proof (cases "u = fst r")
        case False
        then have "(u, length (threads st ! u) - 1) \<noteq> r" by auto
        from fr [OF this] show ?thesis using False True len id(1) by (simp add: busy_def last)
      next
        case eq: True
        then have "snd r = length (threads st ! u) - 1" using assms(3) by simp
        then show ?thesis using eq True len id(1) by (simp add: busy_def last)
      qed
    next
      case False
      then have "u \<noteq> fst r" using v by (auto simp: valid_slot_def)
      moreover have "\<not> busy st u" "\<not> busy st' u" using False id(1) id(2) [of u] by (auto simp: busy_def)
      ultimately show ?thesis by simp
    qed
  qed
qed

section \<open>Rules of use\<close>

text \<open>
  What a strategy and its verifier promise about the calls: a new task is one that the rules of use
  let the thread make. The round has \<open>n\<close> threads, and \<open>vinv\<close> is what the state of the verifier says of the calls so far.
\<close>

locale target_strategy = scheduling_strategy E Next NextSchedule ok
  for E :: "('o, 'c, 'v, 'g) runtime_env"
    and Next :: "('o, 'a, 'c, 'v, 'x) base_strategy_scheme
      \<Rightarrow> (task_with_meta_data \<times> ('o, 'a, 'c, 'v, 'x) base_strategy_scheme) res"
    and NextSchedule :: "('o, 'a, 'c, 'v, 'x) base_strategy_scheme
      \<Rightarrow> (task_with_meta_data \<times> ('o, 'a, 'c, 'v, 'x) base_strategy_scheme) res"
    and ok :: bool +
  fixes n :: nat
    and allowed :: "nat \<Rightarrow> string list \<Rightarrow> string \<Rightarrow> bool"
    and vinv :: "'v \<Rightarrow> (nat \<Rightarrow> string list) \<Rightarrow> (nat \<Rightarrow> bool) \<Rightarrow> bool"
  assumes Next_allowed: "\<lbrakk>ok; Next st = Inr (t, st'); twm_is_new t; vinv (sched_checker st) N A;
      \<not> A (twm_thread_id t); th = twm_thread_id t; th < n; nm = task_name st' (twm_task t)\<rbrakk>
      \<Longrightarrow> allowed th (N th) nm \<and> vinv (sched_checker st') (N(th := N th @ [nm])) (A(th := True))"
    and Finish_allowed: "\<lbrakk>ok; vinv v N A; A th; N th \<noteq> [];
      OnFinished (env_verifier E) \<lparr>ct_name = last (N th), ct_is_new = isnew, ct_thread_id = th\<rparr> v = Inr v'\<rbrakk>
      \<Longrightarrow> vinv v' N (A(th := False))"
begin

lemma target_step:
  assumes ok: ok and body: "implements (env_body E) step" and safe: "never_fails calls allowed step o0"
    and B: "builders_ok calls (set (constructors st))"
    and ts: "target_state calls allowed step o0 vinv st (snd h)"
    and n: "length (threads st) = n"
    and s: "schedule_step Next (OnVerifierTaskFinish E) E st h = Inr (b, st1, h1)"
  shows "target_state calls allowed step o0 vinv st1 (snd h1) \<and> set (constructors st1) = set (constructors st)
    \<and> length (threads st1) = n"
proof -
  obtain t s1 s2 where nx: "Next st = Inr (t, s1)" and res: "resume_task E (twm_task t) s1 = Inr s2"
    and v2: "valid_slot s2 (twm_task t)" and b: "b = co_is_returned (task_at s2 (twm_task t))"
    and fin: "if b then OnVerifierTaskFinish E t s2 = Inr st1 else st1 = s2"
    and h1: "snd h1 = (if twm_is_new t then snd h @ [Invoke (twm_task t) (int (twm_thread_id t))] else snd h)
       @ (if b then [Response (twm_task t) (co_ret (task_at s2 (twm_task t))) (int (twm_thread_id t))] else [])"
    by (rule schedule_step_Inr [OF s])
  let ?r = "twm_task t" and ?th = "twm_thread_id t" and ?N = "thread_calls (store st) (snd h)"
  note e = Next_effect [OF ok nx]
  from ts have inv: "run_inv st (snd h)" and o: "in_order st"
    and run: "target_run calls allowed step o0 (w_state (st_world st)) (store st) (snd h)"
    and vi: "vinv (sched_checker st) ?N (busy st)" by (auto simp: target_state_def)
  have th: "fst ?r = ?th" by (rule next_effect_slots(1) [OF e])
  have bs: "busy st ?th = (\<not> twm_is_new t)" "Suc (snd ?r) = length (threads s1 ! ?th)"
    by (rule next_effect_threads [OF e], simp, rule next_effect_last [OF e])
  have thn: "?th < n" "length (threads s1) = n" by (rule next_effect_threads [OF e], simp add: n)+
  have al: "twm_is_new t \<Longrightarrow> allowed ?th (?N ?th) (task_name s1 ?r)
      \<and> vinv (sched_checker s1) (?N(?th := ?N ?th @ [task_name s1 ?r])) ((busy st)(?th := True))"
    using Next_allowed [OF ok nx _ vi] bs(1) thn by simp
  note tn = target_Next [OF run o inv e B conjunct1 [OF al]]
  note io = next_effect_in_order [OF e o]
  have vi1: "vinv (sched_checker s1) (thread_calls (store s1) (with_invoke t (snd h))) (busy s1)"
    using al vi io(2) tn(2) e by (cases "twm_is_new t") (auto simp: next_effect_def Let_def)
  have r1: "?r \<in> set (invoked (with_invoke t (snd h)))" "\<not> co_is_returned (task_at s1 ?r)"
    using run_inv_Next(2) [OF inv e] Next_task [OF ok nx] by (auto simp: with_invoke_def)
  note rt = resume_target [OF tn(1) body safe r1 res] and ro = resume_in_order [OF res io(1), unfolded th, OF bs(2)]
  have names: "thread_calls (store s2) (snd h1) = thread_calls (store s1) (with_invoke t (snd h))"
    using rt(2) h1 by (intro thread_calls_cong) (auto simp: with_invoke_def)
  have hist: "snd h1 = with_invoke t (snd h) @ (if b then [Response ?r (co_ret (task_at s2 ?r)) (int ?th)] else [])"
    using h1 by (simp add: with_invoke_def)
  have cs: "set (constructors s2) = set (constructors st)" "sched_checker s2 = sched_checker s1" "length (threads s2) = n"
    using resume_task_frame [OF res] idents_shape(1) [OF resume_task_frame(1) [OF res]] thn e
    by (auto simp: next_effect_def Let_def)
  have "in_order st1 \<and> target_run calls allowed step o0 (w_state (st_world st1)) (store st1) (snd h1)
    \<and> vinv (sched_checker st1) (thread_calls (store st1) (snd h1)) (busy st1) \<and> set (constructors st1) = set (constructors st)
    \<and> length (threads st1) = n"
  proof (cases b)
    case False
    then have "st1 = s2" "busy s2 = busy s1" using fin ro(2) b io(2) bs(1) th by (auto simp: fun_eq_iff)
    then show ?thesis using ro(1) rt(1) vi1 names cs hist b False th by simp
  next
    case True
    with fin obtain v where v: "OnFinished (env_verifier E) \<lparr>ct_name = co_name (task_at s2 ?r), ct_is_new = twm_is_new t,
        ct_thread_id = ?th\<rparr> (sched_checker s2) = Inr v" and st1: "st1 = s2\<lparr>sched_checker := v\<rparr>"
      using v2 by (auto simp: OnVerifierTaskFinish_def elim!: res_bind_Inr_E)
    let ?N1 = "thread_calls (store s1) (with_invoke t (snd h))"
    have same: "store st1 = store s2" "in_order st1 = in_order s2" "busy st1 = busy s2"
      by (auto simp: st1 store_def in_order_def busy_def valid_slot_def fun_eq_iff)
    have "?N1 ?th \<noteq> [] \<and> last (?N1 ?th) = co_name (task_at s2 ?r)"
      using active_call_name [OF tn(1) r1(1)] r1(2) rt(2) [of ?r] th by (simp add: store_def)
    then have "vinv v ?N1 ((busy s1)(?th := False))"
      using Finish_allowed [OF ok vi1 _ _, of ?th "twm_is_new t" v] v cs(2) io(2) bs(1) by (cases "twm_is_new t") auto
    moreover have "busy s2 = (busy s1)(?th := False)" using ro(2) b True th by simp
    ultimately show ?thesis using ro(1) rt(1) names cs hist b True same th by (simp add: st1)
  qed
  moreover have "run_inv st1 (snd h1)" using run_step_inv [OF ok inv s] by blast
  ultimately show ?thesis by (simp add: target_state_def)
qed

text \<open>A round is a run of the target.\<close>

lemma RunRound_run:
  assumes ok: ok and body: "implements (env_body E) step" and safe: "never_fails calls allowed step (w_state (st_world st))"
    and B: "builders_ok calls (set (constructors st))" and empty: "\<forall>th \<in> set (threads st). th = []"
    and v0: "vinv (sched_checker st) (\<lambda>_. []) (\<lambda>_. False)" and n: "length (threads st) = n"
    and M: "strategy_methods.Next M = Next" and run: "RunRound M E Check max_tasks st = Inr (res, st')"
  obtains h where "target_run calls allowed step (w_state (st_world st)) (w_state (st_world st')) (store st') (snd h)"
    "check_round Check st' h = Inr res"
proof -
  let ?o0 = "w_state (st_world st)"
  let ?I = "\<lambda>s k. target_state calls allowed step ?o0 vinv s (snd k) \<and> set (constructors s) = set (constructors st)
    \<and> length (threads s) = n"
  from run M obtain h where l: "schedule_loop (env_fuel E) Next (OnVerifierTaskFinish E) E max_tasks st ([], []) = Inr (st', h)"
    and c: "check_round Check st' h = Inr res"
    by (auto simp: RunRound_def elim!: res_bind_Inr_E)
  have nv: "\<not> valid_slot st r" for r
    using empty by (metis length_0_conv not_less_zero nth_mem valid_slot_def)
  have "\<not> busy st t" for t using empty by (auto simp: busy_def)
  then have "busy st = (\<lambda>_. False)" by (simp add: fun_eq_iff)
  moreover have "thread_calls (store st) [] = (\<lambda>_. [])" by (simp add: thread_calls_def fun_eq_iff)
  ultimately have i0: "?I st ([], [])"
    using v0 n nv run_inv_fresh [OF empty] target_run.start [of calls allowed step ?o0 "store st"]
    by (simp add: target_state_def in_order_def)
  have step: "?I s' k' \<and> length (answered (snd k')) = length (answered (snd k)) + (if b then 1 else 0)"
    if i: "?I s k" and s: "schedule_step Next (OnVerifierTaskFinish E) E s k = Inr (b, s', k')" for s k b s' k'
  proof -
    have "builders_ok calls (set (constructors s))" using B i by simp
    from target_step [OF ok body safe this _ _ s] i have "?I s' k'" by auto
    moreover have "run_inv s (snd k)" using i by (simp add: target_state_def)
    ultimately show ?thesis using run_step_inv [OF ok _ s] by blast
  qed
  from schedule_loop_inv [of ?I Next "OnVerifierTaskFinish E" E, OF step l i0]
  have "target_run calls allowed step ?o0 (w_state (st_world st')) (store st') (snd h)" by (auto simp: target_state_def)
  then show thesis using that c by blast
qed

lemma RunRound_accepts:
  assumes "\<And>x tk h. target_run calls allowed step (w_state (st_world st)) x tk h \<Longrightarrow> Check tk h = Inr True"
    and "ok" "implements (env_body E) step" "never_fails calls allowed step (w_state (st_world st))"
      "builders_ok calls (set (constructors st))" "\<forall>th \<in> set (threads st). th = []"
      "vinv (sched_checker st) (\<lambda>_. []) (\<lambda>_. False)" "length (threads st) = n" "strategy_methods.Next M = Next"
      "RunRound M E Check max_tasks st = Inr (res, st')"
  shows "res = None"
proof -
  obtain h where h: "target_run calls allowed step (w_state (st_world st)) (w_state (st_world st')) (store st') (snd h)"
    "check_round Check st' h = Inr res" by (rule RunRound_run [OF assms(2-10)])
  from assms(1) [OF h(1)] h(2) show ?thesis by (simp add: check_round_def)
qed

end

section \<open>Targets without rules of use\<close>

definition any_use :: "nat \<Rightarrow> string list \<Rightarrow> string \<Rightarrow> bool" where
  "any_use t ns nm = True"

definition any_verifier :: "'v \<Rightarrow> (nat \<Rightarrow> string list) \<Rightarrow> (nat \<Rightarrow> bool) \<Rightarrow> bool" where
  "any_verifier v N A = True"

interpretation rr_any: target_strategy E "Pick_Next (RR_Pick E) E" "Pick_NextSchedule RR_PickSchedule"
    "random_ok (env_random E)" n any_use any_verifier for E n
  by unfold_locales (simp_all add: any_use_def any_verifier_def)

interpretation random_any: target_strategy E "Pick_Next (Random_Pick E) E" "Pick_NextSchedule (Random_PickSchedule E)"
    "random_ok (env_random E)" n any_use any_verifier for E n
  by unfold_locales (simp_all add: any_use_def any_verifier_def)

interpretation pct_any: target_strategy E "Pct_Next E" Pct_NextSchedule True n any_use any_verifier for E n
  by unfold_locales (simp_all add: any_use_def any_verifier_def)

text \<open>The object before the first call of a round.\<close>

definition fresh_round ::
    "('a, 'c) target_call set \<Rightarrow> 'o \<Rightarrow> ('o, 'a, 'c, 'v, 'x) base_strategy_scheme \<Rightarrow> bool" where
  "fresh_round calls o0 st \<longleftrightarrow> builders_ok calls (set (constructors st)) \<and> (\<forall>th \<in> set (threads st). th = [])
     \<and> w_state (st_world st) = o0"

text \<open>The outcomes of the first round of a strategy: round robin, random or PCT.\<close>

definition round_result ::
    "('a, 'c) target_call set \<Rightarrow> 'o \<Rightarrow> ('o, 'c, 'v, 'g) runtime_env \<Rightarrow> ('a, 'c) check \<Rightarrow> nat
      \<Rightarrow> both_histories option \<Rightarrow> bool" where
  "round_result calls o0 E Check max_tasks res \<longleftrightarrow>
     (\<exists>st st'. fresh_round calls o0 st \<and> RunRound (RR_methods E) E Check max_tasks st = Inr (res, st'))
     \<or> (\<exists>st st'. fresh_round calls o0 st \<and> RunRound (Random_methods E) E Check max_tasks st = Inr (res, st'))
     \<or> (\<exists>st st'. fresh_round calls o0 st \<and> RunRound (Pct_methods E) E Check max_tasks st = Inr (res, st'))"

text \<open>No strategy reports a target all of whose runs are accepted.\<close>

lemma no_strategy_reports:
  assumes acc: "\<And>x tk h. target_run calls any_use step o0 x tk h \<Longrightarrow> Check tk h = Inr True"
    and safe: "never_fails calls any_use step o0" and body: "implements (env_body E) step" and rnd: "random_ok (env_random E)"
    and res: "round_result calls o0 E Check max_tasks res"
  shows "res = None"
  using res unfolding round_result_def
proof (elim disjE exE conjE)
  fix st st' assume "fresh_round calls o0 st" "RunRound (RR_methods E) E Check max_tasks st = Inr (res, st')"
  then show "res = None" using acc safe
    by (intro rr_any.RunRound_accepts [where n = "length (threads st)", OF _ rnd body, of calls st Check "RR_methods E"])
      (auto simp: fresh_round_def any_verifier_def RR_methods_def)
next
  fix st st' assume "fresh_round calls o0 st" "RunRound (Random_methods E) E Check max_tasks st = Inr (res, st')"
  then show "res = None" using acc safe
    by (intro random_any.RunRound_accepts [where n = "length (threads st)", OF _ rnd body, of calls st Check "Random_methods E"])
      (auto simp: fresh_round_def any_verifier_def Random_methods_def)
next
  fix st st' assume "fresh_round calls o0 st" "RunRound (Pct_methods E) E Check max_tasks st = Inr (res, st')"
  then show "res = None" using acc safe
    by (intro pct_any.RunRound_accepts [where n = "length (threads st)", OF _ TrueI body, of calls st Check "Pct_methods E"])
      (auto simp: fresh_round_def any_verifier_def Pct_methods_def)
qed

end
