(* ===== verification/Scripted_Rounds.thy ===== *)
theory Scripted_Rounds
  imports Round_Targets
begin

text \<open>
  Rounds with chosen random numbers. The random strategy can make every choice of thread and of
  constructor; a script lists the choices of one round. The faulty targets are shown to be faulty by
  a script under which \<open>RunRound\<close> reports their round.
\<close>

section \<open>Scripts\<close>

text \<open>A script: the orders that the shuffles give, and the threads that are drawn.\<close>

type_synonym script = "nat list list \<times> nat list"

definition script_shuffle :: "nat \<Rightarrow> script \<Rightarrow> nat list \<times> script" where
  "script_shuffle n g = (case fst g of [] \<Rightarrow> ([0..<n], g)
     | p # ps \<Rightarrow> (if sort p = [0..<n] then p else [0..<n], (ps, snd g)))"

definition script_discrete :: "int list \<Rightarrow> script \<Rightarrow> nat \<times> script" where
  "script_discrete ws g = (case snd g of [] \<Rightarrow> (0, g)
     | k # ks \<Rightarrow> (if k < length ws then k else 0, (fst g, ks)))"

definition script_random :: "script random_source" where
  "script_random = \<lparr>rnd_shuffle = script_shuffle, rnd_uniform = (\<lambda>a b g. (a, g)), rnd_discrete = script_discrete\<rparr>"

lemma script_random_ok: "random_ok script_random"
proof -
  have "mset (fst (script_shuffle n g)) = mset [0..<n]" for n g
  proof -
    have "mset p = mset [0..<n]" if "sort p = [0..<n]" for p
      using that by (metis mset_sort)
    then show ?thesis by (simp add: script_shuffle_def split: list.splits)
  qed
  moreover have "fst (script_discrete ws g) < length ws" if "ws \<noteq> []" for ws g
    using that by (auto simp: script_discrete_def split: list.splits)
  ultimately show ?thesis by (simp add: random_ok_def script_random_def)
qed

section \<open>Environments of targets\<close>

text \<open>
  The environment of a target: its step function, the memory that futexes read, \<open>Reset\<close> and the
  verifier.
\<close>

definition target_env ::
    "('o, 'c) target_step \<Rightarrow> ('o \<Rightarrow> addr \<Rightarrow> int) \<Rightarrow> ('o \<Rightarrow> 'o) \<Rightarrow> 'v strategy_verifier \<Rightarrow> 'g random_source \<Rightarrow> nat
      \<Rightarrow> ('o, 'c, 'v, 'g) runtime_env" where
  "target_env step mem reset V R fuel =
     \<lparr>env_body = step_body step, env_mem = mem, env_reset = reset, env_verifier = V, env_random = R, env_fuel = fuel\<rparr>"

definition target_world :: "'o \<Rightarrow> 'o world" where
  "target_world x = \<lparr>w_state = x, w_parked = (\<lambda>_. False), w_next_token = 0, w_status = None\<rparr>"

text \<open>A method without a token in its arguments, with an argument for each thread.\<close>

definition target_builder :: "string \<Rightarrow> ('a \<Rightarrow> 'c) \<Rightarrow> (nat \<Rightarrow> 'a) \<Rightarrow> ('o, 'a, 'c) task_builder" where
  "target_builder nm f gen = \<lparr>tb_name = nm, tb_func = f, tb_gen = (\<lambda>t w. (gen t, w, None))\<rparr>"

lemma target_env_sel [simp]:
  "env_body (target_env step mem reset V R fuel) = step_body step" "env_random (target_env step mem reset V R fuel) = R"
  "env_verifier (target_env step mem reset V R fuel) = V" "env_mem (target_env step mem reset V R fuel) = mem"
  by (simp_all add: target_env_def)

lemma builders_ok_target:
  "builders_ok calls (set bs)" if "\<And>b. b \<in> set bs \<Longrightarrow> \<exists>nm f gen. b = target_builder nm f gen \<and> (\<forall>t. (nm, gen t, f (gen t)) \<in> calls)"
  using that unfolding builders_ok_def by (fastforce simp: target_builder_def)

text \<open>The round is reported, by the random strategy.\<close>

definition scripted_round ::
    "('o, 'c) target_step \<Rightarrow> ('o \<Rightarrow> addr \<Rightarrow> int) \<Rightarrow> ('o \<Rightarrow> 'o) \<Rightarrow> 'v strategy_verifier \<Rightarrow> 'v \<Rightarrow> 'o
      \<Rightarrow> ('o, 'a, 'c) task_builder list \<Rightarrow> ('a, 'c) check \<Rightarrow> nat \<Rightarrow> nat \<Rightarrow> script
      \<Rightarrow> (both_histories option \<times> ('o, 'a, 'c, 'v, script) rnd) res" where
  "scripted_round step mem reset V v0 o0 cs Check n max_tasks script =
     (let E = target_env step mem reset V script_random (length (snd script)) in
      RunRound (Random_methods E) E Check max_tasks
        (Random_New n cs (replicate n 1) (target_world o0) v0 script))"

definition reported :: "(both_histories option \<times> 'x) res \<Rightarrow> bool" where
  "reported r = (case r of Inl _ \<Rightarrow> False | Inr (res, _) \<Rightarrow> \<not> Option.is_none res)"

definition unreported :: "(both_histories option \<times> 'x) res \<Rightarrow> bool" where
  "unreported r = (case r of Inl _ \<Rightarrow> False | Inr (res, _) \<Rightarrow> Option.is_none res)"

lemma reportedD: "reported r \<Longrightarrow> \<exists>h st'. r = Inr (Some h, st')"
  by (auto simp: reported_def Option.is_none_def split: sum.splits)

lemma unreportedD: "unreported r \<Longrightarrow> \<exists>st'. r = Inr (None, st')"
  by (auto simp: unreported_def Option.is_none_def split: sum.splits)

text \<open>A scripted round is a round of the random strategy.\<close>

lemma scripted_round_result:
  assumes "scripted_round step mem reset V v0 o0 cs Check n max_tasks script = Inr (res, st')"
    and "builders_ok calls (set cs)"
  shows "round_result calls o0 (target_env step mem reset V script_random (length (snd script))) Check max_tasks res"
proof -
  have "fresh_round calls o0 (Random_New n cs (replicate n 1) (target_world o0) v0 script)"
    using assms(2) by (simp add: fresh_round_def Random_New_def target_world_def)
  then show ?thesis using assms(1) unfolding round_result_def scripted_round_def Let_def by blast
qed

end
