(* ===== verification/Tla_Targets.thy ===== *)
theory Tla_Targets
  imports Tla_Total Round_Targets
begin

text \<open>
  The targets under the exhaustive scheduler: every execution that \<open>TLAScheduler\<close> explores is a run of the target in the
  sense of \<open>Target_Machine\<close>, in which each thread makes at most as many calls as the bound on the depth says.
\<close>

declare split_paired_All [simp del] split_paired_Ex [simp del]

section \<open>Bodies that report a status\<close>

text \<open>The slices are those of the machine; they may also report the status of a coroutine.\<close>

definition behaves :: "('o, 'c) body \<Rightarrow> ('o, 'c) target_step \<Rightarrow> bool" where
  "behaves body step \<longleftrightarrow> (\<forall>c w o' e. step c (w_state w) = Inr (o', e) \<longrightarrow> (\<exists>x. body c w = (w\<lparr>w_state := o', w_status := x\<rparr>, e)))"

lemma implements_behaves:
  fixes body :: "('o, 'c) body"
  assumes "implements body step"
  shows "behaves body step"
  unfolding behaves_def
proof (intro allI impI)
  fix c and w :: "'o world" and o' e assume "step c (w_state w) = Inr (o', e)"
  with assms have "body c w = (w\<lparr>w_state := o', w_status := w_status w\<rparr>, e)" by (simp add: implements_def)
  then show "\<exists>x. body c w = (w\<lparr>w_state := o', w_status := x\<rparr>, e)" by blast
qed

definition goes_on :: "'c slice_end \<Rightarrow> 'c \<Rightarrow> bool" where
  "goes_on e k \<longleftrightarrow> e = Yield k \<or> (\<exists>a v. e = Futex_Wait k a v)"

lemma goes_on_simps [simp]:
  "goes_on (Yield k') k \<longleftrightarrow> k' = k" "goes_on (Futex_Wait k' a v) k \<longleftrightarrow> k' = k" "\<not> goes_on (Return r) k"
  by (auto simp: goes_on_def)

text \<open>A task is resumed.\<close>

lemma resume_run:
  assumes run: "target_run calls allowed step o0 (w_state w) tk h" and r: "r \<in> set (invoked h)" "\<not> co_is_returned (tk r)"
    and body: "behaves body step" and st: "step (co_ctx (tk r)) (w_state w) = Inr (y, e)" and res: "Resume body w (tk r) = Inr (w', c)"
  shows "target_run calls allowed step o0 y (tk(r := c)) (h @ (if co_is_returned c then [Response r (co_ret c) (int (fst r))] else []))"
    "w_state w' = y" "co_name c = co_name (tk r)" "co_is_returned c \<or> goes_on e (co_ctx c)"
proof -
  from body st obtain x where b: "body (co_ctx (tk r)) w = (w\<lparr>w_state := y, w_status := x\<rparr>, e)" unfolding behaves_def by blast
  then show "w_state w' = y" using res r(2) by (cases e) (auto simp: Resume_def)
  show "co_name c = co_name (tk r)" "co_is_returned c \<or> goes_on e (co_ctx c)"
    using res b r(2) by (auto simp: Resume_def SetBlocked_def split: slice_end.splits)
  show "target_run calls allowed step o0 y (tk(r := c)) (h @ (if co_is_returned c then [Response r (co_ret c) (int (fst r))] else []))"
  proof (cases e)
    case (Return v)
    then show ?thesis using target_run.respond [OF run r st [unfolded Return]] res b r(2) by (auto simp: Resume_def)
  next
    case (Yield k)
    then show ?thesis using target_run.yield [OF run r st, of k] res b r(2) by (auto simp: Resume_def)
  next
    case (Futex_Wait k a v)
    then have c: "c = SetBlocked a v ((tk r)\<lparr>co_ctx := k\<rparr>)" "\<not> co_is_returned c" using res b r(2) by (auto simp: Resume_def SetBlocked_def)
    have "target_run calls allowed step o0 y (tk(r := (tk r)\<lparr>co_ctx := k\<rparr>)) h"
      using target_run.yield [OF run r st, of k] Futex_Wait by auto
    then have "target_run calls allowed step o0 y (tk(r := c)) h"
      by (rule target_run.silent) (simp add: c SetBlocked_def task_view_def)
    then show ?thesis using c(2) by simp
  qed
qed

section \<open>Executions are runs\<close>

text \<open>Fewer than \<open>n\<close> threads, and at most \<open>d\<close> calls of each.\<close>

definition depth_use :: "nat \<Rightarrow> nat \<Rightarrow> nat \<Rightarrow> string list \<Rightarrow> string \<Rightarrow> bool" where
  "depth_use n d t ns nm \<longleftrightarrow> t < n \<and> length ns < d"

lemma target_run_mono:
  assumes "target_run calls allowed step o0 x tk h" "\<And>t ns nm. allowed t ns nm \<Longrightarrow> allowed' t ns nm"
  shows "target_run calls allowed' step o0 x tk h"
  using assms(1)
proof (induction rule: target_run.induct)
  case (invoke x tk h r c)
  from target_run.invoke [OF invoke.IH invoke.hyps(2-5)] assms(2) [OF invoke.hyps(6)] show ?case by blast
next
  case (yield x tk h r y e k)
  then show ?case using target_run.yield by metis
qed (blast intro: target_run.intros)+

text \<open>The tasks of an execution are the calls of its history, and only the last of a thread may not have returned.\<close>

definition exec_slots :: "nat \<Rightarrow> ('o, 'a, 'c) execution \<Rightarrow> bool" where
  "exec_slots n e \<longleftrightarrow> length (ex_threads e) = n
     \<and> (\<forall>r. r \<in> set (invoked (ex_seq e)) \<longleftrightarrow> fst r < n \<and> snd r < length (ex_threads e ! fst r))
     \<and> (\<forall>t<n. length (filter (\<lambda>r. fst r = t) (invoked (ex_seq e))) = length (ex_threads e ! t))
     \<and> (\<forall>t<n. \<forall>i. Suc i < length (ex_threads e ! t) \<longrightarrow> co_is_returned (ex_threads e ! t ! i))"

lemma exec_slotsD:
  assumes "exec_slots n e"
  shows "length (ex_threads e) = n"
    "r \<in> set (invoked (ex_seq e)) \<longleftrightarrow> fst r < n \<and> snd r < length (ex_threads e ! fst r)"
    "t < n \<Longrightarrow> length (filter (\<lambda>r. fst r = t) (invoked (ex_seq e))) = length (ex_threads e ! t)"
    "t < n \<Longrightarrow> Suc i < length (ex_threads e ! t) \<Longrightarrow> co_is_returned (ex_threads e ! t ! i)"
  using assms unfolding exec_slots_def by blast+

lemma last_store: "ths ! t \<noteq> [] \<Longrightarrow> tla_store ths (t, length (ths ! t) - 1) = last (ths ! t)"
  by (simp add: tla_store_def last_conv_nth)

lemma exec_slots_idle:
  assumes sl: "exec_slots n e" and t: "t < n" "idle (ex_threads e ! t)" and q: "q \<in> set (invoked (ex_seq e))" "fst q = t"
  shows "co_is_returned (tla_store (ex_threads e) q)"
proof (cases "Suc (snd q) < length (ex_threads e ! t)")
  case True
  then show ?thesis using exec_slotsD(4) [OF sl t(1) True] q by (simp add: tla_store_def)
next
  case False
  then have "snd q = length (ex_threads e ! t) - 1" "ex_threads e ! t \<noteq> []" using exec_slotsD(2) [OF sl, of q] q by auto
  then show ?thesis using t(2) q last_store [of "ex_threads e" t] by (cases q) (auto simp: idle_def)
qed

lemma exec_slots_resume:
  assumes sl: "exec_slots n e" and th: "ex_threads e' = tla_set (t, length (ex_threads e ! t) - 1) c (ex_threads e)"
    and h: "invoked (ex_seq e') = invoked (ex_seq e)" and t: "t < n" "ex_threads e ! t \<noteq> []"
  shows "exec_slots n e'"
  unfolding exec_slots_def
proof (intro conjI allI impI)
  note D = exec_slotsD [OF sl]
  have len: "length (ex_threads e' ! u) = length (ex_threads e ! u)" if "u < n" for u
    using that D(1) by (cases "u = t") (simp_all add: th tla_set_def)
  show "length (ex_threads e') = n" using D(1) by (simp add: th tla_set_def)
  show "(r \<in> set (invoked (ex_seq e'))) = (fst r < n \<and> snd r < length (ex_threads e' ! fst r))" for r
    using D(2) [of r] h len [of "fst r"] by auto
  fix u assume u: "u < n"
  show "length (filter (\<lambda>r. fst r = u) (invoked (ex_seq e'))) = length (ex_threads e' ! u)"
    using D(3) [OF u] h len [OF u] by simp
  fix i assume "Suc i < length (ex_threads e' ! u)"
  then show "co_is_returned (ex_threads e' ! u ! i)"
    using D(1) D(4) [OF u, of i] u len [OF u] by (cases "u = t") (auto simp: th tla_set_def nth_list_update)
qed

lemma exec_slots_start:
  assumes sl: "exec_slots n e" and th: "ex_threads e' = (ex_threads e)[t := ex_threads e ! t @ [c]]"
    and h: "invoked (ex_seq e') = invoked (ex_seq e) @ [(t, length (ex_threads e ! t))]" and t: "t < n" "idle (ex_threads e ! t)"
  shows "exec_slots n e'"
  unfolding exec_slots_def
proof (intro conjI allI impI)
  note D = exec_slotsD [OF sl]
  have th': "ex_threads e' ! u = (if u = t then ex_threads e ! t @ [c] else ex_threads e ! u)" if "u < n" for u
    using that D(1) t(1) by (simp add: th)
  show "length (ex_threads e') = n" using D(1) by (simp add: th)
  show "(r \<in> set (invoked (ex_seq e'))) = (fst r < n \<and> snd r < length (ex_threads e' ! fst r))" for r
    using D(2) [of r] h th' [of "fst r"] t(1) by (cases r) (auto simp: less_Suc_eq split: if_splits)
  fix u assume u: "u < n"
  show "length (filter (\<lambda>r. fst r = u) (invoked (ex_seq e'))) = length (ex_threads e' ! u)"
    using D(3) [OF u] h th' [OF u] by auto
  fix i assume i: "Suc i < length (ex_threads e' ! u)"
  show "co_is_returned (ex_threads e' ! u ! i)"
  proof (cases "u = t \<and> Suc i = length (ex_threads e ! t)")
    case True
    then have "ex_threads e ! t ! i = last (ex_threads e ! t)" by (metis diff_Suc_1 last_conv_nth length_0_conv nat.distinct(1))
    then show ?thesis using True t u th' by (auto simp: idle_def nth_append)
  next
    case False
    then show ?thesis using D(4) [OF u, of i] i th' [OF u] by (auto simp: nth_append split: if_splits)
  qed
qed

text \<open>
  When the runtime starts a task it runs its first slice at once. \<open>begun\<close> are the positions after the first slice:
  what must not fail are the first slices of calls that the generators make, and the slices from there on.
\<close>

locale tla_target =
  fixes P :: "('o, 'a, 'c) tla_params"
    and body :: "('o, 'c) body"
    and calls :: "('a, 'c) target_call set"
    and step :: "('o, 'c) target_step"
    and o0 :: 'o
    and n :: nat
    and begun :: "'c \<Rightarrow> bool"
  assumes body: "behaves body step"
    and builders: "builders_ok calls (set (tla_constructors P))"
    and first_slice: "\<lbrakk>target_run calls (depth_use n (tla_max_depth P)) step o0 x tk h;
        \<And>r. r \<in> set (invoked h) \<Longrightarrow> \<not> co_is_returned (tk r) \<Longrightarrow> begun (co_ctx (tk r));
        t < n; length (thread_calls tk h t) < tla_max_depth P; \<And>r. r \<in> set (invoked h) \<Longrightarrow> fst r = t \<Longrightarrow> co_is_returned (tk r);
        b \<in> set (tla_constructors P); tb_gen b t w = (a, w', tok); w_state w = x\<rbrakk>
      \<Longrightarrow> \<exists>y e. step (tb_func b a) x = Inr (y, e) \<and> (\<forall>k. goes_on e k \<longrightarrow> begun k)"
    and next_slice: "\<lbrakk>target_run calls (depth_use n (tla_max_depth P)) step o0 x tk h;
        \<And>r. r \<in> set (invoked h) \<Longrightarrow> \<not> co_is_returned (tk r) \<Longrightarrow> begun (co_ctx (tk r));
        r \<in> set (invoked h); \<not> co_is_returned (tk r)\<rbrakk>
      \<Longrightarrow> \<exists>y e. step (co_ctx (tk r)) x = Inr (y, e) \<and> (\<forall>k. goes_on e k \<longrightarrow> begun k)"
begin

definition exec_run :: "('o, 'a, 'c) execution \<Rightarrow> bool" where
  "exec_run e \<longleftrightarrow> exec_slots n e
     \<and> target_run calls (depth_use n (tla_max_depth P)) step o0 (w_state (ex_world e)) (tla_store (ex_threads e)) (ex_seq e)
     \<and> (\<forall>r. r \<in> set (invoked (ex_seq e)) \<longrightarrow> \<not> co_is_returned (tla_store (ex_threads e) r) \<longrightarrow> begun (co_ctx (tla_store (ex_threads e) r)))"

lemma exec_runD:
  assumes "exec_run e"
  shows "exec_slots n e"
    "target_run calls (depth_use n (tla_max_depth P)) step o0 (w_state (ex_world e)) (tla_store (ex_threads e)) (ex_seq e)"
    "r \<in> set (invoked (ex_seq e)) \<Longrightarrow> \<not> co_is_returned (tla_store (ex_threads e) r) \<Longrightarrow> begun (co_ctx (tla_store (ex_threads e) r))"
  using assms unfolding exec_run_def by blast+

lemma exec_run_start:
  "exec_run (execution_of k (TLAScheduler n w v))" if "w_state w = o0"
  using that target_run.start [of calls _ step o0] by (simp add: exec_run_def exec_slots_def execution_of_def TLAScheduler_def)

text \<open>The slice of the last task of a thread, after the calls have been recorded.\<close>

lemma exec_run_slice:
  assumes sl: "exec_slots n e1" and t: "t < n" "ex_threads e1 ! t \<noteq> []" and r: "r = (t, length (ex_threads e1 ! t) - 1)"
    and run: "target_run calls (depth_use n (tla_max_depth P)) step o0 (w_state (ex_world e1)) (tla_store (ex_threads e1)) (ex_seq e1)"
    and beg: "\<And>q. q \<in> set (invoked (ex_seq e1)) \<Longrightarrow> q \<noteq> r \<Longrightarrow> \<not> co_is_returned (tla_store (ex_threads e1) q)
      \<Longrightarrow> begun (co_ctx (tla_store (ex_threads e1) q))"
    and nr: "\<not> co_is_returned (tla_store (ex_threads e1) r)"
    and st: "step (co_ctx (tla_store (ex_threads e1) r)) (w_state (ex_world e1)) = Inr (y, en)" "\<And>k. goes_on en k \<Longrightarrow> begun k"
    and res: "Resume body (ex_world e1) (tla_store (ex_threads e1) r) = Inr (w', c)"
    and e': "w_state (ex_world e') = w_state w'" "ex_threads e' = tla_set r c (ex_threads e1)"
      "ex_seq e' = ex_seq e1 @ (if co_is_returned c then [Response r (co_ret c) (int (fst r))] else [])"
  shows "exec_run e'"
proof -
  note D = exec_slotsD [OF sl]
  let ?tk = "tla_store (ex_threads e1)" and ?tk' = "tla_store (ex_threads e')"
  have ri: "r \<in> set (invoked (ex_seq e1))" using D(2) [of r] t r by simp
  note R = resume_run [OF run ri nr body st(1) res]
  have inv: "invoked (ex_seq e') = invoked (ex_seq e1)" using e'(3) by simp
  have store: "?tk' q = (?tk(r := c)) q" if "q \<in> set (invoked (ex_seq e'))" for q
  proof -
    obtain u i where q: "q = (u, i)" by (cases q)
    then have "u < n" "i < length (ex_threads e1 ! u)" using that D(2) [of q] inv by auto
    then show ?thesis using D(1) t r q by (auto simp: e'(2) tla_store_def tla_set_def nth_list_update)
  qed
  have "exec_slots n e'" using exec_slots_resume [OF sl _ inv t, of c] e'(2) r by simp
  moreover have "target_run calls (depth_use n (tla_max_depth P)) step o0 (w_state (ex_world e')) ?tk' (ex_seq e')"
    using target_run.silent [OF R(1), of ?tk'] store R(2) e'(1,3) by simp
  moreover have "begun (co_ctx (?tk' q))" if q: "q \<in> set (invoked (ex_seq e'))" "\<not> co_is_returned (?tk' q)" for q
    using store [OF q(1)] q beg [of q] R(4) st(2) inv by (cases "q = r") auto
  ultimately show ?thesis unfolding exec_run_def by blast
qed

lemma exec_run_thread_step:
  assumes er: "exec_run e" and st: "thread_step P body t e e'" and t: "t < n"
  shows "exec_run e'"
  using st
proof cases
  case resume
  note D = exec_runD [OF er]
  let ?e = "switched t e" and ?r = "(t, length (ex_threads e ! t) - 1)"
  have same: "ex_threads ?e = ex_threads e" "ex_seq ?e = ex_seq e" "ex_world ?e = ex_world e" by (simp_all add: switched_def)
  have ne: "ex_threads e ! t \<noteq> []" and nr: "\<not> co_is_returned (tla_store (ex_threads e) ?r)"
    using resume(1) last_store [of "ex_threads e" t] by (auto simp: idle_def)
  have r: "?r \<in> set (invoked (ex_seq e))" using exec_slotsD(2) [OF D(1), of ?r] ne t by simp
  obtain y en where y: "step (co_ctx (tla_store (ex_threads e) ?r)) (w_state (ex_world e)) = Inr (y, en)" "\<And>k. goes_on en k \<Longrightarrow> begun k"
    using next_slice [OF D(2) D(3) r nr] by blast
  from resume(4) obtain w c where res: "Resume body (ex_world e) (last (ex_threads e ! t)) = Inr (w, c)"
    and e': "e' = ?e\<lparr>ex_world := w\<lparr>w_status := None\<rparr>, ex_threads := tla_set ?r c (ex_threads e),
      ex_finished := ex_finished ?e + (if co_is_returned c then 1 else 0), ex_order := ex_order ?e @ [t],
      ex_seq := ex_seq e @ (if co_is_returned c then [Response ?r (co_ret c) (int t)] else [])\<rparr>"
    by (auto simp: exec_resume_def Let_def same split: sum.splits)
  have "Resume body (ex_world e) (tla_store (ex_threads e) ?r) = Inr (w, c)" using res last_store [OF ne] by simp
  note slice = exec_run_slice [OF D(1) t ne refl D(2) _ nr y this, of e']
  show ?thesis
  proof (rule slice)
    show "begun (co_ctx (tla_store (ex_threads e) q))"
      if "q \<in> set (invoked (ex_seq e))" "\<not> co_is_returned (tla_store (ex_threads e) q)" for q by (rule D(3) [OF that])
    show "w_state (ex_world e') = w_state w" "ex_threads e' = tla_set ?r c (ex_threads e)"
      "ex_seq e' = ex_seq e @ (if co_is_returned c then [Response ?r (co_ret c) (int (fst ?r))] else [])" by (simp_all add: e')
  qed
next
  case (start b)
  note D = exec_runD [OF er] and S = exec_slotsD [OF exec_runD(1) [OF er]]
  obtain w1 c where b: "Build b (ex_world e) t (- 1) = (w1, c)" by (cases "Build b (ex_world e) t (- 1)") auto
  note B = builders_ok_Build [OF builders start(4) b]
  let ?r = "(t, length (ex_threads e ! t))" and ?ths = "(ex_threads e)[t := ex_threads e ! t @ [c]]" and ?tk = "tla_store (ex_threads e)"
  let ?h = "ex_seq e @ [Invoke ?r (int t)]"
  define e1 where "e1 = (with_task b t e)\<lparr>ex_seq := ?h\<rparr>"
  have e1: "ex_threads e1 = ?ths" "ex_seq e1 = ?h" "ex_world e1 = w1" by (simp_all add: e1_def with_task_def b)
  have ths: "?ths ! t = ex_threads e ! t @ [c]" using S(1) t by simp
  have c: "\<not> co_is_returned c" "co_ctx c = tb_func b (co_args c)" and gen: "\<exists>tok. tb_gen b t (ex_world e) = (co_args c, w1, tok)"
    using b by (auto simp: Build_def Coro_New_def SetToken_def Let_def split: prod.splits option.splits)
  have new: "?r \<notin> set (invoked (ex_seq e))" using S(2) [of ?r] by simp
  note idle = exec_slots_idle [OF D(1) t start(1)]
  have depth: "length (thread_calls ?tk (ex_seq e) t) < tla_max_depth P" using start(3) S(3) [OF t] by (simp add: thread_calls_def)
  have old: "tla_store ?ths q = (?tk(?r := c)) q" if "q \<in> set (invoked ?h)" for q
  proof -
    obtain u i where q: "q = (u, i)" by (cases q)
    then have "q = ?r \<or> u < n \<and> i < length (ex_threads e ! u)" using that S(2) [of q] by auto
    then show ?thesis using S(1) t q by (auto simp: tla_store_def nth_list_update nth_append)
  qed
  have "target_run calls (depth_use n (tla_max_depth P)) step o0 (w_state (ex_world e)) (?tk(?r := c)) ?h"
    using target_run.invoke [OF D(2) new B(1) c(1)] idle t depth by (simp add: depth_use_def)
  from target_run.silent [OF this, of "tla_store ?ths"] old B(2)
  have run: "target_run calls (depth_use n (tla_max_depth P)) step o0 (w_state (ex_world e1)) (tla_store (ex_threads e1)) (ex_seq e1)"
    by (simp add: e1)
  have sl: "exec_slots n e1" by (rule exec_slots_start [OF D(1) _ _ t start(1), of _ c]) (simp_all add: e1)
  obtain y en where y: "step (co_ctx c) (w_state (ex_world e)) = Inr (y, en)" "\<And>k. goes_on en k \<Longrightarrow> begun k"
    using first_slice [OF D(2) D(3) t depth idle start(4)] gen c(2) by metis
  have r: "?r = (t, length (ex_threads e1 ! t) - 1)" "ex_threads e1 ! t \<noteq> []" "tla_store (ex_threads e1) ?r = c"
    using ths by (simp_all add: e1 tla_store_def)
  from start(5) obtain w' c' where res: "Resume body w1 c = Inr (w', c')"
    and e': "w_state (ex_world e') = w_state w'" "ex_threads e' = tla_set ?r c' ?ths"
      "ex_seq e' = ?h @ (if co_is_returned c' then [Response ?r (co_ret c') (int t)] else [])"
    using ths by (auto simp: exec_resume_def with_task_def b Let_def split: sum.splits)
  show ?thesis
  proof (rule exec_run_slice [OF sl t r(2,1) run, of y en w' c' e'])
    show "begun (co_ctx (tla_store (ex_threads e1) q))"
      if "q \<in> set (invoked (ex_seq e1))" "q \<noteq> ?r" "\<not> co_is_returned (tla_store (ex_threads e1) q)" for q
      using that D(3) [of q] old [of q] by (auto simp: e1)
  qed (use c(1) y res e' B(2) r(3) in \<open>simp_all add: e1\<close>)
qed

lemma exec_run_steps:
  assumes "(tla_step P body)\<^sup>*\<^sup>* e e'" "exec_run e"
  shows "exec_run e'"
  using assms
proof (induction rule: rtranclp_induct)
  case (step e' e'')
  then obtain t where "t < length (ex_threads e')" "thread_step P body t e' e''" by (auto simp: tla_step_def)
  then show ?case using step.IH [OF step.prems] exec_run_thread_step [of e' t e''] exec_slotsD(1) exec_runD(1) by metis
qed

text \<open>A target whose runs are accepted is never reported.\<close>

lemma Tla_never_reports:
  assumes acc: "\<And>x tk h. target_run calls (depth_use n (tla_max_depth P)) step o0 x tk h \<Longrightarrow> tla_check P tk h = Inr True"
    and E: "env_body E = body" "plain_target P E o0" "env_verifier E = DefaultStrategyVerifier" "0 < tla_max_tasks P"
    and w: "w_state w = o0" "w_status w = None" and run: "Tla_Run P E (TLAScheduler n w ()) = Inr ((is_over, r), st')"
  shows "r = None"
proof (rule ccontr)
  assume "r \<noteq> None"
  then obtain h where "r = Some h" by blast
  then have "refused P body (execution_of 0 (TLAScheduler n w ())) h" using Tla_Run_explores [of P E w n] E w run by simp
  then obtain e where e: "(tla_step P body)\<^sup>*\<^sup>* (execution_of 0 (TLAScheduler n w ())) e"
    "tla_check P (tla_store (ex_threads e)) (ex_seq e) = Inr False" by (auto simp: refused_def verdict_def)
  have "exec_run e" by (rule exec_run_steps [OF e(1) exec_run_start [OF w(1)]])
  then show False using acc [OF exec_runD(2)] e(2) by simp
qed

end

section \<open>Targets that never fail\<close>

lemma never_fails_tla:
  assumes body: "behaves body step" and bs: "builders_ok calls (set (tla_constructors P))"
    and safe: "never_fails calls (depth_use n (tla_max_depth P)) step o0"
  shows "tla_target P body calls step o0 n (\<lambda>_. True)"
proof
  show "\<exists>y e. step (co_ctx (tk r)) x = Inr (y, e) \<and> (\<forall>k. goes_on e k \<longrightarrow> True)"
    if "target_run calls (depth_use n (tla_max_depth P)) step o0 x tk h" "r \<in> set (invoked h)" "\<not> co_is_returned (tk r)" for x tk h r
    using safe that unfolding never_fails_def by blast
  show "\<exists>y e. step (tb_func b a) x = Inr (y, e) \<and> (\<forall>k. goes_on e k \<longrightarrow> True)"
    if run: "target_run calls (depth_use n (tla_max_depth P)) step o0 x tk h" and t: "t < n" "length (thread_calls tk h t) < tla_max_depth P"
      "\<And>r. r \<in> set (invoked h) \<Longrightarrow> fst r = t \<Longrightarrow> co_is_returned (tk r)"
      and b: "b \<in> set (tla_constructors P)" "tb_gen b t w = (a, w', tok)" for x tk h t b w a w' tok
  proof -
    let ?c = "Coro_New (tb_func b) a (tb_name b) 0"
    obtain i where "i \<notin> snd ` set (invoked h)" using ex_new_if_finite [of "snd ` set (invoked h)"] by auto
    then have i: "(t, i) \<notin> set (invoked h)" by force
    have "(tb_name b, a, tb_func b a) \<in> calls" using bs b unfolding builders_ok_def by blast
    then have "target_run calls (depth_use n (tla_max_depth P)) step o0 x (tk((t, i) := ?c)) (h @ [Invoke (t, i) (int (fst (t, i)))])"
      using t i by (intro target_run.invoke [OF run i]) (auto simp: Coro_New_def depth_use_def)
    from safe [unfolded never_fails_def, rule_format, OF this, of "(t, i)"] show ?thesis by (simp add: Coro_New_def)
  qed
qed (use body bs in simp_all)

text \<open>What the exhaustive scheduler can return for a target, with all its parameters.\<close>

definition tla_outcome ::
    "('a, 'c) target_call set \<Rightarrow> 'o \<Rightarrow> ('o, 'c, unit, 'g) runtime_env \<Rightarrow> ('o, 'a, 'c) tla_params \<Rightarrow> both_histories option \<Rightarrow> bool" where
  "tla_outcome calls o0 E P r \<longleftrightarrow> plain_target P E o0 \<and> env_verifier E = DefaultStrategyVerifier \<and> 0 < tla_max_tasks P
     \<and> builders_ok calls (set (tla_constructors P))
     \<and> (\<exists>n w is_over st'. w_state w = o0 \<and> w_status w = None \<and> Tla_Run P E (TLAScheduler n w ()) = Inr ((is_over, r), st'))"

lemma no_tla_reports:
  assumes acc: "\<And>x tk h. target_run calls any_use step o0 x tk h \<Longrightarrow> tla_check P tk h = Inr True"
    and safe: "never_fails calls any_use step o0" and body: "implements (env_body E) step" and out: "tla_outcome calls o0 E P r"
  shows "r = None"
proof -
  from out obtain n w is_over st' where o: "plain_target P E o0" "env_verifier E = DefaultStrategyVerifier" "0 < tla_max_tasks P"
    "builders_ok calls (set (tla_constructors P))" "w_state w = o0" "w_status w = None"
    "Tla_Run P E (TLAScheduler n w ()) = Inr ((is_over, r), st')" unfolding tla_outcome_def by blast
  have any: "target_run calls any_use step o0 x tk h" if "target_run calls (depth_use n (tla_max_depth P)) step o0 x tk h" for x tk h
    by (rule target_run_mono [OF that]) (simp add: any_use_def)
  have "never_fails calls (depth_use n (tla_max_depth P)) step o0" using safe any unfolding never_fails_def by blast
  note T = never_fails_tla [OF implements_behaves [OF body] o(4) this]
  show ?thesis by (rule tla_target.Tla_never_reports [OF T acc [OF any] refl o(1-3) o(5-7)])
qed

end
