(* ===== verification/Register_Targets.thy ===== *)
theory Register_Targets
  imports Scripted_Rounds Tla_Targets
begin

text \<open>
  The register targets: \<open>verifying/targets/atomic_register.cpp\<close> and
  \<open>verifying/targets/race_register.cpp\<close>. The registers count calls of \<open>add\<close>, far fewer in a round
  than an \<open>int\<close> can hold, so they are unbounded.
\<close>

section \<open>The registers\<close>

text \<open>
  The positions in the methods. The increment of the plain register is a load and a store; the
  atomic one has no position between them.
\<close>

datatype reg_pc = Reg_Add | Reg_Get | Reg_Store int | Reg_Ret_Void | Reg_Ret int

fun atomic_register_step :: "(int, reg_pc) target_step" where
  "atomic_register_step Reg_Add x = Inr (x + 1, Yield Reg_Ret_Void)"
| "atomic_register_step Reg_Get x = Inr (x, Yield (Reg_Ret x))"
| "atomic_register_step (Reg_Store v) x = Inl (Assert_Failed ''no such position'')"
| "atomic_register_step Reg_Ret_Void x = Inr (x, Return void_v)"
| "atomic_register_step (Reg_Ret v) x = Inr (x, Return (vw_int v))"

fun race_register_step :: "(int, reg_pc) target_step" where
  "race_register_step Reg_Add x = Inr (x, Yield (Reg_Store x))"
| "race_register_step (Reg_Store v) x = Inr (v + 1, Yield Reg_Ret_Void)"
| "race_register_step Reg_Get x = Inr (x, Yield (Reg_Ret x))"
| "race_register_step Reg_Ret_Void x = Inr (x, Return void_v)"
| "race_register_step (Reg_Ret v) x = Inr (x, Return (vw_int v))"

definition Register_Reset :: "int \<Rightarrow> int" where
  "Register_Reset x = 0"

definition register_calls :: "(unit, reg_pc) target_call set" where
  "register_calls = {(''add'', (), Reg_Add), (''get'', (), Reg_Get)}"

definition register_builders :: "(int, unit, reg_pc) task_builder list" where
  "register_builders = [target_builder ''add'' (\<lambda>_. Reg_Add) (\<lambda>_. ()), target_builder ''get'' (\<lambda>_. Reg_Get) (\<lambda>_. ())]"

lemma register_builders_ok: "builders_ok register_calls (set register_builders)"
  by (rule builders_ok_target) (auto simp: register_builders_def register_calls_def)

section \<open>The atomic register is linearizable\<close>

text \<open>Where a call can be, and what it has taken effect with.\<close>

definition register_at :: "string \<Rightarrow> reg_pc \<Rightarrow> value_wrapper option \<Rightarrow> bool" where
  "register_at nm c l \<longleftrightarrow> nm = ''add'' \<and> (c = Reg_Add \<and> l = None \<or> c = Reg_Ret_Void \<and> l = Some void_v)
     \<or> nm = ''get'' \<and> (c = Reg_Get \<and> l = None \<or> (\<exists>v. c = Reg_Ret v \<and> l = Some (vw_int v)))"

definition register_inv :: "int \<Rightarrow> linear_register \<Rightarrow> (nat \<Rightarrow> string list) \<Rightarrow> (unit, reg_pc) active \<Rightarrow> bool" where
  "register_inv x s N L \<longleftrightarrow> reg_x s = x \<and> (\<forall>t nm a c l. L t = Some (nm, a, c, l) \<longrightarrow> register_at nm c l)"

lemma Register_typed: "typed_spec Register_checker"
  by (auto simp: typed_spec_def method_tables)

lemma register_inv_step:
  assumes "register_inv x s N L" "L t = Some (nm, a, c, l)" "atomic_register_step c x = Inr (y, e)"
  shows "\<exists>s' l'. takes_effect Register_checker nm a s l s' l' \<and> (case e of
      Yield k \<Rightarrow> register_inv y s' N (L(t \<mapsto> (nm, a, k, l')))
    | Futex_Wait k _ _ \<Rightarrow> register_inv y s' N (L(t \<mapsto> (nm, a, k, l')))
    | Return ret \<Rightarrow> (\<exists>v. l' = Some v \<and> vw_eq v ret = Inr True) \<and> register_inv y s' N (L(t := None)))"
proof -
  have at: "register_at nm c l" and x: "reg_x s = x" using assms(1,2) by (auto simp: register_inv_def)
  consider (add) "nm = ''add''" "c = Reg_Add" "l = None" | (added) "nm = ''add''" "c = Reg_Ret_Void" "l = Some void_v"
    | (get) "nm = ''get''" "c = Reg_Get" "l = None" | (got) v where "nm = ''get''" "c = Reg_Ret v" "l = Some (vw_int v)"
    using at by (auto simp: register_at_def)
  then show ?thesis
  proof cases
    case add
    have "takes_effect Register_checker nm a s l (Register_add s) (Some void_v)"
      unfolding add by (rule takes_effectI) (simp_all add: method_tables)
    then show ?thesis using add assms x
      by (intro exI [of _ "Register_add s"] exI [of _ "Some void_v"]) (auto simp: register_inv_def register_at_def Register_add_def)
  next
    case get
    have "takes_effect Register_checker nm a s l s (Some (vw_int (reg_x s)))"
      unfolding get by (rule takes_effectI) (simp_all add: method_tables Register_get_def)
    then show ?thesis using get assms x
      by (intro exI [of _ s] exI [of _ "Some (vw_int (reg_x s))"]) (auto simp: register_inv_def register_at_def)
  next
    case added
    then show ?thesis using assms by (intro exI [of _ s] exI [of _ l]) (auto simp: register_inv_def)
  next
    case (got v)
    then show ?thesis using assms by (intro exI [of _ s] exI [of _ l]) (auto simp: register_inv_def)
  qed
qed

interpretation atomic_register:
  linearization_points Register_checker register_calls any_use atomic_register_step 0 register_inv
proof
  show "typed_spec Register_checker" by (rule Register_typed)
  show "specification_methods Register_checker nm \<noteq> None" if "(nm, a, c) \<in> register_calls" for nm a c
    using that by (auto simp: register_calls_def method_tables)
  show "register_inv 0 (first_state Register_checker) (\<lambda>_. []) Map.empty"
    by (simp add: register_inv_def method_tables)
  show "register_inv x s (N(t := N t @ [nm])) (L(t \<mapsto> (nm, a, c, None)))"
    if "register_inv x s N L" "(nm, a, c) \<in> register_calls" for x s N L t nm a c
    using that by (auto simp: register_inv_def register_calls_def register_at_def)
qed (rule register_inv_step)

lemma atomic_register_safe: "never_fails register_calls any_use atomic_register_step 0"
  proof (rule atomic_register.run_never_fails)
  show "\<exists>y e. atomic_register_step c x = Inr (y, e)" if "register_inv x s N L" "L t = Some (nm, a, c, l)" for x s N L t nm a c l
  proof -
    have "register_at nm c l" using that by (auto simp: register_inv_def)
    then show ?thesis by (cases c) (auto simp: register_at_def)
  qed
qed

section \<open>A lost update\<close>

text \<open>Two calls of \<open>add\<close> both load 0; the call of \<open>get\<close> after them returns 1.\<close>

definition race_round :: "(both_histories option \<times> (int, unit, reg_pc, unit, script) rnd) res" where
  "race_round = scripted_round race_register_step (\<lambda>_ _. 0) Register_Reset DefaultStrategyVerifier () 0 register_builders
     (Check_recursive Register_checker) 2 3 ([[0, 1], [0, 1], [1, 0]], [0, 1, 0, 1, 0, 1, 0, 0])"

definition atomic_round :: "(both_histories option \<times> (int, unit, reg_pc, unit, script) rnd) res" where
  "atomic_round = scripted_round atomic_register_step (\<lambda>_ _. 0) Register_Reset DefaultStrategyVerifier () 0 register_builders
     (Check_recursive Register_checker) 2 3 ([[0, 1], [0, 1], [1, 0]], [0, 1, 0, 1, 0, 1, 0, 0])"

lemma race_reported: "reported race_round"
  by code_simp

lemma atomic_unreported: "unreported atomic_round"
  by code_simp

section \<open>Properties\<close>

text \<open>Two calls under the exhaustive scheduler.\<close>

definition register_params :: "(int, unit, reg_pc) tla_params" where
  "register_params = \<lparr>tla_max_tasks = 2, tla_max_rounds = 100, tla_max_switches = 1, tla_max_depth = 1,
     tla_constructors = register_builders, tla_check = Check_recursive Register_checker, tla_cancel = (\<lambda>w. w)\<rparr>"

definition register_env :: "(int, reg_pc, unit, script) runtime_env" where
  "register_env = target_env atomic_register_step (\<lambda>_ _. 0) Register_Reset DefaultStrategyVerifier script_random 20"

lemma register_tla:
  "case Tla_Run register_params register_env (TLAScheduler 2 (target_world 0) ()) of Inl _ \<Rightarrow> False | Inr ((b, r), st) \<Rightarrow> \<not> b"
  by code_simp

lemma register_outcome:
  assumes "Tla_Run register_params register_env (TLAScheduler 2 (target_world 0) ()) = Inr ((b, r), st)"
  shows "tla_outcome register_calls 0 register_env register_params r"
proof -
  have "plain_body (step_body atomic_register_step)"
    by (auto simp: plain_body_def step_body_def split: sum.splits prod.splits)
  then have "plain_target register_params register_env 0"
    by (auto simp: plain_target_def register_params_def register_env_def target_env_def Register_Reset_def register_builders_def target_builder_def)
  moreover have "w_state (target_world 0) = 0" "w_status (target_world 0) = None" by (simp_all add: target_world_def)
  ultimately show ?thesis unfolding tla_outcome_def using assms register_builders_ok
    by (auto simp: register_env_def register_params_def)
qed

text \<open>
  C17. The atomic register is linearizable and is never reported: in every execution of the target,
  under any scheduler, the checker accepts the history, no round of the round robin, the random
  and the PCT strategy ends with a report, and the exhaustive scheduler does not report one, whatever its bounds are.
\<close>

theorem atomic_register_correct:
  assumes "implements (env_body E) atomic_register_step" "random_ok (env_random E)" "implements (env_body E') atomic_register_step"
    "tla_check P = Check_recursive Register_checker"
  shows "(target_run register_calls any_use atomic_register_step 0 x tk h
        \<longrightarrow> linearizable Register_checker tk h \<and> Check_recursive Register_checker tk h = Inr True)
    \<and> (round_result register_calls 0 E (Check_recursive Register_checker) max_tasks res \<longrightarrow> res = None)
    \<and> (tla_outcome register_calls 0 E' P r \<longrightarrow> r = None)"
proof (intro conjI impI)
  show "linearizable Register_checker tk h" "Check_recursive Register_checker tk h = Inr True"
    if "target_run register_calls any_use atomic_register_step 0 x tk h"
    using that by (rule atomic_register.run_linearizable, rule atomic_register.run_accepted)
  show "res = None" if "round_result register_calls 0 E (Check_recursive Register_checker) max_tasks res"
    by (rule no_strategy_reports [OF atomic_register.run_accepted atomic_register_safe assms(1,2) that])
  show "r = None" if "tla_outcome register_calls 0 E' P r"
    by (rule no_tla_reports [OF _ atomic_register_safe assms(3) that]) (simp add: assms(4) atomic_register.run_accepted)
qed

theorem atomic_register_correct_witness:
  "(\<exists>st'. atomic_round = Inr (None, st'))
    \<and> (\<exists>st. Tla_Run register_params register_env (TLAScheduler 2 (target_world 0) ()) = Inr ((False, None), st))"
proof -
  obtain res st' where a: "atomic_round = Inr (res, st')"
    using unreportedD [OF atomic_unreported] by blast
  obtain r st where t: "Tla_Run register_params register_env (TLAScheduler 2 (target_world 0) ()) = Inr ((False, r), st)"
    using register_tla by (auto split: sum.splits prod.splits)
  have E': "implements (env_body register_env) atomic_register_step" "tla_check register_params = Check_recursive Register_checker"
    by (simp_all add: register_env_def register_params_def implements_step_body)
  note round = scripted_round_result [OF a [unfolded atomic_round_def] register_builders_ok]
  have "res = None \<and> r = None"
    using atomic_register_correct [OF _ _ E'] round register_outcome [OF t] implements_step_body script_random_ok
    by (metis target_env_sel(1,2))
  then show ?thesis using a t by blast
qed

end
