(* ===== verification/Guarded_Targets.thy ===== *)
theory Guarded_Targets
  imports Scripted_Rounds
begin

text \<open>
  Targets with rules of use: the strategies that ask a verifier before they start a task keep the
  protocol of the verifier. (PCT asks the verifier only with \<open>forbid_all_same\<close>, so it is not among
  them.) Rounds of these strategies are runs of the target in which every thread follows the
  protocol.
\<close>

declare split_paired_All [simp del] split_paired_Ex [simp del]

definition protocol_use ::
    "nat \<Rightarrow> ('p \<Rightarrow> string \<Rightarrow> 'p option) \<Rightarrow> 'p \<Rightarrow> nat \<Rightarrow> string list \<Rightarrow> string \<Rightarrow> bool" where
  "protocol_use n \<delta> p0 t ns nm \<longleftrightarrow> t < n \<and> follows \<delta> p0 (ns @ [nm]) \<noteq> None"

lemma follows_snoc: "follows d p (ns @ [nm]) = (case follows d p ns of None \<Rightarrow> None | Some q \<Rightarrow> d q nm)"
  by (induction ns arbitrary: p) (auto split: option.splits)

lemma follows_last:
  "ns \<noteq> [] \<Longrightarrow> follows d p (butlast ns) = Some m \<Longrightarrow> follows d p ns = d m (last ns)"
  using follows_snoc [of d p "butlast ns" "last ns"] by simp

text \<open>The verifier knows the phase of every thread: the one before its running call.\<close>

definition protocol_inv ::
    "('p \<Rightarrow> string \<Rightarrow> 'p option) \<Rightarrow> 'p \<Rightarrow> ('v \<Rightarrow> nat \<Rightarrow> 'p) \<Rightarrow> 'v \<Rightarrow> (nat \<Rightarrow> string list) \<Rightarrow> (nat \<Rightarrow> bool) \<Rightarrow> bool" where
  "protocol_inv \<delta> p0 phase v N A \<longleftrightarrow> (\<forall>t. if A t
     then N t \<noteq> [] \<and> follows \<delta> p0 (butlast (N t)) = Some (phase v t) \<and> \<delta> (phase v t) (last (N t)) \<noteq> None
     else follows \<delta> p0 (N t) = Some (phase v t))"

lemma Pick_Next_verified:
  fixes st :: "('o, 'a, 'c, 'v, 'g, 'x) pick"
  assumes pick: "Pick st = Inr (t, st1)" "t < length (threads st)" "only_futex st st1"
    and nx: "Pick_Next Pick E st = Inr (m, st')" and new: "twm_is_new m"
  shows "\<exists>cs (b :: ('o, 'a, 'c) task_builder). first_verified (env_verifier E) (twm_thread_id m) cs (sched_checker st) = Inr (Some b, sched_checker st')
    \<and> task_name st' (twm_task m) = tb_name b"
proof -
  have t1: "t < length (threads st1)" using only_futex_threads(1) [OF pick(3)] pick(2) by simp
  have True: "threads st1 ! t = [] \<or> co_is_returned (last (threads st1 ! t))"
    using nx pick(1) t1 new by (auto simp: Pick_Next_def split: if_splits)
  obtain cs g where sh: "shuffle (env_random E) (constructors st1) (rng st1) = (cs, g)" by fastforce
  let ?s = "st1\<lparr>constructors := cs, rng := g\<rparr>"
  from nx pick(1) t1 True sh obtain verified v where
    fv: "first_verified (env_verifier E) t cs (sched_checker st1) = Inr (verified, v)"
    and rest: "(case verified of None \<Rightarrow> Inl (Assert_Failed ''Oops, possible deadlock or incorrect verifier'')
       | Some b \<Rightarrow> let (w, c) = Build b (st_world ?s) t (new_task_id ?s) in
           Inr (\<lparr>twm_task = (t, length (threads st1 ! t)), twm_is_new = True, twm_thread_id = t\<rparr>,
             ?s\<lparr>sched_checker := v, st_world := w, new_task_id := new_task_id ?s + 1,
                threads := (threads ?s)[t := threads st1 ! t @ [c]]\<rparr>)) = Inr (m, st')"
    by (simp add: Pick_Next_def Let_def) (elim res_bind_Inr_E, auto)
  then obtain b where vb: "verified = Some b" by (cases verified) auto
  obtain w c where c: "Build b (st_world st1) t (new_task_id st1) = (w, c)" by fastforce
  from rest vb c have m: "m = \<lparr>twm_task = (t, length (threads st1 ! t)), twm_is_new = True, twm_thread_id = t\<rparr>"
    and s: "st' = st1\<lparr>constructors := cs, rng := g, sched_checker := v, st_world := w,
       new_task_id := new_task_id st1 + 1, threads := (threads st1)[t := threads st1 ! t @ [c]]\<rparr>"
    by auto
  have "task_name st' (twm_task m) = tb_name b"
    using t1 Build_fresh(4) [OF c] by (simp add: task_name_def m s)
  moreover have "first_verified (env_verifier E) (twm_thread_id m) cs (sched_checker st) = Inr (Some b, sched_checker st')"
    using fv vb pick(3) by (simp add: m s only_futex_def)
  ultimately show ?thesis by blast
qed

context protocol_verifier
begin

lemma first_verified_phase:
  assumes "first_verified V t bs v = Inr (Some b, v')"
  shows "phase v' u = phase v u" "\<delta> (phase v t) (tb_name b) \<noteq> None"
  using assms
proof (induction bs arbitrary: v)
  case (Cons b' bs)
  {
    case 1
    then show ?case using Cons.IH(1) Verify_phase by (auto simp: res_bind_Inr_iff split: if_splits)
  next
    case 2
    then obtain ok v1 where o: "Verify V \<lparr>ct_name = tb_name b', ct_is_new = True, ct_thread_id = t\<rparr> v = Inr (ok, v1)"
      and r: "if ok then b' = b else first_verified V t bs v1 = Inr (Some b, v')"
      by (auto simp: res_bind_Inr_iff split: if_splits)
    show ?case using Verify_new [OF o] Verify_phase [OF o, of t] r Cons.IH(2) [of v1] by (cases ok) auto
  }
qed auto

lemma protocol_inv_initial: "phase v = (\<lambda>_. p0) \<Longrightarrow> protocol_inv \<delta> p0 phase v (\<lambda>_. []) (\<lambda>_. False)"
  by (simp add: protocol_inv_def)

lemma protocol_inv_start:
  assumes "protocol_inv \<delta> p0 phase v N A" "\<not> A t" "first_verified V t bs v = Inr (Some b, v')" "t < n"
  shows "protocol_use n \<delta> p0 t (N t) (tb_name b)
    \<and> protocol_inv \<delta> p0 phase v' (N(t := N t @ [tb_name b])) (A(t := True))"
proof -
  have "follows \<delta> p0 (N t) = Some (phase v t)" using assms(1,2) unfolding protocol_inv_def by metis
  moreover note first_verified_phase [OF assms(3)]
  ultimately show ?thesis using assms(1,2,4)
    by (auto simp: protocol_use_def protocol_inv_def follows_append simp del: not_None_eq)
qed

lemma protocol_inv_finish:
  assumes "protocol_inv \<delta> p0 phase v N A" "A t" "N t \<noteq> []"
    "OnFinished V \<lparr>ct_name = last (N t), ct_is_new = i, ct_thread_id = t\<rparr> v = Inr v'"
  shows "protocol_inv \<delta> p0 phase v' N (A(t := False))"
proof -
  have p: "follows \<delta> p0 (butlast (N t)) = Some (phase v t)" "\<delta> (phase v t) (last (N t)) \<noteq> None"
    using assms(1,2) unfolding protocol_inv_def by metis+
  then obtain q where q: "\<delta> (phase v t) (last (N t)) = Some q" by blast
  have "follows \<delta> p0 (N t) = Some q"
    using p(1) q follows_append [of \<delta> p0 "butlast (N t)" "[last (N t)]"] assms(3) by simp
  then show ?thesis using assms(1) OnFinished_phase [OF assms(4)] q by (auto simp: protocol_inv_def simp del: not_None_eq)
qed

end

context thread_picker
begin

lemma protocol_target_strategy:
  assumes V: "protocol_verifier V v0 \<delta> p0 phase"
  shows "target_strategy E (Pick_Next Pick E) (Pick_NextSchedule PickSchedule) (random_ok (env_random E) \<and> env_verifier E = V)
    n (protocol_use n \<delta> p0) (protocol_inv \<delta> p0 phase)"
proof -
  show ?thesis
  proof
    show "next_effect E st t st'" if "random_ok (env_random E) \<and> env_verifier E = V" "Pick_Next Pick E st = Inr (t, st')" for st t st'
      using Next_effect [OF _ that(2)] that(1) by blast
    show "next_schedule_effect st t st'" if "random_ok (env_random E) \<and> env_verifier E = V" "schedule_ok st"
      "Pick_NextSchedule PickSchedule st = Inr (t, st')" for st t st'
      using NextSchedule_effect [OF _ that(2,3)] that(1) by blast
    fix st t st' N A th nm
    assume ok: "random_ok (env_random E) \<and> env_verifier E = V" and nx: "Pick_Next Pick E st = Inr (t, st')"
      and a: "twm_is_new t" "protocol_inv \<delta> p0 phase (sched_checker st) N A" "\<not> A (twm_thread_id t)" "th = twm_thread_id t"
        "th < n" "nm = task_name st' (twm_task t)"
    obtain u st1 where p: "Pick st = Inr (u, st1)" using nx by (auto simp: Pick_Next_def elim!: res_bind_Inr_E)
    have "u < length (threads st) \<and> only_futex st st1" using Pick_effect [OF p] by blast
    with Pick_Next_verified [of Pick, OF p _ _ nx a(1)] ok obtain cs and b :: "('o, 'a, 'c) task_builder" where
      "first_verified V th cs (sched_checker st) = Inr (Some b, sched_checker st')" "nm = tb_name b" using a(4,6) by blast
    with protocol_verifier.protocol_inv_start [OF V a(2)] a(3-5)
    show "protocol_use n \<delta> p0 th (N th) nm \<and> protocol_inv \<delta> p0 phase (sched_checker st') (N(th := N th @ [nm])) (A(th := True))"
      by blast
  next
    show "protocol_inv \<delta> p0 phase v' N (A(th := False))"
      if "random_ok (env_random E) \<and> env_verifier E = V" "protocol_inv \<delta> p0 phase v N A" "A th" "N th \<noteq> []"
        "OnFinished (env_verifier E) \<lparr>ct_name = last (N th), ct_is_new = isnew, ct_thread_id = th\<rparr> v = Inr v'"
      for v N A th isnew v'
      using protocol_verifier.protocol_inv_finish [OF V that(2-4)] that(1,5) by blast
  qed
qed

end

text \<open>The outcomes of the first round of the strategies that ask the verifier.\<close>

definition guarded_result ::
    "('a, 'c) target_call set \<Rightarrow> 'o \<Rightarrow> 'v \<Rightarrow> nat \<Rightarrow> ('o, 'c, 'v, 'g) runtime_env \<Rightarrow> ('a, 'c) check \<Rightarrow> nat
      \<Rightarrow> both_histories option \<Rightarrow> bool" where
  "guarded_result calls o0 v0 n E Check max_tasks res \<longleftrightarrow>
     (\<exists>st st'. fresh_round calls o0 st \<and> sched_checker st = v0 \<and> length (threads st) = n
        \<and> RunRound (RR_methods E) E Check max_tasks st = Inr (res, st'))
     \<or> (\<exists>st st'. fresh_round calls o0 st \<and> sched_checker st = v0 \<and> length (threads st) = n
        \<and> RunRound (Random_methods E) E Check max_tasks st = Inr (res, st'))"

lemma no_guarded_strategy_reports:
  assumes V: "protocol_verifier (env_verifier E) v0 \<delta> p0 phase"
    and acc: "\<And>x tk h. target_run calls (protocol_use n \<delta> p0) step o0 x tk h \<Longrightarrow> Check tk h = Inr True"
    and safe: "never_fails calls (protocol_use n \<delta> p0) step o0"
    and body: "implements (env_body E) step" and rnd: "random_ok (env_random E)"
    and res: "guarded_result calls o0 v0 n E Check max_tasks res"
  shows "res = None"
proof -
  have v0: "protocol_inv \<delta> p0 phase v0 (\<lambda>_. []) (\<lambda>_. False)"
    by (rule protocol_verifier.protocol_inv_initial [OF V]) (simp add: protocol_verifier.phase_init [OF V] fun_eq_iff)
  from res show ?thesis
    unfolding guarded_result_def
  proof (elim disjE exE conjE)
    fix st st' assume st: "fresh_round calls o0 st" "sched_checker st = v0" "length (threads st) = n"
      and run: "RunRound (RR_methods E) E Check max_tasks st = Inr (res, st')"
    show "res = None"
      by (rule target_strategy.RunRound_accepts [OF round_robin.protocol_target_strategy [OF V], where calls = calls and step = step
          and M = "RR_methods E", OF _ _ body _ _ _ _ _ _ run])
        (use st acc safe rnd v0 in \<open>auto simp: fresh_round_def RR_methods_def\<close>)
  next
    fix st st' assume st: "fresh_round calls o0 st" "sched_checker st = v0" "length (threads st) = n"
      and run: "RunRound (Random_methods E) E Check max_tasks st = Inr (res, st')"
    show "res = None"
      by (rule target_strategy.RunRound_accepts [OF random.protocol_target_strategy [OF V], where calls = calls and step = step
          and M = "Random_methods E", OF _ _ body _ _ _ _ _ _ run])
        (use st acc safe rnd v0 in \<open>auto simp: fresh_round_def Random_methods_def\<close>)
  qed
qed

text \<open>A scripted round is a round of the random strategy that asks the verifier.\<close>

lemma scripted_guarded_result:
  assumes "scripted_round step mem reset V v0 o0 cs Check n max_tasks script = Inr (res, st')"
    and "builders_ok calls (set cs)"
  shows "guarded_result calls o0 v0 n (target_env step mem reset V script_random (length (snd script))) Check max_tasks res"
proof -
  let ?st = "Random_New n cs (replicate n 1) (target_world o0) v0 script"
  have "fresh_round calls o0 ?st" "sched_checker ?st = v0" "length (threads ?st) = n"
    using assms(2) by (simp_all add: fresh_round_def Random_New_def target_world_def)
  then show ?thesis using assms(1) unfolding guarded_result_def scripted_round_def Let_def by blast
qed

text \<open>The phase of a thread all of whose calls have returned.\<close>

definition idle_phase ::
    "('p \<Rightarrow> string \<Rightarrow> 'p option) \<Rightarrow> 'p \<Rightarrow> (slot \<Rightarrow> ('a, 'c) coro) \<Rightarrow> seq_history \<Rightarrow> nat \<Rightarrow> 'p option" where
  "idle_phase \<delta> p0 tk h t = (if \<exists>r \<in> set (invoked h). fst r = t \<and> \<not> co_is_returned (tk r) then None
     else follows \<delta> p0 (thread_calls tk h t))"

lemma idle_phase_inactive:
  assumes "lin_state C tk h p val s L" "idle_phase \<delta> p0 tk h t = Some q"
  shows "L t = None" "follows \<delta> p0 (thread_calls tk h t) = Some q"
  using assms(2) lin_stateD(9) [OF assms(1), of t] unfolding idle_phase_def by (metis option.distinct(1))+

end
