(* ===== verification/Rw_Spin_Lock.thy ===== *)
theory Rw_Spin_Lock
  imports Guarded_Targets
begin

text \<open>
  Model of \<open>verifying/blocking/folly_rwspinlock.cpp\<close>: a spinning lock for readers, writers and one
  upgradable reader in a word of 32 bits.
\<close>

unbundle bit_operations_syntax

section \<open>The word\<close>

definition RW_READER :: "32 word" where "RW_READER = 4"
definition RW_UPGRADED :: "32 word" where "RW_UPGRADED = 2"
definition RW_WRITER :: "32 word" where "RW_WRITER = 1"

definition rw_flags :: "32 word" where "rw_flags = RW_WRITER OR RW_UPGRADED"

text \<open>The word that counts \<open>r\<close> readers, with the two flags.\<close>

definition enc :: "nat \<Rightarrow> bool \<Rightarrow> bool \<Rightarrow> 32 word" where
  "enc r ub wb = of_nat r * RW_READER + (if ub then RW_UPGRADED else 0) + (if wb then RW_WRITER else 0)"

lemma enc_bits: "enc r ub wb = push_bit 2 (of_nat r) OR ((if ub then 2 else 0) OR (if wb then 1 else 0))"
proof -
  have dis: "push_bit 2 (of_nat r :: 32 word) AND ((if ub then 2 else 0) OR (if wb then 1 else 0)) = 0"
    by (rule bit_word_eqI) (auto simp: bit_simps)
  have "enc r ub wb = push_bit 2 (of_nat r) + ((if ub then 2 else 0) OR (if wb then 1 else 0))"
    by (simp add: enc_def RW_READER_def RW_UPGRADED_def RW_WRITER_def push_bit_eq_mult)
  then show ?thesis by (simp only: disjunctive_add_eq_or [OF dis])
qed

lemma enc_add_reader: "enc r ub wb + RW_READER = enc (Suc r) ub wb"
  by (simp add: enc_def algebra_simps)

lemma enc_sub_reader: "enc (Suc r) ub wb - RW_READER = enc r ub wb"
  by (simp add: enc_def algebra_simps)

lemma enc_or_upgraded: "enc r ub wb OR RW_UPGRADED = enc r True wb"
  by (rule bit_word_eqI) (auto simp: enc_bits RW_UPGRADED_def bit_simps)

lemma enc_sub_upgraded: "enc r True wb - RW_UPGRADED = enc r False wb"
  by (simp add: enc_def)

lemma enc_sub_writer: "enc r ub True - RW_WRITER = enc r ub False"
  by (simp add: enc_def)

lemma bit_three: "bit (3 :: int) k \<longleftrightarrow> k < 2" "bit (3 :: nat) k \<longleftrightarrow> k < 2"
proof -
  have "(3 :: int) = mask 2" "(3 :: nat) = mask 2" by (simp_all add: mask_eq_exp_minus_1)
  then show "bit (3 :: int) k \<longleftrightarrow> k < 2" "bit (3 :: nat) k \<longleftrightarrow> k < 2" by (simp_all only: bit_mask_iff) simp_all
qed

lemma enc_clear: "enc r ub wb AND NOT rw_flags = enc r False False"
  by (rule bit_word_eqI) (auto simp: enc_bits rw_flags_def RW_UPGRADED_def RW_WRITER_def bit_three bit_simps)

lemma enc_flags: "enc r ub wb AND rw_flags = 0 \<longleftrightarrow> \<not> ub \<and> \<not> wb"
proof
  assume "enc r ub wb AND rw_flags = 0"
  then have "\<not> bit (enc r ub wb AND rw_flags) 0" "\<not> bit (enc r ub wb AND rw_flags) 1"
    by simp_all
  then show "\<not> ub \<and> \<not> wb" by (auto simp: enc_bits rw_flags_def RW_UPGRADED_def RW_WRITER_def bit_simps split: if_splits)
next
  assume "\<not> ub \<and> \<not> wb"
  then show "enc r ub wb AND rw_flags = 0"
    by (intro bit_word_eqI) (auto simp: enc_bits rw_flags_def RW_UPGRADED_def RW_WRITER_def bit_three bit_simps)
qed

text \<open>The comparisons of the compare-and-swaps see the number of readers up to the width.\<close>

lemma unat_enc: "r < 2 ^ 30 \<Longrightarrow> unat (enc r ub wb) = 4 * r + (if ub then 2 else 0) + (if wb then 1 else 0)"
proof -
  assume r: "r < 2 ^ 30"
  have "enc r ub wb = of_nat (4 * r + (if ub then 2 else 0) + (if wb then 1 else 0))"
    by (simp add: enc_def RW_READER_def RW_UPGRADED_def RW_WRITER_def)
  moreover have "4 * r + (if ub then 2 else 0) + (if wb then 1 else 0) < 2 ^ 32" using r by simp
  ultimately show ?thesis by (simp only: unat_of_nat len_num1 len_bit0 mod_less) simp
qed

lemma enc_zero: "r < 2 ^ 30 \<Longrightarrow> enc r ub wb = 0 \<longleftrightarrow> r = 0 \<and> \<not> ub \<and> \<not> wb"
  using unat_enc [of r ub wb] by (simp add: unat_eq_0 [symmetric] del: unat_eq_0)

lemma enc_upgraded: "r < 2 ^ 30 \<Longrightarrow> enc r ub wb = RW_UPGRADED \<longleftrightarrow> r = 0 \<and> ub \<and> \<not> wb"
proof -
  assume "r < 2 ^ 30"
  then have "enc r ub wb = RW_UPGRADED \<longleftrightarrow> 4 * r + (if ub then 2 else 0) + (if wb then 1 else 0) = 2"
    using unat_enc [of r ub wb] by (simp add: word_unat_eq_iff RW_UPGRADED_def)
  then show ?thesis by (cases r) auto
qed

lemma enc_values: "enc 0 False False = 0" "enc 0 False True = RW_WRITER"
  by (simp_all add: enc_def)

section \<open>Attempts\<close>

definition try_lock :: "32 word \<Rightarrow> 32 word \<times> bool" where
  "try_lock bits = (if bits = 0 then (RW_WRITER, True) else (bits, False))"

definition try_unlock_upgrade_and_lock :: "32 word \<Rightarrow> 32 word \<times> bool" where
  "try_unlock_upgrade_and_lock bits = (if bits = RW_UPGRADED then (RW_WRITER, True) else (bits, False))"

definition try_lock_upgrade :: "32 word \<Rightarrow> 32 word \<times> bool" where
  "try_lock_upgrade bits = (bits OR RW_UPGRADED, bits AND rw_flags = 0)"

text \<open>The first access of \<open>try_lock_shared\<close>; when it fails, a second one takes the reader back.\<close>

definition try_lock_shared :: "32 word \<Rightarrow> 32 word \<times> bool" where
  "try_lock_shared bits = (bits + RW_READER, bits AND rw_flags = 0)"

section \<open>The methods\<close>

text \<open>
  Positions in the methods, with the counter of failed attempts (\<open>uint_fast32_t\<close> and \<open>int64_t\<close>, of 64
  bits; the signed one agrees with the unsigned one below \<open>2 ^ 63\<close>, where its increment is defined). After a
  thousand failures a method calls \<open>std::this_thread::yield\<close>, which the runtime turns
  into the end of a slice.
\<close>

datatype rw_pc =
    Rw_Lock "64 word" | Rw_Lock_Yield "64 word"
  | Rw_Unlock
  | Rw_Lock_Shared "64 word" | Rw_Shared_Undo "64 word" | Rw_Lock_Shared_Yield "64 word"
  | Rw_Unlock_Shared
  | Rw_To_Shared | Rw_To_Shared_Unlock
  | Rw_Lock_Upgrade "64 word" | Rw_Lock_Upgrade_Yield "64 word"
  | Rw_Unlock_Upgrade
  | Rw_Upgrade_Lock "64 word" | Rw_Upgrade_Lock_Yield "64 word"
  | Rw_Upgrade_To_Shared
  | Rw_To_Upgrade | Rw_To_Upgrade_Clear
  | Rw_Ret int | Rw_Ret_Void

definition spin :: "('n :: len word \<Rightarrow> 'c) \<Rightarrow> ('n word \<Rightarrow> 'c) \<Rightarrow> 'n word \<Rightarrow> 'c slice_end" where
  "spin again pause cnt = (let cnt = cnt + 1 in if cnt > 1000 then Yield (pause cnt) else Yield (again cnt))"

fun rw_step :: "(32 word, rw_pc) target_step" where
  "rw_step (Rw_Lock cnt) bits =
     (let (bits, ok) = try_lock bits in Inr (bits, if ok then Yield (Rw_Ret 0) else spin Rw_Lock Rw_Lock_Yield cnt))"
| "rw_step (Rw_Lock_Yield cnt) bits = Inr (bits, Yield (Rw_Lock cnt))"
| "rw_step Rw_Unlock bits = Inr (bits AND NOT rw_flags, Yield (Rw_Ret 0))"
| "rw_step (Rw_Lock_Shared cnt) bits =
     (let (bits, ok) = try_lock_shared bits in Inr (bits, if ok then Yield (Rw_Ret 0) else Yield (Rw_Shared_Undo cnt)))"
| "rw_step (Rw_Shared_Undo cnt) bits = Inr (bits - RW_READER, spin Rw_Lock_Shared Rw_Lock_Shared_Yield cnt)"
| "rw_step (Rw_Lock_Shared_Yield cnt) bits = Inr (bits, Yield (Rw_Lock_Shared cnt))"
| "rw_step Rw_Unlock_Shared bits = Inr (bits - RW_READER, Yield (Rw_Ret 0))"
| "rw_step Rw_To_Shared bits = Inr (bits + RW_READER, Yield Rw_To_Shared_Unlock)"
| "rw_step Rw_To_Shared_Unlock bits = Inr (bits AND NOT rw_flags, Yield Rw_Ret_Void)"
| "rw_step (Rw_Lock_Upgrade cnt) bits =
     (let (bits, ok) = try_lock_upgrade bits in Inr (bits, if ok then Yield Rw_Ret_Void else spin Rw_Lock_Upgrade Rw_Lock_Upgrade_Yield cnt))"
| "rw_step (Rw_Lock_Upgrade_Yield cnt) bits = Inr (bits, Yield (Rw_Lock_Upgrade cnt))"
| "rw_step Rw_Unlock_Upgrade bits = Inr (bits - RW_UPGRADED, Yield Rw_Ret_Void)"
| "rw_step (Rw_Upgrade_Lock cnt) bits =
     (let (bits, ok) = try_unlock_upgrade_and_lock bits in Inr (bits, if ok then Yield Rw_Ret_Void else spin Rw_Upgrade_Lock Rw_Upgrade_Lock_Yield cnt))"
| "rw_step (Rw_Upgrade_Lock_Yield cnt) bits = Inr (bits, Yield (Rw_Upgrade_Lock cnt))"
| "rw_step Rw_Upgrade_To_Shared bits = Inr (bits + (RW_READER - RW_UPGRADED), Yield Rw_Ret_Void)"
| "rw_step Rw_To_Upgrade bits = Inr (bits OR RW_UPGRADED, Yield Rw_To_Upgrade_Clear)"
| "rw_step Rw_To_Upgrade_Clear bits = Inr (bits - RW_WRITER, Yield Rw_Ret_Void)"
| "rw_step (Rw_Ret v) bits = Inr (bits, Return (vw_int v))"
| "rw_step Rw_Ret_Void bits = Inr (bits, Return void_v)"

definition Rw_Reset :: "32 word \<Rightarrow> 32 word" where
  "Rw_Reset bits = 0"

text \<open>The methods by name, the four that the test calls and the rest of the class.\<close>

definition rw_target_calls :: "(unit, rw_pc) target_call set" where
  "rw_target_calls = {(''lock'', (), Rw_Lock 0), (''lock_shared'', (), Rw_Lock_Shared 0), (''unlock'', (), Rw_Unlock),
     (''unlock_shared'', (), Rw_Unlock_Shared)}"

definition rw_calls :: "(unit, rw_pc) target_call set" where
  "rw_calls = rw_target_calls \<union> {(''unlock_and_lock_shared'', (), Rw_To_Shared), (''lock_upgrade'', (), Rw_Lock_Upgrade 0),
     (''unlock_upgrade'', (), Rw_Unlock_Upgrade), (''unlock_upgrade_and_lock'', (), Rw_Upgrade_Lock 0),
     (''unlock_upgrade_and_lock_shared'', (), Rw_Upgrade_To_Shared), (''unlock_and_lock_upgrade'', (), Rw_To_Upgrade)}"

lemma rw_never_fails: "never_fails calls allowed rw_step o0"
proof (rule never_failsI)
  show "\<exists>y e. rw_step c x = Inr (y, e)" for c x
    by (cases c) (simp_all add: try_lock_def try_lock_shared_def try_lock_upgrade_def try_unlock_upgrade_and_lock_def)
qed

section \<open>How the methods may be used\<close>

datatype rw_mode = Free | Reads | Writes | Upgradable

text \<open>What a thread holds after a call, when it may make the call.\<close>

definition rw_protocol :: "rw_mode \<Rightarrow> string \<Rightarrow> rw_mode option" where
  "rw_protocol m nm =
     (if nm = ''lock'' \<and> m = Free then Some Writes
      else if nm = ''unlock'' \<and> m = Writes then Some Free
      else if nm = ''lock_shared'' \<and> m = Free then Some Reads
      else if nm = ''unlock_shared'' \<and> m = Reads then Some Free
      else if nm = ''unlock_and_lock_shared'' \<and> m = Writes then Some Reads
      else if nm = ''lock_upgrade'' \<and> m = Free then Some Upgradable
      else if nm = ''unlock_upgrade'' \<and> m = Upgradable then Some Free
      else if nm = ''unlock_upgrade_and_lock'' \<and> m = Upgradable then Some Writes
      else if nm = ''unlock_upgrade_and_lock_shared'' \<and> m = Upgradable then Some Reads
      else if nm = ''unlock_and_lock_upgrade'' \<and> m = Writes then Some Upgradable else None)"

section \<open>The word and what the threads hold\<close>

text \<open>
  \<open>M\<close> is what every thread holds; \<open>X\<close> says that a thread has added itself to the readers without
  holding the lock for reading, \<open>Z\<close> that it is about to clear the writer flag for an upgradable lock.
\<close>

definition reader_count :: "nat \<Rightarrow> (nat \<Rightarrow> rw_mode) \<Rightarrow> (nat \<Rightarrow> bool) \<Rightarrow> nat" where
  "reader_count n M X = (\<Sum>t<n. of_bool (M t = Reads) + of_bool (X t))"

definition exclusive :: "rw_mode \<Rightarrow> bool" where
  "exclusive m \<longleftrightarrow> m = Writes \<or> m = Upgradable"

text \<open>Which flags are set, by what the threads hold.\<close>

definition flags_ok :: "nat \<Rightarrow> (nat \<Rightarrow> rw_mode) \<Rightarrow> (nat \<Rightarrow> bool) \<Rightarrow> bool \<Rightarrow> bool \<Rightarrow> bool" where
  "flags_ok n M Z ub wb \<longleftrightarrow> (wb \<longleftrightarrow> (\<exists>t<n. M t = Writes)) \<and> (\<forall>t<n. M t = Upgradable \<or> Z t \<longrightarrow> ub)
     \<and> (ub \<longrightarrow> (\<exists>t<n. exclusive (M t)))
     \<and> (\<forall>t<n. \<forall>u<n. t \<noteq> u \<longrightarrow> exclusive (M t) \<longrightarrow> \<not> exclusive (M u) \<and> (M t = Writes \<longrightarrow> M u \<noteq> Reads))
     \<and> (\<forall>t<n. Z t \<longrightarrow> M t = Writes)"

definition rw_ok :: "nat \<Rightarrow> 32 word \<Rightarrow> (nat \<Rightarrow> rw_mode) \<Rightarrow> (nat \<Rightarrow> bool) \<Rightarrow> (nat \<Rightarrow> bool) \<Rightarrow> bool" where
  "rw_ok n x M X Z \<longleftrightarrow> (\<exists>ub wb. flags_ok n M Z ub wb \<and> x = enc (reader_count n M X) ub wb)"

lemma rw_okI: "flags_ok n M Z ub wb \<Longrightarrow> x = enc (reader_count n M X) ub wb \<Longrightarrow> rw_ok n x M X Z"
  by (auto simp: rw_ok_def)

lemma reader_count_upd:
  assumes "t < n"
  shows "reader_count n (M(t := m)) (X(t := b)) + (of_bool (M t = Reads) + of_bool (X t))
    = reader_count n M X + (of_bool (m = Reads) + of_bool b)"
proof -
  let ?f = "\<lambda>M X u. of_bool (M u = Reads) + of_bool (X u) :: nat"
  have "sum (?f (M(t := m)) (X(t := b))) ({..<n} - {t}) = sum (?f M X) ({..<n} - {t})"
    by (rule sum.cong) auto
  moreover have "sum (?f M X) {..<n} = ?f M X t + sum (?f M X) ({..<n} - {t})" for M X
    using assms by (intro sum.remove) auto
  ultimately show ?thesis by (simp add: reader_count_def)
qed

lemma reader_count_upd_X:
  "t < n \<Longrightarrow> reader_count n M (X(t := b)) + of_bool (X t) = reader_count n M X + of_bool b"
  using reader_count_upd [of t n M "M t" X b] by simp

lemma reader_count_positive: "t < n \<Longrightarrow> M t = Reads \<or> X t \<Longrightarrow> 0 < reader_count n M X"
  unfolding reader_count_def by (rule sum_pos2 [of _ t]) auto

lemma reader_count_bound: "(\<forall>t<n. \<not> (M t = Reads \<and> X t)) \<Longrightarrow> reader_count n M X \<le> n"
proof -
  assume "\<forall>t<n. \<not> (M t = Reads \<and> X t)"
  then have "reader_count n M X \<le> (\<Sum>t<n. 1)" unfolding reader_count_def by (intro sum_mono) auto
  then show ?thesis by simp
qed

lemma reader_count_zero: "reader_count n M X = 0 \<Longrightarrow> t < n \<Longrightarrow> M t \<noteq> Reads \<and> \<not> X t"
  using reader_count_positive [of t n M X] by auto

section \<open>How the flags change\<close>

text \<open>One thread changes what it holds.\<close>

lemma flags_ok_upd:
  assumes ok: "flags_ok n M Z ub wb" and t: "t < n"
    and wb: "wb' \<longleftrightarrow> m = Writes \<or> (\<exists>u<n. u \<noteq> t \<and> M u = Writes)"
    and ub: "\<And>u. u < n \<Longrightarrow> u \<noteq> t \<Longrightarrow> M u = Upgradable \<or> Z u \<Longrightarrow> ub'" "m = Upgradable \<or> z \<Longrightarrow> ub'"
      "ub' \<Longrightarrow> exclusive m \<or> (\<exists>u<n. u \<noteq> t \<and> exclusive (M u))"
    and z: "z \<Longrightarrow> m = Writes"
    and ex: "\<And>u. u < n \<Longrightarrow> u \<noteq> t \<Longrightarrow> exclusive m \<Longrightarrow> \<not> exclusive (M u) \<and> (m = Writes \<longrightarrow> M u \<noteq> Reads)"
      "\<And>u. u < n \<Longrightarrow> u \<noteq> t \<Longrightarrow> m = Reads \<Longrightarrow> M u \<noteq> Writes"
  shows "flags_ok n (M(t := m)) (Z(t := z)) ub' wb'"
  unfolding flags_ok_def
proof (intro conjI)
  show "wb' = (\<exists>u<n. (M(t := m)) u = Writes)" using wb t by auto
  show "\<forall>u<n. (M(t := m)) u = Upgradable \<or> (Z(t := z)) u \<longrightarrow> ub'" using ub(1,2) by (auto split: if_splits)
  show "ub' \<longrightarrow> (\<exists>u<n. exclusive ((M(t := m)) u))" using ub(3) t by auto
  show "\<forall>u<n. (Z(t := z)) u \<longrightarrow> (M(t := m)) u = Writes" using ok z by (auto simp: flags_ok_def)
  show "\<forall>u<n. \<forall>v<n. u \<noteq> v \<longrightarrow> exclusive ((M(t := m)) u)
      \<longrightarrow> \<not> exclusive ((M(t := m)) v) \<and> ((M(t := m)) u = Writes \<longrightarrow> (M(t := m)) v \<noteq> Reads)"
  proof (intro allI impI)
    fix u v assume uv: "u < n" "v < n" "u \<noteq> v" "exclusive ((M(t := m)) u)"
    have old: "\<not> exclusive (M v) \<and> (M u = Writes \<longrightarrow> M v \<noteq> Reads)" if "exclusive (M u)"
      using ok uv(1-3) that unfolding flags_ok_def by blast
    show "\<not> exclusive ((M(t := m)) v) \<and> ((M(t := m)) u = Writes \<longrightarrow> (M(t := m)) v \<noteq> Reads)"
      using uv old ex(1) [of v] ex(1) [of u] ex(2) [of u] by (cases "u = t"; cases "v = t") auto
  qed
qed

lemma flags_okD:
  assumes "flags_ok n M Z ub wb"
  shows "wb \<longleftrightarrow> (\<exists>t<n. M t = Writes)" "t < n \<Longrightarrow> M t = Upgradable \<or> Z t \<Longrightarrow> ub" "ub \<Longrightarrow> \<exists>t<n. exclusive (M t)"
    "t < n \<Longrightarrow> Z t \<Longrightarrow> M t = Writes"
  using assms unfolding flags_ok_def by blast+

text \<open>A thread that holds the lock for writing or upgradably is alone.\<close>

lemma flags_ok_alone:
  assumes "flags_ok n M Z ub wb" "t < n" "exclusive (M t)" "u < n" "u \<noteq> t"
  shows "M u \<noteq> Writes" "M u \<noteq> Upgradable" "M t = Writes \<Longrightarrow> M u \<noteq> Reads" "\<not> Z u" "M t = Writes \<Longrightarrow> M u = Free"
proof -
  have e: "\<not> exclusive (M u)" and w: "M t = Writes \<Longrightarrow> M u \<noteq> Reads" using assms unfolding flags_ok_def by blast+
  show "M t = Writes \<Longrightarrow> M u \<noteq> Reads" by (rule w)
  show "M u \<noteq> Writes" "M u \<noteq> Upgradable" using e by (auto simp: exclusive_def)
  then show "\<not> Z u" "M t = Writes \<Longrightarrow> M u = Free" using flags_okD(4) [OF assms(1,4)] w by (auto, cases "M u", auto)
qed

lemma flags_reader:
  assumes ok: "flags_ok n M Z ub wb" and t: "t < n" "\<not> exclusive (M t)" and m: "m = Free \<or> m = Reads \<and> \<not> wb"
  shows "flags_ok n (M(t := m)) (Z(t := False)) ub wb"
proof (rule flags_ok_upd [OF ok t(1)])
  note D = flags_okD [OF ok]
  show "wb = (m = Writes \<or> (\<exists>u<n. u \<noteq> t \<and> M u = Writes))" using D(1) t(2) m by (auto simp: exclusive_def)
  show "ub \<Longrightarrow> exclusive m \<or> (\<exists>u<n. u \<noteq> t \<and> exclusive (M u))" using D(3) t(2) by blast
qed (use flags_okD [OF ok] m in \<open>auto simp: exclusive_def\<close>)

lemma flags_release:
  assumes ok: "flags_ok n M Z ub wb" and t: "t < n" "exclusive (M t)" and m: "m = Free \<or> m = Reads"
  shows "flags_ok n (M(t := m)) (Z(t := False)) False False"
  by (rule flags_ok_upd [OF ok t(1)]) (use flags_ok_alone [OF ok t] m in \<open>auto simp: exclusive_def\<close>)

lemma flags_write:
  assumes ok: "flags_ok n M Z ub wb" and t: "t < n" and alone: "\<And>u. u < n \<Longrightarrow> u \<noteq> t \<Longrightarrow> M u = Free"
  shows "flags_ok n (M(t := Writes)) (Z(t := False)) False True"
proof -
  have "\<not> Z u" if "u < n" "u \<noteq> t" for u using alone [OF that] flags_okD(4) [OF ok that(1)] by auto
  then show ?thesis by (intro flags_ok_upd [OF ok t]) (use alone in \<open>auto simp: exclusive_def\<close>)
qed

lemma flags_upgrade:
  assumes ok: "flags_ok n M Z False False" and t: "t < n"
  shows "flags_ok n (M(t := Upgradable)) (Z(t := False)) True False"
proof -
  have "M u \<noteq> Writes" "M u \<noteq> Upgradable" if "u < n" for u using flags_okD(1,2) [OF ok] that by blast+
  then show ?thesis by (intro flags_ok_upd [OF ok t]) (auto simp: exclusive_def)
qed

lemma flags_mark:
  assumes ok: "flags_ok n M Z ub wb" and "ub \<or> wb"
  shows "flags_ok n M Z True wb"
proof -
  have "\<exists>t<n. exclusive (M t)" using flags_okD(1,3) [OF ok] assms(2) unfolding exclusive_def by blast
  then show ?thesis using ok unfolding flags_ok_def by blast
qed

lemma flags_to_upgrade:
  assumes ok: "flags_ok n M Z ub wb" and t: "t < n" "M t = Writes"
  shows "flags_ok n M (Z(t := True)) True wb"
proof -
  have "\<exists>t<n. exclusive (M t)" using t unfolding exclusive_def by blast
  moreover have "\<forall>u<n. (Z(t := True)) u \<longrightarrow> M u = Writes" using flags_okD(4) [OF ok] t by auto
  ultimately show ?thesis using ok unfolding flags_ok_def by blast
qed

lemma flags_to_upgrade_clear:
  assumes ok: "flags_ok n M Z ub wb" and t: "t < n" "Z t"
  shows "flags_ok n (M(t := Upgradable)) (Z(t := False)) ub False" "ub" "wb"
proof -
  have w: "M t = Writes" using flags_okD(4) [OF ok t] .
  then have e: "exclusive (M t)" by (simp add: exclusive_def)
  show "ub" "wb" using flags_okD(1,2) [OF ok] t w by blast+
  then show "flags_ok n (M(t := Upgradable)) (Z(t := False)) ub False"
    by (intro flags_ok_upd [OF ok t(1)]) (use flags_ok_alone [OF ok t(1) e] w in \<open>auto simp: exclusive_def\<close>)
qed

section \<open>The accesses\<close>

text \<open>
  The positions of a call that has not taken effect, by what the thread holds before it and what it
  has put into the word.
\<close>

inductive rw_pos :: "string \<Rightarrow> rw_pc \<Rightarrow> rw_mode \<Rightarrow> bool \<Rightarrow> bool \<Rightarrow> bool" where
  "rw_pos ''lock'' (Rw_Lock k) Free False False"
| "rw_pos ''lock'' (Rw_Lock_Yield k) Free False False"
| "rw_pos ''unlock'' Rw_Unlock Writes False False"
| "rw_pos ''lock_shared'' (Rw_Lock_Shared k) Free False False"
| "rw_pos ''lock_shared'' (Rw_Shared_Undo k) Free True False"
| "rw_pos ''lock_shared'' (Rw_Lock_Shared_Yield k) Free False False"
| "rw_pos ''unlock_shared'' Rw_Unlock_Shared Reads False False"
| "rw_pos ''unlock_and_lock_shared'' Rw_To_Shared Writes False False"
| "rw_pos ''unlock_and_lock_shared'' Rw_To_Shared_Unlock Writes True False"
| "rw_pos ''lock_upgrade'' (Rw_Lock_Upgrade k) Free False False"
| "rw_pos ''lock_upgrade'' (Rw_Lock_Upgrade_Yield k) Free False False"
| "rw_pos ''unlock_upgrade'' Rw_Unlock_Upgrade Upgradable False False"
| "rw_pos ''unlock_upgrade_and_lock'' (Rw_Upgrade_Lock k) Upgradable False False"
| "rw_pos ''unlock_upgrade_and_lock'' (Rw_Upgrade_Lock_Yield k) Upgradable False False"
| "rw_pos ''unlock_upgrade_and_lock_shared'' Rw_Upgrade_To_Shared Upgradable False False"
| "rw_pos ''unlock_and_lock_upgrade'' Rw_To_Upgrade Writes False False"
| "rw_pos ''unlock_and_lock_upgrade'' Rw_To_Upgrade_Clear Writes False True"

definition rw_returns_int :: "string \<Rightarrow> bool" where
  "rw_returns_int nm \<longleftrightarrow> nm \<in> {''lock'', ''unlock'', ''lock_shared'', ''unlock_shared''}"

definition rw_done :: "string \<Rightarrow> rw_pc" where
  "rw_done nm = (if rw_returns_int nm then Rw_Ret 0 else Rw_Ret_Void)"

text \<open>A slice of a call: it stays before its effect, or takes effect.\<close>

definition rw_progress ::
    "nat \<Rightarrow> (nat \<Rightarrow> rw_mode) \<Rightarrow> (nat \<Rightarrow> bool) \<Rightarrow> (nat \<Rightarrow> bool) \<Rightarrow> nat \<Rightarrow> string \<Rightarrow> 32 word \<Rightarrow> rw_pc slice_end \<Rightarrow> bool" where
  "rw_progress n M X Z t nm y e \<longleftrightarrow>
     (\<exists>k b z. e = Yield k \<and> rw_pos nm k (M t) b z \<and> rw_ok n y M (X(t := b)) (Z(t := z)))
     \<or> (\<exists>q. e = Yield (rw_done nm) \<and> rw_protocol (M t) nm = Some q
          \<and> rw_ok n y (M(t := q)) (X(t := False)) (Z(t := False)))"

lemma rw_progress_stay:
  "rw_pos nm k (M t) b z \<Longrightarrow> rw_ok n y M (X(t := b)) (Z(t := z)) \<Longrightarrow> rw_progress n M X Z t nm y (Yield k)"
  by (auto simp: rw_progress_def)

lemma rw_progress_effect:
  "rw_protocol (M t) nm = Some q \<Longrightarrow> k = rw_done nm \<Longrightarrow> rw_ok n y (M(t := q)) (X(t := False)) (Z(t := False))
    \<Longrightarrow> rw_progress n M X Z t nm y (Yield k)"
  by (auto simp: rw_progress_def)

lemma rw_progress_spin:
  assumes "\<And>k. rw_pos nm (again k) (M t) b z" "\<And>k. rw_pos nm (pause k) (M t) b z" "rw_ok n y M (X(t := b)) (Z(t := z))"
  shows "rw_progress n M X Z t nm y (spin again pause cnt)"
  using assms by (auto simp: spin_def Let_def intro: rw_progress_stay)

lemma upd_False: "\<not> f t \<Longrightarrow> f(t := False) = f"
  by (auto simp: fun_eq_iff)

lemmas rw_done_simps = rw_done_def rw_returns_int_def rw_protocol_def exclusive_def

lemma rw_progress_wait:
  assumes "flags_ok n M Z ub wb" "x = enc (reader_count n M X) ub wb" "\<not> X t" "\<not> Z t"
    and "\<And>k. rw_pos nm (again k) (M t) False False" "\<And>k. rw_pos nm (pause k) (M t) False False"
  shows "rw_progress n M X Z t nm x (spin again pause cnt)"
  using assms by (intro rw_progress_spin [where b = False and z = False]) (auto simp: upd_False intro: rw_okI)

lemma slice_lock:
  assumes w: "flags_ok n M Z ub wb" "x = enc (reader_count n M X) ub wb" and t: "t < n"
    and at: "M t = Free" "\<not> X t" "\<not> Z t"
    and bound: "reader_count n M X < 2 ^ 30" and st: "rw_step (Rw_Lock k) x = Inr (y, e)"
  shows "rw_progress n M X Z t ''lock'' y e"
proof (cases "x = 0")
  case True
  then have z: "reader_count n M X = 0" "\<not> ub" "\<not> wb" using w(2) enc_zero [OF bound, of ub wb] by auto
  have free: "M u = Free" if "u < n" for u
    using flags_okD(1,2) [OF w(1)] z that reader_count_zero [OF z(1) that] by (cases "M u") auto
  have "reader_count n (M(t := Writes)) (X(t := False)) = 0"
    using reader_count_upd [OF t, of M Writes X False] z(1) by simp
  moreover have "flags_ok n (M(t := Writes)) (Z(t := False)) False True"
    using free by (intro flags_write [OF w(1) t])
  ultimately have "rw_ok n RW_WRITER (M(t := Writes)) (X(t := False)) (Z(t := False))"
    by (intro rw_okI) (auto simp: enc_values)
  then show ?thesis using at st True
    by (auto simp: try_lock_def rw_done_simps intro!: rw_progress_effect)
next
  case False
  then have e: "y = x" "e = spin Rw_Lock Rw_Lock_Yield k" using st by (auto simp: try_lock_def)
  show ?thesis unfolding e using at by (intro rw_progress_wait [OF w]) (auto intro: rw_pos.intros)
qed

lemma slice_unlock:
  assumes w: "flags_ok n M Z ub wb" "x = enc (reader_count n M X) ub wb" and t: "t < n"
    and at: "M t = Writes" "\<not> X t" and st: "rw_step Rw_Unlock x = Inr (y, e)"
  shows "rw_progress n M X Z t ''unlock'' y e"
proof -
  have e: "y = enc (reader_count n M X) False False" "e = Yield (rw_done ''unlock'')"
    using st by (auto simp: w(2) enc_clear rw_done_simps)
  have "flags_ok n (M(t := Free)) (Z(t := False)) False False"
    using at by (intro flags_release [OF w(1) t]) (auto simp: exclusive_def)
  then show ?thesis unfolding e using at reader_count_upd [OF t, of M Free X False]
    by (intro rw_progress_effect rw_okI) (auto simp: rw_protocol_def)
qed

lemma slice_lock_shared:
  assumes w: "flags_ok n M Z ub wb" "x = enc (reader_count n M X) ub wb" and t: "t < n"
    and at: "M t = Free" "\<not> X t" "\<not> Z t" and st: "rw_step (Rw_Lock_Shared k) x = Inr (y, e)"
  shows "rw_progress n M X Z t ''lock_shared'' y e"
proof -
  have y: "y = enc (Suc (reader_count n M X)) ub wb" using st by (simp add: try_lock_shared_def w(2) enc_add_reader)
  show ?thesis
  proof (cases "ub \<or> wb")
    case False
    then have e: "e = Yield (rw_done ''lock_shared'')"
      using st enc_flags [of "reader_count n M X" ub wb] by (simp add: try_lock_shared_def w(2) rw_done_simps)
    have "flags_ok n (M(t := Reads)) (Z(t := False)) ub wb"
      using at False by (intro flags_reader [OF w(1) t]) (auto simp: exclusive_def)
    then show ?thesis unfolding e y using at reader_count_upd [OF t, of M Reads X False]
      by (intro rw_progress_effect rw_okI) (auto simp: rw_protocol_def)
  next
    case True
    then have e: "e = Yield (Rw_Shared_Undo k)"
      using st enc_flags [of "reader_count n M X" ub wb] by (auto simp: try_lock_shared_def w(2))
    have "reader_count n M (X(t := True)) = Suc (reader_count n M X)"
      using reader_count_upd_X [OF t, of M X True] at by simp
    then have "rw_ok n y M (X(t := True)) (Z(t := False))" using at w(1) by (intro rw_okI) (auto simp: y upd_False)
    then show ?thesis unfolding e using at by (intro rw_progress_stay [where b = True and z = False]) (auto intro: rw_pos.intros)
  qed
qed

lemma slice_shared_undo:
  assumes w: "flags_ok n M Z ub wb" "x = enc (reader_count n M X) ub wb" and t: "t < n"
    and at: "M t = Free" "X t" "\<not> Z t" and st: "rw_step (Rw_Shared_Undo k) x = Inr (y, e)"
  shows "rw_progress n M X Z t ''lock_shared'' y e"
proof -
  have "reader_count n M X = Suc (reader_count n M (X(t := False)))"
    using reader_count_upd_X [OF t, of M X False] at by simp
  then have "rw_ok n y M (X(t := False)) (Z(t := False))" using at w st
    by (intro rw_okI [of n M _ ub wb]) (auto simp: upd_False enc_sub_reader)
  then show ?thesis using st at by (auto intro!: rw_progress_spin [where b = False and z = False] rw_pos.intros)
qed

lemma slice_unlock_shared:
  assumes w: "flags_ok n M Z ub wb" "x = enc (reader_count n M X) ub wb" and t: "t < n"
    and at: "M t = Reads" "\<not> X t" "\<not> Z t" and st: "rw_step Rw_Unlock_Shared x = Inr (y, e)"
  shows "rw_progress n M X Z t ''unlock_shared'' y e"
proof -
  have c: "reader_count n M X = Suc (reader_count n (M(t := Free)) (X(t := False)))"
    using reader_count_upd [OF t, of M Free X False] at by simp
  have "flags_ok n (M(t := Free)) (Z(t := False)) ub wb"
    using at by (intro flags_reader [OF w(1) t]) (auto simp: exclusive_def)
  then have "rw_ok n y (M(t := Free)) (X(t := False)) (Z(t := False))"
    using st by (intro rw_okI) (auto simp: w(2) c enc_sub_reader)
  then show ?thesis using st at by (auto simp: rw_done_simps intro!: rw_progress_effect)
qed

lemma slice_to_shared:
  assumes w: "flags_ok n M Z ub wb" "x = enc (reader_count n M X) ub wb" and t: "t < n"
    and at: "M t = Writes" "\<not> X t" "\<not> Z t" and st: "rw_step Rw_To_Shared x = Inr (y, e)"
  shows "rw_progress n M X Z t ''unlock_and_lock_shared'' y e"
proof -
  have "reader_count n M (X(t := True)) = Suc (reader_count n M X)"
    using reader_count_upd_X [OF t, of M X True] at by simp
  then have "rw_ok n y M (X(t := True)) (Z(t := False))"
    using st at w(1) by (intro rw_okI [of n M _ ub wb]) (auto simp: w(2) upd_False enc_add_reader)
  then show ?thesis using st at by (auto intro!: rw_progress_stay [where b = True and z = False] rw_pos.intros)
qed

lemma slice_to_shared_unlock:
  assumes w: "flags_ok n M Z ub wb" "x = enc (reader_count n M X) ub wb" and t: "t < n"
    and at: "M t = Writes" "X t" "\<not> Z t" and st: "rw_step Rw_To_Shared_Unlock x = Inr (y, e)"
  shows "rw_progress n M X Z t ''unlock_and_lock_shared'' y e"
proof -
  have "flags_ok n (M(t := Reads)) (Z(t := False)) False False"
    using at by (intro flags_release [OF w(1) t]) (auto simp: exclusive_def)
  moreover have "reader_count n (M(t := Reads)) (X(t := False)) = reader_count n M X"
    using reader_count_upd [OF t, of M Reads X False] at by simp
  ultimately have "rw_ok n y (M(t := Reads)) (X(t := False)) (Z(t := False))"
    using st by (intro rw_okI) (auto simp: w(2) enc_clear)
  then show ?thesis using st at by (auto simp: rw_done_simps intro!: rw_progress_effect)
qed

lemma slice_lock_upgrade:
  assumes w: "flags_ok n M Z ub wb" "x = enc (reader_count n M X) ub wb" and t: "t < n"
    and at: "M t = Free" "\<not> X t" "\<not> Z t" and st: "rw_step (Rw_Lock_Upgrade k) x = Inr (y, e)"
  shows "rw_progress n M X Z t ''lock_upgrade'' y e"
proof -
  have y: "y = enc (reader_count n M X) True wb" using st by (simp add: try_lock_upgrade_def w(2) enc_or_upgraded)
  show ?thesis
  proof (cases "ub \<or> wb")
    case False
    then have e: "e = Yield (rw_done ''lock_upgrade'')" "\<not> ub" "\<not> wb"
      using st enc_flags [of "reader_count n M X" ub wb] by (auto simp: try_lock_upgrade_def w(2) rw_done_simps)
    have "flags_ok n (M(t := Upgradable)) (Z(t := False)) True False"
      using w(1) e(2,3) t by (intro flags_upgrade) auto
    then show ?thesis unfolding e(1) y using at e(3) reader_count_upd [OF t, of M Upgradable X False]
      by (intro rw_progress_effect rw_okI) (auto simp: rw_protocol_def)
  next
    case True
    then have e: "e = spin Rw_Lock_Upgrade Rw_Lock_Upgrade_Yield k"
      using st enc_flags [of "reader_count n M X" ub wb] by (auto simp: try_lock_upgrade_def w(2))
    show ?thesis unfolding e using at by (intro rw_progress_wait [OF flags_mark [OF w(1) True] y]) (auto intro: rw_pos.intros)
  qed
qed

lemma slice_unlock_upgrade:
  assumes w: "flags_ok n M Z ub wb" "x = enc (reader_count n M X) ub wb" and t: "t < n"
    and at: "M t = Upgradable" "\<not> X t" "\<not> Z t" and st: "rw_step Rw_Unlock_Upgrade x = Inr (y, e)"
  shows "rw_progress n M X Z t ''unlock_upgrade'' y e"
proof -
  have "ub" using flags_okD(2) [OF w(1) t] at by simp
  moreover have "exclusive (M t)" using at by (simp add: exclusive_def)
  moreover from this have "\<not> wb" using flags_ok_alone(1) [OF w(1) t] flags_okD(1) [OF w(1)] at by (metis rw_mode.distinct(11))
  moreover have "flags_ok n (M(t := Free)) (Z(t := False)) False False"
    using at by (intro flags_release [OF w(1) t]) (auto simp: exclusive_def)
  ultimately have "rw_ok n y (M(t := Free)) (X(t := False)) (Z(t := False))"
    using st at reader_count_upd [OF t, of M Free X False] by (intro rw_okI) (auto simp: w(2) enc_sub_upgraded)
  then show ?thesis using st at by (auto simp: rw_done_simps intro!: rw_progress_effect)
qed

lemma slice_upgrade_lock:
  assumes w: "flags_ok n M Z ub wb" "x = enc (reader_count n M X) ub wb" and t: "t < n"
    and at: "M t = Upgradable" "\<not> X t" "\<not> Z t"
    and bound: "reader_count n M X < 2 ^ 30" and st: "rw_step (Rw_Upgrade_Lock k) x = Inr (y, e)"
  shows "rw_progress n M X Z t ''unlock_upgrade_and_lock'' y e"
proof (cases "x = RW_UPGRADED")
  case True
  then have z: "reader_count n M X = 0" using w(2) enc_upgraded [OF bound, of ub wb] by auto
  have "exclusive (M t)" using at by (simp add: exclusive_def)
  then have free: "M u = Free" if "u < n" "u \<noteq> t" for u
    using flags_ok_alone(1,2) [OF w(1) t _ that] reader_count_zero [OF z that(1)] by (cases "M u") auto
  have "flags_ok n (M(t := Writes)) (Z(t := False)) False True" using free by (intro flags_write [OF w(1) t])
  moreover have "reader_count n (M(t := Writes)) (X(t := False)) = 0"
    using reader_count_upd [OF t, of M Writes X False] z by simp
  ultimately have "rw_ok n RW_WRITER (M(t := Writes)) (X(t := False)) (Z(t := False))"
    by (intro rw_okI) (auto simp: enc_values)
  then show ?thesis using at st True
    by (auto simp: try_unlock_upgrade_and_lock_def rw_done_simps intro!: rw_progress_effect)
next
  case False
  then have e: "y = x" "e = spin Rw_Upgrade_Lock Rw_Upgrade_Lock_Yield k" using st by (auto simp: try_unlock_upgrade_and_lock_def)
  show ?thesis unfolding e using at by (intro rw_progress_wait [OF w]) (auto intro: rw_pos.intros)
qed

lemma slice_upgrade_to_shared:
  assumes w: "flags_ok n M Z ub wb" "x = enc (reader_count n M X) ub wb" and t: "t < n"
    and at: "M t = Upgradable" "\<not> X t" "\<not> Z t" and st: "rw_step Rw_Upgrade_To_Shared x = Inr (y, e)"
  shows "rw_progress n M X Z t ''unlock_upgrade_and_lock_shared'' y e"
proof -
  have "ub" using flags_okD(2) [OF w(1) t] at by simp
  moreover have "exclusive (M t)" using at by (simp add: exclusive_def)
  moreover from this have "\<not> wb" using flags_ok_alone(1) [OF w(1) t] flags_okD(1) [OF w(1)] at by (metis rw_mode.distinct(11))
  moreover have "flags_ok n (M(t := Reads)) (Z(t := False)) False False"
    using at by (intro flags_release [OF w(1) t]) (auto simp: exclusive_def)
  moreover have "x + (RW_READER - RW_UPGRADED) = x + RW_READER - RW_UPGRADED" by (simp add: algebra_simps)
  ultimately have "rw_ok n y (M(t := Reads)) (X(t := False)) (Z(t := False))"
    using st at reader_count_upd [OF t, of M Reads X False]
    by (intro rw_okI) (auto simp: w(2) enc_sub_upgraded enc_add_reader)
  then show ?thesis using st at by (auto simp: rw_done_simps intro!: rw_progress_effect)
qed

lemma slice_to_upgrade:
  assumes w: "flags_ok n M Z ub wb" "x = enc (reader_count n M X) ub wb" and t: "t < n"
    and at: "M t = Writes" "\<not> X t" "\<not> Z t" and st: "rw_step Rw_To_Upgrade x = Inr (y, e)"
  shows "rw_progress n M X Z t ''unlock_and_lock_upgrade'' y e"
proof -
  have "rw_ok n y M (X(t := False)) (Z(t := True))"
    using flags_to_upgrade [OF w(1) t] st at by (intro rw_okI) (auto simp: w(2) upd_False enc_or_upgraded)
  then show ?thesis using st at by (auto intro!: rw_progress_stay [where b = False and z = True] rw_pos.intros)
qed

lemma slice_to_upgrade_clear:
  assumes w: "flags_ok n M Z ub wb" "x = enc (reader_count n M X) ub wb" and t: "t < n"
    and at: "M t = Writes" "\<not> X t" "Z t" and st: "rw_step Rw_To_Upgrade_Clear x = Inr (y, e)"
  shows "rw_progress n M X Z t ''unlock_and_lock_upgrade'' y e"
proof -
  note f = flags_to_upgrade_clear [OF w(1) t at(3)]
  have "rw_ok n y (M(t := Upgradable)) (X(t := False)) (Z(t := False))"
    using st at f reader_count_upd [OF t, of M Upgradable X False] by (intro rw_okI [OF f(1)]) (auto simp: w(2) enc_sub_writer)
  then show ?thesis using st at by (auto simp: rw_done_simps intro!: rw_progress_effect)
qed

lemma rw_slice:
  assumes ok: "rw_ok n x M X Z" and t: "t < n" and bound: "reader_count n M X < 2 ^ 30"
    and pos: "rw_pos nm c (M t) (X t) (Z t)" and st: "rw_step c x = Inr (y, e)"
  shows "rw_progress n M X Z t nm y e"
proof -
  from ok obtain ub wb where w: "flags_ok n M Z ub wb" "x = enc (reader_count n M X) ub wb" by (auto simp: rw_ok_def)
  have pause: "rw_progress n M X Z t nm x (Yield k)" if "rw_pos nm k (M t) False False" "\<not> X t" "\<not> Z t" for k
    using that ok by (intro rw_progress_stay [where b = False and z = False]) (auto simp: upd_False)
  from pos show ?thesis
  proof cases
    case (1 k)
    with slice_lock [OF w t _ _ _ bound, of k] st show ?thesis by simp
  next
    case (2 k)
    with pause [of "Rw_Lock k"] st show ?thesis by (auto intro: rw_pos.intros)
  next
    case 3
    with slice_unlock [OF w t] st show ?thesis by simp
  next
    case (4 k)
    with slice_lock_shared [OF w t, of k] st show ?thesis by simp
  next
    case (5 k)
    with slice_shared_undo [OF w t, of k] st show ?thesis by simp
  next
    case (6 k)
    with pause [of "Rw_Lock_Shared k"] st show ?thesis by (auto intro: rw_pos.intros)
  next
    case 7
    with slice_unlock_shared [OF w t] st show ?thesis by simp
  next
    case 8
    with slice_to_shared [OF w t] st show ?thesis by simp
  next
    case 9
    with slice_to_shared_unlock [OF w t] st show ?thesis by simp
  next
    case (10 k)
    with slice_lock_upgrade [OF w t, of k] st show ?thesis by simp
  next
    case (11 k)
    with pause [of "Rw_Lock_Upgrade k"] st show ?thesis by (auto intro: rw_pos.intros)
  next
    case 12
    with slice_unlock_upgrade [OF w t] st show ?thesis by simp
  next
    case (13 k)
    with slice_upgrade_lock [OF w t _ _ _ bound, of k] st show ?thesis by simp
  next
    case (14 k)
    with pause [of "Rw_Upgrade_Lock k"] st show ?thesis by (auto intro: rw_pos.intros)
  next
    case 15
    with slice_upgrade_to_shared [OF w t] st show ?thesis by simp
  next
    case 16
    with slice_to_upgrade [OF w t] st show ?thesis by simp
  next
    case 17
    with slice_to_upgrade_clear [OF w t] st show ?thesis by simp
  qed
qed

section \<open>Runs of the lock\<close>

text \<open>What is known of a thread: what it holds, its calls, and its running call.\<close>

definition rw_value :: "string \<Rightarrow> value_wrapper" where
  "rw_value nm = (if rw_returns_int nm then vw_int 0 else void_v)"

fun rw_thread :: "rw_mode \<Rightarrow> bool \<Rightarrow> bool \<Rightarrow> string list \<Rightarrow> (string \<times> unit \<times> rw_pc \<times> value_wrapper option) option \<Rightarrow> bool" where
  "rw_thread m b z ns None \<longleftrightarrow> follows rw_protocol Free ns = Some m \<and> \<not> b \<and> \<not> z"
| "rw_thread m b z ns (Some (nm, a, c, None)) \<longleftrightarrow> rw_pos nm c m b z \<and> ns \<noteq> [] \<and> last ns = nm
     \<and> follows rw_protocol Free (butlast ns) = Some m"
| "rw_thread m b z ns (Some (nm, a, c, Some v)) \<longleftrightarrow> c = rw_done nm \<and> v = rw_value nm \<and> \<not> b \<and> \<not> z
     \<and> follows rw_protocol Free ns = Some m"

definition rw_inv :: "nat \<Rightarrow> 32 word \<Rightarrow> (nat \<Rightarrow> rw_mode) \<Rightarrow> (nat \<Rightarrow> string list) \<Rightarrow> (unit, rw_pc) active \<Rightarrow> bool" where
  "rw_inv n x M N L \<longleftrightarrow> (\<exists>X Z. rw_ok n x M X Z \<and> (\<forall>t. rw_thread (M t) (X t) (Z t) (N t) (L t))) \<and> (\<forall>t\<ge>n. L t = None)"

lemma rw_pos_protocol: "rw_pos nm c m b z \<Longrightarrow> rw_protocol m nm \<noteq> None"
  by (induction rule: rw_pos.induct) (simp_all add: rw_protocol_def)

lemma rw_thread_not_both: "rw_thread m b z ns l \<Longrightarrow> \<not> (m = Reads \<and> b)"
  by (induction m b z ns l rule: rw_thread.induct) (auto elim: rw_pos.cases)

lemma rw_call_start:
  "(nm, a, c) \<in> rw_calls \<Longrightarrow> rw_protocol m nm \<noteq> None \<Longrightarrow> rw_pos nm c m False False"
  by (auto simp: rw_calls_def rw_target_calls_def rw_protocol_def intro: rw_pos.intros split: if_splits)

lemma rw_inv_invoke:
  assumes inv: "rw_inv n x M N L" and L: "L t = None" and c: "(nm, a, c) \<in> rw_calls" and u: "protocol_use n rw_protocol Free t (N t) nm"
  shows "rw_inv n x M (N(t := N t @ [nm])) (L(t \<mapsto> (nm, a, c, None)))"
proof -
  from inv obtain X Z where ok: "rw_ok n x M X Z" and th: "\<And>t. rw_thread (M t) (X t) (Z t) (N t) (L t)"
    and n: "\<forall>t\<ge>n. L t = None" by (auto simp: rw_inv_def)
  have t: "follows rw_protocol Free (N t) = Some (M t)" "\<not> X t" "\<not> Z t" using th [of t] L by auto
  then have "rw_protocol (M t) nm \<noteq> None" using u by (simp add: protocol_use_def follows_snoc)
  then have "rw_thread (M t) (X t) (Z t) (N t @ [nm]) (Some (nm, a, c, None))"
    using rw_call_start [OF c] t by simp
  moreover have "t < n" using u by (simp add: protocol_use_def)
  ultimately show ?thesis using ok th n unfolding rw_inv_def by (intro conjI exI [of _ X] exI [of _ Z]) auto
qed

text \<open>A slice of a running call: what the thread holds changes when the call takes effect.\<close>

lemma rw_inv_step:
  assumes inv: "rw_inv n x M N L" and n: "n < 2 ^ 30" and L: "L t = Some (nm, a, c, l)" and st: "rw_step c x = Inr (y, e)"
  shows "l = None \<Longrightarrow> \<exists>k. e = Yield k \<and> (rw_inv n y M N (L(t \<mapsto> (nm, a, k, None)))
      \<or> (\<exists>q. rw_protocol (M t) nm = Some q \<and> rw_inv n y (M(t := q)) N (L(t \<mapsto> (nm, a, k, Some (rw_value nm))))))"
    "l \<noteq> None \<Longrightarrow> l = Some (rw_value nm) \<and> e = Return (rw_value nm) \<and> rw_inv n y M N (L(t := None))"
proof -
  from inv obtain X Z where ok: "rw_ok n x M X Z" and th: "\<And>t. rw_thread (M t) (X t) (Z t) (N t) (L t)"
    and N: "\<forall>t\<ge>n. L t = None" by (auto simp: rw_inv_def)
  have t: "t < n" using L N by (metis not_less option.distinct(1))
  have b: "reader_count n M X < 2 ^ 30"
    using reader_count_bound [of n M X] rw_thread_not_both [OF th] n by (meson le_less_trans)
  show "\<exists>k. e = Yield k \<and> (rw_inv n y M N (L(t \<mapsto> (nm, a, k, None)))
      \<or> (\<exists>q. rw_protocol (M t) nm = Some q \<and> rw_inv n y (M(t := q)) N (L(t \<mapsto> (nm, a, k, Some (rw_value nm))))))"
    if l: "l = None"
  proof -
    have pos: "rw_pos nm c (M t) (X t) (Z t)" and ns: "N t \<noteq> []" "last (N t) = nm" "follows rw_protocol Free (butlast (N t)) = Some (M t)"
      using th [of t] L l by auto
    from rw_slice [OF ok t b pos st] consider
      (stay) k b z where "e = Yield k" "rw_pos nm k (M t) b z" "rw_ok n y M (X(t := b)) (Z(t := z))"
      | (eff) q where "e = Yield (rw_done nm)" "rw_protocol (M t) nm = Some q" "rw_ok n y (M(t := q)) (X(t := False)) (Z(t := False))"
      by (auto simp: rw_progress_def)
    then show ?thesis
    proof cases
      case stay
      then have "rw_inv n y M N (L(t \<mapsto> (nm, a, k, None)))"
        using th ns N t unfolding rw_inv_def by (intro conjI exI [of _ "X(t := b)"] exI [of _ "Z(t := z)"]) auto
      then show ?thesis using stay(1) by blast
    next
      case eff
      then have "follows rw_protocol Free (N t) = Some q" using follows_last [OF ns(1,3)] ns(2) by simp
      then have "rw_inv n y (M(t := q)) N (L(t \<mapsto> (nm, a, rw_done nm, Some (rw_value nm))))"
        using th N t eff(3) unfolding rw_inv_def by (intro conjI exI [of _ "X(t := False)"] exI [of _ "Z(t := False)"]) auto
      then show ?thesis using eff(1,2) by blast
    qed
  qed
  show "l = Some (rw_value nm) \<and> e = Return (rw_value nm) \<and> rw_inv n y M N (L(t := None))" if l: "l \<noteq> None"
  proof -
    from l obtain v where v: "l = Some v" by blast
    have d: "c = rw_done nm" "v = rw_value nm" "\<not> X t" "\<not> Z t" "follows rw_protocol Free (N t) = Some (M t)"
      using th [of t] L v by auto
    then have "y = x" "e = Return (rw_value nm)" using st by (auto simp: rw_done_def rw_value_def split: if_splits)
    moreover have "rw_inv n x M N (L(t := None))"
      using th ok N d unfolding rw_inv_def by (intro conjI exI [of _ X] exI [of _ Z]) auto
    ultimately show ?thesis using v d(2) by simp
  qed
qed

lemma rw_inv_start: "rw_inv n 0 (\<lambda>_. Free) (\<lambda>_. []) Map.empty"
proof -
  have "flags_ok n (\<lambda>_. Free) (\<lambda>_. False) False False" by (simp add: flags_ok_def exclusive_def)
  then have "rw_ok n 0 (\<lambda>_. Free) (\<lambda>_. False) (\<lambda>_. False)"
    by (rule rw_okI) (simp add: reader_count_def enc_values)
  then show ?thesis by (auto simp: rw_inv_def intro!: exI [of _ "\<lambda>_. False"])
qed

section \<open>Mutual exclusion\<close>

text \<open>
  For the whole class the specification says nothing but what the methods return; the invariant
  says what the threads hold.
\<close>

definition rw_plain_checker :: "(unit, unit) linearizability_checker" where
  "rw_plain_checker = \<lparr>specification_methods = (\<lambda>nm. if nm \<in> fst ` rw_calls then Some (\<lambda>s a. (s, rw_value nm)) else None),
     first_state = ()\<rparr>"

lemma rw_value_eq: "vw_eq (rw_value nm) (rw_value nm) = Inr True"
  by (simp add: rw_value_def)

lemma rw_names: "(nm, a, c) \<in> rw_calls \<Longrightarrow> nm \<in> fst ` rw_calls"
  by force

lemma rw_plain_points:
  assumes n: "n < 2 ^ 30"
  shows "linearization_points rw_plain_checker rw_calls (protocol_use n rw_protocol Free) rw_step 0
    (\<lambda>x s N L. \<exists>M. rw_inv n x M N L \<and> (\<forall>t nm a c l. L t = Some (nm, a, c, l) \<longrightarrow> nm \<in> fst ` rw_calls))"
    (is "linearization_points ?C ?calls ?use _ _ ?inv")
proof
  show "typed_spec ?C" by (auto simp: typed_spec_def rw_plain_checker_def rw_value_def split: if_splits)
  show "specification_methods ?C nm \<noteq> None" if "(nm, a, c) \<in> ?calls" for nm a c
    using rw_names [OF that] by (simp add: rw_plain_checker_def)
  show "?inv 0 (first_state ?C) (\<lambda>_. []) Map.empty" using rw_inv_start by auto
  show "?inv x s (N(t := N t @ [nm])) (L(t \<mapsto> (nm, a, c, None)))"
    if inv: "?inv x s N L" and L: "L t = None" "(nm, a, c) \<in> ?calls" "?use t (N t) nm" for x s N L t nm a c
  proof -
    from inv obtain M where M: "rw_inv n x M N L" "\<forall>t nm a c l. L t = Some (nm, a, c, l) \<longrightarrow> nm \<in> fst ` rw_calls" by blast
    then show ?thesis using rw_inv_invoke [OF M(1) L] rw_names [OF L(2)] by (intro exI [of _ M]) (auto split: if_splits)
  qed
  fix x s N L t nm a c l y e
  assume inv: "?inv x s N L" and L: "L t = Some (nm, a, c, l)" and st: "rw_step c x = Inr (y, e)"
  then obtain M where M: "rw_inv n x M N L" and nms: "\<And>t nm a c l. L t = Some (nm, a, c, l) \<Longrightarrow> nm \<in> fst ` rw_calls" by blast
  note step = rw_inv_step [OF M n L st]
  have eff: "takes_effect ?C nm a s None s (Some (rw_value nm))"
    by (rule takes_effectI) (use nms [OF L] in \<open>simp_all add: rw_plain_checker_def\<close>)
  show "\<exists>s' l'. takes_effect ?C nm a s l s' l' \<and> (case e of Yield k \<Rightarrow> ?inv y s' N (L(t \<mapsto> (nm, a, k, l')))
      | Futex_Wait k _ _ \<Rightarrow> ?inv y s' N (L(t \<mapsto> (nm, a, k, l')))
      | Return ret \<Rightarrow> (\<exists>v. l' = Some v \<and> vw_eq v ret = Inr True) \<and> ?inv y s' N (L(t := None)))"
  proof (cases "l = None")
    case True
    from step(1) [OF this] obtain k l' M' where k: "e = Yield k" "l' = None \<or> l' = Some (rw_value nm)"
      "rw_inv n y M' N (L(t \<mapsto> (nm, a, k, l')))" by blast
    then have "?inv y s N (L(t \<mapsto> (nm, a, k, l')))" using nms L by (auto split: if_splits)
    moreover have "takes_effect ?C nm a s l s l'" using k(2) eff True by auto
    ultimately have "takes_effect ?C nm a s l s l' \<and> ?inv y s N (L(t \<mapsto> (nm, a, k, l')))" by (intro conjI)
    then show ?thesis unfolding k(1) slice_end.case by (intro exI [where x = s] exI [where x = l'])
  next
    case False
    note d = step(2) [OF False]
    then have "?inv y s N (L(t := None))" using nms by (auto split: if_splits)
    then show ?thesis using d rw_value_eq [of nm] by (intro exI [of _ s] exI [of _ l]) auto
  qed
qed

lemma rw_holds_inv:
  assumes run: "target_run rw_calls (protocol_use n rw_protocol Free) rw_step 0 x tk h" and n: "n < 2 ^ 30"
  shows "\<exists>M X Z. rw_ok n x M X Z \<and> (\<forall>t m. idle_phase rw_protocol Free tk h t = Some m \<longrightarrow> M t = m \<and> \<not> X t \<and> \<not> Z t)"
proof -
  from helping_points.run_has_points [OF own_points_help [OF rw_plain_points [OF n]] run] obtain p val s L M where
    ls: "lin_state rw_plain_checker tk h p val s L" and inv: "rw_inv n x M (thread_calls tk h) L" by blast
  from inv obtain X Z where ok: "rw_ok n x M X Z" and th: "\<And>t. rw_thread (M t) (X t) (Z t) (thread_calls tk h t) (L t)"
    by (auto simp: rw_inv_def)
  have "M t = m \<and> \<not> X t \<and> \<not> Z t" if m: "idle_phase rw_protocol Free tk h t = Some m" for t m
    using idle_phase_inactive [OF ls m] th [of t] by auto
  with ok show ?thesis by blast
qed

section \<open>The four tested methods\<close>

text \<open>The state of the specification, by what the threads hold.\<close>

definition shared_level :: "nat \<Rightarrow> (nat \<Rightarrow> rw_mode) \<Rightarrow> int" where
  "shared_level n M = (if \<exists>t<n. M t = Writes then - 1 else int (reader_count n M (\<lambda>_. False)))"

definition no_writer :: "nat \<Rightarrow> (nat \<Rightarrow> rw_mode) \<Rightarrow> nat \<Rightarrow> bool" where
  "no_writer n M t \<longleftrightarrow> (\<forall>u<n. u \<noteq> t \<longrightarrow> M u \<noteq> Writes)"

lemma reader_count_none: "(\<And>u. u < n \<Longrightarrow> M u \<noteq> Reads) \<Longrightarrow> reader_count n M (\<lambda>_. False) = 0"
  by (simp add: reader_count_def)

lemma shared_level_readers:
  assumes "t < n" "no_writer n M t" "m \<noteq> Writes" "M t \<noteq> Writes"
  shows "shared_level n (M(t := m)) + of_bool (M t = Reads) = shared_level n M + of_bool (m = Reads)"
proof -
  have upd: "(\<lambda>_ :: nat. False)(t := False) = (\<lambda>_. False)" by (simp add: fun_eq_iff)
  have "\<not> (\<exists>u<n. M u = Writes)" "\<not> (\<exists>u<n. (M(t := m)) u = Writes)" using assms by (auto simp: no_writer_def)
  then have "shared_level n M = int (reader_count n M (\<lambda>_. False))"
    "shared_level n (M(t := m)) = int (reader_count n (M(t := m)) (\<lambda>_. False))"
    unfolding shared_level_def by (simp_all only: if_False)
  then show ?thesis using reader_count_upd [OF assms(1), of M m "\<lambda>_. False" False]
    unfolding upd by (auto split: if_splits)
qed

lemma shared_level_writer:
  assumes "t < n" "\<And>u. u < n \<Longrightarrow> u \<noteq> t \<Longrightarrow> M u = Free"
  shows "shared_level n (M(t := Writes)) = - 1" "shared_level n (M(t := Free)) = 0"
    "M t = Free \<Longrightarrow> shared_level n M = 0"
proof -
  show "shared_level n (M(t := Writes)) = - 1" using assms(1) by (auto simp: shared_level_def)
  have f: "shared_level n M' = 0" if "\<And>u. u < n \<Longrightarrow> M' u = Free" for M'
    using reader_count_none [of n M'] that by (auto simp: shared_level_def)
  show "shared_level n (M(t := Free)) = 0" by (rule f) (use assms(2) in auto)
  show "shared_level n M = 0" if "M t = Free" by (rule f) (use assms(2) that in \<open>metis\<close>)
qed

text \<open>A call of a tested method takes effect as the specification says.\<close>

definition tested :: "string \<Rightarrow> bool" where
  "tested nm \<longleftrightarrow> nm \<in> {''lock'', ''unlock'', ''lock_shared'', ''unlock_shared''}"

lemma tested_effect:
  assumes before: "rw_ok n x M X Z" and after: "rw_ok n y (M(t := q)) X' Z'" and t: "t < n"
    and nm: "tested nm" and q: "rw_protocol (M t) nm = Some q" and s: "locked_state s = shared_level n M"
  shows "\<exists>m s'. specification_methods Shared_checker nm = Some m \<and> m s a = (s', rw_value nm) \<and> locked_state s' = shared_level n (M(t := q))"
proof -
  obtain ub wb ub' wb' where f: "flags_ok n M Z ub wb" "flags_ok n (M(t := q)) Z' ub' wb'"
    using before after by (auto simp: rw_ok_def)
  have alone: "M u = Free" if "M t = Writes \<or> q = Writes" "u < n" "u \<noteq> t" for u
    using that flags_ok_alone(5) [OF f(1) t, of u] flags_ok_alone(5) [OF f(2) t, of u] by (auto simp: exclusive_def)
  have readers: "no_writer n M t" if r: "M t = Reads \<or> q = Reads"
    unfolding no_writer_def
  proof (intro allI impI notI)
    fix u assume u: "u < n" "u \<noteq> t" "M u = Writes"
    then show False using r flags_ok_alone(3) [OF f(1) u(1) _ t] flags_ok_alone(3) [OF f(2) u(1) _ t] by (auto simp: exclusive_def)
  qed
  consider "nm = ''lock''" "M t = Free" "q = Writes" | "nm = ''unlock''" "M t = Writes" "q = Free"
    | "nm = ''lock_shared''" "M t = Free" "q = Reads" | "nm = ''unlock_shared''" "M t = Reads" "q = Free"
    using nm q by (auto simp: tested_def rw_protocol_def split: if_splits)
  then show ?thesis
  proof cases
    case 1
    with shared_level_writer [OF t, of M] alone s show ?thesis
      by (simp add: method_tables rw_value_def rw_returns_int_def Shared_lock_def Seq_Specs.FREE_def Seq_Specs.WRITER_def)
  next
    case 2
    with shared_level_writer [OF t, of M] alone show ?thesis
      by (simp add: method_tables rw_value_def rw_returns_int_def Shared_unlock_def Seq_Specs.FREE_def)
  next
    case 3
    have "locked_state s \<noteq> - 1" using s 3 readers by (auto simp: shared_level_def no_writer_def)
    with 3 shared_level_readers [OF t, of M q] readers s show ?thesis
      by (simp add: method_tables rw_value_def rw_returns_int_def Shared_lock_shared_def Seq_Specs.READER_def Seq_Specs.WRITER_def)
  next
    case 4
    with shared_level_readers [OF t, of M q] readers s show ?thesis
      by (simp add: method_tables rw_value_def rw_returns_int_def Shared_unlock_shared_def Seq_Specs.READER_def)
  qed
qed

text \<open>The protocol of the verifier is the protocol of the lock, for these methods.\<close>

fun status_of :: "rw_mode \<Rightarrow> nat" where
  "status_of Free = Strategy_Verifier.FREE"
| "status_of Reads = Strategy_Verifier.READER"
| "status_of Writes = Strategy_Verifier.WRITER"
| "status_of Upgradable = 2"

lemma status_protocol:
  "shared_mutex_protocol (status_of m) nm = Some p \<Longrightarrow> \<exists>m'. rw_protocol m nm = Some m' \<and> status_of m' = p"
  by (cases m) (auto simp: shared_mutex_protocol_def rw_protocol_def Strategy_Verifier.FREE_def Strategy_Verifier.READER_def
      Strategy_Verifier.WRITER_def split: if_splits)

lemma status_follows:
  "follows shared_mutex_protocol (status_of m) ns = Some p \<Longrightarrow> \<exists>m'. follows rw_protocol m ns = Some m' \<and> status_of m' = p"
proof (induction ns arbitrary: m)
  case (Cons nm ns)
  then obtain p1 where p1: "shared_mutex_protocol (status_of m) nm = Some p1" "follows shared_mutex_protocol p1 ns = Some p"
    by (auto split: option.splits)
  from status_protocol [OF p1(1)] obtain m1 where "rw_protocol m nm = Some m1" "status_of m1 = p1" by blast
  then show ?case using Cons.IH [of m1] p1(2) by auto
qed auto

lemma status_use:
  "protocol_use n shared_mutex_protocol Strategy_Verifier.FREE t ns nm \<Longrightarrow> protocol_use n rw_protocol Free t ns nm"
  using status_follows [of Free "ns @ [nm]"] by (auto simp: protocol_use_def)

definition all_tested :: "(unit, rw_pc) active \<Rightarrow> bool" where
  "all_tested L \<longleftrightarrow> (\<forall>t nm a c l. L t = Some (nm, a, c, l) \<longrightarrow> tested nm)"

lemma all_tested_upd [simp]:
  "all_tested L \<Longrightarrow> tested nm \<Longrightarrow> all_tested (L(t \<mapsto> (nm, a, c, l)))" "all_tested L \<Longrightarrow> all_tested (L(t := None))"
  by (auto simp: all_tested_def)

definition tested_inv :: "nat \<Rightarrow> 32 word \<Rightarrow> shared_linear_mutex \<Rightarrow> (nat \<Rightarrow> string list) \<Rightarrow> (unit, rw_pc) active \<Rightarrow> bool" where
  "tested_inv n x s N L \<longleftrightarrow> (\<exists>M. rw_inv n x M N L \<and> locked_state s = shared_level n M) \<and> all_tested L"

lemma rw_inv_ok: "rw_inv n x M N L \<Longrightarrow> \<exists>X Z. rw_ok n x M X Z"
  by (auto simp: rw_inv_def)

lemma tested_inv_step:
  assumes inv: "tested_inv n x s N L" and n: "n < 2 ^ 30" and L: "L t = Some (nm, a, c, l)" and st: "rw_step c x = Inr (y, e)"
  shows "\<exists>s' l'. takes_effect Shared_checker nm a s l s' l' \<and> (case e of
      Yield k \<Rightarrow> tested_inv n y s' N (L(t \<mapsto> (nm, a, k, l')))
    | Futex_Wait k _ _ \<Rightarrow> tested_inv n y s' N (L(t \<mapsto> (nm, a, k, l')))
    | Return ret \<Rightarrow> (\<exists>v. l' = Some v \<and> vw_eq v ret = Inr True) \<and> tested_inv n y s' N (L(t := None)))"
proof -
  from inv obtain M where M: "rw_inv n x M N L" "locked_state s = shared_level n M"
    and nms: "all_tested L" unfolding tested_inv_def by blast
  have t: "t < n" using M(1) L by (metis not_less option.distinct(1) rw_inv_def)
  note step = rw_inv_step [OF M(1) n L st]
  have nm: "tested nm" using nms L by (auto simp: all_tested_def)
  have stay: "tested_inv n y s N L'" if "rw_inv n y M N L'" "all_tested L'" for L'
    using that M(2) unfolding tested_inv_def by blast
  show ?thesis
  proof (cases "l = None")
    case True
    from step(1) [OF this] consider k where "e = Yield k" "rw_inv n y M N (L(t \<mapsto> (nm, a, k, None)))"
      | k q where "e = Yield k" "rw_protocol (M t) nm = Some q" "rw_inv n y (M(t := q)) N (L(t \<mapsto> (nm, a, k, Some (rw_value nm))))"
      by blast
    then show ?thesis
    proof cases
      case 1
      then show ?thesis using stay [OF 1(2)] nms nm True by (intro exI [of _ s] exI [of _ l]) auto
    next
      case 2
      from rw_inv_ok [OF M(1)] rw_inv_ok [OF 2(3)] obtain X Z X' Z' where
        ok: "rw_ok n x M X Z" "rw_ok n y (M(t := q)) X' Z'" by blast
      from tested_effect [OF ok t nm 2(2) M(2), of a] obtain m s' where
        s': "specification_methods Shared_checker nm = Some m" "m s a = (s', rw_value nm)" "locked_state s' = shared_level n (M(t := q))"
        by blast
      have "tested_inv n y s' N (L(t \<mapsto> (nm, a, k, Some (rw_value nm))))"
        using 2(3) s'(3) nms nm unfolding tested_inv_def by (intro conjI exI [of _ "M(t := q)"]) simp_all
      then show ?thesis using takes_effectI [OF s'(1,2)] 2(1) True
        by (intro exI [of _ s'] exI [of _ "Some (rw_value nm)"]) simp
    qed
  next
    case False
    with step(2) stay [of "L(t := None)"] nms show ?thesis using rw_value_eq [of nm] by (intro exI [of _ s] exI [of _ l]) auto
  qed
qed

lemma Shared_typed: "typed_spec Shared_checker"
  by (rule typed_table) (fastforce simp: Shared_checker_def Shared_GetMethods_def split: if_splits)

lemma tested_points:
  assumes n: "n < 2 ^ 30"
  shows "linearization_points Shared_checker rw_target_calls (protocol_use n shared_mutex_protocol Strategy_Verifier.FREE) rw_step 0
    (tested_inv n)"
proof
  show "typed_spec Shared_checker" by (rule Shared_typed)
  show "specification_methods Shared_checker nm \<noteq> None" if "(nm, a, c) \<in> rw_target_calls" for nm a c
    using that by (auto simp: rw_target_calls_def method_tables)
  have "shared_level n (\<lambda>_. Free) = 0" by (simp add: shared_level_def reader_count_def)
  then show "tested_inv n 0 (first_state Shared_checker) (\<lambda>_. []) Map.empty"
    using rw_inv_start [of n] by (auto simp: tested_inv_def all_tested_def method_tables Seq_Specs.FREE_def)
  fix x s N L t nm a c
  assume inv: "tested_inv n x s N L" and L: "L t = None" and c: "(nm, a, c) \<in> rw_target_calls"
    and u: "protocol_use n shared_mutex_protocol Strategy_Verifier.FREE t (N t) nm"
  have c': "(nm, a, c) \<in> rw_calls" "tested nm" using c by (auto simp: rw_calls_def rw_target_calls_def tested_def)
  from inv obtain M where M: "rw_inv n x M N L" "locked_state s = shared_level n M"
    and nms: "all_tested L" unfolding tested_inv_def by blast
  from rw_inv_invoke [OF M(1) L c'(1) status_use [OF u]] M(2) nms c'(2)
  show "tested_inv n x s (N(t := N t @ [nm])) (L(t \<mapsto> (nm, a, c, None)))"
    unfolding tested_inv_def by (intro conjI exI [of _ M]) simp_all
qed (rule tested_inv_step [OF _ n])

section \<open>Sample executions\<close>

text \<open>Two threads: one takes and releases the lock for writing while the other one reads.\<close>

definition rw_builders :: "(32 word, unit, rw_pc) task_builder list" where
  "rw_builders = [target_builder ''lock'' (\<lambda>_. Rw_Lock 0) (\<lambda>_. ()), target_builder ''lock_shared'' (\<lambda>_. Rw_Lock_Shared 0) (\<lambda>_. ()),
     target_builder ''unlock'' (\<lambda>_. Rw_Unlock) (\<lambda>_. ()), target_builder ''unlock_shared'' (\<lambda>_. Rw_Unlock_Shared) (\<lambda>_. ())]"

definition rw_round :: "(both_histories option \<times> (32 word, unit, rw_pc, nat \<Rightarrow> nat option, script) rnd) res" where
  "rw_round = scripted_round rw_step (\<lambda>_ _. 0) Rw_Reset SharedMutexVerifier Map.empty 0 rw_builders
     (Check_recursive Shared_checker) 2 3 ([[0, 1, 2, 3], [1, 0, 2, 3], [2, 1, 0, 3]], [0, 0, 1, 1, 0, 0, 1, 1, 1])"

lemma rw_builders_ok: "builders_ok rw_target_calls (set rw_builders)"
  by (rule builders_ok_target) (auto simp: rw_builders_def rw_target_calls_def)

lemma rw_round_unreported: "unreported rw_round"
  by code_simp

text \<open>One thread holds the lock upgradably while the other one reads.\<close>

definition rw_call :: "string \<Rightarrow> rw_pc \<Rightarrow> (unit, rw_pc) coro" where
  "rw_call nm c = Coro_New (\<lambda>_. c) () nm 0"

definition rw_sample :: "slot \<Rightarrow> (unit, rw_pc) coro" where
  "rw_sample = (\<lambda>_. rw_call [] Rw_Ret_Void)(
     (0, 0) := (rw_call ''lock_shared'' (Rw_Lock_Shared 0))\<lparr>co_ctx := Rw_Ret 0, co_ret := vw_int 0, co_is_returned := True\<rparr>,
     (1, 0) := (rw_call ''lock_upgrade'' (Rw_Lock_Upgrade 0))\<lparr>co_ctx := Rw_Ret_Void, co_ret := void_v, co_is_returned := True\<rparr>)"

definition rw_sample_history :: seq_history where
  "rw_sample_history = [Invoke (0, 0) 0, Response (0, 0) (vw_int 0) 0, Invoke (1, 0) 1, Response (1, 0) void_v 1]"

lemma rw_sample_run: "target_run rw_calls (protocol_use 2 rw_protocol Free) rw_step 0 6 rw_sample rw_sample_history"
proof -
  let ?run = "target_run rw_calls (protocol_use 2 rw_protocol Free) rw_step 0"
  note step = target_run_call [where calls = rw_calls and step = rw_step and allowed = "protocol_use 2 rw_protocol Free"]
  let ?c = "rw_call ''lock_shared'' (Rw_Lock_Shared 0)" and ?d = "rw_call ''lock_upgrade'' (Rw_Lock_Upgrade 0)"
  let ?tk = "(\<lambda>_. rw_call [] Rw_Ret_Void)((0, 0) := ?c\<lparr>co_ctx := Rw_Ret 0, co_ret := vw_int 0, co_is_returned := True\<rparr>)"
  note defs = rw_call_def Coro_New_def protocol_use_def thread_calls_def rw_protocol_def rw_calls_def rw_target_calls_def
    try_lock_shared_def try_lock_upgrade_def rw_flags_def RW_READER_def RW_UPGRADED_def RW_WRITER_def
  have "?run 4 ?tk [Invoke (0, 0) 0, Response (0, 0) (vw_int 0) 0]"
    using step [OF target_run.start, where r = "(0, 0)" and c = ?c and y = 4 and k = "Rw_Ret 0" and z = 4 and v = "vw_int 0"]
    by (simp add: defs)
  from step [OF this, where r = "(1, 0)" and c = ?d and y = 6 and k = Rw_Ret_Void and z = 6 and v = void_v] show ?thesis
    by (simp add: defs rw_sample_def rw_sample_history_def)
qed

section \<open>Properties\<close>

text \<open>
  C15. A thread that holds the read-write spin lock for writing is alone: when threads keep the
  protocol of the lock, then, in every execution, while one thread holds the lock for writing no
  other thread holds it in any way, and while one holds it upgradably the others at most read. This is
  for all ten operations of the class, and for fewer than \<open>2 ^ 30\<close> threads, so that the counter of
  readers in the word does not wrap around.
\<close>

theorem rw_spin_lock_excludes:
  assumes run: "target_run rw_calls (protocol_use n rw_protocol Free) rw_step 0 x tk h" and n: "n < 2 ^ 30"
    and tu: "t < n" "u < n" "t \<noteq> u" and hold: "idle_phase rw_protocol Free tk h t = Some m" "idle_phase rw_protocol Free tk h u = Some m'" and ex: "exclusive m"
  shows "\<not> exclusive m' \<and> (m = Writes \<longrightarrow> m' = Free)"
proof -
  from rw_holds_inv [OF run n] obtain M X Z where ok: "rw_ok n x M X Z"
    and "M t = m" "M u = m'" using hold by blast
  with ex flags_ok_alone [of n M Z _ _ t u] tu show ?thesis by (auto simp: rw_ok_def exclusive_def)
qed

theorem rw_spin_lock_excludes_witness:
  "idle_phase rw_protocol Free rw_sample rw_sample_history 1 = Some Upgradable \<and> idle_phase rw_protocol Free rw_sample rw_sample_history 0 = Some Reads
     \<and> \<not> exclusive Reads"
proof -
  have h: "idle_phase rw_protocol Free rw_sample rw_sample_history 1 = Some Upgradable" "idle_phase rw_protocol Free rw_sample rw_sample_history 0 = Some Reads"
    by (simp_all add: idle_phase_def rw_sample_def rw_sample_history_def thread_calls_def rw_call_def Coro_New_def rw_protocol_def)
  then show ?thesis using rw_spin_lock_excludes [OF rw_sample_run _ _ _ _ h] by (simp add: exclusive_def)
qed

text \<open>
  C14. The four tested methods of the read-write spin lock are linearizable, and the tool does not
  report them: in every execution in which the threads keep the protocol that \<open>SharedMutexVerifier\<close>
  enforces, under any scheduler, the history is linearizable with respect to the shared mutex and the
  checker accepts it, and no round of the round robin and the random strategy with that verifier
  ends with a report.
\<close>

theorem rw_spin_lock_correct:
  assumes n: "n < 2 ^ 30" and "implements (env_body E) rw_step" "random_ok (env_random E)" "env_verifier E = SharedMutexVerifier"
  shows "(target_run rw_target_calls (protocol_use n shared_mutex_protocol Strategy_Verifier.FREE) rw_step 0 x tk h
        \<longrightarrow> linearizable Shared_checker tk h \<and> Check_recursive Shared_checker tk h = Inr True)
    \<and> (guarded_result rw_target_calls 0 Map.empty n E (Check_recursive Shared_checker) max_tasks res \<longrightarrow> res = None)"
proof (intro conjI impI)
  note run = helping_points.run_linearizable [OF own_points_help [OF tested_points [OF n]]]
    helping_points.run_accepted [OF own_points_help [OF tested_points [OF n]]]
  show "linearizable Shared_checker tk h" "Check_recursive Shared_checker tk h = Inr True"
    if "target_run rw_target_calls (protocol_use n shared_mutex_protocol Strategy_Verifier.FREE) rw_step 0 x tk h"
    using that by (rule run)+
  show "res = None" if "guarded_result rw_target_calls 0 Map.empty n E (Check_recursive Shared_checker) max_tasks res"
    by (rule no_guarded_strategy_reports [OF _ run(2) rw_never_fails assms(2,3) that])
      (unfold assms(4), rule shared_mutex_verifier.protocol_verifier_axioms)
qed


theorem rw_spin_lock_correct_witness: "\<exists>st'. rw_round = Inr (None, st')"
proof -
  obtain res st' where a: "rw_round = Inr (res, st')" using unreportedD [OF rw_round_unreported] by blast
  note r = scripted_guarded_result [OF a [unfolded rw_round_def] rw_builders_ok]
  have "res = None" using r by (intro mp [OF conjunct2 [OF rw_spin_lock_correct [where n = 2]]])
      (simp_all add: implements_step_body script_random_ok)
  then show ?thesis using a by blast
qed

end
