(* ===== verification/Futex_Mutex.thy ===== *)
theory Futex_Mutex
  imports Guarded_Targets
begin

text \<open>
  Model of the two futex mutexes, \<open>verifying/blocking/simple_mutex.cpp\<close> and
  \<open>verifying/blocking/nonlinear_mutex.cpp\<close>. They differ in one comparison. The first one is
  linearizable and excludes; the second one lets two threads hold the lock, and a round of the tool
  finds it.
\<close>

section \<open>The methods\<close>

text \<open>\<open>compare_exchange_strong\<close> leaves the value it has seen in \<open>old\<close>, which is returned.\<close>

definition CompareExchange :: "32 word \<Rightarrow> 32 word \<Rightarrow> 32 word \<Rightarrow> 32 word \<times> 32 word" where
  "CompareExchange locked old ne = (if locked = old then (ne, old) else (locked, locked))"

definition locked_addr :: addr where "locked_addr = 0"

text \<open>The system calls are trapped while a task runs.\<close>

definition trapped :: "'c hook_result res \<Rightarrow> 'c slice_end res" where
  "trapped r = (case r of Inr (Swallowed e) \<Rightarrow> Inr e | Inr Pass_To_Kernel \<Rightarrow> Inl (Assert_Failed ''not trapped'') | Inl err \<Rightarrow> Inl err)"

definition FutexWait :: "int \<Rightarrow> 'c \<Rightarrow> 'c slice_end res" where
  "FutexWait expected_value k = trapped (hook True (Futex_Wait_Private locked_addr expected_value) k)"

definition FutexWake :: "'c \<Rightarrow> 'c slice_end res" where
  "FutexWake k = trapped (hook True (Futex_Wake_Private locked_addr) k)"

lemma futex_calls [simp]: "FutexWait v k = Inr (Futex_Wait k locked_addr v)" "FutexWake k = Inr (Yield k)"
  by (simp_all add: FutexWait_def FutexWake_def hook_def trapped_def)

text \<open>Positions: the two compare-and-swaps of the loop, the load and the wait inside it.\<close>

datatype mx_pc = Mx_Lock | Mx_Loop | Mx_Contend | Mx_Load | Mx_Wait | Mx_Unlock | Mx_Store | Mx_Wake | Mx_Ret

text \<open>\<open>spins\<close> is the condition on the value seen by the compare-and-swap of the loop.\<close>

fun mutex_step :: "(32 word \<Rightarrow> bool) \<Rightarrow> (32 word, mx_pc) target_step" where
  "mutex_step spins Mx_Lock x = (let (x, old) = CompareExchange x 0 1 in Inr (x, Yield (if old = 0 then Mx_Ret else Mx_Loop)))"
| "mutex_step spins Mx_Loop x = (let (x, old) = CompareExchange x 0 2 in Inr (x, Yield (if spins old then Mx_Contend else Mx_Ret)))"
| "mutex_step spins Mx_Contend x = (let (x, old) = CompareExchange x 1 2 in Inr (x, Yield (if 0 <s old then Mx_Load else Mx_Loop)))"
| "mutex_step spins Mx_Load x = Inr (x, Yield (if x = 2 then Mx_Wait else Mx_Loop))"
| "mutex_step spins Mx_Wait x = res_bind (FutexWait 2 Mx_Load) (\<lambda>e. Inr (x, e))"
| "mutex_step spins Mx_Unlock x = Inr (x - 1, Yield (if x \<noteq> 1 then Mx_Store else Mx_Ret))"
| "mutex_step spins Mx_Store x = Inr (0, Yield Mx_Wake)"
| "mutex_step spins Mx_Wake x = res_bind (FutexWake Mx_Ret) (\<lambda>e. Inr (x, e))"
| "mutex_step spins Mx_Ret x = Inr (x, Return (vw_int 0))"

definition simple_mutex_step :: "(32 word, mx_pc) target_step" where
  "simple_mutex_step = mutex_step (\<lambda>old. old \<noteq> 0)"

definition nonlinear_mutex_step :: "(32 word, mx_pc) target_step" where
  "nonlinear_mutex_step = mutex_step (\<lambda>old. old = 1)"

definition Mutex_Reset :: "32 word \<Rightarrow> 32 word" where
  "Mutex_Reset x = 0"

definition mutex_calls :: "(unit, mx_pc) target_call set" where
  "mutex_calls = {(''Lock'', (), Mx_Lock), (''Unlock'', (), Mx_Unlock)}"

definition mutex_builders :: "(32 word, unit, mx_pc) task_builder list" where
  "mutex_builders = [target_builder ''Lock'' (\<lambda>_. Mx_Lock) (\<lambda>_. ()), target_builder ''Unlock'' (\<lambda>_. Mx_Unlock) (\<lambda>_. ())]"

lemma mutex_builders_ok: "builders_ok mutex_calls (set mutex_builders)"
  by (rule builders_ok_target) (auto simp: mutex_builders_def mutex_calls_def)

lemma mutex_never_fails: "never_fails calls allowed (mutex_step spins) o0"
proof (rule never_failsI)
  show "\<exists>y e. mutex_step spins c x = Inr (y, e)" for c x by (cases c) (simp_all add: CompareExchange_def)
qed

section \<open>Who holds the simple mutex\<close>

text \<open>
  \<open>M t\<close> is the phase of thread \<open>t\<close> in the protocol \<open>Lock\<close>, \<open>Unlock\<close>: 1 when it holds the lock. The word is
  0 exactly when no thread does.
\<close>

definition mx_ok :: "32 word \<Rightarrow> (nat \<Rightarrow> nat) \<Rightarrow> bool" where
  "mx_ok x M \<longleftrightarrow> x \<in> {0, 1, 2} \<and> (x = 0 \<longleftrightarrow> (\<forall>t. M t = 0)) \<and> (\<forall>t u. M t \<noteq> 0 \<longrightarrow> M u \<noteq> 0 \<longrightarrow> t = u)"

lemma mx_ok_stay: "mx_ok x M \<Longrightarrow> x \<noteq> 0 \<Longrightarrow> y = 1 \<or> y = 2 \<Longrightarrow> mx_ok y M"
  by (auto simp: mx_ok_def)

lemma mx_ok_lock: "mx_ok 0 M \<Longrightarrow> y = 1 \<or> y = 2 \<Longrightarrow> mx_ok y (M(t := 1))"
  by (auto simp: mx_ok_def split: if_splits)

lemma mx_ok_unlock: "mx_ok x M \<Longrightarrow> M t \<noteq> 0 \<Longrightarrow> mx_ok 0 (M(t := 0))"
  by (auto simp: mx_ok_def)

lemma mx_ok_held: "mx_ok x M \<Longrightarrow> M t \<noteq> 0 \<Longrightarrow> x = 1 \<or> x = 2"
  by (auto simp: mx_ok_def)

text \<open>The positions of a call that has not taken effect, and of one that has.\<close>

definition mx_pos :: "string \<Rightarrow> mx_pc \<Rightarrow> nat \<Rightarrow> bool" where
  "mx_pos nm c m \<longleftrightarrow> nm = ''Lock'' \<and> m = 0 \<and> c \<in> {Mx_Lock, Mx_Loop, Mx_Contend, Mx_Load, Mx_Wait}
     \<or> nm = ''Unlock'' \<and> m = 1 \<and> c \<in> {Mx_Unlock, Mx_Store}"

definition mx_done :: "string \<Rightarrow> mx_pc \<Rightarrow> bool" where
  "mx_done nm c \<longleftrightarrow> c = Mx_Ret \<or> nm = ''Unlock'' \<and> c = Mx_Wake"

fun mx_thread :: "nat \<Rightarrow> string list \<Rightarrow> (string \<times> unit \<times> mx_pc \<times> value_wrapper option) option \<Rightarrow> bool" where
  "mx_thread m ns None \<longleftrightarrow> follows mutex_protocol 0 ns = Some m"
| "mx_thread m ns (Some (nm, a, c, None)) \<longleftrightarrow> mx_pos nm c m \<and> ns \<noteq> [] \<and> last ns = nm
     \<and> follows mutex_protocol 0 (butlast ns) = Some m"
| "mx_thread m ns (Some (nm, a, c, Some v)) \<longleftrightarrow> mx_done nm c \<and> v = vw_int 0 \<and> follows mutex_protocol 0 ns = Some m"

definition mx_inv :: "32 word \<Rightarrow> (nat \<Rightarrow> nat) \<Rightarrow> (nat \<Rightarrow> string list) \<Rightarrow> (unit, mx_pc) active \<Rightarrow> bool" where
  "mx_inv x M N L \<longleftrightarrow> mx_ok x M \<and> (\<forall>t. mx_thread (M t) (N t) (L t))"

text \<open>
  What one slice does to a call that has not taken effect: it stays, with the lock held by whom it
  was, or it takes the lock when nobody holds it, or it gives it back.
\<close>

definition mx_progress :: "string \<Rightarrow> nat \<Rightarrow> (nat \<Rightarrow> nat) \<Rightarrow> 32 word \<Rightarrow> 32 word \<Rightarrow> mx_pc \<Rightarrow> bool" where
  "mx_progress nm t M x y k \<longleftrightarrow> mx_pos nm k (M t) \<and> mx_ok y M \<and> (x = 0 \<longleftrightarrow> y = 0)
     \<or> mx_done nm k \<and> (nm = ''Lock'' \<and> x = 0 \<and> y \<noteq> 0 \<and> mx_ok y (M(t := 1)) \<or> nm = ''Unlock'' \<and> x \<noteq> 0 \<and> y = 0 \<and> mx_ok 0 (M(t := 0)))"

lemma mx_slice:
  assumes ok: "mx_ok x M" and pos: "mx_pos nm c (M t)" and st: "simple_mutex_step c x = Inr (y, e)"
  shows "\<exists>k. (e = Yield k \<or> (\<exists>a v. e = Futex_Wait k a v)) \<and> mx_progress nm t M x y k"
proof -
  have x: "x = 0 \<or> x = 1 \<or> x = 2" using ok by (auto simp: mx_ok_def)
  note defs = mx_progress_def mx_pos_def mx_done_def simple_mutex_step_def CompareExchange_def
  from pos consider "nm = ''Lock''" "M t = 0" "c \<in> {Mx_Lock, Mx_Loop, Mx_Contend, Mx_Load, Mx_Wait}"
    | "nm = ''Unlock''" "M t = 1" "c = Mx_Unlock" | "nm = ''Unlock''" "M t = 1" "c = Mx_Store"
    by (auto simp: mx_pos_def)
  then show ?thesis
  proof cases
    case 1
    with st ok x mx_ok_lock [of M _ t] mx_ok_stay [of x M] show ?thesis
      by (auto simp: defs split: if_splits)
  next
    case 2
    with st ok mx_ok_held [OF ok, of t] mx_ok_unlock [OF ok, of t] mx_ok_stay [OF ok, of 1] show ?thesis
      by (auto simp: defs)
  next
    case 3
    with st ok mx_ok_held [OF ok, of t] mx_ok_unlock [OF ok, of t] show ?thesis by (auto simp: defs)
  qed
qed

section \<open>The simple mutex is linearizable\<close>

definition simple_mutex_inv :: "32 word \<Rightarrow> linear_mutex \<Rightarrow> (nat \<Rightarrow> string list) \<Rightarrow> (unit, mx_pc) active \<Rightarrow> bool" where
  "simple_mutex_inv x s N L \<longleftrightarrow> (\<exists>M. mx_inv x M N L) \<and> isLocked s = (if x = 0 then 0 else 1)"

lemma mx_effect:
  assumes "isLocked s = (if x = 0 then 0 else 1)"
    and "nm = ''Lock'' \<and> x = 0 \<and> y \<noteq> 0 \<or> nm = ''Unlock'' \<and> x \<noteq> 0 \<and> y = (0 :: 32 word)"
  shows "\<exists>s'. takes_effect Mutex_checker nm a s None s' (Some (vw_int 0)) \<and> isLocked s' = (if y = 0 then 0 else 1)"
  using assms(2)
proof
  assume *: "nm = ''Lock'' \<and> x = 0 \<and> y \<noteq> 0"
  then have "takes_effect Mutex_checker nm a s None (s\<lparr>isLocked := 1\<rparr>) (Some (vw_int 0))"
    using assms(1) by (intro takes_effectI [where m = "\<lambda>l args. let (l', r) = LinearMutex_Lock l in (l', vw_int r)"])
      (simp_all add: Mutex_checker_def Mutex_GetMethods_def LinearMutex_Lock_def)
  then show ?thesis using * by (intro exI [of _ "s\<lparr>isLocked := 1\<rparr>"]) simp
next
  assume *: "nm = ''Unlock'' \<and> x \<noteq> 0 \<and> y = 0"
  then have "takes_effect Mutex_checker nm a s None (s\<lparr>isLocked := 0\<rparr>) (Some (vw_int 0))"
    by (intro takes_effectI [where m = "\<lambda>l args. let (l', r) = LinearMutex_Unlock l in (l', vw_int r)"])
      (simp_all add: Mutex_checker_def Mutex_GetMethods_def LinearMutex_Unlock_def)
  then show ?thesis using * by (intro exI [of _ "s\<lparr>isLocked := 0\<rparr>"]) simp
qed

lemma simple_mutex_inv_step:
  assumes inv: "simple_mutex_inv x s N L" and L: "L t = Some (nm, a, c, l)" and st: "simple_mutex_step c x = Inr (y, e)"
  shows "\<exists>s' l'. takes_effect Mutex_checker nm a s l s' l' \<and> (case e of
      Yield k \<Rightarrow> simple_mutex_inv y s' N (L(t \<mapsto> (nm, a, k, l')))
    | Futex_Wait k _ _ \<Rightarrow> simple_mutex_inv y s' N (L(t \<mapsto> (nm, a, k, l')))
    | Return ret \<Rightarrow> (\<exists>v. l' = Some v \<and> vw_eq v ret = Inr True) \<and> simple_mutex_inv y s' N (L(t := None)))"
proof -
  from inv obtain M where ok: "mx_ok x M" and th: "\<And>u. mx_thread (M u) (N u) (L u)"
    and s: "isLocked s = (if x = 0 then 0 else 1)" by (auto simp: simple_mutex_inv_def mx_inv_def)
  have keep: "simple_mutex_inv z s' N (L(t := l'))"
    if "mx_ok z (M(t := q))" "mx_thread q (N t) l'" "isLocked s' = (if z = 0 then 0 else 1)" for z s' q l'
    using that th unfolding simple_mutex_inv_def mx_inv_def by (intro conjI exI [of _ "M(t := q)"]) auto
  show ?thesis
  proof (cases l)
    case None
    have pos: "mx_pos nm c (M t)" and ns: "N t \<noteq> []" "last (N t) = nm" "follows mutex_protocol 0 (butlast (N t)) = Some (M t)"
      using th [of t] L None by auto
    from mx_slice [OF ok pos st] obtain k where e: "e = Yield k \<or> (\<exists>a v. e = Futex_Wait k a v)" and p: "mx_progress nm t M x y k" by blast
    have "\<exists>s' l'. takes_effect Mutex_checker nm a s None s' l' \<and> simple_mutex_inv y s' N (L(t \<mapsto> (nm, a, k, l')))"
    proof (cases "mx_pos nm k (M t) \<and> mx_ok y M \<and> (x = 0 \<longleftrightarrow> y = 0)")
      case True
      then show ?thesis using keep [of y "M t" "Some (nm, a, k, None)" s] ns s by (intro exI [of _ s] exI [of _ None]) simp
    next
      case False
      define q where "q = (if nm = ''Lock'' then 1 else 0 :: nat)"
      have d: "mx_done nm k" "mx_ok y (M(t := q))" and xy: "nm = ''Lock'' \<and> x = 0 \<and> y \<noteq> 0 \<or> nm = ''Unlock'' \<and> x \<noteq> 0 \<and> y = 0"
        using p False by (auto simp: mx_progress_def q_def)
      have "mutex_protocol (M t) nm = Some q" using pos by (auto simp: mx_pos_def mutex_protocol_def q_def)
      then have "follows mutex_protocol 0 (N t) = Some q" using follows_last [OF ns(1,3)] ns(2) by simp
      then have "mx_thread q (N t) (Some (nm, a, k, Some (vw_int 0)))" using d(1) by simp
      with mx_effect [OF s xy, of a] keep [OF d(2)] show ?thesis by blast
    qed
    then show ?thesis using e None by (elim disjE exE) (simp_all, blast+)
  next
    case (Some v)
    have d: "mx_done nm c" "v = vw_int 0" "follows mutex_protocol 0 (N t) = Some (M t)" using th [of t] L Some by auto
    have stay: "simple_mutex_inv x s N (L(t := l'))" if "mx_thread (M t) (N t) l'" for l'
      using keep [of x "M t" l' s] that ok s by simp
    from d(1) st have "y = x \<and> (e = Yield Mx_Ret \<or> e = Return (vw_int 0))"
      by (auto simp: mx_done_def simple_mutex_step_def)
    then show ?thesis using stay [of None] stay [of "Some (nm, a, Mx_Ret, Some v)"] d Some
      by (intro exI [of _ s] exI [of _ l]) (auto simp: mx_done_def)
  qed
qed

lemma Mutex_typed: "typed_spec Mutex_checker"
  by (rule typed_table) (fastforce simp: Mutex_checker_def Mutex_GetMethods_def split: if_splits)

interpretation simple_mutex:
  linearization_points Mutex_checker mutex_calls "protocol_use n mutex_protocol 0" simple_mutex_step 0 simple_mutex_inv for n
proof
  show "typed_spec Mutex_checker" by (rule Mutex_typed)
  show "specification_methods Mutex_checker nm \<noteq> None" if "(nm, a, c) \<in> mutex_calls" for nm a c
    using that by (auto simp: mutex_calls_def method_tables)
  have "mx_inv 0 (\<lambda>_. 0) (\<lambda>_. []) Map.empty" by (simp add: mx_inv_def mx_ok_def)
  then show "simple_mutex_inv 0 (first_state Mutex_checker) (\<lambda>_. []) Map.empty"
    by (auto simp: simple_mutex_inv_def method_tables)
  fix x s N L t nm a c
  assume inv: "simple_mutex_inv x s N L" and L: "L t = None" and c: "(nm, a, c) \<in> mutex_calls"
    and u: "protocol_use n mutex_protocol 0 t (N t) nm"
  from inv obtain M where ok: "mx_ok x M" and th: "\<And>u. mx_thread (M u) (N u) (L u)"
    and s: "isLocked s = (if x = 0 then 0 else 1)" by (auto simp: simple_mutex_inv_def mx_inv_def)
  have t: "follows mutex_protocol 0 (N t) = Some (M t)" using th [of t] L by simp
  then have "mutex_protocol (M t) nm \<noteq> None" using u by (simp add: protocol_use_def follows_snoc)
  then have "mx_pos nm c (M t)" using c by (auto simp: mutex_calls_def mx_pos_def mutex_protocol_def split: if_splits)
  then show "simple_mutex_inv x s (N(t := N t @ [nm])) (L(t \<mapsto> (nm, a, c, None)))"
    using ok th s t unfolding simple_mutex_inv_def mx_inv_def by (intro conjI exI [of _ M]) auto
qed (rule simple_mutex_inv_step)

section \<open>Rounds\<close>

text \<open>
  The second thread waits until the first one unlocks, and takes the lock; then the first one locks
  again. In the faulty mutex the value 2 ends its loop.
\<close>

definition mutex_round :: "(32 word, mx_pc) target_step \<Rightarrow> (both_histories option \<times> (32 word, unit, mx_pc, nat \<Rightarrow> nat option, script) rnd) res" where
  "mutex_round step = scripted_round step (\<lambda>x a. sint x) Mutex_Reset MutexVerifier Map.empty 0 mutex_builders
     (Check_recursive Mutex_checker) 2 4 ([[0, 1], [0, 1], [1, 0], [0, 1]], [0, 0, 1, 1, 1, 0, 0, 0, 0, 1, 1, 1, 0, 0, 0])"

lemma nonlinear_mutex_reported: "reported (mutex_round nonlinear_mutex_step)"
  by code_simp

text \<open>The second thread waits for the lock and gets it.\<close>

definition simple_mutex_round :: "(both_histories option \<times> (32 word, unit, mx_pc, nat \<Rightarrow> nat option, script) rnd) res" where
  "simple_mutex_round = scripted_round simple_mutex_step (\<lambda>x a. sint x) Mutex_Reset MutexVerifier Map.empty 0 mutex_builders
     (Check_recursive Mutex_checker) 2 3 ([[0, 1], [0, 1], [1, 0]], [0, 0, 1, 1, 1, 0, 0, 0, 0, 1, 1, 1])"

lemma simple_mutex_unreported: "unreported simple_mutex_round"
  by code_simp

section \<open>Properties\<close>

text \<open>
  C16. The simple mutex excludes, is linearizable, and is not reported by the tool: in every execution
  in which the threads call \<open>Lock\<close> and \<open>Unlock\<close> in turn, under any scheduler, at most one thread
  holds the lock, the history is linearizable and the checker accepts it, and no round of the round robin
  and the random strategy with \<open>MutexVerifier\<close> ends with a report.
\<close>

theorem simple_mutex_correct:
  assumes "implements (env_body E) simple_mutex_step" "random_ok (env_random E)" "env_verifier E = MutexVerifier"
  shows "(target_run mutex_calls (protocol_use n mutex_protocol 0) simple_mutex_step 0 x tk h
        \<longrightarrow> linearizable Mutex_checker tk h \<and> Check_recursive Mutex_checker tk h = Inr True
          \<and> (idle_phase mutex_protocol 0 tk h t = Some 1 \<longrightarrow> idle_phase mutex_protocol 0 tk h u = Some 1 \<longrightarrow> t = u))
    \<and> (guarded_result mutex_calls 0 Map.empty n E (Check_recursive Mutex_checker) max_tasks res \<longrightarrow> res = None)"
proof (intro conjI impI)
  assume run: "target_run mutex_calls (protocol_use n mutex_protocol 0) simple_mutex_step 0 x tk h"
  then show "linearizable Mutex_checker tk h" "Check_recursive Mutex_checker tk h = Inr True"
    by (rule simple_mutex.run_linearizable, rule simple_mutex.run_accepted)
  show "t = u" if held: "idle_phase mutex_protocol 0 tk h t = Some 1" "idle_phase mutex_protocol 0 tk h u = Some 1"
  proof -
    from simple_mutex.run_has_points [OF run] obtain p val s L M where ls: "lin_state Mutex_checker tk h p val s L"
      and ok: "mx_ok x M" and th: "\<And>t. mx_thread (M t) (thread_calls tk h t) (L t)"
      by (auto simp: simple_mutex_inv_def mx_inv_def)
    have "M t = 1" "M u = 1" using idle_phase_inactive [OF ls held(1)] idle_phase_inactive [OF ls held(2)] th [of t] th [of u]
      by auto
    then show ?thesis using ok by (simp add: mx_ok_def)
  qed
next
  show "res = None" if "guarded_result mutex_calls 0 Map.empty n E (Check_recursive Mutex_checker) max_tasks res"
    by (rule no_guarded_strategy_reports [OF _ simple_mutex.run_accepted _ assms(1,2) that])
      (unfold assms(3), rule mutex_verifier.protocol_verifier_axioms, assumption, unfold simple_mutex_step_def, rule mutex_never_fails)
qed

theorem simple_mutex_correct_witness: "\<exists>st'. simple_mutex_round = Inr (None, st')"
proof -
  obtain res st' where a: "simple_mutex_round = Inr (res, st')" using unreportedD [OF simple_mutex_unreported] by blast
  note r = scripted_guarded_result [OF a [unfolded simple_mutex_round_def] mutex_builders_ok]
  have "res = None" using r by (intro mp [OF conjunct2 [OF simple_mutex_correct [where n = 2]]])
      (simp_all add: implements_step_body script_random_ok)
  then show ?thesis using a by blast
qed

end
