(* ===== verification/Serial_Targets.thy ===== *)
theory Serial_Targets
  imports Scripted_Rounds
begin

text \<open>
  Targets in serial use. A call runs alone from its first slice to its return; a serial use is a list
  of calls that run one after the other. The locale \<open>serial_object\<close> is the contract of a target that is
  right in serial use: then a round that is reported shows a fault of its concurrent use.
\<close>

section \<open>Calls that run alone\<close>

inductive alone :: "('o, 'c) target_step \<Rightarrow> 'c \<Rightarrow> 'o \<Rightarrow> 'o \<Rightarrow> value_wrapper \<Rightarrow> bool" for step where
  ret: "step c x = Inr (y, Return v) \<Longrightarrow> alone step c x y v"
| yield: "step c x = Inr (y, Yield k) \<Longrightarrow> alone step k y z v \<Longrightarrow> alone step c x z v"

text \<open>The first slice decides how to go on.\<close>

lemma alone_Yield: "step c x = Inr (y, Yield k) \<Longrightarrow> alone step c x z v \<longleftrightarrow> alone step k y z v"
  by (subst alone.simps) auto

lemma alone_Return: "step c x = Inr (y, Return w) \<Longrightarrow> alone step c x z v \<longleftrightarrow> z = y \<and> v = w"
  by (subst alone.simps) auto

lemma alone_det: "alone step c x y v \<Longrightarrow> alone step c x z w \<Longrightarrow> z = y \<and> w = v"
proof (induction rule: alone.induct)
  case (ret c x y v)
  then show ?case by (simp add: alone_Return)
next
  case (yield c x y k z v)
  then show ?case by (simp add: alone_Yield)
qed

section \<open>Serial use\<close>

fun serial ::
    "('o, 'c) target_step \<Rightarrow> ('a, 'c) target_call list \<Rightarrow> 'o \<Rightarrow> 'o \<Rightarrow> value_wrapper list \<Rightarrow> bool" where
  "serial step [] x y vs \<longleftrightarrow> y = x \<and> vs = []"
| "serial step ((nm, a, c) # ops) x y vs \<longleftrightarrow> (\<exists>z v ws. alone step c x z v \<and> serial step ops z y ws \<and> vs = v # ws)"

text \<open>What the specification answers to the same calls.\<close>

fun spec_answers ::
    "('a, 's) linearizability_checker \<Rightarrow> ('a, 'c) target_call list \<Rightarrow> 's \<Rightarrow> value_wrapper list" where
  "spec_answers C [] s = []"
| "spec_answers C ((nm, a, c) # ops) s = (case specification_methods C nm of None \<Rightarrow> []
     | Some m \<Rightarrow> let (s', v) = m s a in v # spec_answers C ops s')"

lemma serial_det: "serial step ops x y vs \<Longrightarrow> serial step ops x z ws \<Longrightarrow> z = y \<and> ws = vs"
proof (induction ops arbitrary: x vs ws)
  case (Cons op ops)
  obtain nm a c where op: "op = (nm, a, c)" by (cases op)
  from Cons.prems obtain x1 v vs1 x2 w ws1 where
    "alone step c x x1 v" "serial step ops x1 y vs1" "vs = v # vs1"
    "alone step c x x2 w" "serial step ops x2 z ws1" "ws = w # ws1" by (auto simp: op)
  then show ?case using Cons.IH [of x1 vs1 ws1] alone_det [of step c x x1 v x2 w] by auto
qed simp

text \<open>
  \<open>rel k x s\<close> relates the object and the state of the specification after \<open>k\<close> calls; \<open>limit\<close> is the number
  of calls that the object has room for.
\<close>

locale serial_object =
  fixes C :: "('a, 's) linearizability_checker"
    and calls :: "('a, 'c) target_call set"
    and step :: "('o, 'c) target_step"
    and o0 :: 'o
    and limit :: nat
    and rel :: "nat \<Rightarrow> 'o \<Rightarrow> 's \<Rightarrow> bool"
  assumes rel_start: "rel 0 o0 (first_state C)"
    and rel_call: "\<lbrakk>rel k x s; k < limit; (nm, a, c) \<in> calls\<rbrakk>
      \<Longrightarrow> \<exists>m s' v y. specification_methods C nm = Some m \<and> m s a = (s', v) \<and> alone step c x y v \<and> rel (Suc k) y s'"
begin

lemma serial_from:
  assumes "rel k x s" "set ops \<subseteq> calls" "k + length ops \<le> limit"
  shows "\<exists>y. serial step ops x y (spec_answers C ops s)"
  using assms
proof (induction ops arbitrary: k x s)
  case (Cons op ops)
  obtain nm a c where op: "op = (nm, a, c)" by (cases op)
  from rel_call [OF Cons.prems(1), of nm a c] Cons.prems(2,3) obtain m s' v y where
    m: "specification_methods C nm = Some m" "m s a = (s', v)" "alone step c x y v" "rel (Suc k) y s'"
    by (auto simp: op)
  from Cons.IH [OF m(4)] Cons.prems(2,3) obtain z where "serial step ops y z (spec_answers C ops s')" by auto
  then show ?case using m by (auto simp: op)
qed simp

text \<open>A serial use ends, and its answers are those of the specification.\<close>

lemma serial_correct:
  assumes "set ops \<subseteq> calls" "length ops \<le> limit"
  shows "(\<exists>y. serial step ops o0 y vs) \<longleftrightarrow> vs = spec_answers C ops (first_state C)"
proof -
  obtain y where y: "serial step ops o0 y (spec_answers C ops (first_state C))"
    using serial_from [OF rel_start assms(1)] assms(2) by auto
  then show ?thesis using serial_det [OF y] by blast
qed

end

section \<open>Arguments\<close>

text \<open>The generators draw the values from 1 to 10; \<open>r\<close> is what \<open>rand()\<close> returns.\<close>

definition generateInt :: "int \<Rightarrow> int" where
  "generateInt r = r mod 10 + 1"

lemma generateInt_range: "0 < generateInt r \<and> generateInt r \<le> 10"
  using pos_mod_bound [of 10 r] pos_mod_sign [of 10 r] by (simp add: generateInt_def)

end
