(* ===== verification/Nonlinear_Queue.thy ===== *)
theory Nonlinear_Queue
  imports Serial_Targets
begin

text \<open>
  Model of \<open>verifying/targets/nonlinear_queue.cpp\<close>: a queue in an array, whose \<open>Pop\<close> passes over an
  element that another \<open>Pop\<close> has taken.
\<close>

declare split_paired_All [simp del] split_paired_Ex [simp del]

section \<open>The methods\<close>

definition nq_N :: nat where "nq_N = 100"

record nq_queue =
  nq_a :: "int list"
  nq_head :: int

text \<open>Positions; \<open>Pop\<close> goes through the array up to the value of \<open>head\<close> that it has loaded.\<close>

datatype nq_pc = Nq_Push int | Nq_Store int int | Nq_Pop | Nq_Load nat int | Nq_Cas nat int int | Nq_Ret_Void | Nq_Ret int

definition nq_next :: "nat \<Rightarrow> int \<Rightarrow> nq_pc" where
  "nq_next i lst = (if int i < lst then Nq_Load i lst else Nq_Ret 0)"

fun nonlinear_queue_step :: "(nq_queue, nq_pc) target_step" where
  "nonlinear_queue_step (Nq_Push v) q = Inr (q\<lparr>nq_head := nq_head q + 1\<rparr>, Yield (Nq_Store v (nq_head q)))"
| "nonlinear_queue_step (Nq_Store v pos) q =
     (if pos < 0 then Inl Out_Of_Range
      else res_bind (vec_set (nq_a q) (nat pos) v) (\<lambda>a. Inr (q\<lparr>nq_a := a\<rparr>, Yield Nq_Ret_Void)))"
| "nonlinear_queue_step Nq_Pop q = Inr (q, Yield (nq_next 0 (nq_head q)))"
| "nonlinear_queue_step (Nq_Load i lst) q = res_bind (vec_get (nq_a q) i) (\<lambda>e.
     Inr (q, Yield (if e \<noteq> 0 then Nq_Cas i lst e else nq_next (i + 1) lst)))"
| "nonlinear_queue_step (Nq_Cas i lst e) q = res_bind (vec_get (nq_a q) i) (\<lambda>cur.
     Inr (if cur = e then (q\<lparr>nq_a := (nq_a q)[i := 0]\<rparr>, Yield (Nq_Ret e)) else (q, Yield (nq_next (i + 1) lst))))"
| "nonlinear_queue_step Nq_Ret_Void q = Inr (q, Return void_v)"
| "nonlinear_queue_step (Nq_Ret v) q = Inr (q, Return (vw_int v))"

definition nq_Reset :: "nq_queue \<Rightarrow> nq_queue" where
  "nq_Reset q = \<lparr>nq_a = replicate nq_N 0, nq_head = 0\<rparr>"

definition nq_New :: nq_queue where
  "nq_New = \<lparr>nq_a = replicate nq_N 0, nq_head = 0\<rparr>"

definition nq_calls :: "(int, nq_pc) target_call set" where
  "nq_calls = {(''Push'', generateInt r, Nq_Push (generateInt r)) |r. True} \<union> {(''Pop'', a, Nq_Pop) |a. True}"

section \<open>Serial use\<close>

definition nq_rel :: "nat \<Rightarrow> nq_queue \<Rightarrow> queue \<Rightarrow> bool" where
  "nq_rel k q s \<longleftrightarrow> length (nq_a q) = nq_N \<and> (\<exists>h \<le> k. nq_head q = int h \<and> q_deq s = filter (\<lambda>e. e \<noteq> 0) (take h (nq_a q)))"

lemma nq_push_alone:
  assumes "length (nq_a q) = nq_N" "nq_head q = int h" "h < nq_N"
  shows "alone nonlinear_queue_step (Nq_Push v) q (q\<lparr>nq_head := int (Suc h), nq_a := (nq_a q)[h := v]\<rparr>) void_v"
  using assms by (simp add: alone_Yield alone_Return vec_set_def)

text \<open>\<open>Pop\<close> passes over the zeros and takes the first element.\<close>

lemma nq_pop_from:
  assumes "length (nq_a q) = nq_N" "h \<le> nq_N" "i \<le> h" "\<forall>j<i. nq_a q ! j = 0"
  shows "\<exists>y. alone nonlinear_queue_step (nq_next i (int h)) q y
       (vw_int (case filter (\<lambda>e. e \<noteq> 0) (take h (nq_a q)) of [] \<Rightarrow> 0 | e # es \<Rightarrow> e))
     \<and> length (nq_a y) = nq_N \<and> nq_head y = nq_head q
     \<and> filter (\<lambda>e. e \<noteq> 0) (take h (nq_a y)) = tl (filter (\<lambda>e. e \<noteq> 0) (take h (nq_a q)))"
  using assms
proof (induction "h - i" arbitrary: i)
  case 0
  then have "filter (\<lambda>e. e \<noteq> 0) (take h (nq_a q)) = []" by (auto simp: filter_empty_conv in_set_conv_nth)
  then show ?case using 0 by (auto simp: nq_next_def alone_Return)
next
  case (Suc n)
  then have i: "i < h" "i < length (nq_a q)" by auto
  have split: "take h (nq_a q) = take i (nq_a q) @ nq_a q ! i # drop (Suc i) (take h (nq_a q))"
    using id_take_nth_drop [of i "take h (nq_a q)"] i by simp
  have zeros: "filter (\<lambda>e. e \<noteq> 0) (take i (nq_a q)) = []"
    using Suc.prems(4) by (auto simp: filter_empty_conv in_set_conv_nth)
  show ?case
  proof (cases "nq_a q ! i = 0")
    case True
    have "\<forall>j<Suc i. nq_a q ! j = 0" using Suc.prems(4) True by (auto simp: less_Suc_eq)
    with Suc.hyps(1) [of "Suc i"] Suc.hyps(2) Suc.prems(1,2) i show ?thesis
      by (simp add: nq_next_def [of i] alone_Yield vec_get_def True)
  next
    case False
    let ?y = "q\<lparr>nq_a := (nq_a q)[i := 0]\<rparr>"
    have "take h (nq_a ?y) = take i (nq_a q) @ 0 # drop (Suc i) (take h (nq_a q))"
      using i Suc.prems(1,2) by (simp add: take_update_swap upd_conv_take_nth_drop min_def take_Cons' drop_take)
    then have "filter (\<lambda>e. e \<noteq> 0) (take h (nq_a ?y)) = tl (filter (\<lambda>e. e \<noteq> 0) (take h (nq_a q)))"
      using zeros False by (subst split) simp
    moreover have "alone nonlinear_queue_step (nq_next i (int h)) q ?y (vw_int (nq_a q ! i))"
      using i False by (simp add: nq_next_def alone_Yield alone_Return vec_get_def)
    moreover have "(case filter (\<lambda>e. e \<noteq> 0) (take h (nq_a q)) of [] \<Rightarrow> 0 | e # es \<Rightarrow> e) = nq_a q ! i"
      using zeros False by (subst split) simp
    ultimately show ?thesis using Suc.prems(1) by (intro exI [of _ ?y]) simp
  qed
qed

interpretation nonlinear_queue:
  serial_object "Queue_checker (\<lambda>v. v)" nq_calls nonlinear_queue_step nq_New nq_N nq_rel
proof
  show "nq_rel 0 nq_New (first_state (Queue_checker (\<lambda>v. v)))"
    by (simp add: nq_rel_def nq_New_def Queue_checker_def)
  fix k q s nm a c
  assume rel: "nq_rel k q s" and k: "k < nq_N" and call: "(nm, a, c) \<in> nq_calls"
  then obtain h where h: "h \<le> k" "nq_head q = int h" "length (nq_a q) = nq_N"
    "q_deq s = filter (\<lambda>e. e \<noteq> 0) (take h (nq_a q))" by (auto simp: nq_rel_def)
  from call consider r where "nm = ''Push''" "a = generateInt r" "c = Nq_Push a" | "nm = ''Pop''" "c = Nq_Pop"
    by (auto simp: nq_calls_def)
  then show "\<exists>m s' v y. specification_methods (Queue_checker (\<lambda>v. v)) nm = Some m \<and> m s a = (s', v)
    \<and> alone nonlinear_queue_step c q y v \<and> nq_rel (Suc k) y s'"
  proof cases
    case 1
    have "a \<noteq> 0" using generateInt_range [of r] 1(2) by simp
    then have "nq_rel (Suc k) (q\<lparr>nq_head := int (Suc h), nq_a := (nq_a q)[h := a]\<rparr>) (Queue_Push a s)"
      using h k unfolding nq_rel_def by (auto simp: Queue_Push_def take_Suc_conv_app_nth intro!: exI [of _ "Suc h"])
    then show ?thesis using nq_push_alone [OF h(3,2), of a] h(1) k 1
      by (auto simp: Queue_checker_def Queue_GetMethods_def intro!: exI)
  next
    case 2
    from nq_pop_from [OF h(3), of h 0] h(1) k obtain y where
      y: "alone nonlinear_queue_step (nq_next 0 (int h)) q y (vw_int (case q_deq s of [] \<Rightarrow> 0 | e # es \<Rightarrow> e))"
      "length (nq_a y) = nq_N" "nq_head y = nq_head q" "filter (\<lambda>e. e \<noteq> 0) (take h (nq_a y)) = tl (q_deq s)"
      unfolding h(4) by auto
    have "alone nonlinear_queue_step c q y (vw_int (snd (Queue_Pop s)))"
      using y(1) h(2) 2 by (simp add: alone_Yield Queue_Pop_def split: list.splits)
    moreover have "nq_rel (Suc k) y (fst (Queue_Pop s))"
      unfolding nq_rel_def using y(2-4) h(1,2) by (intro conjI exI [of _ h]) (auto simp: Queue_Pop_def split: list.splits)
    ultimately show ?thesis using 2 by (auto simp: Queue_checker_def Queue_GetMethods_def split_def Let_def intro!: exI)
  qed
qed

section \<open>A lost race\<close>

definition nq_builders :: "(nq_queue, int, nq_pc) task_builder list" where
  "nq_builders = [target_builder ''Push'' Nq_Push (\<lambda>t. generateInt (int t)), target_builder ''Pop'' (\<lambda>_. Nq_Pop) (\<lambda>_. 0)]"

text \<open>
  A \<open>Pop\<close> has seen the only element; another thread pushes a second one and pops the first. The first
  \<open>Pop\<close> then returns 0, although the queue was never empty.
\<close>

definition nq_round :: "(both_histories option \<times> (nq_queue, int, nq_pc, unit, script) rnd) res" where
  "nq_round = scripted_round nonlinear_queue_step (\<lambda>_ _. 0) nq_Reset DefaultStrategyVerifier () nq_New nq_builders
     (Check_recursive (Queue_checker (\<lambda>v. v))) 2 4
     ([[0, 1], [1, 0], [1, 0], [1, 0]], [0, 0, 0, 0, 0, 1, 1, 1, 1, 1, 1, 1, 0, 0])"

lemma nq_reported: "reported nq_round"
  by code_simp

end
