(* ===== verification/Treiber_Stack.thy ===== *)
theory Treiber_Stack
  imports Serial_Targets
begin

text \<open>
  Model of \<open>verifying/targets/nonlinear_treiber_stack.cpp\<close>: a stack and a list of free nodes, both linked
  through the indices of an array of nodes. \<open>Push\<close> gives up after three failed compare-and-swaps.
\<close>

declare split_paired_All [simp del] split_paired_Ex [simp del]

section \<open>The methods\<close>

definition ts_N :: nat where "ts_N = 100"

text \<open>The nodes, as the vectors of their two fields; -1 is the end of a list.\<close>

record treiber_stack =
  ts_value :: "int list"
  ts_next :: "int list"
  ts_head :: int
  ts_free :: int

definition node_get :: "int list \<Rightarrow> int \<Rightarrow> int res" where
  "node_get xs i = (if i < 0 then Inl Out_Of_Range else vec_get xs (nat i))"

definition node_set :: "int list \<Rightarrow> int \<Rightarrow> int \<Rightarrow> int list res" where
  "node_set xs i v = (if i < 0 then Inl Out_Of_Range else vec_set xs (nat i) v)"

text \<open>
  Positions with the local variables: the value, \<open>node_index\<close>, the value of \<open>next\<close> for the
  compare-and-swap, \<open>time\<close>, \<open>old_head\<close> and \<open>old_free\<close>.
\<close>

datatype ts_pc =
    Ts_Push int | Ts_Push_Next int int | Ts_Push_Cas int int int | Ts_Set_Value int int
  | Ts_Load_Head int nat | Ts_Link int nat int | Ts_Head_Cas int nat int
  | Ts_Pop | Ts_Pop_Next int | Ts_Pop_Cas int int | Ts_Value int
  | Ts_Load_Free int int | Ts_Free_Link int int int | Ts_Free_Cas int int int
  | Ts_Ret_Void | Ts_Ret int

fun treiber_step :: "(treiber_stack, ts_pc) target_step" where
  "treiber_step (Ts_Push v) x = Inr (x, Yield (if ts_free x = - 1 then Ts_Ret_Void else Ts_Push_Next v (ts_free x)))"
| "treiber_step (Ts_Push_Next v n) x = res_bind (node_get (ts_next x) n) (\<lambda>nxt. Inr (x, Yield (Ts_Push_Cas v n nxt)))"
| "treiber_step (Ts_Push_Cas v n nxt) x =
     (if ts_free x = n then Inr (x\<lparr>ts_free := nxt\<rparr>, Yield (Ts_Set_Value v n)) else Inr (x, Yield (Ts_Push v)))"
| "treiber_step (Ts_Set_Value v n) x = res_bind (node_set (ts_value x) n v) (\<lambda>vs. Inr (x\<lparr>ts_value := vs\<rparr>, Yield (Ts_Load_Head n 0)))"
| "treiber_step (Ts_Load_Head n time) x = Inr (x, Yield (Ts_Link n time (ts_head x)))"
| "treiber_step (Ts_Link n time old) x = res_bind (node_set (ts_next x) n old) (\<lambda>ns.
     let time = time + 1 in Inr (x\<lparr>ts_next := ns\<rparr>, Yield (if time < 4 then Ts_Head_Cas n time old else Ts_Ret_Void)))"
| "treiber_step (Ts_Head_Cas n time old) x =
     (if ts_head x = old then Inr (x\<lparr>ts_head := n\<rparr>, Yield Ts_Ret_Void) else Inr (x, Yield (Ts_Load_Head n time)))"
| "treiber_step Ts_Pop x = Inr (x, Yield (if ts_head x = - 1 then Ts_Ret 0 else Ts_Pop_Next (ts_head x)))"
| "treiber_step (Ts_Pop_Next n) x = res_bind (node_get (ts_next x) n) (\<lambda>nxt. Inr (x, Yield (Ts_Pop_Cas n nxt)))"
| "treiber_step (Ts_Pop_Cas n nxt) x =
     (if ts_head x = n then Inr (x\<lparr>ts_head := nxt\<rparr>, Yield (Ts_Value n)) else Inr (x, Yield Ts_Pop))"
| "treiber_step (Ts_Value n) x = res_bind (node_get (ts_value x) n) (\<lambda>v. Inr (x, Yield (Ts_Load_Free n v)))"
| "treiber_step (Ts_Load_Free n v) x = Inr (x, Yield (Ts_Free_Link n v (ts_free x)))"
| "treiber_step (Ts_Free_Link n v old) x = res_bind (node_set (ts_next x) n old) (\<lambda>ns.
     Inr (x\<lparr>ts_next := ns\<rparr>, Yield (Ts_Free_Cas n v old)))"
| "treiber_step (Ts_Free_Cas n v old) x =
     (if ts_free x = old then Inr (x\<lparr>ts_free := n\<rparr>, Yield (Ts_Ret v)) else Inr (x, Yield (Ts_Load_Free n v)))"
| "treiber_step Ts_Ret_Void x = Inr (x, Return void_v)"
| "treiber_step (Ts_Ret v) x = Inr (x, Return (vw_int v))"

definition ts_Reset :: "treiber_stack \<Rightarrow> treiber_stack" where
  "ts_Reset x = x\<lparr>ts_next := map (\<lambda>i. int i + 1) [0..<ts_N - 1] @ [- 1], ts_head := - 1, ts_free := 0\<rparr>"

definition ts_New :: treiber_stack where
  "ts_New = ts_Reset \<lparr>ts_value = replicate ts_N 0, ts_next = replicate ts_N 0, ts_head = - 1, ts_free = 0\<rparr>"

definition ts_calls :: "(int, ts_pc) target_call set" where
  "ts_calls = {(''Push'', generateInt r, Ts_Push (generateInt r)) |r. True} \<union> {(''Pop'', a, Ts_Pop) |a. True}"

section \<open>Serial use\<close>

text \<open>The indices of a list, from its first node.\<close>

fun chain :: "int list \<Rightarrow> int \<Rightarrow> nat list \<Rightarrow> bool" where
  "chain nx p [] \<longleftrightarrow> p = - 1"
| "chain nx p (i # js) \<longleftrightarrow> p = int i \<and> i < length nx \<and> chain nx (nx ! i) js"

lemma chain_upd [simp]: "i \<notin> set js \<Longrightarrow> chain (nx[i := v]) p js \<longleftrightarrow> chain nx p js"
  by (induction js arbitrary: p) auto

lemma chain_upto: "m \<le> length nx \<Longrightarrow> chain nx (if k < m then int k else - 1) [k..<m]"
  if "\<And>i. i < m \<Longrightarrow> nx ! i = (if Suc i < m then int (Suc i) else - 1)" for m nx k
proof (induction "m - k" arbitrary: k)
  case (Suc n)
  then have "[k..<m] = k # [Suc k..<m]" by (simp add: upt_conv_Cons)
  then show ?case using Suc.hyps(1) [of "Suc k"] Suc.hyps(2) Suc.prems that [of k] by simp
qed simp

definition ts_rel :: "nat \<Rightarrow> treiber_stack \<Rightarrow> stack \<Rightarrow> bool" where
  "ts_rel k x s \<longleftrightarrow> length (ts_value x) = ts_N \<and> length (ts_next x) = ts_N
     \<and> (\<exists>hs fs. chain (ts_next x) (ts_head x) hs \<and> chain (ts_next x) (ts_free x) fs \<and> distinct (hs @ fs)
         \<and> length hs + length fs = ts_N \<and> length hs \<le> k \<and> s_deq s = rev (map ((!) (ts_value x)) hs))"

lemma ts_relE:
  assumes "ts_rel k x s"
  obtains hs fs where "length (ts_value x) = ts_N" "length (ts_next x) = ts_N"
    "chain (ts_next x) (ts_head x) hs" "chain (ts_next x) (ts_free x) fs" "distinct (hs @ fs)"
    "length hs + length fs = ts_N" "length hs \<le> k" "s_deq s = rev (map ((!) (ts_value x)) hs)"
  using assms unfolding ts_rel_def by blast

lemma ts_relI:
  assumes "length (ts_value x) = ts_N" "length (ts_next x) = ts_N"
    "chain (ts_next x) (ts_head x) hs" "chain (ts_next x) (ts_free x) fs" "distinct (hs @ fs)"
    "length hs + length fs = ts_N" "length hs \<le> k" "s_deq s = rev (map ((!) (ts_value x)) hs)"
  shows "ts_rel k x s"
  using assms unfolding ts_rel_def by blast

lemma map_nth_upd [simp]: "i \<notin> set hs \<Longrightarrow> map ((!) (xs[i := v])) hs = map ((!) xs) hs"
  by (rule map_cong [OF refl]) (metis nth_list_update_neq)

lemma ts_push_alone:
  assumes rel: "ts_rel k x s" and k: "k < ts_N"
  shows "\<exists>y. alone treiber_step (Ts_Push v) x y void_v \<and> ts_rel (Suc k) y (Stack_Push v s)"
proof -
  from rel obtain hs fs where len: "length (ts_value x) = ts_N" "length (ts_next x) = ts_N"
    and ch: "chain (ts_next x) (ts_head x) hs" "chain (ts_next x) (ts_free x) fs" and d: "distinct (hs @ fs)"
    and l: "length hs + length fs = ts_N" "length hs \<le> k" and s: "s_deq s = rev (map ((!) (ts_value x)) hs)" by (rule ts_relE)
  from l k obtain i js where fs: "fs = i # js" by (cases fs) auto
  have i: "ts_free x = int i" "i < ts_N" "i \<notin> set hs" "i \<notin> set js" using ch(2) d len by (auto simp: fs)
  let ?y = "x\<lparr>ts_free := ts_next x ! i, ts_value := (ts_value x)[i := v], ts_next := (ts_next x)[i := ts_head x], ts_head := int i\<rparr>"
  have "alone treiber_step (Ts_Push v) x ?y void_v"
    using i len by (simp add: alone_Yield alone_Return node_get_def node_set_def vec_get_def vec_set_def)
  moreover have "ts_rel (Suc k) ?y (Stack_Push v s)"
    by (rule ts_relI [of _ "i # hs" js]) (use len ch d l s i in \<open>auto simp: fs Stack_Push_def simp del: map_eq_conv\<close>)
  ultimately show ?thesis by blast
qed

lemma ts_pop_alone:
  assumes rel: "ts_rel k x s"
  shows "\<exists>y. alone treiber_step Ts_Pop x y (vw_int (snd (Stack_Pop s))) \<and> ts_rel (Suc k) y (fst (Stack_Pop s))"
proof -
  from rel obtain hs fs where len: "length (ts_value x) = ts_N" "length (ts_next x) = ts_N"
    and ch: "chain (ts_next x) (ts_head x) hs" "chain (ts_next x) (ts_free x) fs" and d: "distinct (hs @ fs)"
    and l: "length hs + length fs = ts_N" "length hs \<le> k" and s: "s_deq s = rev (map ((!) (ts_value x)) hs)" by (rule ts_relE)
  show ?thesis
  proof (cases hs)
    case Nil
    then have "alone treiber_step Ts_Pop x x (vw_int 0)" using ch(1) by (simp add: alone_Yield alone_Return)
    moreover have "ts_rel (Suc k) x s" using rel unfolding ts_rel_def by (blast intro: le_SucI)
    ultimately show ?thesis using Nil s by (intro exI [of _ x]) (simp add: Stack_Pop_def)
  next
    case (Cons i js)
    have i: "ts_head x = int i" "i < ts_N" "i \<notin> set js" "i \<notin> set fs" using ch(1) d len by (auto simp: Cons)
    let ?y = "x\<lparr>ts_head := ts_next x ! i, ts_next := (ts_next x)[i := ts_free x], ts_free := int i\<rparr>"
    have "alone treiber_step Ts_Pop x ?y (vw_int (ts_value x ! i))"
      using i len by (simp add: alone_Yield alone_Return node_get_def node_set_def vec_get_def vec_set_def)
    moreover have "ts_rel (Suc k) ?y (fst (Stack_Pop s))"
      by (rule ts_relI [of _ js "i # fs"]) (use len ch d l s i in \<open>auto simp: Cons Stack_Pop_def\<close>)
    moreover have "snd (Stack_Pop s) = ts_value x ! i" using s by (simp add: Cons Stack_Pop_def)
    ultimately show ?thesis by auto
  qed
qed

lemma ts_rel_New: "ts_rel 0 ts_New \<lparr>s_deq = []\<rparr>"
proof -
  let ?nx = "map (\<lambda>i. int i + 1) [0..<ts_N - 1] @ [- 1 :: int]"
  have N: "ts_N = 100" by (simp add: ts_N_def)
  have "?nx ! i = (if Suc i < ts_N then int (Suc i) else - 1)" if "i < ts_N" for i
    using that by (auto simp: nth_append N)
  from chain_upto [OF this, of 0] have "chain ?nx 0 [0..<ts_N]" by (simp add: N)
  then show ?thesis by (intro ts_relI [of _ "[]" "[0..<ts_N]"]) (simp_all add: ts_New_def ts_Reset_def N)
qed

interpretation treiber:
  serial_object "Stack_checker (\<lambda>v. v)" ts_calls treiber_step ts_New ts_N ts_rel
proof
  show "ts_rel 0 ts_New (first_state (Stack_checker (\<lambda>v. v)))" using ts_rel_New by (simp add: Stack_checker_def)
  fix k x s nm a c
  assume rel: "ts_rel k x s" and k: "k < ts_N" and call: "(nm, a, c) \<in> ts_calls"
  from call consider "nm = ''Push''" "c = Ts_Push a" | "nm = ''Pop''" "c = Ts_Pop" by (auto simp: ts_calls_def)
  then show "\<exists>m s' v y. specification_methods (Stack_checker (\<lambda>v. v)) nm = Some m \<and> m s a = (s', v)
    \<and> alone treiber_step c x y v \<and> ts_rel (Suc k) y s'"
  proof cases
    case 1
    with ts_push_alone [OF rel k, of a] show ?thesis by (auto simp: Stack_checker_def Stack_GetMethods_def)
  next
    case 2
    with ts_pop_alone [OF rel] show ?thesis by (auto simp: Stack_checker_def Stack_GetMethods_def split_def Let_def)
  qed
qed

section \<open>A lost element\<close>

definition ts_builders :: "(treiber_stack, int, ts_pc) task_builder list" where
  "ts_builders = [target_builder ''Push'' Ts_Push (\<lambda>t. generateInt (int t)), target_builder ''Pop'' (\<lambda>_. Ts_Pop) (\<lambda>_. 0)]"

text \<open>
  While a \<open>Push\<close> tries, the other thread pushes, pops and pushes, so that all three compare-and-swaps
  fail; the element is lost, and the second \<open>Pop\<close> that follows finds the stack empty.
\<close>

definition ts_round :: "(both_histories option \<times> (treiber_stack, int, ts_pc, unit, script) rnd) res" where
  "ts_round = scripted_round treiber_step (\<lambda>_ _. 0) ts_Reset DefaultStrategyVerifier () ts_New ts_builders
     (Check_recursive (Stack_checker (\<lambda>v. v))) 2 6
     ([[0, 1], [0, 1], [1, 0], [1, 0], [1, 0], [0, 1]],
      replicate 6 0 @ replicate 8 1 @ replicate 3 0 @ replicate 8 1 @ replicate 3 0 @ replicate 8 1
      @ replicate 4 0 @ replicate 8 1 @ replicate 2 1)"

lemma ts_reported: "reported ts_round"
  by code_simp

end
