(* ===== verification/Ms_Queue.thy ===== *)
theory Ms_Queue
  imports Serial_Targets
begin

text \<open>
  Model of \<open>verifying/targets/nonlinear_ms_queue.cpp\<close>: the queue of Michael and Scott on a pool of nodes. \<open>Pop\<close>
  gives up after three attempts and then returns the value of its last attempt.
\<close>

declare split_paired_All [simp del] split_paired_Ex [simp del]

section \<open>The methods\<close>

definition ms_N :: nat where "ms_N = 100"

text \<open>A node is the dummy or one of the pool; a null pointer is \<open>None\<close>.\<close>

datatype ms_node = Dummy | Pool nat

record ms_queue =
  ms_value :: "int list"
  ms_next :: "ms_node option list"
  ms_dummy_next :: "ms_node option"
  ms_head :: ms_node
  ms_tail :: ms_node
  ms_index :: nat

definition next_get :: "ms_queue \<Rightarrow> ms_node \<Rightarrow> ms_node option res" where
  "next_get x p = (case p of Dummy \<Rightarrow> Inr (ms_dummy_next x) | Pool i \<Rightarrow> vec_get (ms_next x) i)"

definition next_set :: "ms_queue \<Rightarrow> ms_node \<Rightarrow> ms_node option \<Rightarrow> ms_queue res" where
  "next_set x p n = (case p of Dummy \<Rightarrow> Inr (x\<lparr>ms_dummy_next := n\<rparr>)
     | Pool i \<Rightarrow> res_bind (vec_set (ms_next x) i n) (\<lambda>ns. Inr (x\<lparr>ms_next := ns\<rparr>)))"

text \<open>The value of a node that a pointer points to; the dummy has the value 0.\<close>

definition value_get :: "ms_queue \<Rightarrow> ms_node option \<Rightarrow> int res" where
  "value_get x p = (case p of None \<Rightarrow> Inl Null_Deref | Some Dummy \<Rightarrow> Inr 0 | Some (Pool i) \<Rightarrow> vec_get (ms_value x) i)"

text \<open>
  Positions with the local variables: in \<open>Push\<close> the new node, \<open>currentTail\<close> and \<open>currentNext\<close>, in \<open>Pop\<close>
  also \<open>time\<close> and \<open>value\<close>.
\<close>

datatype ms_pc =
    Ms_Push int | Ms_Init_Value int nat | Ms_Init_Next nat
  | Ms_Load_Tail nat | Ms_Load_Next nat ms_node | Ms_Check_Tail nat ms_node "ms_node option"
  | Ms_Link nat ms_node | Ms_Help nat ms_node ms_node | Ms_Swing nat ms_node
  | Ms_Pop_Head nat int | Ms_Pop_Tail nat int ms_node | Ms_Pop_Next nat int ms_node ms_node
  | Ms_Pop_Check nat int ms_node ms_node "ms_node option" | Ms_Pop_Help nat int ms_node ms_node
  | Ms_Pop_Value nat ms_node "ms_node option" | Ms_Pop_Cas nat int ms_node "ms_node option"
  | Ms_Ret_Void | Ms_Ret int

text \<open>The head of the loop of \<open>Pop\<close>: \<open>time++ < 3\<close>.\<close>

definition ms_again :: "nat \<Rightarrow> int \<Rightarrow> ms_pc" where
  "ms_again time v = (if time < 3 then Ms_Pop_Head (time + 1) v else Ms_Ret v)"

fun ms_step :: "(ms_queue, ms_pc) target_step" where
  "ms_step (Ms_Push v) x = res_bind (cxx_assert ''Node pool exhausted'' (ms_index x < length (ms_next x)))
     (\<lambda>_. Inr (x\<lparr>ms_index := ms_index x + 1\<rparr>, Yield (Ms_Init_Value v (ms_index x))))"
| "ms_step (Ms_Init_Value v i) x = res_bind (vec_set (ms_value x) i v) (\<lambda>vs. Inr (x\<lparr>ms_value := vs\<rparr>, Yield (Ms_Init_Next i)))"
| "ms_step (Ms_Init_Next i) x = res_bind (next_set x (Pool i) None) (\<lambda>x. Inr (x, Yield (Ms_Load_Tail i)))"
| "ms_step (Ms_Load_Tail i) x = Inr (x, Yield (Ms_Load_Next i (ms_tail x)))"
| "ms_step (Ms_Load_Next i t) x = res_bind (next_get x t) (\<lambda>n. Inr (x, Yield (Ms_Check_Tail i t n)))"
| "ms_step (Ms_Check_Tail i t n) x = Inr (x, Yield (if t = ms_tail x
     then (case n of None \<Rightarrow> Ms_Link i t | Some p \<Rightarrow> Ms_Help i t p) else Ms_Load_Tail i))"
| "ms_step (Ms_Link i t) x = res_bind (next_get x t) (\<lambda>n. if Option.is_none n
     then res_bind (next_set x t (Some (Pool i))) (\<lambda>x. Inr (x, Yield (Ms_Swing i t))) else Inr (x, Yield (Ms_Load_Tail i)))"
| "ms_step (Ms_Help i t p) x = Inr (if ms_tail x = t then x\<lparr>ms_tail := p\<rparr> else x, Yield (Ms_Load_Tail i))"
| "ms_step (Ms_Swing i t) x = Inr (if ms_tail x = t then x\<lparr>ms_tail := Pool i\<rparr> else x, Yield Ms_Ret_Void)"
| "ms_step (Ms_Pop_Head time v) x = Inr (x, Yield (Ms_Pop_Tail time v (ms_head x)))"
| "ms_step (Ms_Pop_Tail time v h) x = Inr (x, Yield (Ms_Pop_Next time v h (ms_tail x)))"
| "ms_step (Ms_Pop_Next time v h t) x = res_bind (next_get x h) (\<lambda>n. Inr (x, Yield (Ms_Pop_Check time v h t n)))"
| "ms_step (Ms_Pop_Check time v h t n) x = Inr (x, Yield (if h = ms_head x
     then if h = t then (case n of None \<Rightarrow> Ms_Ret 0 | Some p \<Rightarrow> Ms_Pop_Help time v t p) else Ms_Pop_Value time h n
     else ms_again time v))"
| "ms_step (Ms_Pop_Help time v t p) x = Inr (if ms_tail x = t then x\<lparr>ms_tail := p\<rparr> else x, Yield (ms_again time v))"
| "ms_step (Ms_Pop_Value time h n) x = res_bind (value_get x n) (\<lambda>v. Inr (x, Yield (Ms_Pop_Cas time v h n)))"
| "ms_step (Ms_Pop_Cas time v h n) x = (if ms_head x = h
     then (case n of None \<Rightarrow> Inl Null_Deref | Some p \<Rightarrow> Inr (x\<lparr>ms_head := p\<rparr>, Yield (Ms_Ret v)))
     else Inr (x, Yield (ms_again time v)))"
| "ms_step Ms_Ret_Void x = Inr (x, Return void_v)"
| "ms_step (Ms_Ret v) x = Inr (x, Return (vw_int v))"

definition ms_Reset :: "ms_queue \<Rightarrow> ms_queue" where
  "ms_Reset x = x\<lparr>ms_index := 0, ms_dummy_next := None, ms_head := Dummy, ms_tail := Dummy\<rparr>"

definition ms_New :: ms_queue where
  "ms_New = \<lparr>ms_value = replicate ms_N 0, ms_next = replicate ms_N None, ms_dummy_next = None,
     ms_head = Dummy, ms_tail = Dummy, ms_index = 0\<rparr>"

definition ms_calls :: "(int, ms_pc) target_call set" where
  "ms_calls = {(''Push'', generateInt r, Ms_Push (generateInt r)) |r. True} \<union> {(''Pop'', a, ms_again 0 0) |a. True}"

section \<open>Serial use\<close>

text \<open>The nodes that follow a node.\<close>

fun path :: "ms_queue \<Rightarrow> ms_node \<Rightarrow> ms_node list \<Rightarrow> bool" where
  "path x p [] \<longleftrightarrow> next_get x p = Inr None"
| "path x p (q # qs) \<longleftrightarrow> next_get x p = Inr (Some q) \<and> path x q qs"

lemma next_get_head [simp]: "next_get (x\<lparr>ms_head := q\<rparr>) p = next_get x p"
  by (cases p) (simp_all add: next_get_def)

lemma path_last: "path x p ps \<Longrightarrow> next_get x (last (p # ps)) = Inr None"
  by (induction x p ps rule: path.induct) auto

lemma path_snoc:
  assumes "path x p ps" "distinct (p # ps)" "\<And>q. q \<in> set (p # ps) \<Longrightarrow> q \<noteq> last (p # ps) \<Longrightarrow> next_get y q = next_get x q"
    "next_get y (last (p # ps)) = Inr (Some r)" "next_get y r = Inr None"
  shows "path y p (ps @ [r])"
  using assms
proof (induction x p ps rule: path.induct)
  case (2 x p q qs)
  have "p \<noteq> last (q # qs)" using 2(3) last_in_set [of "q # qs"] by auto
  then have "next_get y p = Inr (Some q)" using 2(2) 2(4) [of p] by simp
  moreover have "path y q (qs @ [r])" by (rule 2(1)) (use 2(2-6) in auto)
  ultimately show ?case by simp
qed simp

lemma path_cong: "path x p ps \<Longrightarrow> (\<And>q. q \<in> set (p # ps) \<Longrightarrow> next_get y q = next_get x q) \<Longrightarrow> path y p ps"
  by (induction x p ps rule: path.induct) auto

definition pool_value :: "ms_queue \<Rightarrow> ms_node \<Rightarrow> int" where
  "pool_value x p = (case p of Dummy \<Rightarrow> 0 | Pool i \<Rightarrow> ms_value x ! i)"

definition pooled :: "nat \<Rightarrow> ms_node \<Rightarrow> bool" where
  "pooled m p \<longleftrightarrow> (case p of Dummy \<Rightarrow> True | Pool i \<Rightarrow> i < m)"

definition ms_rel :: "nat \<Rightarrow> ms_queue \<Rightarrow> queue \<Rightarrow> bool" where
  "ms_rel k x s \<longleftrightarrow> length (ms_value x) = ms_N \<and> length (ms_next x) = ms_N \<and> ms_index x \<le> k
     \<and> (\<exists>ps. path x (ms_head x) ps \<and> ms_tail x = last (ms_head x # ps) \<and> distinct (ms_head x # ps)
         \<and> (\<forall>p \<in> set (ms_head x # ps). pooled (min (ms_index x) ms_N) p) \<and> q_deq s = map (pool_value x) ps)"

lemma ms_relE:
  assumes "ms_rel k x s"
  obtains ps where "length (ms_value x) = ms_N" "length (ms_next x) = ms_N" "ms_index x \<le> k"
    "path x (ms_head x) ps" "ms_tail x = last (ms_head x # ps)" "distinct (ms_head x # ps)"
    "\<forall>p \<in> set (ms_head x # ps). pooled (min (ms_index x) ms_N) p" "q_deq s = map (pool_value x) ps"
  using assms unfolding ms_rel_def by blast

lemma ms_relI:
  assumes "length (ms_value x) = ms_N" "length (ms_next x) = ms_N" "ms_index x \<le> k"
    "path x (ms_head x) ps" "ms_tail x = last (ms_head x # ps)" "distinct (ms_head x # ps)"
    "\<forall>p \<in> set (ms_head x # ps). pooled (min (ms_index x) ms_N) p" "q_deq s = map (pool_value x) ps"
  shows "ms_rel k x s"
  using assms unfolding ms_rel_def by blast

text \<open>What \<open>Push\<close> makes of the queue when it runs alone.\<close>

definition pushed :: "ms_queue \<Rightarrow> int \<Rightarrow> ms_queue" where
  "pushed x v = (let i = ms_index x; z = x\<lparr>ms_index := i + 1, ms_value := (ms_value x)[i := v], ms_next := (ms_next x)[i := None]\<rparr> in
     (case ms_tail x of Dummy \<Rightarrow> z\<lparr>ms_dummy_next := Some (Pool i)\<rparr> | Pool j \<Rightarrow> z\<lparr>ms_next := (ms_next z)[j := Some (Pool i)]\<rparr>)
       \<lparr>ms_tail := Pool i\<rparr>)"

lemma pushed_sel:
  "ms_head (pushed x v) = ms_head x" "ms_tail (pushed x v) = Pool (ms_index x)" "ms_index (pushed x v) = ms_index x + 1"
  "ms_value (pushed x v) = (ms_value x)[ms_index x := v]" "length (ms_next (pushed x v)) = length (ms_next x)"
  by (simp_all add: pushed_def Let_def split: ms_node.splits)

lemma pushed_next:
  assumes "pooled (min (ms_index x) (length (ms_next x))) (ms_tail x)" "ms_index x < length (ms_next x)"
  shows "next_get (pushed x v) q = (if q = ms_tail x then Inr (Some (Pool (ms_index x)))
    else if q = Pool (ms_index x) then Inr None else next_get x q)"
  using assms by (auto simp: pushed_def next_get_def vec_get_def pooled_def Let_def nth_list_update split: ms_node.splits)

lemma ms_push_steps:
  assumes "length (ms_value x) = length (ms_next x)" "ms_index x < length (ms_next x)"
    "pooled (min (ms_index x) (length (ms_next x))) (ms_tail x)" "next_get x (ms_tail x) = Inr None"
  shows "alone ms_step (Ms_Push v) x (pushed x v) void_v"
  using assms by (cases "ms_tail x")
    (simp_all add: alone_Yield alone_Return vec_set_def next_set_def next_get_def vec_get_def pooled_def pushed_def Let_def)

lemma ms_push_alone:
  assumes rel: "ms_rel k x s" and k: "k < ms_N"
  shows "\<exists>y. alone ms_step (Ms_Push v) x y void_v \<and> ms_rel (Suc k) y (Queue_Push v s)"
proof -
  from rel obtain ps where len: "length (ms_value x) = ms_N" "length (ms_next x) = ms_N" and ix: "ms_index x \<le> k"
    and ps: "path x (ms_head x) ps" "ms_tail x = last (ms_head x # ps)" "distinct (ms_head x # ps)"
    and pool': "\<forall>p \<in> set (ms_head x # ps). pooled (min (ms_index x) ms_N) p" and s: "q_deq s = map (pool_value x) ps"
    by (rule ms_relE)
  note pool = bspec [OF pool']
  let ?i = "ms_index x"
  have i: "?i < ms_N" using ix k by simp
  have t: "ms_tail x \<in> set (ms_head x # ps)" unfolding ps(2) by (rule last_in_set) simp
  have new: "Pool ?i \<notin> set (ms_head x # ps)" using pool [of "Pool ?i"] by (auto simp: pooled_def)
  have nx: "next_get (pushed x v) q = (if q = ms_tail x then Inr (Some (Pool ?i)) else if q = Pool ?i then Inr None else next_get x q)" for q
    by (rule pushed_next) (use pool [OF t] len i in simp_all)
  have "path (pushed x v) (ms_head x) (ps @ [Pool ?i])"
  proof (rule path_snoc [OF ps(1,3)])
    show "next_get (pushed x v) q = next_get x q" if "q \<in> set (ms_head x # ps)" "q \<noteq> last (ms_head x # ps)" for q
      using that new unfolding nx ps(2) by (metis (full_types))
    have "Pool ?i \<noteq> ms_tail x" using new t by metis
    then show "next_get (pushed x v) (Pool ?i) = Inr None" by (simp only: nx if_False if_True refl)
    show "next_get (pushed x v) (last (ms_head x # ps)) = Inr (Some (Pool ?i))" by (simp only: nx ps(2) if_True refl)
  qed
  moreover have "map (pool_value (pushed x v)) (ps @ [Pool ?i]) = map (pool_value x) ps @ [v]"
    using new len i by (auto simp: pool_value_def pushed_sel nth_list_update split: ms_node.splits)
  moreover have "pooled (min (Suc ?i) ms_N) p" if "p \<in> set (ms_head x # ps @ [Pool ?i])" for p
    using that pool [of p] i by (auto simp: pooled_def split: ms_node.splits)
  ultimately have "ms_rel (Suc k) (pushed x v) (Queue_Push v s)"
    using ps new len ix s by (intro ms_relI [of _ _ "ps @ [Pool ?i]"]) (auto simp: pushed_sel Queue_Push_def)
  moreover have "alone ms_step (Ms_Push v) x (pushed x v) void_v"
    using len i pool [OF t] path_last [OF ps(1)] by (intro ms_push_steps) (auto simp: ps(2))
  ultimately show ?thesis by blast
qed

lemma ms_pop_alone:
  assumes rel: "ms_rel k x s"
  shows "\<exists>y. alone ms_step (ms_again 0 0) x y (vw_int (snd (Queue_Pop s))) \<and> ms_rel (Suc k) y (fst (Queue_Pop s))"
proof -
  from rel obtain ps where len: "length (ms_value x) = ms_N" "length (ms_next x) = ms_N" and ix: "ms_index x \<le> k"
    and ps: "path x (ms_head x) ps" "ms_tail x = last (ms_head x # ps)" "distinct (ms_head x # ps)"
    and pool': "\<forall>p \<in> set (ms_head x # ps). pooled (min (ms_index x) ms_N) p" and s: "q_deq s = map (pool_value x) ps"
    by (rule ms_relE)
  note pool = bspec [OF pool']
  show ?thesis
  proof (cases ps)
    case Nil
    then have "alone ms_step (ms_again 0 0) x x (vw_int 0)" using ps(1,2) by (simp add: ms_again_def alone_Yield alone_Return)
    moreover have "ms_rel (Suc k) x s" using rel unfolding ms_rel_def by (meson le_SucI)
    ultimately show ?thesis using Nil s by (intro exI [of _ x]) (simp add: Queue_Pop_def)
  next
    case (Cons q qs)
    have ht: "ms_head x \<noteq> ms_tail x" using ps(2,3) last_in_set [of "q # qs"] unfolding Cons by auto
    have v: "value_get x (Some q) = Inr (pool_value x q)"
      using pool [of q] len by (auto simp: Cons value_get_def pool_value_def pooled_def vec_get_def split: ms_node.splits)
    have "alone ms_step (ms_again 0 0) x (x\<lparr>ms_head := q\<rparr>) (vw_int (pool_value x q))"
      using ps(1) ht v by (simp add: Cons ms_again_def alone_Yield alone_Return)
    moreover have "ms_rel (Suc k) (x\<lparr>ms_head := q\<rparr>) (fst (Queue_Pop s))"
    proof (rule ms_relI [of _ _ qs])
      show "path (x\<lparr>ms_head := q\<rparr>) (ms_head (x\<lparr>ms_head := q\<rparr>)) qs"
        using ps(1) path_cong [of x q qs "x\<lparr>ms_head := q\<rparr>"] by (simp add: Cons)
      show "q_deq (fst (Queue_Pop s)) = map (pool_value (x\<lparr>ms_head := q\<rparr>)) qs"
        using s by (simp add: Cons Queue_Pop_def pool_value_def cong: ms_node.case_cong)
    qed (use len ix ps pool in \<open>auto simp: Cons\<close>)
    ultimately show ?thesis using s by (intro exI [of _ "x\<lparr>ms_head := q\<rparr>"]) (simp add: Cons Queue_Pop_def)
  qed
qed

interpretation ms_queue:
  serial_object "Queue_checker (\<lambda>v. v)" ms_calls ms_step ms_New ms_N ms_rel
proof
  show "ms_rel 0 ms_New (first_state (Queue_checker (\<lambda>v. v)))"
    by (rule ms_relI [of _ _ "[]"]) (simp_all add: ms_New_def Queue_checker_def next_get_def pooled_def)
  fix k x s nm a c
  assume rel: "ms_rel k x s" and k: "k < ms_N" and call: "(nm, a, c) \<in> ms_calls"
  from call consider "nm = ''Push''" "c = Ms_Push a" | "nm = ''Pop''" "c = ms_again 0 0" by (auto simp: ms_calls_def)
  then show "\<exists>m s' v y. specification_methods (Queue_checker (\<lambda>v. v)) nm = Some m \<and> m s a = (s', v)
    \<and> alone ms_step c x y v \<and> ms_rel (Suc k) y s'"
  proof cases
    case 1
    with ms_push_alone [OF rel k, of a] show ?thesis by (auto simp: Queue_checker_def Queue_GetMethods_def)
  next
    case 2
    with ms_pop_alone [OF rel] show ?thesis by (auto simp: Queue_checker_def Queue_GetMethods_def split_def Let_def)
  qed
qed

section \<open>A value that is popped twice\<close>

definition ms_builders :: "(ms_queue, int, ms_pc) task_builder list" where
  "ms_builders = [target_builder ''Push'' Ms_Push (\<lambda>t. generateInt (int t)), target_builder ''Pop'' (\<lambda>_. ms_again 0 0) (\<lambda>_. 0)]"

text \<open>
  The first attempt of a \<open>Pop\<close> loses its element to the other thread, the second one helps a \<open>Push\<close>, and
  the third one loses again; the value is returned all the same.
\<close>

definition ms_round :: "(both_histories option \<times> (ms_queue, int, ms_pc, unit, script) rnd) res" where
  "ms_round = scripted_round ms_step (\<lambda>_ _. 0) ms_Reset DefaultStrategyVerifier () ms_New ms_builders
     (Check_recursive (Queue_checker (\<lambda>v. v))) 2 5
     ([[0, 1], [1, 0], [0, 1], [1, 0], [1, 0]],
      replicate 9 1 @ replicate 5 0 @ replicate 7 1 @ [0] @ replicate 7 1 @ replicate 5 0 @ replicate 2 1 @ replicate 5 0 @ replicate 7 1
      @ replicate 2 0)"

lemma ms_reported: "reported ms_round"
  by code_simp

end
