(* ===== verification/Slots_Set.thy ===== *)
theory Slots_Set
  imports Serial_Targets
begin

text \<open>
  Model of \<open>verifying/targets/nonlinear_set.cpp\<close>: a set of integers in an array of slots that is searched
  from the hash of the value up to a free slot.
\<close>

declare split_paired_All [simp del] split_paired_Ex [simp del]

section \<open>The methods\<close>

definition slots_N :: nat where "slots_N = 100"

text \<open>
  The index of the \<open>i\<close>-th slot of a value. The remainder of C truncates towards zero, and its result is
  converted to \<open>size_t\<close>.
\<close>

definition slot_index :: "int \<Rightarrow> nat \<Rightarrow> nat" where
  "slot_index v i = (let hash = word_of_int (sgn v * (\<bar>v\<bar> mod int slots_N)) :: 64 word in unat (hash + of_nat i) mod slots_N)"

datatype slots_pc = Ss_Insert int nat | Ss_Insert_Cas int nat | Ss_Recheck int nat | Ss_Erase int nat | Ss_Erase_Cas int nat | Ss_Ret int

text \<open>The loops: the next slot, or the end with \<open>false\<close>.\<close>

definition slots_for :: "(int \<Rightarrow> nat \<Rightarrow> slots_pc) \<Rightarrow> int \<Rightarrow> nat \<Rightarrow> slots_pc" where
  "slots_for body v i = (if i < slots_N then body v i else Ss_Ret 0)"

fun slots_step :: "(int list, slots_pc) target_step" where
  "slots_step (Ss_Insert v i) x = res_bind (cxx_assert ''value != 0'' (v \<noteq> 0)) (\<lambda>_. res_bind (vec_get x (slot_index v i)) (\<lambda>current.
     Inr (x, Yield (if current = v then Ss_Ret 0 else if current = 0 then Ss_Insert_Cas v i else slots_for Ss_Insert v (i + 1)))))"
| "slots_step (Ss_Insert_Cas v i) x = res_bind (vec_get x (slot_index v i)) (\<lambda>current.
     Inr (if current = 0 then (x[slot_index v i := v], Yield (Ss_Ret 1)) else (x, Yield (Ss_Recheck v i))))"
| "slots_step (Ss_Recheck v i) x = res_bind (vec_get x (slot_index v i)) (\<lambda>current.
     Inr (x, Yield (if current = v then Ss_Ret 0 else slots_for Ss_Insert v (i + 1))))"
| "slots_step (Ss_Erase v i) x = res_bind (cxx_assert ''value != 0'' (v \<noteq> 0)) (\<lambda>_. res_bind (vec_get x (slot_index v i)) (\<lambda>current.
     Inr (x, Yield (if current = v then Ss_Erase_Cas v i else if current = 0 then Ss_Ret 0 else slots_for Ss_Erase v (i + 1)))))"
| "slots_step (Ss_Erase_Cas v i) x = res_bind (vec_get x (slot_index v i)) (\<lambda>current.
     Inr (if current = v then (x[slot_index v i := 0], Yield (Ss_Ret 1))
          else (x, Yield (if current = 0 then Ss_Ret 0 else slots_for Ss_Erase v (i + 1)))))"
| "slots_step (Ss_Ret v) x = Inr (x, Return (vw_int v))"

definition slots_Reset :: "int list \<Rightarrow> int list" where
  "slots_Reset x = replicate slots_N 0"

definition slots_New :: "int list" where
  "slots_New = slots_Reset []"

definition slots_calls :: "int set \<Rightarrow> (int, slots_pc) target_call set" where
  "slots_calls V = {(''Insert'', v, Ss_Insert v 0) |v. v \<in> V} \<union> {(''Erase'', v, Ss_Erase v 0) |v. v \<in> V}"

section \<open>Serial use without collisions\<close>

definition collision_free :: "int set \<Rightarrow> bool" where
  "collision_free V \<longleftrightarrow> 0 \<notin> V \<and> inj_on (\<lambda>v. slot_index v 0) V"

definition slots_rel :: "int set \<Rightarrow> nat \<Rightarrow> int list \<Rightarrow> int_set \<Rightarrow> bool" where
  "slots_rel V k x s \<longleftrightarrow> length x = slots_N \<and> (\<forall>v \<in> V. x ! slot_index v 0 = (if v \<in> set_st s then v else 0))"

lemma slot_index_less: "slot_index v i < slots_N"
  by (simp add: slot_index_def slots_N_def)

lemma slots_rel_upd:
  assumes "slots_rel V k x s" "v \<in> V" "collision_free V" "set_st s' - {v} = set_st s - {v}" "w = (if v \<in> set_st s' then v else 0)"
  shows "slots_rel V (Suc k) (x[slot_index v 0 := w]) s'"
  unfolding slots_rel_def
proof (intro conjI ballI)
  show "length (x[slot_index v 0 := w]) = slots_N" using assms(1) by (simp add: slots_rel_def)
  fix u assume u: "u \<in> V"
  show "x[slot_index v 0 := w] ! slot_index u 0 = (if u \<in> set_st s' then u else 0)"
  proof (cases "u = v")
    case True
    then show ?thesis using assms(1,5) slot_index_less by (simp add: slots_rel_def)
  next
    case False
    then have "slot_index v 0 \<noteq> slot_index u 0" using assms(2,3) u by (auto simp: collision_free_def inj_on_def)
    moreover have "u \<in> set_st s' \<longleftrightarrow> u \<in> set_st s" using assms(4) False by blast
    ultimately show ?thesis using assms(1) u by (simp add: slots_rel_def)
  qed
qed

lemma slots_alone:
  assumes rel: "slots_rel V k x s" and v: "v \<in> V" and cf: "collision_free V"
  shows "alone slots_step (Ss_Insert v 0) x (if v \<in> set_st s then x else x[slot_index v 0 := v]) (vw_int (if v \<in> set_st s then 0 else 1))"
    "alone slots_step (Ss_Erase v 0) x (if v \<in> set_st s then x[slot_index v 0 := 0] else x) (vw_int (if v \<in> set_st s then 1 else 0))"
proof -
  have "x ! slot_index v 0 = (if v \<in> set_st s then v else 0)" "slot_index v 0 < length x" "v \<noteq> 0"
    using rel v cf slot_index_less by (auto simp: slots_rel_def collision_free_def)
  then show "alone slots_step (Ss_Insert v 0) x (if v \<in> set_st s then x else x[slot_index v 0 := v]) (vw_int (if v \<in> set_st s then 0 else 1))"
    "alone slots_step (Ss_Erase v 0) x (if v \<in> set_st s then x[slot_index v 0 := 0] else x) (vw_int (if v \<in> set_st s then 1 else 0))"
    by (simp_all add: alone_Yield alone_Return vec_get_def)
qed

lemma slots_serial_object:
  assumes cf: "collision_free V"
  shows "serial_object (Set_checker (\<lambda>v. v)) (slots_calls V) slots_step slots_New n (slots_rel V)"
proof
  show "slots_rel V 0 slots_New (first_state (Set_checker (\<lambda>v. v)))"
    using slot_index_less by (simp add: slots_rel_def slots_New_def slots_Reset_def Set_checker_def)
  fix k x s nm a c
  assume rel: "slots_rel V k x s" and call: "(nm, a, c) \<in> slots_calls V"
  then have a: "a \<in> V" by (auto simp: slots_calls_def)
  note alone = slots_alone [OF rel a cf] and upd = slots_rel_upd [OF rel a cf]
  have same: "x[slot_index a 0 := if a \<in> set_st s then a else 0] = x"
    using rel a by (auto simp: slots_rel_def list_update_same_conv slot_index_less)
  from call consider "nm = ''Insert''" "c = Ss_Insert a 0" | "nm = ''Erase''" "c = Ss_Erase a 0" by (auto simp: slots_calls_def)
  then show "\<exists>m s' v y. specification_methods (Set_checker (\<lambda>v. v)) nm = Some m \<and> m s a = (s', v)
    \<and> alone slots_step c x y v \<and> slots_rel V (Suc k) y s'"
  proof cases
    case 1
    have "slots_rel V (Suc k) (x[slot_index a 0 := a]) (fst (Set_Insert a s))" by (rule upd) (auto simp: Set_Insert_def)
    then have "slots_rel V (Suc k) (if a \<in> set_st s then x else x[slot_index a 0 := a]) (fst (Set_Insert a s))" using same by auto
    with alone(1) 1 show ?thesis by (auto simp: Set_checker_def Set_GetMethods_def Set_Insert_def)
  next
    case 2
    have "slots_rel V (Suc k) (x[slot_index a 0 := 0]) (fst (Set_Erase a s))" by (rule upd) (auto simp: Set_Erase_def)
    then have "slots_rel V (Suc k) (if a \<in> set_st s then x[slot_index a 0 := 0] else x) (fst (Set_Erase a s))" using same by auto
    with alone(2) 2 show ?thesis by (auto simp: Set_checker_def Set_GetMethods_def Set_Erase_def)
  qed
qed

section \<open>A value that is inserted twice\<close>

definition slots_builders :: "(int list, int, slots_pc) task_builder list" where
  "slots_builders = [target_builder ''Insert'' (\<lambda>v. Ss_Insert v 0) (\<lambda>_. 1), target_builder ''Erase'' (\<lambda>v. Ss_Erase v 0) (\<lambda>_. 1)]"

text \<open>The execution that is drawn in the source.\<close>

definition slots_round :: "(both_histories option \<times> (int list, int, slots_pc, unit, script) rnd) res" where
  "slots_round = scripted_round slots_step (\<lambda>_ _. 0) slots_Reset DefaultStrategyVerifier () slots_New slots_builders
     (Check_recursive (Set_checker (\<lambda>v. v))) 2 4
     ([[0, 1], [0, 1], [1, 0], [1, 0]], [0, 1, 0, 0, 1, 0, 0, 0, 1, 1, 1, 1, 1, 1, 1])"

lemma slots_reported: "reported slots_round"
  by code_simp

section \<open>Collisions\<close>

text \<open>
  Already in serial use the set is wrong: 1 and 101 have the same first slot, and erasing 1 cuts 101 off.
\<close>

definition slots_collision :: "(int, slots_pc) target_call list" where
  "slots_collision = [(''Insert'', 1, Ss_Insert 1 0), (''Insert'', 101, Ss_Insert 101 0), (''Erase'', 1, Ss_Erase 1 0),
     (''Erase'', 101, Ss_Erase 101 0)]"

lemma slot_index_values: "slot_index 1 0 = 1" "slot_index 101 0 = 1" "slot_index 101 (Suc 0) = 2"
  by (simp_all add: slot_index_def slots_N_def)

section \<open>Serial use\<close>

text \<open>With values that have different first slots, the answers are those of the specification.\<close>

lemma slots_serial_answers:
  assumes "collision_free V" "set ops \<subseteq> slots_calls V"
  shows "(\<exists>y. serial slots_step ops slots_New y vs)
    \<longleftrightarrow> vs = spec_answers (Set_checker (\<lambda>v. v)) ops (first_state (Set_checker (\<lambda>v. v)))"
  by (rule serial_object.serial_correct [OF slots_serial_object [OF assms(1)] assms(2) order_refl])

text \<open>
  With colliding values the set is wrong even in serial use: after \<open>Insert(1)\<close>, \<open>Insert(101)\<close> and
  \<open>Erase(1)\<close> the call \<open>Erase(101)\<close> returns \<open>false\<close>, because the slot of 1 is free again and ends the search.
  The specification answers \<open>true\<close>.
\<close>

theorem slots_set_collision:
  "(\<exists>y. serial slots_step slots_collision slots_New y [vw_int 1, vw_int 1, vw_int 1, vw_int 0])
    \<and> spec_answers (Set_checker (\<lambda>v. v)) slots_collision (first_state (Set_checker (\<lambda>v. v)))
      = [vw_int 1, vw_int 1, vw_int 1, vw_int 1]"
proof
  have N: "slots_New = replicate 100 0" by (simp add: slots_New_def slots_Reset_def slots_N_def)
  show "\<exists>y. serial slots_step slots_collision slots_New y [vw_int 1, vw_int 1, vw_int 1, vw_int 0]"
    by (simp add: slots_collision_def N alone_Yield alone_Return vec_get_def slot_index_values slots_for_def slots_N_def)
  show "spec_answers (Set_checker (\<lambda>v. v)) slots_collision (first_state (Set_checker (\<lambda>v. v)))
      = [vw_int 1, vw_int 1, vw_int 1, vw_int 1]"
    by (simp add: slots_collision_def Set_checker_def Set_GetMethods_def Set_Insert_def Set_Erase_def)
qed

end
