(* ===== verification/Fast_Queue.thy ===== *)
theory Fast_Queue
  imports Serial_Targets
begin

text \<open>
  Model of \<open>verifying/targets/fast_queue.cpp\<close>: a bounded queue in a ring whose cells carry a generation.
  \<open>compare_exchange_weak\<close> is taken not to fail spuriously.
\<close>

declare split_paired_All [simp del] split_paired_Ex [simp del]

unbundle bit_operations_syntax

section \<open>The methods\<close>

definition fq_size :: nat where "fq_size = 2"

record fast_queue =
  fq_max_size :: "64 word"
  fq_gen :: "64 word list"
  fq_val :: "int list"
  fq_head :: "64 word"
  fq_tail :: "64 word"

text \<open>
  Positions with the local variables \<open>h\<close> (or \<open>t\<close>), the index of the cell, and the value that is
  pushed or popped.
\<close>

datatype fq_pc =
    Fq_Push int | Fq_Push_Gen int "64 word" | Fq_Push_Cas int "64 word" | Fq_Write int nat | Fq_Publish nat
  | Fq_Pop | Fq_Pop_Gen "64 word" | Fq_Pop_Cas "64 word" | Fq_Read nat | Fq_Release nat int
  | Fq_Ret int

definition fq_cell :: "fast_queue \<Rightarrow> 64 word \<Rightarrow> nat" where
  "fq_cell x h = unat (h AND fq_max_size x)"

fun fast_queue_step :: "(fast_queue, fq_pc) target_step" where
  "fast_queue_step (Fq_Push v) x = Inr (x, Yield (Fq_Push_Gen v (fq_head x)))"
| "fast_queue_step (Fq_Push_Gen v h) x = res_bind (vec_get (fq_gen x) (fq_cell x h)) (\<lambda>gen.
     Inr (x, Yield (if gen = h then Fq_Push_Cas v h else if gen < h then Fq_Ret 0 else Fq_Push v)))"
| "fast_queue_step (Fq_Push_Cas v h) x =
     Inr (if fq_head x = h then (x\<lparr>fq_head := h + 1\<rparr>, Yield (Fq_Write v (fq_cell x h))) else (x, Yield (Fq_Push v)))"
| "fast_queue_step (Fq_Write v i) x = res_bind (vec_set (fq_val x) i v) (\<lambda>vs. Inr (x\<lparr>fq_val := vs\<rparr>, Yield (Fq_Publish i)))"
| "fast_queue_step (Fq_Publish i) x = res_bind (vec_get (fq_gen x) i) (\<lambda>gen.
     Inr (x\<lparr>fq_gen := (fq_gen x)[i := gen + 1]\<rparr>, Yield (Fq_Ret 1)))"
| "fast_queue_step Fq_Pop x = Inr (x, Yield (Fq_Pop_Gen (fq_tail x)))"
| "fast_queue_step (Fq_Pop_Gen t) x = res_bind (vec_get (fq_gen x) (fq_cell x t)) (\<lambda>gen.
     Inr (x, Yield (if gen = t + 1 then Fq_Pop_Cas t else if gen < t + 1 then Fq_Ret 0 else Fq_Pop)))"
| "fast_queue_step (Fq_Pop_Cas t) x =
     Inr (if fq_tail x = t then (x\<lparr>fq_tail := t + 1\<rparr>, Yield (Fq_Read (fq_cell x t))) else (x, Yield Fq_Pop))"
| "fast_queue_step (Fq_Read i) x = res_bind (vec_get (fq_val x) i) (\<lambda>v. Inr (x, Yield (Fq_Release i v)))"
| "fast_queue_step (Fq_Release i v) x = res_bind (vec_get (fq_gen x) i) (\<lambda>gen.
     Inr (x\<lparr>fq_gen := (fq_gen x)[i := gen + fq_max_size x]\<rparr>, Yield (Fq_Ret v)))"
| "fast_queue_step (Fq_Ret v) x = Inr (x, Return (vw_int v))"

definition fq_Reset :: "fast_queue \<Rightarrow> fast_queue" where
  "fq_Reset x = x\<lparr>fq_gen := map of_nat [0..<fq_size], fq_head := 0, fq_tail := 0\<rparr>"

definition fq_New :: fast_queue where
  "fq_New = \<lparr>fq_max_size = of_nat fq_size - 1, fq_gen = map of_nat [0..<fq_size], fq_val = replicate fq_size 0,
     fq_head = 0, fq_tail = 0\<rparr>"

definition fq_calls :: "(int, fq_pc) target_call set" where
  "fq_calls = {(''Push'', generateInt r, Fq_Push (generateInt r)) |r. True} \<union> {(''Pop'', a, Fq_Pop) |a. True}"

section \<open>Serial use\<close>

text \<open>
  After \<open>H\<close> successful calls of \<open>Push\<close> and \<open>T\<close> of \<open>Pop\<close>: the generation of a cell tells whether it is full. The limit
  keeps the counters below the width of \<open>size_t\<close>.
\<close>

definition fq_limit :: nat where "fq_limit = 2 ^ 62"

definition fq_at :: "nat \<Rightarrow> nat \<Rightarrow> fast_queue \<Rightarrow> queue \<Rightarrow> bool" where
  "fq_at T H x s \<longleftrightarrow> T \<le> H \<and> H \<le> T + 2 \<and> fq_max_size x = 1 \<and> length (fq_gen x) = 2 \<and> length (fq_val x) = 2
     \<and> fq_head x = of_nat H \<and> fq_tail x = of_nat T
     \<and> fq_gen x ! (T mod 2) = of_nat (if T < H then T + 1 else T)
     \<and> fq_gen x ! (Suc T mod 2) = of_nat (if Suc T < H then T + 2 else T + 1)
     \<and> q_deq s = (if T < H then [fq_val x ! (T mod 2)] else []) @ (if Suc T < H then [fq_val x ! (Suc T mod 2)] else [])"

definition fq_rel :: "nat \<Rightarrow> fast_queue \<Rightarrow> queue \<Rightarrow> bool" where
  "fq_rel k x s \<longleftrightarrow> (\<exists>T H. H \<le> k \<and> fq_at T H x s)"

lemma fq_cell_of_nat: "fq_max_size x = 1 \<Longrightarrow> fq_cell x (of_nat h) = h mod 2"
proof -
  assume "fq_max_size x = 1"
  then have "fq_cell x (of_nat h) = unat (of_nat h mod 2 :: 64 word)" by (simp add: fq_cell_def and_one_eq)
  also have "\<dots> = unat (of_nat h :: 64 word) mod 2" by (simp add: unat_mod)
  also have "\<dots> = h mod 2" by (simp add: unat_of_nat mod_mod_cancel)
  finally show ?thesis .
qed

lemma of_nat_less_64: "a < 2 ^ 63 \<Longrightarrow> b < 2 ^ 63 \<Longrightarrow> (of_nat a :: 64 word) < of_nat b \<longleftrightarrow> a < b"
  by (simp add: word_less_nat_alt unat_of_nat)

lemma of_nat_eq_64: "a < 2 ^ 63 \<Longrightarrow> b < 2 ^ 63 \<Longrightarrow> (of_nat a :: 64 word) = of_nat b \<longleftrightarrow> a = b"
  by (simp add: word_unat_eq_iff unat_of_nat)

lemma mod_two_next: "Suc T mod 2 \<noteq> T mod 2" "Suc (Suc T) mod 2 = T mod 2" "T mod 2 < 2"
  by (simp_all add: mod_Suc)

text \<open>\<open>Push\<close> on a queue with room, and on a full one.\<close>

lemma fq_push_alone:
  assumes at: "fq_at T H x s" and H: "H < fq_limit"
  shows "\<exists>y. alone fast_queue_step (Fq_Push v) x y (vw_int (snd (Bounded_Push v s)))
    \<and> (\<exists>H' \<le> Suc H. fq_at T H' y (fst (Bounded_Push v s)))"
proof (cases "H < T + 2")
  case True
  have x: "T \<le> H" "fq_max_size x = 1" "length (fq_gen x) = 2" "length (fq_val x) = 2" "fq_head x = of_nat H"
    using at by (simp_all add: fq_at_def)
  have gen: "fq_gen x ! (H mod 2) = of_nat H"
    using at True by (cases "H = T") (auto simp: fq_at_def le_less_Suc_eq less_Suc_eq)
  let ?y = "x\<lparr>fq_head := of_nat H + 1, fq_val := (fq_val x)[H mod 2 := v], fq_gen := (fq_gen x)[H mod 2 := of_nat H + 1]\<rparr>"
  have "alone fast_queue_step (Fq_Push v) x ?y (vw_int 1)"
    using x gen by (simp add: alone_Yield alone_Return fq_cell_of_nat vec_get_def vec_set_def fq_cell_def [of "x\<lparr>fq_head := h\<rparr>" for h])
  moreover have "fq_at T (Suc H) ?y (s\<lparr>q_deq := q_deq s @ [v]\<rparr>)"
    using at True mod_two_next [of T] by (cases "H = T") (auto simp: fq_at_def less_Suc_eq ac_simps)
  moreover have "Bounded_Push v s = (s\<lparr>q_deq := q_deq s @ [v]\<rparr>, 1)"
    using at True by (auto simp: fq_at_def Bounded_Push_def bounded_size_def)
  ultimately show ?thesis by (intro exI [of _ ?y]) auto
next
  case False
  then have HT: "H = T + 2" using at by (simp add: fq_at_def)
  have x: "fq_max_size x = 1" "length (fq_gen x) = 2" "fq_head x = of_nat H" "fq_gen x ! (T mod 2) = of_nat (T + 1)"
    using at by (simp_all add: fq_at_def HT)
  have less: "(of_nat (T + 1) :: 64 word) < of_nat H" "(of_nat (T + 1) :: 64 word) \<noteq> of_nat H"
    using H by (subst of_nat_less_64 of_nat_eq_64; simp add: HT fq_limit_def)+
  have "alone fast_queue_step (Fq_Push v) x x (vw_int 0)"
    using x less mod_two_next [of T] by (simp add: alone_Yield alone_Return fq_cell_of_nat vec_get_def HT del: of_nat_add of_nat_Suc)
  moreover have "Bounded_Push v s = (s, 0)" using at by (simp add: fq_at_def HT Bounded_Push_def bounded_size_def)
  ultimately show ?thesis using at by (intro exI [of _ x] conjI exI [of _ H]) simp_all
qed

text \<open>\<open>Pop\<close> on a queue with an element, and on an empty one.\<close>

lemma fq_pop_alone:
  assumes at: "fq_at T H x s" and H: "H < fq_limit"
  shows "\<exists>y T'. alone fast_queue_step Fq_Pop x y (vw_int (snd (Bounded_Pop s))) \<and> fq_at T' H y (fst (Bounded_Pop s))"
proof (cases "T < H")
  case True
  have x: "fq_max_size x = 1" "length (fq_gen x) = 2" "length (fq_val x) = 2" "fq_tail x = of_nat T"
    "fq_gen x ! (T mod 2) = of_nat T + 1"
    using at True by (simp_all add: fq_at_def add.commute)
  let ?y = "x\<lparr>fq_tail := of_nat T + 1, fq_gen := (fq_gen x)[T mod 2 := of_nat T + 1 + 1]\<rparr>"
  have "alone fast_queue_step Fq_Pop x ?y (vw_int (fq_val x ! (T mod 2)))"
    using x by (simp add: alone_Yield alone_Return fq_cell_of_nat vec_get_def)
  moreover have "fq_at (Suc T) H ?y (fst (Bounded_Pop s))"
    using at True mod_two_next [of T] by (auto simp: fq_at_def Bounded_Pop_def less_Suc_eq ac_simps split: if_splits)
  moreover have "snd (Bounded_Pop s) = fq_val x ! (T mod 2)" using at True by (simp add: fq_at_def Bounded_Pop_def)
  ultimately show ?thesis by (intro exI [of _ ?y] exI [of _ "Suc T"]) auto
next
  case False
  then have HT: "H = T" using at by (simp add: fq_at_def)
  have x: "fq_max_size x = 1" "length (fq_gen x) = 2" "fq_tail x = of_nat T" "fq_gen x ! (T mod 2) = of_nat T"
    using at by (simp_all add: fq_at_def HT)
  have less: "(of_nat T :: 64 word) < of_nat (T + 1)" "(of_nat T :: 64 word) \<noteq> of_nat (T + 1)"
    using H by (subst of_nat_less_64 of_nat_eq_64; simp add: HT fq_limit_def)+
  have "alone fast_queue_step Fq_Pop x x (vw_int 0)"
    using x less mod_two_next [of T] by (simp add: alone_Yield alone_Return fq_cell_of_nat vec_get_def add.commute)
  moreover have "Bounded_Pop s = (s, 0)" using at by (simp add: fq_at_def HT Bounded_Pop_def)
  ultimately show ?thesis using at by auto
qed

interpretation fast_queue:
  serial_object "Bounded_checker (\<lambda>v. v)" fq_calls fast_queue_step fq_New fq_limit fq_rel
proof
  have "fq_at 0 0 fq_New \<lparr>q_deq = []\<rparr>" by (simp add: fq_at_def fq_New_def fq_size_def upt_rec)
  then show "fq_rel 0 fq_New (first_state (Bounded_checker (\<lambda>v. v)))"
    by (auto simp: fq_rel_def Bounded_checker_def)
  fix k x s nm a c
  assume rel: "fq_rel k x s" and k: "k < fq_limit" and call: "(nm, a, c) \<in> fq_calls"
  then obtain T H where at: "fq_at T H x s" and H: "H \<le> k" by (auto simp: fq_rel_def)
  then have HL: "H < fq_limit" using k by simp
  from call consider "nm = ''Push''" "c = Fq_Push a" | "nm = ''Pop''" "c = Fq_Pop" by (auto simp: fq_calls_def)
  then show "\<exists>m s' v y. specification_methods (Bounded_checker (\<lambda>v. v)) nm = Some m \<and> m s a = (s', v)
    \<and> alone fast_queue_step c x y v \<and> fq_rel (Suc k) y s'"
  proof cases
    case 1
    from fq_push_alone [OF at HL, of a] obtain y H' where
      y: "alone fast_queue_step (Fq_Push a) x y (vw_int (snd (Bounded_Push a s)))" "H' \<le> Suc H" "fq_at T H' y (fst (Bounded_Push a s))"
      by blast
    have "fq_rel (Suc k) y (fst (Bounded_Push a s))" unfolding fq_rel_def using y(2,3) H by (meson Suc_le_mono order_trans)
    with y(1) 1 show ?thesis by (auto simp: Bounded_checker_def Bounded_GetMethods_def split_def Let_def)
  next
    case 2
    from fq_pop_alone [OF at HL] obtain y T' where
      y: "alone fast_queue_step Fq_Pop x y (vw_int (snd (Bounded_Pop s)))" "fq_at T' H y (fst (Bounded_Pop s))" by blast
    have "fq_rel (Suc k) y (fst (Bounded_Pop s))" unfolding fq_rel_def using y(2) H by (meson le_SucI)
    with y(1) 2 show ?thesis by (auto simp: Bounded_checker_def Bounded_GetMethods_def split_def Let_def)
  qed
qed

section \<open>A push that hides another one\<close>

definition fq_builders :: "(fast_queue, int, fq_pc) task_builder list" where
  "fq_builders = [target_builder ''Push'' Fq_Push (\<lambda>t. generateInt (int t)), target_builder ''Pop'' (\<lambda>_. Fq_Pop) (\<lambda>_. 0)]"

text \<open>
  A \<open>Push\<close> has claimed the first cell and not published it; the \<open>Push\<close> of the other thread returns 1, and the
  \<open>Pop\<close> after it finds the first cell unpublished and says that the queue is empty.
\<close>

definition fq_round :: "(both_histories option \<times> (fast_queue, int, fq_pc, unit, script) rnd) res" where
  "fq_round = scripted_round fast_queue_step (\<lambda>_ _. 0) fq_Reset DefaultStrategyVerifier () fq_New fq_builders
     (Check_recursive (Bounded_checker (\<lambda>v. v))) 2 3
     ([[0, 1], [0, 1], [1, 0]], [0, 0, 0, 1, 1, 1, 1, 1, 1, 1, 1, 1, 0, 0, 0])"

lemma fq_reported: "reported fq_round"
  by code_simp

end
