(* ===== verification/Token_Targets.thy ===== *)
theory Token_Targets
  imports Serial_Targets Token_Mutex
begin

text \<open>
  The targets that use the token mutex: \<open>verifying/targets/deadlock.cpp\<close> and \<open>verifying/targets/mutex_queue.cpp\<close>.
  Their slices change the tokens of the runtime too, so that a step works on the world.
\<close>

declare split_paired_All [simp del] split_paired_Ex [simp del]

section \<open>A mutex in a larger object\<close>

type_synonym ('o, 'c) world_step = "'c \<Rightarrow> 'o world \<Rightarrow> ('o world \<times> 'c slice_end) res"

definition focus :: "('o \<Rightarrow> token_mutex) \<Rightarrow> 'o world \<Rightarrow> token_mutex world" where
  "focus get w = \<lparr>w_state = get (w_state w), w_parked = w_parked w, w_next_token = w_next_token w, w_status = w_status w\<rparr>"

definition unfocus :: "(token_mutex \<Rightarrow> 'o \<Rightarrow> 'o) \<Rightarrow> token_mutex world \<Rightarrow> 'o world \<Rightarrow> 'o world" where
  "unfocus put m w = w\<lparr>w_state := put (w_state m) (w_state w), w_parked := w_parked m\<rparr>"

text \<open>The continuation is where the task goes on when it has been parked.\<close>

definition Lock_in ::
    "('o \<Rightarrow> token_mutex) \<Rightarrow> (token_mutex \<Rightarrow> 'o \<Rightarrow> 'o) \<Rightarrow> token_ref \<Rightarrow> 'c \<Rightarrow> 'o world \<Rightarrow> 'o world \<times> 'c slice_end option" where
  "Lock_in get put tok k w = (case Token_Mutex.Mutex_Lock tok k (focus get w) of (m, e) \<Rightarrow> (unfocus put m w, e))"

definition Unlock_in :: "('o \<Rightarrow> token_mutex) \<Rightarrow> (token_mutex \<Rightarrow> 'o \<Rightarrow> 'o) \<Rightarrow> 'o world \<Rightarrow> 'o world res" where
  "Unlock_in get put w = res_bind (Token_Mutex.Mutex_Unlock (focus get w)) (\<lambda>m. Inr (unfocus put m w))"

lemma Lock_in_eq:
  "Lock_in get put tok k w = (if get (w_state w) = [] then (w\<lparr>w_state := put [tok] (w_state w)\<rparr>, None)
     else (w\<lparr>w_state := put (get (w_state w) @ [tok]) (w_state w), w_parked := (w_parked w)(tok := True)\<rparr>, Some (Yield k)))"
  by (simp add: Lock_in_def Token_Mutex.Mutex_Lock_def Token_Park_def focus_def unfocus_def Let_def)

lemma Unlock_in_eq:
  "Unlock_in get put w = (case get (w_state w) of [] \<Rightarrow> Inl (Assert_Failed ''!waiters.empty()'')
     | t # ts \<Rightarrow> Inr (w\<lparr>w_state := put ts (w_state w), w_parked := (case ts of [] \<Rightarrow> w_parked w | u # us \<Rightarrow> (w_parked w)(u := False))\<rparr>))"
  by (simp add: Unlock_in_def Token_Mutex.Mutex_Unlock_def Token_Unpark_def focus_def unfocus_def Let_def split: list.splits)

definition world_body :: "('o, 'c) world_step \<Rightarrow> ('o, 'c) body" where
  "world_body step c w = (case step c w of Inr r \<Rightarrow> r | Inl _ \<Rightarrow> (w, Yield c))"

text \<open>A generator that makes a token and a value.\<close>

definition token_builder :: "string \<Rightarrow> (token_ref \<times> 'a \<Rightarrow> 'c) \<Rightarrow> (nat \<Rightarrow> 'a) \<Rightarrow> ('o, token_ref \<times> 'a, 'c) task_builder" where
  "token_builder nm f gen = \<lparr>tb_name = nm, tb_func = f, tb_gen = (\<lambda>t w. case genToken w of (w, tok) \<Rightarrow> ((tok, gen t), w, Some tok))\<rparr>"

section \<open>The deadlock target\<close>

record dl_test =
  dl_mu1 :: token_mutex
  dl_mu2 :: token_mutex

datatype dl_pc = Dl_Lock1 token_ref int | Dl_Yield1 token_ref int | Dl_Lock2 token_ref int | Dl_Yield2 | Dl_Unlock

definition dl_Lock :: "bool \<Rightarrow> token_ref \<Rightarrow> dl_pc \<Rightarrow> dl_test world \<Rightarrow> dl_test world \<times> dl_pc slice_end option" where
  "dl_Lock one = (if one then Lock_in dl_mu1 (\<lambda>m x. x\<lparr>dl_mu1 := m\<rparr>) else Lock_in dl_mu2 (\<lambda>m x. x\<lparr>dl_mu2 := m\<rparr>))"

text \<open>
  \<open>Lock\<close>: the even values take the first mutex first. A task that was parked in a call of \<open>Lock\<close> has the
  \<open>CoroYield\<close> after it still to come.
\<close>

fun deadlock_step :: "(dl_test, dl_pc) world_step" where
  "deadlock_step (Dl_Lock1 tok v) w = (case dl_Lock (v mod 2 = 0) tok (Dl_Yield1 tok v) w of
     (w, e) \<Rightarrow> Inr (w, case e of None \<Rightarrow> Yield (Dl_Lock2 tok v) | Some e \<Rightarrow> e))"
| "deadlock_step (Dl_Yield1 tok v) w = Inr (w, Yield (Dl_Lock2 tok v))"
| "deadlock_step (Dl_Lock2 tok v) w = (case dl_Lock (v mod 2 \<noteq> 0) tok Dl_Yield2 w of
     (w, e) \<Rightarrow> Inr (w, case e of None \<Rightarrow> Yield Dl_Unlock | Some e \<Rightarrow> e))"
| "deadlock_step Dl_Yield2 w = Inr (w, Yield Dl_Unlock)"
| "deadlock_step Dl_Unlock w =
     res_bind (Unlock_in dl_mu1 (\<lambda>m x. x\<lparr>dl_mu1 := m\<rparr>) w) (\<lambda>w.
     res_bind (Unlock_in dl_mu2 (\<lambda>m x. x\<lparr>dl_mu2 := m\<rparr>) w) (\<lambda>w. Inr (w, Return void_v)))"

definition dl_Reset :: "dl_test \<Rightarrow> dl_test" where
  "dl_Reset x = \<lparr>dl_mu1 = [], dl_mu2 = []\<rparr>"

definition dl_builders :: "(dl_test, token_ref \<times> int, dl_pc) task_builder list" where
  "dl_builders = [token_builder ''Lock'' (\<lambda>(tok, v). Dl_Lock1 tok v) int]"

definition dl_env :: "nat \<Rightarrow> (dl_test, dl_pc, unit, script) runtime_env" where
  "dl_env fuel = \<lparr>env_body = world_body deadlock_step, env_mem = (\<lambda>_ _. 0), env_reset = dl_Reset,
     env_verifier = DefaultStrategyVerifier, env_random = script_random, env_fuel = fuel\<rparr>"

definition dl_world :: "dl_test world" where
  "dl_world = target_world \<lparr>dl_mu1 = [], dl_mu2 = []\<rparr>"

text \<open>Two threads under the round robin strategy.\<close>

definition dl_round_rr :: "(both_histories option \<times> (dl_test, token_ref \<times> int, dl_pc, unit, script) rr) res" where
  "dl_round_rr = RunRound (RR_methods (dl_env 20)) (dl_env 20) (\<lambda>_ _. Inr True) 2
     (RR_New 2 dl_builders dl_world () ([], []))"

definition dl_round_random :: "script \<Rightarrow> (both_histories option \<times> (dl_test, token_ref \<times> int, dl_pc, unit, script) rnd) res" where
  "dl_round_random script = RunRound (Random_methods (dl_env 20)) (dl_env 20) (\<lambda>_ _. Inr True) 2
     (Random_New 2 dl_builders [1, 1] dl_world () script)"

definition fails_with :: "string \<Rightarrow> 'x res \<Rightarrow> bool" where
  "fails_with m r = (case r of Inl (Assert_Failed m') \<Rightarrow> m' = m | _ \<Rightarrow> False)"

lemma dl_rr_deadlock: "fails_with ''deadlock'' dl_round_rr"
  by code_simp

lemma dl_random_deadlock: "fails_with ''deadlock'' (dl_round_random ([], [0, 1, 0, 1]))"
  by code_simp

lemma dl_random_ends: "unreported (dl_round_random ([], [0, 0, 0, 1, 1, 1]))"
  by code_simp

section \<open>The queue with a mutex\<close>

definition mq_N :: nat where "mq_N = 100"

record mq_queue =
  mq_cnt :: int
  mq_mutex :: token_mutex
  mq_tail :: nat
  mq_head :: nat
  mq_a :: "int list"

text \<open>
  Positions: the calls of \<open>Lock\<close>, the accesses of the critical sections one by one, and the end that both methods
  share, with the value that is returned (\<open>None\<close> for \<open>void\<close>).
\<close>

datatype mq_pc =
    Mq_Push token_ref int | Mq_Load_Head int | Mq_Store_Head int nat | Mq_Store_Elem int nat
  | Mq_Pop token_ref | Mq_Pop_Head | Mq_Pop_Test nat | Mq_Load_Tail | Mq_Store_Tail nat | Mq_Load_Elem nat
  | Mq_Inc_Load "int option" | Mq_Inc_Store "int option" int | Mq_Assert "int option"
  | Mq_Dec_Load "int option" | Mq_Dec_Store "int option" int | Mq_Unlock "int option"

definition mq_Lock :: "token_ref \<Rightarrow> mq_pc \<Rightarrow> mq_queue world \<Rightarrow> (mq_queue world \<times> mq_pc slice_end) res" where
  "mq_Lock tok k w = (case Lock_in mq_mutex (\<lambda>m x. x\<lparr>mq_mutex := m\<rparr>) tok k w of
     (w, e) \<Rightarrow> Inr (w, case e of None \<Rightarrow> Yield k | Some e \<Rightarrow> e))"

definition on_queue :: "mq_queue world \<Rightarrow> mq_queue \<Rightarrow> mq_pc \<Rightarrow> (mq_queue world \<times> mq_pc slice_end) res" where
  "on_queue w q k = Inr (w\<lparr>w_state := q\<rparr>, Yield k)"

definition mq_answer :: "int option \<Rightarrow> value_wrapper" where
  "mq_answer r = (case r of None \<Rightarrow> void_v | Some e \<Rightarrow> vw_int e)"

fun mutex_queue_step :: "(mq_queue, mq_pc) world_step" where
  "mutex_queue_step (Mq_Push tok v) w = mq_Lock tok (Mq_Load_Head v) w"
| "mutex_queue_step (Mq_Load_Head v) w = on_queue w (w_state w) (Mq_Store_Head v (mq_head (w_state w)))"
| "mutex_queue_step (Mq_Store_Head v h) w = on_queue w ((w_state w)\<lparr>mq_head := h + 1\<rparr>) (Mq_Store_Elem v h)"
| "mutex_queue_step (Mq_Store_Elem v h) w = res_bind (vec_set (mq_a (w_state w)) h v) (\<lambda>a.
     on_queue w ((w_state w)\<lparr>mq_a := a\<rparr>) (Mq_Inc_Load None))"
| "mutex_queue_step (Mq_Pop tok) w = mq_Lock tok Mq_Pop_Head w"
| "mutex_queue_step Mq_Pop_Head w = on_queue w (w_state w) (Mq_Pop_Test (mq_head (w_state w)))"
| "mutex_queue_step (Mq_Pop_Test h) w = on_queue w (w_state w)
     (if int h - int (mq_tail (w_state w)) > 0 then Mq_Load_Tail else Mq_Inc_Load (Some 0))"
| "mutex_queue_step Mq_Load_Tail w = on_queue w (w_state w) (Mq_Store_Tail (mq_tail (w_state w)))"
| "mutex_queue_step (Mq_Store_Tail t) w = on_queue w ((w_state w)\<lparr>mq_tail := t + 1\<rparr>) (Mq_Load_Elem t)"
| "mutex_queue_step (Mq_Load_Elem t) w = res_bind (vec_get (mq_a (w_state w)) t) (\<lambda>e. on_queue w (w_state w) (Mq_Inc_Load (Some e)))"
| "mutex_queue_step (Mq_Inc_Load r) w = on_queue w (w_state w) (Mq_Inc_Store r (mq_cnt (w_state w)))"
| "mutex_queue_step (Mq_Inc_Store r n) w = on_queue w ((w_state w)\<lparr>mq_cnt := n + 1\<rparr>) (Mq_Assert r)"
| "mutex_queue_step (Mq_Assert r) w = res_bind (cxx_assert ''cnt == 1'' (mq_cnt (w_state w) = 1)) (\<lambda>_. on_queue w (w_state w) (Mq_Dec_Load r))"
| "mutex_queue_step (Mq_Dec_Load r) w = on_queue w (w_state w) (Mq_Dec_Store r (mq_cnt (w_state w)))"
| "mutex_queue_step (Mq_Dec_Store r n) w = on_queue w ((w_state w)\<lparr>mq_cnt := n - 1\<rparr>) (Mq_Unlock r)"
| "mutex_queue_step (Mq_Unlock r) w = res_bind (Unlock_in mq_mutex (\<lambda>m x. x\<lparr>mq_mutex := m\<rparr>) w) (\<lambda>w. Inr (w, Return (mq_answer r)))"

definition mq_Reset :: "mq_queue \<Rightarrow> mq_queue" where
  "mq_Reset q = \<lparr>mq_cnt = 0, mq_mutex = [], mq_tail = 0, mq_head = 0, mq_a = replicate mq_N 0\<rparr>"

definition mq_New :: mq_queue where
  "mq_New = \<lparr>mq_cnt = 0, mq_mutex = [], mq_tail = 0, mq_head = 0, mq_a = replicate mq_N 0\<rparr>"

section \<open>Executions with the mutex\<close>

text \<open>
  \<open>T\<close> gives the running call of every token. Calls begin with a new token; any call whose token is not
  parked may run a slice. The log lists the calls that have returned, with their answers.
\<close>

inductive mq_run ::
    "mq_queue world \<Rightarrow> (token_ref \<rightharpoonup> string \<times> int \<times> mq_pc) \<Rightarrow> (string \<times> int \<times> value_wrapper) list \<Rightarrow> bool" where
  start: "mq_run (target_world mq_New) Map.empty []"
| push: "\<lbrakk>mq_run w T ops; genToken w = (w', tok)\<rbrakk> \<Longrightarrow> mq_run w' (T(tok \<mapsto> (''Push'', v, Mq_Push tok v))) ops"
| pop: "\<lbrakk>mq_run w T ops; genToken w = (w', tok)\<rbrakk> \<Longrightarrow> mq_run w' (T(tok \<mapsto> (''Pop'', v, Mq_Pop tok))) ops"
| slice: "\<lbrakk>mq_run w T ops; T tok = Some (nm, a, c); \<not> w_parked w tok; mutex_queue_step c w = Inr (w', Yield k)\<rbrakk>
    \<Longrightarrow> mq_run w' (T(tok \<mapsto> (nm, a, k))) ops"
| ret: "\<lbrakk>mq_run w T ops; T tok = Some (nm, a, c); \<not> w_parked w tok; mutex_queue_step c w = Inr (w', Return v)\<rbrakk>
    \<Longrightarrow> mq_run w' (T(tok := None)) (ops @ [(nm, a, v)])"

text \<open>The elements, and what the position of the owner says about them and about the specification.\<close>

definition mq_elems :: "mq_queue \<Rightarrow> int list" where
  "mq_elems q = map ((!) (mq_a q)) [mq_tail q..<mq_head q]"

definition mq_fits :: "mq_queue \<Rightarrow> bool" where
  "mq_fits q \<longleftrightarrow> mq_tail q \<le> mq_head q \<and> length (mq_a q) = mq_N"

text \<open>The effect of a call on the specification.\<close>

definition mq_post :: "string \<Rightarrow> int \<Rightarrow> int list \<Rightarrow> int list \<times> int option" where
  "mq_post nm a xs = (if nm = ''Push'' then (xs @ [a], None) else case xs of [] \<Rightarrow> ([], Some 0) | x # xs \<Rightarrow> (xs, Some x))"

fun mq_crit :: "string \<Rightarrow> int \<Rightarrow> int list \<Rightarrow> mq_queue \<Rightarrow> mq_pc \<Rightarrow> bool" where
  "mq_crit nm a xs q (Mq_Load_Head v) \<longleftrightarrow> nm = ''Push'' \<and> v = a \<and> mq_elems q = xs \<and> mq_cnt q = 0"
| "mq_crit nm a xs q (Mq_Store_Head v h) \<longleftrightarrow> nm = ''Push'' \<and> v = a \<and> mq_elems q = xs \<and> mq_cnt q = 0 \<and> h = mq_head q"
| "mq_crit nm a xs q (Mq_Store_Elem v h) \<longleftrightarrow> nm = ''Push'' \<and> v = a \<and> mq_elems (q\<lparr>mq_head := h\<rparr>) = xs \<and> mq_cnt q = 0
     \<and> mq_head q = Suc h \<and> mq_tail q \<le> h"
| "mq_crit nm a xs q Mq_Pop_Head \<longleftrightarrow> nm = ''Pop'' \<and> mq_elems q = xs \<and> mq_cnt q = 0"
| "mq_crit nm a xs q (Mq_Pop_Test h) \<longleftrightarrow> nm = ''Pop'' \<and> mq_elems q = xs \<and> mq_cnt q = 0 \<and> h = mq_head q"
| "mq_crit nm a xs q Mq_Load_Tail \<longleftrightarrow> nm = ''Pop'' \<and> mq_elems q = xs \<and> mq_cnt q = 0 \<and> xs \<noteq> []"
| "mq_crit nm a xs q (Mq_Store_Tail t) \<longleftrightarrow> nm = ''Pop'' \<and> mq_elems q = xs \<and> mq_cnt q = 0 \<and> xs \<noteq> [] \<and> t = mq_tail q"
| "mq_crit nm a xs q (Mq_Load_Elem t) \<longleftrightarrow> nm = ''Pop'' \<and> mq_a q ! t # mq_elems q = xs \<and> mq_cnt q = 0 \<and> t < mq_head q"
| "mq_crit nm a xs q (Mq_Inc_Load r) \<longleftrightarrow> (mq_elems q, r) = mq_post nm a xs \<and> mq_cnt q = 0"
| "mq_crit nm a xs q (Mq_Inc_Store r n) \<longleftrightarrow> (mq_elems q, r) = mq_post nm a xs \<and> mq_cnt q = 0 \<and> n = 0"
| "mq_crit nm a xs q (Mq_Assert r) \<longleftrightarrow> (mq_elems q, r) = mq_post nm a xs \<and> mq_cnt q = 1"
| "mq_crit nm a xs q (Mq_Dec_Load r) \<longleftrightarrow> (mq_elems q, r) = mq_post nm a xs \<and> mq_cnt q = 1"
| "mq_crit nm a xs q (Mq_Dec_Store r n) \<longleftrightarrow> (mq_elems q, r) = mq_post nm a xs \<and> mq_cnt q = 1 \<and> n = 1"
| "mq_crit nm a xs q (Mq_Unlock r) \<longleftrightarrow> (mq_elems q, r) = mq_post nm a xs \<and> mq_cnt q = 0"
| "mq_crit nm a xs q _ \<longleftrightarrow> False"

text \<open>A call that does not own the mutex is before its call of \<open>Lock\<close>, or waits in it.\<close>

definition mq_entry :: "token_ref \<Rightarrow> string \<times> int \<times> mq_pc \<Rightarrow> bool" where
  "mq_entry tok x \<longleftrightarrow> (\<exists>v. x = (''Push'', v, Mq_Push tok v) \<or> x = (''Pop'', v, Mq_Pop tok))"

definition mq_waits :: "string \<times> int \<times> mq_pc \<Rightarrow> bool" where
  "mq_waits x \<longleftrightarrow> (\<exists>v. x = (''Push'', v, Mq_Load_Head v) \<or> x = (''Pop'', v, Mq_Pop_Head))"

definition mq_room :: "mq_queue \<Rightarrow> mq_pc \<Rightarrow> bool" where
  "mq_room q c \<longleftrightarrow> mq_tail q \<le> mq_head q \<and> length (mq_a q) = mq_N
     \<and> (case c of Mq_Store_Elem v h \<Rightarrow> h \<le> mq_N | _ \<Rightarrow> mq_head q \<le> mq_N)"

definition mq_owns :: "int list \<Rightarrow> mq_queue \<Rightarrow> string \<times> int \<times> mq_pc \<Rightarrow> bool" where
  "mq_owns xs q x \<longleftrightarrow> (case x of (nm, a, c) \<Rightarrow> (nm = ''Push'' \<or> nm = ''Pop'') \<and> mq_crit nm a xs q c \<and> mq_room q c)"

definition mq_at :: "int list \<Rightarrow> mq_queue \<Rightarrow> token_ref \<Rightarrow> string \<times> int \<times> mq_pc \<Rightarrow> bool" where
  "mq_at xs q tok x \<longleftrightarrow> (if tok \<in> set (mq_mutex q)
     then if tok = hd (mq_mutex q) then mq_owns xs q x else mq_waits x
     else mq_entry tok x)"

definition mq_idle :: "int list \<Rightarrow> mq_queue \<Rightarrow> bool" where
  "mq_idle xs q \<longleftrightarrow> mq_elems q = xs \<and> mq_cnt q = 0 \<and> mq_room q (Mq_Unlock None)"

definition mq_inv ::
    "mq_queue world \<Rightarrow> (token_ref \<rightharpoonup> string \<times> int \<times> mq_pc) \<Rightarrow> (string \<times> int \<times> value_wrapper) list \<Rightarrow> bool" where
  "mq_inv w T ops \<longleftrightarrow> (\<exists>xs. spec_trace (Queue_checker (\<lambda>v. v)) \<lparr>q_deq = []\<rparr> ops \<lparr>q_deq = xs\<rparr>
     \<and> distinct (mq_mutex (w_state w)) \<and> (\<forall>t. w_parked w t \<longleftrightarrow> t \<in> set (tl (mq_mutex (w_state w))))
     \<and> (\<forall>t x. T t = Some x \<longrightarrow> t < w_next_token w \<and> mq_at xs (w_state w) t x) \<and> set (mq_mutex (w_state w)) \<subseteq> dom T
     \<and> (mq_mutex (w_state w) = [] \<longrightarrow> mq_idle xs (w_state w)))"

text \<open>The mutex itself does not matter for the elements.\<close>

lemma mq_mutex_upd [simp]:
  "mq_room (q\<lparr>mq_mutex := m\<rparr>) d = mq_room q d" "mq_idle xs (q\<lparr>mq_mutex := m\<rparr>) = mq_idle xs q"
  by (simp_all add: mq_room_def mq_idle_def mq_elems_def split: mq_pc.splits)

lemma mq_crit_mutex_upd [simp]: "mq_crit nm a xs (q\<lparr>mq_mutex := m\<rparr>) d = mq_crit nm a xs q d"
  by (cases d) (simp_all add: mq_elems_def)

lemma mq_owns_mutex_upd [simp]: "mq_owns xs (q\<lparr>mq_mutex := m\<rparr>) x = mq_owns xs q x"
  by (simp add: mq_owns_def split: prod.splits)

lemma mq_waits_crit: "mq_waits x \<Longrightarrow> mq_idle xs q \<Longrightarrow> mq_owns xs q x"
  by (auto simp: mq_waits_def mq_idle_def mq_room_def mq_owns_def)

lemma mq_elems_Suc:
  assumes "mq_tail q \<le> h" "h < length (mq_a q)" "mq_head q = Suc h"
  shows "mq_elems (q\<lparr>mq_a := (mq_a q)[h := v]\<rparr>) = mq_elems (q\<lparr>mq_head := h\<rparr>) @ [v]"
  using assms by (auto simp: mq_elems_def nth_list_update)

lemma mq_elems_Cons:
  "mq_elems q \<noteq> [] \<Longrightarrow> mq_a q ! mq_tail q # mq_elems (q\<lparr>mq_tail := Suc (mq_tail q)\<rparr>) = mq_elems q"
  by (auto simp: mq_elems_def upt_conv_Cons)

text \<open>A slice of the owner keeps the mutex, up to the last one.\<close>

lemma mq_crit_step:
  assumes crit: "mq_crit nm a xs (w_state w) c" and room: "mq_room (w_state w) c" and st: "mutex_queue_step c w = Inr (w', Yield k)"
  shows "w' = w\<lparr>w_state := w_state w'\<rparr> \<and> mq_mutex (w_state w') = mq_mutex (w_state w) \<and> mq_crit nm a xs (w_state w') k
    \<and> mq_room (w_state w') k"
proof (cases c)
  case (Mq_Store_Elem v h)
  have h: "h < length (mq_a (w_state w))" "mq_tail (w_state w) \<le> h" "mq_head (w_state w) = Suc h"
    using st crit by (auto simp: Mq_Store_Elem vec_set_def split: if_splits)
  then show ?thesis using st crit room mq_elems_Suc [OF h(2,1,3), of v]
    by (auto simp: Mq_Store_Elem vec_set_def on_queue_def mq_post_def mq_room_def)
next
  case (Mq_Store_Tail t)
  have "mq_tail (w_state w) < mq_head (w_state w)"
    using crit by (cases "mq_tail (w_state w) < mq_head (w_state w)") (auto simp: Mq_Store_Tail mq_elems_def)
  then show ?thesis using st crit room mq_elems_Cons [of "w_state w"] Mq_Store_Tail
    by (auto simp: on_queue_def mq_room_def)
next
  case (Mq_Pop_Test h)
  then show ?thesis using st crit room by (auto simp: on_queue_def mq_room_def mq_elems_def mq_post_def)
next
  case (Mq_Load_Elem t)
  then show ?thesis using st crit room by (auto simp: on_queue_def mq_room_def mq_post_def vec_get_def split: if_splits)
qed (use st crit room in \<open>auto simp: on_queue_def mq_room_def mq_elems_def cxx_assert_def res_bind_Inr_iff split: if_splits\<close>)

lemma mq_inv_call:
  assumes inv: "mq_inv w T ops" and g: "genToken w = (w', tok)" and e: "mq_entry tok x"
  shows "mq_inv w' (T(tok \<mapsto> x)) ops"
proof -
  have w': "tok = w_next_token w" "w' = w\<lparr>w_parked := (w_parked w)(tok := False), w_next_token := Suc tok\<rparr>"
    using g by (auto simp: genToken_def)
  from inv obtain xs where tr: "spec_trace (Queue_checker (\<lambda>v. v)) \<lparr>q_deq = []\<rparr> ops \<lparr>q_deq = xs\<rparr>"
    and m: "distinct (mq_mutex (w_state w))" "\<And>t. w_parked w t \<longleftrightarrow> t \<in> set (tl (mq_mutex (w_state w)))"
      "set (mq_mutex (w_state w)) \<subseteq> dom T" "mq_mutex (w_state w) = [] \<longrightarrow> mq_idle xs (w_state w)"
    and T: "\<And>t x. T t = Some x \<Longrightarrow> t < w_next_token w \<and> mq_at xs (w_state w) t x"
    unfolding mq_inv_def by blast
  have new: "tok \<notin> set (mq_mutex (w_state w))" using m(3) T w'(1) by fastforce
  then have "tok \<notin> set (tl (mq_mutex (w_state w)))" by (cases "mq_mutex (w_state w)") auto
  moreover have "mq_at xs (w_state w) tok x" using new e by (simp add: mq_at_def)
  ultimately show ?thesis unfolding mq_inv_def w'
    using tr m T by (intro exI [of _ xs]) (auto simp: w'(1) less_Suc_eq)
qed

lemma mq_invE:
  assumes "mq_inv w T ops"
  obtains xs where "spec_trace (Queue_checker (\<lambda>v. v)) \<lparr>q_deq = []\<rparr> ops \<lparr>q_deq = xs\<rparr>"
    "distinct (mq_mutex (w_state w))" "\<forall>t. w_parked w t \<longleftrightarrow> t \<in> set (tl (mq_mutex (w_state w)))"
    "set (mq_mutex (w_state w)) \<subseteq> dom T" "mq_mutex (w_state w) = [] \<longrightarrow> mq_idle xs (w_state w)"
    "\<forall>t x. T t = Some x \<longrightarrow> t < w_next_token w \<and> mq_at xs (w_state w) t x"
  using assms unfolding mq_inv_def by blast

lemma mq_invI:
  assumes "spec_trace (Queue_checker (\<lambda>v. v)) \<lparr>q_deq = []\<rparr> ops \<lparr>q_deq = xs\<rparr>"
    "distinct (mq_mutex (w_state w))" "\<forall>t. w_parked w t \<longleftrightarrow> t \<in> set (tl (mq_mutex (w_state w)))"
    "set (mq_mutex (w_state w)) \<subseteq> dom T" "mq_mutex (w_state w) = [] \<longrightarrow> mq_idle xs (w_state w)"
    "\<forall>t x. T t = Some x \<longrightarrow> t < w_next_token w \<and> mq_at xs (w_state w) t x"
  shows "mq_inv w T ops"
  using assms unfolding mq_inv_def by blast

text \<open>The call of \<open>Lock\<close>: the task becomes the owner of a free mutex, and waits otherwise.\<close>

lemma mq_inv_lock:
  assumes inv: "mq_inv w T ops" and T: "T tok = Some (nm, a, c)" and m: "tok \<notin> set (mq_mutex (w_state w))"
    and k: "mq_waits (nm, a, k)" and st: "mq_Lock tok k w = Inr (w', e)"
  shows "e = Yield k \<and> mq_inv w' (T(tok \<mapsto> (nm, a, k))) ops"
proof -
  from inv obtain xs where i: "spec_trace (Queue_checker (\<lambda>v. v)) \<lparr>q_deq = []\<rparr> ops \<lparr>q_deq = xs\<rparr>"
    "distinct (mq_mutex (w_state w))" "\<forall>t. w_parked w t \<longleftrightarrow> t \<in> set (tl (mq_mutex (w_state w)))"
    "set (mq_mutex (w_state w)) \<subseteq> dom T" "mq_mutex (w_state w) = [] \<longrightarrow> mq_idle xs (w_state w)"
    and at: "\<forall>t x. T t = Some x \<longrightarrow> t < w_next_token w \<and> mq_at xs (w_state w) t x" by (rule mq_invE)
  define q where "q = (w_state w)\<lparr>mq_mutex := mq_mutex (w_state w) @ [tok]\<rparr>"
  have other: "mq_at xs q t x" if "T t = Some x" "t \<noteq> tok" for t x
    using at that m by (cases "mq_mutex (w_state w)") (auto simp: mq_at_def q_def)
  have e: "e = Yield k" and w': "w_state w' = q" "w_next_token w' = w_next_token w"
      "w_parked w' = (if mq_mutex (w_state w) = [] then w_parked w else (w_parked w)(tok := True))"
    using st by (auto simp: mq_Lock_def Lock_in_eq q_def split: if_splits)
  have "mq_at xs q tok (nm, a, k)"
    using m k i(5) mq_waits_crit [OF k] by (cases "mq_mutex (w_state w)") (auto simp: mq_at_def q_def)
  then have "mq_inv w' (T(tok \<mapsto> (nm, a, k))) ops"
    using i(1-4) m at other T by (intro mq_invI [of _ xs]) (auto simp: w' q_def tl_append split: list.splits)
  then show ?thesis using e by simp
qed

lemma mq_owner:
  assumes "mq_inv w T ops" "\<not> w_parked w tok" "tok \<in> set (mq_mutex (w_state w))"
  shows "\<exists>ts. mq_mutex (w_state w) = tok # ts"
  using assms by (cases "mq_mutex (w_state w)") (auto elim!: mq_invE)

lemma mq_inv_slice:
  assumes inv: "mq_inv w T ops" and T: "T tok = Some (nm, a, c)" and p: "\<not> w_parked w tok"
    and st: "mutex_queue_step c w = Inr (w', Yield k)"
  shows "mq_inv w' (T(tok \<mapsto> (nm, a, k))) ops"
proof -
  from inv obtain xs where i: "spec_trace (Queue_checker (\<lambda>v. v)) \<lparr>q_deq = []\<rparr> ops \<lparr>q_deq = xs\<rparr>"
    "distinct (mq_mutex (w_state w))" "\<forall>t. w_parked w t \<longleftrightarrow> t \<in> set (tl (mq_mutex (w_state w)))"
    "set (mq_mutex (w_state w)) \<subseteq> dom T" "mq_mutex (w_state w) = [] \<longrightarrow> mq_idle xs (w_state w)"
    and at: "\<forall>t x. T t = Some x \<longrightarrow> t < w_next_token w \<and> mq_at xs (w_state w) t x" by (rule mq_invE)
  show ?thesis
  proof (cases "tok \<in> set (mq_mutex (w_state w))")
    case True
    then obtain ts where m: "mq_mutex (w_state w) = tok # ts" using mq_owner [OF inv p] by blast
    have "mq_at xs (w_state w) tok (nm, a, c)" using at T by blast
    then have own: "nm = ''Push'' \<or> nm = ''Pop''" "mq_crit nm a xs (w_state w) c" "mq_room (w_state w) c"
      by (auto simp: mq_at_def mq_owns_def m)
    from mq_crit_step [OF own(2,3) st] have w': "w' = w\<lparr>w_state := w_state w'\<rparr>" "mq_mutex (w_state w') = tok # ts"
      "mq_crit nm a xs (w_state w') k" "mq_room (w_state w') k" by (simp_all add: m)
    from w'(1) obtain q where "w' = w\<lparr>w_state := q\<rparr>" by blast
    then have f: "w_parked w' = w_parked w" "w_next_token w' = w_next_token w" by simp_all
    have "mq_at xs (w_state w') t x" if "(T(tok \<mapsto> (nm, a, k))) t = Some x" for t x
      using that at own(1) w'(2-4) m by (cases "t = tok") (auto simp: mq_at_def mq_owns_def)
    then show ?thesis using i at w'(2) f T m by (intro mq_invI [of _ xs]) (auto split: if_splits)
  next
    case False
    moreover have "mq_at xs (w_state w) tok (nm, a, c)" using at T by blast
    ultimately have "mq_entry tok (nm, a, c)" by (simp add: mq_at_def)
    then obtain k' where "mq_waits (nm, a, k')" "mq_Lock tok k' w = Inr (w', Yield k)"
      using st by (auto simp: mq_entry_def mq_waits_def)
    then show ?thesis using mq_inv_lock [OF inv T False] by blast
  qed
qed

lemma mq_inv_ret:
  assumes inv: "mq_inv w T ops" and T: "T tok = Some (nm, a, c)" and p: "\<not> w_parked w tok"
    and st: "mutex_queue_step c w = Inr (w', Return v)"
  shows "mq_inv w' (T(tok := None)) (ops @ [(nm, a, v)])"
proof -
  from inv obtain xs where i: "spec_trace (Queue_checker (\<lambda>v. v)) \<lparr>q_deq = []\<rparr> ops \<lparr>q_deq = xs\<rparr>"
    "distinct (mq_mutex (w_state w))" "\<forall>t. w_parked w t \<longleftrightarrow> t \<in> set (tl (mq_mutex (w_state w)))"
    "set (mq_mutex (w_state w)) \<subseteq> dom T" "mq_mutex (w_state w) = [] \<longrightarrow> mq_idle xs (w_state w)"
    and at: "\<forall>t x. T t = Some x \<longrightarrow> t < w_next_token w \<and> mq_at xs (w_state w) t x" by (rule mq_invE)
  obtain r where c: "c = Mq_Unlock r" and u: "Unlock_in mq_mutex (\<lambda>m x. x\<lparr>mq_mutex := m\<rparr>) w = Inr w'" "v = mq_answer r"
    using st by (cases c) (auto simp: on_queue_def res_bind_Inr_iff mq_Lock_def Lock_in_eq split: if_splits)
  have tok: "mq_at xs (w_state w) tok (nm, a, c)" using at T by blast
  then have "tok \<in> set (mq_mutex (w_state w))" by (auto simp: c mq_at_def mq_entry_def split: if_splits)
  then obtain ts where m: "mq_mutex (w_state w) = tok # ts" using mq_owner [OF inv p] by blast
  have crit: "(mq_elems (w_state w), r) = mq_post nm a xs" "mq_cnt (w_state w) = 0" "mq_room (w_state w) c"
    and nm: "nm = ''Push'' \<or> nm = ''Pop''"
    using tok m by (auto simp: c mq_at_def mq_owns_def)
  define xs' where "xs' = mq_elems (w_state w)"
  have idle: "mq_idle xs' (w_state w)" using crit(2,3) by (simp add: mq_idle_def xs'_def c mq_room_def)
  have w': "w_state w' = (w_state w)\<lparr>mq_mutex := ts\<rparr>" "w_next_token w' = w_next_token w"
    "w_parked w' = (case ts of [] \<Rightarrow> w_parked w | u # us \<Rightarrow> (w_parked w)(u := False))"
    using u(1) by (auto simp: Unlock_in_eq m)
  have "spec_trace (Queue_checker (\<lambda>v. v)) \<lparr>q_deq = []\<rparr> (ops @ [(nm, a, v)]) \<lparr>q_deq = xs'\<rparr>"
    unfolding spec_trace_snoc using i(1) crit(1) u(2) nm
    by (intro exI [of _ "\<lparr>q_deq = xs\<rparr>"]) (auto simp: Queue_checker_def Queue_GetMethods_def Queue_Push_def Queue_Pop_def mq_post_def
        mq_answer_def xs'_def split: list.splits if_splits)
  moreover have "mq_at xs' (w_state w') t x" if x: "T t = Some x" "t \<noteq> tok" for t x
    using at x i(2) m mq_waits_crit [OF _ idle, of x] unfolding w'(1) mq_at_def by (cases ts) (auto split: if_splits)
  ultimately show ?thesis
    using i at m idle by (intro mq_invI [of _ xs']) (auto simp: w' split: list.splits if_splits)
qed

lemma mq_run_inv: "mq_run w T ops \<Longrightarrow> mq_inv w T ops"
proof (induction rule: mq_run.induct)
  case start
  show ?case by (rule mq_invI [of _ "[]"])
      (simp_all add: target_world_def mq_New_def mq_idle_def mq_elems_def mq_room_def)
next
  case (push w T ops w' tok v)
  then show ?case by (intro mq_inv_call) (auto simp: mq_entry_def)
next
  case (pop w T ops w' tok v)
  then show ?case by (intro mq_inv_call) (auto simp: mq_entry_def)
next
  case (slice w T ops tok nm a c w' k)
  then show ?case by (intro mq_inv_slice)
next
  case (ret w T ops tok nm a c w' v)
  then show ?case by (intro mq_inv_ret)
qed

text \<open>What can fail for the owner and for a call that does not own the mutex.\<close>

lemma mq_owns_step:
  assumes "mq_owns xs (w_state w) (nm, a, c)" "mq_mutex (w_state w) \<noteq> []" "mutex_queue_step c w = Inl e"
  shows "e = Out_Of_Range \<and> (\<exists>v. c = Mq_Store_Elem v mq_N)"
  using assms
  by (cases c) (auto simp: mq_owns_def on_queue_def vec_set_def vec_get_def mq_room_def Unlock_in_eq split: if_splits list.splits)

lemma mq_entry_step: "mq_entry tok (nm, a, c) \<Longrightarrow> mutex_queue_step c w \<noteq> Inl e"
  by (auto simp: mq_entry_def mq_Lock_def Lock_in_eq split: if_splits)

section \<open>A round\<close>

text \<open>The tested methods, with the generators that make a token, and a value for \<open>Push\<close>. \<open>r t\<close> is the number that \<open>rand()\<close> gives.\<close>

definition mq_builders :: "(nat \<Rightarrow> int) \<Rightarrow> (mq_queue, token_ref \<times> int, mq_pc) task_builder list" where
  "mq_builders r = [token_builder ''Push'' (\<lambda>(tok, v). Mq_Push tok v) (\<lambda>t. generateInt (r t)), token_builder ''Pop'' (\<lambda>(tok, _). Mq_Pop tok) (\<lambda>_. 0)]"

definition mq_env :: "nat \<Rightarrow> (mq_queue, mq_pc, unit, script) runtime_env" where
  "mq_env fuel = \<lparr>env_body = world_body mutex_queue_step, env_mem = (\<lambda>_ _. 0), env_reset = mq_Reset,
     env_verifier = DefaultStrategyVerifier, env_random = script_random, env_fuel = fuel\<rparr>"

text \<open>Two threads under the round robin strategy: the task that comes second is parked until the first one unlocks.\<close>

definition mq_round :: "(both_histories option \<times> (mq_queue, token_ref \<times> int, mq_pc, unit, script) rr) res" where
  "mq_round = RunRound (RR_methods (mq_env 40)) (mq_env 40) (Check_recursive (Queue_checker snd)) 2
     (RR_New 2 (mq_builders (\<lambda>_. 4)) (target_world mq_New) () ([[0, 1], [1, 0]], []))"

lemma mq_unreported: "unreported mq_round"
  by code_simp

section \<open>A sample execution\<close>

text \<open>A \<open>Push\<close> owns the mutex and a \<open>Pop\<close> waits for it.\<close>

definition mq_sample :: "mq_queue world" where
  "mq_sample = \<lparr>w_state = mq_New\<lparr>mq_mutex := [0, 1]\<rparr>, w_parked = (\<lambda>_. False)(1 := True), w_next_token = 2, w_status = None\<rparr>"

lemma mq_sample_run:
  "mq_run mq_sample [0 \<mapsto> (''Push'', 5, Mq_Load_Head 5), 1 \<mapsto> (''Pop'', 0, Mq_Pop_Head)] []"
proof -
  note defs = target_world_def genToken_def mq_New_def mq_Lock_def Lock_in_eq fun_upd_twist fun_upd_idem
  have "mq_run (target_world mq_New\<lparr>w_next_token := 1\<rparr>) [0 \<mapsto> (''Push'', 5, Mq_Push 0 5)] []"
    using mq_run.push [OF mq_run.start, of "target_world mq_New\<lparr>w_next_token := 1\<rparr>" 0 5] by (simp add: defs)
  from mq_run.slice [OF this, of 0 "''Push''" 5 "Mq_Push 0 5" "\<lparr>w_state = mq_New\<lparr>mq_mutex := [0]\<rparr>, w_parked = \<lambda>_. False, w_next_token = 1, w_status = None\<rparr>" "Mq_Load_Head 5"]
  have "mq_run \<lparr>w_state = mq_New\<lparr>mq_mutex := [0]\<rparr>, w_parked = \<lambda>_. False, w_next_token = 1, w_status = None\<rparr> [0 \<mapsto> (''Push'', 5, Mq_Load_Head 5)] []"
    by (simp add: defs)
  from mq_run.pop [OF this, of "\<lparr>w_state = mq_New\<lparr>mq_mutex := [0]\<rparr>, w_parked = \<lambda>_. False, w_next_token = 2, w_status = None\<rparr>" 1 0]
  have "mq_run \<lparr>w_state = mq_New\<lparr>mq_mutex := [0]\<rparr>, w_parked = \<lambda>_. False, w_next_token = 2, w_status = None\<rparr>
      [0 \<mapsto> (''Push'', 5, Mq_Load_Head 5), 1 \<mapsto> (''Pop'', 0, Mq_Pop 1)] []" by (simp add: defs)
  from mq_run.slice [OF this, of 1 "''Pop''" 0 "Mq_Pop 1" mq_sample Mq_Pop_Head] show ?thesis
    by (simp add: defs mq_sample_def)
qed

section \<open>Properties\<close>

text \<open>
  C20. The queue with a mutex is right under every scheduler that does not run parked tasks: the answers of the
  calls, in the order in which they return, are those of a queue; the assertion that only one task is in
  the critical section never fails, the mutex is never unlocked without an owner, and the only failure is a push
  beyond the end of the array; and as long as there are calls, one of them can run. A round of the round robin strategy,
  in which one task is parked, ends without a report.
\<close>

theorem mutex_queue_correct:
  assumes run: "mq_run w T ops"
  shows "(\<exists>s. spec_trace (Queue_checker (\<lambda>v. v)) \<lparr>q_deq = []\<rparr> ops s)
    \<and> (\<forall>tok nm a c e. T tok = Some (nm, a, c) \<longrightarrow> \<not> w_parked w tok \<longrightarrow> mutex_queue_step c w = Inl e
         \<longrightarrow> e = Out_Of_Range \<and> (\<exists>v. c = Mq_Store_Elem v mq_N))
    \<and> (T \<noteq> Map.empty \<longrightarrow> (\<exists>tok. T tok \<noteq> None \<and> \<not> w_parked w tok)) \<and> unreported mq_round"
proof -
  note inv = mq_run_inv [OF run]
  from inv obtain xs where i: "spec_trace (Queue_checker (\<lambda>v. v)) \<lparr>q_deq = []\<rparr> ops \<lparr>q_deq = xs\<rparr>"
    "distinct (mq_mutex (w_state w))" "\<forall>t. w_parked w t \<longleftrightarrow> t \<in> set (tl (mq_mutex (w_state w)))"
    "set (mq_mutex (w_state w)) \<subseteq> dom T" "mq_mutex (w_state w) = [] \<longrightarrow> mq_idle xs (w_state w)"
    and at: "\<forall>t x. T t = Some x \<longrightarrow> t < w_next_token w \<and> mq_at xs (w_state w) t x" by (rule mq_invE)
  have "e = Out_Of_Range \<and> (\<exists>v. c = Mq_Store_Elem v mq_N)"
    if T: "T tok = Some (nm, a, c)" and p: "\<not> w_parked w tok" and e: "mutex_queue_step c w = Inl e" for tok nm a c e
  proof -
    have tok: "mq_at xs (w_state w) tok (nm, a, c)" using at T by blast
    then have m: "tok \<in> set (mq_mutex (w_state w))" using mq_entry_step e by (auto simp: mq_at_def split: if_splits)
    then obtain ts where "mq_mutex (w_state w) = tok # ts" using mq_owner [OF inv p] by blast
    then show ?thesis using tok mq_owns_step [OF _ _ e] by (simp add: mq_at_def)
  qed
  moreover have "\<exists>tok. T tok \<noteq> None \<and> \<not> w_parked w tok" if "T \<noteq> Map.empty"
  proof (cases "mq_mutex (w_state w)")
    case Nil
    then show ?thesis using that i(3) by (auto simp: fun_eq_iff)
  next
    case (Cons t ts)
    then show ?thesis using i(2-4) by (intro exI [of _ t]) auto
  qed
  ultimately show ?thesis using i(1) mq_unreported by blast
qed

theorem mutex_queue_correct_witness:
  "\<exists>tok. [0 \<mapsto> (''Push'', 5 :: int, Mq_Load_Head 5), 1 \<mapsto> (''Pop'', 0, Mq_Pop_Head)] tok \<noteq> None \<and> \<not> w_parked mq_sample tok"
proof -
  let ?T = "[0 \<mapsto> (''Push'', 5 :: int, Mq_Load_Head 5), 1 \<mapsto> (''Pop'', 0, Mq_Pop_Head)]"
  have "?T 0 \<noteq> None" by simp
  then have "?T \<noteq> Map.empty" by (metis (no_types))
  with mutex_queue_correct [OF mq_sample_run] show ?thesis by blast
qed

end
