(* ===== verification/Unique_Args.thy ===== *)
theory Unique_Args
  imports Round_Targets
begin

text \<open>
  Model of \<open>verifying/targets/unique_args.cpp\<close>: every call has an argument of its own, and the call that completes the set
  of arguments returns their number. \<open>Get\<close> is not \<open>non_atomic\<close>: it is interrupted at its \<open>CoroYield\<close> only, and the answer
  comes in the second slice.
\<close>

declare split_paired_All [simp del] split_paired_Ex [simp del]

section \<open>The target\<close>

text \<open>The global vectors: \<open>size_t\<close> elements that only ever hold \<open>true\<close> or \<open>false\<close>.\<close>

record unique_args =
  ua_used :: "bool list"
  ua_done :: "bool list"

datatype ua_pc = Ua_Get nat | Ua_Finish nat

definition ua_Reset :: "unique_args \<Rightarrow> unique_args" where
  "ua_Reset x = \<lparr>ua_used = replicate (length (ua_used x)) False, ua_done = replicate (length (ua_done x)) False\<rparr>"

definition ua_New :: unique_args where
  "ua_New = \<lparr>ua_used = replicate limit False, ua_done = replicate limit False\<rparr>"

fun unique_args_step :: "(unique_args, ua_pc) target_step" where
  "unique_args_step (Ua_Get i) x = res_bind (vec_get (ua_used x) i) (\<lambda>u. res_bind (cxx_assert ''!used[i]'' (\<not> u)) (\<lambda>_.
     Inr (x\<lparr>ua_used := (ua_used x)[i := True]\<rparr>, Yield (Ua_Finish i))))"
| "unique_args_step (Ua_Finish i) x = res_bind (vec_set (ua_done x) i True) (\<lambda>d.
     let x = x\<lparr>ua_done := d\<rparr> in
     Inr (if length (filter (\<lambda>b. \<not> b) d) = 0 then (ua_Reset x, Return (vw_opt (Some (int limit)))) else (x, Return (vw_opt None))))"

text \<open>The generator looks for the first argument that is not in use.\<close>

fun first_unused :: "bool list \<Rightarrow> nat \<Rightarrow> nat res" where
  "first_unused [] i = Inl (Assert_Failed ''extra call'')"
| "first_unused (u # us) i = (if \<not> u then Inr i else first_unused us (i + 1))"

definition GenerateArgs :: "unique_args \<Rightarrow> nat res" where
  "GenerateArgs x = first_unused (take limit (ua_used x)) 0"

definition ua_calls :: "(nat, ua_pc) target_call set" where
  "ua_calls = {(''Get'', i, Ua_Get i) |i. True}"

section \<open>The target is linearizable\<close>

definition ua_inv :: "unique_args \<Rightarrow> unique_args_ref \<Rightarrow> (nat \<Rightarrow> string list) \<Rightarrow> (nat, ua_pc) active \<Rightarrow> bool" where
  "ua_inv x s N L \<longleftrightarrow> length (ua_used x) = limit \<and> length (ua_done x) = limit \<and> called s = length (filter id (ua_done x))
     \<and> called s < limit \<and> (\<forall>i<limit. ua_done x ! i \<longrightarrow> ua_used x ! i)
     \<and> (\<forall>t nm a c l. L t = Some (nm, a, c, l) \<longrightarrow> nm = ''Get'' \<and> l = None \<and> (c = Ua_Get a \<or> c = Ua_Finish a \<and> a < limit \<and> ua_used x ! a \<and> \<not> ua_done x ! a))
     \<and> (\<forall>t u nm a l nm' a' l'. L t = Some (nm, a, Ua_Finish a, l) \<longrightarrow> L u = Some (nm', a', Ua_Finish a', l') \<longrightarrow> t \<noteq> u \<longrightarrow> a \<noteq> a')"

lemma count_done: "length (filter (\<lambda>b. \<not> b) d) + length (filter id d) = length d"
  by (induction d) auto

lemma filter_id_upd: "i < length d \<Longrightarrow> \<not> d ! i \<Longrightarrow> length (filter id (d[i := True])) = Suc (length (filter id d))"
proof (induction d arbitrary: i)
  case (Cons b d)
  then show ?case by (cases i) auto
qed simp

lemma filter_id_full: "length (filter id d) = length d \<longleftrightarrow> (\<forall>i<length d. d ! i)"
  by (metis filter_id_conv id_apply in_set_conv_nth length_filter_less less_irrefl)

lemma ua_inv_get:
  assumes inv: "ua_inv x s N L" and L: "L t = Some (nm, a, Ua_Get a, l)" and st: "unique_args_step (Ua_Get a) x = Inr (y, e)"
  shows "e = Yield (Ua_Finish a) \<and> ua_inv y s N (L(t \<mapsto> (nm, a, Ua_Finish a, l)))"
proof -
  have l: "a < limit" "\<not> ua_used x ! a" and y: "y = x\<lparr>ua_used := (ua_used x)[a := True]\<rparr>" and e: "e = Yield (Ua_Finish a)"
    using st inv by (auto simp: ua_inv_def vec_get_def cxx_assert_Inr_iff res_bind_Inr_iff split: if_splits)
  have nd: "\<not> ua_done x ! a" "\<And>i. i < limit \<Longrightarrow> ua_done x ! i \<Longrightarrow> ua_used x ! i" using l inv by (auto simp: ua_inv_def)
  have other: "nm' = ''Get'' \<and> l' = None \<and> (c' = Ua_Get a' \<or> c' = Ua_Finish a' \<and> a' < limit \<and> ua_used x ! a' \<and> \<not> ua_done x ! a')"
    if "L u = Some (nm', a', c', l')" for u nm' a' c' l' using inv that unfolding ua_inv_def by blast
  have fresh: "a' \<noteq> a" if "L u = Some (nm', a', Ua_Finish a', l')" for u nm' a' l'
    using other [OF that] l by auto
  have "ua_inv y s N (L(t \<mapsto> (nm, a, Ua_Finish a, l)))"
    unfolding ua_inv_def
  proof (intro conjI allI impI)
    show "length (ua_used y) = limit" "length (ua_done y) = limit" "called s = length (filter id (ua_done y))" "called s < limit"
      using inv by (auto simp: ua_inv_def y)
    show "ua_used y ! i" if "i < limit" "ua_done y ! i" for i
      using that nd(2) [of i] inv l by (cases "i = a") (auto simp: y ua_inv_def)
    fix u nm' a' c' l' assume u: "(L(t \<mapsto> (nm, a, Ua_Finish a, l))) u = Some (nm', a', c', l')"
    then show "nm' = ''Get''" "l' = None" using other [of u] other [OF L] by (auto split: if_splits)
    show "c' = Ua_Get a' \<or> c' = Ua_Finish a' \<and> a' < limit \<and> ua_used y ! a' \<and> \<not> ua_done y ! a'"
    proof (cases "u = t")
      case True
      then show ?thesis using u l nd(1) inv by (auto simp: y ua_inv_def)
    next
      case False
      then have "L u = Some (nm', a', c', l')" using u by simp
      note o = other [OF this] and f = fresh [of u nm' a' l']
      show ?thesis using o f \<open>L u = _\<close> by (auto simp: y)
    qed
  next
    fix u v nm' a' l' nm'' a'' l''
    assume "(L(t \<mapsto> (nm, a, Ua_Finish a, l))) u = Some (nm', a', Ua_Finish a', l')"
      "(L(t \<mapsto> (nm, a, Ua_Finish a, l))) v = Some (nm'', a'', Ua_Finish a'', l'')" "u \<noteq> v"
    moreover have "a1 \<noteq> a2" if "L u = Some (n1, a1, Ua_Finish a1, l1)" "L v = Some (n2, a2, Ua_Finish a2, l2)" "u \<noteq> v" for n1 a1 l1 n2 a2 l2
      using inv that unfolding ua_inv_def by blast
    ultimately show "a' \<noteq> a''" using fresh [of u] fresh [of v] by (auto split: if_splits)
  qed
  then show ?thesis using e by simp
qed

lemma ua_inv_finish:
  assumes inv: "ua_inv x s N L" and L: "L t = Some (nm, a, Ua_Finish a, l)" and st: "unique_args_step (Ua_Finish a) x = Inr (y, e)"
  shows "e = Return (snd (UniqueArgs_Get s)) \<and> ua_inv y (fst (UniqueArgs_Get s)) N (L(t := None))"
proof -
  have len: "length (ua_used x) = limit" "length (ua_done x) = limit" "called s = length (filter id (ua_done x))" "called s < limit"
    and du: "\<And>i. i < limit \<Longrightarrow> ua_done x ! i \<Longrightarrow> ua_used x ! i" using inv by (auto simp: ua_inv_def)
  have other: "nm' = ''Get'' \<and> l' = None \<and> (c' = Ua_Get a' \<or> c' = Ua_Finish a' \<and> a' < limit \<and> ua_used x ! a' \<and> \<not> ua_done x ! a')"
    if "L u = Some (nm', a', c', l')" for u nm' a' c' l' using inv that unfolding ua_inv_def by blast
  have dist: "a1 \<noteq> a2" if "L u = Some (n1, a1, Ua_Finish a1, l1)" "L v = Some (n2, a2, Ua_Finish a2, l2)" "u \<noteq> v" for u v n1 a1 l1 n2 a2 l2
    using inv that unfolding ua_inv_def by blast
  have a: "a < limit" "\<not> ua_done x ! a" "ua_used x ! a" using other [OF L] by auto
  define d where "d = (ua_done x)[a := True]"
  have d: "length d = limit" "length (filter id d) = Suc (called s)" using len a filter_id_upd by (auto simp: d_def)
  have full: "length (filter (\<lambda>b. \<not> b) d) = 0 \<longleftrightarrow> Suc (called s) = limit" using count_done [of d] d by linarith
  show ?thesis
  proof (cases "Suc (called s) = limit")
    case True
    then have all: "d ! i" if "i < limit" for i using filter_id_full [of d] d that by simp
    have y: "y = \<lparr>ua_used = replicate limit False, ua_done = replicate limit False\<rparr>" "e = Return (vw_opt (Some (int limit)))"
      using st len a(1) full True by (auto simp: vec_set_def d_def [symmetric] d ua_Reset_def)
    have "c' = Ua_Get a'" if "L u = Some (nm', a', c', l')" "u \<noteq> t" for u nm' a' c' l'
    proof (rule ccontr)
      assume "c' \<noteq> Ua_Get a'"
      then have c: "c' = Ua_Finish a'" "a' < limit" "\<not> ua_done x ! a'" using other [OF that(1)] by auto
      then have "a' \<noteq> a" using dist [OF that(1) [unfolded c] L that(2)] by simp
      then show False using all [OF c(2)] c(3) by (simp add: d_def)
    qed
    then have "ua_inv y (s\<lparr>called := 0\<rparr>) N (L(t := None))"
      using other len(4) unfolding ua_inv_def by (auto simp: y split: if_splits) blast+
    then show ?thesis using True y(2) by (simp add: UniqueArgs_Get_def Let_def)
  next
    case False
    have y: "y = x\<lparr>ua_done := d\<rparr>" "e = Return (vw_opt None)"
      using st len a(1) full False by (auto simp: vec_set_def d_def [symmetric] d)
    have ok: "\<not> d ! a'" if "L u = Some (nm', a', Ua_Finish a', l')" "u \<noteq> t" for u nm' a' l'
      using dist [OF that(1) L that(2)] other [OF that(1)] by (simp add: d_def)
    have "ua_inv y (s\<lparr>called := Suc (called s)\<rparr>) N (L(t := None))"
      unfolding ua_inv_def
    proof (intro conjI allI impI)
      show "ua_used y ! i" if "i < limit" "ua_done y ! i" for i
        using that du a by (auto simp: y d_def nth_list_update len split: if_splits)
      fix u nm' a' c' l' assume u: "(L(t := None)) u = Some (nm', a', c', l')"
      then show "nm' = ''Get''" "l' = None" using other [of u] by (auto split: if_splits)
      show "c' = Ua_Get a' \<or> c' = Ua_Finish a' \<and> a' < limit \<and> ua_used y ! a' \<and> \<not> ua_done y ! a'"
        using u other [of u nm' a' c' l'] ok [of u nm' a' l'] by (auto simp: y split: if_splits)
    next
      fix u v nm' a' l' nm'' a'' l''
      assume "(L(t := None)) u = Some (nm', a', Ua_Finish a', l')" "(L(t := None)) v = Some (nm'', a'', Ua_Finish a'', l'')" "u \<noteq> v"
      then show "a' \<noteq> a''" using dist [of u nm' a' l' v nm'' a'' l''] by (auto split: if_splits)
    qed (use len d False in \<open>auto simp: y\<close>)
    then show ?thesis using False y(2) by (simp add: UniqueArgs_Get_def Let_def)
  qed
qed

lemma UniqueArgs_Get_opt:
  "snd (UniqueArgs_Get s) = vw_opt (if called s + 1 = limit then Some (int limit) else None)"
  by (simp add: UniqueArgs_Get_def Let_def)

lemma vw_eq_opt: "vw_eq (vw_opt v) (vw_opt v) = Inr True"
  by (simp add: vw_opt_def vw_eq_vw_of GetDefaultCompator_same_type)

lemma UniqueArgs_typed: "typed_spec UniqueArgs_checker"
  unfolding typed_spec_def
proof (intro allI impI, rule disjI2, rule disjI1)
  fix nm and m :: "('a, unique_args_ref) spec_method" assume "specification_methods UniqueArgs_checker nm = Some m"
  then have m: "m = (\<lambda>s a. UniqueArgs_Get s)" by (auto simp: UniqueArgs_checker_def UniqueArgs_GetMethods_def split: if_splits)
  show "\<exists>f. \<forall>s a. snd (m s a) = vw_opt (f s a)"
    unfolding m by (intro exI [of _ "\<lambda>s a. if called s + 1 = limit then Some (int limit) else None"]) (simp add: UniqueArgs_Get_opt)
qed

interpretation unique_args:
  linearization_points UniqueArgs_checker ua_calls any_use unique_args_step ua_New ua_inv
proof
  show "typed_spec UniqueArgs_checker" by (rule UniqueArgs_typed)
  show "specification_methods UniqueArgs_checker nm \<noteq> None" if "(nm, a, c) \<in> ua_calls" for nm a c
    using that by (auto simp: ua_calls_def method_tables)
  show "ua_inv ua_New (first_state UniqueArgs_checker) (\<lambda>_. []) Map.empty"
    by (simp add: ua_inv_def ua_New_def method_tables limit_def)
  show "ua_inv x s (N(t := N t @ [nm])) (L(t \<mapsto> (nm, a, c, None)))"
    if "ua_inv x s N L" "(nm, a, c) \<in> ua_calls" for x s N L t nm a c
    using that unfolding ua_inv_def by (auto simp: ua_calls_def split: if_splits)
  fix x s N L t nm a c l y e
  assume inv: "ua_inv x s N L" and L: "L t = Some (nm, a, c, l)" and st: "unique_args_step c x = Inr (y, e)"
  then have c: "nm = ''Get''" "l = None" "c = Ua_Get a \<or> c = Ua_Finish a" unfolding ua_inv_def by blast+
  have eff: "takes_effect UniqueArgs_checker nm a s None (fst (UniqueArgs_Get s)) (Some (snd (UniqueArgs_Get s)))"
    by (rule takes_effectI) (simp_all add: c method_tables)
  have refl: "vw_eq (snd (UniqueArgs_Get s)) (snd (UniqueArgs_Get s)) = Inr True"
    by (simp add: UniqueArgs_Get_opt vw_eq_opt)
  from c(3) show "\<exists>s' l'. takes_effect UniqueArgs_checker nm a s l s' l' \<and> (case e of
      Yield k \<Rightarrow> ua_inv y s' N (L(t \<mapsto> (nm, a, k, l')))
    | Futex_Wait k _ _ \<Rightarrow> ua_inv y s' N (L(t \<mapsto> (nm, a, k, l')))
    | Return ret \<Rightarrow> (\<exists>v. l' = Some v \<and> vw_eq v ret = Inr True) \<and> ua_inv y s' N (L(t := None)))"
  proof
    assume "c = Ua_Get a"
    then show ?thesis using ua_inv_get [OF inv, of t nm a l y e] L st by (intro exI [of _ s] exI [of _ l]) simp
  next
    assume "c = Ua_Finish a"
    then show ?thesis using ua_inv_finish [OF inv, of t nm a l y e] L st eff refl c(2)
      by (intro exI [of _ "fst (UniqueArgs_Get s)"] exI [of _ "Some (snd (UniqueArgs_Get s))"]) simp
  qed
qed

section \<open>The generator\<close>

lemma first_unused_Inr: "first_unused us k = Inr i \<Longrightarrow> k \<le> i \<and> i - k < length us \<and> \<not> us ! (i - k)"
proof (induction us arbitrary: k)
  case (Cons u us)
  show ?case
  proof (cases u)
    case False
    then show ?thesis using Cons.prems by simp
  next
    case True
    then have IH: "k + 1 \<le> i" "i - (k + 1) < length us" "\<not> us ! (i - (k + 1))" using Cons.IH [of "k + 1"] Cons.prems by simp_all
    then have "i - k = Suc (i - (k + 1))" by linarith
    then show ?thesis using IH by simp
  qed
qed simp

lemma first_unused_Inl: "(\<exists>e. first_unused us k = Inl e) \<longleftrightarrow> (\<forall>u \<in> set us. u)"
  by (induction us arbitrary: k) auto

section \<open>A sample execution\<close>

definition ua_sample :: "slot \<Rightarrow> (nat, ua_pc) coro" where
  "ua_sample = (\<lambda>_. Coro_New Ua_Get 0 ''Get'' 0)((0, 0) :=
     (Coro_New Ua_Get 0 ''Get'' 0)\<lparr>co_ctx := Ua_Finish 0, co_ret := vw_opt None, co_is_returned := True\<rparr>)"

lemma ua_sample_run:
  "target_run ua_calls any_use unique_args_step ua_New \<lparr>ua_used = [True, False, False], ua_done = [True, False, False]\<rparr> ua_sample
     [Invoke (0, 0) 0, Response (0, 0) (vw_opt None) 0]"
proof -
  let ?y = "\<lparr>ua_used = [True, False, False], ua_done = [False, False, False]\<rparr>"
    and ?z = "\<lparr>ua_used = [True, False, False], ua_done = [True, False, False]\<rparr>"
  note step = target_run_call [where calls = ua_calls and step = unique_args_step and allowed = any_use]
  show ?thesis
    using step [OF target_run.start, where r = "(0, 0)" and c = "Coro_New Ua_Get 0 ''Get'' 0" and y = ?y
        and k = "Ua_Finish 0" and z = ?z and v = "vw_opt None"]
    by (simp add: ua_calls_def any_use_def ua_New_def limit_def numeral_3_eq_3 Coro_New_def ua_sample_def vec_get_def vec_set_def)
qed

section \<open>Properties\<close>

text \<open>
  C21. The target with unique arguments is linearizable: in every execution of \<open>Get\<close>, under any scheduler, up to a failing
  assertion, the history is linearizable and the checker accepts it. An argument that the generator gives does not fail the
  assertion of the call that begins at once, and the generator fails exactly when all arguments are in use.
\<close>

theorem unique_args_correct:
  assumes run: "target_run ua_calls any_use unique_args_step ua_New x tk h"
  shows "linearizable UniqueArgs_checker tk h \<and> Check_recursive UniqueArgs_checker tk h = Inr True
    \<and> (GenerateArgs x = Inr i \<longrightarrow> (\<exists>y. unique_args_step (Ua_Get i) x = Inr (y, Yield (Ua_Finish i))))
    \<and> ((\<exists>e. GenerateArgs x = Inl e) \<longleftrightarrow> (\<forall>u \<in> set (ua_used x). u))"
proof -
  obtain p val s L where "ua_inv x s (thread_calls tk h) L" using unique_args.run_has_points [OF run] by blast
  then have len: "length (ua_used x) = limit" by (simp add: ua_inv_def)
  have "\<exists>y. unique_args_step (Ua_Get i) x = Inr (y, Yield (Ua_Finish i))" if "GenerateArgs x = Inr i"
    using first_unused_Inr [OF that [unfolded GenerateArgs_def]] len by (simp add: vec_get_def)
  moreover have "(\<exists>e. GenerateArgs x = Inl e) \<longleftrightarrow> (\<forall>u \<in> set (ua_used x). u)"
    unfolding GenerateArgs_def first_unused_Inl using len by simp
  ultimately show ?thesis using unique_args.run_linearizable [OF run] unique_args.run_accepted [OF run] by blast
qed

theorem unique_args_correct_witness:
  "linearizable UniqueArgs_checker ua_sample [Invoke (0, 0) 0, Response (0, 0) (vw_opt None) 0]
    \<and> GenerateArgs \<lparr>ua_used = [True, False, False], ua_done = [True, False, False]\<rparr> = Inr 1
    \<and> (\<exists>y. unique_args_step (Ua_Get 1) \<lparr>ua_used = [True, False, False], ua_done = [True, False, False]\<rparr> = Inr (y, Yield (Ua_Finish 1)))"
proof -
  have g: "GenerateArgs \<lparr>ua_used = [True, False, False], ua_done = [True, False, False]\<rparr> = Inr 1"
    by (simp add: GenerateArgs_def limit_def numeral_3_eq_3)
  show ?thesis using unique_args_correct [OF ua_sample_run, of 1] g by blast
qed

end
