(* ===== verification/Counique_Args.thy ===== *)
theory Counique_Args
  imports Tla_Targets Unique_Args Token_Targets Entry_Point
begin

text \<open>
  Model of \<open>verifying/targets/counique_args.cpp\<close>. \<open>Get\<close> marks its argument in a C++20 coroutine, \<open>CoFun\<close>, that never suspends
  before its end; the coroutine pass reports its start and its end, and \<open>Get\<close> is interrupted there. The answer is computed in the
  third slice, so that the call that finds all arguments marked answers for the others too: they take effect in its slice.
\<close>

declare split_paired_All [simp del] split_paired_Ex [simp del]

section \<open>The target\<close>

text \<open>The name of the coroutine in \<open>counique_args.yml\<close>.\<close>

definition cofun :: string where
  "cofun = ''cofun''"

datatype cu_pc = Cu_Get nat | Cu_CoFun nat | Cu_Count

definition CoFun :: "nat \<Rightarrow> unique_args \<Rightarrow> unique_args res" where
  "CoFun i x = res_bind (vec_set (ua_done x) i True) (\<lambda>d. Inr (x\<lparr>ua_done := d\<rparr>))"

fun counique_step :: "(unique_args, cu_pc) world_step" where
  "counique_step (Cu_Get i) w = (let x = w_state w in
     res_bind (vec_get (ua_used x) i) (\<lambda>u. res_bind (cxx_assert ''!used[i]'' (\<not> u)) (\<lambda>_.
     Inr (CoroutineStatusChange cofun True (Cu_CoFun i) (w\<lparr>w_state := x\<lparr>ua_used := (ua_used x)[i := True]\<rparr>\<rparr>)))))"
| "counique_step (Cu_CoFun i) w = res_bind (CoFun i (w_state w)) (\<lambda>x.
     Inr (CoroutineStatusChange cofun False Cu_Count (w\<lparr>w_state := x\<rparr>)))"
| "counique_step Cu_Count w = (let x = w_state w in
     Inr (if length (filter (\<lambda>b. \<not> b) (ua_done x)) = 0 then (w\<lparr>w_state := ua_Reset x\<rparr>, Return (vw_opt (Some (int limit))))
       else (w, Return (vw_opt None))))"

text \<open>What a slice does to the object, whatever the tokens and the last status are.\<close>

definition object_step :: "('o, 'c) world_step \<Rightarrow> ('o, 'c) target_step" where
  "object_step step c x = res_bind (step c (target_world x)) (\<lambda>(w, e). Inr (w_state w, e))"

definition cu_calls :: "(nat, cu_pc) target_call set" where
  "cu_calls = {(''Get'', i, Cu_Get i) |i. True}"

text \<open>
  The generator reads the global vector. Where it fails, the builder makes an argument that no call accepts.
\<close>

definition cu_builders :: "(unique_args, nat, cu_pc) task_builder list" where
  "cu_builders = [\<lparr>tb_name = ''Get'', tb_func = Cu_Get,
     tb_gen = (\<lambda>t w. (case GenerateArgs (w_state w) of Inr i \<Rightarrow> i | Inl _ \<Rightarrow> limit, w, None))\<rparr>]"

abbreviation cu_step :: "(unique_args, cu_pc) target_step" where
  "cu_step \<equiv> object_step counique_step"

lemma cu_step_simps [simp]:
  "cu_step (Cu_Get i) x = res_bind (vec_get (ua_used x) i) (\<lambda>u. res_bind (cxx_assert ''!used[i]'' (\<not> u)) (\<lambda>_.
     Inr (x\<lparr>ua_used := (ua_used x)[i := True]\<rparr>, Yield (Cu_CoFun i))))"
  "cu_step (Cu_CoFun i) x = res_bind (vec_set (ua_done x) i True) (\<lambda>d. Inr (x\<lparr>ua_done := d\<rparr>, Yield Cu_Count))"
  "cu_step Cu_Count x = Inr (if length (filter (\<lambda>b. \<not> b) (ua_done x)) = 0 then (ua_Reset x, Return (vw_opt (Some (int limit))))
     else (x, Return (vw_opt None)))"
  by (simp_all add: object_step_def target_world_def CoroutineStatusChange_def CoFun_def Let_def vec_get_def vec_set_def cxx_assert_def)

lemma counique_behaves: "behaves (world_body counique_step) cu_step"
  unfolding behaves_def
proof (intro allI impI)
  fix c and w :: "unique_args world" and o' e assume st: "cu_step c (w_state w) = Inr (o', e)"
  show "\<exists>x. world_body counique_step c w = (w\<lparr>w_state := o', w_status := x\<rparr>, e)"
  proof (cases c)
    case (Cu_Get i)
    then show ?thesis using st
      by (auto simp: world_body_def CoroutineStatusChange_def res_bind_Inr_iff cxx_assert_Inr_iff Let_def)
  next
    case (Cu_CoFun i)
    then show ?thesis using st by (auto simp: world_body_def CoroutineStatusChange_def CoFun_def res_bind_Inr_iff)
  next
    case Cu_Count
    then show ?thesis using st by (intro exI [of _ "w_status w"]) (auto simp: world_body_def Let_def split: if_splits)
  qed
qed

section \<open>Where the calls are\<close>

definition cu_returned :: "(nat \<Rightarrow> string list) \<Rightarrow> (nat, cu_pc) active \<Rightarrow> nat set" where
  "cu_returned N L = {t. N t \<noteq> [] \<and> L t = None}"

definition cu_at :: "(cu_pc \<Rightarrow> bool) \<Rightarrow> (nat, cu_pc) active \<Rightarrow> nat set" where
  "cu_at p L = {t. \<exists>nm a c l. L t = Some (nm, a, c, l) \<and> p c}"

definition in_cofun :: "cu_pc \<Rightarrow> bool" where
  "in_cofun c \<longleftrightarrow> (\<exists>i. c = Cu_CoFun i)"

lemma in_cofun_simps [simp]: "\<not> in_cofun (Cu_Get i)" "in_cofun (Cu_CoFun i)" "\<not> in_cofun Cu_Count"
  by (simp_all add: in_cofun_def)

lemma cu_sets_upd:
  "cu_at p (L(t \<mapsto> (nm, a, c, l))) = (if p c then insert t (cu_at p L) else cu_at p L - {t})"
  "cu_at p (L(t := None)) = cu_at p L - {t}"
  "cu_returned N (L(t \<mapsto> v)) = cu_returned N L - {t}"
  "N t \<noteq> [] \<Longrightarrow> cu_returned N (L(t := None)) = insert t (cu_returned N L)"
  "L t = None \<Longrightarrow> N t = [] \<Longrightarrow> cu_returned (N(t := ns)) (L(t \<mapsto> v)) = cu_returned N L"
  by (auto simp: cu_at_def cu_returned_def split: if_splits)

lemma cu_set_mem:
  "L t = Some (nm, a, c, l) \<Longrightarrow> t \<in> cu_at p L \<longleftrightarrow> p c"
  "L t = Some v \<Longrightarrow> t \<notin> cu_returned N L"
  "L t = None \<Longrightarrow> t \<notin> cu_at p L"
  by (auto simp: cu_at_def cu_returned_def)

section \<open>The invariant\<close>

text \<open>
  As long as no call has found all arguments marked, the calls that have returned are those that have taken effect, and the
  marks are those of the calls that have returned or are about to count. Afterwards the calls that are left have
  taken effect with an empty answer.
\<close>

definition cu_call_open :: "unique_args \<Rightarrow> nat \<Rightarrow> cu_pc \<Rightarrow> bool" where
  "cu_call_open x a c \<longleftrightarrow> c = Cu_Get a \<or> c = Cu_CoFun a \<and> a < limit \<and> ua_used x ! a \<and> \<not> ua_done x ! a \<or> c = Cu_Count"

definition cu_open :: "unique_args \<Rightarrow> unique_args_ref \<Rightarrow> (nat \<Rightarrow> string list) \<Rightarrow> (nat, cu_pc) active \<Rightarrow> bool" where
  "cu_open x s N L \<longleftrightarrow> called s = card (cu_returned N L)
     \<and> length (filter id (ua_done x)) = card (cu_returned N L) + card (cu_at ((=) Cu_Count) L)
     \<and> length (filter id (ua_used x)) = card (cu_returned N L) + card (cu_at ((=) Cu_Count) L) + card (cu_at in_cofun L)
     \<and> (\<forall>i<limit. ua_done x ! i \<longrightarrow> ua_used x ! i)
     \<and> (\<forall>t nm a c l. L t = Some (nm, a, c, l) \<longrightarrow> l = None \<and> cu_call_open x a c)
     \<and> (\<forall>t u nm a l nm' a' l'. L t = Some (nm, a, Cu_CoFun a, l) \<longrightarrow> L u = Some (nm', a', Cu_CoFun a', l') \<longrightarrow> t \<noteq> u \<longrightarrow> a \<noteq> a')"

definition cu_closed :: "unique_args \<Rightarrow> unique_args_ref \<Rightarrow> (nat \<Rightarrow> string list) \<Rightarrow> (nat, cu_pc) active \<Rightarrow> bool" where
  "cu_closed x s N L \<longleftrightarrow> called s = 0 \<and> x = ua_New \<and> (\<forall>t<limit. N t \<noteq> [])
     \<and> (\<forall>t nm a c l. L t = Some (nm, a, c, l) \<longrightarrow> c = Cu_Count \<and> l = Some (vw_opt None))"

definition cu_threads :: "(nat \<Rightarrow> string list) \<Rightarrow> (nat, cu_pc) active \<Rightarrow> bool" where
  "cu_threads N L \<longleftrightarrow> (\<forall>t. N t \<noteq> [] \<longrightarrow> t < limit) \<and> (\<forall>t. L t \<noteq> None \<longrightarrow> N t \<noteq> [])
     \<and> (\<forall>t nm a c l. L t = Some (nm, a, c, l) \<longrightarrow> nm = ''Get'')"

definition cu_inv :: "unique_args \<Rightarrow> unique_args_ref \<Rightarrow> (nat \<Rightarrow> string list) \<Rightarrow> (nat, cu_pc) active \<Rightarrow> bool" where
  "cu_inv x s N L \<longleftrightarrow> length (ua_used x) = limit \<and> length (ua_done x) = limit \<and> cu_threads N L
     \<and> (cu_open x s N L \<or> cu_closed x s N L)"

lemma cu_threadsD:
  assumes "cu_threads N L"
  shows "N t \<noteq> [] \<Longrightarrow> t < limit" "L t \<noteq> None \<Longrightarrow> N t \<noteq> []" "L t = Some (nm, a, c, l) \<Longrightarrow> nm = ''Get''"
  using assms unfolding cu_threads_def by blast+

lemma cu_threads_upd:
  assumes "cu_threads N L" "L t = Some (nm, a, c, l)"
  shows "cu_threads N (L(t \<mapsto> (nm, a, c', l')))" "cu_threads N (L(t := None))"
  using assms cu_threadsD(3) [OF assms(1), of t] unfolding cu_threads_def by (auto split: if_splits)

lemma cu_sets_bounded:
  assumes "cu_threads N L"
  shows "cu_returned N L \<subseteq> {..<limit}" "cu_at p L \<subseteq> {..<limit}" "finite (cu_returned N L)" "finite (cu_at p L)"
    "cu_returned N L \<inter> cu_at p L = {}"
proof -
  show b: "cu_returned N L \<subseteq> {..<limit}" "cu_at p L \<subseteq> {..<limit}"
    using cu_threadsD(1,2) [OF assms] by (auto simp: cu_returned_def cu_at_def)
  show "finite (cu_returned N L)" "finite (cu_at p L)" using b by (auto intro: finite_subset)
  show "cu_returned N L \<inter> cu_at p L = {}" by (auto simp: cu_returned_def cu_at_def)
qed

lemma cu_openD:
  assumes "cu_open x s N L"
  shows "called s = card (cu_returned N L)"
    "length (filter id (ua_done x)) = card (cu_returned N L) + card (cu_at ((=) Cu_Count) L)"
    "length (filter id (ua_used x)) = card (cu_returned N L) + card (cu_at ((=) Cu_Count) L) + card (cu_at in_cofun L)"
    "i < limit \<Longrightarrow> ua_done x ! i \<Longrightarrow> ua_used x ! i"
    "L t = Some (nm, a, c, l) \<Longrightarrow> l = None" "L t = Some (nm, a, c, l) \<Longrightarrow> cu_call_open x a c"
    "L t = Some (nm, a, Cu_CoFun a, l) \<Longrightarrow> L u = Some (nm', a', Cu_CoFun a', l') \<Longrightarrow> t \<noteq> u \<Longrightarrow> a \<noteq> a'"
  using assms unfolding cu_open_def by blast+

lemma cu_openI:
  assumes "called s = card (cu_returned N L)"
    "length (filter id (ua_done x)) = card (cu_returned N L) + card (cu_at ((=) Cu_Count) L)"
    "length (filter id (ua_used x)) = card (cu_returned N L) + card (cu_at ((=) Cu_Count) L) + card (cu_at in_cofun L)"
    "\<And>i. i < limit \<Longrightarrow> ua_done x ! i \<Longrightarrow> ua_used x ! i"
    "\<And>t nm a c l. L t = Some (nm, a, c, l) \<Longrightarrow> l = None \<and> cu_call_open x a c"
    "\<And>t u nm a l nm' a' l'. L t = Some (nm, a, Cu_CoFun a, l) \<Longrightarrow> L u = Some (nm', a', Cu_CoFun a', l') \<Longrightarrow> t \<noteq> u \<Longrightarrow> a \<noteq> a'"
  shows "cu_open x s N L"
  unfolding cu_open_def using assms by blast

section \<open>The slices\<close>

lemma cu_open_get:
  assumes th: "cu_threads N L" and op: "cu_open x s N L" and L: "L t = Some (nm, a, Cu_Get a, l)"
    and len: "length (ua_used x) = limit" and a: "a < limit" "\<not> ua_used x ! a"
  shows "cu_open (x\<lparr>ua_used := (ua_used x)[a := True]\<rparr>) s N (L(t \<mapsto> (nm, a, Cu_CoFun a, l)))"
proof (rule cu_openI)
  note D = cu_openD [OF op]
  note mem = cu_set_mem(1) [of L t, OF L] cu_set_mem(2) [of L t, OF L]
  have na: "\<not> ua_done x ! a" using D(4) a by blast
  have fresh: "a' \<noteq> a" if "L u = Some (nm', a', Cu_CoFun a', l')" for u nm' a' l'
    using D(6) [OF that] a by (auto simp: cu_call_open_def)
  show "called s = card (cu_returned N (L(t \<mapsto> (nm, a, Cu_CoFun a, l))))" using D(1) mem by (simp add: cu_sets_upd)
  show "length (filter id (ua_done (x\<lparr>ua_used := (ua_used x)[a := True]\<rparr>)))
      = card (cu_returned N (L(t \<mapsto> (nm, a, Cu_CoFun a, l)))) + card (cu_at ((=) Cu_Count) (L(t \<mapsto> (nm, a, Cu_CoFun a, l))))"
    using D(2) mem by (simp add: cu_sets_upd)
  show "length (filter id (ua_used (x\<lparr>ua_used := (ua_used x)[a := True]\<rparr>)))
      = card (cu_returned N (L(t \<mapsto> (nm, a, Cu_CoFun a, l)))) + card (cu_at ((=) Cu_Count) (L(t \<mapsto> (nm, a, Cu_CoFun a, l))))
        + card (cu_at in_cofun (L(t \<mapsto> (nm, a, Cu_CoFun a, l))))"
    using D(3) mem filter_id_upd [of a "ua_used x"] len a cu_sets_bounded(4) [OF th] by (simp add: cu_sets_upd)
  show "ua_used (x\<lparr>ua_used := (ua_used x)[a := True]\<rparr>) ! i" if "i < limit" "ua_done (x\<lparr>ua_used := (ua_used x)[a := True]\<rparr>) ! i" for i
    using that D(4) [of i] len by (cases "i = a") auto
  fix u nm' a' c' l' assume "(L(t \<mapsto> (nm, a, Cu_CoFun a, l))) u = Some (nm', a', c', l')"
  then show "l' = None \<and> cu_call_open (x\<lparr>ua_used := (ua_used x)[a := True]\<rparr>) a' c'"
    using D(5,6) [of u] D(5) [OF L] a na len fresh [of u] by (auto simp: cu_call_open_def nth_list_update split: if_splits)
next
  fix u v nm1 a1 l1 nm2 a2 l2
  assume "(L(t \<mapsto> (nm, a, Cu_CoFun a, l))) u = Some (nm1, a1, Cu_CoFun a1, l1)" "(L(t \<mapsto> (nm, a, Cu_CoFun a, l))) v = Some (nm2, a2, Cu_CoFun a2, l2)" "u \<noteq> v"
  moreover have "b \<noteq> a" if "L w = Some (nm', b, Cu_CoFun b, l')" for w nm' b l'
    using cu_openD(6) [OF op that] a by (auto simp: cu_call_open_def)
  ultimately show "a1 \<noteq> a2" using cu_openD(7) [OF op, of u nm1 a1 l1 v nm2 a2 l2] by (auto split: if_splits)
qed

lemma cu_open_cofun:
  assumes th: "cu_threads N L" and op: "cu_open x s N L" and L: "L t = Some (nm, a, Cu_CoFun a, l)" and len: "length (ua_done x) = limit"
  shows "cu_open (x\<lparr>ua_done := (ua_done x)[a := True]\<rparr>) s N (L(t \<mapsto> (nm, a, Cu_Count, l)))" (is "cu_open ?x s N ?L")
proof (rule cu_openI)
  note D = cu_openD [OF op]
  note mem = cu_set_mem(1) [of L t, OF L] cu_set_mem(2) [of L t, OF L]
  have a: "a < limit" "ua_used x ! a" "\<not> ua_done x ! a" using D(6) [OF L] by (auto simp: cu_call_open_def)
  note fin = cu_sets_bounded(4) [OF th]
  have "t \<in> cu_at in_cofun L" using mem(1) by simp
  then have pos: "0 < card (cu_at in_cofun L)" using fin by (auto simp: card_gt_0_iff)
  show "called s = card (cu_returned N ?L)" using D(1) mem by (simp add: cu_sets_upd)
  show "length (filter id (ua_done ?x)) = card (cu_returned N ?L) + card (cu_at ((=) Cu_Count) ?L)"
    using D(2) mem filter_id_upd [of a "ua_done x"] len a fin by (simp add: cu_sets_upd)
  show "length (filter id (ua_used ?x)) = card (cu_returned N ?L) + card (cu_at ((=) Cu_Count) ?L) + card (cu_at in_cofun ?L)"
    using D(3) mem fin pos by (simp add: cu_sets_upd card_Diff_singleton)
  show "ua_used ?x ! i" if "i < limit" "ua_done ?x ! i" for i
    using that D(4) [of i] a by (cases "i = a") auto
  fix u nm' a' c' l' assume u: "?L u = Some (nm', a', c', l')"
  show "l' = None \<and> cu_call_open ?x a' c'"
  proof (cases "u = t")
    case True
    then show ?thesis using u D(5) [OF L] by (auto simp: cu_call_open_def)
  next
    case False
    then have Lu: "L u = Some (nm', a', c', l')" using u by simp
    have "a' \<noteq> a" if "c' = Cu_CoFun a'" using D(7) [OF L Lu [unfolded that]] False by simp
    then show ?thesis using D(5,6) [OF Lu] by (auto simp: cu_call_open_def)
  qed
next
  fix u v nm1 a1 l1 nm2 a2 l2
  assume "?L u = Some (nm1, a1, Cu_CoFun a1, l1)" "?L v = Some (nm2, a2, Cu_CoFun a2, l2)" "u \<noteq> v"
  then show "a1 \<noteq> a2" using cu_openD(7) [OF op, of u nm1 a1 l1 v nm2 a2 l2] by (auto split: if_splits)
qed

lemma cu_open_count:
  assumes th: "cu_threads N L" and op: "cu_open x s N L" and L: "L t = Some (nm, a, Cu_Count, l)"
  shows "cu_open x (s\<lparr>called := Suc (called s)\<rparr>) N (L(t := None))" (is "cu_open x ?s N ?L")
proof (rule cu_openI)
  note D = cu_openD [OF op]
  note mem = cu_set_mem(1) [of L t, OF L] cu_set_mem(2) [of L t, OF L]
  note fin = cu_sets_bounded(3,4) [OF th]
  have N: "N t \<noteq> []" using cu_threadsD(2) [OF th, of t] L by simp
  have "t \<in> cu_at ((=) Cu_Count) L" using mem(1) by simp
  then have pos: "0 < card (cu_at ((=) Cu_Count) L)" using fin by (auto simp: card_gt_0_iff)
  show "called ?s = card (cu_returned N ?L)" using D(1) mem fin N by (simp add: cu_sets_upd)
  show "length (filter id (ua_done x)) = card (cu_returned N ?L) + card (cu_at ((=) Cu_Count) ?L)"
    using D(2) mem fin N pos by (simp add: cu_sets_upd card_Diff_singleton)
  show "length (filter id (ua_used x)) = card (cu_returned N ?L) + card (cu_at ((=) Cu_Count) ?L) + card (cu_at in_cofun ?L)"
    using D(3) mem fin N pos by (simp add: cu_sets_upd card_Diff_singleton)
  show "ua_used x ! i" if "i < limit" "ua_done x ! i" for i by (rule D(4) [OF that])
  show "l' = None \<and> cu_call_open x a' c'" if "?L u = Some (nm', a', c', l')" for u nm' a' c' l'
    using that D(5,6) [of u] by (auto split: if_splits)
  show "a1 \<noteq> a2" if "?L u = Some (nm1, a1, Cu_CoFun a1, l1)" "?L v = Some (nm2, a2, Cu_CoFun a2, l2)" "u \<noteq> v"
    for u v nm1 a1 l1 nm2 a2 l2
    using that D(7) [of u nm1 a1 l1 v nm2 a2 l2] by (auto split: if_splits)
qed

text \<open>The call that finds all arguments marked lets the others take effect.\<close>

definition helped :: "nat set \<Rightarrow> (nat, cu_pc) active \<Rightarrow> (nat, cu_pc) active" where
  "helped U L u = (if u \<in> U then map_option (\<lambda>(nm, a, c, l). (nm, a, c, Some (vw_opt None))) (L u) else L u)"

lemma Get_effect:
  assumes "effects UniqueArgs_checker s L s1 L1" "L1 u = Some (''Get'', a, c, None)"
  shows "effects UniqueArgs_checker s L (fst (UniqueArgs_Get s1)) (L1(u \<mapsto> (''Get'', a, c, Some (snd (UniqueArgs_Get s1)))))"
  by (rule effects.more [OF assms, of "\<lambda>s a. UniqueArgs_Get s"]) (simp_all add: method_tables)

lemma helped_effects:
  assumes "finite U" "\<And>u. u \<in> U \<Longrightarrow> \<exists>a c. L u = Some (''Get'', a, c, None)" "called s + card U < limit"
  shows "effects UniqueArgs_checker s L (s\<lparr>called := called s + card U\<rparr>) (helped U L)"
  using assms
proof (induction U)
  case empty
  have "helped {} L = L" "s\<lparr>called := called s + card {}\<rparr> = s" by (simp_all add: helped_def fun_eq_iff)
  then show ?case using effects.none [of UniqueArgs_checker s L] by metis
next
  case (insert u U)
  let ?s = "s\<lparr>called := called s + card U\<rparr>"
  obtain a c where u: "L u = Some (''Get'', a, c, None)" using insert.prems(1) by blast
  then have Lu: "helped U L u = Some (''Get'', a, c, None)" using insert.hyps(2) by (simp add: helped_def)
  have "effects UniqueArgs_checker s L ?s (helped U L)" using insert by simp
  from Get_effect [OF this, of u a c] Lu
  have "effects UniqueArgs_checker s L (fst (UniqueArgs_Get ?s)) ((helped U L)(u \<mapsto> (''Get'', a, c, Some (snd (UniqueArgs_Get ?s)))))" by simp
  moreover have "called s + card U + 1 \<noteq> limit" using insert.prems(2) insert.hyps by simp
  moreover have "(helped U L)(u \<mapsto> (''Get'', a, c, Some (vw_opt None))) = helped (insert u U) L" by (auto simp: helped_def u fun_eq_iff)
  ultimately show ?case using insert.hyps by (simp add: UniqueArgs_Get_def Let_def)
qed

lemma cu_full_count:
  assumes th: "cu_threads N L" and op: "cu_open x s N L" and L: "L t = Some (nm, a, Cu_Count, l)"
    and full: "length (filter id (ua_done x)) = limit" and len: "length (ua_used x) = limit" "length (ua_done x) = limit"
  obtains s' L' where "effects UniqueArgs_checker s L s' L'" "L' t = Some (nm, a, Cu_Count, Some (vw_opt (Some (int limit))))"
    "cu_threads N (L'(t := None))" "cu_closed (ua_Reset x) s' N (L'(t := None))"
proof -
  note D = cu_openD [OF op]
  note mem = cu_set_mem(1) [of L t, OF L] cu_set_mem(2) [of L t, OF L] and fin = cu_sets_bounded(3,4) [OF th]
  let ?K = "cu_at ((=) Cu_Count) L" and ?R = "cu_returned N L"
  let ?U = "?K - {t}" and ?s = "s\<lparr>called := called s + card (?K - {t})\<rparr>"
  have nm: "nm = ''Get''" using cu_threadsD(3) [OF th L] .
  have "card (?R \<union> ?K) = limit" using D(2) full card_Un_disjoint fin cu_sets_bounded(5) [OF th] by metis
  then have all: "?R \<union> ?K = {..<limit}"
    using cu_sets_bounded(1,2) [OF th] card_subset_eq [of "{..<limit}" "?R \<union> ?K"] by simp
  have "t \<in> ?K" using mem(1) by simp
  then have "Suc (card ?U) = card ?K" by (rule card_Suc_Diff1 [OF fin(2)])
  then have less: "Suc (called s + card ?U) = limit" using D(1,2) full by simp
  have get: "\<exists>a c. L u = Some (''Get'', a, c, None)" if uU: "u \<in> ?U" for u
  proof -
    from uU obtain nm' a' c' l' where u: "L u = Some (nm', a', c', l')" unfolding cu_at_def by blast
    then show ?thesis using cu_threadsD(3) [OF th u] D(5) [OF u] by simp
  qed
  have "effects UniqueArgs_checker s L ?s (helped ?U L)" using helped_effects [of ?U L s] fin get less by simp
  moreover have Lt: "helped ?U L t = Some (''Get'', a, Cu_Count, None)" using L nm D(5) [OF L] by (simp add: helped_def)
  ultimately have "effects UniqueArgs_checker s L (s\<lparr>called := 0\<rparr>) ((helped ?U L)(t \<mapsto> (''Get'', a, Cu_Count, Some (vw_opt (Some (int limit))))))"
    using Get_effect [of s L ?s "helped ?U L" t a Cu_Count] less by (simp add: UniqueArgs_Get_def Let_def)
  moreover have rest: "c' = Cu_Count \<and> l' = Some (vw_opt None) \<and> nm' = ''Get'' \<and> L u \<noteq> None"
    if u: "((helped ?U L)(t := None)) u = Some (nm', a', c', l')" for u nm' a' c' l'
  proof -
    have ut: "u \<noteq> t" using u by (auto split: if_splits)
    then have "L u \<noteq> None" using u by (auto simp: helped_def split: if_splits)
    then obtain n1 a1 c1 l1 where Lu: "L u = Some (n1, a1, c1, l1)" by (cases "L u") auto
    then have "u < limit" "u \<notin> ?R" using cu_threadsD(1,2) [OF th, of u] by (auto simp: cu_returned_def)
    then have "u \<in> ?K" using all by blast
    then show ?thesis using u ut Lu cu_threadsD(3) [OF th Lu] by (auto simp: helped_def cu_at_def)
  qed
  moreover have "cu_threads N ((helped ?U L)(t := None))"
    using cu_threadsD(1,2) [OF th] rest unfolding cu_threads_def by (metis not_None_eq prod_cases4)
  moreover have "cu_closed (ua_Reset x) (s\<lparr>called := 0\<rparr>) N ((helped ?U L)(t := None))"
    unfolding cu_closed_def
  proof (intro conjI allI impI)
    show "ua_Reset x = ua_New" using len by (simp add: ua_Reset_def ua_New_def)
    show "N u \<noteq> []" if "u < limit" for u
      using that all cu_threadsD(2) [OF th, of u] by (auto simp: cu_returned_def cu_at_def)
  qed (use rest in auto)
  ultimately show thesis using nm by (intro that [of "s\<lparr>called := 0\<rparr>" "(helped ?U L)(t \<mapsto> (''Get'', a, Cu_Count, Some (vw_opt (Some (int limit)))))"]) simp_all
qed

lemma cu_open_invoke:
  assumes op: "cu_open x s N L" and t: "L t = None" "N t = []"
  shows "cu_open x s (N(t := ns)) (L(t \<mapsto> (''Get'', a, Cu_Get a, None)))"
proof -
  note D = cu_openD [OF op] and mem = cu_set_mem(3) [of L t, OF t(1)]
  have sets: "cu_returned (N(t := ns)) (L(t \<mapsto> (''Get'', a, Cu_Get a, None))) = cu_returned N L"
    "cu_at ((=) Cu_Count) (L(t \<mapsto> (''Get'', a, Cu_Get a, None))) = cu_at ((=) Cu_Count) L"
    "cu_at in_cofun (L(t \<mapsto> (''Get'', a, Cu_Get a, None))) = cu_at in_cofun L"
    using mem cu_sets_upd(5) [of L t N] t by (simp_all add: cu_sets_upd(1))
  show ?thesis
  proof (rule cu_openI, unfold sets)
    show "l' = None \<and> cu_call_open x a' c'" if "(L(t \<mapsto> (''Get'', a, Cu_Get a, None))) u = Some (nm', a', c', l')" for u nm' a' c' l'
      using that D(5,6) [of u] by (auto simp: cu_call_open_def split: if_splits)
    show "a1 \<noteq> a2" if "(L(t \<mapsto> (''Get'', a, Cu_Get a, None))) u = Some (nm1, a1, Cu_CoFun a1, l1)"
      "(L(t \<mapsto> (''Get'', a, Cu_Get a, None))) v = Some (nm2, a2, Cu_CoFun a2, l2)" "u \<noteq> v" for u v nm1 a1 l1 nm2 a2 l2
      using that D(7) [of u nm1 a1 l1 v nm2 a2 l2] by (auto split: if_splits)
  qed (use D in auto)
qed

lemma count_false: "length (filter (\<lambda>b. \<not> b) d) = 0 \<longleftrightarrow> length (filter id d) = length d"
  using count_done [of d] by linarith

text \<open>A slice of a call that has not taken effect before.\<close>

lemma cu_open_slice:
  assumes len: "length (ua_used x) = limit" "length (ua_done x) = limit" and th: "cu_threads N L" and op: "cu_open x s N L"
    and L: "L t = Some (nm, a, c, l)" and st: "cu_step c x = Inr (y, e)"
  shows "\<exists>s' L' l'. effects UniqueArgs_checker s L s' L' \<and> L' t = Some (nm, a, c, l') \<and> (case e of
      Yield k \<Rightarrow> cu_inv y s' N (L'(t \<mapsto> (nm, a, k, l')))
    | Futex_Wait k _ _ \<Rightarrow> cu_inv y s' N (L'(t \<mapsto> (nm, a, k, l')))
    | Return ret \<Rightarrow> (\<exists>v. l' = Some v \<and> vw_eq v ret = Inr True) \<and> cu_inv y s' N (L'(t := None)))" (is "\<exists>s' L' l'. ?P s' L' l'")
proof -
  note D = cu_openD [OF op] and none = effects.none [of UniqueArgs_checker s L]
  consider (get) "c = Cu_Get a" | (cofun) "c = Cu_CoFun a" "a < limit" | (cnt) "c = Cu_Count"
    using D(6) [OF L] by (auto simp: cu_call_open_def)
  then show ?thesis
  proof cases
    case get
    then have y: "y = x\<lparr>ua_used := (ua_used x)[a := True]\<rparr>" "e = Yield (Cu_CoFun a)" "a < limit" "\<not> ua_used x ! a"
      using st len by (auto simp: vec_get_def cxx_assert_Inr_iff res_bind_Inr_iff split: if_splits)
    have "?P s L l" using cu_open_get [OF th op L [unfolded get] len(1) y(3,4)] cu_threads_upd(1) [OF th L] len L none
      by (simp add: y(1,2) cu_inv_def)
    then show ?thesis by blast
  next
    case cofun
    then have y: "y = x\<lparr>ua_done := (ua_done x)[a := True]\<rparr>" "e = Yield Cu_Count"
      using st len by (auto simp: vec_set_def)
    have "?P s L l" using cu_open_cofun [OF th op L [unfolded cofun(1)] len(2)] cu_threads_upd(1) [OF th L] len L none
      by (simp add: y cu_inv_def)
    then show ?thesis by blast
  next
    case cnt
    show ?thesis
    proof (cases "length (filter id (ua_done x)) = limit")
      case True
      then have y: "y = ua_Reset x" "e = Return (vw_opt (Some (int limit)))" using st cnt len count_false [of "ua_done x"] by auto
      from cu_full_count [OF th op L [unfolded cnt] True len] obtain s' L' where
        "effects UniqueArgs_checker s L s' L'" "L' t = Some (nm, a, Cu_Count, Some (vw_opt (Some (int limit))))"
        "cu_threads N (L'(t := None))" "cu_closed (ua_Reset x) s' N (L'(t := None))" .
      then have "?P s' L' (Some (vw_opt (Some (int limit))))" using len by (simp add: y cnt cu_inv_def vw_eq_opt ua_Reset_def)
      then show ?thesis by blast
    next
      case False
      then have y: "y = x" "e = Return (vw_opt None)" using st cnt len count_false [of "ua_done x"] by auto
      have "t \<in> cu_at ((=) Cu_Count) L" using cu_set_mem(1) [of L t, OF L] cnt by simp
      then have "0 < card (cu_at ((=) Cu_Count) L)" using cu_sets_bounded(4) [OF th] by (auto simp: card_gt_0_iff)
      moreover have "length (filter id (ua_done x)) \<le> limit" using length_filter_le [of id "ua_done x"] len by simp
      ultimately have less: "called s + 1 \<noteq> limit" using D(1,2) False by simp
      have Lt: "L t = Some (''Get'', a, Cu_Count, None)" using L cnt cu_threadsD(3) [OF th L] D(5) [OF L] by simp
      let ?s = "s\<lparr>called := Suc (called s)\<rparr>" and ?L = "L(t \<mapsto> (nm, a, Cu_Count, Some (vw_opt None)))"
      have "effects UniqueArgs_checker s L ?s ?L"
        using Get_effect [OF none Lt] less cu_threadsD(3) [OF th L] by (simp add: UniqueArgs_Get_def Let_def)
      then have "?P ?s ?L (Some (vw_opt None))"
        using cu_open_count [OF th op L [unfolded cnt]] cu_threads_upd(2) [OF th L] len by (simp add: y cnt cu_inv_def vw_eq_opt)
      then show ?thesis by blast
    qed
  qed
qed

lemma cu_closed_slice:
  assumes th: "cu_threads N L" and cl: "cu_closed x s N L" and L: "L t = Some (nm, a, c, l)"
  shows "cu_step c x = Inr (x, Return (vw_opt None))" "l = Some (vw_opt None)" "cu_inv x s N (L(t := None))"
proof -
  have x: "x = ua_New" and c: "c = Cu_Count" and l: "l = Some (vw_opt None)" using cl L unfolding cu_closed_def by blast+
  show "cu_step c x = Inr (x, Return (vw_opt None))" by (simp add: x c ua_New_def limit_def)
  show "l = Some (vw_opt None)" by (rule l)
  have "cu_closed x s N (L(t := None))" using cl unfolding cu_closed_def by (auto split: if_splits)
  then show "cu_inv x s N (L(t := None))" using cu_threads_upd(2) [OF th L] by (simp add: cu_inv_def x ua_New_def)
qed

interpretation counique:
  helping_points UniqueArgs_checker cu_calls "depth_use limit 1" cu_step ua_New cu_inv
proof
  show "typed_spec UniqueArgs_checker" by (rule UniqueArgs_typed)
  show "specification_methods UniqueArgs_checker nm \<noteq> None" if "(nm, a, c) \<in> cu_calls" for nm a c
    using that by (auto simp: cu_calls_def method_tables)
  show "cu_inv ua_New (first_state UniqueArgs_checker) (\<lambda>_. []) Map.empty"
    by (simp add: cu_inv_def cu_threads_def cu_open_def cu_returned_def cu_at_def ua_New_def method_tables)
  show "cu_inv x s (N(t := N t @ [nm])) (L(t \<mapsto> (nm, a, c, None)))"
    if "cu_inv x s N L" "L t = None" "(nm, a, c) \<in> cu_calls" "depth_use limit 1 t (N t) nm" for x s N L t nm a c
  proof -
    have t: "t < limit" "N t = []" and c: "nm = ''Get''" "c = Cu_Get a" using that(3,4) by (auto simp: depth_use_def cu_calls_def)
    then have "cu_open x s N L" using that(1) by (auto simp: cu_inv_def cu_closed_def)
    from cu_open_invoke [OF this that(2) t(2)] show ?thesis
      using that(1) t c unfolding cu_inv_def cu_threads_def by (auto split: if_splits)
  qed
  fix x s N L t nm a c l y e
  assume inv: "cu_inv x s N L" and L: "L t = Some (nm, a, c, l)" and st: "cu_step c x = Inr (y, e)"
  show "\<exists>s' L' l'. effects UniqueArgs_checker s L s' L' \<and> L' t = Some (nm, a, c, l') \<and> (case e of
      Yield k \<Rightarrow> cu_inv y s' N (L'(t \<mapsto> (nm, a, k, l')))
    | Futex_Wait k _ _ \<Rightarrow> cu_inv y s' N (L'(t \<mapsto> (nm, a, k, l')))
    | Return ret \<Rightarrow> (\<exists>v. l' = Some v \<and> vw_eq v ret = Inr True) \<and> cu_inv y s' N (L'(t := None)))"
  proof (cases "cu_open x s N L")
    case True
    then show ?thesis using inv L st by (intro cu_open_slice) (auto simp: cu_inv_def)
  next
    case False
    then have "cu_threads N L" "cu_closed x s N L" using inv by (auto simp: cu_inv_def)
    note cl = cu_closed_slice [OF this L]
    show ?thesis using effects.none cl L st by (intro exI [of _ s] exI [of _ L] exI [of _ l]) (simp add: vw_eq_opt effects.none)
  qed
qed

section \<open>Under the exhaustive scheduler\<close>

text \<open>
  The options that the specification sets: the exhaustive scheduler, as many threads and tasks as there are arguments, and
  one call of each thread. \<open>Reset\<close> fills both vectors, which always have \<open>limit\<close> elements.
\<close>

definition cu_params :: "nat \<Rightarrow> nat \<Rightarrow> (unique_args, nat, cu_pc) tla_params" where
  "cu_params rounds switches = \<lparr>tla_max_tasks = limit, tla_max_rounds = rounds, tla_max_switches = switches, tla_max_depth = 1,
     tla_constructors = cu_builders, tla_check = Check_recursive UniqueArgs_checker, tla_cancel = (\<lambda>w. w)\<rparr>"

definition cu_env :: "nat \<Rightarrow> (unique_args, cu_pc, unit, script) runtime_env" where
  "cu_env fuel = \<lparr>env_body = world_body counique_step, env_mem = (\<lambda>_ _. 0), env_reset = (\<lambda>_. ua_New),
     env_verifier = DefaultStrategyVerifier, env_random = script_random, env_fuel = fuel\<rparr>"

lemma ua_Reset_New: "length (ua_used x) = limit \<Longrightarrow> length (ua_done x) = limit \<Longrightarrow> ua_Reset x = ua_New"
  by (simp add: ua_Reset_def ua_New_def)

definition cu_begun :: "cu_pc \<Rightarrow> bool" where
  "cu_begun c \<longleftrightarrow> (\<forall>i. c \<noteq> Cu_Get i)"

lemma cu_begun_simps [simp]: "\<not> cu_begun (Cu_Get i)" "cu_begun (Cu_CoFun i)" "cu_begun Cu_Count"
  by (simp_all add: cu_begun_def)

lemma cu_run_inv:
  assumes run: "target_run cu_calls (depth_use limit 1) cu_step ua_New x tk h"
    and beg: "\<And>r. r \<in> set (invoked h) \<Longrightarrow> \<not> co_is_returned (tk r) \<Longrightarrow> cu_begun (co_ctx (tk r))"
  obtains s L where "cu_inv x s (thread_calls tk h) L" "\<And>t nm a c l. L t = Some (nm, a, c, l) \<Longrightarrow> cu_begun c"
    "\<And>r. r \<in> set (invoked h) \<Longrightarrow> \<not> co_is_returned (tk r) \<Longrightarrow> \<exists>nm a l. L (fst r) = Some (nm, a, co_ctx (tk r), l)"
proof -
  obtain p val s L where ls: "lin_state UniqueArgs_checker tk h p val s L" and inv: "cu_inv x s (thread_calls tk h) L"
    using counique.run_has_points [OF run] by blast
  have "cu_begun c" if L: "L t = Some (nm, a, c, l)" for t nm a c l
  proof -
    obtain r where r: "r \<in> set (invoked h)" "fst r = t" "\<not> co_is_returned (tk r)" using lin_stateD(9) [OF ls, of t] L by auto
    then show ?thesis using active_call [OF ls r(1,3)] beg [OF r(1,3)] L by auto
  qed
  with inv active_call [OF ls] show thesis by (intro that) blast+
qed

text \<open>As long as a thread has not called \<open>Get\<close>, there is an argument for it.\<close>

lemma cu_generates:
  assumes inv: "cu_inv x s N L" and t: "t < limit" "N t = []" and beg: "\<And>t nm a c l. L t = Some (nm, a, c, l) \<Longrightarrow> cu_begun c"
  obtains i where "GenerateArgs x = Inr i" "i < limit" "\<not> ua_used x ! i"
proof -
  have len: "length (ua_used x) = limit" and th: "cu_threads N L" and op: "cu_open x s N L"
    using inv t by (auto simp: cu_inv_def cu_closed_def)
  let ?R = "cu_returned N L" and ?K = "cu_at ((=) Cu_Count) L" and ?F = "cu_at in_cofun L"
  note fin = cu_sets_bounded(3,4) [OF th] and dis = cu_sets_bounded(5) [OF th]
  have out: "t \<notin> ?R" "t \<notin> ?K" "t \<notin> ?F" using t cu_threadsD(2) [OF th, of t] by (auto simp: cu_returned_def cu_at_def)
  have "?K \<inter> ?F = {}" by (auto simp: cu_at_def in_cofun_def)
  then have "card (?R \<union> ?K \<union> ?F) = card ?R + card ?K + card ?F"
    using fin dis by (simp add: card_Un_disjoint Int_Un_distrib2)
  moreover have "?R \<union> ?K \<union> ?F \<subseteq> {..<limit} - {t}"
    using cu_sets_bounded(1) [OF th] cu_sets_bounded(2) [OF th, of in_cofun] cu_sets_bounded(2) [OF th, of "(=) Cu_Count"] out by blast
  then have "card (?R \<union> ?K \<union> ?F) \<le> limit - 1" using card_mono [of "{..<limit} - {t}"] t by (metis card_Diff_singleton card_lessThan finite_Diff finite_lessThan lessThan_iff)
  ultimately have "length (filter id (ua_used x)) \<noteq> length (ua_used x)" using cu_openD(3) [OF op] len t by simp
  then have "\<not> (\<forall>u \<in> set (take limit (ua_used x)). u)" using filter_id_full [of "ua_used x"] len by (simp add: all_set_conv_all_nth)
  then obtain i where i: "GenerateArgs x = Inr i" using first_unused_Inl [of "take limit (ua_used x)" 0] unfolding GenerateArgs_def
    by (cases "first_unused (take limit (ua_used x)) 0") auto
  from first_unused_Inr [OF i [unfolded GenerateArgs_def]] len i show thesis by (intro that) auto
qed

interpretation counique_tla:
  tla_target "cu_params rounds switches" "world_body counique_step" cu_calls cu_step ua_New limit cu_begun for rounds switches
proof
  have P: "tla_max_depth (cu_params rounds switches) = 1" "tla_constructors (cu_params rounds switches) = cu_builders"
    by (simp_all add: cu_params_def)
  show "behaves (world_body counique_step) cu_step" by (rule counique_behaves)
  show "builders_ok cu_calls (set (tla_constructors (cu_params rounds switches)))"
    by (auto simp: P builders_ok_def cu_builders_def cu_calls_def)
  fix x tk h
  assume "target_run cu_calls (depth_use limit (tla_max_depth (cu_params rounds switches))) cu_step ua_New x tk h"
    and beg: "\<And>r. r \<in> set (invoked h) \<Longrightarrow> \<not> co_is_returned (tk r) \<Longrightarrow> cu_begun (co_ctx (tk r))"
  then have run: "target_run cu_calls (depth_use limit 1) cu_step ua_New x tk h" by (simp only: P)
  from cu_run_inv [OF run beg] obtain s L where inv: "cu_inv x s (thread_calls tk h) L"
    and L: "\<And>t nm a c l. L t = Some (nm, a, c, l) \<Longrightarrow> cu_begun c"
    and act: "\<And>r. r \<in> set (invoked h) \<Longrightarrow> \<not> co_is_returned (tk r) \<Longrightarrow> \<exists>nm a l. L (fst r) = Some (nm, a, co_ctx (tk r), l)" by blast
  show "\<exists>y e. cu_step (tb_func b a) x = Inr (y, e) \<and> (\<forall>k. goes_on e k \<longrightarrow> cu_begun k)"
    if t: "t < limit" "length (thread_calls tk h t) < tla_max_depth (cu_params rounds switches)"
      and b: "b \<in> set (tla_constructors (cu_params rounds switches))" "tb_gen b t w = (a, w', tok)" "w_state w = x" for t b w a w' tok
  proof -
    obtain i where "GenerateArgs x = Inr i" "i < limit" "\<not> ua_used x ! i"
    proof (rule cu_generates [OF inv t(1)])
      show "thread_calls tk h t = []" using t(2) P(1) by simp
    qed (use L in auto)
    then show ?thesis using b inv by (auto simp: P cu_builders_def cu_inv_def vec_get_def)
  qed
  show "\<exists>y e. cu_step (co_ctx (tk r)) x = Inr (y, e) \<and> (\<forall>k. goes_on e k \<longrightarrow> cu_begun k)"
    if r: "r \<in> set (invoked h)" "\<not> co_is_returned (tk r)" for r
  proof -
    obtain nm a l where Lr: "L (fst r) = Some (nm, a, co_ctx (tk r), l)" using act [OF r] by blast
    then have "co_ctx (tk r) = Cu_Count \<or> (co_ctx (tk r) = Cu_CoFun a \<and> a < limit)"
    proof (cases "cu_open x s (thread_calls tk h) L")
      case True
      then show ?thesis using cu_openD(6) [OF True Lr] L [OF Lr] by (auto simp: cu_call_open_def)
    next
      case False
      then show ?thesis using inv Lr unfolding cu_inv_def cu_closed_def by blast
    qed
    then show ?thesis using inv by (auto simp: cu_inv_def vec_set_def)
  qed
qed

lemma counique_body:
  "same_tokens w (fst (world_body counique_step c w))"
  "snd (world_body counique_step c w) = (case cu_step c (w_state w) of Inr (x, e) \<Rightarrow> e | Inl _ \<Rightarrow> Yield c)"
  "w_state (fst (world_body counique_step c w)) = (case cu_step c (w_state w) of Inr (x, e) \<Rightarrow> x | Inl _ \<Rightarrow> w_state w)"
  by (cases c; simp add: world_body_def CoFun_def CoroutineStatusChange_def vec_get_def vec_set_def cxx_assert_def Let_def)+

lemma cu_plain: "plain_target (cu_params rounds switches) (cu_env fuel) ua_New"
  by (simp add: plain_target_def plain_body_def cu_env_def cu_params_def cu_builders_def counique_body split: sum.splits)

section \<open>More calls than arguments\<close>

text \<open>
  Six calls of three threads: the first two mark their arguments and are interrupted before they count, the third answers for
  all. Later the first one counts when the arguments have been marked by new calls, and gives a second answer.
\<close>

definition cu_round :: "(both_histories option \<times> (unique_args, nat, cu_pc, unit, script) rnd) res" where
  "cu_round = scripted_round cu_step (\<lambda>_ _. 0) ua_Reset DefaultStrategyVerifier () ua_New cu_builders
     (Check_recursive UniqueArgs_checker) 3 6 ([], [0, 0, 1, 1, 2, 2, 2, 1, 2, 2, 2, 2, 2, 2, 2, 2, 0, 2])"

lemma cu_reported: "reported cu_round"
  by code_simp

section \<open>The whole program\<close>

text \<open>\<open>GetOptions\<close> of the specification; what the initializer does not name is 0.\<close>

definition UniqueArgs_GetOptions :: default_options where
  "UniqueArgs_GetOptions = \<lparr>do_threads = of_nat limit, do_tasks = of_nat limit, do_switches = 100000000, do_rounds = 10000, do_depth = 1,
     do_forbid_all_same = False, do_verbose = False, do_strategy = ''tla'', do_weights = [], do_minimization_runs = 0, do_exploration_runs = 0\<rparr>"

definition cu_spec :: "nat \<Rightarrow> (unique_args, nat, cu_pc, unit, script, unique_args_ref, unit) run_spec" where
  "cu_spec fuel = \<lparr>rs_env = cu_env fuel, rs_builders = cu_builders, rs_world = target_world ua_New, rs_verifier = (),
     rs_checker = UniqueArgs_checker, rs_cancel = (\<lambda>w. w), rs_seed = ([], []), rs_rounding = exact, rs_smart = sample_smart, rs_smart_seed = ()\<rparr>"

lemma cu_MakeScheduler:
  assumes "fl = (SetOpts UniqueArgs_GetOptions default_flags)\<lparr>FLAGS_rounds := n, FLAGS_switches := k\<rparr>"
  obtains opts where "ParseOpts fl = Inr opts" "MakeScheduler opts (cu_spec fuel)
    = Inr (Made_TLA (cu_params (unat (of_flag n)) (unat (of_flag k))) (TLAScheduler limit (target_world ua_New) ()))"
proof -
  have w: "of_flag (to_flag 3) = 3" "of_flag (to_flag 1) = 1" using of_to_flag [of 3] of_to_flag [of 1] by simp_all
  have lit: "FromLiteral ''tla'' = Inr TLA" by code_simp
  obtain opts where p: "ParseOpts fl = Inr opts" and o: "opt_typ opts = TLA" "opt_threads opts = 3" "opt_tasks opts = 3" "opt_depth opts = 1"
    "opt_rounds opts = of_flag n" "opt_switches opts = of_flag k"
    using lit by (simp add: assms ParseOpts_def SetOpts_def UniqueArgs_GetOptions_def w limit_def)
  have "MakeScheduler opts (cu_spec fuel)
      = Inr (Made_TLA (cu_params (unat (of_flag n)) (unat (of_flag k))) (TLAScheduler limit (target_world ua_New) ()))"
    by (simp add: MakeScheduler_def o cu_spec_def cu_params_def limit_def)
  then show thesis by (rule that [OF p])
qed

section \<open>Sample executions\<close>

definition cu_sample :: "slot \<Rightarrow> (nat, cu_pc) coro" where
  "cu_sample = (\<lambda>_. Coro_New Cu_Get 0 ''Get'' 0)((0, 0) :=
     (Coro_New Cu_Get 0 ''Get'' 0)\<lparr>co_ctx := Cu_Count, co_ret := vw_opt None, co_is_returned := True\<rparr>)"

lemma cu_sample_run:
  "target_run cu_calls (depth_use limit 1) cu_step ua_New \<lparr>ua_used = [True, False, False], ua_done = [True, False, False]\<rparr> cu_sample
     [Invoke (0, 0) 0, Response (0, 0) (vw_opt None) 0]"
proof -
  let ?run = "target_run cu_calls (depth_use limit 1) cu_step ua_New" and ?c = "Coro_New Cu_Get 0 ''Get'' 0"
  let ?tk = "\<lambda>k. (\<lambda>_. ?c)((0, 0) := ?c\<lparr>co_ctx := k\<rparr>)"
  note defs = ua_New_def limit_def numeral_3_eq_3 Coro_New_def vec_get_def vec_set_def
  have "?run ua_New ((\<lambda>_. ?c)((0, 0) := ?c)) ([] @ [Invoke (0, 0) (int (fst (0 :: nat, 0 :: nat)))])"
    by (rule target_run.invoke [OF target_run.start]) (simp_all add: cu_calls_def depth_use_def thread_calls_def defs)
  then have 1: "?run ua_New (?tk (Cu_Get 0)) [Invoke (0, 0) 0]" by (simp add: Coro_New_def)
  have 2: "?run \<lparr>ua_used = [True, False, False], ua_done = [False, False, False]\<rparr> (?tk (Cu_CoFun 0)) [Invoke (0, 0) 0]"
    using target_run.yield [OF 1, of "(0, 0)" _ "Yield (Cu_CoFun 0)" "Cu_CoFun 0"] by (simp add: defs)
  have 3: "?run \<lparr>ua_used = [True, False, False], ua_done = [True, False, False]\<rparr> (?tk Cu_Count) [Invoke (0, 0) 0]"
    using target_run.yield [OF 2, of "(0, 0)" _ "Yield Cu_Count" Cu_Count] by (simp add: defs)
  show ?thesis using target_run.respond [OF 3, of "(0, 0)" _ "vw_opt None"] by (simp add: defs cu_sample_def)
qed

lemma cu_small_run:
  "case ltest_Run (\<lambda>_ fl. fl\<lparr>FLAGS_rounds := 1, FLAGS_switches := 0\<rparr>) (Some UniqueArgs_GetOptions) [] (cu_spec 20) of
     Inl _ \<Rightarrow> False | Inr (code, h) \<Rightarrow> code = 0"
  by code_simp

section \<open>Properties\<close>

text \<open>
  C22. The coroutine target with unique arguments is right as it is tested: when each of three threads calls \<open>Get\<close> once,
  every history is linearizable and accepted under any scheduler, although a call may take effect in a slice of another
  one; and the program, from \<open>main\<close> on, with the options of the specification and any command line that sets the
  numbers of rounds and switches, does not exit with a report. With more calls the target is not linearizable: a
  round of the random strategy with six calls is reported.
\<close>

theorem counique_args_correct:
  assumes flags: "\<And>fl. ParseCommandLineFlags argv fl = fl\<lparr>FLAGS_rounds := n, FLAGS_switches := k\<rparr>"
  shows "(target_run cu_calls (depth_use limit 1) (object_step counique_step) ua_New x tk h
      \<longrightarrow> linearizable UniqueArgs_checker tk h \<and> Check_recursive UniqueArgs_checker tk h = Inr True)
    \<and> (ltest_Run ParseCommandLineFlags (Some UniqueArgs_GetOptions) argv (cu_spec fuel) = Inr (code, r) \<longrightarrow> code = 0 \<and> r = None)
    \<and> reported cu_round"
proof (intro conjI impI)
  show "linearizable UniqueArgs_checker tk h" "Check_recursive UniqueArgs_checker tk h = Inr True"
    if "target_run cu_calls (depth_use limit 1) (object_step counique_step) ua_New x tk h"
    using that by (rule counique.run_linearizable, rule counique.run_accepted)
  assume run: "ltest_Run ParseCommandLineFlags (Some UniqueArgs_GetOptions) argv (cu_spec fuel) = Inr (code, r)"
  let ?P = "cu_params (unat (of_flag n)) (unat (of_flag k))"
  obtain opts where "ParseOpts (ParseCommandLineFlags argv (SetOpts UniqueArgs_GetOptions default_flags)) = Inr opts"
    "MakeScheduler opts (cu_spec fuel) = Inr (Made_TLA ?P (TLAScheduler limit (target_world ua_New) ()))"
    using cu_MakeScheduler [OF flags] by blast
  with run obtain b q st where tla: "Tla_Run ?P (cu_env fuel) (TLAScheduler limit (target_world ua_New) ()) = Inr ((b, q), st)"
    and code: "(code, r) = (case q of Some h \<Rightarrow> (1, Some (snd h, tla_store (tla_threads st))) | None \<Rightarrow> (0, None))"
    by (fastforce simp: ltest_Run_def TrapRun_def cu_spec_def res_bind_Inr_iff split: option.splits)
  have "q = None"
    using tla counique.run_accepted cu_plain
    by (intro counique_tla.Tla_never_reports [of _ _ "cu_env fuel" "target_world ua_New"])
      (simp_all add: cu_params_def cu_env_def target_world_def limit_def)
  then show "code = 0" "r = None" using code by simp_all
next
  show "reported cu_round" by (rule cu_reported)
qed

theorem counique_args_correct_witness:
  "linearizable UniqueArgs_checker cu_sample [Invoke (0, 0) 0, Response (0, 0) (vw_opt None) 0]
    \<and> ltest_Run (\<lambda>_ fl. fl\<lparr>FLAGS_rounds := 1, FLAGS_switches := 0\<rparr>) (Some UniqueArgs_GetOptions) [] (cu_spec 20) = Inr (0, None)"
proof -
  let ?parse = "\<lambda>_ fl. fl\<lparr>FLAGS_rounds := 1, FLAGS_switches := 0\<rparr>"
  obtain code r where "ltest_Run ?parse (Some UniqueArgs_GetOptions) [] (cu_spec 20) = Inr (code, r)"
    using cu_small_run by (auto split: sum.splits prod.splits)
  then show ?thesis using counique_args_correct [of ?parse "[]" 0 1 _ cu_sample _ 20 code r] cu_sample_run by auto
qed

end
