(* ===== verification/Mutexed_Register.thy ===== *)
theory Mutexed_Register
  imports Register_Targets Futex_Mutex
begin

text \<open>
  Model of \<open>verifying/blocking/mutexed_register.cpp\<close>: a register whose methods hold a \<open>std::mutex\<close> through a guard of folly. The
  mutex is code of a library and enters as a parameter: a machine with a position where \<open>lock\<close> begins and one where \<open>unlock\<close>
  begins. The guard locks when it is made and unlocks when the method returns.
\<close>

declare split_paired_All [simp del] split_paired_Ex [simp del]

section \<open>The target\<close>

record 'm mutexed_register =
  mr_x :: int
  mr_m :: 'm

text \<open>
  Positions: in the constructor of the guard (of \<open>add\<close> or of \<open>get\<close>), at the accesses to \<open>x_\<close>, and in the destructor of
  the guard, with the value that is returned (\<open>None\<close> for \<open>void\<close>).
\<close>

datatype 'p mr_pc = Mr_Lock bool 'p | Mr_Add_Load | Mr_Add_Store int | Mr_Get_Load | Mr_Unlock "int option" 'p

definition mr_answer :: "int option \<Rightarrow> value_wrapper" where
  "mr_answer r = (case r of None \<Rightarrow> void_v | Some v \<Rightarrow> vw_int v)"

fun mutexed_step :: "('m, 'p) target_step \<Rightarrow> 'p \<Rightarrow> ('m mutexed_register, 'p mr_pc) target_step" where
  "mutexed_step M unlock (Mr_Lock add p) r = res_bind (M p (mr_m r)) (\<lambda>(m, e). Inr (r\<lparr>mr_m := m\<rparr>, case e of
       Yield k \<Rightarrow> Yield (Mr_Lock add k) | Futex_Wait k a v \<Rightarrow> Futex_Wait (Mr_Lock add k) a v
     | Return _ \<Rightarrow> Yield (if add then Mr_Add_Load else Mr_Get_Load)))"
| "mutexed_step M unlock Mr_Add_Load r = Inr (r, Yield (Mr_Add_Store (mr_x r)))"
| "mutexed_step M unlock (Mr_Add_Store v) r = Inr (r\<lparr>mr_x := v + 1\<rparr>, Yield (Mr_Unlock None unlock))"
| "mutexed_step M unlock Mr_Get_Load r = Inr (r, Yield (Mr_Unlock (Some (mr_x r)) unlock))"
| "mutexed_step M unlock (Mr_Unlock ret p) r = res_bind (M p (mr_m r)) (\<lambda>(m, e). Inr (r\<lparr>mr_m := m\<rparr>, case e of
       Yield k \<Rightarrow> Yield (Mr_Unlock ret k) | Futex_Wait k a v \<Rightarrow> Futex_Wait (Mr_Unlock ret k) a v
     | Return _ \<Rightarrow> Return (mr_answer ret)))"

definition mutexed_calls :: "'p \<Rightarrow> (unit, 'p mr_pc) target_call set" where
  "mutexed_calls lock = {(''add'', (), Mr_Lock True lock), (''get'', (), Mr_Lock False lock)}"

definition mutexed_builders :: "'p \<Rightarrow> ('m mutexed_register, unit, 'p mr_pc) task_builder list" where
  "mutexed_builders lock = [target_builder ''add'' (\<lambda>_. Mr_Lock True lock) (\<lambda>_. ()), target_builder ''get'' (\<lambda>_. Mr_Lock False lock) (\<lambda>_. ())]"

text \<open>\<open>Reset\<close> runs between rounds, when the mutex is free: locking and unlocking it leaves it as it is.\<close>

definition Mutexed_Reset :: "'m mutexed_register \<Rightarrow> 'm mutexed_register" where
  "Mutexed_Reset r = r\<lparr>mr_x := 0\<rparr>"

section \<open>What a mutex promises\<close>

text \<open>
  \<open>lock\<close> returns to its caller only as the owner, it becomes the owner only when there is none, and the owner stays until it
  unlocks. \<open>lock_pos b p\<close> holds of the positions of a call of \<open>lock\<close> that has taken the mutex (\<open>b\<close>) or not yet, \<open>unlock_pos b p\<close> of those
  of a call of \<open>unlock\<close> that has given it back or not yet.
\<close>

locale std_mutex =
  fixes M :: "('m, 'p) target_step"
    and lock unlock :: 'p
    and m0 :: 'm
    and ok held :: "'m \<Rightarrow> bool"
    and lock_pos unlock_pos :: "bool \<Rightarrow> 'p \<Rightarrow> bool"
  assumes fresh: "ok m0" "\<not> held m0"
    and begins: "lock_pos False lock" "unlock_pos False unlock"
    and lock_slice: "\<lbrakk>ok m; lock_pos b p; b \<longrightarrow> held m; M p m = Inr (m', e)\<rbrakk> \<Longrightarrow> ok m'
      \<and> (case e of Return v \<Rightarrow> b \<and> held m' = held m
         | _ \<Rightarrow> \<forall>k. goes_on e k \<longrightarrow> lock_pos b k \<and> held m' = held m \<or> lock_pos True k \<and> \<not> b \<and> \<not> held m \<and> held m')"
    and unlock_slice: "\<lbrakk>ok m; unlock_pos b p; b \<or> held m; M p m = Inr (m', e)\<rbrakk> \<Longrightarrow> ok m'
      \<and> (case e of Return v \<Rightarrow> b \<and> held m' = held m
         | _ \<Rightarrow> \<forall>k. goes_on e k \<longrightarrow> unlock_pos b k \<and> held m' = held m \<or> unlock_pos True k \<and> \<not> b \<and> held m \<and> \<not> held m')"
begin

text \<open>A call with the value of the register, and whether its thread owns the mutex.\<close>

definition mr_at :: "int \<Rightarrow> string \<Rightarrow> 'p mr_pc \<Rightarrow> value_wrapper option \<Rightarrow> bool \<Rightarrow> bool" where
  "mr_at x nm c l h \<longleftrightarrow> (case c of
       Mr_Lock add p \<Rightarrow> nm = (if add then ''add'' else ''get'') \<and> l = None \<and> lock_pos h p
     | Mr_Add_Load \<Rightarrow> nm = ''add'' \<and> l = None \<and> h
     | Mr_Add_Store v \<Rightarrow> nm = ''add'' \<and> l = None \<and> h \<and> v = x
     | Mr_Get_Load \<Rightarrow> nm = ''get'' \<and> l = None \<and> h
     | Mr_Unlock ret p \<Rightarrow> l = Some (mr_answer ret) \<and> unlock_pos (\<not> h) p)"

definition mr_owner :: "bool \<Rightarrow> (nat \<Rightarrow> bool) \<Rightarrow> (unit, 'p mr_pc) active \<Rightarrow> bool" where
  "mr_owner b H L \<longleftrightarrow> (b \<longleftrightarrow> (\<exists>t. H t)) \<and> (\<forall>t u. H t \<longrightarrow> H u \<longrightarrow> t = u) \<and> (\<forall>t. H t \<longrightarrow> L t \<noteq> None)"

definition mr_inv :: "'m mutexed_register \<Rightarrow> linear_register \<Rightarrow> (nat \<Rightarrow> string list) \<Rightarrow> (unit, 'p mr_pc) active \<Rightarrow> bool" where
  "mr_inv r s N L \<longleftrightarrow> reg_x s = mr_x r \<and> ok (mr_m r) \<and> (\<exists>H. mr_owner (held (mr_m r)) H L
     \<and> (\<forall>t nm a c l. L t = Some (nm, a, c, l) \<longrightarrow> mr_at (mr_x r) nm c l (H t)))"

lemma mr_invI:
  assumes "reg_x s = mr_x r" "ok (mr_m r)" "mr_owner (held (mr_m r)) H L"
    "\<And>t nm a c l. L t = Some (nm, a, c, l) \<Longrightarrow> mr_at (mr_x r) nm c l (H t)"
  shows "mr_inv r s N L"
  unfolding mr_inv_def using assms by blast

text \<open>The thread \<open>t\<close> goes on at \<open>k\<close>, as the owner or not.\<close>

lemma mr_inv_upd:
  assumes own: "mr_owner (held (mr_m r)) H L" and at: "\<And>t nm a c l. L t = Some (nm, a, c, l) \<Longrightarrow> mr_at (mr_x r) nm c l (H t)"
    and L: "L t = Some (nm, a, c, l)" and h: "h = H t \<and> held m' = held (mr_m r) \<or> h \<and> \<not> held (mr_m r) \<and> held m' \<or> \<not> h \<and> H t \<and> \<not> held m'"
    and x: "x' = mr_x r \<or> H t" and new: "mr_at x' nm k l' h" and s: "reg_x s' = x'" "ok m'" and r: "mr_x r' = x'" "mr_m r' = m'"
  shows "mr_inv r' s' N (L(t \<mapsto> (nm, a, k, l')))"
proof -
  have "mr_owner (held m') (H(t := h)) (L(t \<mapsto> (nm, a, k, l')))"
    using own h L unfolding mr_owner_def by (auto split: if_splits)
  moreover have "mr_at x' nm' c' l1 ((H(t := h)) u)" if "(L(t \<mapsto> (nm, a, k, l'))) u = Some (nm', a', c', l1)" for u nm' a' c' l1
  proof (cases "u = t")
    case False
    then have "mr_at (mr_x r) nm' c' l1 (H u)" using at that by simp
    moreover have "x' = mr_x r \<or> \<not> H u" using x own False unfolding mr_owner_def by blast
    ultimately show ?thesis using False by (auto simp: mr_at_def split: mr_pc.splits)
  qed (use that new in auto)
  ultimately show ?thesis using s r by (intro mr_invI [of _ r' "H(t := h)"]) simp_all
qed

lemma mr_inv_return:
  assumes own: "mr_owner (held (mr_m r)) H L" and at: "\<And>t nm a c l. L t = Some (nm, a, c, l) \<Longrightarrow> mr_at (mr_x r) nm c l (H t)"
    and h: "\<not> H t" "held m' = held (mr_m r)" and s: "reg_x s = mr_x r" "ok m'" and r: "mr_x r' = mr_x r" "mr_m r' = m'"
  shows "mr_inv r' s N (L(t := None))"
proof -
  have "mr_owner (held m') H (L(t := None))" using own h unfolding mr_owner_def by auto
  moreover have "mr_at (mr_x r) nm' c' l1 (H u)" if "(L(t := None)) u = Some (nm', a', c', l1)" for u nm' a' c' l1
    using that at by (auto split: if_splits)
  ultimately show ?thesis using s r by (intro mr_invI [of _ r' H]) simp_all
qed

lemma mr_inv_step:
  assumes inv: "mr_inv r s N L" and L: "L t = Some (nm, a, c, l)" and st: "mutexed_step M unlock c r = Inr (r', e)"
  shows "\<exists>s' l'. takes_effect Register_checker nm a s l s' l' \<and> (case e of
      Yield k \<Rightarrow> mr_inv r' s' N (L(t \<mapsto> (nm, a, k, l')))
    | Futex_Wait k _ _ \<Rightarrow> mr_inv r' s' N (L(t \<mapsto> (nm, a, k, l')))
    | Return ret \<Rightarrow> (\<exists>v. l' = Some v \<and> vw_eq v ret = Inr True) \<and> mr_inv r' s' N (L(t := None)))" (is "\<exists>s' l'. ?P s' l'")
proof -
  from inv obtain H where x: "reg_x s = mr_x r" "ok (mr_m r)" and own: "mr_owner (held (mr_m r)) H L"
    and at: "\<And>t nm a c l. L t = Some (nm, a, c, l) \<Longrightarrow> mr_at (mr_x r) nm c l (H t)" unfolding mr_inv_def by blast
  note upd = mr_inv_upd [OF own at L] and pos = at [OF L]
  have hold: "H t \<longrightarrow> held (mr_m r)" using own unfolding mr_owner_def by blast
  show ?thesis
  proof (cases c)
    case (Mr_Lock add p)
    then have p: "nm = (if add then ''add'' else ''get'')" "l = None" "lock_pos (H t) p" using pos by (simp_all add: mr_at_def)
    from st Mr_Lock obtain m' e' where m: "M p (mr_m r) = Inr (m', e')" and r': "r' = r\<lparr>mr_m := m'\<rparr>"
      and e: "e = (case e' of Yield k \<Rightarrow> Yield (Mr_Lock add k) | Futex_Wait k a v \<Rightarrow> Futex_Wait (Mr_Lock add k) a v
        | Return _ \<Rightarrow> Yield (if add then Mr_Add_Load else Mr_Get_Load))" by (auto simp: res_bind_Inr_iff)
    note law = lock_slice [OF x(2) p(3) hold m]
    have on: "mr_inv r' s N (L(t \<mapsto> (nm, a, Mr_Lock add k, l)))" if g: "goes_on e' k" for k
    proof -
      consider "lock_pos (H t) k" "held m' = held (mr_m r)" | "lock_pos True k" "\<not> held (mr_m r)" "held m'"
        using law g by (cases e') auto
      then show ?thesis
        using law p x(1) r' by cases (rule upd [where h = "H t" and m' = m' and x' = "mr_x r"] upd [where h = True and m' = m' and x' = "mr_x r"];
            force simp: mr_at_def)+
    qed
    have "?P s l"
    proof (cases e')
      case (Return v)
      then have "mr_inv r' s N (L(t \<mapsto> (nm, a, if add then Mr_Add_Load else Mr_Get_Load, l)))"
        using law p x(1) r' by (intro upd [where h = "H t" and m' = m' and x' = "mr_x r"]) (simp_all add: mr_at_def)
      then show ?thesis using Return e by simp
    next
      case (Yield k)
      then show ?thesis using on [of k] e by simp
    next
      case (Futex_Wait k b v)
      then show ?thesis using on [of k] e by simp
    qed
    then show ?thesis by blast
  next
    case Mr_Add_Load
    then have "mr_inv r' s N (L(t \<mapsto> (nm, a, Mr_Add_Store (mr_x r), l)))"
      using pos x st by (intro upd [where h = "H t" and m' = "mr_m r" and x' = "mr_x r"]) (auto simp: mr_at_def)
    then have "?P s l" using st Mr_Add_Load by auto
    then show ?thesis by blast
  next
    case (Mr_Add_Store v)
    then have p: "nm = ''add''" "l = None" "H t" "v = mr_x r" using pos by (simp_all add: mr_at_def)
    have "mr_inv r' (Register_add s) N (L(t \<mapsto> (nm, a, Mr_Unlock None unlock, Some void_v)))"
      using p x st Mr_Add_Store begins by (intro upd [where h = "H t" and m' = "mr_m r" and x' = "mr_x r + 1"]) (auto simp: mr_at_def mr_answer_def Register_add_def)
    moreover have "takes_effect Register_checker nm a s l (Register_add s) (Some void_v)"
      unfolding p by (rule takes_effectI) (simp_all add: method_tables)
    ultimately have "?P (Register_add s) (Some void_v)" using st Mr_Add_Store by auto
    then show ?thesis by blast
  next
    case Mr_Get_Load
    then have p: "nm = ''get''" "l = None" "H t" using pos by (simp_all add: mr_at_def)
    have "mr_inv r' s N (L(t \<mapsto> (nm, a, Mr_Unlock (Some (mr_x r)) unlock, Some (vw_int (mr_x r)))))"
      using p x st Mr_Get_Load begins by (intro upd [where h = "H t" and m' = "mr_m r" and x' = "mr_x r"]) (auto simp: mr_at_def mr_answer_def)
    moreover have "takes_effect Register_checker nm a s l s (Some (vw_int (mr_x r)))"
      unfolding p x(1) [symmetric] by (rule takes_effectI) (simp_all add: method_tables Register_get_def)
    ultimately have "?P s (Some (vw_int (mr_x r)))" using st Mr_Get_Load by auto
    then show ?thesis by blast
  next
    case (Mr_Unlock ret p)
    then have p: "l = Some (mr_answer ret)" "unlock_pos (\<not> H t) p" using pos by (simp_all add: mr_at_def)
    from st Mr_Unlock obtain m' e' where m: "M p (mr_m r) = Inr (m', e')" and r': "r' = r\<lparr>mr_m := m'\<rparr>"
      and e: "e = (case e' of Yield k \<Rightarrow> Yield (Mr_Unlock ret k) | Futex_Wait k a v \<Rightarrow> Futex_Wait (Mr_Unlock ret k) a v
        | Return _ \<Rightarrow> Return (mr_answer ret))" by (auto simp: res_bind_Inr_iff)
    have "\<not> H t \<or> held (mr_m r)" using hold by blast
    note law = unlock_slice [OF x(2) p(2) this m]
    have on: "mr_inv r' s N (L(t \<mapsto> (nm, a, Mr_Unlock ret k, l)))" if g: "goes_on e' k" for k
    proof -
      consider "unlock_pos (\<not> H t) k" "held m' = held (mr_m r)" | "unlock_pos True k" "H t" "\<not> held m'"
        using law g by (cases e') auto
      then show ?thesis
        using law p x(1) r' by cases (rule upd [where h = "H t" and m' = m' and x' = "mr_x r"] upd [where h = False and m' = m' and x' = "mr_x r"];
            force simp: mr_at_def)+
    qed
    have "?P s l"
    proof (cases e')
      case (Return v)
      then have "mr_inv r' s N (L(t := None))"
        using law x(1) r' by (intro mr_inv_return [OF own at]) simp_all
      then show ?thesis using Return e p(1) by (simp add: mr_answer_def split: option.splits)
    next
      case (Yield k)
      then show ?thesis using on [of k] e by simp
    next
      case (Futex_Wait k b v)
      then show ?thesis using on [of k] e by simp
    qed
    then show ?thesis by blast
  qed
qed

end

sublocale std_mutex \<subseteq> mutexed:
  linearization_points Register_checker "mutexed_calls lock" any_use "mutexed_step M unlock" "\<lparr>mr_x = 0, mr_m = m0\<rparr>" mr_inv
proof
  show "typed_spec Register_checker" by (rule Register_typed)
  show "specification_methods Register_checker nm \<noteq> None" if "(nm, a, c) \<in> mutexed_calls lock" for nm a c
    using that by (auto simp: mutexed_calls_def method_tables)
  show "mr_inv \<lparr>mr_x = 0, mr_m = m0\<rparr> (first_state Register_checker) (\<lambda>_. []) Map.empty"
    using fresh by (intro mr_invI [of _ _ "\<lambda>_. False"]) (simp_all add: method_tables mr_owner_def)
  show "mr_inv r s (N(t := N t @ [nm])) (L(t \<mapsto> (nm, a, c, None)))"
    if inv: "mr_inv r s N L" "L t = None" "(nm, a, c) \<in> mutexed_calls lock" for r s N L t nm a c
  proof -
    from inv(1) obtain H where H: "reg_x s = mr_x r" "ok (mr_m r)" "mr_owner (held (mr_m r)) H L"
      "\<And>t nm a c l. L t = Some (nm, a, c, l) \<Longrightarrow> mr_at (mr_x r) nm c l (H t)" unfolding mr_inv_def by blast
    then have n: "\<not> H t" using inv(2) unfolding mr_owner_def by blast
    have "mr_owner (held (mr_m r)) H (L(t \<mapsto> (nm, a, c, None)))" using H(3) unfolding mr_owner_def by auto
    moreover have "mr_at (mr_x r) nm c None False" using inv(3) begins by (auto simp: mutexed_calls_def mr_at_def)
    ultimately show ?thesis using H n by (intro mr_invI [of _ _ H]) (auto split: if_splits)
  qed
qed (rule mr_inv_step)

context std_mutex
begin

lemma mutexed_accepted:
  assumes "target_run (mutexed_calls lock) any_use (mutexed_step M unlock) \<lparr>mr_x = 0, mr_m = m0\<rparr> x tk h"
  shows "linearizable Register_checker tk h" "Check_recursive Register_checker tk h = Inr True"
  using assms by (rule mutexed.run_linearizable, rule mutexed.run_accepted)

end

section \<open>The futex mutex as such a mutex\<close>

text \<open>What the register relies on holds of the mutex of \<open>simple_mutex.cpp\<close>.\<close>

definition mx_lock_pos :: "bool \<Rightarrow> mx_pc \<Rightarrow> bool" where
  "mx_lock_pos b p \<longleftrightarrow> (if b then p = Mx_Ret else p \<in> {Mx_Lock, Mx_Loop, Mx_Contend, Mx_Load, Mx_Wait})"

definition mx_unlock_pos :: "bool \<Rightarrow> mx_pc \<Rightarrow> bool" where
  "mx_unlock_pos b p \<longleftrightarrow> (if b then p \<in> {Mx_Wake, Mx_Ret} else p \<in> {Mx_Unlock, Mx_Store})"

interpretation futex: std_mutex simple_mutex_step Mx_Lock Mx_Unlock 0 "\<lambda>x. x \<in> {0, 1, 2}" "\<lambda>x. x \<noteq> 0" mx_lock_pos mx_unlock_pos
proof
  note defs = mx_lock_pos_def mx_unlock_pos_def simple_mutex_step_def CompareExchange_def
  show "(0 :: 32 word) \<in> {0, 1, 2}" "\<not> (0 :: 32 word) \<noteq> 0" "mx_lock_pos False Mx_Lock" "mx_unlock_pos False Mx_Unlock"
    by (simp_all add: defs)
  fix m m' :: "32 word" and b p e
  assume m: "m \<in> {0, 1, 2}" and st: "simple_mutex_step p m = Inr (m', e)"
  show "m' \<in> {0, 1, 2} \<and> (case e of Return v \<Rightarrow> b \<and> (m' \<noteq> 0) = (m \<noteq> 0)
      | _ \<Rightarrow> \<forall>k. goes_on e k \<longrightarrow> mx_lock_pos b k \<and> (m' \<noteq> 0) = (m \<noteq> 0) \<or> mx_lock_pos True k \<and> \<not> b \<and> \<not> m \<noteq> 0 \<and> m' \<noteq> 0)"
    if "mx_lock_pos b p" "b \<longrightarrow> m \<noteq> 0" using that m st by (cases p) (auto simp: defs split: if_splits)
  show "m' \<in> {0, 1, 2} \<and> (case e of Return v \<Rightarrow> b \<and> (m' \<noteq> 0) = (m \<noteq> 0)
      | _ \<Rightarrow> \<forall>k. goes_on e k \<longrightarrow> mx_unlock_pos b k \<and> (m' \<noteq> 0) = (m \<noteq> 0) \<or> mx_unlock_pos True k \<and> \<not> b \<and> m \<noteq> 0 \<and> \<not> m' \<noteq> 0)"
    if "mx_unlock_pos b p" "b \<or> m \<noteq> 0" using that m st by (cases p) (auto simp: defs split: if_splits)
qed

section \<open>A sample round\<close>

text \<open>The second call of \<open>add\<close> waits on the futex of the mutex until the first one has unlocked it; then \<open>get\<close> returns 2.\<close>

definition mutexed_round :: "(both_histories option \<times> (32 word mutexed_register, unit, mx_pc mr_pc, unit, script) rnd) res" where
  "mutexed_round = scripted_round (mutexed_step simple_mutex_step Mx_Unlock) (\<lambda>r a. sint (mr_m r)) Mutexed_Reset DefaultStrategyVerifier ()
     \<lparr>mr_x = 0, mr_m = 0\<rparr> (mutexed_builders Mx_Lock) (Check_recursive Register_checker) 2 3
     ([[0, 1], [0, 1], [1, 0]], [0, 0, 1, 1, 1, 1, 1] @ replicate 30 0)"

lemma mutexed_unreported: "unreported mutexed_round"
  by code_simp

lemma mutexed_builders_ok: "builders_ok (mutexed_calls lock) (set (mutexed_builders lock))"
  by (rule builders_ok_target) (auto simp: mutexed_builders_def mutexed_calls_def)

lemma mutexed_never_fails:
  assumes "\<And>p m. \<exists>y. M p m = Inr y"
  shows "never_fails calls allowed (mutexed_step M unlock) o0"
proof (rule never_failsI)
  show "\<exists>y e. mutexed_step M unlock c r = Inr (y, e)" for c r
  proof (cases c)
    case (Mr_Lock add p)
    obtain m e where "M p (mr_m r) = Inr (m, e)" using assms [of p "mr_m r"] by auto
    then show ?thesis using Mr_Lock by simp
  next
    case (Mr_Unlock ret p)
    obtain m e where "M p (mr_m r) = Inr (m, e)" using assms [of p "mr_m r"] by auto
    then show ?thesis using Mr_Unlock by simp
  qed simp_all
qed

lemma simple_mutex_slices: "\<exists>y. simple_mutex_step p m = Inr y"
  by (cases p) (simp_all add: simple_mutex_step_def CompareExchange_def)

section \<open>Properties\<close>

text \<open>
  C23. The register with a mutex is right for every mutex that keeps its promise: when \<open>lock\<close> returns only to the one
  owner and the owner stays until it unlocks, every history of the register is linearizable under any scheduler and the
  checker accepts it, and no round of the round robin, the random and the PCT strategy ends with a report.
\<close>

theorem mutexed_register_correct:
  assumes mutex: "std_mutex M lock unlock m0 ok held lock_pos unlock_pos" and total: "\<And>p m. \<exists>y. M p m = Inr y"
    and E: "implements (env_body E) (mutexed_step M unlock)" "random_ok (env_random E)"
  shows "(target_run (mutexed_calls lock) any_use (mutexed_step M unlock) \<lparr>mr_x = 0, mr_m = m0\<rparr> x tk h
        \<longrightarrow> linearizable Register_checker tk h \<and> Check_recursive Register_checker tk h = Inr True)
    \<and> (round_result (mutexed_calls lock) \<lparr>mr_x = 0, mr_m = m0\<rparr> E (Check_recursive Register_checker) max_tasks res \<longrightarrow> res = None)"
proof (intro conjI impI)
  note run = std_mutex.mutexed_accepted [OF mutex]
  show "linearizable Register_checker tk h" "Check_recursive Register_checker tk h = Inr True"
    if "target_run (mutexed_calls lock) any_use (mutexed_step M unlock) \<lparr>mr_x = 0, mr_m = m0\<rparr> x tk h"
    using that by (rule run)+
  show "res = None" if "round_result (mutexed_calls lock) \<lparr>mr_x = 0, mr_m = m0\<rparr> E (Check_recursive Register_checker) max_tasks res"
    by (rule no_strategy_reports [OF run(2) mutexed_never_fails [OF total] E that])
qed

text \<open>The witness is the register with the mutex of \<open>simple_mutex.cpp\<close>.\<close>

theorem mutexed_register_correct_witness:
  "\<exists>st'. mutexed_round = Inr (None, st')"
proof -
  obtain res st' where a: "mutexed_round = Inr (res, st')" using unreportedD [OF mutexed_unreported] by blast
  note r = scripted_round_result [OF a [unfolded mutexed_round_def] mutexed_builders_ok]
  have "res = None" using r
    by (intro mp [OF conjunct2 [OF mutexed_register_correct [OF futex.std_mutex_axioms simple_mutex_slices]]])
      (simp_all add: implements_step_body script_random_ok)
  then show ?thesis using a by blast
qed

end
