(* ===== verification/Spec_Contracts.thy ===== *)
theory Spec_Contracts
  imports Seq_Specs
begin

text \<open>
  What the sequential specifications of \<open>verifying/specs/\<close> promise, stated without their states: the answer of a call is
  a function of the calls before it. The list of these calls begins with the latest one; calls of methods that a
  specification does not have are ignored.
\<close>

section \<open>Calls and answers\<close>

type_synonym 'a calls = "(string \<times> 'a) list"

fun state_after :: "('a, 's) linearizability_checker \<Rightarrow> 'a calls \<Rightarrow> 's" where
  "state_after C [] = first_state C"
| "state_after C ((nm, a) # past) = (case specification_methods C nm of
     None \<Rightarrow> state_after C past | Some m \<Rightarrow> fst (m (state_after C past) a))"

definition answer_after :: "('a, 's) linearizability_checker \<Rightarrow> 'a calls \<Rightarrow> string \<Rightarrow> 'a \<Rightarrow> value_wrapper option" where
  "answer_after C past nm a = map_option (\<lambda>m. snd (m (state_after C past) a)) (specification_methods C nm)"

definition calls_of :: "string \<Rightarrow> 'a calls \<Rightarrow> 'a list" where
  "calls_of nm past = map snd (filter (\<lambda>c. fst c = nm) past)"

lemma calls_of_simps [simp]:
  "calls_of nm [] = []" "calls_of nm ((nm', a) # past) = (if nm' = nm then a # calls_of nm past else calls_of nm past)"
  by (simp_all add: calls_of_def)

section \<open>The queues\<close>

text \<open>How many calls of \<open>Pop\<close> have found an element: the next one takes the element that was pushed after these.\<close>

fun served :: "'a calls \<Rightarrow> nat" where
  "served [] = 0"
| "served ((nm, a) # past) =
     (if nm = ''Pop'' \<and> served past < length (calls_of ''Push'' past) then Suc (served past) else served past)"

lemma served_le: "served past \<le> length (calls_of ''Push'' past)"
  by (induction past rule: served.induct) auto

lemma tl_drop_nth: "k < length xs \<Longrightarrow> drop k xs = xs ! k # drop (Suc k) xs"
  by (rule Cons_nth_drop_Suc [symmetric])

lemma queue_state:
  "q_deq (state_after (Queue_checker value_of) past) = drop (served past) (rev (map value_of (calls_of ''Push'' past)))"
proof (induction past)
  case (Cons c past)
  obtain nm a where c: "c = (nm, a)" by (cases c)
  let ?xs = "rev (map value_of (calls_of ''Push'' past))"
  have l: "length ?xs = length (calls_of ''Push'' past)" by simp
  consider "nm = ''Push''" | "nm = ''Pop''" "served past < length ?xs" | "nm = ''Pop''" "\<not> served past < length ?xs"
    | "nm \<noteq> ''Push''" "nm \<noteq> ''Pop''" by blast
  then show ?case
  proof cases
    case 1
    then show ?thesis using Cons served_le [of past]
      by (simp add: c Queue_checker_def Queue_GetMethods_def Queue_Push_def)
  next
    case 2
    then show ?thesis using Cons tl_drop_nth [of "served past" ?xs]
      by (simp add: c Queue_checker_def Queue_GetMethods_def Queue_Pop_def)
  next
    case 3
    then show ?thesis using Cons by (simp add: c Queue_checker_def Queue_GetMethods_def Queue_Pop_def)
  next
    case 4
    then show ?thesis using Cons by (simp add: c Queue_checker_def Queue_GetMethods_def)
  qed
qed (simp add: Queue_checker_def)

text \<open>The bounded queue: the values that were accepted, the latest one first, and the number of those that were popped.\<close>

fun accepted_served :: "('a \<Rightarrow> int) \<Rightarrow> 'a calls \<Rightarrow> int list \<times> nat" where
  "accepted_served value_of [] = ([], 0)"
| "accepted_served value_of ((nm, a) # past) = (case accepted_served value_of past of (vs, d) \<Rightarrow>
     if nm = ''Push'' \<and> length vs < d + 2 then (value_of a # vs, d)
     else if nm = ''Pop'' \<and> d < length vs then (vs, Suc d) else (vs, d))"

lemma bounded_state:
  "case accepted_served value_of past of (vs, d) \<Rightarrow> d \<le> length vs
     \<and> q_deq (state_after (Bounded_checker value_of) past) = drop d (rev vs)"
proof (induction past)
  case (Cons c past)
  obtain nm a where c: "c = (nm, a)" by (cases c)
  obtain vs d where v: "accepted_served value_of past = (vs, d)" by (cases "accepted_served value_of past")
  then have i: "d \<le> length vs" "q_deq (state_after (Bounded_checker value_of) past) = drop d (rev vs)" using Cons by simp_all
  consider "nm = ''Push''" | "nm = ''Pop''" "d < length vs" | "nm = ''Pop''" "\<not> d < length vs"
    | "nm \<noteq> ''Push''" "nm \<noteq> ''Pop''" by blast
  then show ?case
  proof cases
    case 1
    then show ?thesis using i by (auto simp: c v Bounded_checker_def Bounded_GetMethods_def Bounded_Push_def bounded_size_def)
  next
    case 2
    then show ?thesis using i tl_drop_nth [of d "rev vs"] by (simp add: c v Bounded_checker_def Bounded_GetMethods_def Bounded_Pop_def)
  next
    case 3
    then show ?thesis using i by (simp add: c v Bounded_checker_def Bounded_GetMethods_def Bounded_Pop_def)
  next
    case 4
    then show ?thesis using i by (simp add: c v Bounded_checker_def Bounded_GetMethods_def)
  qed
qed (simp add: Bounded_checker_def)

section \<open>The stack\<close>

text \<open>Going back from the latest call, the push that is left when every \<open>Pop\<close> takes away one; \<open>k\<close> are still to be taken away.\<close>

fun unpopped :: "('a \<Rightarrow> int) \<Rightarrow> nat \<Rightarrow> 'a calls \<Rightarrow> int option" where
  "unpopped value_of k [] = None"
| "unpopped value_of k ((nm, a) # past) =
     (if nm = ''Push'' then (case k of 0 \<Rightarrow> Some (value_of a) | Suc k \<Rightarrow> unpopped value_of k past)
      else if nm = ''Pop'' then unpopped value_of (Suc k) past else unpopped value_of k past)"

lemma stack_state:
  "unpopped value_of k past = (let s = s_deq (state_after (Stack_checker value_of) past) in
     if k < length s then Some (rev s ! k) else None)"
proof (induction past arbitrary: k)
  case (Cons c past)
  obtain nm a where c: "c = (nm, a)" by (cases c)
  let ?s = "s_deq (state_after (Stack_checker value_of) past)"
  consider "nm = ''Push''" | "nm = ''Pop''" "?s = []" | xs x where "nm = ''Pop''" "?s = xs @ [x]"
    | "nm \<noteq> ''Push''" "nm \<noteq> ''Pop''" by (cases ?s rule: rev_cases) blast+
  then show ?case
  proof cases
    case 1
    then show ?thesis using Cons by (cases k) (simp_all add: c Stack_checker_def Stack_GetMethods_def Stack_Push_def)
  next
    case 2
    then show ?thesis using Cons by (simp add: c Stack_checker_def Stack_GetMethods_def Stack_Pop_def)
  next
    case 3
    then show ?thesis using Cons by (simp add: c Stack_checker_def Stack_GetMethods_def Stack_Pop_def)
  next
    case 4
    then show ?thesis using Cons by (simp add: c Stack_checker_def Stack_GetMethods_def)
  qed
qed (simp add: Stack_checker_def)

section \<open>The set and the register\<close>

text \<open>A value is present when the latest call with it was \<open>Insert\<close>.\<close>

fun present :: "('a \<Rightarrow> int) \<Rightarrow> int \<Rightarrow> 'a calls \<Rightarrow> bool" where
  "present value_of x [] = False"
| "present value_of x ((nm, a) # past) =
     (if value_of a = x \<and> (nm = ''Insert'' \<or> nm = ''Erase'') then nm = ''Insert'' else present value_of x past)"

lemma set_state: "x \<in> set_st (state_after (Set_checker value_of) past) \<longleftrightarrow> present value_of x past"
proof (induction past)
  case (Cons c past)
  then show ?case by (cases c) (auto simp: Set_checker_def Set_GetMethods_def Set_Insert_def Set_Erase_def)
qed (simp add: Set_checker_def)

lemma register_state: "reg_x (state_after Register_checker past) = int (length (calls_of ''add'' past))"
proof (induction past)
  case (Cons c past)
  then show ?case by (cases c) (auto simp: Register_checker_def Register_GetMethods_def Register_add_def)
qed (simp add: Register_checker_def)

section \<open>The mutexes\<close>

text \<open>The mutex is locked when its latest call was \<open>Lock\<close>.\<close>

fun locked :: "'a calls \<Rightarrow> bool" where
  "locked [] = False"
| "locked ((nm, a) # past) = (if nm = ''Lock'' then True else if nm = ''Unlock'' then False else locked past)"

lemma mutex_state: "isLocked (state_after Mutex_checker past) = (if locked past then 1 else 0)"
proof (induction past)
  case (Cons c past)
  then show ?case by (cases c) (auto simp: Mutex_checker_def Mutex_GetMethods_def LinearMutex_Lock_def LinearMutex_Unlock_def)
qed (simp add: Mutex_checker_def)

text \<open>
  Whether there is a writer, and how many readers; \<open>None\<close> after a call of \<open>unlock\<close> without a writer or of \<open>unlock_shared\<close> without a
  reader.
\<close>

fun holders :: "'a calls \<Rightarrow> (bool \<times> nat) option" where
  "holders [] = Some (False, 0)"
| "holders ((nm, a) # past) = (case holders past of None \<Rightarrow> None | Some (writer, readers) \<Rightarrow>
     if nm = ''lock'' then Some (if readers = 0 then (True, 0) else (writer, readers))
     else if nm = ''lock_shared'' then Some (if writer then (True, readers) else (False, Suc readers))
     else if nm = ''unlock'' then if writer then Some (False, 0) else None
     else if nm = ''unlock_shared'' then if 0 < readers then Some (writer, readers - 1) else None
     else Some (writer, readers))"

lemma shared_state:
  "holders past = Some (w, r) \<Longrightarrow> (w \<longrightarrow> r = 0) \<and> locked_state (state_after Shared_checker past) = (if w then - 1 else int r)"
proof (induction past arbitrary: w r)
  case (Cons c past)
  obtain nm a where c: "c = (nm, a)" by (cases c)
  from Cons.prems obtain w' r' where h: "holders past = Some (w', r')" by (auto simp: c split: option.splits)
  note i = Cons.IH [OF h]
  consider "nm = ''lock''" | "nm = ''lock_shared''" | "nm = ''unlock''" | "nm = ''unlock_shared''"
    | "nm \<notin> {''lock'', ''lock_shared'', ''unlock'', ''unlock_shared''}" by blast
  then show ?case
    using i Cons.prems h
    by cases (auto simp: c Shared_checker_def Shared_GetMethods_def Shared_lock_def Shared_unlock_def Shared_lock_shared_def
        Shared_unlock_shared_def FREE_def WRITER_def READER_def of_nat_diff split: if_splits)
qed (auto simp: Shared_checker_def FREE_def)

section \<open>Unique arguments\<close>

lemma unique_state: "called (state_after UniqueArgs_checker past) = length (calls_of ''Get'' past) mod 3"
proof (induction past)
  case (Cons c past)
  then show ?case
    by (cases c) (auto simp: UniqueArgs_checker_def UniqueArgs_GetMethods_def UniqueArgs_Get_def limit_def Let_def mod_Suc)
qed (simp add: UniqueArgs_checker_def)

section \<open>Properties\<close>

text \<open>
  C40. The specifications answer as the abstract data types they stand for, after any calls. The queue is first in, first out: the
  \<open>n\<close>-th \<open>Pop\<close> that finds an element takes the \<open>n\<close>-th value pushed, and 0 is the answer when all are taken. The bounded
  queue accepts a value unless two are in it. The stack pops the latest push that no later \<open>Pop\<close> has taken. The
  set answers whether the latest call with the value was \<open>Insert\<close>. The register counts. The mutex refuses \<open>Lock\<close> when it is locked; the shared
  mutex admits a writer when there is nobody, and a reader when there is no writer, as long as only holders unlock. The third
  of three calls of \<open>Get\<close> is told so, and the specification of the deadlock target answers 0.
\<close>

theorem specifications_contracts:
  "answer_after (Queue_checker value_of) past ''Push'' a = Some void_v
   \<and> answer_after (Queue_checker value_of) past ''Pop'' a = Some (vw_int (if served past < length (calls_of ''Push'' past)
        then value_of (rev (calls_of ''Push'' past) ! served past) else 0))
   \<and> (case accepted_served value_of past of (vs, d) \<Rightarrow>
        answer_after (Bounded_checker value_of) past ''Push'' a = Some (vw_int (if length vs < d + 2 then 1 else 0))
        \<and> answer_after (Bounded_checker value_of) past ''Pop'' a = Some (vw_int (if d < length vs then rev vs ! d else 0)))
   \<and> answer_after (Stack_checker value_of) past ''Push'' a = Some void_v
   \<and> answer_after (Stack_checker value_of) past ''Pop'' a = Some (vw_int (case unpopped value_of 0 past of None \<Rightarrow> 0 | Some x \<Rightarrow> x))
   \<and> answer_after (Set_checker value_of) past ''Insert'' a = Some (vw_int (if present value_of (value_of a) past then 0 else 1))
   \<and> answer_after (Set_checker value_of) past ''Erase'' a = Some (vw_int (if present value_of (value_of a) past then 1 else 0))
   \<and> answer_after Register_checker past ''add'' a = Some void_v
   \<and> answer_after Register_checker past ''get'' a = Some (vw_int (int (length (calls_of ''add'' past))))
   \<and> answer_after Mutex_checker past ''Lock'' a = Some (vw_int (if locked past then 1 else 0))
   \<and> answer_after Mutex_checker past ''Unlock'' a = Some (vw_int 0)
   \<and> (case holders past of None \<Rightarrow> True | Some (writer, readers) \<Rightarrow>
        answer_after Shared_checker past ''lock'' a = Some (vw_int (if writer \<or> 0 < readers then 1 else 0))
        \<and> answer_after Shared_checker past ''lock_shared'' a = Some (vw_int (if writer then 1 else 0))
        \<and> answer_after Shared_checker past ''unlock'' a = Some (vw_int 0)
        \<and> answer_after Shared_checker past ''unlock_shared'' a = Some (vw_int 0))
   \<and> answer_after UniqueArgs_checker past ''Get'' a = Some (vw_opt (if length (calls_of ''Get'' past) mod 3 = 2 then Some 3 else None))
   \<and> answer_after Deadlock_checker past ''Lock'' a = Some (vw_int 0)"
proof (intro conjI)
  show "answer_after (Queue_checker value_of) past ''Pop'' a = Some (vw_int (if served past < length (calls_of ''Push'' past)
        then value_of (rev (calls_of ''Push'' past) ! served past) else 0))"
    using queue_state [of value_of past] tl_drop_nth [of "served past" "rev (map value_of (calls_of ''Push'' past))"]
    by (auto simp: answer_after_def Queue_checker_def Queue_GetMethods_def Queue_Pop_def rev_map split_def Let_def split: list.splits)
  show "case accepted_served value_of past of (vs, d) \<Rightarrow>
        answer_after (Bounded_checker value_of) past ''Push'' a = Some (vw_int (if length vs < d + 2 then 1 else 0))
        \<and> answer_after (Bounded_checker value_of) past ''Pop'' a = Some (vw_int (if d < length vs then rev vs ! d else 0))"
  proof (cases "accepted_served value_of past")
    case (Pair vs d)
    then show ?thesis using bounded_state [of value_of past] tl_drop_nth [of d "rev vs"]
      by (auto simp: answer_after_def Bounded_checker_def Bounded_GetMethods_def Bounded_Push_def Bounded_Pop_def bounded_size_def
          split_def Let_def split: list.splits)
  qed
  show "answer_after (Stack_checker value_of) past ''Pop'' a = Some (vw_int (case unpopped value_of 0 past of None \<Rightarrow> 0 | Some x \<Rightarrow> x))"
    using stack_state [of value_of 0 past]
    by (auto simp: answer_after_def Stack_checker_def Stack_GetMethods_def Stack_Pop_def Let_def split_def hd_rev hd_conv_nth [symmetric])
  show "answer_after (Set_checker value_of) past ''Insert'' a = Some (vw_int (if present value_of (value_of a) past then 0 else 1))"
    "answer_after (Set_checker value_of) past ''Erase'' a = Some (vw_int (if present value_of (value_of a) past then 1 else 0))"
    using set_state [of "value_of a" value_of past]
    by (simp_all add: answer_after_def Set_checker_def Set_GetMethods_def Set_Insert_def Set_Erase_def)
  show "answer_after Register_checker past ''get'' a = Some (vw_int (int (length (calls_of ''add'' past))))"
    using register_state [of past] by (simp add: answer_after_def Register_checker_def Register_GetMethods_def Register_get_def)
  show "answer_after Mutex_checker past ''Lock'' a = Some (vw_int (if locked past then 1 else 0))"
    using mutex_state [of past] by (simp add: answer_after_def Mutex_checker_def Mutex_GetMethods_def LinearMutex_Lock_def split_def Let_def)
  show "case holders past of None \<Rightarrow> True | Some (writer, readers) \<Rightarrow>
        answer_after Shared_checker past ''lock'' a = Some (vw_int (if writer \<or> 0 < readers then 1 else 0))
        \<and> answer_after Shared_checker past ''lock_shared'' a = Some (vw_int (if writer then 1 else 0))
        \<and> answer_after Shared_checker past ''unlock'' a = Some (vw_int 0)
        \<and> answer_after Shared_checker past ''unlock_shared'' a = Some (vw_int 0)"
    using shared_state [of past]
    by (auto simp: answer_after_def Shared_checker_def Shared_GetMethods_def Shared_lock_def Shared_unlock_def Shared_lock_shared_def
        Shared_unlock_shared_def FREE_def WRITER_def split_def Let_def split: option.splits)
  show "answer_after UniqueArgs_checker past ''Get'' a = Some (vw_opt (if length (calls_of ''Get'' past) mod 3 = 2 then Some 3 else None))"
    using unique_state [of past] by (simp add: answer_after_def UniqueArgs_checker_def UniqueArgs_GetMethods_def UniqueArgs_Get_def limit_def Let_def)
qed (simp_all add: answer_after_def method_tables LinearMutex_Unlock_def)

end
