(* ===== verification/Deadlock_Target.thy ===== *)
theory Deadlock_Target
  imports Token_Targets
begin

text \<open>
  All executions of the target \<open>verifying/targets/deadlock.cpp\<close>, with any number of calls: when they are stuck, and that nothing else
  goes wrong. The calls with an even value take the first mutex first, the ones with an odd value the second.
\<close>

declare split_paired_All [simp del] split_paired_Ex [simp del]

section \<open>Executions\<close>

text \<open>
  \<open>T\<close> gives the running call of every token, with its value. Calls begin with a new token; any call whose token is not
  parked may run a slice.
\<close>

inductive dl_run :: "dl_test world \<Rightarrow> (token_ref \<rightharpoonup> int \<times> dl_pc) \<Rightarrow> bool" where
  start: "dl_run dl_world Map.empty"
| call: "\<lbrakk>dl_run w T; genToken w = (w', tok)\<rbrakk> \<Longrightarrow> dl_run w' (T(tok \<mapsto> (v, Dl_Lock1 tok v)))"
| slice: "\<lbrakk>dl_run w T; T tok = Some (v, c); \<not> w_parked w tok; deadlock_step c w = Inr (w', Yield k)\<rbrakk>
    \<Longrightarrow> dl_run w' (T(tok \<mapsto> (v, k)))"
| ret: "\<lbrakk>dl_run w T; T tok = Some (v, c); \<not> w_parked w tok; deadlock_step c w = Inr (w', Return r)\<rbrakk>
    \<Longrightarrow> dl_run w' (T(tok := None))"

text \<open>The mutexes by number; a call with the value \<open>v\<close> takes \<open>even v\<close> first.\<close>

definition dl_mu :: "bool \<Rightarrow> dl_test \<Rightarrow> token_mutex" where
  "dl_mu one x = (if one then dl_mu1 x else dl_mu2 x)"

definition dl_put :: "bool \<Rightarrow> token_mutex \<Rightarrow> dl_test \<Rightarrow> dl_test" where
  "dl_put one m x = (if one then x\<lparr>dl_mu1 := m\<rparr> else x\<lparr>dl_mu2 := m\<rparr>)"

lemma dl_mu_put [simp]: "dl_mu b (dl_put c m x) = (if b = c then m else dl_mu b x)"
  by (simp add: dl_mu_def dl_put_def)

lemma dl_Lock_eq: "dl_Lock b tok k w = (w\<lparr>w_state := dl_put b (dl_mu b (w_state w) @ [tok]) (w_state w),
     w_parked := (if dl_mu b (w_state w) = [] then w_parked w else (w_parked w)(tok := True))\<rparr>,
   if dl_mu b (w_state w) = [] then None else Some (Yield k))"
  by (simp add: dl_Lock_def Lock_in_eq dl_mu_def dl_put_def)

definition owns :: "bool \<Rightarrow> token_ref \<Rightarrow> dl_test \<Rightarrow> bool" where
  "owns b t x \<longleftrightarrow> (\<exists>ts. dl_mu b x = t # ts)"

definition dl_at :: "dl_test \<Rightarrow> token_ref \<Rightarrow> int \<Rightarrow> dl_pc \<Rightarrow> bool" where
  "dl_at x t v c \<longleftrightarrow>
     c = Dl_Lock1 t v \<and> (\<forall>b. t \<notin> set (dl_mu b x))
     \<or> c = Dl_Yield1 t v \<and> t \<in> set (dl_mu (even v) x) \<and> t \<notin> set (dl_mu (odd v) x)
     \<or> c = Dl_Lock2 t v \<and> owns (even v) t x \<and> t \<notin> set (dl_mu (odd v) x)
     \<or> c = Dl_Yield2 \<and> owns (even v) t x \<and> t \<in> set (dl_mu (odd v) x)
     \<or> c = Dl_Unlock \<and> owns (even v) t x \<and> owns (odd v) t x"

definition dl_inv :: "dl_test world \<Rightarrow> (token_ref \<rightharpoonup> int \<times> dl_pc) \<Rightarrow> bool" where
  "dl_inv w T \<longleftrightarrow> (\<forall>b. distinct (dl_mu b (w_state w)) \<and> set (dl_mu b (w_state w)) \<subseteq> dom T)
     \<and> (\<forall>t. w_parked w t \<longleftrightarrow> (\<exists>b. t \<in> set (tl (dl_mu b (w_state w)))))
     \<and> (\<forall>t v c. T t = Some (v, c) \<longrightarrow> t < w_next_token w \<and> dl_at (w_state w) t v c)"

lemma dl_invD:
  assumes "dl_inv w T"
  shows "distinct (dl_mu b (w_state w))" "set (dl_mu b (w_state w)) \<subseteq> dom T"
    "w_parked w t \<longleftrightarrow> (\<exists>b. t \<in> set (tl (dl_mu b (w_state w))))"
    "T t = Some (v, c) \<Longrightarrow> t < w_next_token w" "T t = Some (v, c) \<Longrightarrow> dl_at (w_state w) t v c"
  using assms unfolding dl_inv_def by blast+

lemma owns_unparked:
  assumes "dl_inv w T" "\<not> w_parked w t" "t \<in> set (dl_mu b (w_state w))"
  shows "owns b t (w_state w)"
proof (cases "dl_mu b (w_state w)")
  case (Cons u us)
  then have "t \<notin> set us" using assms(2) dl_invD(3) [OF assms(1), of t] by (metis list.sel(3))
  then show ?thesis using assms(3) Cons by (simp add: owns_def)
qed (use assms(3) in simp)

section \<open>The invariant\<close>

lemma dl_at_waits:
  assumes "dl_at x t v c" "t \<noteq> tok"
  shows "dl_at (dl_put b (dl_mu b x @ [tok]) x) t v c"
proof -
  let ?y = "dl_put b (dl_mu b x @ [tok]) x"
  have "t \<in> set (dl_mu a ?y) \<longleftrightarrow> t \<in> set (dl_mu a x)" "owns a t x \<Longrightarrow> owns a t ?y" for a
    using assms(2) by (auto simp: owns_def)
  then show ?thesis using assms(1) unfolding dl_at_def by blast
qed

text \<open>A call joins the queue of a mutex.\<close>

lemma dl_inv_lock:
  assumes inv: "dl_inv w T" and T: "T tok = Some (v, c)" and p: "\<not> w_parked w tok" "tok \<notin> set (dl_mu b (w_state w))"
    and lock: "dl_Lock b tok k w = (w', e)" and at: "dl_at (w_state w') tok v k'"
  shows "dl_inv w' (T(tok \<mapsto> (v, k')))"
proof -
  note i = dl_invD [OF inv]
  have w': "w_state w' = dl_put b (dl_mu b (w_state w) @ [tok]) (w_state w)" "w_next_token w' = w_next_token w"
    "w_parked w' = (if dl_mu b (w_state w) = [] then w_parked w else (w_parked w)(tok := True))"
    using lock by (auto simp: dl_Lock_eq)
  have "distinct (dl_mu a (w_state w')) \<and> set (dl_mu a (w_state w')) \<subseteq> dom (T(tok \<mapsto> (v, k')))" for a
    using i(1) [of a] i(2) [of a] p(2) by (auto simp: w'(1))
  moreover have "w_parked w' t \<longleftrightarrow> (\<exists>a. t \<in> set (tl (dl_mu a (w_state w'))))" for t
  proof -
    have "t \<in> set (tl (dl_mu a (w_state w'))) \<longleftrightarrow> t \<in> set (tl (dl_mu a (w_state w))) \<or> a = b \<and> dl_mu b (w_state w) \<noteq> [] \<and> t = tok" for a
      by (cases "dl_mu b (w_state w)") (auto simp: w'(1))
    then show ?thesis using i(3) [of t] by (auto simp: w'(3))
  qed
  moreover have "t < w_next_token w' \<and> dl_at (w_state w') t u d" if "(T(tok \<mapsto> (v, k'))) t = Some (u, d)" for t u d
    using that at i(4,5) T dl_at_waits [of "w_state w" t u d tok b] w'(1,2) by (cases "t = tok") auto
  ultimately show ?thesis unfolding dl_inv_def by blast
qed

lemma dl_inv_moves:
  assumes inv: "dl_inv w T" and T: "T tok = Some (v, c)" and at: "dl_at (w_state w) tok v k"
  shows "dl_inv w (T(tok \<mapsto> (v, k)))"
proof -
  note i = dl_invD [OF inv]
  have "set (dl_mu a (w_state w)) \<subseteq> dom (T(tok \<mapsto> (v, k)))" for a using i(2) [of a] by auto
  moreover have "t < w_next_token w \<and> dl_at (w_state w) t u d" if "(T(tok \<mapsto> (v, k))) t = Some (u, d)" for t u d
    using that at i(4,5) T by (cases "t = tok") auto
  ultimately show ?thesis using i(1,3) unfolding dl_inv_def by blast
qed

lemma dl_inv_slice:
  assumes inv: "dl_inv w T" and T: "T tok = Some (v, c)" and p: "\<not> w_parked w tok"
    and st: "deadlock_step c w = Inr (w', Yield k)"
  shows "dl_inv w' (T(tok \<mapsto> (v, k)))"
proof -
  have par: "(v mod 2 = 0) = even v" "(v mod 2 \<noteq> 0) = odd v" by presburger+
  note at = dl_invD(5) [OF inv T]
  from at consider (lock1) "c = Dl_Lock1 tok v" "\<forall>b. tok \<notin> set (dl_mu b (w_state w))"
    | (yield1) "c = Dl_Yield1 tok v" "tok \<in> set (dl_mu (even v) (w_state w))" "tok \<notin> set (dl_mu (odd v) (w_state w))"
    | (lock2) "c = Dl_Lock2 tok v" "owns (even v) tok (w_state w)" "tok \<notin> set (dl_mu (odd v) (w_state w))"
    | (yield2) "c = Dl_Yield2" "owns (even v) tok (w_state w)" "tok \<in> set (dl_mu (odd v) (w_state w))"
    | (unlock) "c = Dl_Unlock" unfolding dl_at_def by blast
  then show ?thesis
  proof cases
    case lock1
    obtain w1 e where l: "dl_Lock (even v) tok (Dl_Yield1 tok v) w = (w1, e)" by (cases "dl_Lock (even v) tok (Dl_Yield1 tok v) w")
    have k: "w' = w1" "k = (if dl_mu (even v) (w_state w) = [] then Dl_Lock2 tok v else Dl_Yield1 tok v)"
      using st l by (auto simp: lock1(1) par dl_Lock_eq split: if_splits)
    have "dl_at (w_state w') tok v k" using l lock1(2) by (auto simp: k dl_at_def owns_def dl_Lock_eq)
    then show ?thesis using dl_inv_lock [OF inv T p _ l, of k] lock1(2) k(1) by simp
  next
    case yield1
    have "dl_at (w_state w) tok v (Dl_Lock2 tok v)" using yield1 owns_unparked [OF inv p yield1(2)] by (simp add: dl_at_def)
    then show ?thesis using dl_inv_moves [OF inv T] st by (simp add: yield1(1))
  next
    case lock2
    obtain w1 e where l: "dl_Lock (odd v) tok Dl_Yield2 w = (w1, e)" by (cases "dl_Lock (odd v) tok Dl_Yield2 w")
    have k: "w' = w1" "k = (if dl_mu (odd v) (w_state w) = [] then Dl_Unlock else Dl_Yield2)"
      using st l by (auto simp: lock2(1) par dl_Lock_eq split: if_splits)
    have "dl_at (w_state w') tok v k" using l lock2(2) by (auto simp: k dl_at_def owns_def dl_Lock_eq)
    then show ?thesis using dl_inv_lock [OF inv T p lock2(3) l, of k] k(1) by simp
  next
    case yield2
    have "dl_at (w_state w) tok v Dl_Unlock" using yield2 owns_unparked [OF inv p yield2(3)] by (simp add: dl_at_def)
    then show ?thesis using dl_inv_moves [OF inv T] st by (simp add: yield2(1))
  next
    case unlock
    then show ?thesis using st by (auto simp: res_bind_Inr_iff)
  qed
qed

text \<open>A call that holds both mutexes: whoever waits for one of them does not hold or wait for the other.\<close>

lemma dl_waiters:
  assumes inv: "dl_inv w T" and own: "\<And>b. dl_mu b (w_state w) = tok # ts b" and u: "u \<in> set (ts b)"
  obtains v where "T u = Some (v, Dl_Yield1 u v)" "even v = b" "u \<notin> set (ts (\<not> b))"
proof -
  note i = dl_invD [OF inv]
  have n: "u \<noteq> tok" using i(1) [of b] own u by auto
  obtain v c where T: "T u = Some (v, c)" using i(2) [of b] own u by force
  have "\<not> owns a u (w_state w)" for a using own n by (simp add: owns_def)
  then have "c = Dl_Yield1 u v \<and> u \<in> set (dl_mu (even v) (w_state w)) \<and> u \<notin> set (dl_mu (odd v) (w_state w))"
    using i(5) [OF T] u own by (auto simp: dl_at_def)
  moreover from this have "even v = b" using own u n by (cases "even v"; cases b) auto
  ultimately show ?thesis using own T n by (intro that [of v]) (cases b; auto)+
qed

lemma deadlock_unlock:
  assumes "dl_mu1 (w_state w) = tok # ts" "dl_mu2 (w_state w) = tok # us"
  shows "deadlock_step Dl_Unlock w = Inr (w\<lparr>w_state := \<lparr>dl_mu1 = ts, dl_mu2 = us\<rparr>,
      w_parked := (\<lambda>t. w_parked w t \<and> (ts = [] \<or> t \<noteq> hd ts) \<and> (us = [] \<or> t \<noteq> hd us))\<rparr>, Return void_v)"
proof -
  have "w_state w = \<lparr>dl_mu1 = tok # ts, dl_mu2 = tok # us\<rparr>" using assms by (cases "w_state w") simp
  then show ?thesis by (cases ts; cases us) (auto simp: Unlock_in_eq fun_eq_iff intro!: dl_test.equality)
qed

lemma dl_inv_ret:
  assumes inv: "dl_inv w T" and T: "T tok = Some (v, c)" and p: "\<not> w_parked w tok"
    and st: "deadlock_step c w = Inr (w', Return r)"
  shows "dl_inv w' (T(tok := None))"
proof -
  note i = dl_invD [OF inv]
  have c: "c = Dl_Unlock" using st by (cases c) (auto simp: dl_Lock_eq split: if_splits)
  then have "owns (even v) tok (w_state w)" "owns (odd v) tok (w_state w)" using i(5) [OF T] by (auto simp: dl_at_def)
  then have own: "owns b tok (w_state w)" for b by (cases b; cases "even v") auto
  define ts where "ts b = tl (dl_mu b (w_state w))" for b
  have mu: "dl_mu b (w_state w) = tok # ts b" for b using own [of b] by (auto simp: owns_def ts_def)
  have w': "w' = w\<lparr>w_state := \<lparr>dl_mu1 = ts True, dl_mu2 = ts False\<rparr>, w_parked := (\<lambda>t. w_parked w t
      \<and> (ts True = [] \<or> t \<noteq> hd (ts True)) \<and> (ts False = [] \<or> t \<noteq> hd (ts False)))\<rparr>"
    using deadlock_unlock [of w tok "ts True" "ts False"] mu [of True] mu [of False] st by (simp add: c dl_mu_def)
  have mu': "dl_mu b (w_state w') = ts b" for b by (simp add: w' dl_mu_def)
  have d: "distinct (ts b)" "tok \<notin> set (ts b)" for b using i(1) [of b] mu by auto
  have apart: "t \<notin> set (ts (\<not> b))" if "t \<in> set (ts b)" for t b using dl_waiters [OF inv mu that] by blast
  have "w_parked w' t \<longleftrightarrow> (\<exists>b. t \<in> set (tl (ts b)))" for t
  proof -
    have tl: "t \<in> set (tl (ts b)) \<longleftrightarrow> t \<in> set (ts b) \<and> (ts b = [] \<or> t \<noteq> hd (ts b))" for b
      using d(1) [of b] by (cases "ts b") auto
    have "w_parked w t \<longleftrightarrow> (\<exists>b. t \<in> set (ts b))" using i(3) [of t] by (simp add: mu)
    then show ?thesis unfolding tl using apart [of t True] apart [of t False] by (auto simp: w' ex_bool_eq)
  qed
  moreover have "u < w_next_token w' \<and> dl_at (w_state w') u v' c'" if u: "(T(tok := None)) u = Some (v', c')" for u v' c'
  proof -
    from u have Tu: "T u = Some (v', c')" and n: "u \<noteq> tok" by (auto split: if_splits)
    have no: "\<not> owns b u (w_state w)" for b using mu n by (simp add: owns_def)
    then have "dl_at (w_state w') u v' c'" using i(5) [OF Tu] n by (auto simp: dl_at_def mu mu')
    then show ?thesis using i(4) [OF Tu] by (simp add: w')
  qed
  moreover have "set (ts b) \<subseteq> dom (T(tok := None))" for b using i(2) [of b] d(2) [of b] mu by auto
  ultimately show ?thesis using d(1) unfolding dl_inv_def by (simp add: mu')
qed

lemma dl_run_inv: "dl_run w T \<Longrightarrow> dl_inv w T"
proof (induction rule: dl_run.induct)
  case start
  show ?case by (simp add: dl_inv_def dl_world_def target_world_def dl_mu_def)
next
  case (call w T w' tok v)
  note i = dl_invD [OF call.IH]
  have tok: "tok = w_next_token w" using call.hyps(2) by (simp add: genToken_def)
  have new: "T tok = None" using i(4) [of tok] by (cases "T tok") (auto simp: tok)
  then have free: "tok \<notin> set (dl_mu b (w_state w))" for b using i(2) [of b] by auto
  then have "\<not> w_parked w tok" using i(3) [of tok] list.set_sel(2) by (metis list.sel(2))
  then have w': "w_state w' = w_state w" "w_parked w' = w_parked w" "w_next_token w' = Suc (w_next_token w)"
    using call.hyps(2) tok by (auto simp: genToken_def fun_upd_idem)
  have "t < w_next_token w' \<and> dl_at (w_state w') t u d" if "(T(tok \<mapsto> (v, Dl_Lock1 tok v))) t = Some (u, d)" for t u d
    using that i(4) [of t u d] i(5) [of t u d] free tok w' by (cases "t = tok") (auto simp: dl_at_def)
  moreover have "set (dl_mu b (w_state w)) \<subseteq> dom (T(tok \<mapsto> (v, Dl_Lock1 tok v)))" for b using i(2) [of b] by auto
  ultimately show ?case using i(1,3) w'(1,2) unfolding dl_inv_def by simp
qed (blast intro: dl_inv_slice dl_inv_ret)+

section \<open>Properties\<close>

text \<open>
  C39. The deadlock of the target \<open>deadlock.cpp\<close>. In every execution, with any number of calls, no assertion fails for a call that may
  run. If there are calls and all of them are parked, then one with an even value owns the first mutex and waits for the second, and one with an odd
  value owns the second mutex and waits for the first; so calls whose values have the same parity are never stuck. Two threads get there:
  the round robin strategy ends in the assertion that reports a deadlock, and the random strategy does so for some choices of threads, while
  for others the round ends.
\<close>

theorem deadlock_target_stuck:
  assumes "dl_run w T"
  shows "(\<forall>t v c e. T t = Some (v, c) \<longrightarrow> \<not> w_parked w t \<longrightarrow> deadlock_step c w \<noteq> Inl e)
    \<and> (T \<noteq> Map.empty \<longrightarrow> (\<forall>t \<in> dom T. w_parked w t) \<longrightarrow> (\<exists>t v ts u v' us. even v \<and> odd v'
         \<and> T t = Some (v, Dl_Yield2) \<and> dl_mu1 (w_state w) = t # ts \<and> u \<in> set ts
         \<and> T u = Some (v', Dl_Yield2) \<and> dl_mu2 (w_state w) = u # us \<and> t \<in> set us))
    \<and> fails_with ''deadlock'' dl_round_rr \<and> fails_with ''deadlock'' (dl_round_random ([], [0, 1, 0, 1]))
    \<and> unreported (dl_round_random ([], [0, 0, 0, 1, 1, 1]))"
proof -
  note inv = dl_run_inv [OF assms]
  note i = dl_invD [OF inv]
  have "deadlock_step c w \<noteq> Inl e" if T: "T t = Some (v, c)" "\<not> w_parked w t" for t v c e
  proof (cases c)
    case Dl_Unlock
    then have "owns (even v) t (w_state w)" "owns (odd v) t (w_state w)" using i(5) [OF T(1)] by (auto simp: dl_at_def)
    then obtain ts us where "dl_mu1 (w_state w) = t # ts" "dl_mu2 (w_state w) = t # us"
      by (cases "even v") (auto simp: owns_def dl_mu_def)
    then show ?thesis unfolding Dl_Unlock by (simp add: deadlock_unlock del: deadlock_step.simps)
  qed (simp_all add: dl_Lock_eq)
  moreover have "\<exists>t v ts u v' us. even v \<and> odd v' \<and> T t = Some (v, Dl_Yield2) \<and> dl_mu1 (w_state w) = t # ts \<and> u \<in> set ts
      \<and> T u = Some (v', Dl_Yield2) \<and> dl_mu2 (w_state w) = u # us \<and> t \<in> set us"
    if ne: "T \<noteq> Map.empty" and stuck: "\<forall>t \<in> dom T. w_parked w t"
  proof -
    have step: "\<exists>t v ts. dl_mu b (w_state w) = t # ts \<and> t \<in> set (tl (dl_mu (\<not> b) (w_state w))) \<and> T t = Some (v, Dl_Yield2) \<and> even v = b"
      if q: "dl_mu b (w_state w) \<noteq> []" for b
    proof -
      obtain t ts where t: "dl_mu b (w_state w) = t # ts" using q by (cases "dl_mu b (w_state w)") auto
      then obtain v c where T: "T t = Some (v, c)" using i(2) [of b] by fastforce
      then obtain a where a: "t \<in> set (tl (dl_mu a (w_state w)))" using stuck i(3) [of t] by (auto simp: dom_def)
      have "t \<notin> set ts" using i(1) [of b] t by simp
      then have ab: "a = (\<not> b)" using a t by (cases a; cases b) auto
      have "\<not> owns a t (w_state w)" using a i(1) [of a] by (auto simp: owns_def)
      moreover have "t \<in> set (dl_mu a (w_state w))" using a by (cases "dl_mu a (w_state w)") auto
      ultimately have "c = Dl_Yield2 \<and> even v = b" using i(5) [OF T] t ab by (cases b; cases "even v") (auto simp: dl_at_def owns_def)
      then show ?thesis using t T a ab by blast
    qed
    from ne obtain t where "t \<in> dom T" by fastforce
    then obtain b where "t \<in> set (tl (dl_mu b (w_state w)))" using stuck i(3) [of t] by auto
    then have b: "dl_mu b (w_state w) \<noteq> []" by auto
    with step [of b] have "dl_mu (\<not> b) (w_state w) \<noteq> []" by fastforce
    with b have "dl_mu True (w_state w) \<noteq> []" "dl_mu False (w_state w) \<noteq> []" by (cases b; simp)+
    from step [OF this(1)] step [OF this(2)] show ?thesis by (auto simp: dl_mu_def)
  qed
  ultimately show ?thesis using dl_rr_deadlock dl_random_deadlock dl_random_ends by blast
qed

text \<open>The two calls that wait for each other.\<close>

definition dl_stuck :: "dl_test world" where
  "dl_stuck = \<lparr>w_state = \<lparr>dl_mu1 = [0, 1], dl_mu2 = [1, 0]\<rparr>, w_parked = (\<lambda>_. False)(0 := True, 1 := True), w_next_token = 2, w_status = None\<rparr>"

lemma dl_stuck_run: "dl_run dl_stuck [0 \<mapsto> (0, Dl_Yield2), 1 \<mapsto> (1, Dl_Yield2)]"
proof -
  let ?w = "\<lambda>m1 m2 p n. \<lparr>w_state = \<lparr>dl_mu1 = m1, dl_mu2 = m2\<rparr>, w_parked = p, w_next_token = n, w_status = None\<rparr> :: dl_test world"
  note defs = dl_world_def target_world_def genToken_def dl_Lock_eq dl_mu_def dl_put_def dl_stuck_def fun_upd_idem
  have 1: "dl_run (?w [] [] (\<lambda>_. False) 1) [0 \<mapsto> (0, Dl_Lock1 0 0)]"
    using dl_run.call [OF dl_run.start, of "?w [] [] (\<lambda>_. False) 1" 0 0] by (simp add: defs)
  have 2: "dl_run (?w [] [] (\<lambda>_. False) 2) [0 \<mapsto> (0, Dl_Lock1 0 0), 1 \<mapsto> (1, Dl_Lock1 1 1)]"
    using dl_run.call [OF 1, of "?w [] [] (\<lambda>_. False) 2" 1 1] by (simp add: defs)
  have 3: "dl_run (?w [0] [] (\<lambda>_. False) 2) [0 \<mapsto> (0, Dl_Lock2 0 0), 1 \<mapsto> (1, Dl_Lock1 1 1)]"
    using dl_run.slice [OF 2, of 0 0 "Dl_Lock1 0 0" "?w [0] [] (\<lambda>_. False) 2" "Dl_Lock2 0 0"] by (simp add: defs fun_upd_twist)
  have 4: "dl_run (?w [0] [1] (\<lambda>_. False) 2) [0 \<mapsto> (0, Dl_Lock2 0 0), 1 \<mapsto> (1, Dl_Lock2 1 1)]"
    using dl_run.slice [OF 3, of 1 1 "Dl_Lock1 1 1" "?w [0] [1] (\<lambda>_. False) 2" "Dl_Lock2 1 1"] by (simp add: defs)
  have 5: "dl_run (?w [0] [1, 0] ((\<lambda>_. False)(0 := True)) 2) [0 \<mapsto> (0, Dl_Yield2), 1 \<mapsto> (1, Dl_Lock2 1 1)]"
    using dl_run.slice [OF 4, of 0 0 "Dl_Lock2 0 0" "?w [0] [1, 0] ((\<lambda>_. False)(0 := True)) 2" Dl_Yield2] by (simp add: defs fun_upd_twist)
  show ?thesis
    using dl_run.slice [OF 5, of 1 1 "Dl_Lock2 1 1" dl_stuck Dl_Yield2] by (simp add: defs)
qed

theorem deadlock_target_stuck_witness:
  "\<exists>t ts u us. dl_mu1 (w_state dl_stuck) = t # ts \<and> u \<in> set ts \<and> dl_mu2 (w_state dl_stuck) = u # us \<and> t \<in> set us"
proof -
  let ?T = "[0 \<mapsto> (0 :: int, Dl_Yield2), 1 \<mapsto> (1, Dl_Yield2)]"
  have "?T 0 \<noteq> None" by simp
  then have "?T \<noteq> Map.empty" by (metis (no_types))
  moreover have "\<forall>t \<in> dom ?T. w_parked dl_stuck t" by (auto simp: dl_stuck_def)
  ultimately show ?thesis using deadlock_target_stuck [OF dl_stuck_run] by blast
qed

end
