(* ===== verification/Fault_Detection.thy ===== *)
theory Fault_Detection
  imports Replay_Faithful Register_Targets Nonlinear_Queue Slots_Set
begin

text \<open>
  Faulty targets under the exhaustive scheduler. A script leads to one execution of the step relation of
  \<open>Tla_Exhaustive\<close>; the execution stays possible with more threads, larger bounds and more methods. As \<open>Run\<close> enumerates
  all executions, it cannot end without a report when the history of one of them is refused.
\<close>

declare split_paired_All [simp del] split_paired_Ex [simp del]

section \<open>Scripts of executions\<close>

text \<open>One step: the thread, and the index of the constructor when it has to start a task.\<close>

definition script_step ::
    "('o, 'a, 'c) tla_params \<Rightarrow> ('o, 'c) target_step \<Rightarrow> nat \<times> nat \<Rightarrow> ('o, 'a, 'c) execution \<Rightarrow> ('o, 'a, 'c) execution option" where
  "script_step P step s e = (case s of (t, i) \<Rightarrow>
     if t < length (ex_threads e) \<and> \<not> complete P e then
       let new = idle (ex_threads e ! t);
           e1 = (if new then with_task (tla_constructors P ! i) t e else switched t e);
           c = last (ex_threads e1 ! t) in
       if (if new then ex_started e \<noteq> tla_max_tasks P \<and> length (ex_threads e ! t) < tla_max_depth P \<and> i < length (tla_constructors P)
           else \<not> IsParked (ex_world e) c \<and> ex_switches e1 \<le> tla_max_switches P)
       then (case step (co_ctx c) (w_state (ex_world e1)) of
           Inl _ \<Rightarrow> None
         | Inr _ \<Rightarrow> exec_resume (step_body step) t new e1)
       else None
     else None)"

fun run_script ::
    "('o, 'a, 'c) tla_params \<Rightarrow> ('o, 'c) target_step \<Rightarrow> (nat \<times> nat) list \<Rightarrow> ('o, 'a, 'c) execution \<Rightarrow> ('o, 'a, 'c) execution option" where
  "run_script P step [] e = Some e"
| "run_script P step (s # ss) e = (case script_step P step s e of None \<Rightarrow> None | Some e' \<Rightarrow> run_script P step ss e')"

text \<open>Parameters that allow at least as much, for as many tasks.\<close>

definition at_least :: "('o, 'a, 'c) tla_params \<Rightarrow> ('o, 'a, 'c) tla_params \<Rightarrow> bool" where
  "at_least P0 P \<longleftrightarrow> tla_max_tasks P = tla_max_tasks P0 \<and> tla_max_switches P0 \<le> tla_max_switches P
     \<and> tla_max_depth P0 \<le> tla_max_depth P \<and> set (tla_constructors P0) \<subseteq> set (tla_constructors P)"

text \<open>More threads, which have not started a task.\<close>

definition wide :: "nat \<Rightarrow> ('o, 'a, 'c) execution \<Rightarrow> ('o, 'a, 'c) execution" where
  "wide m e = e\<lparr>ex_threads := ex_threads e @ replicate m []\<rparr>"

lemma wide_sel [simp]:
  "ex_threads (wide m e) = ex_threads e @ replicate m []" "ex_world (wide m e) = ex_world e" "ex_started (wide m e) = ex_started e"
  "ex_finished (wide m e) = ex_finished e" "ex_switches (wide m e) = ex_switches e" "ex_order (wide m e) = ex_order e"
  "ex_seq (wide m e) = ex_seq e"
  by (simp_all add: wide_def)

lemma switched_threads [simp]: "ex_threads (switched t e) = ex_threads e" "ex_world (switched t e) = ex_world e"
  by (simp_all add: switched_def)

lemma wide_moves:
  assumes "t < length (ex_threads e)"
  shows "switched t (wide m e) = wide m (switched t e)" "with_task b t (wide m e) = wide m (with_task b t e)"
    "exec_resume body t new (wide m e) = map_option (wide m) (exec_resume body t new e)"
proof -
  show "switched t (wide m e) = wide m (switched t e)" by (simp add: switched_def wide_def)
  show "with_task b t (wide m e) = wide m (with_task b t e)"
    using assms by (simp add: with_task_def wide_def nth_append list_update_append1 split: prod.splits)
  show "exec_resume body t new (wide m e) = map_option (wide m) (exec_resume body t new e)"
    using assms by (simp add: exec_resume_def wide_def nth_append tla_set_def list_update_append1 Let_def split: sum.splits prod.splits)
qed

lemma exec_resume_implements:
  assumes "implements body step" "step (co_ctx (last (ex_threads e ! t))) (w_state (ex_world e)) = Inr x"
  shows "exec_resume body t new e = exec_resume (step_body step) t new e"
proof -
  have "body (co_ctx (last (ex_threads e ! t))) (ex_world e) = step_body step (co_ctx (last (ex_threads e ! t))) (ex_world e)"
    using assms by (cases x) (simp add: implements_def step_body_def)
  then have "Resume body (ex_world e) (last (ex_threads e ! t)) = Resume (step_body step) (ex_world e) (last (ex_threads e ! t))"
    by (simp add: Resume_def)
  then show ?thesis by (simp add: exec_resume_def Let_def)
qed

lemma script_step_tla:
  assumes s: "script_step P0 step s e = Some e'" and P: "at_least P0 P" and body: "implements body step"
  shows "tla_step P body (wide m e) (wide m e')" "length (ex_threads e') = length (ex_threads e)"
proof -
  obtain t i where ti: "s = (t, i)" by (cases s)
  let ?new = "idle (ex_threads e ! t)"
  let ?e1 = "if ?new then with_task (tla_constructors P0 ! i) t e else switched t e"
  have t: "t < length (ex_threads e)" "\<not> complete P0 e" and
    g: "if ?new then ex_started e \<noteq> tla_max_tasks P0 \<and> length (ex_threads e ! t) < tla_max_depth P0 \<and> i < length (tla_constructors P0)
        else \<not> IsParked (ex_world e) (last (ex_threads ?e1 ! t)) \<and> ex_switches ?e1 \<le> tla_max_switches P0"
    and e': "exec_resume (step_body step) t ?new ?e1 = Some e'"
    and st: "\<exists>x. step (co_ctx (last (ex_threads ?e1 ! t))) (w_state (ex_world ?e1)) = Inr x"
    using s by (simp_all add: script_step_def ti Let_def split: if_splits sum.splits)
  have res: "exec_resume body t ?new ?e1 = Some e'" using st e' exec_resume_implements [OF body] by fastforce
  have len: "length (ex_threads ?e1) = length (ex_threads e)" by (simp add: with_task_def split: prod.splits)
  then show "length (ex_threads e') = length (ex_threads e)"
    using e' by (auto simp: exec_resume_def Let_def tla_set_def split: sum.splits)
  have wres: "exec_resume body t ?new (wide m ?e1) = Some (wide m e')" using wide_moves(3) [of t ?e1] t(1) len res by simp
  have "thread_step P body t (wide m e) (wide m e')"
  proof (cases ?new)
    case True
    then have b: "tla_constructors P0 ! i \<in> set (tla_constructors P)" using g P by (auto simp: at_least_def)
    show ?thesis
      by (rule thread_step.start [OF _ _ _ b]) (use True g P t(1) wres wide_moves(2) [OF t(1), of _ m] in \<open>auto simp: at_least_def nth_append\<close>)
  next
    case False
    show ?thesis
      by (rule thread_step.resume) (use False g P t(1) wres wide_moves(1) [OF t(1), of m] in \<open>auto simp: at_least_def nth_append\<close>)
  qed
  then show "tla_step P body (wide m e) (wide m e')"
    using t P unfolding tla_step_def by (intro conjI exI [of _ t]) (auto simp: complete_def at_least_def)
qed

lemma run_script_tla:
  assumes "run_script P0 step ss e = Some e'" "at_least P0 P" "implements body step"
  shows "(tla_step P body)\<^sup>*\<^sup>* (wide m e) (wide m e') \<and> length (ex_threads e') = length (ex_threads e)"
  using assms(1)
proof (induction ss arbitrary: e)
  case (Cons s ss)
  then obtain e1 where e1: "script_step P0 step s e = Some e1" "run_script P0 step ss e1 = Some e'" by (auto split: option.splits)
  show ?case
    using script_step_tla [OF e1(1) assms(2,3)] Cons.IH [OF e1(2)] converse_rtranclp_into_rtranclp by metis
qed simp

section \<open>Faults are found\<close>

text \<open>A script that ends in a complete execution whose history the checker refuses; its tasks are those of the threads.\<close>

definition faulty_execution ::
    "('o, 'a, 'c) tla_params \<Rightarrow> ('o, 'c) target_step \<Rightarrow> 'o \<Rightarrow> nat \<Rightarrow> (nat \<times> nat) list \<Rightarrow> bool" where
  "faulty_execution P step o0 k ss = (case run_script P step ss (execution_of 0 (TLAScheduler k (target_world o0) ())) of
     None \<Rightarrow> False
   | Some e \<Rightarrow> complete P e \<and> list_all (\<lambda>r. fst r < k) (invoked (ex_seq e))
       \<and> (case tla_check P (tla_store (ex_threads e)) (ex_seq e) of Inl _ \<Rightarrow> False | Inr ok \<Rightarrow> \<not> ok))"

lemma faulty_executionD:
  assumes "faulty_execution P step o0 k ss"
  obtains e where "run_script P step ss (execution_of 0 (TLAScheduler k (target_world o0) ())) = Some e" "complete P e"
    "\<And>r. r \<in> set (invoked (ex_seq e)) \<Longrightarrow> fst r < k" "tla_check P (tla_store (ex_threads e)) (ex_seq e) = Inr False"
  using assms by (auto simp: faulty_execution_def list_all_iff split: option.splits sum.splits)

text \<open>
  The exhaustive scheduler, set up for a target: for a number of tasks, with at least the given methods, at least the
  given number of switches and two calls for a thread.
\<close>

definition fault_params ::
    "('o, 'a, 'c) task_builder list \<Rightarrow> ('a, 'c) check \<Rightarrow> nat \<Rightarrow> nat \<Rightarrow> ('o, 'a, 'c) tla_params" where
  "fault_params cs Check tasks switches = \<lparr>tla_max_tasks = tasks, tla_max_rounds = 1, tla_max_switches = switches, tla_max_depth = 2,
     tla_constructors = cs, tla_check = Check, tla_cancel = (\<lambda>w. w)\<rparr>"

definition tla_setup ::
    "('o, 'c) target_step \<Rightarrow> 'o \<Rightarrow> ('a, 's) linearizability_checker \<Rightarrow> ('o, 'a, 'c) task_builder list \<Rightarrow> nat \<Rightarrow> nat
      \<Rightarrow> ('o, 'a, 'c) tla_params \<Rightarrow> ('o, 'c, unit, 'g) runtime_env \<Rightarrow> bool" where
  "tla_setup step o0 C cs tasks switches P E \<longleftrightarrow>
     implements (env_body E) step \<and> plain_target P E o0 \<and> env_verifier E = DefaultStrategyVerifier \<and> tla_check P = Check_recursive C
     \<and> 0 < tasks \<and> tla_max_tasks P = tasks \<and> switches \<le> tla_max_switches P \<and> 2 \<le> tla_max_depth P \<and> set cs \<subseteq> set (tla_constructors P)"

text \<open>The result is the history of an execution of the scheduler's own threads that the checker refuses.\<close>

definition tla_finds ::
    "('o, 'a, 'c) tla_params \<Rightarrow> ('o, 'c, unit, 'g) runtime_env \<Rightarrow> 'o \<Rightarrow> nat \<Rightarrow> both_histories option \<Rightarrow> bool" where
  "tla_finds P E o0 n r \<longleftrightarrow> (\<exists>e. r = Some ([], ex_seq e) \<and> complete P e \<and> tla_check P (tla_store (ex_threads e)) (ex_seq e) = Inr False
     \<and> (tla_step P (env_body E))\<^sup>*\<^sup>* (execution_of 0 (TLAScheduler n (target_world o0) ())) e)"

lemma fault_found:
  assumes f: "faulty_execution (fault_params cs (Check_recursive C) tasks switches) step o0 k ss" and n: "k \<le> n"
    and set: "tla_setup step o0 C cs tasks switches P E" and r: "Tla_Run P E (TLAScheduler n (target_world o0) ()) = Inr ((is_over, r), st')"
  shows "is_over \<or> tla_finds P E o0 n r"
proof -
  let ?P0 = "fault_params cs (Check_recursive C) tasks switches"
  have P0: "tla_check ?P0 = Check_recursive C" and le: "at_least ?P0 P" "k \<le> n"
    using set n by (simp_all add: fault_params_def at_least_def tla_setup_def)
  let ?e0 = "execution_of 0 (TLAScheduler k (target_world o0) ())" and ?start = "execution_of 0 (TLAScheduler n (target_world o0) ())"
  from set have S: "implements (env_body E) step" "plain_target P E (w_state (target_world o0))" "env_verifier E = DefaultStrategyVerifier"
    "tla_check P = Check_recursive C" "0 < tla_max_tasks P" by (simp_all add: tla_setup_def target_world_def)
  have status: "w_status (target_world o0) = None" by (simp add: target_world_def)
  note X = Tla_Run_explores [OF S(2,3) status S(5) r]
  from faulty_executionD [OF f] obtain e where e: "run_script ?P0 step ss ?e0 = Some e" "complete ?P0 e"
    "\<And>r. r \<in> set (invoked (ex_seq e)) \<Longrightarrow> fst r < k" "tla_check ?P0 (tla_store (ex_threads e)) (ex_seq e) = Inr False" by blast
  have "replicate n [] = replicate k [] @ replicate (n - k) []" using le(2) by (simp flip: replicate_add)
  then have "?start = wide (n - k) ?e0" by (simp add: wide_def execution_of_def TLAScheduler_def)
  then have steps: "(tla_step P (env_body E))\<^sup>*\<^sup>* ?start (wide (n - k) e)"
    and len: "length (ex_threads e) = k"
    using run_script_tla [OF e(1) le(1) S(1), of "n - k"] by (metis, simp add: execution_of_def TLAScheduler_def)
  have c: "complete P (wide (n - k) e)" using e(2) le(1) by (simp add: complete_def at_least_def)
  have "tla_store (ex_threads e @ replicate (n - k) []) q = tla_store (ex_threads e) q" if "q \<in> set (invoked (ex_seq e))" for q
    using e(3) [OF that] len by (simp add: tla_store_def nth_append)
  then have "verdict P (wide (n - k) e) = Inr False"
    using e(4) P0 S(4) Check_recursive_cong [of "ex_seq e" "tla_store (ex_threads e @ replicate (n - k) [])" "tla_store (ex_threads e)" C]
    by (simp add: verdict_def)
  then have "\<not> accepted P (env_body E) ?start" using steps c unfolding accepted_def by auto
  then have "is_over \<or> r \<noteq> None" using X by (cases is_over; cases r) simp_all
  moreover have "tla_finds P E o0 n r" if "r \<noteq> None"
    using that X unfolding tla_finds_def refused_def verdict_def by blast
  ultimately show ?thesis by blast
qed

section \<open>When the rounds are used up\<close>

text \<open>The scheduler gives up only when it has checked as many executions as there are rounds.\<close>

definition gives_up :: "('o, 'a, 'c) tla_params \<Rightarrow> tla_result \<Rightarrow> ('o, 'a, 'c, 'v) tla_state \<Rightarrow> bool" where
  "gives_up P res st \<longleftrightarrow> (fst res \<longrightarrow> 0 < finished_rounds st \<and> finished_rounds st = tla_max_rounds P)"

lemma gives_up_simps [simp]: "gives_up P (False, r) st"
  by (simp add: gives_up_def)

lemma Tla_ResumeTask_gives_up:
  assumes rec: "\<forall>k s st res st'. rec k s st = Inr (res, st') \<longrightarrow> gives_up P res st'"
    and run: "Tla_ResumeTask rec P E fi step switches t new st = Inr (res, st')"
  shows "gives_up P res st'"
  using run unfolding Tla_ResumeTask_def Let_def
  by (auto simp: gives_up_def elim!: res_bind_Inr_E dest!: rec [rule_format] split: if_splits)

lemma run_constructors_gives_up:
  assumes rec: "\<forall>k s st res st'. rec k s st = Inr (res, st') \<longrightarrow> gives_up P res st'"
  shows "run_constructors rec P E fi step switches t bs st = Inr (res, st') \<Longrightarrow> gives_up P res st'"
proof (induction bs arbitrary: st)
  case (Cons b bs)
  then show ?case
    by (auto simp: Let_def split: if_splits prod.splits elim!: res_bind_Inr_E dest!: Tla_ResumeTask_gives_up [OF rec])
qed auto

lemma run_threads_gives_up:
  assumes rec: "\<forall>k s st res st'. rec k s st = Inr (res, st') \<longrightarrow> gives_up P res st'"
  shows "run_threads rec P E fi step switches ts ap st = Inr (res, ap', st') \<Longrightarrow> gives_up P res st'"
proof (induction ts arbitrary: ap st)
  case (Cons t ts)
  have "gives_up P r st1" if "visit_thread rec P E fi step switches t ap st = Inr (r, ap1, st1)" for r ap1 st1
    using that unfolding visit_thread_def Let_def
    by (auto split: if_splits elim!: res_bind_Inr_E dest!: Tla_ResumeTask_gives_up [OF rec] run_constructors_gives_up [OF rec])
  with Cons show ?case by (auto split: if_splits elim!: res_bind_Inr_E)
qed auto

lemma Tla_Run_gives_up:
  assumes "Tla_Run P E st = Inr (res, st')"
  shows "gives_up P res st'"
proof -
  have "Tla_RunStep n P E k s st = Inr (res, st') \<Longrightarrow> gives_up P res st'" for n k s st res st'
  proof (induction n arbitrary: k s st res st')
    case (Suc n)
    have "\<forall>k s st res st'. Tla_RunStep n P E k s st = Inr (res, st') \<longrightarrow> gives_up P res st'" using Suc.IH by blast
    from Suc.prems run_threads_gives_up [OF this] show ?case by (auto split: if_splits elim!: res_bind_Inr_E)
  qed simp
  then show ?thesis using assms unfolding Tla_Run_def by blast
qed

section \<open>The faulty register, queue and set\<close>

lemma race_faulty: "faulty_execution (fault_params register_builders (Check_recursive Register_checker) 3 1) race_register_step 0 2
    [(0, 0), (1, 0), (1, 0), (1, 0), (0, 0), (0, 0), (0, 1), (0, 0)]"
  by code_simp

lemma nq_faulty: "faulty_execution (fault_params nq_builders (Check_recursive (Queue_checker (\<lambda>v. v))) 4 1) nonlinear_queue_step nq_New 2
    [(0, 0), (0, 0), (0, 0), (0, 1), (0, 0), (1, 0), (1, 0), (1, 0), (1, 1), (1, 0), (1, 0), (1, 0), (0, 0), (0, 0)]"
  by code_simp

lemma slots_faulty: "faulty_execution (fault_params slots_builders (Check_recursive (Set_checker (\<lambda>v. v))) 4 2) slots_step slots_New 2
    [(0, 0), (1, 0), (1, 0), (1, 0), (0, 0), (1, 1), (1, 0), (1, 0), (0, 0), (0, 0), (0, 0), (0, 0), (0, 0), (0, 0), (0, 0)]"
  by code_simp

section \<open>The search on the race register ends\<close>

text \<open>The checker does not fail on a history of the register: a call of \<open>get\<close> is at its own positions, and returns an \<open>int\<close>.\<close>

definition race_at :: "(unit, reg_pc) coro \<Rightarrow> bool" where
  "race_at c \<longleftrightarrow> co_name c = ''add'' \<and> co_ctx c \<in> {Reg_Add, Reg_Ret_Void} \<union> range Reg_Store
     \<or> co_name c = ''get'' \<and> co_ctx c \<in> insert Reg_Get (range Reg_Ret) \<and> (co_is_returned c \<longrightarrow> (\<exists>v. co_ret c = vw_int v))"

lemma race_run_at:
  assumes "target_run register_calls allowed race_register_step 0 x tk h"
  shows "\<forall>r \<in> set (invoked h). race_at (tk r)"
  using assms
proof (induction rule: target_run.induct)
  case (invoke x tk h r c)
  then show ?case by (auto simp: register_calls_def race_at_def)
next
  case (yield x tk h r y e k)
  then have "race_at (tk r)" by blast
  with yield.hyps(4,5) yield.IH show ?case by (auto simp: race_at_def)
next
  case (respond x tk h r y v)
  then have "race_at (tk r)" by blast
  with respond.hyps(3,4) respond.IH show ?case by (auto simp: race_at_def)
next
  case (silent x tk h tk')
  have "race_at (tk' r) = race_at (tk r)" if "r \<in> set (invoked h)" for r
    using task_view_sel [OF silent.hyps(2) [rule_format, OF that]] by (simp add: race_at_def)
  with silent.IH show ?case by simp
qed simp

lemma race_run_checkable:
  assumes run: "target_run register_calls allowed race_register_step 0 x tk h"
  shows "checkable Register_checker tk h"
  unfolding checkable_def
proof (intro conjI ballI)
  have ok: "run_ok tk h" by (rule target_run_ok [OF run])
  then show wf: "wf_history h" by (simp add: run_ok_def)
  fix i assume i: "i \<in> invokes h"
  let ?c = "tk (GetTask (h ! i))"
  have r: "GetTask (h ! i) \<in> set (invoked h)" using i by (auto simp: invokes_def set_invoked)
  have ret: "co_is_returned ?c" if "completed h i" using completed_answered [OF wf i] that r ok by (auto simp: run_ok_def)
  from race_run_at [OF run] r have "race_at ?c" by blast
  then show "\<exists>m. specification_methods Register_checker (co_name ?c) = Some m \<and> (completed h i \<longrightarrow> co_is_returned ?c
      \<and> (\<forall>s. \<exists>b. vw_eq (snd (m s (co_args ?c))) (co_ret ?c) = Inr b))"
    using ret by (auto simp: race_at_def method_tables Register_get_def)
qed

lemma race_never_fails: "never_fails calls allowed race_register_step 0"
proof -
  have "\<exists>y e. race_register_step c x = Inr (y, e)" for c x by (cases c) auto
  then show ?thesis unfolding never_fails_def by blast
qed

fun race_rank :: "reg_pc \<Rightarrow> nat" where
  "race_rank Reg_Add = 2"
| "race_rank Reg_Get = 1"
| "race_rank (Reg_Store v) = 1"
| "race_rank _ = 0"

lemma race_sliced:
  assumes "implements (env_body E) race_register_step"
  shows "sliced_target P E race_rank 3"
proof -
  have body: "env_body E c w = (case race_register_step c (w_state w) of Inr (y, e) \<Rightarrow> (w\<lparr>w_state := y\<rparr>, e))" for c w
    using assms by (cases c) (auto simp: implements_def)
  have "race_rank c \<le> 2" for c by (cases c) auto
  moreover have "wait_free_body (env_body E) race_rank"
    unfolding wait_free_body_def body by (intro allI, rename_tac c w, case_tac c) auto
  moreover have "w_status (fst (env_body E c w)) = w_status w" for c w unfolding body by (cases c) auto
  moreover have "(3 :: nat) < max_tries" by (simp add: max_tries_def)
  ultimately show ?thesis unfolding sliced_target_def by (metis le_imp_less_Suc eval_nat_numeral(3) Suc_numeral semiring_norm(5))
qed

lemma race_judged:
  assumes set: "tla_setup race_register_step 0 Register_checker cs tasks switches P E" and bs: "builders_ok register_calls (set (tla_constructors P))"
  shows "judged P (env_body E) (execution_of 0 (TLAScheduler n (target_world 0) ()))"
  unfolding judged_def
proof (intro allI impI)
  fix e assume steps: "(tla_step P (env_body E))\<^sup>*\<^sup>* (execution_of 0 (TLAScheduler n (target_world 0) ())) e"
  have imp: "implements (env_body E) race_register_step" using set by (simp add: tla_setup_def)
  note T = never_fails_tla [OF implements_behaves [OF imp] bs race_never_fails]
  have start: "tla_target.exec_run P register_calls race_register_step 0 n (\<lambda>_. True) (execution_of 0 (TLAScheduler n (target_world 0) ()))"
    by (rule tla_target.exec_run_start [OF T]) (simp add: target_world_def)
  have run: "target_run register_calls (depth_use n (tla_max_depth P)) race_register_step 0 (w_state (ex_world e)) (tla_store (ex_threads e)) (ex_seq e)"
    by (rule tla_target.exec_runD(2) [OF T tla_target.exec_run_steps [OF T steps start]])
  show "\<exists>b. verdict P e = Inr b"
    using recursive_checker.Check_verdict [OF race_run_checkable [OF run]] set by (auto simp: verdict_def tla_setup_def)
qed

section \<open>Properties\<close>

text \<open>The search ends with a report, or after as many executions as it may check.\<close>

definition tla_detects ::
    "('o, 'a, 'c) tla_params \<Rightarrow> ('o, 'c, unit, 'g) runtime_env \<Rightarrow> 'o \<Rightarrow> nat \<Rightarrow> tla_result \<Rightarrow> ('o, 'a, 'c, unit) tla_state \<Rightarrow> bool" where
  "tla_detects P E o0 n res st \<longleftrightarrow> (if fst res then 0 < finished_rounds st \<and> finished_rounds st = tla_max_rounds P
     else tla_finds P E o0 n (snd res))"

lemma fault_detected:
  assumes "faulty_execution (fault_params cs (Check_recursive C) tasks switches) step o0 k ss" "k \<le> n"
    and "tla_setup step o0 C cs tasks switches P E" and "Tla_Run P E (TLAScheduler n (target_world o0) ()) = Inr (res, st)"
  shows "tla_detects P E o0 n res st"
  using fault_found [OF assms(1-3), of "fst res" "snd res" st] Tla_Run_gives_up [OF assms(4)] assms(4)
  by (auto simp: tla_detects_def gives_up_def)

lemma race_search_ends:
  assumes set: "tla_setup race_register_step 0 Register_checker cs tasks switches P E" and bs: "builders_ok register_calls (set (tla_constructors P))"
    and "0 < n" "tasks * 4 < env_fuel E"
  shows "\<exists>res st. Tla_Run P E (TLAScheduler n (target_world 0) ()) = Inr (res, st)"
proof -
  have S: "implements (env_body E) race_register_step" "plain_target P E (w_state (target_world 0))" "env_verifier E = DefaultStrategyVerifier"
    "w_status (target_world 0 :: int world) = None" "0 < tla_max_tasks P" "tla_max_tasks P * Suc 3 < env_fuel E"
    using set assms(4) by (simp_all add: tla_setup_def target_world_def)
  from Tla_Run_ends [OF S(2,3,4) race_sliced [OF S(1)] race_judged [OF set bs] S(5) assms(3) S(6)] show ?thesis by blast
qed

text \<open>
  C18. The exhaustive scheduler finds the faults of the race register, of the queue in an array and of the set in an array, with any
  number of threads from two on, any bounds from small ones on, and whatever other methods there are: for three calls and one switch
  (register), four calls and one switch (queue), four calls and two switches (set), the search cannot end without a report, unless it has
  checked as many executions as there are rounds. What it reports is the history of an execution of its own threads
  that the checker refuses. On the register the search ends.
\<close>

theorem faulty_targets_found:
  assumes "2 \<le> n"
    and "tla_setup race_register_step 0 Register_checker register_builders 3 1 P E" "builders_ok register_calls (set (tla_constructors P))"
      "12 < env_fuel E"
    and "tla_setup nonlinear_queue_step nq_New (Queue_checker (\<lambda>v. v)) nq_builders 4 1 Pq Eq"
    and "tla_setup slots_step slots_New (Set_checker (\<lambda>v. v)) slots_builders 4 2 Ps Es"
  shows "(\<exists>res st. Tla_Run P E (TLAScheduler n (target_world 0) ()) = Inr (res, st) \<and> tla_detects P E 0 n res st)
    \<and> (\<forall>res st. Tla_Run Pq Eq (TLAScheduler n (target_world nq_New) ()) = Inr (res, st) \<longrightarrow> tla_detects Pq Eq nq_New n res st)
    \<and> (\<forall>res st. Tla_Run Ps Es (TLAScheduler n (target_world slots_New) ()) = Inr (res, st) \<longrightarrow> tla_detects Ps Es slots_New n res st)"
proof (intro conjI allI impI)
  have "0 < n" "3 * 4 < env_fuel E" using assms(1,4) by simp_all
  from race_search_ends [OF assms(2,3) this] obtain res st where
    r: "Tla_Run P E (TLAScheduler n (target_world 0) ()) = Inr (res, st)" by blast
  with fault_detected [OF race_faulty assms(1,2) r]
  show "\<exists>res st. Tla_Run P E (TLAScheduler n (target_world 0) ()) = Inr (res, st) \<and> tla_detects P E 0 n res st" by blast
qed (rule fault_detected [OF nq_faulty assms(1,5)], assumption, rule fault_detected [OF slots_faulty assms(1,6)], assumption)

text \<open>The witness: three threads; there is no bound on the rounds of the register, and one round for the others.\<close>

definition search_env :: "('o, 'c) target_step \<Rightarrow> ('o \<Rightarrow> 'o) \<Rightarrow> ('o, 'c, unit, script) runtime_env" where
  "search_env step reset = target_env step (\<lambda>_ _. 0) reset DefaultStrategyVerifier script_random 40"

lemma search_setup:
  assumes "\<And>x. reset x = o0" "0 < tasks" "\<forall>b \<in> set cs. \<exists>nm f gen. b = target_builder nm f gen"
  shows "tla_setup step o0 C cs tasks switches (fault_params cs (Check_recursive C) tasks switches\<lparr>tla_max_rounds := k\<rparr>) (search_env step reset)"
proof -
  have "plain_body (step_body step)" by (auto simp: plain_body_def step_body_def split: sum.splits prod.splits)
  then show ?thesis
    using assms by (auto simp: tla_setup_def plain_target_def fault_params_def search_env_def target_env_def target_builder_def
        implements_step_body)
qed

abbreviation race_search :: "(tla_result \<times> (int, unit, reg_pc, unit) tla_state) res" where
  "race_search \<equiv> Tla_Run (fault_params register_builders (Check_recursive Register_checker) 3 1\<lparr>tla_max_rounds := 0\<rparr>)
     (search_env race_register_step Register_Reset) (TLAScheduler 3 (target_world 0) ())"

abbreviation nq_search :: "(tla_result \<times> (nq_queue, int, nq_pc, unit) tla_state) res" where
  "nq_search \<equiv> Tla_Run (fault_params nq_builders (Check_recursive (Queue_checker (\<lambda>v. v))) 4 1\<lparr>tla_max_rounds := 1\<rparr>)
     (search_env nonlinear_queue_step nq_Reset) (TLAScheduler 3 (target_world nq_New) ())"

abbreviation slots_search :: "(tla_result \<times> (int list, int, slots_pc, unit) tla_state) res" where
  "slots_search \<equiv> Tla_Run (fault_params slots_builders (Check_recursive (Set_checker (\<lambda>v. v))) 4 2\<lparr>tla_max_rounds := 1\<rparr>)
     (search_env slots_step slots_Reset) (TLAScheduler 3 (target_world slots_New) ())"

lemma searches_end:
  "case nq_search of Inl _ \<Rightarrow> False | Inr _ \<Rightarrow> True" "case slots_search of Inl _ \<Rightarrow> False | Inr _ \<Rightarrow> True"
  by code_simp+

theorem faulty_targets_found_witness:
  "(\<exists>r st e. race_search = Inr ((False, r), st) \<and> r = Some ([], ex_seq e)
      \<and> (tla_step (fault_params register_builders (Check_recursive Register_checker) 3 1\<lparr>tla_max_rounds := 0\<rparr>)
            (step_body race_register_step))\<^sup>*\<^sup>* (execution_of 0 (TLAScheduler 3 (target_world 0) ())) e
      \<and> Check_recursive Register_checker (tla_store (ex_threads e)) (ex_seq e) = Inr False)
    \<and> (\<exists>res st. nq_search = Inr (res, st)
      \<and> tla_detects (fault_params nq_builders (Check_recursive (Queue_checker (\<lambda>v. v))) 4 1\<lparr>tla_max_rounds := 1\<rparr>)
          (search_env nonlinear_queue_step nq_Reset) nq_New 3 res st)
    \<and> (\<exists>res st. slots_search = Inr (res, st)
      \<and> tla_detects (fault_params slots_builders (Check_recursive (Set_checker (\<lambda>v. v))) 4 2\<lparr>tla_max_rounds := 1\<rparr>)
          (search_env slots_step slots_Reset) slots_New 3 res st)"
proof -
  let ?P = "fault_params register_builders (Check_recursive Register_checker) 3 1\<lparr>tla_max_rounds := 0\<rparr>"
    and ?E = "search_env race_register_step Register_Reset"
  have P: "tla_constructors ?P = register_builders" "tla_max_rounds ?P = 0" "tla_check ?P = Check_recursive Register_checker"
    "env_body ?E = step_body race_register_step" "12 < env_fuel ?E"
    by (simp_all add: fault_params_def search_env_def target_env_def)
  have race: "tla_setup race_register_step 0 Register_checker register_builders 3 1 ?P ?E"
    by (rule search_setup) (auto simp: Register_Reset_def register_builders_def)
  have nq: "tla_setup nonlinear_queue_step nq_New (Queue_checker (\<lambda>v. v)) nq_builders 4 1
      (fault_params nq_builders (Check_recursive (Queue_checker (\<lambda>v. v))) 4 1\<lparr>tla_max_rounds := 1\<rparr>) (search_env nonlinear_queue_step nq_Reset)"
    by (rule search_setup) (auto simp: nq_Reset_def nq_New_def nq_builders_def)
  have slots: "tla_setup slots_step slots_New (Set_checker (\<lambda>v. v)) slots_builders 4 2
      (fault_params slots_builders (Check_recursive (Set_checker (\<lambda>v. v))) 4 2\<lparr>tla_max_rounds := 1\<rparr>) (search_env slots_step slots_Reset)"
    by (rule search_setup) (auto simp: slots_Reset_def slots_New_def slots_builders_def)
  have bs: "builders_ok register_calls (set (tla_constructors ?P))" using register_builders_ok P(1) by simp
  have three: "2 \<le> (3 :: nat)" by simp
  note F = faulty_targets_found [OF three race bs P(5) nq slots]
  from F obtain res st where r: "race_search = Inr (res, st)" "tla_detects ?P ?E 0 3 res st" by blast
  then have "fst res = False \<and> tla_finds ?P ?E 0 3 (snd res)" using P(2) by (auto simp: tla_detects_def split: if_splits)
  with r(1) have "\<exists>r st e. race_search = Inr ((False, r), st) \<and> r = Some ([], ex_seq e)
      \<and> (tla_step ?P (step_body race_register_step))\<^sup>*\<^sup>* (execution_of 0 (TLAScheduler 3 (target_world 0) ())) e
      \<and> Check_recursive Register_checker (tla_store (ex_threads e)) (ex_seq e) = Inr False"
    unfolding tla_finds_def P(3,4) by (cases res) auto
  moreover obtain x where "nq_search = Inr x" using searches_end(1) by (cases nq_search) auto
  moreover obtain y where "slots_search = Inr y" using searches_end(2) by (cases slots_search) auto
  ultimately show ?thesis using F by (cases x; cases y) metis
qed

end
