(* ===== verification/Spec2Isabelle.thy ===== *)
theory Spec2Isabelle
  imports Stable_Vector Entry_Point Pretty_Print Coroutine_Config Token_Mutex
    Register_Targets Rw_Spin_Lock Futex_Mutex Nonlinear_Queue Treiber_Stack Ms_Queue Slots_Set Fast_Queue
    Token_Targets Counique_Args Mutexed_Register Spec_Contracts Deadlock_Target Fault_Detection
begin

text \<open>
  \<^bold>\<open>Ltest: a verification development.\<close>

  Ltest tests whether a concurrent C++ object is linearizable. It compiles the methods of the object
  to coroutines that can be interrupted after every access to memory (\<open>codegen/\<close>), runs rounds of a few
  method calls under a scheduling strategy (\<open>runtime/\<close>), and asks a checker whether the recorded history can be
  explained by a sequential specification (\<open>verifying/specs/\<close>). A history that cannot is minimized, printed and
  reported. The objects that come with the tool are under \<open>verifying/targets/\<close> and \<open>verifying/blocking/\<close>.

  \<^bold>\<open>Conventions.\<close> Failing assertions, exceptions and undefined behaviour are values \<open>Inl e\<close> of \<open>'a res\<close> (\<open>Ltest_Prelude\<close>).
  State is passed explicitly in records. A task is named by its slot (thread, position in the thread), and
  task stores map slots to coroutine objects. Machine words have their width where it matters (the buckets of
  the stable vector, the flags, the hash functions, the lock words); other counters are natural numbers.

  \<^bold>\<open>Parts of the program and their theories.\<close>

  \<^item> Values. \<open>Value_Wrapper\<close>: \<open>runtime/include/value_wrapper.h\<close>; a wrapper compares with the comparator of its left
    operand.
  \<^item> Coroutines. \<open>Coroutine\<close>: \<open>CoroBase\<close>, \<open>Coro\<close> and \<open>Token\<close> of \<open>runtime/include/lib.h\<close> and \<open>lib.cpp\<close>, \<open>generators.cpp\<close>, and the
    hook of \<open>syscall_intercept/hook.cpp\<close>. The world (\<open>world\<close>) is the tested object, the tokens and the last status
    report. The body of a task, one slice at a time, is the parameter \<open>env_body\<close>.
  \<^item> Histories and checkers. \<open>History\<close>, \<open>Linearizability\<close>: the events of \<open>lincheck.h\<close>, and linearizability after Herlihy and
    Wing as the abstract specification. \<open>Lincheck_Recursive\<close>: \<open>lincheck_recursive.h\<close>. \<open>Lincheck_WGL\<close>, \<open>WGL_Correctness\<close>: the iterative
    checker of \<open>lincheck.h\<close> and its proof. \<open>Checkers\<close>: the interface \<open>ModelChecker\<close> as a locale with both checkers as
    interpretations. They end and decide linearizability on every history whose methods are known and whose
    values can be compared (\<open>checkable\<close>).
  \<^item> Specifications. \<open>Seq_Specs\<close>: \<open>verifying/specs/\<close> with the tables of methods. \<open>Spec_Contracts\<close>: their answers as
    functions of the calls before.
  \<^item> Container of the tasks. \<open>Stable_Vector\<close>: \<open>stable_vector.h\<close> with its 31 buckets over an explicit heap, refined to lists.
  \<^item> Verifiers. \<open>Strategy_Verifier\<close>: \<open>strategy_verifier.h\<close> and \<open>verifying/blocking/verifiers/\<close>; the locale \<open>protocol_verifier\<close> says that a
    verifier enforces a protocol for every thread.
  \<^item> Strategies. \<open>Strategy_Base\<close>, \<open>Round_Reset\<close>: \<open>BaseStrategyWithThreads\<close> of \<open>scheduler.h\<close>, termination of the tasks and reset of the round.
    \<open>Strategy_Contract\<close>: what schedulers rely on. \<open>Pick_Strategies\<close>: \<open>pick_strategy.h\<close>, \<open>round_robin_strategy.h\<close>,
    \<open>random_strategy.h\<close>. \<open>Pct_Strategy\<close>: \<open>pct_strategy.h\<close>.
  \<^item> Scheduler of rounds. \<open>Strategy_Scheduler\<close>, \<open>Round_Histories\<close>, \<open>Round_Replay\<close>, \<open>Replay_Faithful\<close>, \<open>Scheduler_Run\<close>: \<open>RunRound\<close>, \<open>ExploreRound\<close>, \<open>ReplayRound\<close>,
    \<open>Minimize\<close> and \<open>Run\<close> of \<open>StrategyScheduler\<close>. \<open>Minimization\<close>, \<open>Smart_Minimization\<close>: \<open>minimization.cpp\<close> and \<open>minimization_smart.cpp\<close>.
  \<^item> Exhaustive scheduler. \<open>Tla_Scheduler\<close>, \<open>Tla_Replay\<close>, \<open>Tla_Exhaustive\<close>, \<open>Tla_Total\<close>: \<open>TLAScheduler\<close>, which undoes steps by replaying
    the frames before them. It refines an enumeration of all executions within its bounds, and ends.
  \<^item> Entry point. \<open>Options\<close>: \<open>verifying.cpp\<close>. \<open>Entry_Point\<close>: \<open>verifying.h\<close>; the printed history is returned with the tasks of
    the run, and numbers of runs are converted from \<open>size_t\<close> to \<open>int\<close>. \<open>Pretty_Print\<close>: \<open>pretty_print.h\<close>.
  \<^item> Compiler passes. \<open>Yield_Passes\<close>: \<open>codegen/yieldpass.cpp\<close> and \<open>codegen/coyieldpass.cpp\<close> on an abstract syntax of instructions.
    Modules have functions, annotations and private constants; the passes add the declarations of their functions, the coroutine
    pass adds a constant for each call, and both fail on a declaration to which they apply.
    \<open>Coroutine_Config\<close>: the configuration of the coroutine pass and the pass as a whole; the file system, the YAML parser and the
    demangler are parameters.
  \<^item> Library of the targets. \<open>Token_Mutex\<close>: \<open>verifying/lib/mutex.h\<close>.
  \<^item> Targets. \<open>Target_Machine\<close>: a method is a machine that makes at most one access to the object in a slice; runs under any
    scheduler; the locale \<open>helping_points\<close>, by which targets are shown to be linearizable, and its special case \<open>linearization_points\<close>, in
    which calls take effect in slices of their own. \<open>Round_Targets\<close>, \<open>Guarded_Targets\<close>: rounds of
    the strategies are such runs, with the protocol of the verifier where the strategy asks it; so what holds of all
    runs holds of all rounds. \<open>Tla_Targets\<close>: the executions of the exhaustive scheduler are such runs too. \<open>Serial_Targets\<close>: calls that run alone; the locale \<open>serial_object\<close>. \<open>Scripted_Rounds\<close>: rounds with
    chosen random numbers. \<open>Register_Targets\<close>: \<open>atomic_register.cpp\<close>, \<open>race_register.cpp\<close>. \<open>Rw_Spin_Lock\<close>: \<open>folly_rwspinlock.cpp\<close>.
    \<open>Futex_Mutex\<close>: \<open>simple_mutex.cpp\<close>, \<open>nonlinear_mutex.cpp\<close>. \<open>Nonlinear_Queue\<close>, \<open>Treiber_Stack\<close>, \<open>Ms_Queue\<close>, \<open>Slots_Set\<close>, \<open>Fast_Queue\<close>: the targets
    with these names. \<open>Token_Targets\<close>: \<open>deadlock.cpp\<close> and \<open>mutex_queue.cpp\<close>, whose slices park and unpark tasks; \<open>Deadlock_Target\<close>:
    all executions of the former. \<open>Unique_Args\<close>,
    \<open>Counique_Args\<close>: \<open>unique_args.cpp\<close> and \<open>counique_args.cpp\<close>, the latter up to the exit code of its program. \<open>Mutexed_Register\<close>: \<open>mutexed_register.cpp\<close>,
    with \<open>std::mutex\<close> as a parameter; the locale \<open>std_mutex\<close> is what a mutex promises, and the futex mutex keeps it. \<open>Fault_Detection\<close>: faulty
    targets under the exhaustive scheduler.

  \<^bold>\<open>What is shown.\<close> The checkers decide linearizability and agree. A reported history is a history of the
    target that is not linearizable, through rounds, replays and minimization, up to the exit code. Rounds are
    fair, never run a parked, blocked or returned task, and are reset to a fresh state. The exhaustive
    scheduler finds every refused execution within its bounds. On the side of the targets, the correct ones are
    linearizable under every scheduler and are never reported; the faulty ones are right in serial use and
    have a round that is reported; for the race register, the array queue and the set, whose \<open>Reset\<close> restores the whole object, the exhaustive
    scheduler cannot miss the fault. The deadlock target is stuck only by calls that wait for each other. Errors of the program that modelling has shown are theorems too.

  \<^bold>\<open>Bounds and hypotheses.\<close> Loops that may not end have fuel: \<open>max_tries\<close> is the bound of ten million of \<open>Terminate\<close> itself;
    \<open>env_fuel\<close> bounds the slices of a round, and \<open>Inl Out_Of_Fuel\<close> is the outcome of a round that runs longer; the recursion of
    \<open>TLAScheduler\<close> and the coroutine pass have a fuel that the termination theorems show to be enough. \<open>random_ok\<close> is
    what the C++ library promises of \<open>std::shuffle\<close> and of the distributions. \<open>plain_target\<close> and \<open>bounded_target\<close> say
    that slices of a target depend on its state only and that its methods end. \<open>implements\<close> says that the compiled body of a
    method makes the steps of the machine. The spin lock is for fewer than \<open>2 ^ 30\<close> threads, the width of its counter of readers; the
    pools of the faulty targets are used for at most as many calls as they have nodes.

  \<^bold>\<open>Not modelled.\<close> The switch between fibers of boost.context, and C++ memory orders: the runtime interleaves slices on one
    thread, so that memory is sequentially consistent. A spurious failure of \<open>compare_exchange_weak\<close>. Helpers of the
    targets that are not declared \<open>non_atomic\<close> run in one slice in the program; their accesses are separate slices of the
    machines, which then have more runs. The registration of the LLVM plugins, the macros
    that register the target methods before \<open>main\<close>, the logger, and the text of messages other than histories.
\<close>

section \<open>Properties of several components\<close>

text \<open>
  C19. The faulty queues, the faulty stack and the faulty set are right in serial use. When calls of their methods,
  with the arguments of the generators, run one after the other, every call ends, and the answers are exactly those of the
  specification, for as many calls as the pool has nodes and, for the set, for values that have different first slots.
\<close>

theorem serial_targets_correct:
  assumes "set nq \<subseteq> nq_calls \<and> length nq \<le> nq_N" "set ms \<subseteq> ms_calls \<and> length ms \<le> ms_N"
    "set ts \<subseteq> ts_calls \<and> length ts \<le> ts_N" "set fq \<subseteq> fq_calls \<and> length fq \<le> fq_limit"
    "collision_free V \<and> set ss \<subseteq> slots_calls V"
  shows "((\<exists>y. serial nonlinear_queue_step nq nq_New y vs) \<longleftrightarrow> vs = spec_answers (Queue_checker (\<lambda>v. v)) nq \<lparr>q_deq = []\<rparr>)
    \<and> ((\<exists>y. serial ms_step ms ms_New y vs) \<longleftrightarrow> vs = spec_answers (Queue_checker (\<lambda>v. v)) ms \<lparr>q_deq = []\<rparr>)
    \<and> ((\<exists>y. serial treiber_step ts ts_New y vs) \<longleftrightarrow> vs = spec_answers (Stack_checker (\<lambda>v. v)) ts \<lparr>s_deq = []\<rparr>)
    \<and> ((\<exists>y. serial fast_queue_step fq fq_New y vs) \<longleftrightarrow> vs = spec_answers (Bounded_checker (\<lambda>v. v)) fq \<lparr>q_deq = []\<rparr>)
    \<and> ((\<exists>y. serial slots_step ss slots_New y vs) \<longleftrightarrow> vs = spec_answers (Set_checker (\<lambda>v. v)) ss (first_state (Set_checker (\<lambda>v. v))))"
proof -
  have start: "first_state (Queue_checker (\<lambda>v. v)) = \<lparr>q_deq = []\<rparr>" "first_state (Stack_checker (\<lambda>v. v)) = \<lparr>s_deq = []\<rparr>"
    "first_state (Bounded_checker (\<lambda>v. v)) = \<lparr>q_deq = []\<rparr>"
    by (simp_all add: Queue_checker_def Stack_checker_def Bounded_checker_def)
  show ?thesis
    using nonlinear_queue.serial_correct [of nq vs] ms_queue.serial_correct [of ms vs] treiber.serial_correct [of ts vs]
      fast_queue.serial_correct [of fq vs] slots_serial_answers [of V ss vs] assms unfolding start by blast
qed

theorem serial_targets_correct_witness:
  "(\<exists>y. serial nonlinear_queue_step [(''Push'', generateInt 0, Nq_Push (generateInt 0)), (''Pop'', 0, Nq_Pop)] nq_New y [void_v, vw_int 1])
    \<and> (\<exists>y. serial ms_step [(''Push'', generateInt 0, Ms_Push (generateInt 0)), (''Pop'', 0, ms_again 0 0)] ms_New y [void_v, vw_int 1])
    \<and> (\<exists>y. serial treiber_step [(''Push'', generateInt 0, Ts_Push (generateInt 0)), (''Pop'', 0, Ts_Pop)] ts_New y [void_v, vw_int 1])
    \<and> (\<exists>y. serial fast_queue_step [(''Push'', generateInt 0, Fq_Push (generateInt 0)), (''Pop'', 0, Fq_Pop)] fq_New y [vw_int 1, vw_int 1])
    \<and> (\<exists>y. serial slots_step [(''Insert'', 1 :: int, Ss_Insert 1 0), (''Insert'', 1, Ss_Insert 1 0), (''Erase'', 1, Ss_Erase 1 0)]
          slots_New y [vw_int 1, vw_int 0, vw_int 1])"
proof -
  let ?nq = "[(''Push'', generateInt 0, Nq_Push (generateInt 0)), (''Pop'', 0, Nq_Pop)]"
    and ?ms = "[(''Push'', generateInt 0, Ms_Push (generateInt 0)), (''Pop'', 0, ms_again 0 0)]"
    and ?ts = "[(''Push'', generateInt 0, Ts_Push (generateInt 0)), (''Pop'', 0, Ts_Pop)]"
    and ?fq = "[(''Push'', generateInt 0, Fq_Push (generateInt 0)), (''Pop'', 0, Fq_Pop)]"
    and ?ss = "[(''Insert'', 1 :: int, Ss_Insert 1 0), (''Insert'', 1, Ss_Insert 1 0), (''Erase'', 1, Ss_Erase 1 0)]"
  have c: "set ?nq \<subseteq> nq_calls \<and> length ?nq \<le> nq_N" "set ?ms \<subseteq> ms_calls \<and> length ?ms \<le> ms_N"
    "set ?ts \<subseteq> ts_calls \<and> length ?ts \<le> ts_N" "set ?fq \<subseteq> fq_calls \<and> length ?fq \<le> fq_limit"
    "collision_free {1} \<and> set ?ss \<subseteq> slots_calls {1}"
    by (auto simp: collision_free_def slots_calls_def nq_calls_def ms_calls_def ts_calls_def fq_calls_def nq_N_def ms_N_def ts_N_def fq_limit_def)
  have one: "generateInt 0 = 1" by (simp add: generateInt_def)
  have a: "spec_answers (Queue_checker (\<lambda>v. v)) ?nq \<lparr>q_deq = []\<rparr> = [void_v, vw_int 1]"
    "spec_answers (Queue_checker (\<lambda>v. v)) ?ms \<lparr>q_deq = []\<rparr> = [void_v, vw_int 1]"
    "spec_answers (Stack_checker (\<lambda>v. v)) ?ts \<lparr>s_deq = []\<rparr> = [void_v, vw_int 1]"
    "spec_answers (Bounded_checker (\<lambda>v. v)) ?fq \<lparr>q_deq = []\<rparr> = [vw_int 1, vw_int 1]"
    "spec_answers (Set_checker (\<lambda>v. v)) ?ss (first_state (Set_checker (\<lambda>v. v))) = [vw_int 1, vw_int 0, vw_int 1]"
    by (simp_all add: one Set_Insert_def Set_Erase_def method_tables Queue_Push_def Queue_Pop_def Stack_Push_def Stack_Pop_def Bounded_Push_def Bounded_Pop_def bounded_size_def)
  note r = serial_targets_correct [OF c]
  from r [of "[void_v, vw_int 1]"] r [of "[vw_int 1, vw_int 1]"] r [of "[vw_int 1, vw_int 0, vw_int 1]"] show ?thesis unfolding a by blast
qed

end
